(* ===== verification/Nmea_Prelude.thy ===== *)
theory Nmea_Prelude
  imports Complex_Main "HOL-Library.Word"
begin

text \<open>
  Shared vocabulary of the development: the faults a C statement can run into, two's complement
  reading of plain \<open>char\<close> and 32-bit \<open>int\<close>, block copies into fixed-size buffers, the part of the
  C library the NMEA code calls (\<open>isdigit\<close>, \<open>strtol\<close>, \<open>strtod\<close>, \<open>memchr\<close>, \<open>strlen\<close>), and the
  generic lemmas about them that the component theories use.

  Conventions.  A C byte string is a \<open>string\<close> (a list of bytes).  A C \<open>int\<close> is an \<open>int\<close> kept in
  the 32-bit range; every arithmetic step that can leave the range is wrapped with \<open>wrap32\<close>, the
  two's complement result the compilers of the targets produce.  A C \<open>double\<close> is a \<open>real\<close>:
  rounding, infinities and NaN are outside the model.
\<close>

unbundle bit_operations_syntax

named_theorems cdefs \<open>definitions of the C library model, unfolded to evaluate concrete inputs\<close>

subsection \<open>Faults\<close>

text \<open>
  What C leaves undefined is a value of its own, so that a theorem can say that it does not
  happen (or that it does).
\<close>

datatype fault =
    Null_pointer
  | Out_of_bounds
  | Buffer_overflow
  | Stack_overflow
  | Use_after_free
  | Assert_failed
  | Endless_loop
  | Int_overflow
  | Bad_argument
  | Div_by_zero

type_synonym 'a result = "fault + 'a"

definition bindR :: "'a result \<Rightarrow> ('a \<Rightarrow> 'b result) \<Rightarrow> 'b result" where
  "bindR r f = (case r of Inl e \<Rightarrow> Inl e | Inr x \<Rightarrow> f x)"

lemma bindR_simps [simp]:
  "bindR (Inl e) f = Inl e"
  "bindR (Inr x) f = f x"
  by (simp_all add: bindR_def)

lemma bindR_eq_Inr: "bindR r f = Inr y \<longleftrightarrow> (\<exists>x. r = Inr x \<and> f x = Inr y)"
  by (cases r) simp_all

lemma bindR_cong [fundef_cong]:
  "r = r' \<Longrightarrow> (\<And>x. r' = Inr x \<Longrightarrow> f x = f' x) \<Longrightarrow> bindR r f = bindR r' f'"
  by (cases r') simp_all

subsection \<open>Machine integers\<close>

definition wrap32 :: "int \<Rightarrow> int" where
  "wrap32 x = signed_take_bit 31 x"

abbreviation INT_MAX :: int where "INT_MAX \<equiv> 2147483647"
abbreviation INT_MIN :: int where "INT_MIN \<equiv> - 2147483648"

definition int_ok :: "int \<Rightarrow> bool" where
  "int_ok x \<longleftrightarrow> INT_MIN \<le> x \<and> x \<le> INT_MAX"

lemma wrap32_id [simp]: "int_ok x \<Longrightarrow> wrap32 x = x"
  by (simp add: wrap32_def int_ok_def signed_take_bit_int_eq_self)

lemma wrap32_ok [simp]: "int_ok (wrap32 x)"
  using signed_take_bit_int_greater_eq_minus_exp [of 31 x] signed_take_bit_int_less_exp [of 31 x]
  by (simp add: wrap32_def int_ok_def)

text \<open>Plain \<open>char\<close> is signed on the targets of the parser, so \<open>(int)*buff\<close> sign-extends.\<close>

definition c_int :: "char \<Rightarrow> int" where
  "c_int c = signed_take_bit 7 (of_char c)"

text \<open>The assignment \<open>x ^= y\<close> of two \<open>int\<close> values cannot leave the range.\<close>

lemma c_int_range: "- 128 \<le> c_int c \<and> c_int c < 128"
  using signed_take_bit_int_greater_eq_minus_exp [of 7 "of_char c :: int"]
    signed_take_bit_int_less_exp [of 7 "of_char c :: int"]
  by (simp add: c_int_def)

abbreviation NUL :: char where "NUL \<equiv> CHR 0x00"
abbreviation CR :: char where "CR \<equiv> CHR 0x0D"
abbreviation LF :: char where "LF \<equiv> CHR 0x0A"

subsection \<open>Copying into a fixed-size buffer\<close>

text \<open>\<open>memcpy (buf + i, src, length src)\<close>; the caller checks the bounds.\<close>

definition splice :: "'a list \<Rightarrow> nat \<Rightarrow> 'a list \<Rightarrow> 'a list" where
  "splice buf i src = take i buf @ src @ drop (i + length src) buf"

lemma length_splice [simp]:
  "i + length src \<le> length buf \<Longrightarrow> length (splice buf i src) = length buf"
  by (simp add: splice_def)

lemma take_splice [simp]:
  "i + length src \<le> length buf \<Longrightarrow> take (i + length src) (splice buf i src) = take i buf @ src"
  by (simp add: splice_def)

lemma nth_splice:
  assumes "i + length src \<le> length buf" and "k < length buf"
  shows "splice buf i src ! k =
    (if i \<le> k \<and> k < i + length src then src ! (k - i) else buf ! k)"
  using assms by (auto simp: splice_def nth_append)

lemma take_splice_0 [simp]:
  "length src \<le> length buf \<Longrightarrow> take (length src) (splice buf 0 src) = src"
  by (simp add: splice_def)

subsection \<open>The C library\<close>

definition isdigit :: "char \<Rightarrow> bool" where
  [cdefs]: "isdigit c \<longleftrightarrow> c \<in> set ''0123456789''"

definition isspace :: "char \<Rightarrow> bool" where
  [cdefs]: "isspace c \<longleftrightarrow> c \<in> {CHR '' '', CHR 0x09, LF, CHR 0x0B, CHR 0x0C, CR}"

text \<open>The length of the C string held in a byte array; \<open>None\<close> when it has no terminator.\<close>

definition cstr :: "string \<Rightarrow> string option" where
  [cdefs]: "cstr bs = (if NUL \<in> set bs then Some (takeWhile (\<lambda>c. c \<noteq> NUL) bs) else None)"

definition digit_val :: "char \<Rightarrow> int option" where
  [cdefs]: "digit_val c =
     (let n = of_char c :: int in
      if 48 \<le> n \<and> n \<le> 57 then Some (n - 48)
      else if 97 \<le> n \<and> n \<le> 122 then Some (n - 87)
      else if 65 \<le> n \<and> n \<le> 90 then Some (n - 55)
      else None)"

definition is_dig :: "int \<Rightarrow> char \<Rightarrow> bool" where
  [cdefs]: "is_dig radix c \<longleftrightarrow> (case digit_val c of None \<Rightarrow> False | Some v \<Rightarrow> v < radix)"

definition dval :: "char \<Rightarrow> int" where
  [cdefs]: "dval c = (case digit_val c of None \<Rightarrow> 0 | Some v \<Rightarrow> v)"

definition digits_val :: "int \<Rightarrow> string \<Rightarrow> int" where
  [cdefs]: "digits_val radix s = foldl (\<lambda>a c. a * radix + dval c) 0 s"

text \<open>Optional sign, as both \<open>strtol\<close> and \<open>strtod\<close> read it.\<close>

fun sign_of :: "string \<Rightarrow> int \<times> string" where
  "sign_of [] = (1, [])"
| "sign_of (c # s) =
     (if c = CHR ''-'' then (- 1, s) else if c = CHR ''+'' then (1, s) else (1, c # s))"

text \<open>Base 16 skips a \<open>0x\<close> that a hexadecimal digit follows.\<close>

fun skip_0x :: "int \<Rightarrow> string \<Rightarrow> string" where
  "skip_0x radix (z # x # d # s) =
     (if radix = 16 \<and> z = CHR ''0'' \<and> (x = CHR ''x'' \<or> x = CHR ''X'') \<and> is_dig 16 d
      then d # s else z # x # d # s)"
| "skip_0x radix s = s"

lemma skip_0x_10 [simp]: "skip_0x 10 s = s"
  by (cases "(10 :: int, s)" rule: skip_0x.cases) auto

text \<open>
  \<open>strtol\<close> with a 32-bit \<open>long\<close> (Win32 and ARM): leading white space, a sign, the digits of the
  radix; no digits give 0, and a value that does not fit is clamped.
\<close>

definition strtol :: "string \<Rightarrow> int \<Rightarrow> int" where
  [cdefs]: "strtol s radix =
     (let (sg, t) = sign_of (dropWhile isspace s);
          v = sg * digits_val radix (takeWhile (is_dig radix) (skip_0x radix t))
      in max INT_MIN (min INT_MAX v))"

lemma strtol_ok [simp]: "int_ok (strtol s radix)"
  by (auto simp: strtol_def int_ok_def Let_def split: prod.splits)

text \<open>
  \<open>strtod\<close> on its decimal syntax: white space, a sign, digits with at most one point, an
  optional decimal exponent.  The value is exact.
\<close>

definition strtod_exp :: "string \<Rightarrow> int" where
  [cdefs]: "strtod_exp s =
     (case s of
        [] \<Rightarrow> 0
      | e # t \<Rightarrow>
          (if e = CHR ''e'' \<or> e = CHR ''E'' then
             (let (sg, u) = sign_of t in sg * digits_val 10 (takeWhile isdigit u))
           else 0))"

definition scale10 :: "real \<Rightarrow> int \<Rightarrow> real" where
  [cdefs]: "scale10 r e = (if 0 \<le> e then r * 10 ^ nat e else r / 10 ^ nat (- e))"

definition strtod :: "string \<Rightarrow> real" where
  [cdefs]: "strtod s =
     (let (sg, t) = sign_of (dropWhile isspace s);
          ip = takeWhile isdigit t;
          r1 = dropWhile isdigit t;
          fp = (case r1 of [] \<Rightarrow> [] | c # r \<Rightarrow> if c = CHR ''.'' then takeWhile isdigit r else []);
          r2 = (case r1 of [] \<Rightarrow> [] | c # r \<Rightarrow> if c = CHR ''.'' then dropWhile isdigit r else r1)
      in if ip = [] \<and> fp = [] then 0
         else scale10 (of_int (sg * digits_val 10 (ip @ fp)))
                (strtod_exp r2 - int (length fp)))"

text \<open>\<open>memchr\<close>: the bytes before the first occurrence and the bytes from it on.\<close>

definition memchr :: "string \<Rightarrow> char \<Rightarrow> (string \<times> string) option" where
  [cdefs]: "memchr s c =
     (if c \<in> set s then Some (takeWhile (\<lambda>x. x \<noteq> c) s, dropWhile (\<lambda>x. x \<noteq> c) s) else None)"

lemma memchr_prefix:
  "c \<notin> set s \<Longrightarrow> memchr (s @ c # t) c = Some (s, c # t)"
  by (induction s) (auto simp: memchr_def)

lemma memchr_None: "c \<notin> set s \<Longrightarrow> memchr s c = None"
  by (simp add: memchr_def)

end
