(* ===== verification/Nmea_Types.thy ===== *)
theory Nmea_Types
  imports Nmea_Prelude
begin

text \<open>
  The data of the parser: the structs of \<open>nmea_parse.h\<close>, one \<open>record\<close> each with the fields in the
  order of the struct and the struct's short name as prefix, the packet type enumeration with its
  bit values, and the zero values \<open>rt_memset(p, 0, sizeof *p)\<close> leaves behind.
\<close>

definition NMEA_SIG_BAD :: int where "NMEA_SIG_BAD = 0"
definition NMEA_SIG_LOW :: int where "NMEA_SIG_LOW = 1"
definition NMEA_SIG_MID :: int where "NMEA_SIG_MID = 2"
definition NMEA_SIG_HIGH :: int where "NMEA_SIG_HIGH = 3"
definition NMEA_FIX_BAD :: int where "NMEA_FIX_BAD = 1"
definition NMEA_FIX_2D :: int where "NMEA_FIX_2D = 2"
definition NMEA_FIX_3D :: int where "NMEA_FIX_3D = 3"
definition NMEA_MAXSAT :: nat where "NMEA_MAXSAT = 12"
definition NMEA_SATINPACK :: nat where "NMEA_SATINPACK = 4"
definition NMEA_CONVSTR_BUF :: nat where "NMEA_CONVSTR_BUF = 256"
definition NMEA_TIMEPARSE_BUF :: nat where "NMEA_TIMEPARSE_BUF = 256"
definition NMEA_DEF_PARSEBUFF :: nat where "NMEA_DEF_PARSEBUFF = 1024"
definition NMEA_MIN_PARSEBUFF :: nat where "NMEA_MIN_PARSEBUFF = 256"
definition NMEA_TUD_KNOTS :: real where "NMEA_TUD_KNOTS = 1.852"

lemmas nmea_consts =
  NMEA_SIG_BAD_def NMEA_SIG_LOW_def NMEA_SIG_MID_def NMEA_SIG_HIGH_def
  NMEA_FIX_BAD_def NMEA_FIX_2D_def NMEA_FIX_3D_def NMEA_MAXSAT_def NMEA_SATINPACK_def
  NMEA_CONVSTR_BUF_def NMEA_TIMEPARSE_BUF_def NMEA_DEF_PARSEBUFF_def NMEA_MIN_PARSEBUFF_def
  NMEA_TUD_KNOTS_def

declare nmea_consts [cdefs]

record nmea_time =
  t_year :: int
  t_mon :: int
  t_day :: int
  t_hour :: int
  t_min :: int
  t_sec :: int
  t_hsec :: int

record nmea_satellite =
  sat_id :: int
  sat_in_use :: int
  sat_elv :: int
  sat_azimuth :: int
  sat_sig :: int

record nmea_sat_info =
  si_inuse :: int
  si_inview :: int
  si_sat :: "nmea_satellite list"

record nmea_info =
  in_smask :: int
  in_utc :: nmea_time
  in_sig :: int
  in_fix :: int
  in_PDOP :: real
  in_HDOP :: real
  in_VDOP :: real
  in_lat :: real
  in_lon :: real
  in_elv :: real
  in_speed :: real
  in_direction :: real
  in_declination :: real
  in_satinfo :: nmea_sat_info

datatype NMEA_PACK_TYPE = GPNON | GPGGA | GPGSA | GPGSV | GPRMC | GPVTG

fun pack_bit :: "NMEA_PACK_TYPE \<Rightarrow> int" where
  "pack_bit GPNON = 0x0000"
| "pack_bit GPGGA = 0x0001"
| "pack_bit GPGSA = 0x0002"
| "pack_bit GPGSV = 0x0004"
| "pack_bit GPRMC = 0x0008"
| "pack_bit GPVTG = 0x0010"

record nmea_gga =
  gga_utc :: nmea_time
  gga_lat :: real
  gga_ns :: char
  gga_lon :: real
  gga_ew :: char
  gga_sig :: int
  gga_satinuse :: int
  gga_HDOP :: real
  gga_elv :: real
  gga_elv_units :: char
  gga_diff :: real
  gga_diff_units :: char
  gga_dgps_age :: real
  gga_dgps_sid :: int

record nmea_gsa =
  gsa_fix_mode :: char
  gsa_fix_type :: int
  gsa_sat_prn :: "int list"
  gsa_PDOP :: real
  gsa_HDOP :: real
  gsa_VDOP :: real

record nmea_gsv =
  gsv_pack_count :: int
  gsv_pack_index :: int
  gsv_sat_count :: int
  gsv_sat_data :: "nmea_satellite list"

record nmea_rmc =
  rmc_utc :: nmea_time
  rmc_status :: char
  rmc_lat :: real
  rmc_ns :: char
  rmc_lon :: real
  rmc_ew :: char
  rmc_speed :: real
  rmc_direction :: real
  rmc_declination :: real
  rmc_declin_ew :: char
  rmc_mode :: char

record nmea_vtg =
  vtg_dir :: real
  vtg_dir_t :: char
  vtg_dec :: real
  vtg_dec_m :: char
  vtg_spn :: real
  vtg_spn_n :: char
  vtg_spk :: real
  vtg_spk_k :: char

text \<open>What \<open>void *pack\<close> of a parser node points to.\<close>

datatype packet =
    Pgga nmea_gga
  | Pgsa nmea_gsa
  | Pgsv nmea_gsv
  | Prmc nmea_rmc
  | Pvtg nmea_vtg

fun packet_type :: "packet \<Rightarrow> NMEA_PACK_TYPE" where
  "packet_type (Pgga p) = GPGGA"
| "packet_type (Pgsa p) = GPGSA"
| "packet_type (Pgsv p) = GPGSV"
| "packet_type (Prmc p) = GPRMC"
| "packet_type (Pvtg p) = GPVTG"

lemma packet_type_not_GPNON [simp]: "packet_type p \<noteq> GPNON" "GPNON \<noteq> packet_type p"
  by (cases p; simp)+

subsection \<open>Zeroed structs\<close>

definition zero_time :: nmea_time where
  [cdefs]: "zero_time = \<lparr>t_year = 0, t_mon = 0, t_day = 0, t_hour = 0, t_min = 0, t_sec = 0, t_hsec = 0\<rparr>"

definition zero_sat :: nmea_satellite where
  [cdefs]: "zero_sat = \<lparr>sat_id = 0, sat_in_use = 0, sat_elv = 0, sat_azimuth = 0, sat_sig = 0\<rparr>"

definition zero_info :: nmea_info where
  [cdefs]: "zero_info = \<lparr>in_smask = 0, in_utc = zero_time, in_sig = 0, in_fix = 0,
     in_PDOP = 0, in_HDOP = 0, in_VDOP = 0, in_lat = 0, in_lon = 0, in_elv = 0,
     in_speed = 0, in_direction = 0, in_declination = 0,
     in_satinfo = \<lparr>si_inuse = 0, si_inview = 0, si_sat = replicate NMEA_MAXSAT zero_sat\<rparr>\<rparr>"

text \<open>The arrays have the length their declaration gives them.\<close>

definition sat_info_wf :: "nmea_sat_info \<Rightarrow> bool" where
  "sat_info_wf si \<longleftrightarrow> length (si_sat si) = NMEA_MAXSAT"

definition info_wf :: "nmea_info \<Rightarrow> bool" where
  "info_wf i \<longleftrightarrow> sat_info_wf (in_satinfo i)"

lemma zero_info_wf [simp]: "info_wf zero_info"
  by (simp add: info_wf_def sat_info_wf_def zero_info_def)

end
