(* ===== verification/Nmea_Tok.thy ===== *)
theory Nmea_Tok
  imports Nmea_Types
begin

text \<open>
  The tokenizer of \<open>nmea_parse.c\<close>: \<open>nmea_atoi\<close>, \<open>nmea_atof\<close> and the format-driven scanner
  \<open>nmea_scanf\<close>.  The scanner's variadic targets are a list of possibly null addresses, its stores
  a map from addresses to values, and the loop over the format a recursion over the characters of
  the format that carries the loop variables.
\<close>

subsection \<open>Numbers\<close>

definition nmea_atoi :: "string \<Rightarrow> int \<Rightarrow> int" where
  [cdefs]: "nmea_atoi str radix =
     (if length str < NMEA_CONVSTR_BUF then strtol str radix else 0)"

definition nmea_atof :: "string \<Rightarrow> real" where
  [cdefs]: "nmea_atof str = (if length str < NMEA_CONVSTR_BUF then strtod str else 0)"

lemma nmea_atoi_ok [simp]: "int_ok (nmea_atoi s radix)"
  by (simp add: nmea_atoi_def int_ok_def strtol_ok [unfolded int_ok_def])

subsection \<open>The scanner\<close>

datatype tok_type = NMEA_TOKS_COMPARE | NMEA_TOKS_PERCENT | NMEA_TOKS_WIDTH

datatype sval = SChar char | SStr string | SDbl real | SInt int

text \<open>
  \<open>va_arg\<close>: the next argument, a null pointer being \<open>None\<close>.  Reading past the last argument is
  undefined in C and yields a null pointer here; no call of the library does it.
\<close>

fun va_arg :: "'t option list \<Rightarrow> 't option \<times> 't option list" where
  "va_arg [] = (None, [])"
| "va_arg (a # as) = (a, as)"

text \<open>
  The token of one conversion: \<open>c\<close> is \<open>*format\<close>, \<open>nx\<close> is \<open>format[1]\<close> (\<open>NUL\<close> at the end of the
  format), \<open>width\<close> the width read from the format, \<open>buff\<close> the bytes from \<open>buff\<close> up to \<open>end_buf\<close>.
  The result is the token and the remaining bytes, \<open>None\<close> for \<open>goto fail\<close>.
\<close>

definition scan_token :: "char \<Rightarrow> char \<Rightarrow> int \<Rightarrow> string \<Rightarrow> (string \<times> string) option" where
  [cdefs]: "scan_token c nx width buff =
     (let w = (if width = 0 \<and> (c = CHR ''c'' \<or> c = CHR ''C'') \<and> hd buff \<noteq> nx then 1 else width)
      in if w \<noteq> 0 then
           (if w \<le> int (length buff) then Some (take (nat w) buff, drop (nat w) buff) else None)
         else if nx = NUL then Some (buff, [])
         else (case memchr buff nx of None \<Rightarrow> Some (buff, []) | Some tr \<Rightarrow> Some tr))"

text \<open>
  The two \<open>switch\<close> statements over \<open>*format\<close>: which argument is taken and what is stored.  The
  first component is \<open>False\<close> for \<open>goto fail\<close>.  An empty token stores nothing.
\<close>

definition scan_store ::
    "char \<Rightarrow> string \<Rightarrow> 't option list \<Rightarrow> ('t \<rightharpoonup> sval) \<Rightarrow> bool \<times> 't option list \<times> ('t \<rightharpoonup> sval)" where
  [cdefs]: "scan_store c tok args st =
     (let first =
        (if c = CHR ''c'' \<or> c = CHR ''C'' then Some (SChar (case tok of [] \<Rightarrow> NUL | b # _ \<Rightarrow> b))
         else if c = CHR ''s'' \<or> c = CHR ''S'' then Some (SStr tok)
         else if c \<in> set ''fgGeE'' then Some (SDbl (nmea_atof tok))
         else None);
        (p, args1) = (case first of None \<Rightarrow> (None, args) | Some _ \<Rightarrow> va_arg args)
      in case p of
           Some t \<Rightarrow> (True, args1, (if tok \<noteq> [] then st(t := first) else st))
         | None \<Rightarrow>
             (let (q, args2) = va_arg args1
              in case q of
                   None \<Rightarrow> (True, args2, st)
                 | Some t \<Rightarrow>
                     (if tok = [] then (True, args2, st)
                      else if c = CHR ''d'' \<or> c = CHR ''i'' \<or> c = CHR ''u''
                        then (True, args2, st(t \<mapsto> SInt (nmea_atoi tok 10)))
                      else if c = CHR ''x'' \<or> c = CHR ''X''
                        then (True, args2, st(t \<mapsto> SInt (nmea_atoi tok 16)))
                      else if c = CHR ''o''
                        then (True, args2, st(t \<mapsto> SInt (nmea_atoi tok 8)))
                      else (False, args2, st))))"

definition next_fmt :: "string \<Rightarrow> char" where
  [cdefs]: "next_fmt fmt = (case fmt of [] \<Rightarrow> NUL | c # _ \<Rightarrow> c)"

text \<open>
  The loop \<open>for (; *format && buff < end_buf; ++format)\<close>.  \<open>dg\<close> holds the bytes from \<open>beg_fmt\<close> up
  to \<open>format\<close>; the third state of the source, \<open>NMEA_TOKS_TYPE\<close>, is entered and left within one
  iteration.
\<close>

fun scan_loop ::
    "string \<Rightarrow> tok_type \<Rightarrow> string \<Rightarrow> nat \<Rightarrow> 't option list \<Rightarrow> string \<Rightarrow> ('t \<rightharpoonup> sval)
      \<Rightarrow> nat \<times> ('t \<rightharpoonup> sval)" where
  "scan_loop [] tt dg n args buff st = (n, st)"
| "scan_loop (c # fmt) tt dg n args buff st =
     (if buff = [] then (n, st)
      else if tt = NMEA_TOKS_COMPARE then
        (if c = CHR ''%'' then scan_loop fmt NMEA_TOKS_PERCENT dg n args buff st
         else if hd buff \<noteq> c then (n, st)
         else scan_loop fmt NMEA_TOKS_COMPARE dg n args (tl buff) st)
      else
        (let dg' = (if tt = NMEA_TOKS_PERCENT then [] else dg)
         in if isdigit c then scan_loop fmt NMEA_TOKS_WIDTH (dg' @ [c]) n args buff st
            else
              (let width = (if dg' \<noteq> [] then nmea_atoi dg' 10 else 0)
               in case scan_token c (next_fmt fmt) width buff of
                    None \<Rightarrow> (n, st)
                  | Some (tok, rest) \<Rightarrow>
                      (let (ok, args', st') = scan_store c tok args st
                       in if ok then scan_loop fmt NMEA_TOKS_COMPARE [] (Suc n) args' rest st'
                          else (Suc n, st')))))"

definition nmea_scanf :: "string \<Rightarrow> string \<Rightarrow> 't option list \<Rightarrow> nat \<times> ('t \<rightharpoonup> sval)" where
  [cdefs]: "nmea_scanf buff format args =
     scan_loop format NMEA_TOKS_COMPARE [] 0 args buff Map.empty"


subsection \<open>Reading a store back\<close>

text \<open>A field of a zeroed struct after the call: what was stored at its address, or zero.\<close>

definition ld_int :: "('t \<rightharpoonup> sval) \<Rightarrow> 't \<Rightarrow> int" where
  [cdefs]: "ld_int st t = (case st t of Some (SInt i) \<Rightarrow> i | _ \<Rightarrow> 0)"

definition ld_dbl :: "('t \<rightharpoonup> sval) \<Rightarrow> 't \<Rightarrow> real" where
  [cdefs]: "ld_dbl st t = (case st t of Some (SDbl r) \<Rightarrow> r | _ \<Rightarrow> 0)"

definition ld_chr :: "('t \<rightharpoonup> sval) \<Rightarrow> 't \<Rightarrow> char" where
  [cdefs]: "ld_chr st t = (case st t of Some (SChar c) \<Rightarrow> c | _ \<Rightarrow> NUL)"

subsection \<open>What one conversion does\<close>

definition conv_val :: "char \<Rightarrow> string \<Rightarrow> sval" where
  "conv_val c fld =
     (if c = CHR ''C'' then SChar (hd fld)
      else if c = CHR ''s'' then SStr fld
      else if c = CHR ''f'' then SDbl (nmea_atof fld)
      else SInt (nmea_atoi fld 10))"

text \<open>A field that is present is stored, an empty one leaves the target alone.\<close>

definition put_conv :: "'t \<Rightarrow> char \<Rightarrow> string \<Rightarrow> ('t \<rightharpoonup> sval) \<Rightarrow> ('t \<rightharpoonup> sval)" where
  "put_conv t c fld st = (if fld = [] then st else st(t \<mapsto> conv_val c fld))"

definition chr_of :: "string \<Rightarrow> char" where
  "chr_of fld = (case fld of [] \<Rightarrow> NUL | c # _ \<Rightarrow> c)"

lemma nmea_atof_Nil [simp]: "nmea_atof [] = 0"
  by (simp add: cdefs)

lemma nmea_atoi_Nil [simp]: "nmea_atoi [] radix = 0"
  by (simp add: cdefs)

lemma put_conv_other [simp]: "t \<noteq> u \<Longrightarrow> put_conv t c fld st u = st u"
  by (simp add: put_conv_def)

lemma ld_put_conv [simp]:
  "st t = None \<Longrightarrow> ld_dbl (put_conv t (CHR ''f'') fld st) t = nmea_atof fld"
  "st t = None \<Longrightarrow> ld_int (put_conv t (CHR ''d'') fld st) t = nmea_atoi fld 10"
  "st t = None \<Longrightarrow> ld_chr (put_conv t (CHR ''C'') fld st) t = chr_of fld"
  by (auto simp: put_conv_def conv_val_def ld_dbl_def ld_int_def ld_chr_def chr_of_def
      split: list.splits)

lemma ld_put_conv_other [simp]:
  "t \<noteq> u \<Longrightarrow> ld_dbl (put_conv t c fld st) u = ld_dbl st u"
  "t \<noteq> u \<Longrightarrow> ld_int (put_conv t c fld st) u = ld_int st u"
  "t \<noteq> u \<Longrightarrow> ld_chr (put_conv t c fld st) u = ld_chr st u"
  by (simp_all add: ld_dbl_def ld_int_def ld_chr_def)

lemma ld_upd [simp]:
  "t \<noteq> u \<Longrightarrow> ld_dbl (st(t := v)) u = ld_dbl st u"
  "t \<noteq> u \<Longrightarrow> ld_int (st(t := v)) u = ld_int st u"
  "t \<noteq> u \<Longrightarrow> ld_chr (st(t := v)) u = ld_chr st u"
  "ld_int (st(t \<mapsto> SInt i)) t = i"
  by (simp_all add: ld_dbl_def ld_int_def ld_chr_def)

subsection \<open>Stepping the scanner over a symbolic sentence\<close>

declare scan_loop.simps [simp del]

lemma scan_lit:
  "c \<noteq> CHR ''%'' \<Longrightarrow>
   scan_loop (c # fmt) NMEA_TOKS_COMPARE dg n args (c # buff) st =
   scan_loop fmt NMEA_TOKS_COMPARE dg n args buff st"
  by (simp add: scan_loop.simps)

lemma scan_mismatch:
  "c \<noteq> CHR ''%'' \<Longrightarrow> b \<noteq> c \<Longrightarrow>
   scan_loop (c # fmt) NMEA_TOKS_COMPARE dg n args (b # buff) st = (n, st)"
  by (simp add: scan_loop.simps)

lemma scan_end [simp]: "scan_loop fmt tt dg n args [] st = (n, st)"
  by (cases fmt) (simp_all add: scan_loop.simps)

lemma scan_fmt_end [simp]: "scan_loop [] tt dg n args buff st = (n, st)"
  by (simp add: scan_loop.simps)

lemma scan_token_field:
  assumes "nx \<notin> set fld" and "nx \<noteq> NUL" and "c = CHR ''C'' \<longrightarrow> length fld \<le> 1" and "c \<noteq> CHR ''c''"
  shows "scan_token c nx 0 (fld @ nx # rest) = Some (fld, nx # rest)"
proof (cases "c = CHR ''C'' \<and> fld \<noteq> []")
  case True
  with assms obtain b where "fld = [b]" "b \<noteq> nx" by (cases fld) auto
  with True show ?thesis by (simp add: scan_token_def)
next
  case False
  with assms(4) have "\<not> (c = CHR ''C'' \<and> hd (fld @ nx # rest) \<noteq> nx)" by (cases fld) auto
  with assms show ?thesis by (auto simp: scan_token_def memchr_prefix)
qed

lemma scan_store_field:
  assumes "c \<in> {CHR ''C'', CHR ''s'', CHR ''f'', CHR ''d''}"
  shows "scan_store c fld (Some t # args) st = (True, args, put_conv t c fld st)"
proof -
  have "fld \<noteq> [] \<Longrightarrow> (case fld of [] \<Rightarrow> NUL | b # _ \<Rightarrow> b) = hd fld"
    by (cases fld) simp_all
  then have
    "scan_store (CHR ''C'') fld (Some t # args) st = (True, args, put_conv t (CHR ''C'') fld st)"
    "scan_store (CHR ''s'') fld (Some t # args) st = (True, args, put_conv t (CHR ''s'') fld st)"
    "scan_store (CHR ''f'') fld (Some t # args) st = (True, args, put_conv t (CHR ''f'') fld st)"
    "scan_store (CHR ''d'') fld (Some t # args) st = (True, args, put_conv t (CHR ''d'') fld st)"
    by (simp_all add: scan_store_def put_conv_def conv_val_def)
  with assms show ?thesis by blast
qed

text \<open>One separated field: \<open>%f,\<close> against \<open>field,\<close>.\<close>

lemma scan_field:
  assumes "c \<in> {CHR ''C'', CHR ''s'', CHR ''f'', CHR ''d''}"
    and "nx \<notin> set fld" and "nx \<noteq> NUL" and "nx \<noteq> CHR ''%''"
    and "c = CHR ''C'' \<longrightarrow> length fld \<le> 1"
  shows "scan_loop (CHR ''%'' # c # nx # fmt) NMEA_TOKS_COMPARE dg n (Some t # args)
           (fld @ nx # rest) st =
         scan_loop fmt NMEA_TOKS_COMPARE [] (Suc n) args rest (put_conv t c fld st)"
proof -
  have "\<not> isdigit c" and "c \<noteq> CHR ''c''" using assms(1) by (auto simp: isdigit_def)
  then show ?thesis
    using assms by (simp add: scan_loop.simps(2) next_fmt_def scan_token_field scan_store_field)
qed

text \<open>A fixed-width number: \<open>%2d\<close> against two bytes.\<close>

lemma scan_2d:
  "scan_loop (CHR ''%'' # CHR ''2'' # CHR ''d'' # fmt) NMEA_TOKS_COMPARE dg n (Some t # args)
     (a # b # rest) st =
   scan_loop fmt NMEA_TOKS_COMPARE [] (Suc n) args rest (st(t \<mapsto> SInt (nmea_atoi [a, b] 10)))"
proof -
  have "nmea_atoi ''2'' 10 = 2" by (simp add: cdefs)
  moreover have "scan_token (CHR ''d'') (next_fmt fmt) 2 (a # b # rest) = Some ([a, b], rest)"
    by (simp add: scan_token_def)
  moreover have "isdigit (CHR ''2'')" "\<not> isdigit (CHR ''d'')"
    by (simp_all add: isdigit_def)
  ultimately show ?thesis
    by (simp add: scan_loop.simps(2) scan_store_field put_conv_def conv_val_def)
qed

text \<open>A conversion at the end of the format takes the rest of the buffer.\<close>

lemma scan_last_d:
  "fld \<noteq> [] \<Longrightarrow>
   scan_loop [CHR ''%'', CHR ''d''] NMEA_TOKS_COMPARE dg n (Some t # args) fld st =
   (Suc n, st(t \<mapsto> SInt (nmea_atoi fld 10)))"
  by (simp add: scan_loop.simps(2) scan_token_def scan_store_field put_conv_def conv_val_def
      isdigit_def next_fmt_def)

lemmas scan_steps = scan_lit scan_mismatch scan_field scan_2d scan_last_d

subsection \<open>Bounds\<close>

lemma scan_loop_count:
  "fst (scan_loop fmt tt dg n args buff st) \<le>
     n + count_list fmt (CHR ''%'') + (if tt = NMEA_TOKS_COMPARE then 0 else 1)"
proof (induction fmt arbitrary: tt dg n args buff st)
  case (Cons c fmt)
  have d: "isdigit c \<Longrightarrow> c \<noteq> CHR ''%''" by (auto simp: isdigit_def)
  consider "buff = []" | "buff \<noteq> []" "tt = NMEA_TOKS_COMPARE" | "buff \<noteq> []" "tt \<noteq> NMEA_TOKS_COMPARE"
    by blast
  then show ?case
  proof cases
    case 2
    with Cons.IH [of NMEA_TOKS_PERCENT dg n args buff st]
      Cons.IH [of NMEA_TOKS_COMPARE dg n args "tl buff" st]
    show ?thesis by (simp add: scan_loop.simps(2))
  next
    case 3
    define dg' where "dg' = (if tt = NMEA_TOKS_PERCENT then [] else dg)"
    define w where "w = (if dg' \<noteq> [] then nmea_atoi dg' 10 else 0)"
    show ?thesis
    proof (cases "isdigit c")
      case True
      with 3 d Cons.IH [of NMEA_TOKS_WIDTH "dg' @ [c]" n args buff st] show ?thesis
        by (simp add: scan_loop.simps(2) dg'_def [symmetric])
    next
      case nd: False
      show ?thesis
      proof (cases "scan_token c (next_fmt fmt) w buff")
        case None
        with 3 nd show ?thesis
          by (simp add: scan_loop.simps(2) dg'_def [symmetric] w_def [symmetric])
      next
        case (Some tr)
        obtain tok rest where tr: "tr = (tok, rest)" by (cases tr)
        obtain ok args' st' where s: "scan_store c tok args st = (ok, args', st')"
          by (cases "scan_store c tok args st")
        show ?thesis
          using 3 nd Some tr s Cons.IH [of NMEA_TOKS_COMPARE "[]" "Suc n" args' rest st']
          by (simp add: scan_loop.simps(2) dg'_def [symmetric] w_def [symmetric])
      qed
    qed
  qed simp
qed simp

end
