(* ===== verification/Nmea_Sentence.thy ===== *)
theory Nmea_Sentence
  imports Nmea_Tok
begin

text \<open>
  The sentence level of \<open>nmea_parse.c\<close>: recognising a sentence in a byte stream
  (\<open>nmea_find_tail\<close>, \<open>nmea_pack_type\<close>), the time field (\<open>_nmea_parse_time\<close>) and one parser per
  sentence (\<open>nmea_parse_gga\<close> ... \<open>nmea_parse_vtg\<close>).  A parser returns the C result (1 or 0)
  together with the struct it has filled, or the fault it runs into.
\<close>

subsection \<open>Finding a sentence\<close>

text \<open>
  The loop of \<open>nmea_find_tail\<close> from byte \<open>nread\<close> on, with the checksum so far; the result is
  the returned byte count and \<open>*res_crc\<close>.  The source's \<open>buff = 0\<close> marks the exits that keep
  \<open>nread\<close> although no checksum was accepted.
\<close>

fun find_tail_loop :: "nat \<Rightarrow> int \<Rightarrow> string \<Rightarrow> nat \<times> int" where
  "find_tail_loop nread crc [] = (0, - 1)"
| "find_tail_loop nread crc (c # s) =
     (if c = CHR ''$'' \<and> nread \<noteq> 0 then (nread, - 1)
      else if c = CHR ''*'' then
        (if 4 \<le> length s \<and> s ! 2 = CR \<and> s ! 3 = LF then
           (let res_crc = nmea_atoi (take 2 s) 16
            in if res_crc \<noteq> crc then (nread + 5, - 1)
               else if res_crc < 0 then (0, res_crc)
               else (nread + 5, res_crc))
         else (0, - 1))
      else find_tail_loop (Suc nread) (if nread \<noteq> 0 then crc XOR c_int c else crc) s)"

definition nmea_find_tail :: "string \<Rightarrow> nat \<times> int" where
  "nmea_find_tail buff = find_tail_loop 0 0 buff"

definition nmea_pack_type :: "string \<Rightarrow> NMEA_PACK_TYPE" where
  [cdefs]: "nmea_pack_type buff =
     (if length buff < 5 then GPNON
      else if take 5 buff = ''GPGGA'' then GPGGA
      else if take 5 buff = ''GPGSA'' then GPGSA
      else if take 5 buff = ''GPGSV'' then GPGSV
      else if take 5 buff = ''GPRMC'' then GPRMC
      else if take 5 buff = ''GPVTG'' then GPVTG
      else GPNON)"

subsection \<open>The time field\<close>

text \<open>
  The C function returns 0 or -1 and writes through \<open>res\<close>.  On a format error of the length
  nothing is written.
\<close>

definition upd_time :: "(nat \<rightharpoonup> sval) \<Rightarrow> nat \<Rightarrow> int \<Rightarrow> int" where
  [cdefs]: "upd_time st k old = (case st k of Some (SInt i) \<Rightarrow> i | _ \<Rightarrow> old)"

definition nmea_parse_time :: "string \<Rightarrow> nmea_time \<Rightarrow> int \<times> nmea_time" where
  [cdefs]: "nmea_parse_time buff res =
     (if length buff = 6 then
        (let (n, st) = nmea_scanf buff ''%2d%2d%2d'' (map Some [0, 1, 2])
         in (if n = 3 then 0 else - 1,
             res\<lparr>t_hour := upd_time st 0 (t_hour res), t_min := upd_time st 1 (t_min res),
                 t_sec := upd_time st 2 (t_sec res)\<rparr>))
      else if length buff = 8 \<or> length buff = 9 \<or> length buff = 10 then
        (let (n, st) = nmea_scanf buff ''%2d%2d%2d.%d'' (map Some [0, 1, 2, 3])
         in (if n = 4 then 0 else - 1,
             res\<lparr>t_hour := upd_time st 0 (t_hour res), t_min := upd_time st 1 (t_min res),
                 t_sec := upd_time st 2 (t_sec res), t_hsec := upd_time st 3 (t_hsec res)\<rparr>))
      else (- 1, res))"

text \<open>
  \<open>char time_buff[NMEA_TIMEPARSE_BUF]\<close> is not initialised: \<open>stk\<close> is what the stack holds there.
  \<open>%s\<close> copies the token and a terminator into it without a bound; \<open>rt_strlen\<close> then reads it.
\<close>

definition time_text :: "string \<Rightarrow> sval option \<Rightarrow> string result" where
  [cdefs]: "time_text stk v =
     (case (case v of
              Some (SStr s) \<Rightarrow>
                (if length s < NMEA_TIMEPARSE_BUF then Inr (splice stk 0 (s @ [NUL]))
                 else Inl Stack_overflow)
            | _ \<Rightarrow> Inr stk) of
        Inl e \<Rightarrow> Inl e
      | Inr tb \<Rightarrow> (case cstr tb of None \<Rightarrow> Inl Out_of_bounds | Some t \<Rightarrow> Inr t))"

text \<open>The store of \<open>%s\<close> happens inside \<open>nmea_scanf\<close>, before its result is tested.\<close>

definition time_store_ok :: "sval option \<Rightarrow> bool" where
  [cdefs]: "time_store_ok v =
     (case v of Some (SStr s) \<Rightarrow> length s < NMEA_TIMEPARSE_BUF | _ \<Rightarrow> True)"

subsection \<open>One parser per sentence\<close>

definition nmea_parse_gga :: "string \<Rightarrow> string \<Rightarrow> (int \<times> nmea_gga) result" where
  "nmea_parse_gga stk buff =
     (let (n, st) = nmea_scanf buff ''$GPGGA,%s,%f,%C,%f,%C,%d,%d,%f,%f,%C,%f,%C,%f,%d*''
                      (map Some [0, 1, 2, 3, 4, 5, 6, 7, 8, 9, 10, 11, 12, 13::nat]);
          pack = \<lparr>gga_utc = zero_time,
                  gga_lat = ld_dbl st 1, gga_ns = ld_chr st 2,
                  gga_lon = ld_dbl st 3, gga_ew = ld_chr st 4,
                  gga_sig = ld_int st 5, gga_satinuse = ld_int st 6,
                  gga_HDOP = ld_dbl st 7, gga_elv = ld_dbl st 8, gga_elv_units = ld_chr st 9,
                  gga_diff = ld_dbl st 10, gga_diff_units = ld_chr st 11,
                  gga_dgps_age = ld_dbl st 12, gga_dgps_sid = ld_int st 13\<rparr>
      in if \<not> time_store_ok (st 0) then Inl Stack_overflow
         else if n \<noteq> 14 then Inr (0, pack)
         else
           (case time_text stk (st 0) of
              Inl e \<Rightarrow> Inl e
            | Inr tm \<Rightarrow>
                (let (r, utc) = nmea_parse_time tm (gga_utc pack); pack' = pack\<lparr>gga_utc := utc\<rparr>
                 in if r \<noteq> 0 then Inr (0, pack') else Inr (1, pack'))))"

definition nmea_parse_gsa :: "string \<Rightarrow> int \<times> nmea_gsa" where
  "nmea_parse_gsa buff =
     (let (n, st) = nmea_scanf buff
            ''$GPGSA,%C,%d,%d,%d,%d,%d,%d,%d,%d,%d,%d,%d,%d,%d,%f,%f,%f*''
            (map Some [0, 1, 2, 3, 4, 5, 6, 7, 8, 9, 10, 11, 12, 13, 14, 15, 16::nat]);
          pack = \<lparr>gsa_fix_mode = ld_chr st 0, gsa_fix_type = ld_int st 1,
                  gsa_sat_prn = map (ld_int st) [2, 3, 4, 5, 6, 7, 8, 9, 10, 11, 12, 13],
                  gsa_PDOP = ld_dbl st 14, gsa_HDOP = ld_dbl st 15, gsa_VDOP = ld_dbl st 16\<rparr>
      in if n \<noteq> 17 then (0, pack) else (1, pack))"

definition gsv_sat :: "(nat \<rightharpoonup> sval) \<Rightarrow> nat \<Rightarrow> nmea_satellite" where
  "gsv_sat st k = \<lparr>sat_id = ld_int st k, sat_in_use = 0, sat_elv = ld_int st (k + 1),
                   sat_azimuth = ld_int st (k + 2), sat_sig = ld_int st (k + 3)\<rparr>"

text \<open>How many of the four slots of message \<open>pack_index\<close> are used.\<close>

definition gsv_nsat :: "int \<Rightarrow> int \<Rightarrow> int" where
  [cdefs]: "gsv_nsat pack_index sat_count =
     (let nsat = wrap32 (wrap32 (pack_index - 1) * 4)
      in if wrap32 (nsat + 4) > sat_count then wrap32 (sat_count - nsat) else 4)"

definition nmea_parse_gsv :: "string \<Rightarrow> int \<times> nmea_gsv" where
  "nmea_parse_gsv buff =
     (let (nsen, st) = nmea_scanf buff
            (''$GPGSV,%d,%d,%d,'' @ ''%d,%d,%d,%d,'' @ ''%d,%d,%d,%d,'' @ ''%d,%d,%d,%d,'' @
             ''%d,%d,%d,%d*'')
            (map Some [0, 1, 2, 3, 4, 5, 6, 7, 8, 9, 10, 11, 12, 13, 14, 15, 16, 17, 18::nat]);
          pack = \<lparr>gsv_pack_count = ld_int st 0, gsv_pack_index = ld_int st 1,
                  gsv_sat_count = ld_int st 2,
                  gsv_sat_data = map (gsv_sat st) [3, 7, 11, 15]\<rparr>;
          nsat = wrap32 (wrap32 (gsv_nsat (gsv_pack_index pack) (gsv_sat_count pack) * 4) + 3)
      in if int nsen < nsat \<or> int nsen > 19 then (0, pack) else (1, pack))"

definition nmea_parse_rmc :: "string \<Rightarrow> string \<Rightarrow> (int \<times> nmea_rmc) result" where
  "nmea_parse_rmc stk buff =
     (let (nsen, st) = nmea_scanf buff ''$GPRMC,%s,%C,%f,%C,%f,%C,%f,%f,%2d%2d%2d,%f,%C,%C*''
            (map Some [0, 1, 2, 3, 4, 5, 6, 7, 8, 9, 10, 11, 12, 13::nat]);
          pack = \<lparr>rmc_utc = zero_time\<lparr>t_day := ld_int st 8, t_mon := ld_int st 9,
                                      t_year := ld_int st 10\<rparr>,
                  rmc_status = ld_chr st 1,
                  rmc_lat = ld_dbl st 2, rmc_ns = ld_chr st 3,
                  rmc_lon = ld_dbl st 4, rmc_ew = ld_chr st 5,
                  rmc_speed = ld_dbl st 6, rmc_direction = ld_dbl st 7,
                  rmc_declination = ld_dbl st 11, rmc_declin_ew = ld_chr st 12,
                  rmc_mode = ld_chr st 13\<rparr>
      in if \<not> time_store_ok (st 0) then Inl Stack_overflow
         else if nsen \<noteq> 13 \<and> nsen \<noteq> 14 then Inr (0, pack)
         else
           (case time_text stk (st 0) of
              Inl e \<Rightarrow> Inl e
            | Inr tm \<Rightarrow>
                (let (r, utc) = nmea_parse_time tm (rmc_utc pack); pack' = pack\<lparr>rmc_utc := utc\<rparr>
                 in if r \<noteq> 0 then Inr (0, pack')
                    else
                      (let utc1 = (if t_year utc < 90 then utc\<lparr>t_year := t_year utc + 100\<rparr> else utc);
                           utc2 = utc1\<lparr>t_mon := wrap32 (t_mon utc1 - 1)\<rparr>
                       in Inr (1, pack'\<lparr>rmc_utc := utc2\<rparr>)))))"

definition nmea_parse_vtg :: "string \<Rightarrow> int \<times> nmea_vtg" where
  "nmea_parse_vtg buff =
     (let (n, st) = nmea_scanf buff ''$GPVTG,%f,%C,%f,%C,%f,%C,%f,%C*''
            (map Some [0, 1, 2, 3, 4, 5, 6, 7::nat]);
          pack = \<lparr>vtg_dir = ld_dbl st 0, vtg_dir_t = ld_chr st 1,
                  vtg_dec = ld_dbl st 2, vtg_dec_m = ld_chr st 3,
                  vtg_spn = ld_dbl st 4, vtg_spn_n = ld_chr st 5,
                  vtg_spk = ld_dbl st 6, vtg_spk_k = ld_chr st 7\<rparr>
      in if n \<noteq> 8 then (0, pack)
         else if vtg_dir_t pack \<noteq> CHR ''T'' \<or> vtg_dec_m pack \<noteq> CHR ''M'' \<or>
                 vtg_spn_n pack \<noteq> CHR ''N'' \<or> vtg_spk_k pack \<noteq> CHR ''K'' then (0, pack)
         else (1, pack))"

lemmas parse_defs = nmea_parse_gga_def nmea_parse_gsa_def nmea_parse_gsv_def nmea_parse_rmc_def
  nmea_parse_vtg_def gsv_sat_def

declare parse_defs [cdefs]

subsection \<open>The checksum\<close>

definition xor_sum :: "int \<Rightarrow> string \<Rightarrow> int" where
  "xor_sum acc s = foldl (\<lambda>a c. a XOR c_int c) acc s"

lemma xor_sum_simps [simp]:
  "xor_sum a [] = a"
  "xor_sum a (c # s) = xor_sum (a XOR c_int c) s"
  by (simp_all add: xor_sum_def)

text \<open>Bytes the loop of \<open>nmea_find_tail\<close> walks over.\<close>

definition plain :: "string \<Rightarrow> bool" where
  "plain s \<longleftrightarrow> CHR ''$'' \<notin> set s \<and> CHR ''*'' \<notin> set s"

lemma plain_simps [simp]:
  "plain []"
  "plain (c # s) \<longleftrightarrow> c \<noteq> CHR ''$'' \<and> c \<noteq> CHR ''*'' \<and> plain s"
  "plain (s @ t) \<longleftrightarrow> plain s \<and> plain t"
  by (auto simp: plain_def)

lemma find_tail_loop_plain:
  "plain s \<Longrightarrow> nread \<noteq> 0 \<Longrightarrow>
   find_tail_loop nread crc (s @ t) = find_tail_loop (nread + length s) (xor_sum crc s) t"
  by (induction s arbitrary: nread crc) auto

lemma find_tail_plain:
  "plain s \<Longrightarrow> c \<noteq> CHR ''*'' \<Longrightarrow>
   nmea_find_tail (c # s @ t) = find_tail_loop (Suc (length s)) (xor_sum 0 s) t"
  by (simp add: nmea_find_tail_def find_tail_loop_plain)

text \<open>A sentence is split off whatever follows it, a new \<open>$\<close> resynchronises, no terminator waits.\<close>

lemma find_tail_sentence:
  assumes "plain body" and "c \<noteq> CHR ''*''" and "nmea_atoi [h1, h2] 16 = xor_sum 0 body"
    and "0 \<le> xor_sum 0 body"
  shows "nmea_find_tail (c # body @ CHR ''*'' # h1 # h2 # CR # LF # rest) =
         (length body + 6, xor_sum 0 body)"
  using assms by (simp add: find_tail_plain)

lemma find_tail_bad_crc:
  assumes "plain body" and "c \<noteq> CHR ''*''" and "nmea_atoi [h1, h2] 16 \<noteq> xor_sum 0 body"
  shows "nmea_find_tail (c # body @ CHR ''*'' # h1 # h2 # CR # LF # rest) = (length body + 6, - 1)"
  using assms by (simp add: find_tail_plain)

lemma find_tail_resync:
  assumes "plain body" and "c \<noteq> CHR ''*''"
  shows "nmea_find_tail (c # body @ CHR ''$'' # rest) = (length body + 1, - 1)"
  using assms by (simp add: find_tail_plain)

lemma find_tail_incomplete:
  assumes "plain body" and "c \<noteq> CHR ''*''"
  shows "nmea_find_tail (c # body) = (0, - 1)"
  using find_tail_plain [of body c "[]"] assms by simp

lemma find_tail_Nil [simp]: "nmea_find_tail [] = (0, - 1)"
  by (simp add: nmea_find_tail_def)

lemma find_tail_loop_bound:
  "fst (find_tail_loop nread crc s) \<le> nread + length s"
  by (induction nread crc s rule: find_tail_loop.induct) (auto simp: Let_def)

lemma find_tail_bound: "fst (nmea_find_tail s) \<le> length s"
  using find_tail_loop_bound [of 0 0 s] by (simp add: nmea_find_tail_def)

lemma find_tail_loop_append:
  "fst (find_tail_loop nread crc s) \<noteq> 0 \<Longrightarrow>
   find_tail_loop nread crc (s @ t) = find_tail_loop nread crc s"
  by (induction nread crc s rule: find_tail_loop.induct)
     (auto simp: Let_def nth_append split: if_splits)

text \<open>More data never changes a decision already taken.\<close>

lemma find_tail_append:
  "fst (nmea_find_tail s) \<noteq> 0 \<Longrightarrow> nmea_find_tail (s @ t) = nmea_find_tail s"
  by (simp add: nmea_find_tail_def find_tail_loop_append)


subsection \<open>Sentences as lists of fields\<close>

text \<open>
  The reference view of a sentence: \<open>$\<close>, the header, the comma-separated fields, \<open>*\<close> and whatever
  follows.
\<close>

fun csv :: "string list \<Rightarrow> string" where
  "csv [] = []"
| "csv [f] = f"
| "csv (f # g # fs) = f @ CHR '','' # csv (g # fs)"

definition sentence :: "string \<Rightarrow> string list \<Rightarrow> string \<Rightarrow> string" where
  "sentence hdr fs tail = CHR ''$'' # hdr @ CHR '','' # csv fs @ CHR ''*'' # tail"

definition field_ok :: "string \<Rightarrow> bool" where
  "field_ok f \<longleftrightarrow> CHR '','' \<notin> set f \<and> CHR ''*'' \<notin> set f"

text \<open>A field read by \<open>%C\<close>: at most one byte.\<close>

definition char_ok :: "string \<Rightarrow> bool" where
  "char_ok f \<longleftrightarrow> field_ok f \<and> length f \<le> 1"

lemma field_okD: "field_ok f \<Longrightarrow> CHR '','' \<notin> set f" "field_ok f \<Longrightarrow> CHR ''*'' \<notin> set f"
  by (simp_all add: field_ok_def)

lemma char_okD:
  "char_ok f \<Longrightarrow> CHR '','' \<notin> set f" "char_ok f \<Longrightarrow> CHR ''*'' \<notin> set f" "char_ok f \<Longrightarrow> length f \<le> Suc 0"
  by (simp_all add: char_ok_def field_ok_def)

lemmas fieldD = field_okD char_okD

lemma time_text_present:
  assumes "length stk = NMEA_TIMEPARSE_BUF" and "length s < NMEA_TIMEPARSE_BUF" and "NUL \<notin> set s"
  shows "time_text stk (Some (SStr s)) = Inr s"
proof -
  have "takeWhile (\<lambda>c. c \<noteq> NUL) (s @ NUL # xs) = s" for xs
    using assms(3) by (induction s) auto
  then show ?thesis
    using assms(1,2) by (simp add: time_text_def cstr_def splice_def)
qed

lemma scan_vtg:
  assumes "field_ok f1" "char_ok f2" "field_ok f3" "char_ok f4" "field_ok f5" "char_ok f6"
    "field_ok f7" "char_ok f8"
  shows "nmea_scanf (sentence ''GPVTG'' [f1, f2, f3, f4, f5, f6, f7, f8] tail)
           ''$GPVTG,%f,%C,%f,%C,%f,%C,%f,%C*'' (map Some [0, 1, 2, 3, 4, 5, 6, 7::nat]) =
     (8, put_conv 7 (CHR ''C'') f8 (put_conv 6 (CHR ''f'') f7 (put_conv 5 (CHR ''C'') f6
         (put_conv 4 (CHR ''f'') f5 (put_conv 3 (CHR ''C'') f4 (put_conv 2 (CHR ''f'') f3
         (put_conv 1 (CHR ''C'') f2 (put_conv 0 (CHR ''f'') f1 Map.empty))))))))"
  using assms by (simp add: nmea_scanf_def sentence_def scan_steps fieldD)

lemma scan_gga:
  assumes "field_ok f0" "field_ok f1" "char_ok f2" "field_ok f3" "char_ok f4" "field_ok f5"
    "field_ok f6" "field_ok f7" "field_ok f8" "char_ok f9" "field_ok f10" "char_ok f11"
    "field_ok f12" "field_ok f13"
  shows "nmea_scanf
           (sentence ''GPGGA'' [f0, f1, f2, f3, f4, f5, f6, f7, f8, f9, f10, f11, f12, f13] tail)
           ''$GPGGA,%s,%f,%C,%f,%C,%d,%d,%f,%f,%C,%f,%C,%f,%d*''
           (map Some [0, 1, 2, 3, 4, 5, 6, 7, 8, 9, 10, 11, 12, 13::nat]) =
     (14, put_conv 13 (CHR ''d'') f13 (put_conv 12 (CHR ''f'') f12 (put_conv 11 (CHR ''C'') f11
          (put_conv 10 (CHR ''f'') f10 (put_conv 9 (CHR ''C'') f9 (put_conv 8 (CHR ''f'') f8
          (put_conv 7 (CHR ''f'') f7 (put_conv 6 (CHR ''d'') f6 (put_conv 5 (CHR ''d'') f5
          (put_conv 4 (CHR ''C'') f4 (put_conv 3 (CHR ''f'') f3 (put_conv 2 (CHR ''C'') f2
          (put_conv 1 (CHR ''f'') f1 (put_conv 0 (CHR ''s'') f0 Map.empty))))))))))))))"
  using assms by (simp add: nmea_scanf_def sentence_def scan_steps fieldD)

lemma scan_rmc:
  assumes "field_ok f0" "char_ok f1" "field_ok f2" "char_ok f3" "field_ok f4" "char_ok f5"
    "field_ok f6" "field_ok f7" "field_ok f11" "char_ok f12" "char_ok f13"
  shows "nmea_scanf
           (sentence ''GPRMC'' [f0, f1, f2, f3, f4, f5, f6, f7, [d1, d2, m1, m2, y1, y2],
              f11, f12, f13] tail)
           ''$GPRMC,%s,%C,%f,%C,%f,%C,%f,%f,%2d%2d%2d,%f,%C,%C*''
           (map Some [0, 1, 2, 3, 4, 5, 6, 7, 8, 9, 10, 11, 12, 13::nat]) =
     (14, put_conv 13 (CHR ''C'') f13 (put_conv 12 (CHR ''C'') f12 (put_conv 11 (CHR ''f'') f11
          ((put_conv 7 (CHR ''f'') f7 (put_conv 6 (CHR ''f'') f6 (put_conv 5 (CHR ''C'') f5
           (put_conv 4 (CHR ''f'') f4 (put_conv 3 (CHR ''C'') f3 (put_conv 2 (CHR ''f'') f2
           (put_conv 1 (CHR ''C'') f1 (put_conv 0 (CHR ''s'') f0 Map.empty))))))))
            (8 \<mapsto> SInt (nmea_atoi [d1, d2] 10), 9 \<mapsto> SInt (nmea_atoi [m1, m2] 10),
             10 \<mapsto> SInt (nmea_atoi [y1, y2] 10))))))"
  using assms by (simp add: nmea_scanf_def sentence_def scan_steps fieldD)

subsection \<open>The time field\<close>

lemma parse_time_hhmmss:
  "nmea_parse_time [h1, h2, m1, m2, s1, s2] t =
     (0, t\<lparr>t_hour := nmea_atoi [h1, h2] 10, t_min := nmea_atoi [m1, m2] 10,
           t_sec := nmea_atoi [s1, s2] 10\<rparr>)"
  by (simp add: nmea_parse_time_def nmea_scanf_def scan_steps upd_time_def)

lemma parse_time_frac:
  assumes "fr \<noteq> []" and "length fr \<le> 3"
  shows "nmea_parse_time (h1 # h2 # m1 # m2 # s1 # s2 # CHR ''.'' # fr) t =
     (0, t\<lparr>t_hour := nmea_atoi [h1, h2] 10, t_min := nmea_atoi [m1, m2] 10,
           t_sec := nmea_atoi [s1, s2] 10, t_hsec := nmea_atoi fr 10\<rparr>)"
proof -
  have "length fr = 1 \<or> length fr = 2 \<or> length fr = 3"
    using assms by (cases fr) (auto simp: le_Suc_eq numeral_3_eq_3)
  then show ?thesis
    using assms(1) by (auto simp: nmea_parse_time_def nmea_scanf_def scan_steps upd_time_def)
qed


subsection \<open>What the parsers return\<close>

text \<open>A GGA sentence with all fourteen fields is decoded field by field, an absent field being
  zero; the result is 1 exactly when the time field is well formed.\<close>

theorem gga_correct:
  assumes "field_ok f0" "field_ok f1" "char_ok f2" "field_ok f3" "char_ok f4" "field_ok f5"
    "field_ok f6" "field_ok f7" "field_ok f8" "char_ok f9" "field_ok f10" "char_ok f11"
    "field_ok f12" "field_ok f13"
    and "length stk = NMEA_TIMEPARSE_BUF"
    and "f0 \<noteq> []" and "length f0 < NMEA_TIMEPARSE_BUF" and "NUL \<notin> set f0"
  shows "nmea_parse_gga stk
      (sentence ''GPGGA'' [f0, f1, f2, f3, f4, f5, f6, f7, f8, f9, f10, f11, f12, f13] tail) =
    (let (r, utc) = nmea_parse_time f0 zero_time
     in Inr (if r = 0 then 1 else 0,
       \<lparr>gga_utc = utc, gga_lat = nmea_atof f1, gga_ns = chr_of f2, gga_lon = nmea_atof f3,
        gga_ew = chr_of f4, gga_sig = nmea_atoi f5 10, gga_satinuse = nmea_atoi f6 10,
        gga_HDOP = nmea_atof f7, gga_elv = nmea_atof f8, gga_elv_units = chr_of f9,
        gga_diff = nmea_atof f10, gga_diff_units = chr_of f11,
        gga_dgps_age = nmea_atof f12, gga_dgps_sid = nmea_atoi f13 10\<rparr>))"
proof -
  have "put_conv 0 (CHR ''s'') f0 Map.empty (0::nat) = Some (SStr f0)"
    using assms(16) by (simp add: put_conv_def conv_val_def)
  then show ?thesis
    unfolding nmea_parse_gga_def scan_gga [OF assms(1-14)]
    using assms(15-18)
    by (cases "nmea_parse_time f0 zero_time")
       (simp add: time_store_ok_def time_text_present Let_def)
qed

text \<open>An RMC sentence with all its fields and a six-byte date is decoded field by field; a
  two-digit year below 90 is taken as 20xx (years since 1900) and the month is made zero-based.\<close>

theorem rmc_correct:
  assumes "field_ok f0" "char_ok f1" "field_ok f2" "char_ok f3" "field_ok f4" "char_ok f5"
    "field_ok f6" "field_ok f7" "field_ok f11" "char_ok f12" "char_ok f13"
    and "length stk = NMEA_TIMEPARSE_BUF"
    and "f0 \<noteq> []" and "length f0 < NMEA_TIMEPARSE_BUF" and "NUL \<notin> set f0"
    and "nmea_parse_time f0
           (zero_time\<lparr>t_day := nmea_atoi [d1, d2] 10, t_mon := nmea_atoi [m1, m2] 10,
                      t_year := nmea_atoi [y1, y2] 10\<rparr>) = (0, utc)"
  shows "nmea_parse_rmc stk
      (sentence ''GPRMC'' [f0, f1, f2, f3, f4, f5, f6, f7, [d1, d2, m1, m2, y1, y2],
         f11, f12, f13] tail) =
    Inr (1,
      \<lparr>rmc_utc = utc\<lparr>t_year := (if t_year utc < 90 then t_year utc + 100 else t_year utc),
                     t_mon := wrap32 (t_mon utc - 1)\<rparr>,
       rmc_status = chr_of f1, rmc_lat = nmea_atof f2, rmc_ns = chr_of f3,
       rmc_lon = nmea_atof f4, rmc_ew = chr_of f5, rmc_speed = nmea_atof f6,
       rmc_direction = nmea_atof f7, rmc_declination = nmea_atof f11,
       rmc_declin_ew = chr_of f12, rmc_mode = chr_of f13\<rparr>)"
proof -
  have "put_conv 0 (CHR ''s'') f0 Map.empty (0::nat) = Some (SStr f0)"
    using assms(13) by (simp add: put_conv_def conv_val_def)
  then show ?thesis
    unfolding nmea_parse_rmc_def scan_rmc [OF assms(1-11)]
    using assms(12-16)
    by (simp add: time_store_ok_def time_text_present Let_def)
qed

text \<open>A VTG sentence with its eight fields is decoded field by field and accepted exactly when
  the four unit letters are T, M, N and K.\<close>

theorem vtg_correct:
  assumes "field_ok f1" "char_ok f2" "field_ok f3" "char_ok f4" "field_ok f5" "char_ok f6"
    "field_ok f7" "char_ok f8"
  shows "nmea_parse_vtg (sentence ''GPVTG'' [f1, f2, f3, f4, f5, f6, f7, f8] tail) =
    (if f2 = ''T'' \<and> f4 = ''M'' \<and> f6 = ''N'' \<and> f8 = ''K'' then 1 else 0,
     \<lparr>vtg_dir = nmea_atof f1, vtg_dir_t = chr_of f2, vtg_dec = nmea_atof f3,
      vtg_dec_m = chr_of f4, vtg_spn = nmea_atof f5, vtg_spn_n = chr_of f6,
      vtg_spk = nmea_atof f7, vtg_spk_k = chr_of f8\<rparr>)"
proof -
  have one: "char_ok f \<Longrightarrow> c \<noteq> NUL \<Longrightarrow> (chr_of f = c) = (f = [c])" for f c
    by (cases f) (auto simp: char_ok_def chr_of_def)
  show ?thesis
    unfolding nmea_parse_vtg_def scan_vtg [OF assms]
    using assms by (simp add: one Let_def)
qed

lemma find_tail_loop_sound:
  "find_tail_loop nread crc s = (n, rc) \<Longrightarrow> 0 \<le> rc \<Longrightarrow> nread \<noteq> 0 \<Longrightarrow>
   \<exists>body h1 h2 rest. s = body @ CHR ''*'' # h1 # h2 # CR # LF # rest \<and> plain body \<and>
     rc = xor_sum crc body \<and> nmea_atoi [h1, h2] 16 = rc \<and> n = nread + length body + 5"
proof (induction nread crc s rule: find_tail_loop.induct)
  case (2 nread crc c s)
  show ?case
  proof (cases "c = CHR ''*''")
    case True
    with "2.prems" have s: "4 \<le> length s" "s ! 2 = CR" "s ! 3 = LF"
      by (auto split: if_splits)
    then obtain h1 h2 x y rest where "s = h1 # h2 # x # y # rest"
      by (auto simp: numeral_eq_Suc Suc_le_length_iff)
    with s have s': "s = h1 # h2 # CR # LF # rest" by simp
    from True "2.prems" s'
    have "c # s = [] @ CHR ''*'' # h1 # h2 # CR # LF # rest \<and> plain [] \<and> rc = xor_sum crc [] \<and>
      nmea_atoi [h1, h2] 16 = rc \<and> n = nread + length [] + 5"
      by (auto simp: Let_def split: if_splits)
    then show ?thesis by blast
  next
    case False
    with "2.prems" have nd: "c \<noteq> CHR ''$''" by (auto split: if_splits)
    with False "2.prems"(3) obtain body h1 h2 rest where
      "s = body @ CHR ''*'' # h1 # h2 # CR # LF # rest" "plain body"
      "rc = xor_sum (crc XOR c_int c) body" "nmea_atoi [h1, h2] 16 = rc"
      "n = Suc nread + length body + 5"
      using "2.IH" [of] "2.prems" by auto
    with nd False
    have "c # s = (c # body) @ CHR ''*'' # h1 # h2 # CR # LF # rest \<and> plain (c # body) \<and>
      rc = xor_sum crc (c # body) \<and> nmea_atoi [h1, h2] 16 = rc \<and>
      n = nread + length (c # body) + 5" by simp
    then show ?thesis by blast
  qed
qed simp

text \<open>C13: an accepted sentence really is one: when \<open>nmea_find_tail\<close> reports a checksum, the bytes it
  counts are a first byte, a body without \<open>$\<close> and \<open>*\<close>, \<open>*\<close>, two bytes that read as the XOR of
  the body in hexadecimal, and CR LF.\<close>

theorem find_tail_sound:
  assumes "nmea_find_tail (c # s) = (n, crc)" and "0 \<le> crc" and "c \<noteq> CHR ''*''"
  shows "\<exists>body h1 h2 rest. s = body @ CHR ''*'' # h1 # h2 # CR # LF # rest \<and> plain body \<and>
    crc = xor_sum 0 body \<and> nmea_atoi [h1, h2] 16 = crc \<and> n = length body + 6"
proof -
  from assms have "find_tail_loop 1 0 s = (n, crc)"
    by (simp add: nmea_find_tail_def)
  from find_tail_loop_sound [OF this assms(2)] obtain body h1 h2 rest where
    "s = body @ CHR ''*'' # h1 # h2 # CR # LF # rest \<and> plain body \<and>
     crc = xor_sum 0 body \<and> nmea_atoi [h1, h2] 16 = crc \<and> n = length body + 6" by auto
  then show ?thesis by blast
qed

theorem find_tail_sound_witness:
  "\<exists>body h1 h2 rest. ''A'' @ [CHR ''*'', CHR ''4'', CHR ''1'', CR, LF] =
      body @ CHR ''*'' # h1 # h2 # CR # LF # rest \<and> plain body \<and>
      65 = xor_sum 0 body \<and> nmea_atoi [h1, h2] 16 = 65 \<and> 7 = length body + 6"
proof -
  have "nmea_find_tail (CHR ''$'' # ''A'' @ [CHR ''*'', CHR ''4'', CHR ''1'', CR, LF]) = (7, 65)"
    by (simp add: nmea_find_tail_def cdefs c_int_def)
  from find_tail_sound [OF this] show ?thesis by simp
qed

theorem gga_correct_witness:
  "nmea_parse_gga (replicate 256 NUL)
     (sentence ''GPGGA'' [''082006.000'', ''3852.9276'', ''N'', ''11527.4283'', ''E'', ''1'', ''08'',
        ''1.0'', ''20.6'', ''M'', [], [], [], ''0000''] ''35'') =
   Inr (1, \<lparr>gga_utc = zero_time\<lparr>t_hour := 8, t_min := 20, t_sec := 6\<rparr>,
            gga_lat = 3852.9276, gga_ns = CHR ''N'', gga_lon = 11527.4283, gga_ew = CHR ''E'',
            gga_sig = 1, gga_satinuse = 8, gga_HDOP = 1, gga_elv = 20.6,
            gga_elv_units = CHR ''M'', gga_diff = 0, gga_diff_units = NUL,
            gga_dgps_age = 0, gga_dgps_sid = 0\<rparr>)"
proof -
  have "nmea_parse_time ''082006.000'' zero_time =
      (0, zero_time\<lparr>t_hour := 8, t_min := 20, t_sec := 6\<rparr>)"
    by (simp add: parse_time_frac) (simp add: cdefs)
  then show ?thesis
    by (subst gga_correct) (simp_all add: field_ok_def char_ok_def, simp_all add: cdefs chr_of_def)
qed

theorem rmc_correct_witness:
  "nmea_parse_rmc (replicate 256 NUL)
     (sentence ''GPRMC'' [''031024.000'', ''A'', ''3115.6422'', ''N'', ''12127.5490'', ''E'', ''0.58'',
        ''98.86'', ''180918'', [], [], ''A''] ''5A'') =
   Inr (1, \<lparr>rmc_utc = \<lparr>t_year = 118, t_mon = 8, t_day = 18, t_hour = 3, t_min = 10, t_sec = 24,
                       t_hsec = 0\<rparr>,
            rmc_status = CHR ''A'', rmc_lat = 3115.6422, rmc_ns = CHR ''N'',
            rmc_lon = 12127.5490, rmc_ew = CHR ''E'', rmc_speed = 0.58, rmc_direction = 98.86,
            rmc_declination = 0, rmc_declin_ew = NUL, rmc_mode = CHR ''A''\<rparr>)"
proof -
  have "nmea_parse_time ''031024.000''
      (zero_time\<lparr>t_day := nmea_atoi ''18'' 10, t_mon := nmea_atoi ''09'' 10,
                 t_year := nmea_atoi ''18'' 10\<rparr>) =
      (0, \<lparr>t_year = 18, t_mon = 9, t_day = 18, t_hour = 3, t_min = 10, t_sec = 24, t_hsec = 0\<rparr>)"
    by (simp add: parse_time_frac) (simp add: cdefs)
  from rmc_correct [OF _ _ _ _ _ _ _ _ _ _ _ _ _ _ _ this,
      of "''A''" "''3115.6422''" "''N''" "''12127.5490''" "''E''" "''0.58''" "''98.86''" "[]" "[]"
        "''A''" "replicate 256 NUL" "''5A''"]
  show ?thesis
    by (simp add: field_ok_def char_ok_def NMEA_TIMEPARSE_BUF_def int_ok_def)
      (simp add: cdefs chr_of_def)
qed

theorem vtg_correct_witness:
  "nmea_parse_vtg (sentence ''GPVTG''
     [''217.5'', ''T'', ''208.8'', ''M'', ''000.00'', ''N'', ''000.01'', ''K''] ''4C'') =
   (1, \<lparr>vtg_dir = 217.5, vtg_dir_t = CHR ''T'', vtg_dec = 208.8, vtg_dec_m = CHR ''M'',
        vtg_spn = 0, vtg_spn_n = CHR ''N'', vtg_spk = 0.01, vtg_spk_k = CHR ''K''\<rparr>)"
  by (subst vtg_correct) (simp_all add: field_ok_def char_ok_def, simp_all add: cdefs chr_of_def)

end
