(* ===== verification/Nmea_Info.thy ===== *)
theory Nmea_Info
  imports Nmea_Sentence
begin

text \<open>
  Merging a packet into the summary \<open>nmea_info_t\<close>: \<open>nmea_gga_info\<close>, \<open>nmea_gsa_info\<close>,
  \<open>nmea_gsv_info\<close>, \<open>nmea_rmc_info\<close> and \<open>nmea_vtg_info\<close>.  The two functions that index the
  satellite table report an index outside it as \<open>Out_of_bounds\<close>.
\<close>

subsection \<open>The operations\<close>

definition signed_by :: "char \<Rightarrow> char \<Rightarrow> real \<Rightarrow> real" where
  [cdefs]: "signed_by pos c x = (if c = pos then x else - x)"

definition nmea_gga_info :: "nmea_gga \<Rightarrow> nmea_info \<Rightarrow> nmea_info" where
  [cdefs]: "nmea_gga_info pack info =
     info\<lparr>in_utc := (in_utc info)\<lparr>t_hour := t_hour (gga_utc pack), t_min := t_min (gga_utc pack),
                       t_sec := t_sec (gga_utc pack), t_hsec := t_hsec (gga_utc pack)\<rparr>,
          in_sig := gga_sig pack,
          in_HDOP := gga_HDOP pack,
          in_elv := gga_elv pack,
          in_lat := signed_by (CHR ''N'') (gga_ns pack) (gga_lat pack),
          in_lon := signed_by (CHR ''E'') (gga_ew pack) (gga_lon pack),
          in_smask := in_smask info OR pack_bit GPGGA\<rparr>"

text \<open>
  The inner loop of \<open>nmea_gsa_info\<close>: index \<open>j\<close> runs \<open>k\<close> more times over the satellite table.  The
  table is read only for a non-zero PRN, as \<open>&&\<close> short-circuits.
\<close>

fun gsa_mark ::
    "int \<Rightarrow> nat \<Rightarrow> nat \<Rightarrow> nmea_satellite list \<Rightarrow> int \<Rightarrow> (nmea_satellite list \<times> int) result" where
  "gsa_mark prn j 0 sats nuse = Inr (sats, nuse)"
| "gsa_mark prn j (Suc k) sats nuse =
     (if prn = 0 then gsa_mark prn (Suc j) k sats nuse
      else if \<not> j < length sats then Inl Out_of_bounds
      else if prn = sat_id (sats ! j) then
        gsa_mark prn (Suc j) k (sats[j := (sats ! j)\<lparr>sat_in_use := 1\<rparr>]) (nuse + 1)
      else gsa_mark prn (Suc j) k sats nuse)"

fun gsa_mark_all ::
    "int list \<Rightarrow> nat \<Rightarrow> nmea_satellite list \<Rightarrow> int \<Rightarrow> (nmea_satellite list \<times> int) result" where
  "gsa_mark_all [] n sats nuse = Inr (sats, nuse)"
| "gsa_mark_all (prn # prns) n sats nuse =
     bindR (gsa_mark prn 0 n sats nuse) (\<lambda>(sats', nuse'). gsa_mark_all prns n sats' nuse')"

definition nmea_gsa_info :: "nmea_gsa \<Rightarrow> nmea_info \<Rightarrow> nmea_info result" where
  [cdefs]: "nmea_gsa_info pack info =
     (let info1 = info\<lparr>in_fix := gsa_fix_type pack, in_PDOP := gsa_PDOP pack,
                       in_HDOP := gsa_HDOP pack, in_VDOP := gsa_VDOP pack\<rparr>
      in bindR (gsa_mark_all (gsa_sat_prn pack) (nat (si_inview (in_satinfo info)))
                  (si_sat (in_satinfo info)) 0)
           (\<lambda>(sats, nuse).
              Inr (info1\<lparr>in_satinfo := (in_satinfo info)\<lparr>si_sat := sats, si_inuse := nuse\<rparr>,
                         in_smask := in_smask info OR pack_bit GPGSA\<rparr>)))"

text \<open>The copy loop of \<open>nmea_gsv_info\<close>: \<open>isat\<close> runs \<open>k\<close> more times, \<open>base\<close> is \<open>(pack_index - 1) * 4\<close>.\<close>

fun gsv_copy ::
    "int \<Rightarrow> nat \<Rightarrow> nat \<Rightarrow> nmea_satellite list \<Rightarrow> nmea_satellite list \<Rightarrow> nmea_satellite list result" where
  "gsv_copy base isat 0 data sats = Inr sats"
| "gsv_copy base isat (Suc k) data sats =
     (let isi = wrap32 (base + int isat)
      in if \<not> (0 \<le> isi \<and> isi < int (length sats)) \<or> \<not> isat < length data then Inl Out_of_bounds
         else
           (let d = data ! isat; old = sats ! nat isi
            in gsv_copy base (Suc isat) k data
                 (sats[nat isi := old\<lparr>sat_id := sat_id d, sat_elv := sat_elv d,
                                      sat_azimuth := sat_azimuth d, sat_sig := sat_sig d\<rparr>])))"

definition nmea_gsv_info :: "nmea_gsv \<Rightarrow> nmea_info \<Rightarrow> (nmea_gsv \<times> nmea_info) result" where
  [cdefs]: "nmea_gsv_info pack info =
     (if gsv_pack_index pack > gsv_pack_count pack \<or>
         wrap32 (gsv_pack_index pack * 4) > int NMEA_MAXSAT then Inr (pack, info)
      else
        (let pack1 = (if gsv_pack_index pack < 1 then pack\<lparr>gsv_pack_index := 1\<rparr> else pack);
             nsat = gsv_nsat (gsv_pack_index pack1) (gsv_sat_count pack1);
             base = wrap32 (wrap32 (gsv_pack_index pack1 - 1) * 4)
         in bindR (gsv_copy base 0 (nat nsat) (gsv_sat_data pack1) (si_sat (in_satinfo info)))
              (\<lambda>sats. Inr (pack1,
                 info\<lparr>in_satinfo := (in_satinfo info)\<lparr>si_inview := gsv_sat_count pack1,
                                                      si_sat := sats\<rparr>,
                      in_smask := in_smask info OR pack_bit GPGSV\<rparr>))))"

definition nmea_rmc_info :: "nmea_rmc \<Rightarrow> nmea_info \<Rightarrow> nmea_info" where
  [cdefs]: "nmea_rmc_info pack info =
     (let info1 =
        (if rmc_status pack = CHR ''A'' then
           (let i1 = (if in_sig info = NMEA_SIG_BAD then info\<lparr>in_sig := NMEA_SIG_MID\<rparr> else info)
            in if in_fix i1 = NMEA_FIX_BAD then i1\<lparr>in_fix := NMEA_FIX_2D\<rparr> else i1)
         else if rmc_status pack = CHR ''V'' then
           info\<lparr>in_sig := NMEA_SIG_BAD, in_fix := NMEA_FIX_BAD\<rparr>
         else info)
      in info1\<lparr>in_utc := rmc_utc pack,
               in_lat := signed_by (CHR ''N'') (rmc_ns pack) (rmc_lat pack),
               in_lon := signed_by (CHR ''E'') (rmc_ew pack) (rmc_lon pack),
               in_speed := rmc_speed pack * NMEA_TUD_KNOTS,
               in_direction := rmc_direction pack,
               in_smask := in_smask info OR pack_bit GPRMC\<rparr>)"

definition nmea_vtg_info :: "nmea_vtg \<Rightarrow> nmea_info \<Rightarrow> nmea_info" where
  [cdefs]: "nmea_vtg_info pack info =
     info\<lparr>in_direction := vtg_dir pack, in_declination := vtg_dec pack, in_speed := vtg_spk pack,
          in_smask := in_smask info OR pack_bit GPVTG\<rparr>"

text \<open>The \<open>switch\<close> of \<open>nmea_parse\<close> over the packet type.\<close>

fun apply_packet :: "packet \<Rightarrow> nmea_info \<Rightarrow> nmea_info result" where
  "apply_packet (Pgga p) i = Inr (nmea_gga_info p i)"
| "apply_packet (Pgsa p) i = nmea_gsa_info p i"
| "apply_packet (Pgsv p) i = bindR (nmea_gsv_info p i) (\<lambda>(_, i'). Inr i')"
| "apply_packet (Prmc p) i = Inr (nmea_rmc_info p i)"
| "apply_packet (Pvtg p) i = Inr (nmea_vtg_info p i)"

subsection \<open>The satellites used in the fix\<close>

text \<open>What the double loop computes, without the loop.\<close>

definition mark_sat :: "int list \<Rightarrow> nmea_satellite \<Rightarrow> nmea_satellite" where
  "mark_sat prns s = (if sat_id s \<noteq> 0 \<and> sat_id s \<in> set prns then s\<lparr>sat_in_use := 1\<rparr> else s)"

lemma sat_id_mark_sat [simp]: "sat_id (mark_sat prns s) = sat_id s"
  by (simp add: mark_sat_def)

lemma mark_sat_trivial [simp]: "mark_sat [] = (\<lambda>s. s)" "mark_sat [0] = (\<lambda>s. s)"
  by (auto simp: mark_sat_def fun_eq_iff)

lemma mark_sat_mark_sat: "mark_sat prns (mark_sat [p] s) = mark_sat (p # prns) s"
  by (simp add: mark_sat_def)

definition hits :: "int \<Rightarrow> nmea_satellite list \<Rightarrow> int" where
  "hits p sats = (if p = 0 then 0 else int (length (filter (\<lambda>s. sat_id s = p) sats)))"

lemma hits_map_mark_sat [simp]: "hits p (map (mark_sat prns) sats) = hits p sats"
  by (simp add: hits_def filter_map o_def)

lemma gsa_mark_spec:
  "gsa_mark prn (length pre) (length mid) (pre @ mid @ post) nuse =
     Inr (pre @ map (mark_sat [prn]) mid @ post, nuse + hits prn mid)"
proof (induction mid arbitrary: pre nuse)
  case (Cons s mid)
  let ?s = "mark_sat [prn] s"
  have "gsa_mark prn (length (pre @ [?s])) (length mid) ((pre @ [?s]) @ mid @ post) n =
      Inr ((pre @ [?s]) @ map (mark_sat [prn]) mid @ post, n + hits prn mid)" for n
    by (rule Cons.IH)
  then show ?case
    by (cases "prn = 0") (auto simp: mark_sat_def hits_def add.assoc)
qed (simp add: hits_def)

lemma gsa_mark_overrun:
  assumes "prn \<noteq> 0" and "length sats < j + k" and "j \<le> length sats"
  shows "gsa_mark prn j k sats nuse = Inl Out_of_bounds"
  using assms by (induction prn j k sats nuse rule: gsa_mark.induct) auto

lemma gsa_mark_zero [simp]: "gsa_mark 0 j k sats nuse = Inr (sats, nuse)"
  by (induction k arbitrary: j) simp_all

lemma gsa_mark_all_spec:
  assumes "n \<le> length sats"
  shows "gsa_mark_all prns n sats nuse =
    Inr (map (mark_sat prns) (take n sats) @ drop n sats,
         nuse + (\<Sum>p \<leftarrow> prns. hits p (take n sats)))"
  using assms
proof (induction prns arbitrary: sats nuse)
  case (Cons p prns)
  from gsa_mark_spec [of p "[]" "take n sats" "drop n sats" nuse] Cons.prems
  have m: "gsa_mark p 0 n sats nuse =
      Inr (map (mark_sat [p]) (take n sats) @ drop n sats, nuse + hits p (take n sats))"
    by (simp add: min_absorb2)
  have l: "n \<le> length (map (mark_sat [p]) (take n sats) @ drop n sats)"
    using Cons.prems by simp
  from Cons.prems show ?case
    by (simp add: m Cons.IH [OF l] mark_sat_mark_sat o_def add.assoc min_absorb2)
qed simp

lemma gsa_mark_all_overrun:
  assumes "length sats < n" and "\<exists>p \<in> set prns. p \<noteq> 0"
  shows "gsa_mark_all prns n sats nuse = Inl Out_of_bounds"
  using assms
proof (induction prns arbitrary: nuse)
  case (Cons p prns)
  then show ?case by (cases "p = 0") (auto simp: gsa_mark_overrun)
qed simp

lemma gsa_mark_all_zero:
  "\<forall>p \<in> set prns. p = 0 \<Longrightarrow> gsa_mark_all prns n sats nuse = Inr (sats, nuse)"
  by (induction prns arbitrary: nuse) auto

text \<open>With at most twelve satellites in view, a GSA packet marks exactly the in-view satellites
  whose non-zero PRN it lists, counts the matches, takes over the fix type and the three dilutions
  of precision, and leaves everything else alone.\<close>

theorem gsa_info_spec:
  assumes "info_wf info" and "si_inview (in_satinfo info) \<le> int NMEA_MAXSAT"
  shows "nmea_gsa_info pack info =
    (let n = nat (si_inview (in_satinfo info)); sats = si_sat (in_satinfo info)
     in Inr (info\<lparr>in_fix := gsa_fix_type pack, in_PDOP := gsa_PDOP pack, in_HDOP := gsa_HDOP pack,
          in_VDOP := gsa_VDOP pack,
          in_satinfo := (in_satinfo info)\<lparr>
            si_sat := map (mark_sat (gsa_sat_prn pack)) (take n sats) @ drop n sats,
            si_inuse := (\<Sum>p \<leftarrow> gsa_sat_prn pack. hits p (take n sats))\<rparr>,
          in_smask := in_smask info OR pack_bit GPGSA\<rparr>))"
proof -
  have "nat (si_inview (in_satinfo info)) \<le> length (si_sat (in_satinfo info))"
    using assms by (simp add: info_wf_def sat_info_wf_def)
  then show ?thesis
    by (simp add: nmea_gsa_info_def gsa_mark_all_spec Let_def)
qed

text \<open>With more satellites announced in view than the table holds, a GSA packet that lists any
  PRN makes the update loop read and write beyond the end of the table.\<close>

theorem gsa_info_overrun:
  assumes "info_wf info" and "si_inview (in_satinfo info) > int NMEA_MAXSAT"
    and "\<exists>p \<in> set (gsa_sat_prn pack). p \<noteq> 0"
  shows "nmea_gsa_info pack info = Inl Out_of_bounds"
proof -
  have "length (si_sat (in_satinfo info)) < nat (si_inview (in_satinfo info))"
    using assms(1,2) by (simp add: info_wf_def sat_info_wf_def)
  with assms(3) show ?thesis
    by (simp add: nmea_gsa_info_def gsa_mark_all_overrun)
qed

subsection \<open>The satellites in view\<close>

definition copy_sat :: "nmea_satellite \<Rightarrow> nmea_satellite \<Rightarrow> nmea_satellite" where
  "copy_sat d old = old\<lparr>sat_id := sat_id d, sat_elv := sat_elv d, sat_azimuth := sat_azimuth d,
                        sat_sig := sat_sig d\<rparr>"

lemma gsv_copy_spec:
  assumes "b + isat + k \<le> length sats" and "isat + k \<le> length data" and "length sats \<le> NMEA_MAXSAT"
  shows "\<exists>sats'. gsv_copy (int b) isat k data sats = Inr sats' \<and> length sats' = length sats \<and>
    (\<forall>i < length sats. sats' ! i =
       (if b + isat \<le> i \<and> i < b + isat + k then copy_sat (data ! (i - b)) (sats ! i)
        else sats ! i))"
  using assms
proof (induction k arbitrary: isat sats)
  case (Suc k)
  let ?i = "b + isat"
  let ?sats = "sats[?i := copy_sat (data ! isat) (sats ! ?i)]"
  have "int_ok (int b + int isat)"
    using Suc.prems by (simp add: int_ok_def NMEA_MAXSAT_def)
  then have w: "wrap32 (int b + int isat) = int ?i" by simp
  have step: "gsv_copy (int b) isat (Suc k) data sats = gsv_copy (int b) (Suc isat) k data ?sats"
    using Suc.prems by (simp add: Let_def w copy_sat_def del: of_nat_add)
  obtain sats' where s: "gsv_copy (int b) (Suc isat) k data ?sats = Inr sats'"
    "length sats' = length sats"
    "\<forall>i < length sats. sats' ! i =
       (if ?i + 1 \<le> i \<and> i < ?i + 1 + k then copy_sat (data ! (i - b)) (?sats ! i) else ?sats ! i)"
    using Suc.IH [of "Suc isat" ?sats] Suc.prems by auto
  have "\<forall>i < length sats. sats' ! i =
       (if ?i \<le> i \<and> i < ?i + Suc k then copy_sat (data ! (i - b)) (sats ! i) else sats ! i)"
  proof (intro allI impI)
    fix i assume "i < length sats"
    with s(3) Suc.prems show "sats' ! i =
       (if ?i \<le> i \<and> i < ?i + Suc k then copy_sat (data ! (i - b)) (sats ! i) else sats ! i)"
      by (cases "i = ?i") auto
  qed
  with step s(1,2) show ?case by auto
qed simp

text \<open>Message \<open>k\<close> of a GSV group (1 to 3, at most the group size) writes the slots
  \<open>4(k-1)\<close> up to \<open>min (4k) sat_count\<close> of the satellite table from its own data, keeps every other
  slot and every \<open>in_use\<close> flag, records the number in view, and stays inside the table.\<close>

theorem gsv_info_spec:
  assumes "info_wf info" and "length (gsv_sat_data pack) = NMEA_SATINPACK"
    and "gsv_pack_index pack = int k" and "1 \<le> k" and "k \<le> 3"
    and "gsv_pack_index pack \<le> gsv_pack_count pack"
    and "0 \<le> gsv_sat_count pack" and "int_ok (gsv_sat_count pack)"
  shows "\<exists>sats. nmea_gsv_info pack info =
      Inr (pack, info\<lparr>in_satinfo := (in_satinfo info)\<lparr>si_inview := gsv_sat_count pack, si_sat := sats\<rparr>,
                      in_smask := in_smask info OR pack_bit GPGSV\<rparr>) \<and>
    length sats = NMEA_MAXSAT \<and>
    (\<forall>i < NMEA_MAXSAT. sats ! i =
       (if 4 * (k - 1) \<le> i \<and> i < min (4 * k) (nat (gsv_sat_count pack))
        then copy_sat (gsv_sat_data pack ! (i - 4 * (k - 1))) (si_sat (in_satinfo info) ! i)
        else si_sat (in_satinfo info) ! i))"
proof -
  define n where "n = nat (gsv_nsat (int k) (gsv_sat_count pack))"
  define b where "b = 4 * (k - 1)"
  have lw: "length (si_sat (in_satinfo info)) = NMEA_MAXSAT"
    using assms(1) by (simp add: info_wf_def sat_info_wf_def)
  have ok: "int_ok (int k - 1)" "int_ok ((int k - 1) * 4)" "int_ok ((int k - 1) * 4 + 4)"
      "int_ok (gsv_sat_count pack - (int k - 1) * 4)" "int_ok (int k * 4)"
    using assms(4,5,7,8) by (auto simp: int_ok_def)
  have base: "wrap32 (wrap32 (int k - 1) * 4) = int b"
    using ok assms(4) by (simp add: b_def of_nat_diff)
  have n: "n = min 4 (nat (gsv_sat_count pack) - b)"
    using ok assms(4,7) by (auto simp: n_def gsv_nsat_def Let_def b_def nat_diff_distrib of_nat_diff)
  have guard: "\<not> (gsv_pack_index pack > gsv_pack_count pack \<or>
      wrap32 (gsv_pack_index pack * 4) > int NMEA_MAXSAT)"
    using assms(3,5,6) ok(5) by (simp add: NMEA_MAXSAT_def)
  have "n \<le> 4" "b \<le> 8"
    using n assms(5) by (simp_all add: b_def)
  then have "b + 0 + n \<le> NMEA_MAXSAT" "0 + n \<le> length (gsv_sat_data pack)"
    using assms(2) by (simp_all add: NMEA_MAXSAT_def NMEA_SATINPACK_def)
  with gsv_copy_spec [of b 0 n "si_sat (in_satinfo info)" "gsv_sat_data pack"] lw
  obtain sats where s: "gsv_copy (int b) 0 n (gsv_sat_data pack) (si_sat (in_satinfo info)) = Inr sats"
    "length sats = NMEA_MAXSAT"
    "\<forall>i < NMEA_MAXSAT. sats ! i =
       (if b \<le> i \<and> i < b + n then copy_sat (gsv_sat_data pack ! (i - b)) (si_sat (in_satinfo info) ! i)
        else si_sat (in_satinfo info) ! i)" by auto
  have k4: "4 * k = b + 4"
    using assms(4) by (simp add: b_def)
  have idx: "(b \<le> i \<and> i < b + n) = (4 * (k - 1) \<le> i \<and> i < min (4 * k) (nat (gsv_sat_count pack)))" for i
    using k4 n by (simp only: b_def [symmetric]) linarith
  have "nmea_gsv_info pack info =
      Inr (pack, info\<lparr>in_satinfo := (in_satinfo info)\<lparr>si_inview := gsv_sat_count pack, si_sat := sats\<rparr>,
                      in_smask := in_smask info OR pack_bit GPGSV\<rparr>)"
    using assms(3,4) guard s(1) base by (simp add: nmea_gsv_info_def n_def)
  then show ?thesis
    using s(2) s(3) [unfolded idx, unfolded b_def] by blast
qed

theorem gsa_info_spec_witness:
  "nmea_gsa_info
     \<lparr>gsa_fix_mode = CHR ''A'', gsa_fix_type = 3, gsa_sat_prn = [7, 0], gsa_PDOP = 1, gsa_HDOP = 2,
      gsa_VDOP = 3\<rparr>
     (zero_info\<lparr>in_satinfo := \<lparr>si_inuse = 0, si_inview = 2,
        si_sat = zero_sat\<lparr>sat_id := 7\<rparr> # replicate 11 zero_sat\<rparr>\<rparr>) =
   Inr (zero_info\<lparr>in_smask := 2, in_fix := 3, in_PDOP := 1, in_HDOP := 2, in_VDOP := 3,
     in_satinfo := \<lparr>si_inuse = 1, si_inview = 2,
        si_sat = zero_sat\<lparr>sat_id := 7, sat_in_use := 1\<rparr> # replicate 11 zero_sat\<rparr>\<rparr>)"
  by (subst gsa_info_spec)
     (simp_all add: info_wf_def sat_info_wf_def NMEA_MAXSAT_def numeral_eq_Suc Let_def hits_def
        mark_sat_def zero_sat_def zero_info_def)

theorem gsa_info_overrun_witness:
  "nmea_gsa_info
     \<lparr>gsa_fix_mode = CHR ''A'', gsa_fix_type = 3, gsa_sat_prn = [28], gsa_PDOP = 1, gsa_HDOP = 2,
      gsa_VDOP = 3\<rparr>
     (zero_info\<lparr>in_satinfo := \<lparr>si_inuse = 0, si_inview = 13, si_sat = replicate 12 zero_sat\<rparr>\<rparr>) =
   Inl Out_of_bounds"
  by (rule gsa_info_overrun) (simp_all add: info_wf_def sat_info_wf_def NMEA_MAXSAT_def)

theorem gsv_info_spec_witness:
  "\<exists>sats. nmea_gsv_info
      \<lparr>gsv_pack_count = 2, gsv_pack_index = int 2, gsv_sat_count = 7,
       gsv_sat_data = map (\<lambda>k. zero_sat\<lparr>sat_id := k\<rparr>) [5, 6, 7, 8]\<rparr> zero_info =
      Inr (\<lparr>gsv_pack_count = 2, gsv_pack_index = int 2, gsv_sat_count = 7,
            gsv_sat_data = map (\<lambda>k. zero_sat\<lparr>sat_id := k\<rparr>) [5, 6, 7, 8]\<rparr>,
        zero_info\<lparr>in_satinfo := (in_satinfo zero_info)\<lparr>si_inview := 7, si_sat := sats\<rparr>,
                  in_smask := 4\<rparr>) \<and>
    length sats = 12 \<and> sat_id (sats ! 3) = 0 \<and> sat_id (sats ! 6) = 7 \<and> sat_id (sats ! 7) = 0"
proof -
  have z: "si_sat (in_satinfo zero_info) ! 3 = zero_sat" "si_sat (in_satinfo zero_info) ! 6 = zero_sat"
    "si_sat (in_satinfo zero_info) ! 7 = zero_sat" "in_smask zero_info = 0"
    by (simp_all add: zero_info_def NMEA_MAXSAT_def)
  show ?thesis
    using gsv_info_spec [of zero_info "\<lparr>gsv_pack_count = 2, gsv_pack_index = int 2,
       gsv_sat_count = 7, gsv_sat_data = map (\<lambda>k. zero_sat\<lparr>sat_id := k\<rparr>) [5, 6, 7, 8]\<rparr>" 2]
    by (auto simp: NMEA_SATINPACK_def NMEA_MAXSAT_def int_ok_def z copy_sat_def zero_sat_def
        simp del: of_nat_numeral)
qed

text \<open>The guard of \<open>nmea_gsv_info\<close> multiplies before it compares: for message number \<open>2^30\<close> the
  product wraps to zero, the guard passes, and the copy loop starts at slot \<open>-4\<close> of the table.\<close>

theorem gsv_info_wrap_overrun:
  assumes "gsv_pack_index pack = 1073741824" and "gsv_pack_count pack \<ge> 1073741824"
    and "gsv_sat_count pack > 0" and "int_ok (gsv_sat_count pack)"
  shows "nmea_gsv_info pack info = Inl Out_of_bounds"
proof -
  have w: "wrap32 (1073741824 * 4) = 0" "wrap32 (wrap32 (1073741824 - 1) * 4) = - 4"
    "wrap32 0 = 0" "wrap32 (- 4) = - 4"
    by (simp_all add: wrap32_def signed_take_bit_int_eq_self)
  have n: "gsv_nsat 1073741824 (gsv_sat_count pack) = 4"
    using assms(3) w by (simp add: gsv_nsat_def Let_def)
  have four: "nat 4 = Suc 3" by simp
  have "gsv_copy (- 4) 0 (Suc k) (gsv_sat_data pack) (si_sat (in_satinfo info)) = Inl Out_of_bounds" for k
    by (simp add: w)
  then have "gsv_copy (- 4) 0 (nat 4) (gsv_sat_data pack) (si_sat (in_satinfo info)) = Inl Out_of_bounds"
    unfolding four by blast
  with assms w n show ?thesis
    by (simp add: nmea_gsv_info_def NMEA_MAXSAT_def)
qed

theorem gsv_info_wrap_overrun_witness:
  "nmea_gsv_info \<lparr>gsv_pack_count = 1073741824, gsv_pack_index = 1073741824, gsv_sat_count = 4,
     gsv_sat_data = replicate 4 zero_sat\<rparr> zero_info = Inl Out_of_bounds"
  by (rule gsv_info_wrap_overrun) (simp_all add: int_ok_def)

end
