(* ===== verification/Nmea_Queue.thy ===== *)
theory Nmea_Queue
  imports Nmea_Info "HOL-Library.Finite_Map"
begin

text \<open>
  The packet queue of the parser: a singly linked list of heap nodes with a pointer to the first
  and to the last node.  The heap is explicit (nodes and packets are separate finite maps from
  addresses), \<open>rt_malloc\<close> may fail at any call, and dereferencing a freed address is a fault.  The
  locale \<open>packet_queue\<close> states what the parser relies on: a first-in first-out list of packets.
\<close>

subsection \<open>Heap and parser state\<close>

type_synonym ptr = "nat option"

record node =
  nd_packType :: NMEA_PACK_TYPE
  nd_pack :: ptr
  nd_next :: ptr

text \<open>
  \<open>h_plan\<close> lists the outcomes of the coming calls of \<open>rt_malloc\<close>; after its end every call
  succeeds.  Addresses are handed out in increasing order, so a freed one is never reused.
\<close>

record rt_heap =
  h_nodes :: "(nat, node) fmap"
  h_packs :: "(nat, packet) fmap"
  h_fresh :: nat
  h_plan :: "bool list"

record nmea_parser =
  p_top :: ptr
  p_end :: ptr
  p_buffer :: "string option"
  p_buff_size :: nat
  p_buff_use :: nat

type_synonym pstate = "nmea_parser \<times> rt_heap"

definition malloc_ok :: "rt_heap \<Rightarrow> bool \<times> rt_heap" where
  [cdefs]: "malloc_ok h =
     (case h_plan h of [] \<Rightarrow> (True, h) | b # bs \<Rightarrow> (b, h\<lparr>h_plan := bs\<rparr>))"

definition new_node :: "node \<Rightarrow> rt_heap \<Rightarrow> nat \<times> rt_heap" where
  [cdefs]: "new_node nd h =
     (h_fresh h, h\<lparr>h_nodes := fmupd (h_fresh h) nd (h_nodes h), h_fresh := Suc (h_fresh h)\<rparr>)"

definition new_pack :: "packet \<Rightarrow> rt_heap \<Rightarrow> nat \<times> rt_heap" where
  [cdefs]: "new_pack p h =
     (h_fresh h, h\<lparr>h_packs := fmupd (h_fresh h) p (h_packs h), h_fresh := Suc (h_fresh h)\<rparr>)"

definition free_node :: "nat \<Rightarrow> rt_heap \<Rightarrow> rt_heap" where
  [cdefs]: "free_node a h = h\<lparr>h_nodes := fmdrop a (h_nodes h)\<rparr>"

definition free_pack :: "ptr \<Rightarrow> rt_heap \<Rightarrow> rt_heap" where
  [cdefs]: "free_pack p h = (case p of None \<Rightarrow> h | Some a \<Rightarrow> h\<lparr>h_packs := fmdrop a (h_packs h)\<rparr>)"

definition get_node :: "rt_heap \<Rightarrow> nat \<Rightarrow> node result" where
  [cdefs]: "get_node h a =
     (case fmlookup (h_nodes h) a of None \<Rightarrow> Inl Use_after_free | Some nd \<Rightarrow> Inr nd)"

text \<open>\<open>NMEA_ASSERT(parser && parser->buffer)\<close>\<close>

definition assert_buffer :: "nmea_parser \<Rightarrow> unit result" where
  [cdefs]: "assert_buffer p = (if p_buffer p = None then Inl Assert_failed else Inr ())"

subsection \<open>The operations\<close>

text \<open>The \<open>if (node)\<close> block at the end of one iteration of \<open>nmea_parser_real_push\<close>.\<close>

definition link_node :: "nat \<Rightarrow> pstate \<Rightarrow> pstate result" where
  [cdefs]: "link_node a s =
     (let (p, h) = s
      in bindR
           (case p_end p of
              None \<Rightarrow> Inr h
            | Some e \<Rightarrow>
                bindR (get_node h e)
                  (\<lambda>en. Inr (h\<lparr>h_nodes := fmupd e (en\<lparr>nd_next := Some a\<rparr>) (h_nodes h)\<rparr>)))
           (\<lambda>h1.
              let p1 = p\<lparr>p_end := Some a\<rparr>;
                  p2 = (if p_top p1 = None then p1\<lparr>p_top := Some a\<rparr> else p1)
              in bindR (get_node h1 a)
                   (\<lambda>nd. Inr (p2, h1\<lparr>h_nodes := fmupd a (nd\<lparr>nd_next := None\<rparr>) (h_nodes h1)\<rparr>))))"

definition nmea_parser_top :: "pstate \<Rightarrow> NMEA_PACK_TYPE result" where
  [cdefs]: "nmea_parser_top s =
     (let (p, h) = s
      in bindR (assert_buffer p)
           (\<lambda>_. case p_top p of
                  None \<Rightarrow> Inr GPNON
                | Some a \<Rightarrow> bindR (get_node h a) (\<lambda>nd. Inr (nd_packType nd))))"

definition nmea_parser_pop :: "pstate \<Rightarrow> (NMEA_PACK_TYPE \<times> ptr \<times> pstate) result" where
  [cdefs]: "nmea_parser_pop s =
     (let (p, h) = s
      in bindR (assert_buffer p)
           (\<lambda>_. case p_top p of
                  None \<Rightarrow> Inr (GPNON, None, p, h)
                | Some a \<Rightarrow>
                    bindR (get_node h a)
                      (\<lambda>nd.
                         let p1 = p\<lparr>p_top := nd_next nd\<rparr>;
                             p2 = (if p_top p1 = None then p1\<lparr>p_end := None\<rparr> else p1)
                         in Inr (nd_packType nd, nd_pack nd, p2, free_node a h))))"

definition nmea_parser_peek :: "pstate \<Rightarrow> (NMEA_PACK_TYPE \<times> ptr) result" where
  [cdefs]: "nmea_parser_peek s =
     (let (p, h) = s
      in bindR (assert_buffer p)
           (\<lambda>_. case p_top p of
                  None \<Rightarrow> Inr (GPNON, None)
                | Some a \<Rightarrow> bindR (get_node h a) (\<lambda>nd. Inr (nd_packType nd, nd_pack nd))))"

definition nmea_parser_drop :: "pstate \<Rightarrow> (NMEA_PACK_TYPE \<times> pstate) result" where
  [cdefs]: "nmea_parser_drop s =
     (let (p, h) = s
      in bindR (assert_buffer p)
           (\<lambda>_. case p_top p of
                  None \<Rightarrow> Inr (GPNON, p, h)
                | Some a \<Rightarrow>
                    bindR (get_node h a)
                      (\<lambda>nd.
                         let h1 = free_pack (nd_pack nd) h;
                             p1 = p\<lparr>p_top := nd_next nd\<rparr>;
                             p2 = (if p_top p1 = None then p1\<lparr>p_end := None\<rparr> else p1)
                         in Inr (nd_packType nd, p2, free_node a h1))))"

definition node_count :: "pstate \<Rightarrow> nat" where
  "node_count s = card (fmdom' (h_nodes (snd s)))"

lemma card_fmdrop_less:
  "fmlookup m a = Some x \<Longrightarrow> card (fmdom' m - {a}) < card (fmdom' m)"
  by (rule card_Diff1_less) (auto intro: fmdom'I)

text \<open>A step that takes a node off the list frees it, so the loops over the list end.\<close>

lemma pop_node_count:
  "nmea_parser_pop s = Inr (pt, pk, s') \<Longrightarrow> pt \<noteq> GPNON \<Longrightarrow> node_count s' < node_count s"
  by (cases s)
     (auto simp: nmea_parser_pop_def node_count_def get_node_def free_node_def bindR_eq_Inr Let_def
        card_fmdrop_less split: option.splits if_splits)

lemma drop_node_count:
  "nmea_parser_drop s = Inr (pt, s') \<Longrightarrow> p_top (fst s) \<noteq> None \<Longrightarrow> node_count s' < node_count s"
  by (cases s)
     (auto simp: nmea_parser_drop_def node_count_def get_node_def free_node_def free_pack_def
        bindR_eq_Inr Let_def card_fmdrop_less split: option.splits if_splits)

text \<open>\<open>while (parser->top_node) nmea_parser_drop(parser);\<close>\<close>

function nmea_parser_queue_clear :: "pstate \<Rightarrow> (int \<times> pstate) result" where
  "nmea_parser_queue_clear s =
     (if p_top (fst s) = None then Inr (1, s)
      else
        (case nmea_parser_drop s of
           Inl e \<Rightarrow> Inl e
         | Inr (_, s') \<Rightarrow> nmea_parser_queue_clear s'))"
  by pat_completeness auto
termination
  by (relation "measure node_count") (auto intro: drop_node_count)

declare nmea_parser_queue_clear.simps [simp del]

subsection \<open>The list behind the pointers\<close>

text \<open>The nodes from \<open>p\<close> on, by their addresses.\<close>

fun chain :: "(nat, node) fmap \<Rightarrow> ptr \<Rightarrow> nat list \<Rightarrow> bool" where
  "chain m p [] \<longleftrightarrow> p = None"
| "chain m p (a # as) \<longleftrightarrow>
     p = Some a \<and> (\<exists>nd. fmlookup m a = Some nd \<and> chain m (nd_next nd) as)"

text \<open>Node \<open>a\<close> owns the packet \<open>pk\<close>.\<close>

definition owns :: "rt_heap \<Rightarrow> nat \<Rightarrow> packet \<Rightarrow> bool" where
  "owns h a pk \<longleftrightarrow>
     (\<exists>nd b. fmlookup (h_nodes h) a = Some nd \<and> nd_packType nd = packet_type pk \<and>
        nd_pack nd = Some b \<and> fmlookup (h_packs h) b = Some pk)"

definition pack_addr :: "rt_heap \<Rightarrow> nat \<Rightarrow> ptr" where
  "pack_addr h a = (case fmlookup (h_nodes h) a of None \<Rightarrow> None | Some nd \<Rightarrow> nd_pack nd)"

definition queue_at :: "nat list \<Rightarrow> pstate \<Rightarrow> packet list \<Rightarrow> bool" where
  "queue_at as s pks \<longleftrightarrow>
     (let (p, h) = s
      in p_buffer p \<noteq> None \<and> chain (h_nodes h) (p_top p) as \<and> distinct as \<and>
         p_end p = (if as = [] then None else Some (last as)) \<and>
         (\<forall>a \<in> fmdom' (h_nodes h). a < h_fresh h) \<and> (\<forall>b \<in> fmdom' (h_packs h). b < h_fresh h) \<and>
         distinct (map (pack_addr h) as) \<and>
         list_all2 (owns h) as pks)"

definition queue_rel :: "pstate \<Rightarrow> packet list \<Rightarrow> bool" where
  "queue_rel s pks \<longleftrightarrow> (\<exists>as. queue_at as s pks)"

lemma chain_mono:
  "chain m p as \<Longrightarrow> (\<And>a. a \<in> set as \<Longrightarrow> fmlookup m' a = fmlookup m a) \<Longrightarrow> chain m' p as"
  by (induction as arbitrary: p) auto

lemma chain_in_dom: "chain m p as \<Longrightarrow> a \<in> set as \<Longrightarrow> fmlookup m a \<noteq> None"
  by (induction as arbitrary: p) auto

text \<open>Appending a fresh node at the end of a non-empty chain.\<close>

lemma chain_snoc:
  assumes "chain m p (as @ [e])" and "distinct (as @ [e])" and "a \<notin> set (as @ [e])"
    and "fmlookup m e = Some en"
  shows "chain (fmupd a (nd\<lparr>nd_next := None\<rparr>) (fmupd e (en\<lparr>nd_next := Some a\<rparr>) m)) p (as @ [e, a])"
  using assms
proof (induction as arbitrary: p)
  case (Cons x as)
  then show ?case by auto
qed auto

lemma owns_pack_addr: "owns h a pk \<Longrightarrow> pack_addr h a \<noteq> None"
  by (auto simp: owns_def pack_addr_def)

text \<open>What the list does not reach may change.\<close>

lemma queue_at_frame:
  assumes "queue_at as (p, h) pks"
    and "\<And>x. x \<in> set as \<Longrightarrow> fmlookup (h_nodes h') x = fmlookup (h_nodes h) x"
    and "\<And>x b. x \<in> set as \<Longrightarrow> pack_addr h x = Some b \<Longrightarrow>
           fmlookup (h_packs h') b = fmlookup (h_packs h) b"
    and "\<forall>a \<in> fmdom' (h_nodes h'). a < h_fresh h'" and "\<forall>b \<in> fmdom' (h_packs h'). b < h_fresh h'"
    and "p_top p' = p_top p" and "p_end p' = p_end p" and "p_buffer p' \<noteq> None"
  shows "queue_at as (p', h') pks"
proof -
  have addr: "x \<in> set as \<Longrightarrow> pack_addr h' x = pack_addr h x" for x
    using assms(2) by (simp add: pack_addr_def)
  have "owns h x pk \<Longrightarrow> x \<in> set as \<Longrightarrow> owns h' x pk" for x pk
    using assms(2,3) by (fastforce simp: owns_def pack_addr_def)
  moreover have "list_all2 (owns h) as pks" using assms(1) by (simp add: queue_at_def)
  ultimately have "list_all2 (owns h') as pks"
    by (auto simp: list_all2_conv_all_nth)
  moreover have "distinct (map (pack_addr h') as)"
  proof -
    have "map (pack_addr h') as = map (pack_addr h) as" using addr by simp
    with assms(1) show ?thesis by (simp add: queue_at_def del: map_eq_conv)
  qed
  ultimately show ?thesis
    using assms by (auto simp: queue_at_def intro: chain_mono)
qed

lemma link_node_queue:
  assumes q: "queue_at as (p, h) pks" and a: "fmlookup (h_nodes h) a = Some nd" "a \<notin> set as"
    and nd: "nd_packType nd = packet_type pk" "nd_pack nd = Some b" "fmlookup (h_packs h) b = Some pk"
    and b: "Some b \<notin> pack_addr h ` set as"
  shows "\<exists>s'. link_node a (p, h) = Inr s' \<and> queue_at (as @ [a]) s' (pks @ [pk]) \<and>
    p_buffer (fst s') = p_buffer p \<and> p_buff_use (fst s') = p_buff_use p \<and>
    p_buff_size (fst s') = p_buff_size p \<and> h_packs (snd s') = h_packs h \<and>
    fmdom' (h_nodes (snd s')) = fmdom' (h_nodes h)"
proof (cases as rule: rev_cases)
  case Nil
  from q Nil have "p_end p = None" "p_top p = None" "pks = []" by (auto simp: queue_at_def)
  with Nil q a nd show ?thesis
    by (auto simp: link_node_def get_node_def queue_at_def owns_def pack_addr_def fmdom'I)
next
  case (snoc bs e)
  have pe: "p_end p = Some e" and pt: "p_top p \<noteq> None"
    using q snoc by (auto simp: queue_at_def dest: chain.elims)
  have ch: "chain (h_nodes h) (p_top p) (bs @ [e])" "distinct (bs @ [e])"
    using q snoc by (auto simp: queue_at_def)
  then obtain en where e: "fmlookup (h_nodes h) e = Some en"
    using chain_in_dom [OF ch(1), of e] by auto
  have ne: "a \<noteq> e" using a(2) snoc by auto
  define h' where "h' = h\<lparr>h_nodes := fmupd a (nd\<lparr>nd_next := None\<rparr>)
                            (fmupd e (en\<lparr>nd_next := Some a\<rparr>) (h_nodes h))\<rparr>"
  have l: "link_node a (p, h) = Inr (p\<lparr>p_end := Some a\<rparr>, h')"
    using pe pt e ne a(1) by (auto simp: link_node_def get_node_def h'_def Let_def)
  have addr: "pack_addr h' = pack_addr h"
    using e a(1) by (auto simp: pack_addr_def h'_def fun_eq_iff)
  have own: "owns h x y \<Longrightarrow> owns h' x y" for x y
    using e a(1) by (auto simp: owns_def h'_def)
  have "list_all2 (owns h') as pks"
    using q own by (auto simp: queue_at_def elim: list_all2_mono)
  moreover have "owns h' a pk" using nd by (simp add: owns_def h'_def)
  ultimately have "list_all2 (owns h') (as @ [a]) (pks @ [pk])"
    by (simp add: list_all2_appendI)
  moreover have "chain (h_nodes h') (p_top p) (as @ [a])"
    using chain_snoc [OF ch, of a en nd] e a(2) snoc by (simp add: h'_def)
  moreover have "pack_addr h' a = Some b" using nd by (simp add: pack_addr_def h'_def)
  moreover have "fmdom' (h_nodes h') = fmdom' (h_nodes h)"
    using e a(1) by (auto simp: h'_def fmdom'I)
  moreover have "h_packs h' = h_packs h" "h_fresh h' = h_fresh h" by (simp_all add: h'_def)
  ultimately have "queue_at (as @ [a]) (p\<lparr>p_end := Some a\<rparr>, h') (pks @ [pk])"
    using q a(2) b by (simp add: queue_at_def addr)
  with l \<open>fmdom' (h_nodes h') = fmdom' (h_nodes h)\<close> \<open>h_packs h' = h_packs h\<close> show ?thesis by simp
qed

lemma queue_at_ConsE:
  assumes "queue_at as (p, h) (pk # pks)"
  obtains a as' nd b where "as = a # as'" "p_top p = Some a" "fmlookup (h_nodes h) a = Some nd"
    "nd_packType nd = packet_type pk" "nd_pack nd = Some b" "fmlookup (h_packs h) b = Some pk"
    "a \<notin> set as'" "Some b \<notin> pack_addr h ` set as'" "chain (h_nodes h) (nd_next nd) as'"
proof -
  from assms obtain a as' where as: "as = a # as'" by (cases as) (auto simp: queue_at_def)
  from assms as obtain nd b where n: "fmlookup (h_nodes h) a = Some nd"
      "nd_packType nd = packet_type pk" "nd_pack nd = Some b" "fmlookup (h_packs h) b = Some pk"
    by (auto simp: queue_at_def owns_def)
  from assms as n have "p_top p = Some a" "a \<notin> set as'" "chain (h_nodes h) (nd_next nd) as'"
    by (auto simp: queue_at_def)
  moreover from assms as n have "Some b \<notin> pack_addr h ` set as'"
    by (auto simp: queue_at_def pack_addr_def)
  ultimately show ?thesis using that as n by blast
qed

lemma chain_None: "chain m p as \<Longrightarrow> (p = None) = (as = [])"
  by (cases as) auto

text \<open>Taking the first node off.\<close>

lemma queue_at_unlink:
  assumes "queue_at (a # as) (p, h) (pk # pks)" and "fmlookup (h_nodes h) a = Some nd"
    and "h' = free_node a h \<or> h' = free_node a (free_pack (nd_pack nd) h)"
    and "p' = (if nd_next nd = None then p\<lparr>p_top := nd_next nd, p_end := None\<rparr>
               else p\<lparr>p_top := nd_next nd\<rparr>)"
  shows "queue_at as (p', h') pks"
proof -
  from assms(1,2) obtain b where n: "nd_pack nd = Some b" "a \<notin> set as"
      "Some b \<notin> pack_addr h ` set as" "chain (h_nodes h) (nd_next nd) as"
    by (elim queue_at_ConsE) auto
  define p1 where "p1 = p\<lparr>p_top := nd_next nd, p_end := (if as = [] then None else Some (last as))\<rparr>"
  have "queue_at as (p1, h) pks"
    using assms(1) n by (auto simp: queue_at_def p1_def)
  then have "queue_at as (p1, h') pks"
  proof (rule queue_at_frame)
    fix x assume "x \<in> set as"
    with n show "fmlookup (h_nodes h') x = fmlookup (h_nodes h) x"
      using assms(3) by (auto simp: free_node_def free_pack_def)
  next
    fix x c assume "x \<in> set as" "pack_addr h x = Some c"
    with n(3) have "c \<noteq> b" by force
    with n(1) show "fmlookup (h_packs h') c = fmlookup (h_packs h) c"
      using assms(3) by (auto simp: free_node_def free_pack_def)
  qed (use assms(1,3) n(1) in \<open>auto simp: queue_at_def free_node_def free_pack_def p1_def\<close>)
  moreover have "p1 = p'"
    using assms(1,4) n(4) chain_None [OF n(4)]
    by (auto simp: p1_def queue_at_def split: if_splits)
  ultimately show ?thesis by simp
qed

subsection \<open>The interface\<close>

text \<open>
  A first-in first-out list of packets: \<open>rel s pks\<close> says that state \<open>s\<close> holds the packets \<open>pks\<close>,
  oldest first.
\<close>

locale packet_queue =
  fixes rel :: "'s \<Rightarrow> packet list \<Rightarrow> bool"
    and top :: "'s \<Rightarrow> NMEA_PACK_TYPE result"
    and peek :: "'s \<Rightarrow> (NMEA_PACK_TYPE \<times> ptr) result"
    and pop :: "'s \<Rightarrow> (NMEA_PACK_TYPE \<times> ptr \<times> 's) result"
    and drop_top :: "'s \<Rightarrow> (NMEA_PACK_TYPE \<times> 's) result"
    and load :: "'s \<Rightarrow> ptr \<Rightarrow> packet option"
    and release :: "ptr \<Rightarrow> 's \<Rightarrow> 's"
  assumes top_Nil: "rel s [] \<Longrightarrow> top s = Inr GPNON"
    and top_Cons: "rel s (pk # pks) \<Longrightarrow> top s = Inr (packet_type pk)"
    and peek_Nil: "rel s [] \<Longrightarrow> peek s = Inr (GPNON, None)"
    and peek_Cons: "rel s (pk # pks) \<Longrightarrow> \<exists>b. peek s = Inr (packet_type pk, b) \<and> load s b = Some pk"
    and pop_Nil: "rel s [] \<Longrightarrow> pop s = Inr (GPNON, None, s)"
    and pop_Cons: "rel s (pk # pks) \<Longrightarrow>
      \<exists>b s'. pop s = Inr (packet_type pk, b, s') \<and> load s' b = Some pk \<and> rel (release b s') pks"
    and drop_Nil: "rel s [] \<Longrightarrow> drop_top s = Inr (GPNON, s)"
    and drop_Cons: "rel s (pk # pks) \<Longrightarrow> \<exists>s'. drop_top s = Inr (packet_type pk, s') \<and> rel s' pks"
begin

text \<open>The state determines the list.\<close>

lemma rel_unique: "rel s pks \<Longrightarrow> rel s pks' \<Longrightarrow> pks = pks'"
proof (induction pks arbitrary: s pks')
  case Nil
  show ?case
  proof (cases pks')
    case (Cons pk ks)
    with Nil pop_Nil [of s] pop_Cons [of s pk ks] show ?thesis by auto
  qed simp
next
  case (Cons pk pks)
  from pop_Cons [OF Cons.prems(1)] obtain b s' where
    1: "pop s = Inr (packet_type pk, b, s')" "load s' b = Some pk" "rel (release b s') pks" by blast
  show ?case
  proof (cases pks')
    case Nil
    with Cons.prems(2) pop_Nil 1(1) show ?thesis by fastforce
  next
    case (Cons pk' ks)
    with Cons.prems(2) pop_Cons 1 have "pk' = pk" "rel (release b s') ks"
      by fastforce+
    with Cons.IH [OF 1(3)] \<open>pks' = pk' # ks\<close> show ?thesis by simp
  qed
qed

lemma top_GPNON_iff: "rel s pks \<Longrightarrow> top s = Inr GPNON \<longleftrightarrow> pks = []"
  by (cases pks) (auto dest: top_Nil top_Cons)

end

definition pack_load :: "pstate \<Rightarrow> ptr \<Rightarrow> packet option" where
  [cdefs]: "pack_load s b = (case b of None \<Rightarrow> None | Some a \<Rightarrow> fmlookup (h_packs (snd s)) a)"

definition pack_release :: "ptr \<Rightarrow> pstate \<Rightarrow> pstate" where
  [cdefs]: "pack_release b s = (fst s, free_pack b (snd s))"

lemma free_node_pack: "free_pack b (free_node a h) = free_node a (free_pack b h)"
  by (simp add: free_pack_def free_node_def split: option.split)

lemma queue_rel_Nil: "queue_rel (p, h) [] \<Longrightarrow> p_top p = None \<and> p_buffer p \<noteq> None"
  by (auto simp: queue_rel_def queue_at_def)

lemma queue_rel_ConsE:
  assumes "queue_rel (p, h) (pk # pks)"
  obtains as a nd b where "queue_at (a # as) (p, h) (pk # pks)" "p_top p = Some a"
    "fmlookup (h_nodes h) a = Some nd" "nd_packType nd = packet_type pk" "nd_pack nd = Some b"
    "fmlookup (h_packs h) b = Some pk" "p_buffer p \<noteq> None"
  using assms unfolding queue_rel_def
  by (elim exE) (frule queue_at_ConsE, auto simp: queue_at_def)

interpretation pq: packet_queue queue_rel nmea_parser_top nmea_parser_peek nmea_parser_pop
  nmea_parser_drop pack_load pack_release
proof (unfold_locales, goal_cases)
  case (1 s) then show ?case
    by (cases s) (auto dest!: queue_rel_Nil simp: nmea_parser_top_def assert_buffer_def)
next
  case (2 s pk pks) then show ?case
    by (cases s) (auto elim!: queue_rel_ConsE simp: nmea_parser_top_def assert_buffer_def get_node_def)
next
  case (3 s) then show ?case
    by (cases s) (auto dest!: queue_rel_Nil simp: nmea_parser_peek_def assert_buffer_def)
next
  case (4 s pk pks) then show ?case
    by (cases s) (auto elim!: queue_rel_ConsE
        simp: nmea_parser_peek_def assert_buffer_def get_node_def pack_load_def)
next
  case (5 s) then show ?case
    by (cases s) (auto dest!: queue_rel_Nil simp: nmea_parser_pop_def assert_buffer_def)
next
  case (6 s pk pks)
  obtain p h where s: "s = (p, h)" by (cases s)
  from 6 [unfolded s] obtain as a nd b where n: "queue_at (a # as) (p, h) (pk # pks)"
    "p_top p = Some a" "fmlookup (h_nodes h) a = Some nd" "nd_packType nd = packet_type pk"
    "nd_pack nd = Some b" "fmlookup (h_packs h) b = Some pk" "p_buffer p \<noteq> None"
    by (rule queue_rel_ConsE)
  define p' where "p' = (if nd_next nd = None then p\<lparr>p_top := nd_next nd, p_end := None\<rparr>
               else p\<lparr>p_top := nd_next nd\<rparr>)"
  have "nmea_parser_pop s = Inr (packet_type pk, Some b, p', free_node a h)"
    using n by (auto simp: s nmea_parser_pop_def assert_buffer_def get_node_def p'_def Let_def)
  moreover have "pack_load (p', free_node a h) (Some b) = Some pk"
    using n by (simp add: pack_load_def free_node_def)
  moreover have "queue_at as (p', free_node a (free_pack (nd_pack nd) h)) pks"
    using queue_at_unlink [OF n(1,3) _ p'_def] by blast
  then have "queue_rel (pack_release (Some b) (p', free_node a h)) pks"
    using n(5) by (auto simp: pack_release_def queue_rel_def free_node_pack)
  ultimately show ?case by blast
next
  case (7 s) then show ?case
    by (cases s) (auto dest!: queue_rel_Nil simp: nmea_parser_drop_def assert_buffer_def)
next
  case (8 s pk pks)
  obtain p h where s: "s = (p, h)" by (cases s)
  from 8 [unfolded s] obtain as a nd b where n: "queue_at (a # as) (p, h) (pk # pks)"
    "p_top p = Some a" "fmlookup (h_nodes h) a = Some nd" "nd_packType nd = packet_type pk"
    "nd_pack nd = Some b" "fmlookup (h_packs h) b = Some pk" "p_buffer p \<noteq> None"
    by (rule queue_rel_ConsE)
  define p' where "p' = (if nd_next nd = None then p\<lparr>p_top := nd_next nd, p_end := None\<rparr>
               else p\<lparr>p_top := nd_next nd\<rparr>)"
  have "nmea_parser_drop s = Inr (packet_type pk, p', free_node a (free_pack (nd_pack nd) h))"
    using n by (auto simp: s nmea_parser_drop_def assert_buffer_def get_node_def p'_def Let_def)
  moreover have "queue_at as (p', free_node a (free_pack (nd_pack nd) h)) pks"
    using queue_at_unlink [OF n(1,3) _ p'_def] by blast
  ultimately show ?case by (auto simp: queue_rel_def)
qed

end
