(* ===== verification/Nmea_Parser.thy ===== *)
theory Nmea_Parser
  imports Nmea_Queue
begin

text \<open>
  The stream level of \<open>nmea_parse.c\<close>: the parser object with its byte buffer
  (\<open>nmea_parser_init\<close>, \<open>nmea_parser_destroy\<close>), feeding it bytes (\<open>nmea_parser_real_push\<close>,
  \<open>nmea_parser_push\<close>) and merging what was recognised into the summary (\<open>nmea_parse\<close>).

  The bytes of the buffer are a list of length \<open>p_buff_size\<close> of which the first \<open>p_buff_use\<close> are
  in use.  \<open>stk\<close> is what the stack holds where a sentence parser keeps its time buffer, given the
  sentence.
\<close>

subsection \<open>The parser object\<close>

text \<open>\<open>mem\<close> is the block \<open>rt_malloc\<close> hands out (its contents are not initialised), \<open>None\<close> if it fails.\<close>

definition nmea_parser_init :: "string option \<Rightarrow> int \<times> nmea_parser" where
  [cdefs]: "nmea_parser_init mem =
     (let buff_size = (if NMEA_DEF_PARSEBUFF < NMEA_MIN_PARSEBUFF then NMEA_MIN_PARSEBUFF
                       else NMEA_DEF_PARSEBUFF);
          parser = \<lparr>p_top = None, p_end = None, p_buffer = mem, p_buff_size = 0, p_buff_use = 0\<rparr>
      in case mem of
           None \<Rightarrow> (- 1, parser)
         | Some _ \<Rightarrow> (1, parser\<lparr>p_buff_size := buff_size\<rparr>))"

definition nmea_parser_destroy :: "pstate \<Rightarrow> pstate result" where
  [cdefs]: "nmea_parser_destroy s =
     bindR (assert_buffer (fst s))
       (\<lambda>_. bindR (nmea_parser_queue_clear s)
              (\<lambda>(_, s'). Inr (\<lparr>p_top = None, p_end = None, p_buffer = None, p_buff_size = 0,
                              p_buff_use = 0\<rparr>, snd s')))"

definition nmea_parser_buff_clear :: "nmea_parser \<Rightarrow> nmea_parser" where
  [cdefs]: "nmea_parser_buff_clear p = p\<lparr>p_buff_use := 0\<rparr>"

subsection \<open>Feeding bytes\<close>

text \<open>The call of the sentence parser in each \<open>case\<close> of the \<open>switch\<close>, and the packet it fills.\<close>

fun parse_packet :: "(string \<Rightarrow> string) \<Rightarrow> NMEA_PACK_TYPE \<Rightarrow> string \<Rightarrow> (bool \<times> packet) option result" where
  "parse_packet stk GPNON sen = Inr None"
| "parse_packet stk GPGGA sen =
     bindR (nmea_parse_gga (stk sen) sen) (\<lambda>(r, p). Inr (Some (r \<noteq> 0, Pgga p)))"
| "parse_packet stk GPGSA sen = (let (r, p) = nmea_parse_gsa sen in Inr (Some (r \<noteq> 0, Pgsa p)))"
| "parse_packet stk GPGSV sen = (let (r, p) = nmea_parse_gsv sen in Inr (Some (r \<noteq> 0, Pgsv p)))"
| "parse_packet stk GPRMC sen =
     bindR (nmea_parse_rmc (stk sen) sen) (\<lambda>(r, p). Inr (Some (r \<noteq> 0, Prmc p)))"
| "parse_packet stk GPVTG sen = (let (r, p) = nmea_parse_vtg sen in Inr (Some (r \<noteq> 0, Pvtg p)))"

text \<open>
  The body of the loop for a sentence with a good checksum: allocate the node, allocate the packet
  of the recognised type, parse into it, link the node.  When parsing fails only the node is freed.
  \<open>False\<close> is \<open>goto mem_fail\<close>.
\<close>

definition push_sentence ::
    "(string \<Rightarrow> string) \<Rightarrow> NMEA_PACK_TYPE \<Rightarrow> string \<Rightarrow> pstate \<Rightarrow> (bool \<times> pstate) result" where
  [cdefs]: "push_sentence stk ptype sen s =
     (let (p, h) = s; (ok1, h1) = malloc_ok h
      in if \<not> ok1 then Inr (False, p, h1)
         else
           (let (a, h2) = new_node \<lparr>nd_packType = GPNON, nd_pack = None, nd_next = None\<rparr> h1
            in if ptype = GPNON then Inr (True, p, free_node a h2)
               else
                 (let (ok2, h3) = malloc_ok h2
                  in if \<not> ok2 then Inr (False, p, free_node a h3)
                     else
                       bindR (parse_packet stk ptype sen)
                         (\<lambda>res. case res of
                            None \<Rightarrow> Inr (True, p, free_node a h3)
                          | Some (good, pk) \<Rightarrow>
                              (let (b, h4) = new_pack pk h3;
                                   h5 = h4\<lparr>h_nodes := fmupd a \<lparr>nd_packType = ptype, nd_pack = Some b,
                                                           nd_next = None\<rparr> (h_nodes h4)\<rparr>
                               in if good then bindR (link_node a (p, h5)) (\<lambda>s'. Inr (True, s'))
                                  else Inr (True, p, free_node a h5))))))"

text \<open>
  The loop \<open>for (;; node = 0)\<close>: \<open>rest\<close> are the bytes from \<open>parser->buffer + nparsed\<close> up to
  \<open>buff_use\<close>.  The result is \<open>None\<close> after \<open>mem_fail\<close>, else the number of bytes consumed and the
  bytes that stay.
\<close>

function push_loop ::
    "(string \<Rightarrow> string) \<Rightarrow> nat \<Rightarrow> string \<Rightarrow> pstate \<Rightarrow> ((nat \<times> string) option \<times> pstate) result" where
  "push_loop stk nparsed rest s =
     (let (sen_sz, crc) = nmea_find_tail rest
      in if sen_sz = 0 then Inr (Some (nparsed, rest), s)
         else if 0 \<le> crc then
           (case push_sentence stk (nmea_pack_type (drop 1 rest)) (take sen_sz rest) s of
              Inl e \<Rightarrow> Inl e
            | Inr (ok, s') \<Rightarrow>
                (if ok then push_loop stk (nparsed + sen_sz) (drop sen_sz rest) s'
                 else Inr (None, s')))
         else push_loop stk (nparsed + sen_sz) (drop sen_sz rest) s)"
  by pat_completeness auto
termination
proof (relation "measure (\<lambda>(stk, nparsed, rest, s). length rest)", goal_cases)
  case (2 stk nparsed rest s x sen_sz crc)
  with find_tail_bound [of rest] show ?case by (cases rest) auto
next
  case (3 stk nparsed rest s x sen_sz crc)
  with find_tail_bound [of rest] show ?case by (cases rest) auto
qed simp

declare push_loop.simps [simp del]

definition nmea_parser_real_push ::
    "(string \<Rightarrow> string) \<Rightarrow> pstate \<Rightarrow> string \<Rightarrow> (int \<times> pstate) result" where
  [cdefs]: "nmea_parser_real_push stk s buff =
     (let (p, h) = s
      in case p_buffer p of
           None \<Rightarrow> Inl Assert_failed
         | Some bytes \<Rightarrow>
             (let p1 = (if p_buff_use p + length buff \<ge> p_buff_size p
                        then nmea_parser_buff_clear p else p)
              in if p_buff_use p1 + length buff > length bytes then Inl Buffer_overflow
                 else
                   (let bytes1 = splice bytes (p_buff_use p1) buff;
                        use1 = p_buff_use p1 + length buff;
                        p2 = p1\<lparr>p_buffer := Some bytes1, p_buff_use := use1\<rparr>
                    in bindR (push_loop stk 0 (take use1 bytes1) (p2, h))
                         (\<lambda>(res, p3, h3).
                            case res of
                              None \<Rightarrow> Inr (- 1, p3, h3)
                            | Some (nparsed, rest) \<Rightarrow>
                                Inr (int nparsed,
                                     (if nparsed \<noteq> 0
                                      then p3\<lparr>p_buffer := Some (splice bytes1 0 rest),
                                              p_buff_use := length rest\<rparr>
                                      else p3),
                                     h3)))))"

text \<open>
  \<open>do ... while (buff_sz)\<close>.  The source does not advance \<open>buff\<close>: every round copies from its
  start.  A parser with buffer size 0 would loop for ever, which is the result \<open>None\<close>.
\<close>

function parser_push_loop ::
    "(string \<Rightarrow> string) \<Rightarrow> string \<Rightarrow> nat \<Rightarrow> int \<Rightarrow> pstate \<Rightarrow> (int \<times> pstate) result option" where
  "parser_push_loop stk buff buff_sz nparsed s =
     (let nparse = (if buff_sz > p_buff_size (fst s) then p_buff_size (fst s) else buff_sz)
      in case nmea_parser_real_push stk s (take nparse buff) of
           Inl e \<Rightarrow> Some (Inl e)
         | Inr (n, s') \<Rightarrow>
             (if buff_sz - nparse = 0 then Some (Inr (wrap32 (nparsed + n), s'))
              else if nparse = 0 then None
              else parser_push_loop stk buff (buff_sz - nparse) (wrap32 (nparsed + n)) s'))"
  by pat_completeness auto
termination
  by (relation "measure (\<lambda>(stk, buff, buff_sz, nparsed, s). buff_sz)") auto

declare parser_push_loop.simps [simp del]

definition nmea_parser_push ::
    "(string \<Rightarrow> string) \<Rightarrow> pstate \<Rightarrow> string \<Rightarrow> (int \<times> pstate) result option" where
  [cdefs]: "nmea_parser_push stk s buff = parser_push_loop stk buff (length buff) 0 s"

subsection \<open>Merging the recognised packets\<close>

text \<open>The loop \<open>while (GPNON != (ptype = nmea_parser_pop(parser, &pack)))\<close>.\<close>

function parse_drain :: "pstate \<Rightarrow> nmea_info \<Rightarrow> nat \<Rightarrow> (nat \<times> nmea_info \<times> pstate) result" where
  "parse_drain s info nread =
     (case nmea_parser_pop s of
        Inl e \<Rightarrow> Inl e
      | Inr (ptype, pk, s') \<Rightarrow>
          (if ptype = GPNON then Inr (nread, info, s')
           else
             (case pack_load s' pk of
                None \<Rightarrow> Inl Use_after_free
              | Some p \<Rightarrow>
                  (case apply_packet p info of
                     Inl e \<Rightarrow> Inl e
                   | Inr info' \<Rightarrow> parse_drain (pack_release pk s') info' (Suc nread)))))"
  by pat_completeness auto
termination
  by (relation "measure (\<lambda>(s, info, nread). node_count s)")
     (auto dest!: pop_node_count simp: node_count_def pack_release_def free_pack_def
        split: option.splits)

declare parse_drain.simps [simp del]

definition nmea_parse ::
    "(string \<Rightarrow> string) \<Rightarrow> pstate \<Rightarrow> string \<Rightarrow> nmea_info \<Rightarrow> (nat \<times> nmea_info \<times> pstate) result option" where
  [cdefs]: "nmea_parse stk s buff info =
     (if p_buffer (fst s) = None then Some (Inl Assert_failed)
      else
        (case nmea_parser_push stk s buff of
           None \<Rightarrow> None
         | Some (Inl e) \<Rightarrow> Some (Inl e)
         | Some (Inr (_, s')) \<Rightarrow> Some (parse_drain s' info 0)))"


subsection \<open>Reference: a byte stream as frames\<close>

text \<open>
  The reference view of the scanner: the accepted frames of a stream, each with its packet type,
  and the bytes that still wait for a terminator.
\<close>

type_synonym frame = "NMEA_PACK_TYPE \<times> string"

function split_stream :: "string \<Rightarrow> frame list \<times> string" where
  "split_stream rest =
     (let (n, crc) = nmea_find_tail rest
      in if n = 0 then ([], rest)
         else
           (let (fs, left) = split_stream (drop n rest)
            in ((if 0 \<le> crc then (nmea_pack_type (drop 1 rest), take n rest) # fs else fs), left)))"
  by pat_completeness auto
termination
proof (relation "measure length", goal_cases)
  case (2 rest x n crc)
  with find_tail_bound [of rest] show ?case by (cases rest) auto
qed simp

declare split_stream.simps [simp del]

text \<open>The packets of a list of frames; a frame of another type or one that does not parse gives none.\<close>

fun frame_packets :: "(string \<Rightarrow> string) \<Rightarrow> frame list \<Rightarrow> packet list result" where
  "frame_packets stk [] = Inr []"
| "frame_packets stk ((pt, sen) # fs) =
     bindR (parse_packet stk pt sen)
       (\<lambda>res. bindR (frame_packets stk fs)
          (\<lambda>pks. Inr (case res of Some (True, pk) \<Rightarrow> pk # pks | _ \<Rightarrow> pks)))"

lemma frame_packets_append:
  "frame_packets stk (fs @ gs) =
     bindR (frame_packets stk fs) (\<lambda>ps. bindR (frame_packets stk gs) (\<lambda>qs. Inr (ps @ qs)))"
proof (induction fs)
  case Nil
  then show ?case by (cases "frame_packets stk gs") simp_all
next
  case (Cons f fs)
  obtain pt sen where f: "f = (pt, sen)" by (cases f)
  show ?case
    by (cases "parse_packet stk pt sen"; cases "frame_packets stk fs"; cases "frame_packets stk gs")
       (simp_all add: f Cons split: option.splits bool.splits)
qed

lemma parse_packet_type:
  "parse_packet stk pt sen = Inr (Some (g, pk)) \<Longrightarrow> packet_type pk = pt"
  by (cases pt) (auto simp: bindR_eq_Inr split: prod.splits)

lemma parse_packet_None: "parse_packet stk pt sen = Inr None \<longleftrightarrow> pt = GPNON"
  by (cases pt) (auto simp: bindR_eq_Inr split: prod.splits)

text \<open>The type of an accepted frame is decided by the frame itself.\<close>

lemma pack_type_take: "nmea_pack_type buff \<noteq> GPNON \<Longrightarrow> nmea_pack_type (buff @ t) = nmea_pack_type buff"
  by (auto simp: nmea_pack_type_def split: if_splits)

lemma pack_type_long: "5 \<le> length buff \<Longrightarrow> nmea_pack_type (buff @ t) = nmea_pack_type buff"
  by (simp add: nmea_pack_type_def)

lemma pack_type_CR: "nmea_pack_type (a # b # CR # s) = GPNON"
  by (simp add: nmea_pack_type_def)

lemma accepted_pack_type_append:
  assumes "nmea_find_tail rest = (n, crc)" and "0 \<le> crc"
  shows "nmea_pack_type (drop 1 (rest @ t)) = nmea_pack_type (drop 1 rest)"
proof (cases rest)
  case (Cons c s)
  show ?thesis
  proof (cases "c = CHR ''*''")
    case True
    with assms Cons obtain a b x y u where s: "s = a # b # x # y # u" "x = CR"
      by (auto simp: nmea_find_tail_def numeral_eq_Suc Suc_le_length_iff split: if_splits)
    then show ?thesis by (simp add: Cons pack_type_CR)
  next
    case False
    with assms Cons have "find_tail_loop 1 0 s = (n, crc)"
      by (simp add: nmea_find_tail_def)
    from find_tail_loop_sound [OF this assms(2)] have "5 \<le> length s" by auto
    then show ?thesis by (simp add: Cons pack_type_long)
  qed
qed (use assms in simp)

lemma split_stream_append:
  assumes "split_stream a = (fs, left)"
  shows "split_stream (a @ b) = (let (gs, l) = split_stream (left @ b) in (fs @ gs, l))"
  using assms
proof (induction a arbitrary: fs rule: split_stream.induct)
  case (1 a)
  obtain n crc where t: "nmea_find_tail a = (n, crc)" by (cases "nmea_find_tail a")
  show ?case
  proof (cases "n = 0")
    case True
    with "1.prems" t have "fs = []" "left = a" by (simp_all add: split_stream.simps [of a])
    then show ?thesis by (cases "split_stream (a @ b)") simp
  next
    case False
    obtain fs' where s: "split_stream (drop n a) = (fs', left)"
      and fs: "fs = (if 0 \<le> crc then (nmea_pack_type (drop 1 a), take n a) # fs' else fs')"
      using "1.prems" t False by (cases "split_stream (drop n a)") (simp add: split_stream.simps [of a])
    have ab: "nmea_find_tail (a @ b) = (n, crc)"
      using find_tail_append [of a b] t False by simp
    have n: "n \<le> length a" using find_tail_bound [of a] t by simp
    have IH: "split_stream (drop n a @ b) = (let (gs, l) = split_stream (left @ b) in (fs' @ gs, l))"
      using "1.IH" [OF t [symmetric] refl False s] .
    show ?thesis
      using t False n ab fs IH accepted_pack_type_append [OF t]
      by (cases "split_stream (left @ b)") (simp add: split_stream.simps [of "a @ b"])
  qed
qed


subsection \<open>One sentence\<close>

text \<open>With memory available a good frame is queued, a frame of unknown type is skipped.\<close>

lemma malloc_ok_empty [simp]: "h_plan h = [] \<Longrightarrow> malloc_ok h = (True, h)"
  by (simp add: malloc_ok_def)

lemma link_node_plan: "link_node a (p, h) = Inr s' \<Longrightarrow> h_plan (snd s') = h_plan h"
  by (auto simp: link_node_def bindR_eq_Inr Let_def split: option.splits)

definition same_buffer :: "nmea_parser \<Rightarrow> nmea_parser \<Rightarrow> bool" where
  "same_buffer p q \<longleftrightarrow> p_buffer q = p_buffer p \<and> p_buff_size q = p_buff_size p \<and>
     p_buff_use q = p_buff_use p"

lemma same_buffer_refl [simp]: "same_buffer p p"
  by (simp add: same_buffer_def)

lemma same_buffer_trans: "same_buffer p q \<Longrightarrow> same_buffer q r \<Longrightarrow> same_buffer p r"
  by (simp add: same_buffer_def)

text \<open>A node at address \<open>h_fresh h\<close> that owns a packet at the address after it.\<close>

definition alloc_pair :: "NMEA_PACK_TYPE \<Rightarrow> packet \<Rightarrow> rt_heap \<Rightarrow> rt_heap" where
  "alloc_pair pt pk h = h\<lparr>h_packs := fmupd (Suc (h_fresh h)) pk (h_packs h),
     h_fresh := Suc (Suc (h_fresh h)),
     h_nodes := fmupd (h_fresh h) \<lparr>nd_packType = pt, nd_pack = Some (Suc (h_fresh h)),
                                   nd_next = None\<rparr> (h_nodes h)\<rparr>"

lemma queue_at_addrs:
  assumes "queue_at as (p, h) pks"
  shows "a \<in> fmdom' (h_nodes h) \<Longrightarrow> a < h_fresh h" and "b \<in> fmdom' (h_packs h) \<Longrightarrow> b < h_fresh h"
    and "x \<in> set as \<Longrightarrow> x < h_fresh h"
    and "x \<in> set as \<Longrightarrow> pack_addr h x = Some b \<Longrightarrow> b < h_fresh h"
proof -
  show 1: "a \<in> fmdom' (h_nodes h) \<Longrightarrow> a < h_fresh h" for a using assms by (auto simp: queue_at_def)
  show 2: "b \<in> fmdom' (h_packs h) \<Longrightarrow> b < h_fresh h" for b using assms by (auto simp: queue_at_def)
  show "x \<in> set as \<Longrightarrow> x < h_fresh h" for x
    using assms chain_in_dom [of "h_nodes h" "p_top p" as x] 1
    by (auto simp: queue_at_def fmlookup_dom'_iff)
  show "b < h_fresh h" if x: "x \<in> set as" and b: "pack_addr h x = Some b" for x b
  proof -
    obtain y where "owns h x y"
      using assms x by (auto simp: queue_at_def list_all2_conv_all_nth in_set_conv_nth)
    with b have "b \<in> fmdom' (h_packs h)" by (auto simp: owns_def pack_addr_def fmdom'I)
    with 2 show ?thesis .
  qed
qed

text \<open>A heap that agrees with the old one on all addresses handed out so far holds the same list.\<close>

lemma queue_at_fresh:
  assumes q: "queue_at as (p, h) pks" and "h_fresh h' \<ge> h_fresh h"
    and "\<And>x. x < h_fresh h \<Longrightarrow> fmlookup (h_nodes h') x = fmlookup (h_nodes h) x"
    and "\<And>x. x < h_fresh h \<Longrightarrow> fmlookup (h_packs h') x = fmlookup (h_packs h) x"
    and "\<forall>a \<in> fmdom' (h_nodes h'). a < h_fresh h'" and "\<forall>b \<in> fmdom' (h_packs h'). b < h_fresh h'"
  shows "queue_at as (p, h') pks"
  by (rule queue_at_frame [OF q])
     (use assms queue_at_addrs [OF q] in \<open>auto simp: queue_at_def\<close>)

lemma queue_at_alloc_pair:
  assumes q: "queue_at as (p, h) pks"
  shows "queue_at as (p, alloc_pair pt pk h) pks"
    and "queue_at as (p, free_node (h_fresh h) (alloc_pair pt pk h)) pks"
  by (rule queue_at_fresh [OF q],
      use queue_at_addrs(1,2) [OF q] in \<open>auto simp: alloc_pair_def free_node_def less_Suc_eq\<close>)+

lemma alloc_pair_count:
  "queue_at as (p, h) pks \<Longrightarrow>
   card (fmdom' (h_packs (alloc_pair pt pk h))) = Suc (card (fmdom' (h_packs h)))"
  using queue_at_addrs(2) [of as p h pks "Suc (h_fresh h)"]
  by (simp add: alloc_pair_def card_insert_if) force

lemma link_alloc_pair:
  assumes q: "queue_at as (p, h) pks" and "packet_type pk = pt"
  shows "\<exists>s'. link_node (h_fresh h) (p, alloc_pair pt pk h) = Inr s' \<and>
    queue_rel s' (pks @ [pk]) \<and> p_buffer (fst s') = p_buffer p \<and>
    p_buff_use (fst s') = p_buff_use p \<and> p_buff_size (fst s') = p_buff_size p \<and>
    h_packs (snd s') = h_packs (alloc_pair pt pk h)"
proof -
  let ?h = "alloc_pair pt pk h" and ?b = "Suc (h_fresh h)"
  let ?nd = "\<lparr>nd_packType = pt, nd_pack = Some ?b, nd_next = None\<rparr>"
  have "pack_addr ?h x \<noteq> Some ?b" if x: "x \<in> set as" for x
  proof -
    have "pack_addr ?h x = pack_addr h x"
      using queue_at_addrs(3) [OF q x] by (simp add: pack_addr_def alloc_pair_def)
    with queue_at_addrs(4) [OF q x, of ?b] show ?thesis by auto
  qed
  then have b: "Some ?b \<notin> pack_addr ?h ` set as" by (auto simp: image_iff) metis
  have a: "fmlookup (h_nodes ?h) (h_fresh h) = Some ?nd" "h_fresh h \<notin> set as"
      "nd_packType ?nd = packet_type pk" "nd_pack ?nd = Some ?b" "fmlookup (h_packs ?h) ?b = Some pk"
    using queue_at_addrs(3) [OF q] assms(2) by (auto simp: alloc_pair_def)
  from link_node_queue [OF queue_at_alloc_pair(1) [OF q] a b] show ?thesis
    by (auto simp: queue_rel_def)
qed

definition frame_adds :: "(bool \<times> packet) option \<Rightarrow> packet list" where
  "frame_adds res = (case res of Some (True, pk) \<Rightarrow> [pk] | _ \<Rightarrow> [])"

text \<open>The packet of a frame that does not parse stays allocated: one block more than the queue.\<close>

definition frame_leaks :: "(bool \<times> packet) option \<Rightarrow> nat" where
  "frame_leaks res = (case res of Some (False, _) \<Rightarrow> 1 | _ \<Rightarrow> 0)"

definition pack_count :: "pstate \<Rightarrow> nat" where
  "pack_count s = card (fmdom' (h_packs (snd s)))"

lemma push_sentence_GPNON:
  assumes q: "queue_at as (p, h) pks" and "h_plan h = []"
  shows "\<exists>h'. push_sentence stk GPNON sen (p, h) = Inr (True, p, h') \<and> queue_at as (p, h') pks \<and>
    h_plan h' = [] \<and> h_packs h' = h_packs h"
proof -
  define h0 where "h0 = free_node (h_fresh h)
     (snd (new_node \<lparr>nd_packType = GPNON, nd_pack = None, nd_next = None\<rparr> h))"
  note h0 = h0_def new_node_def free_node_def
  have "queue_at as (p, h0) pks"
    by (rule queue_at_fresh [OF q])
       (use queue_at_addrs(1,2) [OF q] in \<open>auto simp: h0 less_Suc_eq\<close>)
  then show ?thesis
    using assms(2) by (auto simp: push_sentence_def h0)
qed

lemma push_sentence_Some:
  assumes "h_plan h = []" and "pt \<noteq> GPNON" and "parse_packet stk pt sen = Inr (Some (good, pk))"
  shows "push_sentence stk pt sen (p, h) =
    (if good then bindR (link_node (h_fresh h) (p, alloc_pair pt pk h)) (\<lambda>s'. Inr (True, s'))
     else Inr (True, p, free_node (h_fresh h) (alloc_pair pt pk h)))"
  using assms by (simp add: push_sentence_def new_node_def new_pack_def alloc_pair_def Let_def)

lemma push_sentence_spec:
  assumes q: "queue_rel (p, h) pks" and plan: "h_plan h = []"
    and res: "parse_packet stk pt sen = Inr res"
  shows "\<exists>p' h'. push_sentence stk pt sen (p, h) = Inr (True, p', h') \<and>
    queue_rel (p', h') (pks @ frame_adds res) \<and> same_buffer p p' \<and> h_plan h' = [] \<and>
    pack_count (p', h') = pack_count (p, h) + length (frame_adds res) + frame_leaks res"
proof -
  from q obtain as where qa: "queue_at as (p, h) pks" by (auto simp: queue_rel_def)
  show ?thesis
  proof (cases res)
    case None
    with res have "pt = GPNON" by (simp add: parse_packet_None)
    with push_sentence_GPNON [OF qa plan, of stk sen] None show ?thesis
      by (auto simp: queue_rel_def frame_adds_def frame_leaks_def pack_count_def)
  next
    case (Some r)
    obtain good pk where r: "res = Some (good, pk)" using Some by (cases r) auto
    have pt: "pt \<noteq> GPNON" using res r parse_packet_None [of stk pt sen] by auto
    note ps = push_sentence_Some [OF plan pt res [unfolded r], of p]
    show ?thesis
    proof (cases good)
      case False
      with ps r plan alloc_pair_count [OF qa, of pt pk] queue_at_alloc_pair(2) [OF qa, of pt pk]
      show ?thesis
        by (auto simp: queue_rel_def frame_adds_def frame_leaks_def pack_count_def free_node_def
            alloc_pair_def)
    next
      case True
      obtain s' where s': "link_node (h_fresh h) (p, alloc_pair pt pk h) = Inr s'"
        "queue_rel s' (pks @ [pk])" "same_buffer p (fst s')"
        "h_packs (snd s') = h_packs (alloc_pair pt pk h)"
        using link_alloc_pair [OF qa parse_packet_type [OF res [unfolded r]]]
        by (auto simp: same_buffer_def)
      moreover have "h_plan (snd s') = []"
        using link_node_plan [OF s'(1)] plan by (simp add: alloc_pair_def)
      ultimately show ?thesis
        using ps True r alloc_pair_count [OF qa, of pt pk]
        by (cases s') (auto simp: frame_adds_def frame_leaks_def pack_count_def)
    qed
  qed
qed


subsection \<open>The loop implements the reference\<close>

lemma frame_packets_Cons:
  "frame_packets stk ((pt, sen) # fs) = Inr new \<longleftrightarrow>
     (\<exists>res pks. parse_packet stk pt sen = Inr res \<and> frame_packets stk fs = Inr pks \<and>
        new = frame_adds res @ pks)"
proof -
  have "(case res of Some (True, pk) \<Rightarrow> pk # pks | _ \<Rightarrow> pks) = frame_adds res @ pks" for res pks
    by (simp add: frame_adds_def split: option.split bool.split)
  then show ?thesis by (auto simp: bindR_eq_Inr)
qed

text \<open>The frames of a stream that their parser does not accept.\<close>

definition rejected :: "(string \<Rightarrow> string) \<Rightarrow> frame list \<Rightarrow> frame list" where
  "rejected stk fs = filter (\<lambda>(pt, sen). case parse_packet stk pt sen of
     Inl _ \<Rightarrow> False | Inr res \<Rightarrow> (case res of Some (False, _) \<Rightarrow> True | _ \<Rightarrow> False)) fs"

lemma rejected_Cons:
  "parse_packet stk pt sen = Inr res \<Longrightarrow>
   length (rejected stk ((pt, sen) # fs)) = frame_leaks res + length (rejected stk fs)"
  by (simp add: rejected_def frame_leaks_def del: parse_packet.simps split: option.split prod.split bool.split)

lemma push_loop_spec:
  assumes "queue_rel (p, h) pks" and "h_plan h = []"
    and "split_stream rest = (fs, left)" and "frame_packets stk fs = Inr new"
  shows "\<exists>p' h'. push_loop stk nparsed rest (p, h) =
      Inr (Some (nparsed + (length rest - length left), left), p', h') \<and>
    queue_rel (p', h') (pks @ new) \<and> same_buffer p p' \<and> h_plan h' = [] \<and> length left \<le> length rest \<and>
    pack_count (p', h') = pack_count (p, h) + length new + length (rejected stk fs)"
  using assms
proof (induction stk nparsed rest "(p, h)" arbitrary: p h pks fs new rule: push_loop.induct)
  case (1 stk nparsed rest)
  obtain n crc where t: "nmea_find_tail rest = (n, crc)" by (cases "nmea_find_tail rest")
  have n: "n \<le> length rest" using find_tail_bound [of rest] t by simp
  show ?case
  proof (cases "n = 0")
    case True
    with t have "push_loop stk nparsed rest (p, h) = Inr (Some (nparsed, rest), p, h)"
      by (simp add: push_loop.simps [of stk nparsed rest])
    moreover have "fs = []" "left = rest" "new = []"
      using True t "1.prems"(3,4) by (simp_all add: split_stream.simps [of rest])
    ultimately show ?thesis using "1.prems"(1,2) by (simp add: rejected_def)
  next
    case n0: False
    obtain fs' where s: "split_stream (drop n rest) = (fs', left)"
      and fs: "fs = (if 0 \<le> crc then (nmea_pack_type (drop 1 rest), take n rest) # fs' else fs')"
      using "1.prems"(3) t n0
      by (cases "split_stream (drop n rest)") (simp add: split_stream.simps [of rest])
    have fin: ?thesis if IH: "\<exists>p'' h''. push_loop stk (nparsed + n) (drop n rest) (p', h') =
        Inr (Some (nparsed + n + (length (drop n rest) - length left), left), p'', h'') \<and>
        queue_rel (p'', h'') (pks' @ new') \<and> same_buffer p' p'' \<and> h_plan h'' = [] \<and>
        length left \<le> length (drop n rest) \<and>
        pack_count (p'', h'') = pack_count (p', h') + length new' + length (rejected stk fs')"
      and eq: "push_loop stk nparsed rest (p, h) = push_loop stk (nparsed + n) (drop n rest) (p', h')"
      and app: "pks' @ new' = pks @ new" and sb: "same_buffer p p'"
      and cnt: "pack_count (p', h') + length new' + length (rejected stk fs') =
        pack_count (p, h) + length new + length (rejected stk fs)" for p' h' pks' new'
      using IH n by (auto simp: eq app cnt intro: same_buffer_trans [OF sb])
    show ?thesis
    proof (cases "0 \<le> crc")
      case False
      have eq: "push_loop stk nparsed rest (p, h) = push_loop stk (nparsed + n) (drop n rest) (p, h)"
        using t n0 False by (simp add: push_loop.simps [of stk nparsed rest])
      show ?thesis
        by (rule fin [OF "1.hyps"(2) [OF t [symmetric] refl n0 False "1.prems"(1,2) s "1.prems"(4) [unfolded fs if_not_P [OF False]]] eq])
           (use fs False in simp_all)
    next
      case True
      let ?pt = "nmea_pack_type (drop 1 rest)" and ?sen = "take n rest"
      obtain res new' where r: "parse_packet stk ?pt ?sen = Inr res"
          "frame_packets stk fs' = Inr new'" "new = frame_adds res @ new'"
        using "1.prems"(4) fs True by (auto simp: frame_packets_Cons simp del: frame_packets.simps)
      obtain p' h' where ps: "push_sentence stk ?pt ?sen (p, h) = Inr (True, p', h')"
          "queue_rel (p', h') (pks @ frame_adds res)" "same_buffer p p'" "h_plan h' = []"
          "pack_count (p', h') = pack_count (p, h) + length (frame_adds res) + frame_leaks res"
        using push_sentence_spec [OF "1.prems"(1,2) r(1)] by blast
      have eq: "push_loop stk nparsed rest (p, h) = push_loop stk (nparsed + n) (drop n rest) (p', h')"
        using t n0 True ps(1) by (simp add: push_loop.simps [of stk nparsed rest])
      show ?thesis
        by (rule fin [OF "1.hyps"(1) [OF t [symmetric] refl n0 True ps(1) refl TrueI ps(2,4) s r(2)] eq])
           (use r ps fs True rejected_Cons [OF r(1)] in \<open>auto simp del: parse_packet.simps\<close>)
    qed
  qed
qed


subsection \<open>The parser object refines pending bytes and a queue\<close>

definition parser_ok :: "nmea_parser \<Rightarrow> bool" where
  "parser_ok p \<longleftrightarrow> (\<exists>bytes. p_buffer p = Some bytes \<and> length bytes = p_buff_size p) \<and>
     p_buff_use p \<le> p_buff_size p"

definition pending :: "nmea_parser \<Rightarrow> string" where
  "pending p = (case p_buffer p of None \<Rightarrow> [] | Some bytes \<Rightarrow> take (p_buff_use p) bytes)"

text \<open>State \<open>s\<close> holds the unread bytes \<open>pend\<close> and the packets \<open>pks\<close>; memory is available.\<close>

definition parser_rel :: "pstate \<Rightarrow> string \<Rightarrow> packet list \<Rightarrow> bool" where
  "parser_rel s pend pks \<longleftrightarrow> parser_ok (fst s) \<and> pending (fst s) = pend \<and> queue_rel s pks \<and>
     h_plan (snd s) = []"

text \<open>What is kept of the pending bytes when \<open>n\<close> more arrive: nothing if they would fill the buffer.\<close>

definition kept :: "nmea_parser \<Rightarrow> nat \<Rightarrow> string" where
  "kept p n = (if p_buff_use p + n \<ge> p_buff_size p then [] else pending p)"

lemma length_pending: "parser_ok p \<Longrightarrow> length (pending p) = p_buff_use p"
  by (auto simp: parser_ok_def pending_def)

lemma queue_rel_buffer:
  "queue_rel (p, h) pks \<Longrightarrow> p_top q = p_top p \<Longrightarrow> p_end q = p_end p \<Longrightarrow> p_buffer q \<noteq> None \<Longrightarrow>
   queue_rel (q, h) pks"
  by (auto simp: queue_rel_def queue_at_def)

text \<open>What is left over is the end of the stream.\<close>

lemma split_stream_suffix: "split_stream rest = (fs, left) \<Longrightarrow> \<exists>pre. rest = pre @ left"
proof (induction rest arbitrary: fs rule: split_stream.induct)
  case (1 rest)
  obtain n crc where t: "nmea_find_tail rest = (n, crc)" by (cases "nmea_find_tail rest")
  obtain gs l where s: "split_stream (drop n rest) = (gs, l)" by (cases "split_stream (drop n rest)")
  show ?case
  proof (cases "n = 0")
    case True
    with "1.prems" t show ?thesis by (simp add: split_stream.simps [of rest])
  next
    case False
    from "1.prems" t s False have "l = left" by (simp add: split_stream.simps [of rest])
    with "1.IH" [OF t [symmetric] refl False s [unfolded this]]
    show ?thesis by (metis append_assoc append_take_drop_id)
  qed
qed

lemma split_stream_left: "split_stream rest = (fs, left) \<Longrightarrow> length left \<le> length rest"
  by (drule split_stream_suffix) auto

lemma real_push_spec:
  assumes ok: "parser_ok p" and q: "queue_rel (p, h) pks" and plan: "h_plan h = []"
    and len: "length buff \<le> p_buff_size p"
    and s: "split_stream (kept p (length buff) @ buff) = (fs, left)"
    and new: "frame_packets stk fs = Inr new"
  shows "\<exists>p' h'. nmea_parser_real_push stk (p, h) buff =
      Inr (int (length (kept p (length buff) @ buff) - length left), p', h') \<and>
    parser_rel (p', h') left (pks @ new) \<and> p_buff_size p' = p_buff_size p \<and>
    pack_count (p', h') = pack_count (p, h) + length new + length (rejected stk fs)"
proof -
  obtain bytes where b: "p_buffer p = Some bytes" "length bytes = p_buff_size p"
      "p_buff_use p \<le> p_buff_size p"
    using ok by (auto simp: parser_ok_def)
  define p1 where "p1 = (if p_buff_use p + length buff \<ge> p_buff_size p
     then nmea_parser_buff_clear p else p)"
  define use1 where "use1 = p_buff_use p1 + length buff"
  define bytes1 where "bytes1 = splice bytes (p_buff_use p1) buff"
  define p2 where "p2 = p1\<lparr>p_buffer := Some bytes1, p_buff_use := use1\<rparr>"
  have use1: "use1 \<le> length bytes" and k: "take (p_buff_use p1) bytes = kept p (length buff)"
    and p1: "p_top p1 = p_top p" "p_end p1 = p_end p" "p_buff_size p1 = p_buff_size p"
    using len b by (auto simp: use1_def p1_def nmea_parser_buff_clear_def kept_def pending_def)
  then have tk: "take use1 bytes1 = kept p (length buff) @ buff"
    by (simp add: bytes1_def use1_def)
  have lb1: "length bytes1 = length bytes" using use1 by (simp add: bytes1_def use1_def)
  have q2: "queue_rel (p2, h) pks"
    by (rule queue_rel_buffer [OF q]) (simp_all add: p2_def p1)
  define m where "m = length (kept p (length buff) @ buff) - length left"
  obtain p3 h3 where l: "push_loop stk 0 (take use1 bytes1) (p2, h) = Inr (Some (m, left), p3, h3)"
    "queue_rel (p3, h3) (pks @ new)" "same_buffer p2 p3" "h_plan h3 = []"
    "pack_count (p3, h3) = pack_count (p2, h) + length new + length (rejected stk fs)"
    using push_loop_spec [OF q2 plan s new, of 0] by (auto simp: tk m_def)
  define p4 where "p4 = (if m \<noteq> 0 then p3\<lparr>p_buffer := Some (splice bytes1 0 left),
     p_buff_use := length left\<rparr> else p3)"
  have rp: "nmea_parser_real_push stk (p, h) buff = Inr (int m, p4, h3)"
    using b use1 l(1)
    by (simp add: nmea_parser_real_push_def p1_def [symmetric] use1_def [symmetric]
        bytes1_def [symmetric] p2_def [symmetric] p4_def)
  have ll: "length left \<le> use1" using split_stream_left [OF s] tk lb1 use1
    by (metis length_take min.absorb2)
  have "left = take use1 bytes1" if m0: "m = 0"
  proof -
    from split_stream_suffix [OF s] obtain pre where pre: "kept p (length buff) @ buff = pre @ left"
      by blast
    with m0 have "pre = []" unfolding m_def pre by simp
    with pre tk show ?thesis by simp
  qed
  with l(3) ll use1 lb1 b p1 have "parser_ok p4 \<and> pending p4 = left \<and> p_buff_size p4 = p_buff_size p"
    by (auto simp: parser_ok_def pending_def p4_def same_buffer_def p2_def)
  moreover have "queue_rel (p4, h3) (pks @ new)"
    by (rule queue_rel_buffer [OF l(2)])
       (use l(3) in \<open>auto simp: p4_def same_buffer_def p2_def\<close>)
  ultimately show ?thesis using rp l(4,5) by (auto simp: parser_rel_def m_def pack_count_def)
qed

end
