(* ===== verification/Nmea_Stream.thy ===== *)
theory Nmea_Stream
  imports Nmea_Parser
begin

text \<open>
  What the stream parser does over whole inputs: \<open>nmea_parser_real_push\<close> refines the pair of
  pending bytes and queued packets, input may be cut anywhere, \<open>nmea_parse\<close> merges the packets in
  order.  The locale \<open>packet_drain\<close> is the contract of the consumer loop on top of the queue
  interface.  The last part shows what happens off the intended path.
\<close>

subsection \<open>Draining a queue\<close>

text \<open>The reference: the packets merged in order.\<close>

fun merge_packets :: "packet list \<Rightarrow> nmea_info \<Rightarrow> nmea_info result" where
  "merge_packets [] info = Inr info"
| "merge_packets (pk # pks) info = bindR (apply_packet pk info) (merge_packets pks)"

locale packet_drain = packet_queue rel top peek pop drop_top load release
  for rel :: "'s \<Rightarrow> packet list \<Rightarrow> bool"
    and top :: "'s \<Rightarrow> NMEA_PACK_TYPE result"
    and peek :: "'s \<Rightarrow> (NMEA_PACK_TYPE \<times> ptr) result"
    and pop :: "'s \<Rightarrow> (NMEA_PACK_TYPE \<times> ptr \<times> 's) result"
    and drop_top :: "'s \<Rightarrow> (NMEA_PACK_TYPE \<times> 's) result"
    and load :: "'s \<Rightarrow> ptr \<Rightarrow> packet option"
    and release :: "ptr \<Rightarrow> 's \<Rightarrow> 's" +
  fixes drain :: "'s \<Rightarrow> nmea_info \<Rightarrow> nat \<Rightarrow> (nat \<times> nmea_info \<times> 's) result"
    and clear :: "'s \<Rightarrow> (int \<times> 's) result"
  assumes drain_stop: "pop s = Inr (GPNON, b, s') \<Longrightarrow> drain s info n = Inr (n, info, s')"
    and drain_step: "pop s = Inr (pt, b, s') \<Longrightarrow> pt \<noteq> GPNON \<Longrightarrow> load s' b = Some pk \<Longrightarrow>
      drain s info n =
        bindR (apply_packet pk info) (\<lambda>info'. drain (release b s') info' (Suc n))"
    and clear_stop: "rel s [] \<Longrightarrow> clear s = Inr (1, s)"
    and clear_step: "top s = Inr pt \<Longrightarrow> pt \<noteq> GPNON \<Longrightarrow> drop_top s = Inr (pt, s') \<Longrightarrow>
      clear s = clear s'"
begin

lemma drain_all:
  "rel s pks \<Longrightarrow> merge_packets pks info = Inr info' \<Longrightarrow>
   \<exists>s'. drain s info n = Inr (n + length pks, info', s') \<and> rel s' []"
proof (induction pks arbitrary: s info n)
  case Nil
  then show ?case using pop_Nil [OF Nil(1)] by (auto simp: drain_stop)
next
  case (Cons pk pks)
  from pop_Cons [OF Cons.prems(1)] obtain b s1 where
    p: "pop s = Inr (packet_type pk, b, s1)" "load s1 b = Some pk" "rel (release b s1) pks" by blast
  from Cons.prems(2) obtain i where
    i: "apply_packet pk info = Inr i" "merge_packets pks i = Inr info'"
    by (auto simp: bindR_eq_Inr)
  have "drain s info n = drain (release b s1) i (Suc n)"
    using drain_step [OF p(1) _ p(2)] i(1) by simp
  with Cons.IH [OF p(3) i(2), of "Suc n"] show ?case by simp
qed

text \<open>A packet that faults stops the loop with that fault.\<close>

lemma drain_fault:
  "rel s pks \<Longrightarrow> merge_packets pks info = Inl e \<Longrightarrow> drain s info n = Inl e"
proof (induction pks arbitrary: s info n)
  case (Cons pk pks)
  from pop_Cons [OF Cons.prems(1)] obtain b s1 where
    p: "pop s = Inr (packet_type pk, b, s1)" "load s1 b = Some pk" "rel (release b s1) pks" by blast
  note step = drain_step [OF p(1) packet_type_not_GPNON(1) p(2), of info n]
  show ?case
  proof (cases "apply_packet pk info")
    case (Inl e')
    with step Cons.prems(2) show ?thesis by simp
  next
    case (Inr i)
    with step Cons.prems(2) Cons.IH [OF p(3), of i "Suc n"] show ?thesis by simp
  qed
qed simp

lemma clear_all: "rel s pks \<Longrightarrow> \<exists>s'. clear s = Inr (1, s') \<and> rel s' []"
proof (induction pks arbitrary: s)
  case Nil
  then show ?case using clear_stop by blast
next
  case (Cons pk pks)
  from drop_Cons [OF Cons.prems] obtain s1 where
    d: "drop_top s = Inr (packet_type pk, s1)" "rel s1 pks" by blast
  have "clear s = clear s1"
    by (rule clear_step [OF top_Cons [OF Cons.prems] packet_type_not_GPNON(1) d(1)])
  with Cons.IH [OF d(2)] show ?case by simp
qed

end

text \<open>Taking packets off touches neither the byte buffer nor the allocator's future.\<close>

lemma pop_frame:
  "nmea_parser_pop s = Inr (t, b, s') \<Longrightarrow>
   same_buffer (fst s) (fst s') \<and> h_plan (snd s') = h_plan (snd s)"
  by (cases s) (auto simp: nmea_parser_pop_def bindR_eq_Inr Let_def same_buffer_def free_node_def
      split: option.splits)

lemma drop_frame:
  "nmea_parser_drop s = Inr (t, s') \<Longrightarrow>
   same_buffer (fst s) (fst s') \<and> h_plan (snd s') = h_plan (snd s)"
  by (cases s) (auto simp: nmea_parser_drop_def bindR_eq_Inr Let_def same_buffer_def free_node_def
      free_pack_def split: option.splits)

lemma release_frame:
  "fst (pack_release b s) = fst s" "h_plan (snd (pack_release b s)) = h_plan (snd s)"
  by (simp_all add: pack_release_def free_pack_def split: option.split)

lemma same_buffer_ok: "same_buffer p q \<Longrightarrow> parser_ok q = parser_ok p \<and> pending q = pending p"
  by (auto simp: same_buffer_def parser_ok_def pending_def split: option.split)

lemma parser_rel_queue: "parser_rel s pend pks \<Longrightarrow> queue_rel s pks"
  by (simp add: parser_rel_def)

lemma parser_rel_frame:
  "parser_rel s pend pks \<Longrightarrow> queue_rel s' pks' \<Longrightarrow>
   same_buffer (fst s) (fst s') \<and> h_plan (snd s') = h_plan (snd s) \<Longrightarrow> parser_rel s' pend pks'"
  by (auto simp: parser_rel_def same_buffer_ok)

interpretation pd: packet_drain "\<lambda>s. parser_rel s pend" nmea_parser_top nmea_parser_peek
  nmea_parser_pop nmea_parser_drop pack_load pack_release parse_drain nmea_parser_queue_clear
  for pend
proof (unfold_locales, goal_cases)
  case (6 s pk pks)
  from pq.pop_Cons [OF parser_rel_queue [OF 6]] obtain b s' where
    p: "nmea_parser_pop s = Inr (packet_type pk, b, s')" "pack_load s' b = Some pk"
      "queue_rel (pack_release b s') pks" by blast
  from parser_rel_frame [OF 6 p(3)] pop_frame [OF p(1)] have "parser_rel (pack_release b s') pend pks"
    by (simp add: release_frame)
  with p show ?case by blast
next
  case (8 s pk pks)
  from pq.drop_Cons [OF parser_rel_queue [OF 8]] obtain s' where
    p: "nmea_parser_drop s = Inr (packet_type pk, s')" "queue_rel s' pks" by blast
  with parser_rel_frame [OF 8 p(2)] drop_frame [OF p(1)] show ?case by blast
next
  case (12 s pt s')
  then have "p_top (fst s) \<noteq> None"
    by (cases s) (auto simp: nmea_parser_top_def bindR_eq_Inr split: option.splits)
  with 12 show ?case by (auto simp: nmea_parser_queue_clear.simps [of s])
next
  case (11 s)
  then have "p_top (fst s) = None"
    by (cases s) (auto dest!: parser_rel_queue queue_rel_Nil)
  then show ?case by (simp add: nmea_parser_queue_clear.simps [of s])
qed (auto dest!: parser_rel_queue dest: pq.top_Nil pq.top_Cons pq.peek_Nil pq.peek_Cons pq.pop_Nil
      pq.drop_Nil simp: parse_drain.simps bindR_def split: sum.splits)

subsection \<open>Pushing bytes\<close>

text \<open>What is kept of the pending bytes: all, unless the new ones would fill the buffer.\<close>

definition keep_pending :: "nat \<Rightarrow> string \<Rightarrow> string \<Rightarrow> string" where
  "keep_pending sz pend buff = (if length pend + length buff < sz then pend else [])"

lemma real_push_rel:
  assumes r: "parser_rel s pend pks" and len: "length buff \<le> p_buff_size (fst s)"
    and s: "split_stream (keep_pending (p_buff_size (fst s)) pend buff @ buff) = (fs, left)"
    and new: "frame_packets stk fs = Inr new"
  shows "\<exists>s'. nmea_parser_real_push stk s buff =
      Inr (int (length (keep_pending (p_buff_size (fst s)) pend buff @ buff) - length left), s') \<and>
    parser_rel s' left (pks @ new) \<and> p_buff_size (fst s') = p_buff_size (fst s)"
proof -
  obtain p h where ph: "s = (p, h)" by (cases s)
  from r ph have ok: "parser_ok p" "pending p = pend" "queue_rel (p, h) pks" "h_plan h = []"
    by (auto simp: parser_rel_def)
  then have k: "kept p (length buff) = keep_pending (p_buff_size p) pend buff"
    using length_pending [OF ok(1)] by (auto simp: kept_def keep_pending_def)
  from real_push_spec [OF ok(1,3,4), of buff fs left stk new] len s new show ?thesis
    by (auto simp: ph k)
qed

text \<open>C3: one push of bytes refines the abstract parser: the unread bytes and the new ones are cut
  into frames, the packets of the well-formed frames are appended to the queue in the order of the
  stream, and exactly the bytes after the last complete frame stay pending.  Bytes that would fill
  the buffer replace the unread ones.\<close>

theorem real_push_refines:
  assumes "parser_rel s pend pks" and "length buff \<le> p_buff_size (fst s)"
    and "split_stream ((if length pend + length buff < p_buff_size (fst s) then pend else []) @ buff) =
           (fs, left)"
    and "frame_packets stk fs = Inr new"
  shows "\<exists>n s'. nmea_parser_real_push stk s buff = Inr (n, s') \<and>
    parser_rel s' left (pks @ new) \<and> p_buff_size (fst s') = p_buff_size (fst s)"
  using real_push_rel [OF assms(1,2) assms(3) [folded keep_pending_def] assms(4)] by blast

text \<open>C2: where the input is cut does not matter: pushing \<open>a\<close> and then \<open>b\<close> leaves the same unread
  bytes and the same queue as pushing \<open>a @ b\<close>, as long as the buffer is not filled.\<close>

theorem push_chunks:
  assumes "parser_rel s pend pks" and "length pend + length a + length b < p_buff_size (fst s)"
    and "split_stream (pend @ a @ b) = (fs, left)" and "frame_packets stk fs = Inr new"
  shows "\<exists>n1 s1 n2 s2 n3 s3. nmea_parser_real_push stk s a = Inr (n1, s1) \<and>
    nmea_parser_real_push stk s1 b = Inr (n2, s2) \<and> parser_rel s2 left (pks @ new) \<and>
    nmea_parser_real_push stk s (a @ b) = Inr (n3, s3) \<and> parser_rel s3 left (pks @ new)"
proof -
  let ?sz = "p_buff_size (fst s)"
  have k: "keep_pending ?sz pend a = pend" "keep_pending ?sz pend (a @ b) = pend"
    using assms(2) by (simp_all add: keep_pending_def)
  obtain fa la where a: "split_stream (pend @ a) = (fa, la)" by (cases "split_stream (pend @ a)")
  obtain fb where b: "split_stream (la @ b) = (fb, left)" and fs: "fs = fa @ fb"
    using split_stream_append [OF a, of b] assms(3) by (auto simp: Let_def split: prod.splits)
  obtain na nb where n: "frame_packets stk fa = Inr na" "frame_packets stk fb = Inr nb" "new = na @ nb"
    using assms(4) by (auto simp: fs frame_packets_append bindR_eq_Inr)
  from real_push_rel [OF assms(1) _ _ n(1), of a la] a k assms(2) obtain n1 s1 where
    1: "nmea_parser_real_push stk s a = Inr (n1, s1)" "parser_rel s1 la (pks @ na)"
      "p_buff_size (fst s1) = ?sz" by auto
  have k1: "keep_pending (p_buff_size (fst s1)) la b = la"
    using split_stream_left [OF a] assms(2) 1(3) by (simp add: keep_pending_def)
  from real_push_rel [OF 1(2) _ _ n(2), of b left] b k1 assms(2) 1(3) obtain n2 s2 where
    2: "nmea_parser_real_push stk s1 b = Inr (n2, s2)" "parser_rel s2 left (pks @ new)"
    by (auto simp: n)
  from real_push_rel [OF assms(1) _ _ assms(4), of "a @ b" left] assms(2,3) k obtain n3 s3 where
    3: "nmea_parser_real_push stk s (a @ b) = Inr (n3, s3)" "parser_rel s3 left (pks @ new)" by auto
  from 1 2 3 show ?thesis by blast
qed

text \<open>A push of at most one buffer is one call of \<open>nmea_parser_real_push\<close>.\<close>

lemma parser_push_once:
  "length buff \<le> p_buff_size (fst s) \<Longrightarrow> nmea_parser_real_push stk s buff = Inr (n, s') \<Longrightarrow>
   nmea_parser_push stk s buff = Some (Inr (wrap32 n, s'))"
  by (simp add: nmea_parser_push_def parser_push_loop.simps [of stk buff "length buff"] Let_def)

text \<open>A push and the loop behind it.\<close>

lemma drain_same_buffer: "parse_drain s info n = Inr (m, info', s') \<Longrightarrow> same_buffer (fst s) (fst s')"
proof (induction s info n rule: parse_drain.induct)
  case (1 s info n)
  obtain pt pk s1 where pop: "nmea_parser_pop s = Inr (pt, pk, s1)"
    using 1(2) by (subst (asm) parse_drain.simps) (auto split: sum.splits)
  note frame = pop_frame [OF pop]
  show ?case
  proof (cases "pt = GPNON")
    case True
    with 1(2) pop frame show ?thesis by (subst (asm) parse_drain.simps) simp
  next
    case False
    then obtain p i where p: "pack_load s1 pk = Some p" "apply_packet p info = Inr i"
      "parse_drain (pack_release pk s1) i (Suc n) = Inr (m, info', s')"
      using 1(2) pop by (subst (asm) parse_drain.simps) (auto split: option.splits sum.splits)
    from 1(1) [OF pop refl refl False p(1,2,3)] frame show ?thesis
      by (auto simp: release_frame same_buffer_def)
  qed
qed

lemma nmea_parse_rel:
  assumes r: "parser_rel s pend pks" and len: "length buff \<le> p_buff_size (fst s)"
    and split: "split_stream (keep_pending (p_buff_size (fst s)) pend buff @ buff) = (fs, left)"
    and new: "frame_packets stk fs = Inr new" and merge: "merge_packets (pks @ new) info = Inr info'"
  shows "\<exists>s'. nmea_parse stk s buff info = Some (Inr (length pks + length new, info', s')) \<and>
    parser_rel s' left [] \<and> p_buff_size (fst s') = p_buff_size (fst s)"
proof -
  from real_push_rel [OF r len split new] obtain n s1 where
    1: "nmea_parser_real_push stk s buff = Inr (n, s1)" "parser_rel s1 left (pks @ new)"
      "p_buff_size (fst s1) = p_buff_size (fst s)" by blast
  from pd.drain_all [OF 1(2) merge, of 0] obtain s2 where
    2: "parse_drain s1 info 0 = Inr (length pks + length new, info', s2)" "parser_rel s2 left []"
    by auto
  have "p_buffer (fst s) \<noteq> None" using r by (auto simp: parser_rel_def parser_ok_def)
  with 1 2 parser_push_once [OF len 1(1)] drain_same_buffer [OF 2(1)] show ?thesis
    by (cases s2) (simp add: nmea_parse_def same_buffer_def)
qed

text \<open>C1: \<open>nmea_parse\<close> on input of at most one buffer merges the packets of all complete frames
  into the summary in the order of the stream, returns their number, leaves the queue empty and
  keeps the unfinished rest pending.\<close>

theorem nmea_parse_correct:
  assumes "parser_rel s pend pks" and "length buff \<le> p_buff_size (fst s)"
    and "split_stream ((if length pend + length buff < p_buff_size (fst s) then pend else []) @ buff) =
           (fs, left)"
    and "frame_packets stk fs = Inr new" and "merge_packets (pks @ new) info = Inr info'"
  shows "\<exists>s'. nmea_parse stk s buff info = Some (Inr (length pks + length new, info', s')) \<and>
    parser_rel s' left []"
  using nmea_parse_rel [OF assms(1,2) assms(3) [folded keep_pending_def] assms(4,5)] by blast

subsection \<open>A sample stream\<close>

definition empty_heap :: rt_heap where
  "empty_heap = \<lparr>h_nodes = fmempty, h_packs = fmempty, h_fresh = 0, h_plan = []\<rparr>"

definition vtg_line :: string where
  "vtg_line = ''$GPVTG,5.5,T,,M,,N,7,K'' @ [CHR ''*'', CHR ''5'', CHR ''7'', CR, LF]"

definition vtg_packet :: packet where
  "vtg_packet = Pvtg \<lparr>vtg_dir = 5.5, vtg_dir_t = CHR ''T'', vtg_dec = 0, vtg_dec_m = CHR ''M'',
     vtg_spn = 0, vtg_spn_n = CHR ''N'', vtg_spk = 7, vtg_spk_k = CHR ''K''\<rparr>"

lemma vtg_line_packet: "parse_packet stk GPVTG vtg_line = Inr (Some (True, vtg_packet))"
  by (simp add: vtg_line_def vtg_packet_def nmea_parse_vtg_def nmea_scanf_def scan_steps)
     (simp add: cdefs scan_loop.simps)

lemma vtg_line_tail: "nmea_find_tail (vtg_line @ rest) = (27, 87)"
  by (simp add: vtg_line_def nmea_find_tail_def nmea_atoi_def NMEA_CONVSTR_BUF_def c_int_def)
     (simp add: cdefs)

lemma vtg_line_split: "split_stream vtg_line = ([(GPVTG, vtg_line)], [])"
proof -
  have "length vtg_line = 27" "nmea_pack_type (drop 1 vtg_line) = GPVTG"
    by (simp_all add: vtg_line_def nmea_pack_type_def)
  moreover have "split_stream [] = ([], [])" by (simp add: split_stream.simps)
  ultimately show ?thesis
    using vtg_line_tail [of "[]"] by (simp add: split_stream.simps [of vtg_line])
qed

lemma vtg_line_frames: "frame_packets stk [(GPVTG, vtg_line)] = Inr [vtg_packet]"
  by (simp add: vtg_line_packet del: parse_packet.simps)

text \<open>\<open>nmea_parser_init\<close> with memory establishes the invariant with nothing pending and an empty
  queue.\<close>

theorem init_ready:
  assumes "length mem = NMEA_DEF_PARSEBUFF" and "nmea_parser_init (Some mem) = (r, p)"
  shows "r = 1 \<and> p_buff_size p = NMEA_DEF_PARSEBUFF \<and> parser_rel (p, empty_heap) [] []"
  using assms by (auto simp: nmea_parser_init_def cdefs parser_rel_def parser_ok_def pending_def
      queue_rel_def queue_at_def empty_heap_def)

theorem init_ready_witness:
  "\<exists>p. nmea_parser_init (Some (replicate 1024 NUL)) = (1, p) \<and> p_buff_size p = NMEA_DEF_PARSEBUFF \<and>
     parser_rel (p, empty_heap) [] []"
proof -
  obtain r p where "nmea_parser_init (Some (replicate 1024 NUL)) = (r, p)" by fastforce
  with init_ready [OF _ this] show ?thesis by (simp add: NMEA_DEF_PARSEBUFF_def)
qed

definition demo_parser :: nmea_parser where
  "demo_parser = \<lparr>p_top = None, p_end = None, p_buffer = Some (replicate 64 NUL), p_buff_size = 64,
     p_buff_use = 0\<rparr>"

lemma demo_rel: "parser_rel (demo_parser, empty_heap) [] []"
  by (simp add: demo_parser_def parser_rel_def parser_ok_def pending_def
      queue_rel_def queue_at_def empty_heap_def)

lemma vtg_line_len: "length vtg_line = 27" "vtg_line = take 9 vtg_line @ drop 9 vtg_line"
  by (simp_all add: vtg_line_def)

lemma demo_size: "p_buff_size demo_parser = 64"
  by (simp add: demo_parser_def)

theorem real_push_refines_witness:
  "\<exists>n s'. nmea_parser_real_push (\<lambda>_. []) (demo_parser, empty_heap) vtg_line = Inr (n, s') \<and>
     parser_rel s' [] [vtg_packet] \<and> p_buff_size (fst s') = 64"
  using real_push_refines [OF demo_rel, of vtg_line "[(GPVTG, vtg_line)]" "[]" "\<lambda>_. []" "[vtg_packet]"]
  by (simp add: vtg_line_frames vtg_line_split demo_size vtg_line_len(1) del: frame_packets.simps)

theorem push_chunks_witness:
  "\<exists>n1 s1 n2 s2 n3 s3. nmea_parser_real_push (\<lambda>_. []) (demo_parser, empty_heap) (take 9 vtg_line) =
       Inr (n1, s1) \<and>
     nmea_parser_real_push (\<lambda>_. []) s1 (drop 9 vtg_line) = Inr (n2, s2) \<and>
     parser_rel s2 [] [vtg_packet] \<and>
     nmea_parser_real_push (\<lambda>_. []) (demo_parser, empty_heap) vtg_line = Inr (n3, s3) \<and>
     parser_rel s3 [] [vtg_packet]"
  using push_chunks [OF demo_rel, of "take 9 vtg_line" "drop 9 vtg_line" "[(GPVTG, vtg_line)]" "[]"
      "\<lambda>_. []" "[vtg_packet]"]
  by (simp add: vtg_line_frames vtg_line_split demo_size vtg_line_len(1) del: frame_packets.simps)

theorem nmea_parse_correct_witness:
  "\<exists>s'. nmea_parse (\<lambda>_. []) (demo_parser, empty_heap) vtg_line zero_info =
      Some (Inr (1, zero_info\<lparr>in_direction := 5.5, in_speed := 7, in_smask := 16\<rparr>, s')) \<and>
    parser_rel s' [] []"
proof -
  have "merge_packets ([] @ [vtg_packet]) zero_info =
      Inr (zero_info\<lparr>in_direction := 5.5, in_speed := 7, in_smask := 16\<rparr>)"
    by (simp add: vtg_packet_def nmea_vtg_info_def zero_info_def)
  from nmea_parse_correct [OF demo_rel _ _ vtg_line_frames this, of vtg_line "[]" "\<lambda>_. []"]
  show ?thesis by (simp add: vtg_line_split demo_size vtg_line_len(1))
qed


subsection \<open>Off the intended path\<close>

text \<open>No operation of the loop touches the buffer fields of the parser.\<close>

lemma link_node_buffer: "link_node a s = Inr s' \<Longrightarrow> same_buffer (fst s) (fst s')"
  by (cases s) (auto simp: link_node_def bindR_eq_Inr Let_def same_buffer_def split: option.splits)

lemma push_sentence_buffer:
  assumes "push_sentence stk pt sen s = Inr (ok, s')"
  shows "same_buffer (fst s) (fst s')"
proof -
  have link: "link_node a (p, h) = Inr (p', h') \<Longrightarrow> same_buffer p p'" for a p h p' h'
    using link_node_buffer [of a "(p, h)"] by simp
  obtain p h where s: "s = (p, h)" by (cases s)
  obtain ok1 h1 where m1: "malloc_ok h = (ok1, h1)" by (cases "malloc_ok h")
  obtain ok2 h2 where
    m2: "malloc_ok (snd (new_node \<lparr>nd_packType = GPNON, nd_pack = None, nd_next = None\<rparr> h1)) = (ok2, h2)"
    by fastforce
  show ?thesis
  proof (cases "parse_packet stk pt sen")
    case (Inl e)
    with assms s m1 m2 show ?thesis
      by (auto simp: push_sentence_def new_node_def split: if_splits)
  next
    case (Inr res)
    with assms s m1 m2 show ?thesis
      by (cases res) (auto simp: push_sentence_def new_node_def new_pack_def bindR_eq_Inr Let_def
          dest!: link split: if_splits)
  qed
qed

lemma push_loop_buffer:
  "push_loop stk nparsed rest s = Inr (res, s') \<Longrightarrow> same_buffer (fst s) (fst s')"
proof (induction stk nparsed rest s rule: push_loop.induct)
  case (1 stk nparsed rest s)
  obtain n crc where t: "nmea_find_tail rest = (n, crc)" by (cases "nmea_find_tail rest")
  note IH = "1.IH" [OF t [symmetric] refl]
  note eq = push_loop.simps [of stk nparsed rest s]
  show ?case
  proof (cases "n = 0 \<or> crc < 0")
    case True
    with "1.prems" t IH(2) show ?thesis by (cases "n = 0") (auto simp: eq)
  next
    case False
    then obtain ok s1 where ps: "push_sentence stk (nmea_pack_type (drop 1 rest)) (take n rest) s = Inr (ok, s1)"
      using "1.prems" t by (auto simp: eq split: sum.splits)
    with False "1.prems" t IH(1) [OF _ _ ps refl] push_sentence_buffer [OF ps]
    show ?thesis by (auto simp: eq split: if_splits intro: same_buffer_trans)
  qed
qed

lemma real_push_size:
  assumes "nmea_parser_real_push stk s buff = Inr (n, s')"
  shows "p_buff_size (fst s') = p_buff_size (fst s)"
proof -
  obtain p h where s: "s = (p, h)" by (cases s)
  define p1 where "p1 = (if p_buff_use p + length buff \<ge> p_buff_size p
     then nmea_parser_buff_clear p else p)"
  obtain bytes where b: "p_buffer p = Some bytes"
    using assms s by (auto simp: nmea_parser_real_push_def split: option.splits)
  define bytes1 where "bytes1 = splice bytes (p_buff_use p1) buff"
  define p2 where "p2 = p1\<lparr>p_buffer := Some bytes1, p_buff_use := p_buff_use p1 + length buff\<rparr>"
  obtain res p3 h3 where
    l: "push_loop stk 0 (take (p_buff_use p1 + length buff) bytes1) (p2, h) = Inr (res, p3, h3)"
    and e: "(case res of None \<Rightarrow> Inr (- 1, p3, h3) | Some (nparsed, rest) \<Rightarrow>
        Inr (int nparsed, (if nparsed \<noteq> 0
          then p3\<lparr>p_buffer := Some (splice bytes1 0 rest), p_buff_use := length rest\<rparr> else p3), h3)) =
      (Inr (n, s') :: (int \<times> pstate) result)"
    using assms s b
    by (auto simp: nmea_parser_real_push_def p1_def [symmetric] bytes1_def [symmetric]
        p2_def [symmetric] bindR_eq_Inr Let_def simp del: take_splice split: if_splits)
  have "p_buff_size (fst s') = p_buff_size p3"
    using e by (cases res) (auto split: if_splits)
  with push_loop_buffer [OF l] show ?thesis
    by (simp add: s same_buffer_def p2_def p1_def nmea_parser_buff_clear_def)
qed

lemma take_eq_le: "take n xs = take n ys \<Longrightarrow> k \<le> n \<Longrightarrow> take k xs = take k ys"
  by (metis min.absorb1 take_take)

lemma parser_push_loop_prefix:
  "take (p_buff_size (fst s)) buff = take (p_buff_size (fst s)) buff' \<Longrightarrow>
   parser_push_loop stk buff sz n s = parser_push_loop stk buff' sz n s"
proof (induction stk buff sz n s rule: parser_push_loop.induct)
  case (1 stk buff sz n s)
  let ?k = "if sz > p_buff_size (fst s) then p_buff_size (fst s) else sz"
  have k: "take ?k buff = take ?k buff'"
    by (rule take_eq_le [OF "1.prems"]) simp
  show ?case
  proof (cases "nmea_parser_real_push stk s (take ?k buff)")
    case (Inl e)
    with k show ?thesis
      by (simp add: parser_push_loop.simps [of stk buff sz] parser_push_loop.simps [of stk buff' sz] Let_def)
  next
    case (Inr r)
    obtain m s' where r: "nmea_parser_real_push stk s (take ?k buff) = Inr (m, s')"
      using Inr by (cases r) auto
    then have sz: "p_buff_size (fst s') = p_buff_size (fst s)" using real_push_size [OF r] by simp
    show ?thesis
      using "1.IH" [OF refl r refl] r "1.prems" k sz
      by (simp add: parser_push_loop.simps [of stk buff sz] parser_push_loop.simps [of stk buff' sz] Let_def)
  qed
qed

text \<open>Of input longer than the buffer only the first \<open>p_buff_size\<close> bytes are ever looked at: the
  loop of \<open>nmea_parser_push\<close> feeds the start of the input again and again, so two inputs that agree
  there and in length have the same effect.\<close>

theorem parser_push_overlong:
  assumes "length a = p_buff_size (fst s)" and "length b = length c"
  shows "nmea_parser_push stk s (a @ b) = nmea_parser_push stk s (a @ c)"
  using parser_push_loop_prefix [of s "a @ b" "a @ c"] assms by (simp add: nmea_parser_push_def)

theorem parser_push_overlong_witness:
  "nmea_parser_push (\<lambda>_. []) (demo_parser, empty_heap) (replicate 64 (CHR ''A'') @ vtg_line) =
   nmea_parser_push (\<lambda>_. []) (demo_parser, empty_heap) (replicate 64 (CHR ''A'') @ replicate 27 NUL)"
  by (rule parser_push_overlong) (simp_all add: demo_size vtg_line_len(1))

text \<open>C19: a push allocates one packet block for every frame it queues and one more for every frame with a good
  checksum that its parser rejects; the queue does not hold the latter, nothing else reaches them, so each such
  frame leaks a block.\<close>

theorem rejected_frame_leaks:
  assumes "parser_rel s pend pks" and "length buff \<le> p_buff_size (fst s)"
    and "split_stream ((if length pend + length buff < p_buff_size (fst s) then pend else []) @ buff) =
           (fs, left)"
    and "frame_packets stk fs = Inr new"
  shows "\<exists>n s'. nmea_parser_real_push stk s buff = Inr (n, s') \<and> parser_rel s' left (pks @ new) \<and>
    pack_count s' = pack_count s + length new + length (rejected stk fs)"
proof -
  obtain p h where s: "s = (p, h)" by (cases s)
  from assms(1) s have r: "parser_ok p" "pending p = pend" "queue_rel (p, h) pks" "h_plan h = []"
    by (auto simp: parser_rel_def)
  then have k: "kept p (length buff) = (if length pend + length buff < p_buff_size p then pend else [])"
    using length_pending [OF r(1)] by (auto simp: kept_def)
  from real_push_spec [OF r(1,3,4), of buff fs left stk new] assms(2-4) show ?thesis
    by (auto simp: s k)
qed

definition bad_vtg :: string where
  "bad_vtg = ''$GPVTG'' @ [CHR ''*'', CHR ''5'', CHR ''2'', CR, LF]"

lemma bad_vtg_packet: "\<exists>pk. parse_packet stk GPVTG bad_vtg = Inr (Some (False, pk))"
proof -
  have "nmea_scanf bad_vtg ''$GPVTG,%f,%C,%f,%C,%f,%C,%f,%C*'' (map Some [0, 1, 2, 3, 4, 5, 6, 7::nat]) = (0, Map.empty)"
    by (simp add: nmea_scanf_def scan_steps bad_vtg_def)
  then show ?thesis by (simp add: nmea_parse_vtg_def)
qed

lemma bad_vtg_split: "split_stream bad_vtg = ([(GPVTG, bad_vtg)], [])"
proof -
  have "nmea_find_tail bad_vtg = (11, 82)"
    by (simp add: bad_vtg_def nmea_find_tail_def nmea_atoi_def NMEA_CONVSTR_BUF_def c_int_def) (simp add: cdefs)
  moreover have "length bad_vtg = 11" "nmea_pack_type (drop 1 bad_vtg) = GPVTG"
    by (simp_all add: bad_vtg_def nmea_pack_type_def)
  moreover have "split_stream [] = ([], [])" by (simp add: split_stream.simps)
  ultimately show ?thesis by (simp add: split_stream.simps [of bad_vtg])
qed

theorem rejected_frame_leaks_witness:
  "\<exists>n s'. nmea_parser_real_push (\<lambda>_. []) (demo_parser, empty_heap) bad_vtg = Inr (n, s') \<and>
     parser_rel s' [] [] \<and> pack_count s' = 1"
proof -
  obtain pk where pk: "parse_packet (\<lambda>_. []) GPVTG bad_vtg = Inr (Some (False, pk))"
    using bad_vtg_packet by blast
  have len: "length bad_vtg = 11" by (simp add: bad_vtg_def)
  have f: "frame_packets (\<lambda>_. []) [(GPVTG, bad_vtg)] = Inr []"
    by (simp add: pk del: parse_packet.simps)
  have c: "length (rejected (\<lambda>_. []) [(GPVTG, bad_vtg)]) = 1"
    by (simp add: rejected_def pk del: parse_packet.simps)
  show ?thesis
    using rejected_frame_leaks [OF demo_rel _ _ f, of bad_vtg "[]"] c
    by (simp add: demo_size len bad_vtg_split pack_count_def empty_heap_def)
qed

text \<open>A \<open>*\<close> whose third and fourth following bytes are not CR LF blocks the stream: no later
  input makes the scanner produce a frame or drop a byte, until the buffer runs full.\<close>

theorem star_blocks_stream:
  assumes "plain body" and "c \<noteq> CHR ''*''" and "x \<noteq> CR \<or> y \<noteq> LF"
  shows "split_stream (c # body @ CHR ''*'' # h1 # h2 # x # y # rest) =
    ([], c # body @ CHR ''*'' # h1 # h2 # x # y # rest)"
proof -
  have "nmea_find_tail (c # body @ CHR ''*'' # h1 # h2 # x # y # rest) = (0, - 1)"
    using assms by (auto simp: find_tail_plain)
  then show ?thesis by (simp add: split_stream.simps)
qed

theorem star_blocks_stream_witness:
  "split_stream (CHR ''$'' # ''GP'' @ CHR ''*'' # CHR ''0'' # CHR ''0'' # LF # CR # vtg_line) =
     ([], CHR ''$'' # ''GP'' @ CHR ''*'' # CHR ''0'' # CHR ''0'' # LF # CR # vtg_line)"
  by (rule star_blocks_stream) simp_all

end
