(* ===== verification/Nmea_Typed.thy ===== *)
theory Nmea_Typed
  imports Nmea_Stream
begin

text \<open>
  The C types as an invariant.  The model has unbounded integers where the code has \<open>int\<close>, and lists where
  it has arrays.  Here every field is shown to stay a value of its type: \<open>int\<close> fields in the 32-bit range,
  arrays at their length, flags and masks within the values the header lists.  It holds for packets of every
  text, accepted or not, and for whatever is on the stack.
\<close>

subsection \<open>Typed values\<close>

definition typed_time :: "nmea_time \<Rightarrow> bool" where
  "typed_time t \<longleftrightarrow> int_ok (t_year t) \<and> int_ok (t_mon t) \<and> int_ok (t_day t) \<and> int_ok (t_hour t) \<and>
     int_ok (t_min t) \<and> int_ok (t_sec t) \<and> int_ok (t_hsec t)"

definition typed_sat :: "nmea_satellite \<Rightarrow> bool" where
  "typed_sat x \<longleftrightarrow> int_ok (sat_id x) \<and> sat_in_use x \<in> {0, 1} \<and> int_ok (sat_elv x) \<and>
     int_ok (sat_azimuth x) \<and> int_ok (sat_sig x)"

text \<open>The table has its twelve rows; no more than twelve uses are counted for each of the twelve numbers.\<close>

definition typed_info :: "nmea_info \<Rightarrow> bool" where
  "typed_info i \<longleftrightarrow> 0 \<le> in_smask i \<and> in_smask i < 32 \<and> typed_time (in_utc i) \<and> int_ok (in_sig i) \<and> int_ok (in_fix i) \<and>
     0 \<le> si_inuse (in_satinfo i) \<and> si_inuse (in_satinfo i) \<le> 144 \<and> int_ok (si_inview (in_satinfo i)) \<and>
     length (si_sat (in_satinfo i)) = NMEA_MAXSAT \<and> (\<forall>x \<in> set (si_sat (in_satinfo i)). typed_sat x)"

fun typed_packet :: "packet \<Rightarrow> bool" where
  "typed_packet (Pgga p) \<longleftrightarrow> typed_time (gga_utc p) \<and> int_ok (gga_sig p) \<and> int_ok (gga_satinuse p) \<and> int_ok (gga_dgps_sid p)"
| "typed_packet (Pgsa p) \<longleftrightarrow> int_ok (gsa_fix_type p) \<and> length (gsa_sat_prn p) = NMEA_MAXSAT \<and> (\<forall>n \<in> set (gsa_sat_prn p). int_ok n)"
| "typed_packet (Pgsv p) \<longleftrightarrow> int_ok (gsv_pack_count p) \<and> int_ok (gsv_pack_index p) \<and> int_ok (gsv_sat_count p) \<and>
     length (gsv_sat_data p) = NMEA_SATINPACK \<and> (\<forall>x \<in> set (gsv_sat_data p). typed_sat x)"
| "typed_packet (Prmc p) \<longleftrightarrow> typed_time (rmc_utc p)"
| "typed_packet (Pvtg p) \<longleftrightarrow> True"

lemma int_ok_small [simp]: "int_ok 0" "int_ok 1" "int_ok 2" "int_ok 3"
  by (simp_all add: int_ok_def)

lemma typed_zero [simp]: "typed_time zero_time" "typed_info zero_info"
  by (auto simp: typed_time_def zero_time_def typed_info_def zero_info_def typed_sat_def zero_sat_def)

subsection \<open>What the scanner stores\<close>

definition typed_store :: "('t \<rightharpoonup> sval) \<Rightarrow> bool" where
  "typed_store st \<longleftrightarrow> (\<forall>t i. st t = Some (SInt i) \<longrightarrow> int_ok i)"

lemma typed_store_upd:
  "typed_store st \<Longrightarrow> (\<And>i. v = Some (SInt i) \<Longrightarrow> int_ok i) \<Longrightarrow> typed_store (st(t := v))"
  by (auto simp: typed_store_def)

lemma scan_store_typed:
  assumes "typed_store st" and "scan_store c tok args st = (ok, args', st')"
  shows "typed_store st'"
proof -
  define first where "first = (if c = CHR ''c'' \<or> c = CHR ''C'' then Some (SChar (case tok of [] \<Rightarrow> NUL | b # _ \<Rightarrow> b))
    else if c = CHR ''s'' \<or> c = CHR ''S'' then Some (SStr tok)
    else if c \<in> set ''fgGeE'' then Some (SDbl (nmea_atof tok)) else None)"
  have no_int: "first \<noteq> Some (SInt i)" for i by (simp add: first_def)
  obtain q args1 where q: "(case first of None \<Rightarrow> (None, args) | Some _ \<Rightarrow> va_arg args) = (q, args1)" by fastforce
  obtain r args2 where r: "va_arg args1 = (r, args2)" by fastforce
  have eq: "scan_store c tok args st = (case q of Some t \<Rightarrow> (True, args1, if tok \<noteq> [] then st(t := first) else st)
      | None \<Rightarrow> (case r of None \<Rightarrow> (True, args2, st)
         | Some t \<Rightarrow> if tok = [] then (True, args2, st)
             else if c = CHR ''d'' \<or> c = CHR ''i'' \<or> c = CHR ''u'' then (True, args2, st(t \<mapsto> SInt (nmea_atoi tok 10)))
             else if c = CHR ''x'' \<or> c = CHR ''X'' then (True, args2, st(t \<mapsto> SInt (nmea_atoi tok 16)))
             else if c = CHR ''o'' then (True, args2, st(t \<mapsto> SInt (nmea_atoi tok 8)))
             else (False, args2, st)))"
    unfolding scan_store_def Let_def first_def [symmetric] q by (simp only: prod.case r)
  show ?thesis
    using assms no_int unfolding eq by (auto split: option.splits if_split_asm intro!: typed_store_upd)
qed

lemma scan_loop_typed:
  "typed_store st \<Longrightarrow> scan_loop fmt tt dg n args buff st = (m, st') \<Longrightarrow> typed_store st'"
proof (induction fmt tt dg n args buff st rule: scan_loop.induct)
  case (2 c fmt tt dg n args buff st)
  then show ?case
    by (auto simp: scan_loop.simps(2) Let_def split: if_splits option.splits prod.splits dest: scan_store_typed)
qed (simp add: scan_loop.simps(1))

lemma scanf_typed: "nmea_scanf buff fmt args = (n, st) \<Longrightarrow> typed_store st"
  unfolding nmea_scanf_def by (rule scan_loop_typed) (simp_all add: typed_store_def)

lemma ld_int_typed [simp]: "typed_store st \<Longrightarrow> int_ok (ld_int st t)"
  by (auto simp: ld_int_def typed_store_def split: option.splits sval.splits)

lemma upd_time_typed [simp]: "typed_store st \<Longrightarrow> int_ok old \<Longrightarrow> int_ok (upd_time st t old)"
  by (auto simp: upd_time_def typed_store_def split: option.splits sval.splits)

subsection \<open>Packets\<close>

lemma parse_time_typed: "typed_time t \<Longrightarrow> nmea_parse_time s t = (r, t') \<Longrightarrow> typed_time t'"
  by (auto simp: nmea_parse_time_def Let_def typed_time_def dest!: scanf_typed split: if_splits prod.splits)

lemma parse_gga_typed: "nmea_parse_gga stk s = Inr (r, p) \<Longrightarrow> typed_packet (Pgga p)"
  by (auto simp: nmea_parse_gga_def Let_def dest!: scanf_typed dest: parse_time_typed [OF typed_zero(1)]
      split: if_splits prod.splits sum.splits)

lemma parse_gsa_typed: "nmea_parse_gsa s = (r, p) \<Longrightarrow> typed_packet (Pgsa p)"
  by (auto simp: nmea_parse_gsa_def NMEA_MAXSAT_def Let_def dest!: scanf_typed split: if_splits prod.splits)

lemma parse_gsv_typed: "nmea_parse_gsv s = (r, p) \<Longrightarrow> typed_packet (Pgsv p)"
  by (auto simp: nmea_parse_gsv_def NMEA_SATINPACK_def gsv_sat_def typed_sat_def Let_def dest!: scanf_typed
      split: if_splits prod.splits)

lemma parse_rmc_typed:
  assumes "nmea_parse_rmc stk s = Inr (r, p)"
  shows "typed_packet (Prmc p)"
proof -
  have utc: "typed_time u"
    if "nmea_parse_time tm (zero_time\<lparr>t_day := ld_int st 8, t_mon := ld_int st 9, t_year := ld_int st 10\<rparr>) = (q, u)"
      and "typed_store st" for tm q u and st :: "nat \<rightharpoonup> sval"
    by (rule parse_time_typed [OF _ that(1)]) (use that(2) in \<open>simp add: typed_time_def zero_time_def\<close>)
  have year: "typed_time (u\<lparr>t_year := t_year u + 100, t_mon := wrap32 (t_mon u - 1)\<rparr>)"
    if "typed_time u" "t_year u < 90" for u
    using that by (auto simp: typed_time_def int_ok_def [of "t_year u"] int_ok_def [of "t_year u + 100"])
  have month: "typed_time (u\<lparr>t_mon := wrap32 (t_mon u - 1)\<rparr>)" if "typed_time u" for u
    using that by (simp add: typed_time_def)
  have date: "typed_time (zero_time\<lparr>t_day := ld_int st 8, t_mon := ld_int st 9, t_year := ld_int st 10\<rparr>)"
    if "typed_store st" for st :: "nat \<rightharpoonup> sval"
    using that by (simp add: typed_time_def zero_time_def)
  from assms show ?thesis
    by (auto simp: nmea_parse_rmc_def Let_def dest!: scanf_typed intro: date
        split: if_splits prod.splits sum.splits) (blast intro: year month utc)+
qed

lemma parse_packet_typed: "parse_packet stk pt sen = Inr (Some (good, p)) \<Longrightarrow> typed_packet p"
  by (cases pt) (auto simp: bindR_eq_Inr split: prod.splits simp del: typed_packet.simps(1-4)
      dest: parse_gga_typed parse_gsa_typed parse_gsv_typed parse_rmc_typed)

subsection \<open>The summary\<close>

lemma int_or_less: "0 \<le> x \<Longrightarrow> x < 32 \<Longrightarrow> 0 \<le> y \<Longrightarrow> y < 32 \<Longrightarrow> 0 \<le> x OR y \<and> x OR y < (32 :: int)"
  using OR_upper [of x 5 y] by (simp add: or_nonnegative_int_iff)

lemma pack_bit_range: "0 \<le> pack_bit t" "pack_bit t < 32"
  by (cases t; simp)+

lemma gsa_mark_none: "gsa_mark 0 j k sats nuse = Inr (sats, nuse)"
  by (induction k arbitrary: j) simp_all

lemma gsa_mark_some:
  assumes "prn \<noteq> 0"
  shows "gsa_mark prn j k sats nuse = Inr (sats', nuse') \<Longrightarrow> \<forall>x \<in> set sats. typed_sat x \<Longrightarrow> j \<le> length sats \<Longrightarrow>
    length sats' = length sats \<and> (\<forall>x \<in> set sats'. typed_sat x) \<and> nuse \<le> nuse' \<and> nuse' \<le> nuse + int (length sats) - int j"
proof (induction k arbitrary: j sats nuse)
  case (Suc k)
  have j: "j < length sats" using Suc.prems(1) assms by (auto split: if_splits)
  then have "typed_sat ((sats ! j)\<lparr>sat_in_use := 1\<rparr>)" using Suc.prems(2) nth_mem [OF j] by (auto simp: typed_sat_def)
  then have upd: "\<forall>x \<in> set (sats[j := (sats ! j)\<lparr>sat_in_use := 1\<rparr>]). typed_sat x"
    using Suc.prems(2) set_update_subset_insert [of sats j] by blast
  show ?case
  proof (cases "prn = sat_id (sats ! j)")
    case True
    then have "gsa_mark prn (Suc j) k (sats[j := (sats ! j)\<lparr>sat_in_use := 1\<rparr>]) (nuse + 1) = Inr (sats', nuse')"
      using Suc.prems(1) assms j by simp
    from Suc.IH [OF this upd] j show ?thesis by simp
  next
    case False
    then have "gsa_mark prn (Suc j) k sats nuse = Inr (sats', nuse')" using Suc.prems(1) assms j by simp
    from Suc.IH [OF this Suc.prems(2)] j show ?thesis by simp
  qed
qed simp

lemma gsa_mark_typed:
  "gsa_mark prn 0 k sats nuse = Inr (sats', nuse') \<Longrightarrow> \<forall>x \<in> set sats. typed_sat x \<Longrightarrow>
    length sats' = length sats \<and> (\<forall>x \<in> set sats'. typed_sat x) \<and> nuse \<le> nuse' \<and> nuse' \<le> nuse + int (length sats)"
  using gsa_mark_some [of prn 0 k sats nuse sats' nuse'] by (cases "prn = 0") (auto simp: gsa_mark_none)

lemma gsa_mark_all_typed:
  "gsa_mark_all prns n sats nuse = Inr (sats', nuse') \<Longrightarrow> \<forall>x \<in> set sats. typed_sat x \<Longrightarrow>
    length sats' = length sats \<and> (\<forall>x \<in> set sats'. typed_sat x) \<and> nuse \<le> nuse' \<and>
    nuse' \<le> nuse + int (length prns) * int (length sats)"
proof (induction prns n sats nuse rule: gsa_mark_all.induct)
  case (2 prn prns n sats nuse)
  then obtain sats1 nuse1 where m: "gsa_mark prn 0 n sats nuse = Inr (sats1, nuse1)"
      "gsa_mark_all prns n sats1 nuse1 = Inr (sats', nuse')"
    by (auto simp: bindR_eq_Inr)
  from gsa_mark_typed [OF m(1) 2(3)] 2(1) [OF m(1) refl m(2)] show ?case by (auto simp: algebra_simps)
qed simp

lemma gsv_copy_typed:
  "gsv_copy base isat k data sats = Inr sats' \<Longrightarrow> \<forall>x \<in> set data. typed_sat x \<Longrightarrow> \<forall>x \<in> set sats. typed_sat x \<Longrightarrow>
    length sats' = length sats \<and> (\<forall>x \<in> set sats'. typed_sat x)"
proof (induction k arbitrary: isat sats)
  case (Suc k)
  define i where "i = wrap32 (base + int isat)"
  have ok: "0 \<le> i \<and> i < int (length sats)" "isat < length data"
    and rest: "gsv_copy base (Suc isat) k data (sats[nat i := (sats ! nat i)\<lparr>sat_id := sat_id (data ! isat),
      sat_elv := sat_elv (data ! isat), sat_azimuth := sat_azimuth (data ! isat), sat_sig := sat_sig (data ! isat)\<rparr>]) = Inr sats'"
    using Suc.prems(1) by (simp_all add: Let_def i_def [symmetric] split: if_splits)
  have "typed_sat (data ! isat)" "typed_sat (sats ! nat i)"
    using Suc.prems(2,3) ok nth_mem [of "nat i" sats] by auto
  then have "typed_sat ((sats ! nat i)\<lparr>sat_id := sat_id (data ! isat),
      sat_elv := sat_elv (data ! isat), sat_azimuth := sat_azimuth (data ! isat), sat_sig := sat_sig (data ! isat)\<rparr>)"
    by (simp add: typed_sat_def)
  then have "\<forall>x \<in> set (sats[nat i := (sats ! nat i)\<lparr>sat_id := sat_id (data ! isat),
      sat_elv := sat_elv (data ! isat), sat_azimuth := sat_azimuth (data ! isat), sat_sig := sat_sig (data ! isat)\<rparr>]). typed_sat x"
    using Suc.prems(3) set_update_subset_insert by fastforce
  from Suc.IH [OF rest Suc.prems(2) this] show ?case by simp
qed simp

lemma mask_typed: "0 \<le> in_smask i \<and> in_smask i < 32 \<Longrightarrow> 0 \<le> in_smask i OR pack_bit t \<and> in_smask i OR pack_bit t < 32"
  using int_or_less [of "in_smask i" "pack_bit t"] pack_bit_range [of t] by simp

lemma gsa_info_typed:
  assumes "nmea_gsa_info p i = Inr i'" and "typed_packet (Pgsa p)" and "typed_info i"
  shows "typed_info i'"
proof -
  obtain sats nuse where m: "gsa_mark_all (gsa_sat_prn p) (nat (si_inview (in_satinfo i))) (si_sat (in_satinfo i)) 0 = Inr (sats, nuse)"
      and i': "i' = i\<lparr>in_fix := gsa_fix_type p, in_PDOP := gsa_PDOP p, in_HDOP := gsa_HDOP p, in_VDOP := gsa_VDOP p,
        in_satinfo := (in_satinfo i)\<lparr>si_sat := sats, si_inuse := nuse\<rparr>, in_smask := in_smask i OR pack_bit GPGSA\<rparr>"
    using assms(1) by (auto simp: nmea_gsa_info_def bindR_eq_Inr)
  have "length sats = NMEA_MAXSAT \<and> (\<forall>x \<in> set sats. typed_sat x) \<and> 0 \<le> nuse \<and> nuse \<le> 144"
    using gsa_mark_all_typed [OF m] assms(2,3) by (auto simp: typed_info_def NMEA_MAXSAT_def)
  then show ?thesis
    using assms(2,3) mask_typed [of i GPGSA] by (simp add: typed_info_def i' del: pack_bit.simps)
qed

lemma gsv_info_typed:
  assumes "nmea_gsv_info p i = Inr (p', i')" and "typed_packet (Pgsv p)" and "typed_info i"
  shows "typed_info i'"
proof (cases "gsv_pack_index p > gsv_pack_count p \<or> wrap32 (gsv_pack_index p * 4) > int NMEA_MAXSAT")
  case True
  then show ?thesis using assms by (simp add: nmea_gsv_info_def)
next
  case False
  define p1 where "p1 = (if gsv_pack_index p < 1 then p\<lparr>gsv_pack_index := 1\<rparr> else p)"
  have p1: "typed_packet (Pgsv p1)" using assms(2) by (simp add: p1_def)
  obtain sats where c: "gsv_copy (wrap32 (wrap32 (gsv_pack_index p1 - 1) * 4)) 0
        (nat (gsv_nsat (gsv_pack_index p1) (gsv_sat_count p1))) (gsv_sat_data p1) (si_sat (in_satinfo i)) = Inr sats"
      and i': "i' = i\<lparr>in_satinfo := (in_satinfo i)\<lparr>si_inview := gsv_sat_count p1, si_sat := sats\<rparr>,
        in_smask := in_smask i OR pack_bit GPGSV\<rparr>"
    using assms(1) False by (auto simp: nmea_gsv_info_def Let_def p1_def [symmetric] bindR_eq_Inr)
  have "length sats = NMEA_MAXSAT \<and> (\<forall>x \<in> set sats. typed_sat x)"
    using gsv_copy_typed [OF c] p1 assms(3) by (simp add: typed_info_def)
  then show ?thesis
    using p1 assms(3) mask_typed [of i GPGSV] by (simp add: typed_info_def i' del: pack_bit.simps)
qed

lemma apply_packet_typed:
  assumes "apply_packet p i = Inr i'" and "typed_packet p" and "typed_info i"
  shows "typed_info i'"
proof (cases p)
  case (Pgga x)
  then show ?thesis using assms mask_typed [of i GPGGA]
    by (auto simp: nmea_gga_info_def typed_info_def typed_time_def simp del: pack_bit.simps)
next
  case (Prmc x)
  then show ?thesis using assms mask_typed [of i GPRMC]
    by (auto simp: nmea_rmc_info_def Let_def typed_info_def NMEA_SIG_MID_def NMEA_FIX_2D_def NMEA_SIG_BAD_def NMEA_FIX_BAD_def
        simp del: pack_bit.simps split: if_splits)
next
  case (Pvtg x)
  then show ?thesis using assms mask_typed [of i GPVTG]
    by (auto simp: nmea_vtg_info_def typed_info_def simp del: pack_bit.simps)
qed (use assms gsa_info_typed gsv_info_typed in \<open>auto simp: bindR_eq_Inr simp del: typed_packet.simps\<close>)

end
