(* ===== verification/Nmea_Robust.thy ===== *)
theory Nmea_Robust
  imports Nmea_Parser
begin

text \<open>
  How far the sentence parsers can be trusted with bytes from outside: which bytes reach the time
  buffer of \<open>nmea_parse_gga\<close> and \<open>nmea_parse_rmc\<close>, that nothing but that field can make a sentence
  parser fault, and what happens when the field is too long (a buffer of 256 bytes without a bound
  check) or empty (the buffer is not initialised).
\<close>

subsection \<open>What the scanner stores\<close>

text \<open>A target that no remaining argument points to keeps its value.\<close>

lemma va_arg_mem: "va_arg args = (p, args') \<Longrightarrow> p = Some t \<or> Some t \<in> set args' \<Longrightarrow> Some t \<in> set args"
  by (cases args) auto

lemma scan_store_frame:
  assumes "scan_store c tok args st = (ok, args', st')" and "Some t \<notin> set args"
  shows "Some t \<notin> set args' \<and> st' t = st t"
proof -
  define first where "first = (if c = CHR ''c'' \<or> c = CHR ''C'' then Some (SChar (case tok of [] \<Rightarrow> NUL | b # _ \<Rightarrow> b))
         else if c = CHR ''s'' \<or> c = CHR ''S'' then Some (SStr tok)
         else if c \<in> set ''fgGeE'' then Some (SDbl (nmea_atof tok)) else None)"
  obtain p args1 where p: "(case first of None \<Rightarrow> (None, args) | Some _ \<Rightarrow> va_arg args) = (p, args1)"
    by fastforce
  obtain q args2 where q: "va_arg args1 = (q, args2)" by fastforce
  have 1: "p \<noteq> Some t \<and> Some t \<notin> set args1"
    using p assms(2) va_arg_mem [of args p args1 t] by (auto split: option.splits)
  have 2: "q \<noteq> Some t \<and> Some t \<notin> set args2"
    using va_arg_mem [OF q, of t] 1 by auto
  show ?thesis
    using assms(1) 1 2 p q
    by (cases p; cases q)
       (auto simp: scan_store_def first_def [symmetric] Let_def fun_upd_apply split: if_splits)
qed

lemma scan_loop_frame:
  "Some t \<notin> set args \<Longrightarrow> snd (scan_loop fmt tt dg n args buff st) t = st t"
proof (induction fmt arbitrary: tt dg n args buff st)
  case (Cons c fmt)
  define dg' where "dg' = (if tt = NMEA_TOKS_PERCENT then [] else dg)"
  define w where "w = (if dg' \<noteq> [] then nmea_atoi dg' 10 else 0)"
  note step = scan_loop.simps(2) dg'_def [symmetric] w_def [symmetric]
  consider "buff = [] \<or> tt = NMEA_TOKS_COMPARE \<or> isdigit c" |
    "buff \<noteq> []" "tt \<noteq> NMEA_TOKS_COMPARE" "\<not> isdigit c" by blast
  then show ?case
  proof cases
    case 1
    then show ?thesis using Cons by (cases "buff = []") (auto simp: step)
  next
    case 2
    show ?thesis
    proof (cases "scan_token c (next_fmt fmt) w buff")
      case None
      with 2 show ?thesis by (simp add: step)
    next
      case (Some tr)
      obtain tok rest where tr: "tr = (tok, rest)" by (cases tr)
      obtain ok args' st' where s: "scan_store c tok args st = (ok, args', st')"
        by (cases "scan_store c tok args st")
      from scan_store_frame [OF s Cons.prems] Cons.IH [of args'] 2 Some tr s show ?thesis
        by (auto simp: step)
    qed
  qed
qed simp

text \<open>Literal text in front of the first conversion.\<close>

lemma scan_literal:
  "CHR ''%'' \<notin> set lit \<Longrightarrow>
   scan_loop (lit @ fmt) NMEA_TOKS_COMPARE dg n args buff st =
     (if take (length lit) buff = lit then scan_loop fmt NMEA_TOKS_COMPARE dg n args (drop (length lit) buff) st
      else (n, st))"
proof (induction lit arbitrary: buff)
  case (Cons c lit)
  show ?case
  proof (cases buff)
    case (Cons b bs)
    show ?thesis
    proof (cases "b = c")
      case True
      with Cons Cons.prems Cons.IH [of bs] show ?thesis by (auto simp: scan_lit)
    next
      case False
      with Cons Cons.prems show ?thesis by (auto simp: scan_mismatch)
    qed
  qed simp
qed simp

definition until_chr :: "char \<Rightarrow> string \<Rightarrow> string" where
  "until_chr c s = takeWhile (\<lambda>x. x \<noteq> c) s"

text \<open>A conversion \<open>%s,\<close> takes the bytes up to the next comma, all of them when there is none.\<close>

lemma scan_s_field:
  assumes "Some t \<notin> set args"
  shows "snd (scan_loop (CHR ''%'' # CHR ''s'' # CHR '','' # fmt) NMEA_TOKS_COMPARE dg n (Some t # args) buff st) t =
    put_conv t (CHR ''s'') (until_chr (CHR '','') buff) st t"
proof (cases "buff = []")
  case False
  obtain rest where tok: "scan_token (CHR ''s'') (CHR '','') 0 buff = Some (until_chr (CHR '','') buff, rest)"
  proof (cases "CHR '','' \<in> set buff")
    case True
    then show ?thesis by (intro that) (simp add: scan_token_def memchr_def until_chr_def)
  next
    case False
    then have "until_chr (CHR '','') buff = buff" by (auto simp: until_chr_def takeWhile_eq_all_conv)
    with False show ?thesis by (intro that) (simp add: scan_token_def memchr_def)
  qed
  with False show ?thesis
    by (simp add: scan_loop.simps(2) isdigit_def next_fmt_def scan_store_field scan_loop_frame [OF assms])
qed (simp add: put_conv_def until_chr_def)

lemma scanf_s_first:
  assumes "nmea_scanf buff (lit @ CHR ''%'' # CHR ''s'' # CHR '','' # fmt) (Some t # args) = (n, st)"
    and "Some t \<notin> set args" and "CHR ''%'' \<notin> set lit"
  shows "take (length lit) buff = lit \<Longrightarrow>
      st t = put_conv t (CHR ''s'') (until_chr (CHR '','') (drop (length lit) buff)) Map.empty t"
    and "take (length lit) buff \<noteq> lit \<Longrightarrow> n = 0 \<and> st = Map.empty"
proof -
  note s = assms(1) [unfolded nmea_scanf_def scan_literal [OF assms(3)]]
  show "st t = put_conv t (CHR ''s'') (until_chr (CHR '','') (drop (length lit) buff)) Map.empty t"
    if "take (length lit) buff = lit"
    using s that scan_s_field [OF assms(2), of fmt "[]" 0 "drop (length lit) buff" Map.empty] by simp
  show "n = 0 \<and> st = Map.empty" if "take (length lit) buff \<noteq> lit" using s that by simp
qed

subsection \<open>The time field is the only source of faults\<close>

text \<open>The bytes \<open>%s\<close> takes for the time: those after \<open>$GPGGA,\<close> or \<open>$GPRMC,\<close> up to the next comma.\<close>

definition time_field :: "string \<Rightarrow> string" where
  "time_field sen = until_chr (CHR '','') (drop 7 sen)"

definition timed :: "NMEA_PACK_TYPE \<Rightarrow> string \<Rightarrow> bool" where
  "timed pt sen \<longleftrightarrow> pt = GPGGA \<and> take 7 sen = ''$GPGGA,'' \<or> pt = GPRMC \<and> take 7 sen = ''$GPRMC,''"

text \<open>A field that does not fit, or none while the uninitialised buffer has no terminator.\<close>

definition time_fault :: "string \<Rightarrow> string \<Rightarrow> bool" where
  "time_fault stk sen \<longleftrightarrow> NMEA_TIMEPARSE_BUF \<le> length (time_field sen) \<or>
     time_field sen = [] \<and> NUL \<notin> set stk"

lemma time_stored:
  assumes "v = put_conv (0 :: nat) (CHR ''s'') (time_field sen) Map.empty 0" and "length stk = NMEA_TIMEPARSE_BUF"
  shows "time_store_ok v \<longleftrightarrow> length (time_field sen) < NMEA_TIMEPARSE_BUF"
    and "\<not> time_fault stk sen \<Longrightarrow> \<exists>t. time_text stk v = Inr t"
  using assms
  by (auto simp: put_conv_def conv_val_def time_store_ok_def time_text_def time_fault_def cstr_def splice_def
      NMEA_TIMEPARSE_BUF_def)

lemma gga_faults:
  assumes "length stk = NMEA_TIMEPARSE_BUF"
  shows "take 7 sen \<noteq> ''$GPGGA,'' \<or> \<not> time_fault stk sen \<Longrightarrow> \<exists>r. nmea_parse_gga stk sen = Inr r"
    and "take 7 sen = ''$GPGGA,'' \<Longrightarrow> NMEA_TIMEPARSE_BUF \<le> length (time_field sen) \<Longrightarrow>
      nmea_parse_gga stk sen = Inl Stack_overflow"
proof -
  obtain n st where s: "nmea_scanf sen ''$GPGGA,%s,%f,%C,%f,%C,%d,%d,%f,%f,%C,%f,%C,%f,%d*''
      (map Some [0, 1, 2, 3, 4, 5, 6, 7, 8, 9, 10, 11, 12, 13::nat]) = (n, st)" by fastforce
  note first = scanf_s_first [of sen "''$GPGGA,''" "''%f,%C,%f,%C,%d,%d,%f,%f,%C,%f,%C,%f,%d*''" "0::nat"
      "map Some [1, 2, 3, 4, 5, 6, 7, 8, 9, 10, 11, 12, 13]" n st, simplified, OF s [simplified]]
  have v: "take 7 sen = ''$GPGGA,'' \<Longrightarrow> st 0 = put_conv (0::nat) (CHR ''s'') (time_field sen) Map.empty 0"
    using first(1) by (simp add: time_field_def numeral_eq_Suc)
  show "\<exists>r. nmea_parse_gga stk sen = Inr r" if "take 7 sen \<noteq> ''$GPGGA,'' \<or> \<not> time_fault stk sen"
  proof (cases "take 7 sen = ''$GPGGA,''")
    case True
    with that have nf: "\<not> time_fault stk sen" by simp
    from time_stored(2) [OF v [OF True] assms nf] obtain t where "time_text stk (st 0) = Inr t" ..
    moreover have "time_store_ok (st 0)"
      using time_stored(1) [OF v [OF True] assms] nf by (simp add: time_fault_def)
    ultimately show ?thesis unfolding nmea_parse_gga_def s by (auto simp: Let_def split: prod.splits)
  next
    case False
    with first(2) have "n = 0" "st = Map.empty" by (simp_all add: numeral_eq_Suc)
    then show ?thesis unfolding nmea_parse_gga_def s by (simp add: Let_def time_store_ok_def)
  qed
  show "nmea_parse_gga stk sen = Inl Stack_overflow"
    if "take 7 sen = ''$GPGGA,''" "NMEA_TIMEPARSE_BUF \<le> length (time_field sen)"
    using time_stored(1) [OF v [OF that(1)] assms] that(2) unfolding nmea_parse_gga_def s by (simp add: Let_def)
qed

lemma rmc_faults:
  assumes "length stk = NMEA_TIMEPARSE_BUF"
  shows "take 7 sen \<noteq> ''$GPRMC,'' \<or> \<not> time_fault stk sen \<Longrightarrow> \<exists>r. nmea_parse_rmc stk sen = Inr r"
    and "take 7 sen = ''$GPRMC,'' \<Longrightarrow> NMEA_TIMEPARSE_BUF \<le> length (time_field sen) \<Longrightarrow>
      nmea_parse_rmc stk sen = Inl Stack_overflow"
proof -
  obtain n st where s: "nmea_scanf sen ''$GPRMC,%s,%C,%f,%C,%f,%C,%f,%f,%2d%2d%2d,%f,%C,%C*''
      (map Some [0, 1, 2, 3, 4, 5, 6, 7, 8, 9, 10, 11, 12, 13::nat]) = (n, st)" by fastforce
  note first = scanf_s_first [of sen "''$GPRMC,''" "''%C,%f,%C,%f,%C,%f,%f,%2d%2d%2d,%f,%C,%C*''" "0::nat"
      "map Some [1, 2, 3, 4, 5, 6, 7, 8, 9, 10, 11, 12, 13]" n st, simplified, OF s [simplified]]
  have v: "take 7 sen = ''$GPRMC,'' \<Longrightarrow> st 0 = put_conv (0::nat) (CHR ''s'') (time_field sen) Map.empty 0"
    using first(1) by (simp add: time_field_def numeral_eq_Suc)
  show "\<exists>r. nmea_parse_rmc stk sen = Inr r" if "take 7 sen \<noteq> ''$GPRMC,'' \<or> \<not> time_fault stk sen"
  proof (cases "take 7 sen = ''$GPRMC,''")
    case True
    with that have nf: "\<not> time_fault stk sen" by simp
    from time_stored(2) [OF v [OF True] assms nf] obtain t where "time_text stk (st 0) = Inr t" ..
    moreover have "time_store_ok (st 0)"
      using time_stored(1) [OF v [OF True] assms] nf by (simp add: time_fault_def)
    ultimately show ?thesis unfolding nmea_parse_rmc_def s by (auto simp: Let_def split: prod.splits)
  next
    case False
    with first(2) have "n = 0" "st = Map.empty" by (simp_all add: numeral_eq_Suc)
    then show ?thesis unfolding nmea_parse_rmc_def s by (simp add: Let_def time_store_ok_def)
  qed
  show "nmea_parse_rmc stk sen = Inl Stack_overflow"
    if "take 7 sen = ''$GPRMC,''" "NMEA_TIMEPARSE_BUF \<le> length (time_field sen)"
    using time_stored(1) [OF v [OF that(1)] assms] that(2) unfolding nmea_parse_rmc_def s by (simp add: Let_def)
qed

lemma parse_packet_faults:
  assumes "length (stk sen) = NMEA_TIMEPARSE_BUF"
  shows "\<not> (timed pt sen \<and> time_fault (stk sen) sen) \<Longrightarrow> \<exists>r. parse_packet stk pt sen = Inr r"
    and "timed pt sen \<Longrightarrow> NMEA_TIMEPARSE_BUF \<le> length (time_field sen) \<Longrightarrow>
      parse_packet stk pt sen = Inl Stack_overflow"
  using gga_faults [OF assms, of sen] rmc_faults [OF assms, of sen]
  by (cases pt; auto simp: timed_def split: prod.splits)+

text \<open>C18: No byte string makes a sentence parser fault, whatever its length, unless it is a GGA or an RMC
  sentence whose first field is empty while the uninitialised stack buffer of 256 bytes holds no zero, or is too
  long for that buffer; the second overruns the buffer at once, whatever comes after it.\<close>

theorem sentence_no_fault:
  assumes "length (stk sen) = NMEA_TIMEPARSE_BUF"
  shows "(\<not> (timed pt sen \<and> time_fault (stk sen) sen) \<longrightarrow> (\<exists>r. parse_packet stk pt sen = Inr r)) \<and>
    (timed pt sen \<and> NMEA_TIMEPARSE_BUF \<le> length (time_field sen) \<longrightarrow>
       parse_packet stk pt sen = Inl Stack_overflow)"
  using parse_packet_faults [where stk = stk and sen = sen and pt = pt, OF assms] by blast

theorem sentence_no_fault_witness:
  "(\<exists>r. parse_packet (\<lambda>_. replicate 256 NUL) GPGGA ''$GPGGA,,,'' = Inr r) \<and>
   parse_packet (\<lambda>_. replicate 256 NUL) GPRMC (''$GPRMC,'' @ replicate 256 (CHR ''0'')) = Inl Stack_overflow"
proof -
  have 1: "\<exists>r. parse_packet (\<lambda>_. replicate 256 NUL) GPGGA ''$GPGGA,,,'' = Inr r"
    using sentence_no_fault [of "\<lambda>_. replicate 256 NUL" "''$GPGGA,,,''" GPGGA]
    by (simp add: time_fault_def time_field_def until_chr_def NMEA_TIMEPARSE_BUF_def del: parse_packet.simps)
  have f: "timed GPRMC (''$GPRMC,'' @ replicate 256 (CHR ''0''))"
      "time_field (''$GPRMC,'' @ replicate 256 (CHR ''0'')) = replicate 256 (CHR ''0'')"
    by (simp_all add: timed_def time_field_def until_chr_def takeWhile_eq_all_conv)
  have 2: "parse_packet (\<lambda>_. replicate 256 NUL) GPRMC (''$GPRMC,'' @ replicate 256 (CHR ''0'')) = Inl Stack_overflow"
    using sentence_no_fault [of "\<lambda>_. replicate 256 NUL" "''$GPRMC,'' @ replicate 256 (CHR ''0'')" GPRMC] f
    by (simp add: NMEA_TIMEPARSE_BUF_def del: parse_packet.simps append_Cons append_Nil)
  from 1 2 show ?thesis ..
qed

text \<open>A time field of 256 bytes or more overruns the stack buffer of \<open>nmea_parse_gga\<close>.\<close>

theorem gga_time_overflow:
  assumes "field_ok f0" "field_ok f1" "char_ok f2" "field_ok f3" "char_ok f4" "field_ok f5"
    "field_ok f6" "field_ok f7" "field_ok f8" "char_ok f9" "field_ok f10" "char_ok f11"
    "field_ok f12" "field_ok f13"
    and "length f0 \<ge> NMEA_TIMEPARSE_BUF"
  shows "nmea_parse_gga stk
      (sentence ''GPGGA'' [f0, f1, f2, f3, f4, f5, f6, f7, f8, f9, f10, f11, f12, f13] tail) =
    Inl Stack_overflow"
proof -
  have "put_conv 0 (CHR ''s'') f0 Map.empty (0::nat) = Some (SStr f0)"
    using assms(15) by (auto simp: put_conv_def conv_val_def NMEA_TIMEPARSE_BUF_def)
  then show ?thesis
    unfolding nmea_parse_gga_def scan_gga [OF assms(1-14)]
    using assms(15) by (simp add: time_store_ok_def Let_def)
qed

theorem gga_time_overflow_witness:
  "nmea_parse_gga (replicate 256 NUL) (sentence ''GPGGA'' [replicate 256 (CHR ''0''), [], [], [], [], [], [], [], [],
     [], [], [], [], []] []) = Inl Stack_overflow"
  by (rule gga_time_overflow) (simp_all add: field_ok_def char_ok_def NMEA_TIMEPARSE_BUF_def)

text \<open>With an empty time field \<open>nmea_parse_gga\<close> reads the time from whatever the stack holds:
  the field is not stored and the buffer is not initialised, so the acceptance of the sentence and the
  time reported are those of the stale bytes.\<close>

theorem gga_stale_time:
  assumes "field_ok f1" "char_ok f2" "field_ok f3" "char_ok f4" "field_ok f5"
    "field_ok f6" "field_ok f7" "field_ok f8" "char_ok f9" "field_ok f10" "char_ok f11"
    "field_ok f12" "field_ok f13"
    and "stk = old @ NUL # rest" and "NUL \<notin> set old"
  shows "\<exists>pack. nmea_parse_gga stk
      (sentence ''GPGGA'' [[], f1, f2, f3, f4, f5, f6, f7, f8, f9, f10, f11, f12, f13] tail) =
    Inr (if fst (nmea_parse_time old zero_time) = 0 then 1 else 0, pack) \<and>
    gga_utc pack = snd (nmea_parse_time old zero_time)"
proof -
  have f0: "field_ok []" by (simp add: field_ok_def)
  have "put_conv 0 (CHR ''s'') [] Map.empty (0::nat) = None"
    by (simp add: put_conv_def)
  moreover have "takeWhile (\<lambda>c. c \<noteq> NUL) stk = old" using assms(14,15) by (induction old arbitrary: stk) auto
  then have "time_text stk None = Inr old"
    using assms(14) by (simp add: time_text_def cstr_def)
  ultimately show ?thesis
    unfolding nmea_parse_gga_def scan_gga [OF f0 assms(1-13)]
    by (cases "nmea_parse_time old zero_time") (simp add: time_store_ok_def Let_def)
qed

theorem gga_stale_time_witness:
  "\<exists>pack. nmea_parse_gga (''235959'' @ NUL # replicate 249 NUL) (sentence ''GPGGA''
      [[], [], [], [], [], [], [], [], [], [], [], [], [], []] []) =
    Inr (if fst (nmea_parse_time ''235959'' zero_time) = 0 then 1 else 0, pack) \<and>
    gga_utc pack = snd (nmea_parse_time ''235959'' zero_time)"
  by (rule gga_stale_time) (simp_all add: field_ok_def char_ok_def)

end
