(* ===== verification/Nmea_Total.thy ===== *)
theory Nmea_Total
  imports Nmea_Typed Nmea_Robust "HOL-Library.Sublist"
begin

text \<open>
  Pushing and parsing as total operations: on every input of every length, from every well-formed state
  and with every sequence of outcomes of \<open>rt_malloc\<close>, they return, with a well-formed state or with a fault
  whose cause is named.  The earlier theories assume memory and packets that do not fault, this one does not.
\<close>

subsection \<open>One sentence, with an allocator that may fail\<close>

lemma malloc_ok_eq:
  "malloc_ok h = ((case h_plan h of [] \<Rightarrow> True | b # _ \<Rightarrow> b), h\<lparr>h_plan := tl (h_plan h)\<rparr>)"
  by (cases "h_plan h") (simp_all add: malloc_ok_def)

lemma queue_at_plan [simp]: "queue_at as (p, h\<lparr>h_plan := bs\<rparr>) pks = queue_at as (p, h) pks"
  by (simp add: queue_at_def owns_def [abs_def] pack_addr_def [abs_def])

lemma queue_rel_plan [simp]: "queue_rel (p, h\<lparr>h_plan := bs\<rparr>) pks = queue_rel (p, h) pks"
  by (simp add: queue_rel_def)

text \<open>A node that is allocated and freed again leaves no trace.\<close>

lemma queue_rel_scratch:
  assumes "queue_rel (p, h) pks"
  shows "queue_rel (p, free_node (h_fresh h) (h\<lparr>h_nodes := fmupd (h_fresh h) nd (h_nodes h),
    h_fresh := Suc (h_fresh h), h_plan := bs\<rparr>)) pks"
proof -
  from assms obtain as where q: "queue_at as (p, h) pks" by (auto simp: queue_rel_def)
  have "queue_at as (p, free_node (h_fresh h) (h\<lparr>h_nodes := fmupd (h_fresh h) nd (h_nodes h),
      h_fresh := Suc (h_fresh h), h_plan := bs\<rparr>)) pks"
    by (rule queue_at_fresh [OF q]) (use queue_at_addrs(1,2) [OF q] in \<open>auto simp: free_node_def less_Suc_eq\<close>)
  then show ?thesis by (auto simp: queue_rel_def)
qed

lemma queue_rel_reject:
  "queue_rel (p, h) pks \<Longrightarrow> queue_rel (p, free_node (h_fresh h) (alloc_pair pt pk h)) pks"
  unfolding queue_rel_def using queue_at_alloc_pair(2) [of _ p h pks pt pk] by blast

lemma link_alloc_pair_rel:
  assumes "queue_rel (p, h) pks" and "packet_type pk = pt"
  shows "\<exists>s'. link_node (h_fresh h) (p, alloc_pair pt pk h) = Inr s' \<and> queue_rel s' (pks @ [pk]) \<and>
    same_buffer p (fst s')"
  using assms link_alloc_pair [of _ p h pks pk pt] by (auto simp: queue_rel_def same_buffer_def) metis

text \<open>The packet of a sentence its parser accepts.\<close>

definition gives :: "(string \<Rightarrow> string) \<Rightarrow> string \<Rightarrow> packet \<Rightarrow> bool" where
  "gives stk sen pk \<longleftrightarrow> (\<exists>pt. parse_packet stk pt sen = Inr (Some (True, pk)))"

lemma push_sentence_any:
  assumes q: "queue_rel (p, h) pks"
  shows "case push_sentence stk pt sen (p, h) of
      Inl e \<Rightarrow> parse_packet stk pt sen = Inl e
    | Inr (ok, s') \<Rightarrow> same_buffer p (fst s') \<and>
        (\<exists>new. queue_rel s' (pks @ new) \<and> (\<forall>pk \<in> set new. gives stk sen pk))"
proof -
  let ?nd = "\<lparr>nd_packType = GPNON, nd_pack = None, nd_next = None\<rparr>"
  define h1 where "h1 = h\<lparr>h_plan := tl (tl (h_plan h))\<rparr>"
  have q1: "queue_rel (p, h1) pks" using q by (simp add: h1_def)
  obtain ok1 where m1: "malloc_ok h = (ok1, h\<lparr>h_plan := tl (h_plan h)\<rparr>)" by (simp add: malloc_ok_eq)
  obtain ok2 where m2: "malloc_ok (snd (new_node ?nd (h\<lparr>h_plan := tl (h_plan h)\<rparr>))) =
      (ok2, h\<lparr>h_nodes := fmupd (h_fresh h) ?nd (h_nodes h), h_fresh := Suc (h_fresh h),
              h_plan := tl (tl (h_plan h))\<rparr>)"
    by (simp add: malloc_ok_eq new_node_def)
  note run = push_sentence_def Let_def m1 prod.case new_node_def m2 [unfolded new_node_def, simplified]
  have keep: ?thesis if "push_sentence stk pt sen (p, h) = Inr (ok, p, h')" "queue_rel (p, h') pks" for ok h'
  proof -
    from that(2) have "\<exists>new. queue_rel (p, h') (pks @ new) \<and> (\<forall>pk \<in> set new. gives stk sen pk)"
      by (intro exI [of _ "[]"]) simp
    with that(1) show ?thesis by simp
  qed
  consider "\<not> ok1" | "ok1" "pt = GPNON" | "ok1" "pt \<noteq> GPNON" "\<not> ok2" | "ok1" "pt \<noteq> GPNON" "ok2" by blast
  then show ?thesis
  proof cases
    case 1
    then show ?thesis by (intro keep [of False "h\<lparr>h_plan := tl (h_plan h)\<rparr>"]) (simp_all add: run q)
  next
    case 2
    then show ?thesis
      by (intro keep [OF _ queue_rel_scratch [OF q, where nd = ?nd and bs = "tl (h_plan h)"], of True]) (simp add: run free_node_def)
  next
    case 3
    then show ?thesis
      by (intro keep [OF _ queue_rel_scratch [OF q, where nd = ?nd and bs = "tl (tl (h_plan h))"], of False]) (simp add: run)
  next
    case 4
    have eq: "push_sentence stk pt sen (p, h) = bindR (parse_packet stk pt sen) (\<lambda>res. case res of
        None \<Rightarrow> Inr (True, p, free_node (h_fresh h) (h\<lparr>h_nodes := fmupd (h_fresh h) ?nd (h_nodes h),
          h_fresh := Suc (h_fresh h), h_plan := tl (tl (h_plan h))\<rparr>))
      | Some (good, pk) \<Rightarrow> if good then bindR (link_node (h_fresh h1) (p, alloc_pair pt pk h1)) (\<lambda>s'. Inr (True, s'))
          else Inr (True, p, free_node (h_fresh h1) (alloc_pair pt pk h1)))"
      using 4 by (cases "parse_packet stk pt sen")
        (auto simp: run new_pack_def alloc_pair_def h1_def simp del: parse_packet.simps split: option.split)
    show ?thesis
    proof (cases "parse_packet stk pt sen")
      case (Inl e)
      then show ?thesis by (simp add: eq)
    next
      case (Inr res)
      show ?thesis
      proof (cases res)
        case None
        with Inr 4 parse_packet_None [of stk pt sen] show ?thesis by simp
      next
        case (Some r)
        obtain good pk where r: "r = (good, pk)" by (cases r)
        show ?thesis
        proof (cases good)
          case False
          with Inr Some r show ?thesis
            by (intro keep [OF _ queue_rel_reject [OF q1, of pt pk], of True]) (simp add: eq)
        next
          case True
          have res: "parse_packet stk pt sen = Inr (Some (True, pk))" using Inr Some r True by simp
          from link_alloc_pair_rel [OF q1 parse_packet_type [OF res]] obtain s' where
            s': "link_node (h_fresh h1) (p, alloc_pair pt pk h1) = Inr s'" "queue_rel s' (pks @ [pk])"
              "same_buffer p (fst s')" by blast
          have "\<forall>pk' \<in> set [pk]. gives stk sen pk'" using res by (auto simp: gives_def)
          with s' res show ?thesis by (auto simp: eq simp del: parse_packet.simps)
        qed
      qed
    qed
  qed
qed

subsection \<open>The loop over the buffer\<close>

text \<open>The packets \<open>new\<close> come from sentences that are pieces of \<open>text\<close>.\<close>

definition from_text :: "(string \<Rightarrow> string) \<Rightarrow> string \<Rightarrow> packet list \<Rightarrow> bool" where
  "from_text stk bs new \<longleftrightarrow> (\<forall>pk \<in> set new. \<exists>sen. sublist sen bs \<and> gives stk sen pk)"

text \<open>A piece of \<open>text\<close> on which its parser faults.\<close>

definition faulty_text :: "(string \<Rightarrow> string) \<Rightarrow> string \<Rightarrow> fault \<Rightarrow> bool" where
  "faulty_text stk bs e \<longleftrightarrow> (\<exists>pt sen. sublist sen bs \<and> parse_packet stk pt sen = Inl e)"

lemma from_text_Nil [simp]: "from_text stk bs []"
  by (simp add: from_text_def)

lemma from_text_append: "from_text stk bs (xs @ ys) \<longleftrightarrow> from_text stk bs xs \<and> from_text stk bs ys"
  by (auto simp: from_text_def)

lemma from_text_mono: "from_text stk bs new \<Longrightarrow> sublist bs bs' \<Longrightarrow> from_text stk bs' new"
  unfolding from_text_def by (meson sublist_order.order_trans)

lemma faulty_text_mono: "faulty_text stk bs e \<Longrightarrow> sublist bs bs' \<Longrightarrow> faulty_text stk bs' e"
  unfolding faulty_text_def by (meson sublist_order.order_trans)


lemma push_loop_any:
  assumes "queue_rel s pks"
  shows "case push_loop stk nparsed rest s of
      Inl e \<Rightarrow> faulty_text stk rest e
    | Inr (res, s') \<Rightarrow> same_buffer (fst s) (fst s') \<and>
        (\<exists>new. queue_rel s' (pks @ new) \<and> from_text stk rest new) \<and>
        (\<forall>np left. res = Some (np, left) \<longrightarrow> suffix left rest \<and> (np = nparsed \<longrightarrow> left = rest) \<and> nparsed \<le> np)"
  using assms
proof (induction stk nparsed rest s arbitrary: pks rule: push_loop.induct)
  case (1 stk nparsed rest s)
  obtain n crc where t: "nmea_find_tail rest = (n, crc)" by (cases "nmea_find_tail rest")
  note IH = "1.IH" [OF t [symmetric] refl]
  note eq = push_loop.simps [of stk nparsed rest s]
  show ?case
  proof (cases "n = 0")
    case True
    have "\<exists>new. queue_rel s (pks @ new) \<and> from_text stk rest new"
      by (intro exI [of _ "[]"]) (simp add: "1.prems")
    with True t show ?thesis by (simp add: eq)
  next
    case n0: False
    have sub: "sublist (drop n rest) rest" "suffix (drop n rest) rest" by (simp_all add: suffix_drop)
    have step: ?thesis if eq': "push_loop stk nparsed rest s = push_loop stk (nparsed + n) (drop n rest) s1"
      and I: "case push_loop stk (nparsed + n) (drop n rest) s1 of
        Inl e \<Rightarrow> faulty_text stk (drop n rest) e
      | Inr (res, s') \<Rightarrow> same_buffer (fst s1) (fst s') \<and>
          (\<exists>new. queue_rel s' ((pks @ new1) @ new) \<and> from_text stk (drop n rest) new) \<and>
          (\<forall>np left. res = Some (np, left) \<longrightarrow> suffix left (drop n rest) \<and>
             (np = nparsed + n \<longrightarrow> left = drop n rest) \<and> nparsed + n \<le> np)"
      and s1: "same_buffer (fst s) (fst s1)" "from_text stk rest new1" for s1 new1
    proof (cases "push_loop stk (nparsed + n) (drop n rest) s1")
      case (Inl e)
      with I eq' sub show ?thesis by (auto intro: faulty_text_mono)
    next
      case (Inr r)
      obtain res s' where r: "r = (res, s')" by (cases r)
      from I Inr r obtain new where new: "same_buffer (fst s1) (fst s')" "queue_rel s' (pks @ new1 @ new)"
        "from_text stk (drop n rest) new" by auto
      have "from_text stk rest (new1 @ new)"
        using s1(2) from_text_mono [OF new(3) sub(1)] by (simp add: from_text_append)
      with new(2) have "\<exists>new. queue_rel s' (pks @ new) \<and> from_text stk rest new" by blast
      moreover have "\<forall>np left. res = Some (np, left) \<longrightarrow> suffix left rest \<and> (np = nparsed \<longrightarrow> left = rest) \<and> nparsed \<le> np"
        using I Inr r n0 sub(2) by (auto intro: suffix_order.order_trans)
      ultimately show ?thesis using eq' Inr r same_buffer_trans [OF s1(1) new(1)] by simp
    qed
    show ?thesis
    proof (cases "0 \<le> crc")
      case False
      have e: "push_loop stk nparsed rest s = push_loop stk (nparsed + n) (drop n rest) s"
        using t n0 False by (simp add: eq)
      show ?thesis
        by (rule step [OF e, of "[]", unfolded append_Nil2]) (use IH(2) [OF n0 False "1.prems"] in simp_all)
    next
      case True
      let ?pt = "nmea_pack_type (drop 1 rest)" and ?sen = "take n rest"
      have st: "sublist ?sen rest" by simp
      obtain p h where s: "s = (p, h)" by (cases s)
      note ps = push_sentence_any [OF "1.prems" [unfolded s], of stk ?pt ?sen]
      show ?thesis
      proof (cases "push_sentence stk ?pt ?sen s")
        case (Inl e)
        with ps s st have "faulty_text stk rest e" by (auto simp: faulty_text_def simp del: parse_packet.simps)
        with Inl t n0 True show ?thesis by (simp add: eq)
      next
        case (Inr r)
        obtain ok s1 where r: "r = (ok, s1)" by (cases r)
        from ps Inr r s obtain new1 where new1: "same_buffer (fst s) (fst s1)" "queue_rel s1 (pks @ new1)"
          "\<forall>pk \<in> set new1. gives stk ?sen pk" by auto
        have ft: "from_text stk rest new1" using new1(3) st by (auto simp: from_text_def)
        show ?thesis
        proof (cases ok)
          case False
          have "push_loop stk nparsed rest s = Inr (None, s1)" using Inr r t n0 True False by (simp add: eq)
          with new1(1,2) ft show ?thesis by auto
        next
          case ok: True
          have e: "push_loop stk nparsed rest s = push_loop stk (nparsed + n) (drop n rest) s1"
            using Inr r t n0 True ok by (simp add: eq)
          show ?thesis
            by (rule step [OF e IH(1) [OF n0 True Inr r [symmetric] ok new1(2)] new1(1) ft])
        qed
      qed
    qed
  qed
qed

subsection \<open>One call and the loop around it\<close>

lemma real_push_any:
  assumes ok: "parser_ok (fst s)" and q: "queue_rel s pks" and len: "length buff \<le> p_buff_size (fst s)"
  shows "case nmea_parser_real_push stk s buff of
      Inl e \<Rightarrow> faulty_text stk (pending (fst s) @ buff) e
    | Inr (n, s') \<Rightarrow> parser_ok (fst s') \<and> p_buff_size (fst s') = p_buff_size (fst s) \<and>
        suffix (pending (fst s')) (pending (fst s) @ buff) \<and>
        (n = - 1 \<longrightarrow> pending (fst s') = kept (fst s) (length buff) @ buff) \<and>
        (\<exists>new. queue_rel s' (pks @ new) \<and> from_text stk (pending (fst s) @ buff) new)"
proof -
  obtain p h where s: "s = (p, h)" by (cases s)
  obtain bytes where b: "p_buffer p = Some bytes" "length bytes = p_buff_size p" "p_buff_use p \<le> p_buff_size p"
    using ok by (auto simp: parser_ok_def s)
  define p1 where "p1 = (if p_buff_use p + length buff \<ge> p_buff_size p then nmea_parser_buff_clear p else p)"
  define use1 where "use1 = p_buff_use p1 + length buff"
  define bytes1 where "bytes1 = splice bytes (p_buff_use p1) buff"
  define p2 where "p2 = p1\<lparr>p_buffer := Some bytes1, p_buff_use := use1\<rparr>"
  define piece where "piece = take use1 bytes1"
  have use1: "use1 \<le> length bytes" and k: "take (p_buff_use p1) bytes = kept p (length buff)"
    and p1: "p_top p1 = p_top p" "p_end p1 = p_end p" "p_buff_size p1 = p_buff_size p"
    using len b by (simp_all add: use1_def p1_def nmea_parser_buff_clear_def kept_def pending_def s)
  have pc: "piece = kept p (length buff) @ buff"
    using use1 k by (simp add: piece_def bytes1_def use1_def)
  then have sub: "suffix piece (pending p @ buff)" by (simp add: kept_def suffix_def)
  have lb1: "length bytes1 = length bytes" using use1 by (simp add: bytes1_def use1_def)
  have q2: "queue_rel (p2, h) pks"
    by (rule queue_rel_buffer [OF q [unfolded s]]) (simp_all add: p2_def p1)
  have run: "nmea_parser_real_push stk s buff = bindR (push_loop stk 0 piece (p2, h)) (\<lambda>(res, p3, h3). case res of
      None \<Rightarrow> Inr (- 1, p3, h3)
    | Some (np, rest) \<Rightarrow> Inr (int np, (if np \<noteq> 0 then p3\<lparr>p_buffer := Some (splice bytes1 0 rest),
        p_buff_use := length rest\<rparr> else p3), h3))"
    using b use1 by (simp add: nmea_parser_real_push_def s p1_def [symmetric] use1_def [symmetric]
        bytes1_def [symmetric] p2_def [symmetric] piece_def)
  note L = push_loop_any [OF q2, where stk = stk and nparsed = 0 and rest = piece]
  show ?thesis
  proof (cases "push_loop stk 0 piece (p2, h)")
    case (Inl e)
    with L run sub faulty_text_mono [of stk piece e] show ?thesis by (auto simp: s)
  next
    case (Inr r)
    obtain res p3 h3 where r: "r = (res, p3, h3)" by (cases r)
    from L Inr r obtain new where new: "same_buffer p2 p3" "queue_rel (p3, h3) (pks @ new)" "from_text stk piece new"
      and left: "\<forall>np left. res = Some (np, left) \<longrightarrow> suffix left piece" by auto
    have ft: "from_text stk (pending p @ buff) new" using from_text_mono [OF new(3)] sub by auto
    have p3: "parser_ok p3" "pending p3 = piece" "p_buff_size p3 = p_buff_size p"
      using new(1) lb1 b use1 p1 by (auto simp: same_buffer_def parser_ok_def pending_def p2_def piece_def)
    consider "nmea_parser_real_push stk s buff = Inr (- 1, p3, h3)" |
      np where "nmea_parser_real_push stk s buff = Inr (int np, p3, h3)" |
      np rest where "res = Some (np, rest)"
        "nmea_parser_real_push stk s buff = Inr (int np, p3\<lparr>p_buffer := Some (splice bytes1 0 rest), p_buff_use := length rest\<rparr>, h3)"
      using Inr r run by (cases res) (auto split: if_splits)
    then show ?thesis
    proof cases
      case 3
      let ?p4 = "p3\<lparr>p_buffer := Some (splice bytes1 0 rest), p_buff_use := length rest\<rparr>"
      have rest: "suffix rest piece" using left 3(1) by blast
      then have lr: "length rest \<le> length bytes1"
        using suffix_length_le [OF rest] by (simp add: piece_def)
      have "queue_rel (?p4, h3) (pks @ new)" by (rule queue_rel_buffer [OF new(2)]) simp_all
      moreover have "parser_ok ?p4" "pending ?p4 = rest"
        using lr lb1 b p3(3) by (auto simp: parser_ok_def pending_def)
      ultimately show ?thesis using 3(2) ft p3(3) suffix_order.order_trans [OF rest sub] by (auto simp: s)
    qed (use new(2) ft p3 sub pc in \<open>auto simp: s\<close>)
  qed
qed

text \<open>When \<open>rt_malloc\<close> fails no byte is dropped, those of the sentences that were queued already included: the next push
  finds and queues them again.\<close>

theorem failed_push_keeps_bytes:
  assumes "parser_ok (fst s)" and "queue_rel s pks" and "length buff \<le> p_buff_size (fst s)"
    and "nmea_parser_real_push stk s buff = Inr (- 1, s')"
  shows "pending (fst s') = (if length (pending (fst s)) + length buff < p_buff_size (fst s) then pending (fst s) else []) @ buff"
  using real_push_any [OF assms(1-3), of stk] assms(4) by (simp add: kept_def length_pending [OF assms(1)])







subsection \<open>Merging any packets\<close>











subsection \<open>A count that overflows\<close>

lemma gsv_copy_overrun:
  assumes "length data < isat + k" and "isat \<le> length data"
  shows "gsv_copy base isat k data sats = Inl Out_of_bounds"
  using assms by (induction k arbitrary: isat sats) (auto simp: Let_def)

text \<open>The number of satellites in a GSV message is subtracted from without a check: with the smallest \<open>int\<close> in the
  second message of a group the difference wraps to a large positive number, \<open>nmea_parse_gsv\<close> asks for no field at
  all, and the copy loop of \<open>nmea_gsv_info\<close> runs off the four satellites of the message.\<close>

theorem gsv_count_overrun:
  assumes "gsv_pack_index p = 2" and "2 \<le> gsv_pack_count p" and "gsv_sat_count p = INT_MIN"
    and "length (gsv_sat_data p) = NMEA_SATINPACK"
  shows "nmea_gsv_info p info = Inl Out_of_bounds"
proof -
  have w: "wrap32 (- 2147483652) = 2147483644" by (simp add: wrap32_def signed_take_bit_eq_if_positive signed_take_bit_def)
  have n: "gsv_nsat 2 INT_MIN = 2147483644"
    by (simp add: gsv_nsat_def Let_def int_ok_def w)
  have "gsv_copy 4 0 2147483644 (gsv_sat_data p) (si_sat (in_satinfo info)) = Inl Out_of_bounds"
    by (rule gsv_copy_overrun) (simp_all add: assms(4) NMEA_SATINPACK_def)
  then show ?thesis using assms(1-3) by (simp add: nmea_gsv_info_def NMEA_MAXSAT_def int_ok_def n)
qed

end
