(* ===== verification/Nmea_Library.thy ===== *)
theory Nmea_Library
  imports Nmea_Stream
begin

text \<open>
  The parser of \<open>nmealib\<close> (\<open>parse.c\<close>, \<open>parser.c\<close>, \<open>context.c\<close>), the ancestor of the stream parser.  It has the same data
  under other names, so its structs are the records of \<open>Nmea_Types\<close>, and its scanner, its packet queue and the functions
  that merge a packet are textually those that are modelled there.  What it adds are its reports: two
  callbacks, for a trace and for errors, that a client sets in a property object.  A function here gives, beside its result,
  what the callbacks get, in order.
\<close>

subsection \<open>The context\<close>

text \<open>
  \<open>Trace\<close> is a text handed over in place; \<open>Message\<close> is the text that is formatted into a local buffer, with the
  size that the callback is told.
\<close>

datatype report = Trace string | Trace_message string nat | Error_message string nat

record nmeaPROPERTY =
  trace_func :: bool
  error_func :: bool
  parse_buff_size :: int

definition nmea_property :: nmeaPROPERTY where
  "nmea_property = \<lparr>trace_func = False, error_func = False, parse_buff_size = int NMEA_DEF_PARSEBUFF\<rparr>"

text \<open>
  \<open>text\<close> is the formatted text: \<open>vsnprintf\<close> stores what fits into \<open>NMEA_DEF_PARSEBUFF - 1\<close> bytes with the terminator, and
  returns the length of all of it.
\<close>

definition nmea_trace :: "nmeaPROPERTY \<Rightarrow> string \<Rightarrow> report list" where
  "nmea_trace pr text =
     (if trace_func pr \<and> length text > 0 then [Trace_message (take (NMEA_DEF_PARSEBUFF - 2) text) (length text)] else [])"

definition nmea_trace_buff :: "nmeaPROPERTY \<Rightarrow> string \<Rightarrow> report list" where
  "nmea_trace_buff pr buff = (if trace_func pr \<and> length buff \<noteq> 0 then [Trace buff] else [])"

definition nmea_error :: "nmeaPROPERTY \<Rightarrow> string \<Rightarrow> report list" where
  "nmea_error pr text =
     (if error_func pr \<and> length text > 0 then [Error_message (take (NMEA_DEF_PARSEBUFF - 2) text) (length text)] else [])"

subsection \<open>One parser per sentence\<close>

definition lib_parse_time :: "nmeaPROPERTY \<Rightarrow> string \<Rightarrow> nmea_time \<Rightarrow> report list \<times> int \<times> nmea_time" where
  "lib_parse_time pr buff res =
     (if length buff = 6 then
        (let (n, st) = nmea_scanf buff ''%2d%2d%2d'' (map Some [0, 1, 2])
         in ([], if n = 3 then 0 else - 1,
             res\<lparr>t_hour := upd_time st 0 (t_hour res), t_min := upd_time st 1 (t_min res),
                 t_sec := upd_time st 2 (t_sec res)\<rparr>))
      else if length buff = 8 \<or> length buff = 9 \<or> length buff = 10 then
        (let (n, st) = nmea_scanf buff ''%2d%2d%2d.%d'' (map Some [0, 1, 2, 3])
         in ([], if n = 4 then 0 else - 1,
             res\<lparr>t_hour := upd_time st 0 (t_hour res), t_min := upd_time st 1 (t_min res),
                 t_sec := upd_time st 2 (t_sec res), t_hsec := upd_time st 3 (t_hsec res)\<rparr>))
      else (nmea_error pr ''Parse of time error (format error)!'', - 1, res))"

definition lib_parse_GPGGA ::
    "nmeaPROPERTY \<Rightarrow> string \<Rightarrow> string \<Rightarrow> report list \<times> (int \<times> nmea_gga) result" where
  "lib_parse_GPGGA pr stk buff =
     (let tr = nmea_trace_buff pr buff;
          (n, st) = nmea_scanf buff ''$GPGGA,%s,%f,%C,%f,%C,%d,%d,%f,%f,%C,%f,%C,%f,%d*''
                      (map Some [0, 1, 2, 3, 4, 5, 6, 7, 8, 9, 10, 11, 12, 13::nat]);
          pack = \<lparr>gga_utc = zero_time,
                  gga_lat = ld_dbl st 1, gga_ns = ld_chr st 2,
                  gga_lon = ld_dbl st 3, gga_ew = ld_chr st 4,
                  gga_sig = ld_int st 5, gga_satinuse = ld_int st 6,
                  gga_HDOP = ld_dbl st 7, gga_elv = ld_dbl st 8, gga_elv_units = ld_chr st 9,
                  gga_diff = ld_dbl st 10, gga_diff_units = ld_chr st 11,
                  gga_dgps_age = ld_dbl st 12, gga_dgps_sid = ld_int st 13\<rparr>
      in if \<not> time_store_ok (st 0) then (tr, Inl Stack_overflow)
         else if n \<noteq> 14 then (tr @ nmea_error pr ''GPGGA parse error!'', Inr (0, pack))
         else
           (case time_text stk (st 0) of
              Inl e \<Rightarrow> (tr, Inl e)
            | Inr tm \<Rightarrow>
                (let (ev, r, utc) = lib_parse_time pr tm (gga_utc pack); pack' = pack\<lparr>gga_utc := utc\<rparr>
                 in if r \<noteq> 0 then (tr @ ev @ nmea_error pr ''GPGGA time parse error!'', Inr (0, pack'))
                    else (tr @ ev, Inr (1, pack')))))"

definition lib_parse_GPGSA :: "nmeaPROPERTY \<Rightarrow> string \<Rightarrow> report list \<times> int \<times> nmea_gsa" where
  "lib_parse_GPGSA pr buff =
     (let tr = nmea_trace_buff pr buff;
          (n, st) = nmea_scanf buff
            ''$GPGSA,%C,%d,%d,%d,%d,%d,%d,%d,%d,%d,%d,%d,%d,%d,%f,%f,%f*''
            (map Some [0, 1, 2, 3, 4, 5, 6, 7, 8, 9, 10, 11, 12, 13, 14, 15, 16::nat]);
          pack = \<lparr>gsa_fix_mode = ld_chr st 0, gsa_fix_type = ld_int st 1,
                  gsa_sat_prn = map (ld_int st) [2, 3, 4, 5, 6, 7, 8, 9, 10, 11, 12, 13],
                  gsa_PDOP = ld_dbl st 14, gsa_HDOP = ld_dbl st 15, gsa_VDOP = ld_dbl st 16\<rparr>
      in if n \<noteq> 17 then (tr @ nmea_error pr ''GPGSA parse error!'', 0, pack) else (tr, 1, pack))"

definition lib_parse_GPGSV :: "nmeaPROPERTY \<Rightarrow> string \<Rightarrow> report list \<times> int \<times> nmea_gsv" where
  "lib_parse_GPGSV pr buff =
     (let tr = nmea_trace_buff pr buff;
          (nsen, st) = nmea_scanf buff
            (''$GPGSV,%d,%d,%d,'' @ ''%d,%d,%d,%d,'' @ ''%d,%d,%d,%d,'' @ ''%d,%d,%d,%d,'' @
             ''%d,%d,%d,%d*'')
            (map Some [0, 1, 2, 3, 4, 5, 6, 7, 8, 9, 10, 11, 12, 13, 14, 15, 16, 17, 18::nat]);
          pack = \<lparr>gsv_pack_count = ld_int st 0, gsv_pack_index = ld_int st 1,
                  gsv_sat_count = ld_int st 2,
                  gsv_sat_data = map (gsv_sat st) [3, 7, 11, 15]\<rparr>;
          nsat = wrap32 (wrap32 (gsv_nsat (gsv_pack_index pack) (gsv_sat_count pack) * 4) + 3)
      in if int nsen < nsat \<or> int nsen > 19 then (tr @ nmea_error pr ''GPGSV parse error!'', 0, pack)
         else (tr, 1, pack))"

definition lib_parse_GPRMC ::
    "nmeaPROPERTY \<Rightarrow> string \<Rightarrow> string \<Rightarrow> report list \<times> (int \<times> nmea_rmc) result" where
  "lib_parse_GPRMC pr stk buff =
     (let tr = nmea_trace_buff pr buff;
          (nsen, st) = nmea_scanf buff ''$GPRMC,%s,%C,%f,%C,%f,%C,%f,%f,%2d%2d%2d,%f,%C,%C*''
            (map Some [0, 1, 2, 3, 4, 5, 6, 7, 8, 9, 10, 11, 12, 13::nat]);
          pack = \<lparr>rmc_utc = zero_time\<lparr>t_day := ld_int st 8, t_mon := ld_int st 9,
                                      t_year := ld_int st 10\<rparr>,
                  rmc_status = ld_chr st 1,
                  rmc_lat = ld_dbl st 2, rmc_ns = ld_chr st 3,
                  rmc_lon = ld_dbl st 4, rmc_ew = ld_chr st 5,
                  rmc_speed = ld_dbl st 6, rmc_direction = ld_dbl st 7,
                  rmc_declination = ld_dbl st 11, rmc_declin_ew = ld_chr st 12,
                  rmc_mode = ld_chr st 13\<rparr>
      in if \<not> time_store_ok (st 0) then (tr, Inl Stack_overflow)
         else if nsen \<noteq> 13 \<and> nsen \<noteq> 14 then (tr @ nmea_error pr ''GPRMC parse error!'', Inr (0, pack))
         else
           (case time_text stk (st 0) of
              Inl e \<Rightarrow> (tr, Inl e)
            | Inr tm \<Rightarrow>
                (let (ev, r, utc) = lib_parse_time pr tm (rmc_utc pack); pack' = pack\<lparr>rmc_utc := utc\<rparr>
                 in if r \<noteq> 0 then (tr @ ev @ nmea_error pr ''GPRMC time parse error!'', Inr (0, pack'))
                    else
                      (let utc1 = (if t_year utc < 90 then utc\<lparr>t_year := t_year utc + 100\<rparr> else utc);
                           utc2 = utc1\<lparr>t_mon := wrap32 (t_mon utc1 - 1)\<rparr>
                       in (tr @ ev, Inr (1, pack'\<lparr>rmc_utc := utc2\<rparr>))))))"

definition lib_parse_GPVTG :: "nmeaPROPERTY \<Rightarrow> string \<Rightarrow> report list \<times> int \<times> nmea_vtg" where
  "lib_parse_GPVTG pr buff =
     (let tr = nmea_trace_buff pr buff;
          (n, st) = nmea_scanf buff ''$GPVTG,%f,%C,%f,%C,%f,%C,%f,%C*''
            (map Some [0, 1, 2, 3, 4, 5, 6, 7::nat]);
          pack = \<lparr>vtg_dir = ld_dbl st 0, vtg_dir_t = ld_chr st 1,
                  vtg_dec = ld_dbl st 2, vtg_dec_m = ld_chr st 3,
                  vtg_spn = ld_dbl st 4, vtg_spn_n = ld_chr st 5,
                  vtg_spk = ld_dbl st 6, vtg_spk_k = ld_chr st 7\<rparr>
      in if n \<noteq> 8 then (tr @ nmea_error pr ''GPVTG parse error!'', 0, pack)
         else if vtg_dir_t pack \<noteq> CHR ''T'' \<or> vtg_dec_m pack \<noteq> CHR ''M'' \<or>
                 vtg_spn_n pack \<noteq> CHR ''N'' \<or> vtg_spk_k pack \<noteq> CHR ''K''
              then (tr @ nmea_error pr ''GPVTG parse error (format error)!'', 0, pack)
         else (tr, 1, pack))"

subsection \<open>The parser object\<close>

text \<open>\<open>mem\<close> is the block \<open>rt_malloc\<close> hands out for the size it is asked for, \<open>None\<close> if it fails.\<close>

definition lib_parser_init ::
    "nmeaPROPERTY \<Rightarrow> (nat \<Rightarrow> string option) \<Rightarrow> report list \<times> int \<times> nmea_parser" where
  "lib_parser_init pr malloc =
     (let buff_size = (if parse_buff_size pr < int NMEA_MIN_PARSEBUFF then NMEA_MIN_PARSEBUFF
                       else nat (parse_buff_size pr));
          mem = malloc buff_size;
          parser = \<lparr>p_top = None, p_end = None, p_buffer = mem, p_buff_size = 0, p_buff_use = 0\<rparr>
      in case mem of
           None \<Rightarrow> (nmea_error pr ''Insufficient memory!'', - 1, parser)
         | Some _ \<Rightarrow> ([], 1, parser\<lparr>p_buff_size := buff_size\<rparr>))"

text \<open>The call in each \<open>case\<close> of the \<open>switch\<close> over the packet type.\<close>

fun lib_parse_packet ::
    "nmeaPROPERTY \<Rightarrow> (string \<Rightarrow> string) \<Rightarrow> NMEA_PACK_TYPE \<Rightarrow> string \<Rightarrow> report list \<times> (bool \<times> packet) option result" where
  "lib_parse_packet pr stk GPNON sen = ([], Inr None)"
| "lib_parse_packet pr stk GPGGA sen =
     (let (ev, q) = lib_parse_GPGGA pr (stk sen) sen in (ev, bindR q (\<lambda>(r, p). Inr (Some (r \<noteq> 0, Pgga p)))))"
| "lib_parse_packet pr stk GPGSA sen = (let (ev, r, p) = lib_parse_GPGSA pr sen in (ev, Inr (Some (r \<noteq> 0, Pgsa p))))"
| "lib_parse_packet pr stk GPGSV sen = (let (ev, r, p) = lib_parse_GPGSV pr sen in (ev, Inr (Some (r \<noteq> 0, Pgsv p))))"
| "lib_parse_packet pr stk GPRMC sen =
     (let (ev, q) = lib_parse_GPRMC pr (stk sen) sen in (ev, bindR q (\<lambda>(r, p). Inr (Some (r \<noteq> 0, Prmc p)))))"
| "lib_parse_packet pr stk GPVTG sen = (let (ev, r, p) = lib_parse_GPVTG pr sen in (ev, Inr (Some (r \<noteq> 0, Pvtg p))))"

text \<open>The body of the loop for a good checksum; \<open>False\<close> is \<open>goto mem_fail\<close>.\<close>

definition lib_push_sentence ::
    "nmeaPROPERTY \<Rightarrow> (string \<Rightarrow> string) \<Rightarrow> NMEA_PACK_TYPE \<Rightarrow> string \<Rightarrow> pstate \<Rightarrow> report list \<times> (bool \<times> pstate) result" where
  "lib_push_sentence pr stk ptype sen s =
     (let (p, h) = s; (ok1, h1) = malloc_ok h
      in if \<not> ok1 then ([], Inr (False, p, h1))
         else
           (let (a, h2) = new_node \<lparr>nd_packType = GPNON, nd_pack = None, nd_next = None\<rparr> h1
            in if ptype = GPNON then ([], Inr (True, p, free_node a h2))
               else
                 (let (ok2, h3) = malloc_ok h2
                  in if \<not> ok2 then ([], Inr (False, p, free_node a h3))
                     else
                       (let (ev, q) = lib_parse_packet pr stk ptype sen
                        in (ev, bindR q
                         (\<lambda>res. case res of
                            None \<Rightarrow> Inr (True, p, free_node a h3)
                          | Some (good, pk) \<Rightarrow>
                              (let (b, h4) = new_pack pk h3;
                                   h5 = h4\<lparr>h_nodes := fmupd a \<lparr>nd_packType = ptype, nd_pack = Some b,
                                                           nd_next = None\<rparr> (h_nodes h4)\<rparr>
                               in if good then bindR (link_node a (p, h5)) (\<lambda>s'. Inr (True, s'))
                                  else Inr (True, p, free_node a h5))))))))"

function lib_push_loop ::
    "nmeaPROPERTY \<Rightarrow> (string \<Rightarrow> string) \<Rightarrow> nat \<Rightarrow> string \<Rightarrow> pstate \<Rightarrow>
      report list \<times> ((nat \<times> string) option \<times> pstate) result" where
  "lib_push_loop pr stk nparsed rest s =
     (let (sen_sz, crc) = nmea_find_tail rest
      in if sen_sz = 0 then ([], Inr (Some (nparsed, rest), s))
         else if 0 \<le> crc then
           (case lib_push_sentence pr stk (nmea_pack_type (drop 1 rest)) (take sen_sz rest) s of
              (ev, Inl e) \<Rightarrow> (ev, Inl e)
            | (ev, Inr (ok, s')) \<Rightarrow>
                (if ok then (let (ev', q) = lib_push_loop pr stk (nparsed + sen_sz) (drop sen_sz rest) s' in (ev @ ev', q))
                 else (ev @ nmea_error pr ''Insufficient memory!'', Inr (None, s'))))
         else lib_push_loop pr stk (nparsed + sen_sz) (drop sen_sz rest) s)"
  by pat_completeness auto
termination
proof (relation "measure (\<lambda>(pr, stk, nparsed, rest, s). length rest)", goal_cases)
  case (2 pr stk nparsed rest s x sen_sz crc)
  with find_tail_bound [of rest] show ?case by (cases rest) auto
next
  case (3 pr stk nparsed rest s x sen_sz crc)
  with find_tail_bound [of rest] show ?case by (cases rest) auto
qed simp

declare lib_push_loop.simps [simp del]

definition lib_parser_real_push ::
    "nmeaPROPERTY \<Rightarrow> (string \<Rightarrow> string) \<Rightarrow> pstate \<Rightarrow> string \<Rightarrow> report list \<times> (int \<times> pstate) result" where
  "lib_parser_real_push pr stk s buff =
     (let (p, h) = s
      in case p_buffer p of
           None \<Rightarrow> ([], Inl Assert_failed)
         | Some bytes \<Rightarrow>
             (let p1 = (if p_buff_use p + length buff \<ge> p_buff_size p
                        then nmea_parser_buff_clear p else p)
              in if p_buff_use p1 + length buff > length bytes then ([], Inl Buffer_overflow)
                 else
                   (let bytes1 = splice bytes (p_buff_use p1) buff;
                        use1 = p_buff_use p1 + length buff;
                        p2 = p1\<lparr>p_buffer := Some bytes1, p_buff_use := use1\<rparr>;
                        (ev, q) = lib_push_loop pr stk 0 (take use1 bytes1) (p2, h)
                    in (ev, bindR q
                         (\<lambda>(res, p3, h3).
                            case res of
                              None \<Rightarrow> Inr (- 1, p3, h3)
                            | Some (nparsed, rest) \<Rightarrow>
                                Inr (int nparsed,
                                     (if nparsed \<noteq> 0
                                      then p3\<lparr>p_buffer := Some (splice bytes1 0 rest),
                                              p_buff_use := length rest\<rparr>
                                      else p3),
                                     h3))))))"

function lib_parser_push_loop ::
    "nmeaPROPERTY \<Rightarrow> (string \<Rightarrow> string) \<Rightarrow> string \<Rightarrow> nat \<Rightarrow> int \<Rightarrow> pstate \<Rightarrow> (report list \<times> (int \<times> pstate) result) option" where
  "lib_parser_push_loop pr stk buff buff_sz nparsed s =
     (let nparse = (if buff_sz > p_buff_size (fst s) then p_buff_size (fst s) else buff_sz)
      in case lib_parser_real_push pr stk s (take nparse buff) of
           (ev, Inl e) \<Rightarrow> Some (ev, Inl e)
         | (ev, Inr (n, s')) \<Rightarrow>
             (if buff_sz - nparse = 0 then Some (ev, Inr (wrap32 (nparsed + n), s'))
              else if nparse = 0 then None
              else map_option (\<lambda>(ev', q). (ev @ ev', q))
                     (lib_parser_push_loop pr stk buff (buff_sz - nparse) (wrap32 (nparsed + n)) s')))"
  by pat_completeness auto
termination
  by (relation "measure (\<lambda>(pr, stk, buff, buff_sz, nparsed, s). buff_sz)") auto

declare lib_parser_push_loop.simps [simp del]

definition lib_parse ::
    "nmeaPROPERTY \<Rightarrow> (string \<Rightarrow> string) \<Rightarrow> pstate \<Rightarrow> string \<Rightarrow> nmea_info \<Rightarrow>
      (report list \<times> (nat \<times> nmea_info \<times> pstate) result) option" where
  "lib_parse pr stk s buff info =
     (if p_buffer (fst s) = None then Some ([], Inl Assert_failed)
      else
        (case lib_parser_push_loop pr stk buff (length buff) 0 s of
           None \<Rightarrow> None
         | Some (ev, Inl e) \<Rightarrow> Some (ev, Inl e)
         | Some (ev, Inr (_, s')) \<Rightarrow> Some (ev, parse_drain s' info 0)))"

subsection \<open>Without the reports\<close>

lemma lib_parse_time_agrees: "snd (lib_parse_time pr buff res) = nmea_parse_time buff res"
  by (simp add: lib_parse_time_def nmea_parse_time_def Let_def split_beta)

lemma lib_parse_GPGGA_agrees: "snd (lib_parse_GPGGA pr stk buff) = nmea_parse_gga stk buff"
  unfolding lib_parse_GPGGA_def nmea_parse_gga_def Let_def
  by (simp add: split_beta lib_parse_time_agrees [of pr, symmetric] split: sum.split)

lemma lib_parse_GPRMC_agrees: "snd (lib_parse_GPRMC pr stk buff) = nmea_parse_rmc stk buff"
  unfolding lib_parse_GPRMC_def nmea_parse_rmc_def Let_def
  by (simp add: split_beta lib_parse_time_agrees [of pr, symmetric] split: sum.split)

lemma lib_parse_plain_agrees:
  "snd (lib_parse_GPGSA pr buff) = nmea_parse_gsa buff"
  "snd (lib_parse_GPGSV pr buff) = nmea_parse_gsv buff"
  "snd (lib_parse_GPVTG pr buff) = nmea_parse_vtg buff"
  by (simp_all add: lib_parse_GPGSA_def nmea_parse_gsa_def lib_parse_GPGSV_def nmea_parse_gsv_def
      lib_parse_GPVTG_def nmea_parse_vtg_def Let_def split_beta)

lemma lib_parse_packet_agrees: "snd (lib_parse_packet pr stk pt sen) = parse_packet stk pt sen"
  using lib_parse_GPGGA_agrees [of pr "stk sen" sen] lib_parse_GPRMC_agrees [of pr "stk sen" sen]
    lib_parse_plain_agrees [of pr sen]
  by (cases pt) (simp_all add: split_beta)

lemma lib_push_sentence_agrees: "snd (lib_push_sentence pr stk pt sen s) = push_sentence stk pt sen s"
  by (simp add: lib_push_sentence_def push_sentence_def Let_def split_beta lib_parse_packet_agrees)

lemma lib_push_loop_agrees: "snd (lib_push_loop pr stk n rest s) = push_loop stk n rest s"
proof (induction stk n rest s rule: push_loop.induct)
  case (1 stk n rest s)
  obtain sz crc where tail: "nmea_find_tail rest = (sz, crc)" by fastforce
  obtain ev q where sen: "lib_push_sentence pr stk (nmea_pack_type (drop 1 rest)) (take sz rest) s = (ev, q)" by fastforce
  have q: "push_sentence stk (nmea_pack_type (drop 1 rest)) (take sz rest) s = q"
    using lib_push_sentence_agrees [of pr stk "nmea_pack_type (drop 1 rest)" "take sz rest" s] sen by simp
  note IH = 1(1) [OF refl tail [symmetric], unfolded q] 1(2) [OF refl tail [symmetric]]
  show ?case
    unfolding lib_push_loop.simps [of pr stk n rest s] push_loop.simps [of stk n rest s] tail Let_def prod.case sen q
    using IH by (cases q) (auto simp: split_beta)
qed

lemma lib_real_push_agrees: "snd (lib_parser_real_push pr stk s buff) = nmea_parser_real_push stk s buff"
  by (simp add: lib_parser_real_push_def nmea_parser_real_push_def Let_def split_beta lib_push_loop_agrees split: option.split)

lemma lib_parser_push_agrees:
  "map_option snd (lib_parser_push_loop pr stk buff sz n s) = parser_push_loop stk buff sz n s"
proof (induction stk buff sz n s rule: parser_push_loop.induct)
  case (1 stk buff sz n s)
  define k where "k = (if sz > p_buff_size (fst s) then p_buff_size (fst s) else sz)"
  obtain ev q where push: "lib_parser_real_push pr stk s (take k buff) = (ev, q)" by fastforce
  have q: "nmea_parser_real_push stk s (take k buff) = q"
    using lib_real_push_agrees [of pr stk s "take k buff"] push by simp
  show ?case
    unfolding lib_parser_push_loop.simps [of pr stk buff sz n s] parser_push_loop.simps [of stk buff sz n s] Let_def
      k_def [symmetric] push q prod.case
    using 1 [OF k_def, unfolded q] by (cases q) (auto simp: option.map_comp comp_def split_beta)
qed

subsection \<open>The reports\<close>

definition traced :: "report list \<Rightarrow> string list" where
  "traced ev = concat (map (\<lambda>r. case r of Trace b \<Rightarrow> [b] | _ \<Rightarrow> []) ev)"

definition is_error :: "report \<Rightarrow> bool" where
  "is_error r \<longleftrightarrow> (case r of Error_message b n \<Rightarrow> True | _ \<Rightarrow> False)"

lemma traced_simps [simp]:
  "traced [] = []" "traced (ev @ ev') = traced ev @ traced ev'"
  by (simp_all add: traced_def)

lemma report_simps [simp]:
  "traced (nmea_error pr text) = []"
  "trace_func pr \<Longrightarrow> buff \<noteq> [] \<Longrightarrow> traced (nmea_trace_buff pr buff) = [buff]"
  "filter is_error (nmea_trace_buff pr buff) = []"
  "error_func pr \<Longrightarrow> text \<noteq> [] \<Longrightarrow> filter is_error (nmea_error pr text) \<noteq> []"
  by (auto simp: traced_def nmea_error_def nmea_trace_buff_def is_error_def)

lemma lib_parse_time_reports:
  assumes "lib_parse_time pr buff res = (ev, r, t)"
  shows "traced ev = []" and "r = 0 \<Longrightarrow> ev = []"
  using assms by (auto simp: lib_parse_time_def Let_def split: if_splits prod.splits)

text \<open>A sentence of a known type is traced, and there is an error exactly when it is rejected.\<close>

definition reports_ok :: "report list \<Rightarrow> string \<Rightarrow> bool \<Rightarrow> bool" where
  "reports_ok ev sen good \<longleftrightarrow> traced ev = [sen] \<and> (filter is_error ev = [] \<longleftrightarrow> good)"

lemma lib_parse_plain_reports:
  assumes "trace_func pr" and "error_func pr" and "sen \<noteq> []"
  shows "lib_parse_GPGSA pr sen = (ev, r, a) \<Longrightarrow> reports_ok ev sen (r \<noteq> 0)"
    and "lib_parse_GPGSV pr sen = (ev, r, v) \<Longrightarrow> reports_ok ev sen (r \<noteq> 0)"
    and "lib_parse_GPVTG pr sen = (ev, r, g) \<Longrightarrow> reports_ok ev sen (r \<noteq> 0)"
  using assms
  by (auto simp: lib_parse_GPGSA_def lib_parse_GPGSV_def lib_parse_GPVTG_def reports_ok_def Let_def split: if_splits prod.splits)

lemma lib_parse_GPGGA_reports:
  assumes "trace_func pr" and "error_func pr" and "sen \<noteq> []" and "lib_parse_GPGGA pr stk sen = (ev, Inr (r, p))"
  shows "reports_ok ev sen (r \<noteq> 0)"
  using assms
  by (auto simp: lib_parse_GPGGA_def reports_ok_def Let_def split: if_splits prod.splits sum.splits
      dest: lib_parse_time_reports)

lemma lib_parse_GPRMC_reports:
  assumes "trace_func pr" and "error_func pr" and "sen \<noteq> []" and "lib_parse_GPRMC pr stk sen = (ev, Inr (r, p))"
  shows "reports_ok ev sen (r \<noteq> 0)"
  using assms
  by (auto simp: lib_parse_GPRMC_def reports_ok_def Let_def split: if_splits prod.splits sum.splits
      dest: lib_parse_time_reports)

definition known :: "frame list \<Rightarrow> frame list" where
  "known fs = filter (\<lambda>(pt, sen). pt \<noteq> GPNON) fs"

lemma lib_parse_packet_reports:
  assumes "trace_func pr" and "error_func pr" and "sen \<noteq> []" and "pt \<noteq> GPNON"
    and "lib_parse_packet pr stk pt sen = (ev, Inr res)"
  shows "\<exists>good pk. res = Some (good, pk) \<and> reports_ok ev sen good"
  using assms(4,5) lib_parse_plain_reports [OF assms(1-3)] lib_parse_GPGGA_reports [OF assms(1-3)]
    lib_parse_GPRMC_reports [OF assms(1-3)]
  by (cases pt) (fastforce simp: bindR_eq_Inr split: prod.splits)+

lemma frame_reports:
  assumes "trace_func pr" and "error_func pr"
  shows "frame_packets stk fs = Inr new \<Longrightarrow> \<forall>(pt, sen) \<in> set fs. sen \<noteq> [] \<Longrightarrow>
    traced (concat (map (\<lambda>(pt, sen). fst (lib_parse_packet pr stk pt sen)) fs)) = map snd (known fs) \<and>
    length new \<le> length (known fs) \<and>
    (filter is_error (concat (map (\<lambda>(pt, sen). fst (lib_parse_packet pr stk pt sen)) fs)) = [] \<longleftrightarrow>
      length new = length (known fs))"
proof (induction fs arbitrary: new)
  case (Cons f fs)
  obtain pt sen where f: "f = (pt, sen)" by (cases f)
  then have sen: "sen \<noteq> []" using Cons.prems(2) by auto
  obtain res new1 where res: "parse_packet stk pt sen = Inr res" and new1: "frame_packets stk fs = Inr new1"
      and new: "new = (case res of Some (True, pk) \<Rightarrow> pk # new1 | _ \<Rightarrow> new1)"
    using Cons.prems(1) f by (auto simp: bindR_eq_Inr)
  obtain ev where ev: "lib_parse_packet pr stk pt sen = (ev, Inr res)"
    using lib_parse_packet_agrees [of pr stk pt sen] res by (cases "lib_parse_packet pr stk pt sen") auto
  note IH = Cons.IH [OF new1] Cons.prems(2)
  show ?case
  proof (cases "pt = GPNON")
    case True
    then show ?thesis using IH res ev new f by (auto simp: known_def)
  next
    case False
    from lib_parse_packet_reports [OF assms sen False ev] obtain good pk where
      good: "res = Some (good, pk)" "reports_ok ev sen good" by blast
    then show ?thesis using IH ev new f False by (cases good) (auto simp: known_def reports_ok_def)
  qed
qed (simp add: known_def)

lemma split_stream_nonempty: "split_stream rest = (fs, left) \<Longrightarrow> \<forall>(pt, sen) \<in> set fs. sen \<noteq> []"
proof (induction rest arbitrary: fs left rule: split_stream.induct)
  case (1 rest)
  obtain n crc where tail: "nmea_find_tail rest = (n, crc)" by fastforce
  show ?case
  proof (cases "n = 0")
    case True
    then show ?thesis using 1(2) tail by (simp add: split_stream.simps [of rest])
  next
    case False
    obtain fs1 l where sp: "split_stream (drop n rest) = (fs1, l)" by fastforce
    have "rest \<noteq> []" using find_tail_bound [of rest] tail False by auto
    then show ?thesis
      using 1(2) 1(1) [OF refl tail [symmetric] False sp] tail False sp
      by (auto simp: split_stream.simps [of rest] split: if_splits)
  qed
qed

text \<open>With memory available the reports are those of the sentence parsers on the frames of the stream.\<close>

lemma lib_push_sentence_reports:
  "h_plan (snd s) = [] \<Longrightarrow> fst (lib_push_sentence pr stk pt sen s) = fst (lib_parse_packet pr stk pt sen)"
  by (cases s) (auto simp: lib_push_sentence_def new_node_def Let_def split_beta)

lemma push_sentence_plan:
  assumes "push_sentence stk pt sen s = Inr (ok, s')" and "h_plan (snd s) = []"
  shows "ok \<and> h_plan (snd s') = []"
proof -
  obtain p h where s: "s = (p, h)" by (cases s)
  obtain a h2 where n: "new_node \<lparr>nd_packType = GPNON, nd_pack = None, nd_next = None\<rparr> h = (a, h2)" by fastforce
  have plan: "h_plan h = []" "h_plan h2 = []" using assms(2) s n by (auto simp: new_node_def)
  note run = assms(1) [unfolded push_sentence_def s Let_def prod.case malloc_ok_empty [OF plan(1)] n malloc_ok_empty [OF plan(2)]]
  show ?thesis
  proof (cases "pt = GPNON")
    case True
    then show ?thesis using run plan by (auto simp: free_node_def)
  next
    case False
    then obtain res where res: "parse_packet stk pt sen = Inr res" using run by (auto simp: bindR_eq_Inr)
    then obtain good pk where pk: "res = Some (good, pk)" using parse_packet_None [of stk pt sen] False by (cases res) auto
    obtain b h4 where b: "new_pack pk h2 = (b, h4)" by fastforce
    have h4: "h_plan h4 = []" using b plan by (auto simp: new_pack_def)
    show ?thesis
    proof (cases good)
      case True
      then obtain s1 where "link_node a (p, h4\<lparr>h_nodes := fmupd a \<lparr>nd_packType = pt, nd_pack = Some b, nd_next = None\<rparr> (h_nodes h4)\<rparr>) = Inr s1"
          and "ok" "s' = s1"
        using run False res pk b by (auto simp: bindR_eq_Inr)
      then show ?thesis using link_node_plan h4 by fastforce
    next
      case False
      then show ?thesis using run \<open>pt \<noteq> GPNON\<close> res pk b h4 by (auto simp: free_node_def)
    qed
  qed
qed

lemma lib_push_loop_reports:
  "lib_push_loop pr stk n rest s = (ev, Inr res) \<Longrightarrow> h_plan (snd s) = [] \<Longrightarrow> split_stream rest = (fs, left) \<Longrightarrow>
    ev = concat (map (\<lambda>(pt, sen). fst (lib_parse_packet pr stk pt sen)) fs)"
proof (induction pr stk n rest s arbitrary: ev fs left rule: lib_push_loop.induct)
  case (1 pr stk n rest s)
  obtain sz crc where tail: "nmea_find_tail rest = (sz, crc)" by fastforce
  let ?pt = "nmea_pack_type (drop 1 rest)" and ?sen = "take sz rest"
  obtain fs1 l where sp: "split_stream (drop sz rest) = (fs1, l)" by fastforce
  note run = 1(3) [unfolded lib_push_loop.simps [of pr stk n rest s] tail Let_def prod.case]
  note fs = 1(5) [unfolded split_stream.simps [of rest] tail Let_def prod.case sp]
  show ?case
  proof (cases "sz = 0")
    case True
    then show ?thesis using run fs by simp
  next
    case sz: False
    show ?thesis
    proof (cases "0 \<le> crc")
      case False
      then show ?thesis using run fs sz 1(2) [OF refl tail [symmetric] sz False _ 1(4) sp] by simp
    next
      case True
      obtain ev1 q where sen: "lib_push_sentence pr stk ?pt ?sen s = (ev1, q)" by fastforce
      have ev1: "ev1 = fst (lib_parse_packet pr stk ?pt ?sen)"
        using lib_push_sentence_reports [OF 1(4), of pr stk ?pt ?sen] sen by simp
      obtain ok s1 where q: "q = Inr (ok, s1)" using run sz True sen by (cases q) auto
      have ok: "ok" "h_plan (snd s1) = []"
        using push_sentence_plan [OF _ 1(4), of stk ?pt ?sen ok s1]
          lib_push_sentence_agrees [of pr stk ?pt ?sen s] sen q by simp_all
      obtain ev2 where next2: "lib_push_loop pr stk (n + sz) (drop sz rest) s1 = (ev2, Inr res)" and "ev = ev1 @ ev2"
        using run sz True sen q ok by (cases "lib_push_loop pr stk (n + sz) (drop sz rest) s1") auto
      moreover have "ev2 = concat (map (\<lambda>(pt, sen). fst (lib_parse_packet pr stk pt sen)) fs1)"
        using 1(1) [OF refl tail [symmetric] sz True sen [unfolded q, symmetric] refl refl ok(1) next2 ok(2) sp] .
      ultimately show ?thesis using fs sz True by (auto simp: ev1)
    qed
  qed
qed

lemma lib_real_push_reports:
  assumes run: "lib_parser_real_push pr stk s buff = (ev, Inr (n, s'))" and r: "parser_rel s pend pks"
    and split: "split_stream (keep_pending (p_buff_size (fst s)) pend buff @ buff) = (fs, left)"
  shows "ev = concat (map (\<lambda>(pt, sen). fst (lib_parse_packet pr stk pt sen)) fs)"
proof -
  obtain p h where s: "s = (p, h)" by (cases s)
  obtain bytes where bytes: "p_buffer p = Some bytes" "length bytes = p_buff_size p" "p_buff_use p \<le> p_buff_size p"
    using r by (auto simp: parser_rel_def parser_ok_def s)
  have pend: "pend = take (p_buff_use p) bytes" "h_plan h = []"
    using r bytes(1) by (auto simp: parser_rel_def pending_def s)
  define p1 where "p1 = (if p_buff_use p + length buff \<ge> p_buff_size p then nmea_parser_buff_clear p else p)"
  have keep: "take (p_buff_use p1) bytes = keep_pending (p_buff_size p) pend buff"
    using bytes by (auto simp: p1_def nmea_parser_buff_clear_def keep_pending_def pend)
  note run1 = run [unfolded lib_parser_real_push_def s Let_def prod.case bytes(1) option.case, folded p1_def]
  have room: "p_buff_use p1 + length buff \<le> length bytes" using run1 by (auto split: if_splits)
  obtain ev1 q where loop: "lib_push_loop pr stk 0 (take (p_buff_use p1 + length buff) (splice bytes (p_buff_use p1) buff))
      (p1\<lparr>p_buffer := Some (splice bytes (p_buff_use p1) buff), p_buff_use := p_buff_use p1 + length buff\<rparr>, h) = (ev1, q)"
    by fastforce
  obtain res where "q = Inr res" and "ev1 = ev" using run1 room loop by (cases q) auto
  then show ?thesis
    using loop lib_push_loop_reports [where rest = "keep_pending (p_buff_size p) pend buff @ buff"] pend split
    by (simp add: s take_splice [OF room] keep)
qed

lemma lib_parse_agrees: "map_option snd (lib_parse pr stk s buff info) = nmea_parse stk s buff info"
  using lib_parser_push_agrees [of pr stk buff "length buff" 0 s]
  by (cases "lib_parser_push_loop pr stk buff (length buff) 0 s")
    (auto simp: lib_parse_def nmea_parse_def nmea_parser_push_def dest!: sym [of "Some _"] split: sum.splits)

subsection \<open>Properties\<close>

text \<open>C16: Up to what its callbacks report, \<open>nmea_parse\<close> of the library is the one that is modelled for the simulator: on every input
  and in every state, whichever callbacks are set, and for faults as well as for results.
\<close>

theorem library_agrees: "map_option snd (lib_parse pr stk s buff info) = nmea_parse stk s buff info"
  by (rule lib_parse_agrees)

text \<open>C17: With both callbacks set, one push of bytes traces exactly the frames of a known type that it completes, in
  their order, and queues the packets of the well-formed ones; the error callback stays silent if and only if
  each of them gives a packet.
\<close>

theorem library_reports:
  assumes "trace_func pr" and "error_func pr"
    and "parser_rel s pend pks" and "length buff \<le> p_buff_size (fst s)"
    and "split_stream ((if length pend + length buff < p_buff_size (fst s) then pend else []) @ buff) = (fs, left)"
    and "frame_packets stk fs = Inr new"
  shows "\<exists>ev n s'. lib_parser_real_push pr stk s buff = (ev, Inr (n, s')) \<and> parser_rel s' left (pks @ new) \<and>
    traced ev = map snd (filter (\<lambda>(pt, sen). pt \<noteq> GPNON) fs) \<and>
    (filter is_error ev = [] \<longleftrightarrow> length new = length (filter (\<lambda>(pt, sen). pt \<noteq> GPNON) fs))"
proof -
  note split = assms(5) [folded keep_pending_def]
  obtain n s' where push: "nmea_parser_real_push stk s buff = Inr (n, s')" "parser_rel s' left (pks @ new)"
    using real_push_rel [OF assms(3,4) split assms(6)] by blast
  obtain ev where ev: "lib_parser_real_push pr stk s buff = (ev, Inr (n, s'))"
    using lib_real_push_agrees [of pr stk s buff] push(1) by (cases "lib_parser_real_push pr stk s buff") auto
  have "ev = concat (map (\<lambda>(pt, sen). fst (lib_parse_packet pr stk pt sen)) fs)"
    by (rule lib_real_push_reports [OF ev assms(3) split])
  then show ?thesis
    using ev push(2) frame_reports [OF assms(1,2,6) split_stream_nonempty [OF split]] by (auto simp: known_def)
qed

definition loud :: nmeaPROPERTY where
  "loud = nmea_property\<lparr>trace_func := True, error_func := True\<rparr>"

theorem library_reports_witness:
  "\<exists>ev n s'. lib_parser_real_push loud (\<lambda>_. []) (demo_parser, empty_heap) vtg_line = (ev, Inr (n, s')) \<and>
    traced ev = [vtg_line] \<and> filter is_error ev = []"
proof -
  have "trace_func loud" "error_func loud" by (simp_all add: loud_def)
  from library_reports [OF this demo_rel _ _ vtg_line_frames, of vtg_line "[]" "\<lambda>_. []"] show ?thesis
    by (simp add: vtg_line_split demo_size vtg_line_len(1)) blast
qed

text \<open>
  The callback is told the length of the whole text, also when the buffer of 1024 bytes holds only its
  start: a text that is longer makes the callback read behind the buffer.
\<close>

lemma message_size:
  "trace_func pr \<Longrightarrow> NMEA_DEF_PARSEBUFF < length text \<Longrightarrow>
    \<exists>b n. nmea_trace pr text = [Trace_message b n] \<and> length b + 1 < NMEA_DEF_PARSEBUFF \<and> NMEA_DEF_PARSEBUFF < n"
  by (auto simp: nmea_trace_def NMEA_DEF_PARSEBUFF_def)

lemma message_size_witness:
  "\<exists>b n. nmea_trace loud (replicate 1025 CHR ''x'') = [Trace_message b n] \<and> NMEA_DEF_PARSEBUFF < n"
  using message_size [of loud "replicate 1025 CHR ''x''"] by (auto simp: loud_def NMEA_DEF_PARSEBUFF_def)

text \<open>The buffer has at least 256 bytes, whatever the property asks for.\<close>

lemma lib_parser_init_size:
  "malloc (nat (max (parse_buff_size pr) (int NMEA_MIN_PARSEBUFF))) = Some m \<Longrightarrow>
    \<exists>p. lib_parser_init pr malloc = ([], 1, p) \<and> p_buffer p = Some m \<and>
      p_buff_size p = nat (max (parse_buff_size pr) (int NMEA_MIN_PARSEBUFF))"
  by (auto simp: lib_parser_init_def Let_def max_def NMEA_MIN_PARSEBUFF_def)

end
