(* ===== verification/Nmea_Satellites.thy ===== *)
theory Nmea_Satellites
  imports Nmea_Sentence
begin

text \<open>
  The two satellite sentences.  Their formats are long runs of \<open>%d,\<close>, so the scanner is first
  shown to read such a run field by field; a GSV message with fewer than four satellites ends the
  run early, its last number being read together with the checksum that follows it.
\<close>

subsection \<open>Runs of integer fields\<close>

fun put_ds :: "nat \<Rightarrow> string list \<Rightarrow> (nat \<rightharpoonup> sval) \<Rightarrow> (nat \<rightharpoonup> sval)" where
  "put_ds j [] st = st"
| "put_ds j (f # fs) st = put_ds (Suc j) fs (put_conv j (CHR ''d'') f st)"

lemma put_ds_other: "k < j \<or> j + length fs \<le> k \<Longrightarrow> put_ds j fs st k = st k"
  by (induction j fs st rule: put_ds.induct) auto

lemma ld_int_put_ds:
  "st k = None \<Longrightarrow> j \<le> k \<Longrightarrow> k < j + length fs \<Longrightarrow>
   ld_int (put_ds j fs st) k = nmea_atoi (fs ! (k - j)) 10"
proof (induction j fs st rule: put_ds.induct)
  case (2 j f fs st)
  show ?case
  proof (cases "k = j")
    case True
    then have "put_ds (Suc j) fs (put_conv j (CHR ''d'') f st) k = put_conv j (CHR ''d'') f st k"
      by (simp add: put_ds_other)
    then show ?thesis
      using True 2 ld_put_conv(2) [of st j f] by (simp add: ld_int_def)
  next
    case False
    with 2 show ?thesis by (simp add: nth_Cons' Suc_diff_le)
  qed
qed simp

lemma ld_int_put_ds_other:
  "st k = None \<Longrightarrow> k < j \<or> j + length fs \<le> k \<Longrightarrow> ld_int (put_ds j fs st) k = 0"
  by (simp add: ld_int_def put_ds_other)

lemma ld_put_ds_outside:
  "k < j \<or> j + length fs \<le> k \<Longrightarrow> ld_chr (put_ds j fs st) k = ld_chr st k"
  "k < j \<or> j + length fs \<le> k \<Longrightarrow> ld_dbl (put_ds j fs st) k = ld_dbl st k"
  by (simp_all add: ld_chr_def ld_dbl_def put_ds_other)

definition dfmt :: "nat \<Rightarrow> string" where
  "dfmt m = concat (replicate m ''%d,'')"

definition drun :: "string list \<Rightarrow> string" where
  "drun fs = concat (map (\<lambda>f. f @ '','') fs)"

lemma scan_drun:
  "\<forall>f \<in> set fs. CHR '','' \<notin> set f \<Longrightarrow>
   \<exists>dg'. scan_loop (dfmt (length fs) @ fmt) NMEA_TOKS_COMPARE dg n
     (map Some [j..<j + length fs] @ args) (drun fs @ rest) st =
   scan_loop fmt NMEA_TOKS_COMPARE dg' (n + length fs) args rest (put_ds j fs st)"
proof (induction fs arbitrary: dg n j st)
  case Nil
  then show ?case by (auto simp: dfmt_def drun_def)
next
  case (Cons f fs)
  have "map Some [j..<j + length (f # fs)] = Some j # map Some [Suc j..<Suc j + length fs]"
    by (simp add: upt_conv_Cons del: upt_Suc)
  then have "scan_loop (dfmt (length (f # fs)) @ fmt) NMEA_TOKS_COMPARE dg n
      (map Some [j..<j + length (f # fs)] @ args) (drun (f # fs) @ rest) st =
    scan_loop (dfmt (length fs) @ fmt) NMEA_TOKS_COMPARE [] (Suc n)
      (map Some [Suc j..<Suc j + length fs] @ args) (drun fs @ rest) (put_conv j (CHR ''d'') f st)"
    using Cons.prems by (simp add: dfmt_def drun_def scan_field)
  with Cons.IH [of "[]" "Suc n" "Suc j" "put_conv j (CHR ''d'') f st"] Cons.prems show ?case by simp
qed

text \<open>The last field of a run that the sentence ends early takes the rest of the buffer.\<close>

lemma scan_last_open:
  assumes "CHR '','' \<notin> set fld" and "fld \<noteq> []"
  shows "scan_loop (CHR ''%'' # CHR ''d'' # CHR '','' # fmt) NMEA_TOKS_COMPARE dg n (Some t # args) fld st =
    (Suc n, put_conv t (CHR ''d'') fld st)"
  using assms
  by (simp add: scan_loop.simps(2) scan_token_def scan_store_field isdigit_def next_fmt_def memchr_def)

text \<open>Reading a number stops at the \<open>*\<close>.\<close>

lemma nmea_atoi_star:
  assumes "length f + length t + 1 < NMEA_CONVSTR_BUF"
  shows "nmea_atoi (f @ CHR ''*'' # t) 10 = nmea_atoi f 10"
proof -
  have star: "\<not> isspace (CHR ''*'')" "\<not> is_dig 10 (CHR ''*'')" by (simp_all add: cdefs)
  have sp: "dropWhile isspace (f @ CHR ''*'' # t) = dropWhile isspace f @ CHR ''*'' # t"
    using star by (induction f) auto
  have sg: "sign_of (x @ CHR ''*'' # t) = (fst (sign_of x), snd (sign_of x) @ CHR ''*'' # t)" for x
    by (cases x) simp_all
  have tw: "takeWhile (is_dig 10) (y @ CHR ''*'' # t) = takeWhile (is_dig 10) y" for y
    using star by (induction y) auto
  have sk: "skip_0x 10 x = x" for x by (cases "(10::int, x)" rule: skip_0x.cases) auto
  show ?thesis
    using assms by (simp add: nmea_atoi_def strtol_def sp sg tw sk split: prod.split)
qed

subsection \<open>GSV\<close>

lemma csv_snoc: "csv (fs @ [f]) = drun fs @ f"
proof (induction fs)
  case (Cons g fs)
  then show ?case by (cases fs) (auto simp: drun_def)
qed (simp add: drun_def)

lemma gsv_format:
  "''$GPGSV,%d,%d,%d,'' @ ''%d,%d,%d,%d,'' @ ''%d,%d,%d,%d,'' @ ''%d,%d,%d,%d,'' @ ''%d,%d,%d,%d*'' =
   ''$GPGSV,'' @ dfmt 18 @ ''%d*''"
  by (simp add: dfmt_def numeral_eq_Suc)

lemma dfmt_split: "m \<le> 18 \<Longrightarrow> dfmt 18 = dfmt m @ dfmt (18 - m)"
  by (simp add: dfmt_def flip: concat_append replicate_add)

lemma upt_19: "map Some [0, 1, 2, 3, 4, 5, 6, 7, 8, 9, 10, 11, 12, 13, 14, 15, 16, 17, 18::nat] =
  map Some [0..<19]"
  by (simp add: upt_rec)

lemma upt_split: "m < 19 \<Longrightarrow> map Some [0..<19] = map Some [0..<m] @ Some m # map Some [Suc m..<19]"
  by (metis (no_types, opaque_lifting) list.simps(9) map_append upt_conv_Cons upt_add_eq_append
      le_add_diff_inverse less_imp_le zero_le)

text \<open>The scanner on a GSV sentence of \<open>m + 1\<close> fields.\<close>

lemma scan_gsv:
  assumes "\<forall>f \<in> set (fs @ [f]). field_ok f" and "length fs = m" and "m \<le> 18"
    and "CHR '','' \<notin> set tail"
  shows "nmea_scanf (sentence ''GPGSV'' (fs @ [f]) tail)
      (''$GPGSV,%d,%d,%d,'' @ ''%d,%d,%d,%d,'' @ ''%d,%d,%d,%d,'' @ ''%d,%d,%d,%d,'' @ ''%d,%d,%d,%d*'')
      (map Some [0, 1, 2, 3, 4, 5, 6, 7, 8, 9, 10, 11, 12, 13, 14, 15, 16, 17, 18::nat]) =
    (Suc m, put_ds 0 (fs @ [if m = 18 then f else f @ CHR ''*'' # tail]) Map.empty)"
proof -
  have fo: "\<forall>f \<in> set fs. CHR '','' \<notin> set f" and f: "CHR '','' \<notin> set f" "CHR ''*'' \<notin> set f"
    using assms(1) by (auto simp: field_ok_def)
  have put: "put_ds 0 (fs @ [g]) st = put_conv m (CHR ''d'') g (put_ds 0 fs st)" for g st
  proof -
    have "put_ds j (fs @ [g]) st = put_conv (j + length fs) (CHR ''d'') g (put_ds j fs st)" for j
      by (induction j fs st rule: put_ds.induct) auto
    from this [of 0] show ?thesis using assms(2) by simp
  qed
  obtain dg where run: "scan_loop (dfmt (length fs) @ dfmt (18 - m) @ ''%d*'') NMEA_TOKS_COMPARE [] 0
      (map Some [0..<0 + length fs] @ Some m # map Some [Suc m..<19])
      (drun fs @ f @ CHR ''*'' # tail) Map.empty =
    scan_loop (dfmt (18 - m) @ ''%d*'') NMEA_TOKS_COMPARE dg (0 + length fs)
      (Some m # map Some [Suc m..<19]) (f @ CHR ''*'' # tail) (put_ds 0 fs Map.empty)"
    using scan_drun [OF fo] by blast
  have head: "nmea_scanf (sentence ''GPGSV'' (fs @ [f]) tail) (''$GPGSV,'' @ dfmt 18 @ ''%d*'')
      (map Some [0..<19]) =
    scan_loop (dfmt (18 - m) @ ''%d*'') NMEA_TOKS_COMPARE dg m (Some m # map Some [Suc m..<19])
      (f @ CHR ''*'' # tail) (put_ds 0 fs Map.empty)"
    using assms(2,3) run upt_split [of m]
    by (simp add: nmea_scanf_def sentence_def csv_snoc scan_lit dfmt_split [of m])
  show ?thesis
  proof (cases "m = 18")
    case True
    then show ?thesis
      unfolding gsv_format upt_19 head using f by (simp add: dfmt_def scan_field put)
  next
    case False
    then have "18 - m = Suc (17 - m)" using assms(3) by simp
    then have "dfmt (18 - m) = CHR ''%'' # CHR ''d'' # CHR '','' # dfmt (17 - m)"
      by (simp add: dfmt_def)
    then show ?thesis
      unfolding gsv_format upt_19 head using f False assms(4) by (simp add: scan_last_open put)
  qed
qed

text \<open>The number in a field of the reference sentence, zero where the sentence has no such field.\<close>

definition num_at :: "string list \<Rightarrow> nat \<Rightarrow> int" where
  "num_at fs k = (if k < length fs then nmea_atoi (fs ! k) 10 else 0)"

definition sat_at :: "string list \<Rightarrow> nat \<Rightarrow> nmea_satellite" where
  "sat_at fs k = \<lparr>sat_id = num_at fs k, sat_in_use = 0, sat_elv = num_at fs (k + 1),
                  sat_azimuth = num_at fs (k + 2), sat_sig = num_at fs (k + 3)\<rparr>"

lemma ld_int_gsv:
  assumes "length f + length tail + 1 < NMEA_CONVSTR_BUF"
  shows "ld_int (put_ds 0 (fs @ [if m = 18 then f else f @ CHR ''*'' # tail]) Map.empty) k =
    num_at (fs @ [f]) k"
proof (cases "k < Suc (length fs)")
  case True
  then show ?thesis
    using assms by (auto simp: ld_int_put_ds num_at_def nth_append nmea_atoi_star)
next
  case False
  then show ?thesis by (simp add: ld_int_put_ds_other num_at_def)
qed

text \<open>A GSV sentence with any number of fields up to nineteen is decoded field by field, a message
  with fewer than four satellites included (the slots it does not fill are zero); it is accepted
  exactly when it has the fields its message index and satellite count call for.\<close>

theorem gsv_correct:
  assumes "\<forall>x \<in> set (fs @ [f]). field_ok x" and "length fs \<le> 18" and "CHR '','' \<notin> set tail"
    and "length f + length tail + 1 < NMEA_CONVSTR_BUF"
  shows "nmea_parse_gsv (sentence ''GPGSV'' (fs @ [f]) tail) =
    (let gs = fs @ [f]; need = wrap32 (wrap32 (gsv_nsat (num_at gs 1) (num_at gs 2) * 4) + 3)
     in (if need \<le> int (length gs) then 1 else 0,
         \<lparr>gsv_pack_count = num_at gs 0, gsv_pack_index = num_at gs 1, gsv_sat_count = num_at gs 2,
          gsv_sat_data = map (sat_at gs) [3, 7, 11, 15]\<rparr>))"
  unfolding nmea_parse_gsv_def scan_gsv [OF assms(1) refl assms(2,3)]
  using assms(2,4) by (simp add: Let_def ld_int_gsv gsv_sat_def sat_at_def)

subsection \<open>GSA\<close>

lemma scan_gsa:
  assumes "char_ok f0" "field_ok f1" "field_ok p1" "field_ok p2" "field_ok p3" "field_ok p4"
    "field_ok p5" "field_ok p6" "field_ok p7" "field_ok p8" "field_ok p9" "field_ok p10"
    "field_ok p11" "field_ok p12" "field_ok g1" "field_ok g2" "field_ok g3"
  shows "nmea_scanf
      (sentence ''GPGSA'' [f0, f1, p1, p2, p3, p4, p5, p6, p7, p8, p9, p10, p11, p12, g1, g2, g3] tail)
      ''$GPGSA,%C,%d,%d,%d,%d,%d,%d,%d,%d,%d,%d,%d,%d,%d,%f,%f,%f*''
      (map Some [0, 1, 2, 3, 4, 5, 6, 7, 8, 9, 10, 11, 12, 13, 14, 15, 16::nat]) =
    (17, put_conv 16 (CHR ''f'') g3 (put_conv 15 (CHR ''f'') g2 (put_conv 14 (CHR ''f'') g1
         (put_ds 1 [f1, p1, p2, p3, p4, p5, p6, p7, p8, p9, p10, p11, p12]
           (put_conv 0 (CHR ''C'') f0 Map.empty)))))"
  using assms by (simp add: nmea_scanf_def sentence_def scan_steps fieldD eval_nat_numeral)

text \<open>A GSA sentence with its seventeen fields is decoded field by field and accepted.\<close>

theorem gsa_correct:
  assumes "char_ok f0" "field_ok f1" "field_ok p1" "field_ok p2" "field_ok p3" "field_ok p4"
    "field_ok p5" "field_ok p6" "field_ok p7" "field_ok p8" "field_ok p9" "field_ok p10"
    "field_ok p11" "field_ok p12" "field_ok g1" "field_ok g2" "field_ok g3"
  shows "nmea_parse_gsa
      (sentence ''GPGSA'' [f0, f1, p1, p2, p3, p4, p5, p6, p7, p8, p9, p10, p11, p12, g1, g2, g3] tail) =
    (1, \<lparr>gsa_fix_mode = chr_of f0, gsa_fix_type = nmea_atoi f1 10,
         gsa_sat_prn = map (\<lambda>p. nmea_atoi p 10) [p1, p2, p3, p4, p5, p6, p7, p8, p9, p10, p11, p12],
         gsa_PDOP = nmea_atof g1, gsa_HDOP = nmea_atof g2, gsa_VDOP = nmea_atof g3\<rparr>)"
  unfolding nmea_parse_gsa_def scan_gsa [OF assms]
  by (simp add: Let_def ld_int_put_ds ld_put_ds_outside put_ds_other del: put_ds.simps)

theorem gsv_correct_witness:
  "nmea_parse_gsv (sentence ''GPGSV'' ([''2'', ''2'', ''5'', ''07'', ''79'', ''048''] @ [''42'']) ''71'') =
   (1, \<lparr>gsv_pack_count = 2, gsv_pack_index = 2, gsv_sat_count = 5,
        gsv_sat_data = [\<lparr>sat_id = 7, sat_in_use = 0, sat_elv = 79, sat_azimuth = 48, sat_sig = 42\<rparr>,
                        zero_sat, zero_sat, zero_sat]\<rparr>)"
proof -
  let ?gs = "[''2'', ''2'', ''5'', ''07'', ''79'', ''048''] @ [''42'']"
  have n: "num_at ?gs 0 = 2" "num_at ?gs 1 = 2" "num_at ?gs 2 = 5" "num_at ?gs 3 = 7"
    "num_at ?gs 4 = 79" "num_at ?gs 5 = 48" "num_at ?gs 6 = 42"
    by (simp_all add: num_at_def) (simp_all add: cdefs)
  have z: "num_at ?gs k = 0" if "7 \<le> k" for k
    using that by (simp add: num_at_def)
  have "gsv_nsat 2 5 = 1" by (simp add: gsv_nsat_def wrap32_def)
  with gsv_correct [of "[''2'', ''2'', ''5'', ''07'', ''79'', ''048'']" "''42''" "''71''"] n z
  show ?thesis
    by (simp add: field_ok_def NMEA_CONVSTR_BUF_def Let_def sat_at_def wrap32_def zero_sat_def
        del: append_Cons append_Nil)
qed

theorem gsa_correct_witness:
  "nmea_parse_gsa (sentence ''GPGSA'' [''A'', ''3'', ''01'', ''20'', [], [], [], [], [], [], [], [], [],
      [], ''5.4'', ''4.5'', ''2.9''] ''3D'') =
   (1, \<lparr>gsa_fix_mode = CHR ''A'', gsa_fix_type = 3, gsa_sat_prn = [1, 20, 0, 0, 0, 0, 0, 0, 0, 0, 0, 0],
        gsa_PDOP = 5.4, gsa_HDOP = 4.5, gsa_VDOP = 2.9\<rparr>)"
  by (subst gsa_correct) (simp_all add: field_ok_def char_ok_def, simp_all add: cdefs chr_of_def)

end
