(* ===== verification/C_Format.thy ===== *)
theory C_Format
  imports Nmea_Prelude
begin

text \<open>
  The part of \<open>vsnprintf\<close> the sentence generator uses: literal text and conversions
  \<open>%[0][width][.precision]\<close> with \<open>d\<close>, \<open>f\<close>, \<open>x\<close>, \<open>c\<close> and \<open>C\<close>.  Numbers are written exactly;
  \<open>%f\<close> rounds to the nearest decimal of its precision, a tie to the even one.  Together with the
  reading functions of the prelude this gives the round trips number, text, number.
\<close>

subsection \<open>Digits\<close>

definition dig :: "nat \<Rightarrow> char" where
  "dig n = (if n < 10 then char_of (48 + n) else char_of (87 + n))"

text \<open>The digits of a number, at least one.\<close>

function digits :: "nat \<Rightarrow> nat \<Rightarrow> string" where
  "digits b n = (if n < b \<or> b < 2 then [dig n] else digits b (n div b) @ [dig (n mod b)])"
  by pat_completeness auto
termination
  by (relation "measure snd") (auto intro: div_less_dividend)

declare digits.simps [simp del]

text \<open>Zeros in front up to a width.\<close>

definition zpad :: "nat \<Rightarrow> string \<Rightarrow> string" where
  "zpad w s = replicate (w - length s) (CHR ''0'') @ s"

definition spad :: "nat \<Rightarrow> string \<Rightarrow> string" where
  "spad w s = replicate (w - length s) (CHR '' '') @ s"

definition with_sign :: "bool \<Rightarrow> bool \<Rightarrow> nat \<Rightarrow> string \<Rightarrow> string" where
  "with_sign neg zero w s =
     (let sg = (if neg then ''-'' else [])
      in if zero then sg @ zpad (w - length sg) s else spad w (sg @ s))"

definition fmt_int :: "bool \<Rightarrow> nat \<Rightarrow> int \<Rightarrow> string" where
  "fmt_int zero w n = with_sign (n < 0) zero w (digits 10 (nat \<bar>n\<bar>))"

text \<open>\<open>%x\<close> reads its argument as an unsigned 32-bit number.\<close>

definition fmt_hex :: "bool \<Rightarrow> nat \<Rightarrow> int \<Rightarrow> string" where
  "fmt_hex zero w n = with_sign False zero w (digits 16 (nat (n mod 2 ^ 32)))"

definition round_even :: "real \<Rightarrow> int" where
  "round_even x =
     (let k = \<lfloor>x\<rfloor>; d = x - of_int k
      in if d < 1 / 2 then k else if d > 1 / 2 then k + 1 else if even k then k else k + 1)"

text \<open>The decimal of precision \<open>p\<close> that \<open>%f\<close> writes, scaled by \<open>10 ^ p\<close>.\<close>

definition scaled :: "nat \<Rightarrow> real \<Rightarrow> nat" where
  "scaled p r = nat (round_even (\<bar>r\<bar> * 10 ^ p))"

definition fmt_dbl :: "bool \<Rightarrow> nat \<Rightarrow> nat \<Rightarrow> real \<Rightarrow> string" where
  "fmt_dbl zero w p r =
     (let m = scaled p r
      in with_sign (r < 0) zero w
           (digits 10 (m div 10 ^ p) @
            (if p = 0 then [] else CHR ''.'' # zpad p (digits 10 (m mod 10 ^ p)))))"

subsection \<open>The formatter\<close>

datatype parg = AInt int | ADbl real | AChr char

definition arg_int :: "parg \<Rightarrow> int" where
  "arg_int a = (case a of AInt i \<Rightarrow> i | AChr c \<Rightarrow> c_int c | ADbl r \<Rightarrow> 0)"

definition fmt_arg :: "bool \<Rightarrow> nat \<Rightarrow> nat option \<Rightarrow> char \<Rightarrow> parg \<Rightarrow> string" where
  "fmt_arg zero w prec conv a =
     (if conv = CHR ''d'' then fmt_int zero w (arg_int a)
      else if conv = CHR ''x'' then fmt_hex zero w (arg_int a)
      else if conv = CHR ''f'' then
        (case a of ADbl r \<Rightarrow> fmt_dbl zero w (case prec of None \<Rightarrow> 6 | Some p \<Rightarrow> p) r | _ \<Rightarrow> [])
      else (case a of AChr c \<Rightarrow> spad w [c] | _ \<Rightarrow> []))"

text \<open>
  One pass over the format.  The state says where in a conversion the pass is: in literal text, after
  \<open>%\<close>, in the width, or in the precision.
\<close>

datatype fmt_state = Lit | Flags | Width bool nat | Prec bool nat nat

definition num_of :: "char \<Rightarrow> nat" where
  "num_of c = of_char c - 48"

fun vformat :: "fmt_state \<Rightarrow> string \<Rightarrow> parg list \<Rightarrow> string" where
  "vformat st [] args = []"
| "vformat Lit (c # f) args =
     (if c = CHR ''%'' then vformat Flags f args else c # vformat Lit f args)"
| "vformat Flags (c # f) args =
     (if c = CHR ''0'' then vformat (Width True 0) f args
      else if isdigit c then vformat (Width False (num_of c)) f args
      else if c = CHR ''.'' then vformat (Prec False 0 0) f args
      else (case args of [] \<Rightarrow> [] | a # as \<Rightarrow> fmt_arg False 0 None c a @ vformat Lit f as))"
| "vformat (Width z w) (c # f) args =
     (if isdigit c then vformat (Width z (10 * w + num_of c)) f args
      else if c = CHR ''.'' then vformat (Prec z w 0) f args
      else (case args of [] \<Rightarrow> [] | a # as \<Rightarrow> fmt_arg z w None c a @ vformat Lit f as))"
| "vformat (Prec z w p) (c # f) args =
     (if isdigit c then vformat (Prec z w (10 * p + num_of c)) f args
      else (case args of [] \<Rightarrow> [] | a # as \<Rightarrow> fmt_arg z w (Some p) c a @ vformat Lit f as))"

definition c_format :: "string \<Rightarrow> parg list \<Rightarrow> string" where
  "c_format f args = vformat Lit f args"

text \<open>The conversions of the generator, taken as one step.\<close>

lemma vformat_conv:
  "vformat Lit (CHR ''%'' # CHR ''0'' # CHR ''2'' # CHR ''d'' # f) (a # as) =
     fmt_int True 2 (arg_int a) @ vformat Lit f as"
  "vformat Lit (CHR ''%'' # CHR ''0'' # CHR ''3'' # CHR ''d'' # f) (a # as) =
     fmt_int True 3 (arg_int a) @ vformat Lit f as"
  "vformat Lit (CHR ''%'' # CHR ''0'' # CHR ''4'' # CHR ''d'' # f) (a # as) =
     fmt_int True 4 (arg_int a) @ vformat Lit f as"
  "vformat Lit (CHR ''%'' # CHR ''1'' # CHR ''d'' # f) (a # as) =
     fmt_int False 1 (arg_int a) @ vformat Lit f as"
  "vformat Lit (CHR ''%'' # CHR ''0'' # CHR ''2'' # CHR ''x'' # f) (a # as) =
     fmt_hex True 2 (arg_int a) @ vformat Lit f as"
  "vformat Lit (CHR ''%'' # CHR ''.'' # CHR ''1'' # CHR ''f'' # f) (ADbl r # as) =
     fmt_dbl False 0 1 r @ vformat Lit f as"
  "vformat Lit (CHR ''%'' # CHR ''0'' # CHR ''3'' # CHR ''.'' # CHR ''1'' # CHR ''f'' # f) (ADbl r # as) =
     fmt_dbl True 3 1 r @ vformat Lit f as"
  "vformat Lit (CHR ''%'' # CHR ''0'' # CHR ''7'' # CHR ''.'' # CHR ''4'' # CHR ''f'' # f) (ADbl r # as) =
     fmt_dbl True 7 4 r @ vformat Lit f as"
  "vformat Lit (CHR ''%'' # CHR ''C'' # f) (AChr c # as) = c # vformat Lit f as"
  by (simp_all add: isdigit_def num_of_def fmt_arg_def spad_def) (simp_all add: numeral_2_eq_2)

lemma vformat_lit:
  "c \<noteq> CHR ''%'' \<Longrightarrow> vformat Lit (c # f) args = c # vformat Lit f args"
  "vformat Lit [] args = []"
  by simp_all

lemmas format_steps = c_format_def vformat_conv vformat_lit

subsection \<open>Reading back what was written\<close>

lemma dig_cases:
  assumes "n < 10"
  shows "dig n \<in> set ''0123456789''"
proof -
  have "\<forall>n \<in> set [0..<10]. dig n \<in> set ''0123456789''" by code_simp
  with assms show ?thesis by auto
qed

lemma dval_dig: "n < 10 \<Longrightarrow> dval (dig n) = int n"
proof -
  assume n: "n < 10"
  then have "(of_char (char_of (48 + n)) :: int) = 48 + int n"
    using of_nat_of_char [of "char_of (48 + n)", where 'a = int] by simp
  with n show "dval (dig n) = int n" by (simp add: dig_def dval_def digit_val_def Let_def)
qed

lemma isdigit_dig: "n < 10 \<Longrightarrow> isdigit (dig n)"
  using dig_cases by (simp add: isdigit_def)

lemma digits_isdigit: "c \<in> set (digits 10 n) \<Longrightarrow> isdigit c"
  by (induction "10::nat" n rule: digits.induct)
     (subst (asm) (2) digits.simps, auto simp: isdigit_dig split: if_splits)

lemma digits_val_append:
  "digits_val r (a @ b) = digits_val r a * r ^ length b + digits_val r b"
proof (induction b rule: rev_induct)
  case (snoc c b)
  have "digits_val r (x @ [c]) = digits_val r x * r + dval c" for x
    by (simp add: digits_val_def)
  from this [of "a @ b"] this [of b] snoc show ?case by (simp add: algebra_simps)
qed (simp add: digits_val_def)

lemma digits_val_digits: "digits_val 10 (digits 10 n) = int n"
proof (induction "10::nat" n rule: digits.induct)
  case (1 n)
  show ?case
  proof (cases "n < 10")
    case True
    then show ?thesis by (subst digits.simps) (simp add: digits_val_def dval_dig)
  next
    case False
    have one: "digits_val 10 [dig (n mod 10)] = int (n mod 10)" by (simp add: digits_val_def dval_dig)
    have "digits 10 n = digits 10 (n div 10) @ [dig (n mod 10)]"
      using False by (subst digits.simps) simp
    then have "digits_val 10 (digits 10 n) = int (n div 10) * 10 + int (n mod 10)"
      using 1 False one by (simp add: digits_val_append)
    also have "\<dots> = int n" by (metis div_mult_mod_eq of_nat_add of_nat_mult of_nat_numeral)
    finally show ?thesis .
  qed
qed

lemma digits_val_zeros: "digits_val 10 (replicate k (CHR ''0'') @ s) = digits_val 10 s"
proof -
  have "digits_val 10 (replicate k (CHR ''0'')) = 0"
    by (induction k) (simp_all add: digits_val_def dval_def digit_val_def)
  then show ?thesis by (simp add: digits_val_append)
qed

lemma digits_length: "n < 10 ^ k \<Longrightarrow> 0 < k \<Longrightarrow> length (digits 10 n) \<le> k"
proof (induction k arbitrary: n)
  case (Suc k)
  show ?case
  proof (cases "n < 10")
    case True
    then show ?thesis by (subst digits.simps) simp
  next
    case False
    with Suc.prems have "n div 10 < 10 ^ k" "0 < k"
      by (auto simp: less_mult_imp_div_less mult.commute intro: gr0I)
    from Suc.IH [OF this] False show ?thesis by (subst digits.simps) simp
  qed
qed simp

lemma digits_nonempty [simp]: "digits b n \<noteq> []"
  by (subst digits.simps) simp

lemma isdigit_facts:
  assumes "isdigit c"
  shows "\<not> isspace c" "c \<noteq> CHR ''-''" "c \<noteq> CHR ''+''" "is_dig 10 c" "c \<noteq> CHR '',''" "c \<noteq> CHR ''*''"
    "c \<noteq> CHR ''$''" "c \<noteq> CHR ''.''" "c \<noteq> NUL" "0 \<le> c_int c"
  using assms by (auto simp: isdigit_def isspace_def is_dig_def digit_val_def c_int_def)

lemma is_dig_10: "is_dig 10 = isdigit"
proof
  fix c show "is_dig 10 c = isdigit c"
  proof
    assume "is_dig 10 c"
    then have "48 \<le> int (of_char c) \<and> int (of_char c) \<le> 57"
      by (auto simp: is_dig_def digit_val_def Let_def of_nat_of_char split: if_splits)
    then have "48 \<le> (of_char c :: nat) \<and> (of_char c :: nat) \<le> 57" by linarith
    then have "c \<in> char_of ` set [48..<58::nat]"
      by (intro image_eqI [of _ _ "of_char c"]) (simp_all only: set_upt atLeastLessThan_iff char_of_char, simp)
    moreover have "\<forall>k \<in> set [48..<58::nat]. isdigit (char_of k)" by code_simp
    ultimately show "isdigit c" by (auto simp del: set_upt)
  qed (rule isdigit_facts(4))
qed

text \<open>The shape of a written number: blanks, a sign, digits.\<close>

definition num_text :: "string \<Rightarrow> bool \<Rightarrow> string \<Rightarrow> bool" where
  "num_text s neg ds \<longleftrightarrow> (\<exists>k. s = replicate k (CHR '' '') @ (if neg then ''-'' else []) @ ds)"

lemma num_text_with_sign:
  assumes "\<forall>c \<in> set (take 1 ds). isdigit c"
  shows "\<exists>k. num_text (with_sign neg zero w ds) neg (replicate k (CHR ''0'') @ ds)"
proof (cases zero)
  case True
  then show ?thesis unfolding num_text_def with_sign_def zpad_def Let_def
    by (intro exI [of _ "w - length (if neg then ''-'' else []) - length ds"] exI [of _ "0::nat"]) auto
next
  case False
  then show ?thesis unfolding num_text_def with_sign_def spad_def Let_def
    by (intro exI [of _ "0::nat"] exI [of _ "w - length ((if neg then ''-'' else []) @ ds)"]) auto
qed

lemma num_text_prefix:
  assumes "num_text s neg ds" and "ds \<noteq> []" and "isdigit (hd ds)"
  shows "sign_of (dropWhile isspace s) = (if neg then - 1 else 1, ds)"
proof -
  from assms(1) obtain k where s: "s = replicate k (CHR '' '') @ (if neg then ''-'' else []) @ ds"
    by (auto simp: num_text_def)
  have "isspace (CHR '' '')" "\<not> isspace (CHR ''-'')" by (simp_all add: isspace_def)
  then have "dropWhile isspace s = (if neg then ''-'' else []) @ ds"
    using assms(2,3) by (cases ds) (auto simp: s dropWhile_append isdigit_facts)
  then show ?thesis using assms(2,3) by (cases ds) (auto simp: isdigit_facts)
qed

lemma digits_hd: "isdigit (hd (replicate k (CHR ''0'') @ digits 10 n @ t))"
proof (cases k)
  case 0
  have "hd (digits 10 n) \<in> set (digits 10 n)" by simp
  then have "isdigit (hd (digits 10 n))" by (rule digits_isdigit)
  with 0 show ?thesis by simp
qed (simp add: isdigit_def)

lemma takeWhile_isdigit_zeros:
  "takeWhile isdigit (replicate k (CHR ''0'') @ digits 10 n @ t) =
     replicate k (CHR ''0'') @ digits 10 n @ takeWhile isdigit t"
  "dropWhile isdigit (replicate k (CHR ''0'') @ digits 10 n @ t) = dropWhile isdigit t"
  using digits_isdigit [of _ n]
  by (auto simp: takeWhile_append dropWhile_append isdigit_def)

text \<open>An integer that was written reads back as itself.\<close>

lemma strtol_fmt_int:
  assumes "int_ok n"
  shows "strtol (fmt_int zero w n) 10 = n"
proof -
  let ?ds = "digits 10 (nat \<bar>n\<bar>)"
  have "\<forall>c \<in> set (take 1 ?ds). isdigit c" using digits_isdigit by (meson in_set_takeD)
  from num_text_with_sign [OF this] obtain k where
    k: "num_text (fmt_int zero w n) (n < 0) (replicate k (CHR ''0'') @ ?ds)"
    unfolding fmt_int_def by blast
  have tw: "takeWhile isdigit (replicate k (CHR ''0'') @ ?ds) = replicate k (CHR ''0'') @ ?ds"
    using takeWhile_isdigit_zeros(1) [of k _ "[]"] by simp
  have "sign_of (dropWhile isspace (fmt_int zero w n)) = (if n < 0 then - 1 else 1, replicate k (CHR ''0'') @ ?ds)"
    using num_text_prefix [OF k] digits_hd [of k _ "[]"] by simp
  then show ?thesis
    using assms
    by (auto simp: strtol_def is_dig_10 tw digits_val_zeros digits_val_digits int_ok_def)
qed

text \<open>A fraction that was written reads back rounded to its precision.\<close>

definition rounded :: "nat \<Rightarrow> real \<Rightarrow> real" where
  "rounded p r = (if r < 0 then - 1 else 1) * real (scaled p r) / 10 ^ p"

lemma strtod_fmt_dbl:
  assumes "0 < p"
  shows "strtod (fmt_dbl zero w p r) = rounded p r"
proof -
  define m where "m = scaled p r"
  define fr where "fr = zpad p (digits 10 (m mod 10 ^ p))"
  let ?ip = "digits 10 (m div 10 ^ p)"
  have lf: "length fr = p"
    using digits_length [of "m mod 10 ^ p" p] assms by (simp add: fr_def zpad_def)
  have z: "isdigit (CHR ''0'')" by (simp add: isdigit_def)
  have fd: "\<forall>c \<in> set fr. isdigit c"
    by (auto simp: fr_def zpad_def z intro: digits_isdigit)
  then have tf: "takeWhile isdigit fr = fr" "dropWhile isdigit fr = []"
    by (simp_all add: takeWhile_eq_all_conv)
  have "\<forall>c \<in> set (take 1 (?ip @ CHR ''.'' # fr)). isdigit c"
    using digits_isdigit [of _ "m div 10 ^ p"] by (cases ?ip) auto
  from num_text_with_sign [OF this, of "r < 0" zero w] obtain k where
    k: "num_text (fmt_dbl zero w p r) (r < 0) (replicate k (CHR ''0'') @ ?ip @ CHR ''.'' # fr)"
    using assms unfolding fmt_dbl_def m_def [symmetric] fr_def [symmetric] Let_def by auto
  have sg: "sign_of (dropWhile isspace (fmt_dbl zero w p r)) =
      (if r < 0 then - 1 else 1, replicate k (CHR ''0'') @ ?ip @ CHR ''.'' # fr)"
    using num_text_prefix [OF k] digits_hd by simp
  have nd: "\<not> isdigit (CHR ''.'')" by (simp add: isdigit_def)
  have "digits_val 10 fr = int (m mod 10 ^ p)"
    by (simp add: fr_def zpad_def digits_val_zeros digits_val_digits)
  then have "digits_val 10 (replicate k (CHR ''0'') @ ?ip @ fr) = int (m div 10 ^ p) * 10 ^ p + int (m mod 10 ^ p)"
    unfolding digits_val_zeros digits_val_append [of _ ?ip] digits_val_digits lf by simp
  also have "\<dots> = int (m div 10 ^ p * 10 ^ p + m mod 10 ^ p)" by simp
  also have "\<dots> = int m" by (simp only: div_mult_mod_eq)
  finally show ?thesis
    using nd assms by (auto simp: strtod_def sg takeWhile_isdigit_zeros tf lf strtod_exp_def scale10_def
        rounded_def m_def Let_def)
qed

subsection \<open>The characters and the length of written numbers\<close>

definition num_char :: "char \<Rightarrow> bool" where
  "num_char c \<longleftrightarrow> isdigit c \<or> c = CHR ''-'' \<or> c = CHR '' '' \<or> c = CHR ''.''"

lemma num_char_with_sign: "\<forall>c \<in> set s. num_char c \<Longrightarrow> \<forall>c \<in> set (with_sign neg zero w s). num_char c"
proof -
  have "num_char (CHR ''-'')" "num_char (CHR '' '')" "num_char (CHR ''0'')"
    by (simp_all add: num_char_def isdigit_def)
  then show "\<forall>c \<in> set s. num_char c \<Longrightarrow> \<forall>c \<in> set (with_sign neg zero w s). num_char c"
    by (auto simp: with_sign_def zpad_def spad_def Let_def)
qed

lemma num_char_digits: "c \<in> set (digits 10 n) \<Longrightarrow> num_char c"
  by (simp add: num_char_def digits_isdigit)

lemma num_char_fmt_int: "c \<in> set (fmt_int zero w n) \<Longrightarrow> num_char c"
  using num_char_with_sign [of "digits 10 (nat \<bar>n\<bar>)"] num_char_digits
  by (auto simp: fmt_int_def)

lemma num_char_fmt_dbl: "c \<in> set (fmt_dbl zero w p r) \<Longrightarrow> num_char c"
proof -
  have "num_char (CHR ''.'')" "num_char (CHR ''0'')" by (simp_all add: num_char_def isdigit_def)
  then have "\<forall>c \<in> set (digits 10 a @ (if p = 0 then [] else CHR ''.'' # zpad p (digits 10 b))). num_char c" for a b
    by (auto simp: zpad_def num_char_digits)
  from num_char_with_sign [OF this] show "c \<in> set (fmt_dbl zero w p r) \<Longrightarrow> num_char c"
    by (simp add: fmt_dbl_def Let_def)
qed

lemma num_char_facts:
  assumes "num_char c"
  shows "c \<noteq> CHR '',''" "c \<noteq> CHR ''*''" "c \<noteq> CHR ''$''" "c \<noteq> NUL" "0 \<le> c_int c"
proof -
  consider "isdigit c" | "c \<in> {CHR ''-'', CHR '' '', CHR ''.''}" using assms by (auto simp: num_char_def)
  then have "c \<noteq> CHR '','' \<and> c \<noteq> CHR ''*'' \<and> c \<noteq> CHR ''$'' \<and> c \<noteq> NUL \<and> 0 \<le> c_int c"
    by cases (simp add: isdigit_facts, auto simp: c_int_def)
  then show "c \<noteq> CHR '',''" "c \<noteq> CHR ''*''" "c \<noteq> CHR ''$''" "c \<noteq> NUL" "0 \<le> c_int c" by simp_all
qed

lemma length_with_sign: "length (with_sign neg zero w s) \<le> max w (Suc (length s))"
  by (auto simp: with_sign_def zpad_def spad_def Let_def)

lemma length_fmt_int:
  assumes "int_ok n"
  shows "length (fmt_int zero w n) \<le> max w 11"
proof -
  have "nat \<bar>n\<bar> < 10 ^ 10" using assms by (auto simp: int_ok_def)
  from digits_length [OF this] length_with_sign [of "n < 0" zero w "digits 10 (nat \<bar>n\<bar>)"]
  show ?thesis unfolding fmt_int_def by linarith
qed

lemma length_fmt_dbl:
  assumes "scaled p r < 10 ^ (p + k)" and "0 < p" and "0 < k"
  shows "length (fmt_dbl zero w p r) \<le> max w (k + p + 2)"
proof -
  let ?m = "scaled p r"
  have "?m div 10 ^ p < 10 ^ k"
    using assms(1) by (simp add: less_mult_imp_div_less power_add mult.commute)
  from digits_length [OF this assms(3)] have a: "length (digits 10 (?m div 10 ^ p)) \<le> k" .
  have "length (zpad p (digits 10 (?m mod 10 ^ p))) = p"
    using digits_length [of "?m mod 10 ^ p" p] assms(2) by (simp add: zpad_def)
  with a have "length (digits 10 (?m div 10 ^ p) @ CHR ''.'' # zpad p (digits 10 (?m mod 10 ^ p))) \<le> k + p + 1"
    by simp
  with length_with_sign [of "r < 0" zero w
      "digits 10 (?m div 10 ^ p) @ CHR ''.'' # zpad p (digits 10 (?m mod 10 ^ p))"]
  have "length (with_sign (r < 0) zero w
      (digits 10 (?m div 10 ^ p) @ CHR ''.'' # zpad p (digits 10 (?m mod 10 ^ p)))) \<le> max w (k + p + 2)"
    by linarith
  then show ?thesis using assms(2) by (simp add: fmt_dbl_def Let_def)
qed

text \<open>A number that already is a decimal of the precision is written exactly.\<close>

lemma rounded_exact: "r = of_int k / 10 ^ p \<Longrightarrow> rounded p r = r"
proof -
  assume r: "r = of_int k / 10 ^ p"
  have "\<bar>r\<bar> * 10 ^ p = of_int \<bar>k\<bar>" by (simp add: r)
  moreover have "round_even (of_int j) = j" for j by (simp add: round_even_def)
  ultimately have "scaled p r = nat \<bar>k\<bar>" by (simp add: scaled_def del: of_int_abs)
  moreover have "r < 0 \<longleftrightarrow> k < 0" by (simp add: r divide_less_0_iff)
  ultimately show "rounded p r = r" by (simp add: rounded_def r)
qed

end
