(* ===== verification/Nmea_Generate.thy ===== *)
theory Nmea_Generate
  imports Nmea_Satellites C_Format "HOL-Library.Signed_Division"
begin

text \<open>
  Writing sentences (\<open>nmealib\<close>: \<open>tok.c\<close>, \<open>sentence.c\<close>, \<open>generate.c\<close>): the checksum, \<open>nmea_printf\<close>
  which formats a sentence and appends its checksum, one writer per sentence, the conversions from
  the summary to the packets, and \<open>nmea_generate\<close> which writes the sentences of a mask one after the
  other.

  A buffer is the list of its bytes; \<open>mem\<close> stands for the bytes from \<open>buff\<close> on, \<open>buff_sz\<close> of them.
  \<open>now\<close> is what \<open>nmea_time_now\<close> reads from the clock.
\<close>

subsection \<open>Checksum and formatting\<close>

definition nmea_calc_crc :: "string \<Rightarrow> int" where
  "nmea_calc_crc buff = foldl (\<lambda>chsum c. chsum XOR c_int c) 0 buff"

text \<open>\<open>snprintf(buff + i, n, ...)\<close> of a text: at most \<open>n - 1\<close> bytes and a terminator.\<close>

definition snprintf_at :: "string \<Rightarrow> nat \<Rightarrow> nat \<Rightarrow> string \<Rightarrow> string" where
  "snprintf_at mem i n text = (if n = 0 then mem else splice mem i (take (n - 1) text @ [NUL]))"

text \<open>
  \<open>buff_sz - retval\<close> is passed as a size: when the text is longer than the buffer the difference is
  negative, the size enormous and the tail is written behind the buffer.
\<close>

definition nmea_printf :: "string \<Rightarrow> string \<Rightarrow> parg list \<Rightarrow> (nat \<times> string) result" where
  "nmea_printf mem format args =
     (let buff_sz = length mem
      in if buff_sz = 0 then Inr (0, mem)
         else
           (let text = c_format format args;
                retval = length text;
                mem1 = snprintf_at mem 0 buff_sz text
            in if retval = 0 then Inr (0, mem1)
               else if buff_sz < retval then Inl Buffer_overflow
               else
                 (let crc = nmea_calc_crc (take (retval - 1) (drop 1 mem1));
                      tl_text = c_format (''*%02x'' @ [CR, LF]) [AInt crc];
                      mem2 = snprintf_at mem1 retval (buff_sz - retval) tl_text;
                      retval' = retval + length tl_text
                  in if retval' > buff_sz then Inr (buff_sz, replicate buff_sz (CHR '' ''))
                     else Inr (retval', mem2))))"

subsection \<open>Empty packets\<close>

definition nmea_zero_GPGGA :: "nmea_time \<Rightarrow> nmea_gga" where
  "nmea_zero_GPGGA now =
     \<lparr>gga_utc = now, gga_lat = 0, gga_ns = CHR ''N'', gga_lon = 0, gga_ew = CHR ''E'', gga_sig = 0,
      gga_satinuse = 0, gga_HDOP = 0, gga_elv = 0, gga_elv_units = CHR ''M'', gga_diff = 0,
      gga_diff_units = CHR ''M'', gga_dgps_age = 0, gga_dgps_sid = 0\<rparr>"

definition nmea_zero_GPGSA :: nmea_gsa where
  "nmea_zero_GPGSA =
     \<lparr>gsa_fix_mode = CHR ''A'', gsa_fix_type = 1, gsa_sat_prn = replicate NMEA_MAXSAT 0,
      gsa_PDOP = 0, gsa_HDOP = 0, gsa_VDOP = 0\<rparr>"

definition nmea_zero_GPGSV :: nmea_gsv where
  "nmea_zero_GPGSV =
     \<lparr>gsv_pack_count = 0, gsv_pack_index = 0, gsv_sat_count = 0,
      gsv_sat_data = replicate NMEA_SATINPACK zero_sat\<rparr>"

definition nmea_zero_GPRMC :: "nmea_time \<Rightarrow> nmea_rmc" where
  "nmea_zero_GPRMC now =
     \<lparr>rmc_utc = now, rmc_status = CHR ''V'', rmc_lat = 0, rmc_ns = CHR ''N'', rmc_lon = 0,
      rmc_ew = CHR ''E'', rmc_speed = 0, rmc_direction = 0, rmc_declination = 0,
      rmc_declin_ew = CHR ''E'', rmc_mode = NUL\<rparr>"

definition nmea_zero_GPVTG :: nmea_vtg where
  "nmea_zero_GPVTG =
     \<lparr>vtg_dir = 0, vtg_dir_t = CHR ''T'', vtg_dec = 0, vtg_dec_m = CHR ''M'', vtg_spn = 0,
      vtg_spn_n = CHR ''N'', vtg_spk = 0, vtg_spk_k = CHR ''K''\<rparr>"

subsection \<open>Writing one sentence\<close>

definition nmea_gen_GPGGA :: "string \<Rightarrow> nmea_gga \<Rightarrow> (nat \<times> string) result" where
  "nmea_gen_GPGGA mem pack =
     nmea_printf mem
       ''$GPGGA,%02d%02d%02d.%02d,%07.4f,%C,%07.4f,%C,%1d,%02d,%03.1f,%03.1f,%C,%03.1f,%C,%03.1f,%04d''
       [AInt (t_hour (gga_utc pack)), AInt (t_min (gga_utc pack)), AInt (t_sec (gga_utc pack)),
        AInt (t_hsec (gga_utc pack)), ADbl (gga_lat pack), AChr (gga_ns pack), ADbl (gga_lon pack),
        AChr (gga_ew pack), AInt (gga_sig pack), AInt (gga_satinuse pack), ADbl (gga_HDOP pack),
        ADbl (gga_elv pack), AChr (gga_elv_units pack), ADbl (gga_diff pack),
        AChr (gga_diff_units pack), ADbl (gga_dgps_age pack), AInt (gga_dgps_sid pack)]"

definition nmea_gen_GPGSA :: "string \<Rightarrow> nmea_gsa \<Rightarrow> (nat \<times> string) result" where
  "nmea_gen_GPGSA mem pack =
     nmea_printf mem
       ''$GPGSA,%C,%1d,%02d,%02d,%02d,%02d,%02d,%02d,%02d,%02d,%02d,%02d,%02d,%02d,%03.1f,%03.1f,%03.1f''
       ([AChr (gsa_fix_mode pack), AInt (gsa_fix_type pack)] @ map AInt (gsa_sat_prn pack) @
        [ADbl (gsa_PDOP pack), ADbl (gsa_HDOP pack), ADbl (gsa_VDOP pack)])"

definition gsv_args :: "nmea_satellite \<Rightarrow> parg list" where
  "gsv_args s = [AInt (sat_id s), AInt (sat_elv s), AInt (sat_azimuth s), AInt (sat_sig s)]"

definition nmea_gen_GPGSV :: "string \<Rightarrow> nmea_gsv \<Rightarrow> (nat \<times> string) result" where
  "nmea_gen_GPGSV mem pack =
     nmea_printf mem
       (''$GPGSV,%1d,%1d,%02d,'' @ ''%02d,%02d,%03d,%02d,'' @ ''%02d,%02d,%03d,%02d,'' @
        ''%02d,%02d,%03d,%02d,'' @ ''%02d,%02d,%03d,%02d'')
       ([AInt (gsv_pack_count pack), AInt (wrap32 (gsv_pack_index pack + 1)), AInt (gsv_sat_count pack)] @
        concat (map gsv_args (gsv_sat_data pack)))"

definition nmea_gen_GPRMC :: "string \<Rightarrow> nmea_rmc \<Rightarrow> (nat \<times> string) result" where
  "nmea_gen_GPRMC mem pack =
     nmea_printf mem
       ''$GPRMC,%02d%02d%02d.%02d,%C,%07.4f,%C,%07.4f,%C,%03.1f,%03.1f,%02d%02d%02d,%03.1f,%C,%C''
       [AInt (t_hour (rmc_utc pack)), AInt (t_min (rmc_utc pack)), AInt (t_sec (rmc_utc pack)),
        AInt (t_hsec (rmc_utc pack)), AChr (rmc_status pack), ADbl (rmc_lat pack),
        AChr (rmc_ns pack), ADbl (rmc_lon pack), AChr (rmc_ew pack), ADbl (rmc_speed pack),
        ADbl (rmc_direction pack), AInt (t_day (rmc_utc pack)),
        AInt (wrap32 (t_mon (rmc_utc pack) + 1)), AInt (wrap32 (t_year (rmc_utc pack) - 100)),
        ADbl (rmc_declination pack), AChr (rmc_declin_ew pack), AChr (rmc_mode pack)]"

definition nmea_gen_GPVTG :: "string \<Rightarrow> nmea_vtg \<Rightarrow> (nat \<times> string) result" where
  "nmea_gen_GPVTG mem pack =
     nmea_printf mem ''$GPVTG,%.1f,%C,%.1f,%C,%.1f,%C,%.1f,%C''
       [ADbl (vtg_dir pack), AChr (vtg_dir_t pack), ADbl (vtg_dec pack), AChr (vtg_dec_m pack),
        ADbl (vtg_spn pack), AChr (vtg_spn_n pack), ADbl (vtg_spk pack), AChr (vtg_spk_k pack)]"

subsection \<open>From the summary to the packets\<close>


definition nmea_info2GPGGA :: "nmea_time \<Rightarrow> nmea_info \<Rightarrow> nmea_gga" where
  "nmea_info2GPGGA now info = (nmea_zero_GPGGA now)
     \<lparr>gga_utc := in_utc info, gga_lat := \<bar>in_lat info\<bar>,
      gga_ns := (if in_lat info > 0 then CHR ''N'' else CHR ''S''),
      gga_lon := \<bar>in_lon info\<bar>, gga_ew := (if in_lon info > 0 then CHR ''E'' else CHR ''W''),
      gga_sig := in_sig info, gga_satinuse := si_inuse (in_satinfo info),
      gga_HDOP := in_HDOP info, gga_elv := in_elv info\<rparr>"

definition nmea_info2GPGSA :: "nmea_info \<Rightarrow> nmea_gsa" where
  "nmea_info2GPGSA info = nmea_zero_GPGSA
     \<lparr>gsa_fix_type := in_fix info, gsa_PDOP := in_PDOP info, gsa_HDOP := in_HDOP info,
      gsa_VDOP := in_VDOP info,
      gsa_sat_prn := map (\<lambda>s. if sat_in_use s \<noteq> 0 then sat_id s else 0) (si_sat (in_satinfo info))\<rparr>"

definition nmea_gsv_npack :: "int \<Rightarrow> int" where
  "nmea_gsv_npack sat_count =
     (let pack_count = \<lceil>real_of_int sat_count / real NMEA_SATINPACK\<rceil>
      in if 0 = pack_count then 1 else pack_count)"

definition nmea_info2GPGSV :: "nmea_info \<Rightarrow> int \<Rightarrow> nmea_gsv result" where
  "nmea_info2GPGSV info pack_idx =
     (let inview = si_inview (in_satinfo info);
          sat_count = (if inview \<le> int NMEA_MAXSAT then inview else int NMEA_MAXSAT);
          pc = nmea_gsv_npack sat_count;
          pack_count = (if pc = 0 then 1 else pc);
          pack_index = (if pack_idx \<ge> pack_count then pack_idx smod pack_count else pack_idx);
          sit = pack_index * int NMEA_SATINPACK;
          sats = si_sat (in_satinfo info)
      in if sit < 0 \<or> nat sit + NMEA_SATINPACK > length sats then Inl Out_of_bounds
         else Inr \<lparr>gsv_pack_count = pack_count, gsv_pack_index = pack_index, gsv_sat_count = sat_count,
                   gsv_sat_data = take NMEA_SATINPACK (drop (nat sit) sats)\<rparr>)"

definition nmea_info2GPRMC :: "nmea_time \<Rightarrow> nmea_info \<Rightarrow> nmea_rmc" where
  "nmea_info2GPRMC now info = (nmea_zero_GPRMC now)
     \<lparr>rmc_utc := in_utc info, rmc_status := (if in_sig info > 0 then CHR ''A'' else CHR ''V''),
      rmc_lat := \<bar>in_lat info\<bar>, rmc_ns := (if in_lat info > 0 then CHR ''N'' else CHR ''S''),
      rmc_lon := \<bar>in_lon info\<bar>, rmc_ew := (if in_lon info > 0 then CHR ''E'' else CHR ''W''),
      rmc_speed := in_speed info / NMEA_TUD_KNOTS, rmc_direction := in_direction info,
      rmc_declination := in_declination info, rmc_declin_ew := CHR ''E'',
      rmc_mode := (if in_sig info > 0 then CHR ''A'' else CHR ''N'')\<rparr>"

definition nmea_info2GPVTG :: "nmea_info \<Rightarrow> nmea_vtg" where
  "nmea_info2GPVTG info = nmea_zero_GPVTG
     \<lparr>vtg_dir := in_direction info, vtg_dec := in_declination info,
      vtg_spn := in_speed info / NMEA_TUD_KNOTS, vtg_spk := in_speed info\<rparr>"

subsection \<open>All sentences of a mask\<close>

text \<open>A writer applied to \<open>buff + gen_count\<close>.\<close>

definition gen_at :: "(string \<Rightarrow> (nat \<times> string) result) \<Rightarrow> nat \<times> string \<Rightarrow> (nat \<times> string) result" where
  "gen_at w s = (case s of (gen_count, mem) \<Rightarrow>
     bindR (w (drop gen_count mem)) (\<lambda>(n, m). Inr (gen_count + n, take gen_count mem @ m)))"

text \<open>The inner loop over the GSV messages; \<open>k\<close> counts the remaining ones.\<close>

fun gen_gsv_loop :: "nmea_info \<Rightarrow> int \<Rightarrow> nat \<Rightarrow> nat \<times> string \<Rightarrow> (nat \<times> string) result" where
  "gen_gsv_loop info gsv_it 0 s = Inr s"
| "gen_gsv_loop info gsv_it (Suc k) s =
     (if length (snd s) - fst s > 0 then
        bindR (nmea_info2GPGSV info gsv_it)
          (\<lambda>gsv. bindR (gen_at (\<lambda>m. nmea_gen_GPGSV m gsv) s) (gen_gsv_loop info (gsv_it + 1) k))
      else Inr s)"

definition gen_count_bits :: "int \<Rightarrow> nat" where
  "gen_count_bits m = card {k. k < 5 \<and> bit m k}"

lemma gen_count_bits_less:
  assumes "bit m k" and "k < 5"
  shows "gen_count_bits (m AND NOT (2 ^ k)) < gen_count_bits m"
proof -
  have "{j. j < 5 \<and> bit (m AND NOT (2 ^ k)) j} \<subset> {j. j < 5 \<and> bit m j}"
    using assms by (auto simp: bit_simps)
  then show ?thesis unfolding gen_count_bits_def by (intro psubset_card_mono) auto
qed

lemma mask_step:
  "m AND 1 \<noteq> 0 \<Longrightarrow> gen_count_bits (m AND NOT 1) < gen_count_bits m"
  "m AND 2 \<noteq> 0 \<Longrightarrow> gen_count_bits (m AND NOT 2) < gen_count_bits m"
  "m AND 4 \<noteq> 0 \<Longrightarrow> gen_count_bits (m AND NOT 4) < gen_count_bits m"
  "m AND 8 \<noteq> 0 \<Longrightarrow> gen_count_bits (m AND NOT 8) < gen_count_bits m"
  "m AND 16 \<noteq> 0 \<Longrightarrow> gen_count_bits (m AND NOT 16) < gen_count_bits m"
proof -
  have b: "m AND 2 ^ k \<noteq> 0 \<longleftrightarrow> bit m k" for k
    by (simp add: and_exp_eq_0_iff_not_bit)
  show "m AND 1 \<noteq> 0 \<Longrightarrow> gen_count_bits (m AND NOT 1) < gen_count_bits m"
    using b [of 0] gen_count_bits_less [of m 0] by simp
  show "m AND 2 \<noteq> 0 \<Longrightarrow> gen_count_bits (m AND NOT 2) < gen_count_bits m"
    using b [of 1] gen_count_bits_less [of m 1] by simp
  show "m AND 4 \<noteq> 0 \<Longrightarrow> gen_count_bits (m AND NOT 4) < gen_count_bits m"
    using b [of 2] gen_count_bits_less [of m 2] by simp
  show "m AND 8 \<noteq> 0 \<Longrightarrow> gen_count_bits (m AND NOT 8) < gen_count_bits m"
    using b [of 3] gen_count_bits_less [of m 3] by simp
  show "m AND 16 \<noteq> 0 \<Longrightarrow> gen_count_bits (m AND NOT 16) < gen_count_bits m"
    using b [of 4] gen_count_bits_less [of m 4] by simp
qed

text \<open>The body of \<open>while(pack_mask)\<close>: the sentence written and the mask left, \<open>None\<close> for the final \<open>break\<close>.\<close>

definition gen_step ::
    "nmea_time \<Rightarrow> nmea_info \<Rightarrow> int \<Rightarrow> ((nat \<times> string \<Rightarrow> (nat \<times> string) result) \<times> int) option" where
  "gen_step now info pack_mask =
     (if pack_mask AND pack_bit GPGGA \<noteq> 0 then
        Some (gen_at (\<lambda>m. nmea_gen_GPGGA m (nmea_info2GPGGA now info)), pack_mask AND NOT (pack_bit GPGGA))
      else if pack_mask AND pack_bit GPGSA \<noteq> 0 then
        Some (gen_at (\<lambda>m. nmea_gen_GPGSA m (nmea_info2GPGSA info)), pack_mask AND NOT (pack_bit GPGSA))
      else if pack_mask AND pack_bit GPGSV \<noteq> 0 then
        Some (gen_gsv_loop info 0 (nat (nmea_gsv_npack (si_inview (in_satinfo info)))),
              pack_mask AND NOT (pack_bit GPGSV))
      else if pack_mask AND pack_bit GPRMC \<noteq> 0 then
        Some (gen_at (\<lambda>m. nmea_gen_GPRMC m (nmea_info2GPRMC now info)), pack_mask AND NOT (pack_bit GPRMC))
      else if pack_mask AND pack_bit GPVTG \<noteq> 0 then
        Some (gen_at (\<lambda>m. nmea_gen_GPVTG m (nmea_info2GPVTG info)), pack_mask AND NOT (pack_bit GPVTG))
      else None)"

function gen_loop :: "nmea_time \<Rightarrow> nmea_info \<Rightarrow> int \<Rightarrow> nat \<times> string \<Rightarrow> (nat \<times> string) result" where
  "gen_loop now info pack_mask s =
     (if pack_mask = 0 then Inr s
      else
        (case gen_step now info pack_mask of
           None \<Rightarrow> Inr s
         | Some (w, mask') \<Rightarrow>
             bindR (w s)
               (\<lambda>s'. if length (snd s') - fst s' = 0 then Inr s' else gen_loop now info mask' s')))"
  by pat_completeness auto
termination
  by (relation "measure (\<lambda>(now, info, m, s). gen_count_bits m)")
     (auto simp: gen_step_def mask_step mask_step [simplified] split: if_splits)

declare gen_loop.simps [simp del]

definition nmea_generate :: "nmea_time \<Rightarrow> string option \<Rightarrow> nmea_info \<Rightarrow> int \<Rightarrow> (nat \<times> string option) result" where
  "nmea_generate now buff info generate_mask =
     (case buff of
        None \<Rightarrow> Inr (0, None)
      | Some mem \<Rightarrow> bindR (gen_loop now info generate_mask (0, mem)) (\<lambda>(n, m). Inr (n, Some m)))"

subsection \<open>The checksum in the text\<close>

lemma nmea_calc_crc_xor: "nmea_calc_crc buff = xor_sum 0 buff"
  by (simp add: nmea_calc_crc_def xor_sum_def)

definition ascii :: "string \<Rightarrow> bool" where
  "ascii s \<longleftrightarrow> (\<forall>c \<in> set s. 0 \<le> c_int c)"

lemma ascii_simps [simp]:
  "ascii []" "ascii (c # s) \<longleftrightarrow> 0 \<le> c_int c \<and> ascii s" "ascii (s @ t) \<longleftrightarrow> ascii s \<and> ascii t"
  by (auto simp: ascii_def)

lemma xor_sum_range:
  assumes "ascii s" and "0 \<le> a" and "a < 128"
  shows "0 \<le> xor_sum a s \<and> xor_sum a s < 128"
  using assms
proof (induction s arbitrary: a)
  case (Cons c s)
  have c: "0 \<le> c_int c" "c_int c < 128" using Cons.prems(1) c_int_range [of c] by auto
  have "a XOR c_int c < 2 ^ 7" using Cons.prems(2,3) c by (intro XOR_upper) auto
  moreover have "0 \<le> a XOR c_int c" using Cons.prems(2) c by simp
  ultimately show ?case using Cons by simp
qed simp

lemma hex_digit: "k < 16 \<Longrightarrow> is_dig 16 (dig k) \<and> dval (dig k) = int k \<and> \<not> isspace (dig k) \<and>
  dig k \<noteq> CHR ''-'' \<and> dig k \<noteq> CHR ''+'' \<and> dig k \<noteq> CHR ''x'' \<and> dig k \<noteq> CHR ''X''"
proof -
  assume k: "k < 16"
  have v: "(of_char (dig k) :: int) = (if k < 10 then 48 + int k else 87 + int k)"
    using k of_nat_of_char [of "dig k", where 'a = int] by (cases "k < 10") (simp_all add: dig_def)
  have ne: "c \<noteq> dig k" if "(of_char c :: int) < 48 \<or> (of_char c :: int) \<in> {88, 120}" for c
    using that v k by (auto split: if_splits)
  have "\<not> isspace (dig k)"
    using ne [of "CHR '' ''"] ne [of "CHR 0x09"] ne [of LF] ne [of "CHR 0x0B"] ne [of "CHR 0x0C"] ne [of CR]
    by (simp add: isspace_def eq_commute [of "dig k"])
  moreover have "digit_val (dig k) = Some (int k)"
    using k v by (simp add: digit_val_def Let_def)
  ultimately show ?thesis
    using k ne [of "CHR ''-''"] ne [of "CHR ''+''"] ne [of "CHR ''x''"] ne [of "CHR ''X''"]
    by (simp add: is_dig_def dval_def eq_commute [of "dig k"])
qed

text \<open>Two hexadecimal digits read back as the number.\<close>

lemma hex_text:
  assumes "0 \<le> n" and "n < 256"
  shows "c_format (''*%02x'' @ [CR, LF]) [AInt n] =
      [CHR ''*'', dig (nat n div 16), dig (nat n mod 16), CR, LF]"
    and "nmea_atoi [dig (nat n div 16), dig (nat n mod 16)] 16 = n"
proof -
  obtain m where m: "n = int m" "m < 256" using assms nonneg_int_cases by (metis int_ops(3) nat_less_iff nat_int of_nat_less_iff of_nat_numeral)
  have "fmt_hex True 2 n = [dig (m div 16), dig (m mod 16)]"
  proof (cases "m < 16")
    case True
    moreover have "dig 0 = CHR ''0''" by code_simp
    ultimately show ?thesis
      using m by (simp add: fmt_hex_def with_sign_def zpad_def digits.simps numeral_2_eq_2)
  next
    case False
    with m have "digits 16 m = [dig (m div 16), dig (m mod 16)]"
      by (simp add: digits.simps [of _ m] digits.simps [of _ "m div 16"])
    then show ?thesis using m by (simp add: fmt_hex_def with_sign_def zpad_def)
  qed
  then show "c_format (''*%02x'' @ [CR, LF]) [AInt n] =
      [CHR ''*'', dig (nat n div 16), dig (nat n mod 16), CR, LF]"
    using m by (simp add: format_steps arg_int_def del: vformat.simps)
  have d: "m div 16 < 16" "m mod 16 < 16" using m by auto
  have "int (m div 16) * 16 + int (m mod 16) = int m"
    by (metis div_mult_mod_eq of_nat_add of_nat_mult of_nat_numeral)
  then show "nmea_atoi [dig (nat n div 16), dig (nat n mod 16)] 16 = n"
    using m hex_digit [OF d(1)] hex_digit [OF d(2)]
    by (simp add: nmea_atoi_def NMEA_CONVSTR_BUF_def strtol_def digits_val_def)
qed

text \<open>What \<open>nmea_printf\<close> leaves in the buffer when text and tail fit.\<close>

definition tail_text :: "string \<Rightarrow> string" where
  "tail_text body = [CHR ''*'', dig (nat (nmea_calc_crc body) div 16),
     dig (nat (nmea_calc_crc body) mod 16), CR, LF]"

lemma printf_text:
  assumes "c_format format args = c # body" and "ascii body" and "length body + 6 \<le> length mem"
  shows "nmea_printf mem format args = Inr (length body + 6,
    c # body @ take (length mem - (length body + 2)) (tail_text body) @ NUL # drop (length body + 7) mem)"
proof -
  define crc where "crc = nmea_calc_crc body"
  have crc: "0 \<le> crc" "crc < 256"
    using xor_sum_range [OF assms(2), of 0] by (auto simp: crc_def nmea_calc_crc_xor)
  have m1: "snprintf_at mem 0 (length mem) (c # body) = c # body @ NUL # drop (length body + 2) mem"
    using assms(3) by (auto simp: snprintf_at_def splice_def)
  have rd: "take (length (c # body) - 1) (drop 1 (c # body @ NUL # drop (length body + 2) mem)) = body" by simp
  have room: "length mem - length (c # body) = Suc (length mem - (length body + 2))" using assms(3) by simp
  have "drop (length (take n (tail_text body))) (drop (length body + 2) mem) = drop (length body + 7) mem"
    if n: "n = length mem - (length body + 2)" for n
  proof (cases "5 \<le> n")
    case True
    then have "min (length (tail_text body)) n + (length body + 2) = length body + 7"
      by (simp add: tail_text_def)
    then show ?thesis by (simp add: add.commute)
  next
    case False
    then have "length mem \<le> length body + 6" "n = 4" using n assms(3) by simp_all
    then show ?thesis by (simp add: tail_text_def)
  qed
  then have "snprintf_at (c # body @ NUL # drop (length body + 2) mem) (length (c # body))
      (length mem - length (c # body)) (tail_text body) =
    c # body @ take (length mem - (length body + 2)) (tail_text body) @ NUL # drop (length body + 7) mem"
    unfolding room by (simp add: snprintf_at_def splice_def)
  then show ?thesis
    using assms(1,3) m1 rd hex_text(1) [OF crc]
    by (auto simp: nmea_printf_def crc_def tail_text_def Let_def)
qed

text \<open>A text that fits with its tail is written with \<open>*\<close>, the two checksum digits and CR LF, and
  the scanner of the parser recognises exactly these bytes as one sentence with that checksum.\<close>

theorem printf_frames:
  assumes "c_format format args = c # body" and "plain body" and "c \<noteq> CHR ''*''" and "ascii body"
    and "length body + 7 \<le> length mem"
  shows "\<exists>out. nmea_printf mem format args = Inr (length body + 6, out) \<and>
    length out = length mem \<and> take (length body + 1) out = c # body \<and>
    nmea_find_tail out = (length body + 6, nmea_calc_crc body)"
proof -
  have crc: "0 \<le> nmea_calc_crc body" "nmea_calc_crc body < 256"
    using xor_sum_range [OF assms(4), of 0] by (auto simp: nmea_calc_crc_xor)
  have "take (length mem - (length body + 2)) (tail_text body) = tail_text body"
    using assms(5) by (simp add: tail_text_def)
  with printf_text [OF assms(1,4), of mem] assms(5) show ?thesis
    using find_tail_sentence [OF assms(2,3), of "dig (nat (nmea_calc_crc body) div 16)"
        "dig (nat (nmea_calc_crc body) mod 16)"] hex_text(2) [OF crc] crc
    by (simp add: tail_text_def nmea_calc_crc_xor)
qed

text \<open>A text that leaves room for its tail but not for the terminator of \<open>snprintf\<close> is reported
  as written in full although its last byte, the line feed, is missing.\<close>

theorem printf_exact_fit:
  assumes "c_format format args = c # body" and "plain body" and "c \<noteq> CHR ''*''" and "ascii body"
    and "length mem = length body + 6"
  shows "\<exists>out. nmea_printf mem format args = Inr (length mem, out) \<and> last out = NUL \<and>
    nmea_find_tail out = (0, - 1)"
proof -
  define out where "out = c # body @ take 4 (tail_text body) @ [NUL]"
  have "nmea_printf mem format args = Inr (length mem, out)"
    using printf_text [OF assms(1,4), of mem] assms(5) by (simp add: out_def)
  moreover have "take 4 (tail_text body) = [CHR ''*'', dig (nat (nmea_calc_crc body) div 16),
     dig (nat (nmea_calc_crc body) mod 16), CR]" by (simp add: tail_text_def)
  then have "nmea_find_tail out = (0, - 1)" "last out = NUL"
    using assms(2,3) by (simp_all add: out_def find_tail_plain)
  ultimately show ?thesis by blast
qed

text \<open>A text longer than the buffer makes \<open>nmea_printf\<close> write behind the buffer.\<close>

theorem printf_overflow:
  assumes "mem \<noteq> []" and "length (c_format format args) > length mem"
  shows "nmea_printf mem format args = Inl Buffer_overflow"
  using assms by (auto simp: nmea_printf_def Let_def)

theorem printf_frames_witness:
  "\<exists>out. nmea_printf (replicate 20 NUL) ''$%C,%02d'' [AChr (CHR ''A''), AInt 7] = Inr (length ''A,07'' + 6, out) \<and>
    length out = length (replicate 20 NUL) \<and> take (length ''A,07'' + 1) out = ''$A,07'' \<and>
    nmea_find_tail out = (length ''A,07'' + 6, nmea_calc_crc ''A,07'')"
proof -
  have "c_format ''$%C,%02d'' [AChr (CHR ''A''), AInt 7] = CHR ''$'' # ''A,07''"
    by (simp add: format_steps arg_int_def del: vformat.simps) code_simp
  from printf_frames [OF this, of "replicate 20 NUL"] show ?thesis by (simp add: c_int_def)
qed

theorem printf_exact_fit_witness:
  "\<exists>out. nmea_printf (replicate 10 NUL) ''$%C,%02d'' [AChr (CHR ''A''), AInt 7] = Inr (10, out) \<and>
    last out = NUL \<and> nmea_find_tail out = (0, - 1)"
proof -
  have "c_format ''$%C,%02d'' [AChr (CHR ''A''), AInt 7] = CHR ''$'' # ''A,07''"
    by (simp add: format_steps arg_int_def del: vformat.simps) code_simp
  from printf_exact_fit [OF this, of "replicate 10 NUL"] show ?thesis by (simp add: c_int_def)
qed

theorem printf_overflow_witness:
  "nmea_printf (replicate 4 NUL) ''$GPXYZ'' [] = Inl Buffer_overflow"
  by (rule printf_overflow) (simp_all add: c_format_def)

end
