(* ===== verification/Nmea_Gmath.thy ===== *)
theory Nmea_Gmath
  imports Nmea_Types "HOL-Library.Monad_Syntax"
begin

text \<open>
  Geographic mathematics of \<open>nmealib\<close> (\<open>gmath.c\<close>): degree formats, dilution of precision, distance and
  movement on the sphere and on the ellipsoid.  Doubles are reals and the functions of \<open>math.h\<close> their
  mathematical counterparts; what is not a real number there is \<open>None\<close>: \<open>asin\<close> outside its domain and a
  quotient whose divisor is zero.  \<open>tan\<close> of a latitude is meant for points that are not a pole.  Loops
  bounded by \<open>remaining_steps\<close> are recursions on that counter.
\<close>

subsection \<open>Constants and the C functions\<close>

definition NMEA_PI :: real where "NMEA_PI = 3.141592653589793"
definition NMEA_PI180 :: real where "NMEA_PI180 = NMEA_PI / 180"
definition NMEA_EARTHRADIUS_KM :: real where "NMEA_EARTHRADIUS_KM = 6378"
definition NMEA_EARTHRADIUS_M :: real where "NMEA_EARTHRADIUS_M = NMEA_EARTHRADIUS_KM * 1000"
definition NMEA_EARTH_SEMIMAJORAXIS_M :: real where "NMEA_EARTH_SEMIMAJORAXIS_M = 6378137.0"
definition NMEA_EARTH_FLATTENING :: real where "NMEA_EARTH_FLATTENING = 1 / 298.257223563"
definition NMEA_DOP_FACTOR :: real where "NMEA_DOP_FACTOR = 5"

record nmeaPOS =
  pos_lat :: real
  pos_lon :: real

text \<open>The integral part, as \<open>modf\<close> gives it.\<close>

definition c_trunc :: "real \<Rightarrow> real" where
  "c_trunc x = (if 0 \<le> x then of_int \<lfloor>x\<rfloor> else of_int \<lceil>x\<rceil>)"

text \<open>Conversion of a \<open>double\<close> to the 32 bits of \<open>int\<close> cuts towards zero.  C does not define it for a value that does not fit; the
  conversions of the Arm targets saturate then, and so does the model.\<close>

definition to_int :: "real \<Rightarrow> int" where
  "to_int x = max INT_MIN (min INT_MAX (if 0 \<le> x then \<lfloor>x\<rfloor> else \<lceil>x\<rceil>))"

lemma to_int_ok [simp]: "int_ok (to_int x)"
  by (simp add: to_int_def int_ok_def)

lemma to_int_trunc: "\<bar>x\<bar> \<le> of_int INT_MAX \<Longrightarrow> of_int (to_int x) = c_trunc x"
proof -
  assume x: "\<bar>x\<bar> \<le> of_int INT_MAX"
  define t where "t = (if 0 \<le> x then \<lfloor>x\<rfloor> else \<lceil>x\<rceil>)"
  have "INT_MIN \<le> t \<and> t \<le> INT_MAX" using x by (auto simp: t_def abs_if le_ceiling_iff floor_le_iff)
  then have "to_int x = t" by (simp add: to_int_def t_def)
  then show ?thesis by (simp add: t_def c_trunc_def)
qed

definition atan2 :: "real \<Rightarrow> real \<Rightarrow> real" where
  "atan2 y x =
     (if x > 0 then arctan (y / x)
      else if x < 0 then (if y \<ge> 0 then arctan (y / x) + pi else arctan (y / x) - pi)
      else if y > 0 then pi / 2 else if y < 0 then - (pi / 2) else 0)"

definition c_asin :: "real \<Rightarrow> real option" where
  "c_asin x = (if - 1 \<le> x \<and> x \<le> 1 then Some (arcsin x) else None)"

definition c_div :: "real \<Rightarrow> real \<Rightarrow> real option" where
  "c_div y x = (if x = 0 then None else Some (y / x))"

subsection \<open>Degrees\<close>

definition nmea_degree2radian :: "real \<Rightarrow> real" where
  "nmea_degree2radian v = v * NMEA_PI180"

definition nmea_radian2degree :: "real \<Rightarrow> real" where
  "nmea_radian2degree v = v / NMEA_PI180"

definition nmea_ndeg2degree :: "real \<Rightarrow> real" where
  "nmea_ndeg2degree v = (let deg = of_int (to_int (v / 100)) in deg + (v - deg * 100) / 60)"

definition nmea_degree2ndeg :: "real \<Rightarrow> real" where
  "nmea_degree2ndeg v = (let int_part = c_trunc v; fra_part = v - int_part in int_part * 100 + fra_part * 60)"

definition nmea_ndeg2radian :: "real \<Rightarrow> real" where
  "nmea_ndeg2radian v = nmea_degree2radian (nmea_ndeg2degree v)"

definition nmea_radian2ndeg :: "real \<Rightarrow> real" where
  "nmea_radian2ndeg v = nmea_degree2ndeg (nmea_radian2degree v)"

definition nmea_calc_pdop :: "real \<Rightarrow> real \<Rightarrow> real" where
  "nmea_calc_pdop hdop vdop = sqrt (hdop ^ 2 + vdop ^ 2)"

definition nmea_dop2meters :: "real \<Rightarrow> real" where
  "nmea_dop2meters dop = dop * NMEA_DOP_FACTOR"

definition nmea_meters2dop :: "real \<Rightarrow> real" where
  "nmea_meters2dop meters = meters / NMEA_DOP_FACTOR"

definition nmea_info2pos :: "nmea_info \<Rightarrow> nmeaPOS" where
  "nmea_info2pos info = \<lparr>pos_lat = nmea_ndeg2radian (in_lat info), pos_lon = nmea_ndeg2radian (in_lon info)\<rparr>"

definition nmea_pos2info :: "nmeaPOS \<Rightarrow> nmea_info \<Rightarrow> nmea_info" where
  "nmea_pos2info pos info =
     info\<lparr>in_lat := nmea_radian2ndeg (pos_lat pos), in_lon := nmea_radian2ndeg (pos_lon pos)\<rparr>"

subsection \<open>On the sphere\<close>

definition nmea_distance :: "nmeaPOS \<Rightarrow> nmeaPOS \<Rightarrow> real" where
  "nmea_distance from_pos to_pos =
     NMEA_EARTHRADIUS_M * arccos
       (sin (pos_lat to_pos) * sin (pos_lat from_pos) +
        cos (pos_lat to_pos) * cos (pos_lat from_pos) * cos (pos_lon to_pos - pos_lon from_pos))"

definition nmea_move_horz :: "nmeaPOS \<Rightarrow> real \<Rightarrow> real \<Rightarrow> int \<times> nmeaPOS" where
  "nmea_move_horz start_pos azimuth0 distance0 =
     (let p1 = start_pos;
          distance = distance0 / NMEA_EARTHRADIUS_KM;
          azimuth = nmea_degree2radian azimuth0
      in case c_asin (sin (pos_lat p1) * cos distance + cos (pos_lat p1) * sin distance * cos azimuth) of
           None \<Rightarrow> (0, \<lparr>pos_lat = 0, pos_lon = 0\<rparr>)
         | Some lat \<Rightarrow>
             (1, \<lparr>pos_lat = lat,
                  pos_lon = pos_lon p1 +
                    atan2 (sin azimuth * sin distance * cos (pos_lat p1))
                          (cos distance - sin (pos_lat p1) * sin lat)\<rparr>))"

subsection \<open>On the ellipsoid\<close>

text \<open>The variables the iteration of \<open>nmea_distance_ellipsoid\<close> carries.\<close>

record ell_state =
  el_sigma :: real
  el_sin_sigma :: real
  el_cos_sigma :: real
  el_cos_2_sigmam :: real
  el_sqr_cos_2_sigmam :: real
  el_sqr_cos_alpha :: real
  el_lambda :: real
  el_sin_lambda :: real
  el_cos_lambda :: real
  el_delta_lambda :: real

definition ell_step :: "real \<Rightarrow> real \<Rightarrow> real \<Rightarrow> real \<Rightarrow> real \<Rightarrow> real \<Rightarrow> ell_state \<Rightarrow> ell_state option" where
  "ell_step f L sin_U1 cos_U1 sin_U2 cos_U2 st =
     (let tmp1 = cos_U2 * el_sin_lambda st;
          tmp2 = cos_U1 * sin_U2 - sin_U1 * cos_U2 * el_cos_lambda st;
          sin_sigma = sqrt (tmp1 * tmp1 + tmp2 * tmp2);
          cos_sigma = sin_U1 * sin_U2 + cos_U1 * cos_U2 * el_cos_lambda st
      in do {
        sin_alpha \<leftarrow> c_div (cos_U1 * cos_U2 * el_sin_lambda st) sin_sigma;
        asin_alpha \<leftarrow> c_asin sin_alpha;
        let cos_alpha = cos asin_alpha;
        let sqr_cos_alpha = cos_alpha * cos_alpha;
        q \<leftarrow> c_div (2 * sin_U1 * sin_U2) sqr_cos_alpha;
        let cos_2_sigmam = cos_sigma - q;
        let sqr_cos_2_sigmam = cos_2_sigmam * cos_2_sigmam;
        let C = f / 16 * sqr_cos_alpha * (4 + f * (4 - 3 * sqr_cos_alpha));
        let lambda_prev = el_lambda st;
        sigma \<leftarrow> c_asin sin_sigma;
        let lambda = L + (1 - C) * f * sin_alpha *
          (sigma + C * sin_sigma * (cos_2_sigmam + C * cos_sigma * (- 1 + 2 * sqr_cos_2_sigmam)));
        let d = lambda_prev - lambda;
        Some \<lparr>el_sigma = sigma, el_sin_sigma = sin_sigma, el_cos_sigma = cos_sigma,
          el_cos_2_sigmam = cos_2_sigmam, el_sqr_cos_2_sigmam = sqr_cos_2_sigmam,
          el_sqr_cos_alpha = sqr_cos_alpha, el_lambda = lambda, el_sin_lambda = sin lambda,
          el_cos_lambda = cos lambda, el_delta_lambda = (if d < 0 then - d else d)\<rparr>
      })"

fun ell_loop :: "(ell_state \<Rightarrow> ell_state option) \<Rightarrow> nat \<Rightarrow> ell_state \<Rightarrow> ell_state option" where
  "ell_loop step 0 st = Some st"
| "ell_loop step (Suc remaining_steps) st =
     (if el_delta_lambda st > 1 / 10 ^ 12
      then Option.bind (step st) (ell_loop step remaining_steps)
      else Some st)"

text \<open>The distance, \<open>from_azimuth\<close> and \<open>to_azimuth\<close>.\<close>

definition nmea_distance_ellipsoid :: "nmeaPOS \<Rightarrow> nmeaPOS \<Rightarrow> real option \<times> real option \<times> real option" where
  "nmea_distance_ellipsoid from_pos to_pos =
     (if pos_lat from_pos = pos_lat to_pos \<and> pos_lon from_pos = pos_lon to_pos then (Some 0, Some 0, Some 0)
      else
        (let f = NMEA_EARTH_FLATTENING;
             a = NMEA_EARTH_SEMIMAJORAXIS_M;
             b = (1 - f) * a;
             sqr_a = a * a;
             sqr_b = b * b;
             L = pos_lon to_pos - pos_lon from_pos;
             phi1 = pos_lat from_pos;
             phi2 = pos_lat to_pos;
             U1 = arctan ((1 - f) * tan phi1);
             U2 = arctan ((1 - f) * tan phi2);
             sin_U1 = sin U1; sin_U2 = sin U2; cos_U1 = cos U1; cos_U2 = cos U2;
             st0 = \<lparr>el_sigma = 0, el_sin_sigma = sin 0, el_cos_sigma = cos 0, el_cos_2_sigmam = 0,
                    el_sqr_cos_2_sigmam = 0 * 0, el_sqr_cos_alpha = 0, el_lambda = L,
                    el_sin_lambda = sin L, el_cos_lambda = cos L, el_delta_lambda = L\<rparr>
         in case ell_loop (ell_step f L sin_U1 cos_U1 sin_U2 cos_U2) 20 st0 of
              None \<Rightarrow> (None, None, None)
            | Some st \<Rightarrow>
                (let sin_sigma = el_sin_sigma st; cos_sigma = el_cos_sigma st;
                     cos_2_sigmam = el_cos_2_sigmam st; sqr_cos_2_sigmam = el_sqr_cos_2_sigmam st;
                     sqr_u = el_sqr_cos_alpha st * (sqr_a - sqr_b) / sqr_b;
                     A = 1 + sqr_u / 16384 * (4096 + sqr_u * (- 768 + sqr_u * (320 - 175 * sqr_u)));
                     B = sqr_u / 1024 * (256 + sqr_u * (- 128 + sqr_u * (74 - 47 * sqr_u)));
                     delta_sigma = B * sin_sigma *
                       (cos_2_sigmam + B / 4 *
                          (cos_sigma * (- 1 + 2 * sqr_cos_2_sigmam) -
                           B / 6 * cos_2_sigmam * (- 3 + 4 * sin_sigma * sin_sigma) *
                             (- 3 + 4 * sqr_cos_2_sigmam)));
                     tan_alpha_1 = c_div (cos_U2 * el_sin_lambda st)
                       (cos_U1 * sin_U2 - sin_U1 * cos_U2 * el_cos_lambda st);
                     tan_alpha_2 = c_div (cos_U1 * el_sin_lambda st)
                       (- sin_U1 * cos_U2 + cos_U1 * sin_U2 * el_cos_lambda st)
                 in (Some (b * A * (el_sigma st - delta_sigma)),
                     map_option arctan tan_alpha_1, map_option arctan tan_alpha_2))))"

text \<open>The iteration of \<open>nmea_move_horz_ellipsoid\<close>: \<open>sigma\<close>, \<open>sigma_prev\<close> and the values derived from
  \<open>sigma\<close> in the last round.\<close>

record mov_state =
  mv_sigma :: real
  mv_sigma_prev :: real
  mv_sin_sigma :: real
  mv_cos_sigma :: real
  mv_cos_2_sigmam :: real
  mv_sqr_cos_2_sigmam :: real

definition mov_step :: "real \<Rightarrow> real \<Rightarrow> real \<Rightarrow> mov_state \<Rightarrow> mov_state" where
  "mov_step B sigma1 sigma_initial st =
     (let sigma = mv_sigma st;
          cos_2_sigmam = cos (2 * sigma1 + sigma);
          sqr_cos_2_sigmam = cos_2_sigmam * cos_2_sigmam;
          sin_sigma = sin sigma;
          cos_sigma = cos sigma;
          delta_sigma = B * sin_sigma *
            (cos_2_sigmam + B / 4 *
               (cos_sigma * (- 1 + 2 * sqr_cos_2_sigmam) -
                B / 6 * cos_2_sigmam * (- 3 + 4 * sin_sigma * sin_sigma) * (- 3 + 4 * sqr_cos_2_sigmam)))
      in \<lparr>mv_sigma = sigma_initial + delta_sigma, mv_sigma_prev = sigma, mv_sin_sigma = sin_sigma,
          mv_cos_sigma = cos_sigma, mv_cos_2_sigmam = cos_2_sigmam,
          mv_sqr_cos_2_sigmam = sqr_cos_2_sigmam\<rparr>)"

fun mov_loop :: "(mov_state \<Rightarrow> mov_state) \<Rightarrow> nat \<Rightarrow> mov_state \<Rightarrow> mov_state" where
  "mov_loop step 0 st = st"
| "mov_loop step (Suc remaining_steps) st =
     (if \<bar>mv_sigma st - mv_sigma_prev st\<bar> > 1 / 10 ^ 12 then mov_loop step remaining_steps (step st) else st)"

definition nmea_move_horz_ellipsoid :: "nmeaPOS \<Rightarrow> real \<Rightarrow> real \<Rightarrow> int \<times> nmeaPOS \<times> real" where
  "nmea_move_horz_ellipsoid start_pos azimuth distance =
     (if \<bar>distance\<bar> < 1 / 10 ^ 12 then (1, start_pos, azimuth)
      else
        (let f = NMEA_EARTH_FLATTENING;
             a = NMEA_EARTH_SEMIMAJORAXIS_M;
             b = (1 - f) * a;
             sqr_a = a * a;
             sqr_b = b * b;
             phi1 = pos_lat start_pos;
             tan_U1 = (1 - f) * tan phi1;
             cos_U1 = 1 / sqrt (1 + tan_U1 * tan_U1);
             sin_U1 = tan_U1 * cos_U1;
             s = distance;
             alpha1 = azimuth;
             sin_alpha1 = sin alpha1;
             cos_alpha1 = cos alpha1;
             sigma1 = atan2 tan_U1 cos_alpha1;
             sin_alpha = cos_U1 * sin_alpha1;
             sqr_cos_alpha = 1 - sin_alpha * sin_alpha;
             sqr_u = sqr_cos_alpha * (sqr_a - sqr_b) / sqr_b;
             A = 1 + sqr_u / 16384 * (4096 + sqr_u * (- 768 + sqr_u * (320 - 175 * sqr_u)));
             B = sqr_u / 1024 * (256 + sqr_u * (- 128 + sqr_u * (74 - 47 * sqr_u)));
             sigma_initial = s / (b * A);
             st0 = \<lparr>mv_sigma = sigma_initial, mv_sigma_prev = 2 * NMEA_PI, mv_sin_sigma = sin sigma_initial,
                    mv_cos_sigma = cos sigma_initial,
                    mv_cos_2_sigmam = cos (2 * sigma1 + sigma_initial),
                    mv_sqr_cos_2_sigmam = cos (2 * sigma1 + sigma_initial) * cos (2 * sigma1 + sigma_initial)\<rparr>;
             st = mov_loop (mov_step B sigma1 sigma_initial) 20 st0;
             sigma = mv_sigma st; sin_sigma = mv_sin_sigma st; cos_sigma = mv_cos_sigma st;
             tmp1 = sin_U1 * sin_sigma - cos_U1 * cos_sigma * cos_alpha1;
             phi2 = atan2 (sin_U1 * cos_sigma + cos_U1 * sin_sigma * cos_alpha1)
                          ((1 - f) * sqrt (sin_alpha * sin_alpha + tmp1 * tmp1));
             lambda = atan2 (sin_sigma * sin_alpha1)
                            (cos_U1 * cos_sigma - sin_U1 * sin_sigma * cos_alpha1);
             C = f / 16 * sqr_cos_alpha * (4 + f * (4 - 3 * sqr_cos_alpha));
             L = lambda - (1 - C) * f * sin_alpha *
               (sigma + C * sin_sigma *
                  (mv_cos_2_sigmam st + C * cos_sigma * (- 1 + 2 * mv_sqr_cos_2_sigmam st)))
         in (1, \<lparr>pos_lat = phi2, pos_lon = pos_lon start_pos + L\<rparr>,
             atan2 sin_alpha (- sin_U1 * sin_sigma + cos_U1 * cos_sigma * cos_alpha1))))"

subsection \<open>Degree formats\<close>

text \<open>A real is its truncation and a rest of the same sign below one.\<close>

lemma c_trunc_add:
  assumes "\<bar>d\<bar> < 1" and "0 < k \<Longrightarrow> 0 \<le> d" and "k < 0 \<Longrightarrow> d \<le> 0"
  shows "c_trunc (of_int k + d) = of_int k"
proof (cases "0 \<le> of_int k + d")
  case True
  then have "0 \<le> d" using assms by (cases "k < 0") force+
  with True assms(1) have "\<lfloor>of_int k + d\<rfloor> = k" by (simp add: floor_eq_iff)
  with True show ?thesis by (simp add: c_trunc_def)
next
  case False
  then have "d \<le> 0" using assms by (cases "0 < k") force+
  with assms(1) have "\<lceil>of_int k + d\<rceil> = k" by (simp add: ceiling_eq_iff)
  with False show ?thesis by (simp add: c_trunc_def)
qed

lemma c_truncE:
  fixes x :: real
  obtains k d where "x = of_int k + d" "\<bar>d\<bar> < 1" "0 < k \<Longrightarrow> 0 \<le> d" "k < 0 \<Longrightarrow> d \<le> 0"
proof (cases "0 \<le> x")
  case True
  show ?thesis
    by (rule that [of "\<lfloor>x\<rfloor>" "x - of_int \<lfloor>x\<rfloor>"]) (use True in \<open>auto simp: abs_if, linarith+\<close>)
next
  case False
  show ?thesis
    by (rule that [of "\<lceil>x\<rceil>" "x - of_int \<lceil>x\<rceil>"]) (use False in \<open>auto simp: abs_if, linarith+\<close>)
qed

lemma ndeg_inverse:
  assumes range: "\<bar>v\<bar> \<le> of_int INT_MAX"
  shows "nmea_ndeg2degree (nmea_degree2ndeg v) = v"
proof (rule c_truncE [of v])
  fix k d assume v: "v = of_int k + d" "\<bar>d\<bar> < 1" "0 < k \<Longrightarrow> 0 \<le> d" "k < 0 \<Longrightarrow> d \<le> 0"
  have n: "nmea_degree2ndeg v = of_int k * 100 + d * 60"
    using c_trunc_add [OF v(2-4)] by (simp add: nmea_degree2ndeg_def v(1))
  have "c_trunc (of_int k + d * (60 / 100)) = of_int k"
    using v by (intro c_trunc_add) (auto simp: abs_mult)
  moreover have "nmea_degree2ndeg v / 100 = of_int k + d * (60 / 100)" by (simp add: n)
  moreover have "\<bar>of_int k + d * (60 / 100)\<bar> \<le> \<bar>v\<bar>"
    using v by (cases "0 < k"; cases "k < 0") (auto simp: abs_if)
  then have "\<bar>of_int k + d * (60 / 100)\<bar> \<le> of_int INT_MAX" using range by linarith
  ultimately have "of_int (to_int (nmea_degree2ndeg v / 100)) = (of_int k :: real)"
    using to_int_trunc [of "nmea_degree2ndeg v / 100"] by (simp only:)
  then show ?thesis unfolding nmea_ndeg2degree_def Let_def by (simp only:) (simp add: n [unfolded v(1)] v(1))
qed

text \<open>Degrees converted to the NMEA format and back are the same degrees, for every angle of either
  sign whose degrees fit in an \<open>int\<close>.\<close>

theorem ndeg_roundtrip:
  assumes "\<bar>v\<bar> \<le> of_int INT_MAX"
  shows "nmea_ndeg2degree (nmea_degree2ndeg v) = v"
  by (rule ndeg_inverse [OF assms])

text \<open>A position given in the NMEA format with minutes below sixty comes back unchanged through
  radians, as \<open>nmea_info2pos\<close> and \<open>nmea_pos2info\<close> use them.\<close>

theorem pos_roundtrip:
  assumes "in_lat info = of_int i * 100 + m" "0 \<le> i" "i < INT_MAX" "0 \<le> m" "m < 60"
    and "in_lon info = of_int j * 100 + l" "0 \<le> j" "j < INT_MAX" "0 \<le> l" "l < 60"
  shows "nmea_pos2info (nmea_info2pos info) info = info"
proof -
  have c: "nmea_radian2ndeg (nmea_ndeg2radian (of_int k * 100 + x)) = of_int k * 100 + x"
    if "0 \<le> k" "k < INT_MAX" "0 \<le> x" "x < 60" for k x
  proof -
    have "c_trunc (of_int k + x / 100) = of_int k" using that by (intro c_trunc_add) auto
    moreover have "\<bar>of_int k + x / 100\<bar> \<le> of_int INT_MAX"
    proof -
      have "k \<le> INT_MAX - 1" using that(2) by simp
      then have "of_int k \<le> (of_int (INT_MAX - 1) :: real)" by (rule of_int_le_iff [THEN iffD2])
      then show ?thesis using that(1,3,4) by simp
    qed
    ultimately have "of_int (to_int (of_int k + x / 100)) = (of_int k :: real)" by (simp only: to_int_trunc)
    then have "nmea_ndeg2degree (of_int k * 100 + x) = of_int k + x / 60"
      by (simp add: nmea_ndeg2degree_def add_divide_distrib)
    moreover have "c_trunc (of_int k + x / 60) = of_int k" using that by (intro c_trunc_add) auto
    then have "nmea_degree2ndeg (of_int k + x / 60) = of_int k * 100 + x"
      by (simp add: nmea_degree2ndeg_def)
    moreover have "NMEA_PI180 \<noteq> 0" by (simp add: NMEA_PI180_def NMEA_PI_def)
    ultimately show ?thesis
      by (simp add: nmea_radian2ndeg_def nmea_ndeg2radian_def nmea_degree2radian_def nmea_radian2degree_def)
  qed
  show ?thesis
    using c [OF assms(2-5)] c [OF assms(7-10)] assms(1,6)
    by (simp add: nmea_pos2info_def nmea_info2pos_def)
qed

theorem pos_roundtrip_witness:
  "nmea_pos2info (nmea_info2pos (zero_info\<lparr>in_lat := 5001, in_lon := 3613\<rparr>))
     (zero_info\<lparr>in_lat := 5001, in_lon := 3613\<rparr>) = zero_info\<lparr>in_lat := 5001, in_lon := 3613\<rparr>"
  by (rule pos_roundtrip [where i = 50 and m = 1 and j = 36 and l = 13]) simp_all

subsection \<open>Distances\<close>

lemma atan2_polar:
  shows "sqrt (x\<^sup>2 + y\<^sup>2) * cos (atan2 y x) = x" and "sqrt (x\<^sup>2 + y\<^sup>2) * sin (atan2 y x) = y"
proof -
  have pos: "sqrt (x\<^sup>2 + y\<^sup>2) * cos (arctan (y / x)) = \<bar>x\<bar> \<and> sqrt (x\<^sup>2 + y\<^sup>2) * sin (arctan (y / x)) = \<bar>x\<bar> * (y / x)"
    if "x \<noteq> 0"
  proof -
    have "x\<^sup>2 + y\<^sup>2 = x\<^sup>2 * (1 + (y / x)\<^sup>2)" using that by (simp add: power_divide field_simps)
    then have "sqrt (x\<^sup>2 + y\<^sup>2) = \<bar>x\<bar> * sqrt (1 + (y / x)\<^sup>2)" by (simp add: real_sqrt_mult)
    moreover have "sqrt (1 + (y / x)\<^sup>2) \<noteq> 0" by (simp add: add_pos_nonneg less_imp_neq [symmetric])
    ultimately show ?thesis by (simp add: cos_arctan sin_arctan)
  qed
  show "sqrt (x\<^sup>2 + y\<^sup>2) * cos (atan2 y x) = x"
    using pos by (cases "x = 0") (auto simp: atan2_def cos_add cos_diff)
  show "sqrt (x\<^sup>2 + y\<^sup>2) * sin (atan2 y x) = y"
    using pos by (cases "x = 0") (auto simp: atan2_def sin_add sin_diff)
qed

text \<open>The distance is symmetric and zero from a point to itself.\<close>

theorem distance_symmetric:
  "nmea_distance p q = nmea_distance q p \<and> nmea_distance p p = 0"
proof -
  have "sin (pos_lat p) * sin (pos_lat p) + cos (pos_lat p) * cos (pos_lat p) = 1"
    using sin_cos_squared_add [of "pos_lat p"] by (simp add: power2_eq_square)
  moreover have "cos (pos_lon p - pos_lon q) = cos (pos_lon q - pos_lon p)"
    by (metis cos_minus minus_diff_eq)
  ultimately show ?thesis by (simp add: nmea_distance_def ac_simps)
qed

text \<open>The point reached by moving at azimuth \<open>A\<close> over the angle \<open>D\<close>: the arguments of \<open>atan2\<close> are the
  legs of a triangle whose hypotenuse is the product of the two cosines of latitude.\<close>

lemma move_legs:
  fixes s1 c1 sd cd sa ca :: real
  assumes "s1\<^sup>2 + c1\<^sup>2 = 1" "sd\<^sup>2 + cd\<^sup>2 = 1" "sa\<^sup>2 + ca\<^sup>2 = 1"
  defines "S \<equiv> s1 * cd + c1 * sd * ca"
  shows "(cd - s1 * S)\<^sup>2 + (sa * sd * c1)\<^sup>2 = c1\<^sup>2 * (1 - S\<^sup>2)" and "S\<^sup>2 \<le> 1"
proof -
  have "cd - s1 * S = c1 * (c1 * cd - s1 * sd * ca)"
    unfolding S_def using assms(1) by algebra
  moreover have h: "(c1 * cd - s1 * sd * ca)\<^sup>2 + (sa * sd)\<^sup>2 + S\<^sup>2 = 1"
    using assms(1-3) unfolding S_def by algebra
  ultimately show "(cd - s1 * S)\<^sup>2 + (sa * sd * c1)\<^sup>2 = c1\<^sup>2 * (1 - S\<^sup>2)"
    by algebra
  have "0 \<le> (c1 * cd - s1 * sd * ca)\<^sup>2" "0 \<le> (sa * sd)\<^sup>2" by simp_all
  with h show "S\<^sup>2 \<le> 1" by linarith
qed

lemma move_horz_len:
  assumes "0 < cos (pos_lat p)" and "0 \<le> len" and "len \<le> pi * NMEA_EARTHRADIUS_KM"
  shows "\<exists>q. nmea_move_horz p az len = (1, q) \<and> nmea_distance p q = 1000 * len"
proof -
  define D A where "D = len / NMEA_EARTHRADIUS_KM" and "A = nmea_degree2radian az"
  define S where "S = sin (pos_lat p) * cos D + cos (pos_lat p) * sin D * cos A"
  have S: "S\<^sup>2 \<le> 1" and legs: "(cos D - sin (pos_lat p) * S)\<^sup>2 + (sin A * sin D * cos (pos_lat p))\<^sup>2 =
      (cos (pos_lat p))\<^sup>2 * (1 - S\<^sup>2)"
    using move_legs [of "sin (pos_lat p)" "cos (pos_lat p)" "sin D" "cos D" "sin A" "cos A"]
    by (simp_all add: S_def)
  then have S1: "- 1 \<le> S" "S \<le> 1" by (auto simp: abs_square_le_1 abs_le_iff)
  define x y where "x = cos D - sin (pos_lat p) * S" and "y = sin A * sin D * cos (pos_lat p)"
  have "sqrt (x\<^sup>2 + y\<^sup>2) = cos (pos_lat p) * sqrt (1 - S\<^sup>2)"
    using legs assms(1) by (simp add: x_def y_def real_sqrt_mult)
  then have "cos (pos_lat p) * sqrt (1 - S\<^sup>2) * cos (atan2 y x) = x"
    using atan2_polar(1) [of x y] by simp
  then have "S * sin (pos_lat p) + sqrt (1 - S\<^sup>2) * cos (pos_lat p) * cos (atan2 y x) = cos D"
    by (simp add: x_def mult.commute mult.left_commute)
  moreover have "arccos (cos D) = D"
    using assms(2,3) by (intro arccos_cos) (simp_all add: D_def NMEA_EARTHRADIUS_KM_def field_simps)
  ultimately have "nmea_distance p \<lparr>pos_lat = arcsin S, pos_lon = pos_lon p + atan2 y x\<rparr> = 1000 * len"
    using S1 by (simp add: nmea_distance_def cos_arcsin NMEA_EARTHRADIUS_M_def D_def NMEA_EARTHRADIUS_KM_def)
  moreover have "nmea_move_horz p az len = (1, \<lparr>pos_lat = arcsin S, pos_lon = pos_lon p + atan2 y x\<rparr>)"
    using S1 by (simp add: nmea_move_horz_def c_asin_def Let_def x_def y_def S_def flip: D_def A_def)
  ultimately show ?thesis by blast
qed

text \<open>C21: moving horizontally from a point that is not a pole always succeeds, and the distance back to
  the start is the distance asked for, in metres where the argument is in kilometres.\<close>

theorem move_horz_distance:
  assumes "0 < cos (pos_lat p)" and "0 \<le> len" and "len \<le> pi * NMEA_EARTHRADIUS_KM"
  shows "\<exists>q. nmea_move_horz p az len = (1, q) \<and> nmea_distance p q = 1000 * len"
  using assms by (rule move_horz_len)

theorem move_horz_distance_witness:
  "\<exists>q. nmea_move_horz \<lparr>pos_lat = 0, pos_lon = 0\<rparr> 90 1 = (1, q) \<and>
     nmea_distance \<lparr>pos_lat = 0, pos_lon = 0\<rparr> q = 1000 * 1"
  using pi_ge_two by (intro move_horz_distance) (simp_all add: NMEA_EARTHRADIUS_KM_def)

text \<open>Between two different points where the second lies to the west of the first, or on the same
  meridian, the iteration of \<open>nmea_distance_ellipsoid\<close> is never entered (\<open>delta_lambda\<close> starts as the
  signed difference of longitude) and the distance is zero.\<close>

theorem ellipsoid_west_zero:
  assumes "pos_lon q - pos_lon p \<le> 1 / 10 ^ 12"
  shows "fst (nmea_distance_ellipsoid p q) = Some 0"
  using assms by (simp add: nmea_distance_ellipsoid_def Let_def eval_nat_numeral)

theorem ellipsoid_west_zero_witness:
  "fst (nmea_distance_ellipsoid \<lparr>pos_lat = 0, pos_lon = 1\<rparr> \<lparr>pos_lat = 1, pos_lon = 0\<rparr>) = Some 0"
  by (rule ellipsoid_west_zero) simp

end
