(* ===== verification/Nmea_Generator.thy ===== *)
theory Nmea_Generator
  imports Nmea_Generate Nmea_Gmath "HOL-Library.State_Monad"
begin

text \<open>
  The data generators of \<open>nmealib\<close> (\<open>generator.c\<close>, \<open>info.c\<close>, \<open>nmea_time.c\<close>): a chain of generators is
  initialised on a summary, and each turn of the loop lets every generator of the chain change it
  before the sentences are printed.

  The world outside is explicit: the results of successive calls of \<open>rand\<close>, of \<open>gmtime\<close> and of
  \<open>rt_malloc\<close>, each with the number of calls made so far.  A generator is a record of function
  pointers, and a chain the list of the records that \<open>next\<close> links; the callbacks never use their
  \<open>gen\<close> argument, so it is left out.
\<close>

subsection \<open>The world\<close>

record tm =
  tm_sec :: int
  tm_min :: int
  tm_hour :: int
  tm_mday :: int
  tm_mon :: int
  tm_year :: int

record world =
  wd_rand_max :: int
  wd_rand :: "nat \<Rightarrow> int"
  wd_nrand :: nat
  wd_clock :: "nat \<Rightarrow> tm"
  wd_nclock :: nat
  wd_malloc :: "nat \<Rightarrow> bool"
  wd_nmalloc :: nat

text \<open>What the C standard says of \<open>rand\<close>.\<close>

definition rand_ok :: "world \<Rightarrow> bool" where
  "rand_ok w \<longleftrightarrow> 0 < wd_rand_max w \<and> (\<forall>n. 0 \<le> wd_rand w n \<and> wd_rand w n \<le> wd_rand_max w)"

definition dbl_int :: "real \<Rightarrow> int" where
  "dbl_int x = (if 0 \<le> x then \<lfloor>x\<rfloor> else \<lceil>x\<rceil>)"

definition nmea_time_now :: "world \<Rightarrow> nmea_time \<times> world" where
  "nmea_time_now w =
     (let tt = wd_clock w (wd_nclock w)
      in (\<lparr>t_year = tm_year tt, t_mon = tm_mon tt, t_day = tm_mday tt, t_hour = tm_hour tt,
           t_min = tm_min tt, t_sec = tm_sec tt, t_hsec = 0\<rparr>,
          w\<lparr>wd_nclock := wd_nclock w + 1\<rparr>))"

definition nmea_random :: "real \<Rightarrow> real \<Rightarrow> (world, real) state" where
  "nmea_random mn mx = State (\<lambda>w.
     let rand_val = of_int (wd_rand w (wd_nrand w)); bounds = mx - mn
     in (mn + (rand_val * bounds) / of_int (wd_rand_max w), w\<lparr>wd_nrand := wd_nrand w + 1\<rparr>))"

definition nmea_zero_INFO :: nmea_info where
  "nmea_zero_INFO = zero_info\<lparr>in_sig := NMEA_SIG_BAD, in_fix := NMEA_FIX_BAD\<rparr>"

definition NMEA_DEF_LAT :: real where "NMEA_DEF_LAT = 5001.2621"
definition NMEA_DEF_LON :: real where "NMEA_DEF_LON = 3613.0595"

subsection \<open>Chains of generators\<close>

type_synonym gen_call = "nmea_info \<Rightarrow> world \<Rightarrow> (int \<times> nmea_info \<times> world) result"

record nmeaGENERATOR =
  gen_addr :: nat
  init_call :: "gen_call option"
  loop_call :: "gen_call option"
  reset_call :: "gen_call option"
  destroy_call :: "int option"

definition call_or :: "gen_call option \<Rightarrow> gen_call" where
  "call_or c info w = (case c of None \<Rightarrow> Inr (1, info, w) | Some f \<Rightarrow> f info w)"

fun gen_init_loop :: "nmeaGENERATOR list \<Rightarrow> int \<Rightarrow> gen_call" where
  "gen_init_loop [] RetVal info w = Inr (RetVal, info, w)"
| "gen_init_loop (igen # gs) RetVal info w =
     (if RetVal = 0 then Inr (RetVal, info, w)
      else case init_call igen of
             None \<Rightarrow> gen_init_loop gs RetVal info w
           | Some f \<Rightarrow> bindR (f info w) (\<lambda>(r, i, w'). gen_init_loop gs r i w'))"

definition nmea_gen_init :: "nmeaGENERATOR list \<Rightarrow> gen_call" where
  "nmea_gen_init gen info w =
     gen_init_loop gen 1
       (nmea_zero_INFO\<lparr>in_smask := in_smask info, in_lat := NMEA_DEF_LAT, in_lon := NMEA_DEF_LON\<rparr>) w"

fun nmea_gen_loop :: "nmeaGENERATOR list \<Rightarrow> gen_call" where
  "nmea_gen_loop [] info w = Inl Null_pointer"
| "nmea_gen_loop (gen # next) info w =
     bindR (call_or (loop_call gen) info w)
       (\<lambda>(r, i, w'). if r \<noteq> 0 \<and> next \<noteq> [] then nmea_gen_loop next i w' else Inr (r, i, w'))"

fun nmea_gen_reset :: "nmeaGENERATOR list \<Rightarrow> gen_call" where
  "nmea_gen_reset [] info w = Inl Null_pointer"
| "nmea_gen_reset (gen # next) info w = call_or (reset_call gen) info w"

text \<open>The addresses freed, in the order of the calls of \<open>rt_free\<close>; the result of \<open>destroy_call\<close> is dropped.\<close>

fun nmea_gen_destroy :: "nmeaGENERATOR list \<Rightarrow> nat list result" where
  "nmea_gen_destroy [] = Inl Null_pointer"
| "nmea_gen_destroy (gen # next) =
     bindR (if next \<noteq> [] then nmea_gen_destroy next else Inr []) (\<lambda>freed. Inr (freed @ [gen_addr gen]))"

fun nmea_gen_add :: "nmeaGENERATOR list \<Rightarrow> nmeaGENERATOR list \<Rightarrow> nmeaGENERATOR list result" where
  "nmea_gen_add [] gen = Inl Null_pointer"
| "nmea_gen_add (to # next) gen =
     (if next \<noteq> [] then bindR (nmea_gen_add next gen) (\<lambda>rest. Inr (to # rest)) else Inr (to # gen))"

text \<open>The readings of the clock made while printing are overwritten by the time of the summary and are
  not counted.\<close>

definition nmea_generate_from ::
    "string option \<Rightarrow> nmea_info \<Rightarrow> nmeaGENERATOR list \<Rightarrow> int \<Rightarrow> world \<Rightarrow>
       (int \<times> string option \<times> nmea_info \<times> world) result" where
  "nmea_generate_from buff info gen generate_mask w =
     bindR (nmea_gen_loop gen info w)
       (\<lambda>(r, i, w').
          if r \<noteq> 0 then
            bindR (nmea_generate (fst (nmea_time_now w')) buff i generate_mask)
              (\<lambda>(n, m). Inr (int n, m, i, w'))
          else Inr (r, buff, i, w'))"

subsection \<open>The noise generator\<close>

definition nmea_igen_noise_init :: gen_call where
  "nmea_igen_noise_init info w = Inr (1, info, w)"

text \<open>Storing a satellite and counting it.\<close>

definition add_sat :: "nat \<Rightarrow> nmea_satellite \<Rightarrow> nmea_sat_info \<Rightarrow> nmea_sat_info" where
  "add_sat it sat si =
     \<lparr>si_inuse = (if sat_in_use sat \<noteq> 0 then si_inuse si + 1 else si_inuse si),
      si_inview = (if sat_sig sat > 0 then si_inview si + 1 else si_inview si),
      si_sat = (si_sat si)[it := sat]\<rparr>"

fun noise_sats :: "nat list \<Rightarrow> nmea_sat_info \<Rightarrow> (world, nmea_sat_info) state" where
  "noise_sats [] si = State_Monad.return si"
| "noise_sats (it # its) si = do {
     u \<leftarrow> nmea_random 0 3;
     e \<leftarrow> nmea_random 0 90;
     a \<leftarrow> nmea_random 0 359;
     s \<leftarrow> (if dbl_int u \<noteq> 0 then nmea_random 40 99 else nmea_random 0 40);
     noise_sats its
       (add_sat it \<lparr>sat_id = int it, sat_in_use = dbl_int u, sat_elv = dbl_int e,
                    sat_azimuth = dbl_int a, sat_sig = dbl_int s\<rparr> si)
   }"

definition noise_info :: "nmea_info \<Rightarrow> (world, nmea_info) state" where
  "noise_info info = do {
     sig \<leftarrow> nmea_random 1 3;
     pdop \<leftarrow> nmea_random 0 9;
     hdop \<leftarrow> nmea_random 0 9;
     vdop \<leftarrow> nmea_random 0 9;
     fx \<leftarrow> nmea_random 2 3;
     lat \<leftarrow> nmea_random 0 100;
     lon \<leftarrow> nmea_random 0 100;
     speed \<leftarrow> nmea_random 0 100;
     direction \<leftarrow> nmea_random 0 360;
     declination \<leftarrow> nmea_random 0 360;
     elv \<leftarrow> nmea_random (- 100) 100;
     si \<leftarrow> noise_sats [0..<12] ((in_satinfo info)\<lparr>si_inuse := 0, si_inview := 0\<rparr>);
     State_Monad.return
       (info\<lparr>in_sig := dbl_int sig, in_PDOP := pdop, in_HDOP := hdop, in_VDOP := vdop,
             in_fix := dbl_int fx, in_lat := lat, in_lon := lon, in_speed := speed,
             in_direction := direction, in_declination := declination,
             in_elv := of_int (dbl_int elv), in_satinfo := si\<rparr>)
   }"

definition nmea_igen_noise_loop :: gen_call where
  "nmea_igen_noise_loop info w = (let (i, w') = run_state (noise_info info) w in Inr (1, i, w'))"

definition nmea_igen_noise_reset :: gen_call where
  "nmea_igen_noise_reset info w = Inr (1, info, w)"

subsection \<open>The static generator\<close>

definition set_utc :: "nmea_info \<Rightarrow> world \<Rightarrow> nmea_info \<times> world" where
  "set_utc info w = (let (t, w') = nmea_time_now w in (info\<lparr>in_utc := t\<rparr>, w'))"

definition nmea_igen_static_loop :: gen_call where
  "nmea_igen_static_loop info w = (let (i, w') = set_utc info w in Inr (1, i, w'))"

definition static_sat :: "int \<Rightarrow> int \<Rightarrow> nmea_satellite" where
  "static_sat i az = \<lparr>sat_id = i, sat_in_use = 1, sat_elv = 50, sat_azimuth = az, sat_sig = 99\<rparr>"

definition nmea_igen_static_reset :: gen_call where
  "nmea_igen_static_reset info w =
     Inr (1, info\<lparr>in_satinfo := \<lparr>si_inuse = 4, si_inview = 4,
              si_sat = (si_sat (in_satinfo info))
                [0 := static_sat 1 0, 1 := static_sat 2 90, 2 := static_sat 3 180, 3 := static_sat 4 270]\<rparr>\<rparr>,
          w)"

definition nmea_igen_static_init :: gen_call where
  "nmea_igen_static_init info w =
     bindR (nmea_igen_static_reset (info\<lparr>in_sig := 3, in_fix := 3\<rparr>) w) (\<lambda>(r, i, w'). Inr (1, i, w'))"

subsection \<open>The rotating satellites\<close>

fun rotate_sats :: "nat \<Rightarrow> nat \<Rightarrow> real \<Rightarrow> real \<Rightarrow> nmea_satellite list \<Rightarrow> nmea_satellite list result" where
  "rotate_sats it 0 deg srt sats = Inr sats"
| "rotate_sats it (Suc k) deg srt sats =
     (if it < length sats
      then rotate_sats (Suc it) k deg (srt + deg)
             (sats[it := (sats ! it)\<lparr>sat_azimuth := dbl_int (if srt \<ge> 360 then srt - 360 else srt)\<rparr>])
      else Inl Out_of_bounds)"

definition nmea_igen_rotate_loop :: gen_call where
  "nmea_igen_rotate_loop info w =
     (let si = in_satinfo info;
          count = si_inview si;
          deg = of_int (360 sdiv (if count \<noteq> 0 then count else 1));
          srt = of_int ((if count \<noteq> 0 then sat_azimuth (si_sat si ! 0) else 0) + 5);
          (info1, w1) = set_utc info w
      in bindR (rotate_sats 0 (nat count) deg srt (si_sat si))
           (\<lambda>sats. Inr (1, info1\<lparr>in_satinfo := si\<lparr>si_sat := sats\<rparr>\<rparr>, w1)))"

fun rotate_reset_sats :: "nat \<Rightarrow> nat \<Rightarrow> real \<Rightarrow> real \<Rightarrow> nmea_satellite list \<Rightarrow> nmea_satellite list result" where
  "rotate_reset_sats it 0 deg srt sats = Inr sats"
| "rotate_reset_sats it (Suc k) deg srt sats =
     (if it < length sats
      then rotate_reset_sats (Suc it) k deg (srt + deg)
             (sats[it := \<lparr>sat_id = int it + 1, sat_in_use = 1, sat_elv = 5, sat_azimuth = dbl_int srt,
                          sat_sig = 80\<rparr>])
      else Inl Out_of_bounds)"

definition nmea_igen_rotate_reset :: gen_call where
  "nmea_igen_rotate_reset info w =
     bindR (rotate_reset_sats 0 8 (of_int (360 sdiv 8)) 0 (si_sat (in_satinfo info)))
       (\<lambda>sats. Inr (1, info\<lparr>in_satinfo := \<lparr>si_inuse = 8, si_inview = 8, si_sat = sats\<rparr>\<rparr>, w))"

definition nmea_igen_rotate_init :: gen_call where
  "nmea_igen_rotate_init info w =
     bindR (nmea_igen_rotate_reset (info\<lparr>in_sig := 3, in_fix := 3\<rparr>) w) (\<lambda>(r, i, w'). Inr (1, i, w'))"

subsection \<open>The moving position\<close>

definition nmea_igen_pos_rmove_init :: gen_call where
  "nmea_igen_pos_rmove_init info w =
     Inr (1, info\<lparr>in_sig := 3, in_fix := 3, in_declination := 0, in_direction := 0, in_speed := 20\<rparr>, w)"

definition nmea_igen_pos_rmove_loop :: gen_call where
  "nmea_igen_pos_rmove_loop info w =
     (let (rd, w1) = run_state (nmea_random (- 10) 10) w;
          (rs, w2) = run_state (nmea_random (- 2) 3) w1;
          d0 = in_direction info + rd;
          s0 = in_speed info + rs;
          d1 = (if d0 < 0 then 359 + d0 else d0);
          d2 = (if d1 > 359 then d1 - 359 else d1);
          s1 = (if s0 > 40 then 40 else s0);
          s2 = (if s1 < 1 then 1 else s1);
          info1 = info\<lparr>in_direction := d2, in_speed := s2\<rparr>;
          crd = snd (nmea_move_horz (nmea_info2pos info1) d2 (s2 / 3600));
          info2 = nmea_pos2info crd info1
      in Inr (1, info2\<lparr>in_declination := in_direction info2\<rparr>, w2))"

definition nmea_igen_pos_rmove_destroy :: int where
  "nmea_igen_pos_rmove_destroy = 1"

subsection \<open>Creation\<close>

definition NMEA_GEN_NOISE :: int where "NMEA_GEN_NOISE = 0"
definition NMEA_GEN_STATIC :: int where "NMEA_GEN_STATIC = 1"
definition NMEA_GEN_ROTATE :: int where "NMEA_GEN_ROTATE = 2"
definition NMEA_GEN_SAT_STATIC :: int where "NMEA_GEN_SAT_STATIC = 3"
definition NMEA_GEN_SAT_ROTATE :: int where "NMEA_GEN_SAT_ROTATE = 4"
definition NMEA_GEN_POS_RANDMOVE :: int where "NMEA_GEN_POS_RANDMOVE = 5"

lemmas gen_types = NMEA_GEN_NOISE_def NMEA_GEN_STATIC_def NMEA_GEN_ROTATE_def NMEA_GEN_SAT_STATIC_def
  NMEA_GEN_SAT_ROTATE_def NMEA_GEN_POS_RANDMOVE_def

text \<open>\<open>rt_malloc\<close> and \<open>memset\<close>: the new generator with null pointers, or nothing.\<close>

definition new_gen :: "world \<Rightarrow> nmeaGENERATOR option \<times> world" where
  "new_gen w =
     (let a = wd_nmalloc w
      in (if wd_malloc w a
          then Some \<lparr>gen_addr = a, init_call = None, loop_call = None, reset_call = None, destroy_call = None\<rparr>
          else None,
          w\<lparr>wd_nmalloc := a + 1\<rparr>))"

text \<open>The cases that allocate one generator; an unknown type gives the null pointer.\<close>

definition create_single :: "int \<Rightarrow> world \<Rightarrow> nmeaGENERATOR list \<times> world" where
  "create_single ty w =
     (let (g, w') = new_gen w;
          fill = (\<lambda>f. (case g of None \<Rightarrow> [] | Some gen \<Rightarrow> [f gen], w'))
      in if ty = NMEA_GEN_NOISE then
           fill (\<lambda>gen. gen\<lparr>init_call := Some nmea_igen_noise_init, loop_call := Some nmea_igen_noise_loop,
                           reset_call := Some nmea_igen_noise_reset\<rparr>)
         else if ty = NMEA_GEN_STATIC \<or> ty = NMEA_GEN_SAT_STATIC then
           fill (\<lambda>gen. gen\<lparr>init_call := Some nmea_igen_static_init, loop_call := Some nmea_igen_static_loop,
                           reset_call := Some nmea_igen_static_reset\<rparr>)
         else if ty = NMEA_GEN_SAT_ROTATE then
           fill (\<lambda>gen. gen\<lparr>init_call := Some nmea_igen_rotate_init, loop_call := Some nmea_igen_rotate_loop,
                           reset_call := Some nmea_igen_rotate_reset\<rparr>)
         else if ty = NMEA_GEN_POS_RANDMOVE then
           fill (\<lambda>gen. gen\<lparr>init_call := Some nmea_igen_pos_rmove_init,
                           loop_call := Some nmea_igen_pos_rmove_loop,
                           destroy_call := Some nmea_igen_pos_rmove_destroy\<rparr>)
         else ([], w))"

text \<open>\<open>__nmea_create_generator\<close>.\<close>

definition create_generator :: "int \<Rightarrow> world \<Rightarrow> (nmeaGENERATOR list \<times> world) result" where
  "create_generator ty w =
     (if ty = NMEA_GEN_ROTATE then
        (let (gen, w1) = create_single NMEA_GEN_SAT_ROTATE w;
             (mv, w2) = create_single NMEA_GEN_POS_RANDMOVE w1
         in bindR (nmea_gen_add gen mv) (\<lambda>g. Inr (g, w2)))
      else Inr (create_single ty w))"

definition nmea_create_generator ::
    "int \<Rightarrow> nmea_info \<Rightarrow> world \<Rightarrow> (nmeaGENERATOR list \<times> nmea_info \<times> world) result" where
  "nmea_create_generator ty info w =
     bindR (create_generator ty w)
       (\<lambda>(gen, w1).
          if gen \<noteq> [] then bindR (nmea_gen_init gen info w1) (\<lambda>(r, i, w2). Inr (gen, i, w2))
          else Inr (gen, info, w1))"

definition nmea_destroy_generator :: "nmeaGENERATOR list \<Rightarrow> nat list result" where
  "nmea_destroy_generator gen = nmea_gen_destroy gen"

subsection \<open>Computations that use \<open>rand\<close>\<close>

text \<open>Partial correctness of a computation under what \<open>rand\<close> promises: the result satisfies \<open>Q\<close> and the
  promise still holds afterwards.\<close>

definition rspec :: "(world, 'a) state \<Rightarrow> ('a \<Rightarrow> bool) \<Rightarrow> bool" where
  "rspec m Q \<longleftrightarrow>
     (\<forall>w. rand_ok w \<longrightarrow> Q (fst (run_state m w)) \<and> rand_ok (snd (run_state m w)))"

lemma rspec_return [intro]: "Q x \<Longrightarrow> rspec (State_Monad.return x) Q"
  by (simp add: rspec_def)

lemma rspec_bind:
  "rspec m R \<Longrightarrow> (\<And>x. R x \<Longrightarrow> rspec (f x) Q) \<Longrightarrow> rspec (Monad_Syntax.bind m f) Q"
  by (simp add: rspec_def State_Monad.bind_def split_beta)

lemma rspec_random:
  assumes "mn \<le> mx"
  shows "rspec (nmea_random mn mx) (\<lambda>x. mn \<le> x \<and> x \<le> mx)"
  unfolding rspec_def
proof (intro allI impI)
  fix w assume w: "rand_ok w"
  define q :: real where "q = of_int (wd_rand w (wd_nrand w)) / of_int (wd_rand_max w)"
  have "0 \<le> q" "q \<le> 1" using w by (auto simp: q_def rand_ok_def divide_le_eq_1)
  then have "0 \<le> q * (mx - mn)" "q * (mx - mn) \<le> mx - mn"
    using assms mult_right_mono [of q 1 "mx - mn"] by auto
  moreover have "fst (run_state (nmea_random mn mx) w) = mn + q * (mx - mn)"
    by (simp add: nmea_random_def q_def Let_def)
  ultimately show "(mn \<le> fst (run_state (nmea_random mn mx) w) \<and>
      fst (run_state (nmea_random mn mx) w) \<le> mx) \<and> rand_ok (snd (run_state (nmea_random mn mx) w))"
    using w by (simp add: nmea_random_def Let_def rand_ok_def)
qed

lemma dbl_int_range:
  "of_int a \<le> x \<Longrightarrow> x \<le> of_int b \<Longrightarrow> a \<le> dbl_int x \<and> dbl_int x \<le> b"
  by (auto simp: dbl_int_def le_floor_iff ceiling_le_iff floor_le_iff le_ceiling_iff)

lemma rspec_random_int:
  assumes "a \<le> b"
  shows "rspec (nmea_random (of_int a) (of_int b))
    (\<lambda>x. of_int a \<le> x \<and> x \<le> of_int b \<and> a \<le> dbl_int x \<and> dbl_int x \<le> b)"
  using rspec_random [of "of_int a" "of_int b"] assms by (auto simp: rspec_def dbl_int_range)

lemma rspec_weaken: "rspec m Q \<Longrightarrow> (\<And>x. Q x \<Longrightarrow> R x) \<Longrightarrow> rspec m R"
  by (simp add: rspec_def)

subsection \<open>Noise\<close>

definition noise_sat_ok :: "nat \<Rightarrow> nmea_satellite \<Rightarrow> bool" where
  "noise_sat_ok it s \<longleftrightarrow>
     sat_id s = int it \<and> sat_in_use s \<in> {0..3} \<and> sat_elv s \<in> {0..90} \<and> sat_azimuth s \<in> {0..359} \<and>
     sat_sig s \<in> {0..99} \<and> (sat_in_use s \<noteq> 0 \<longrightarrow> 40 \<le> sat_sig s)"

definition count_if :: "('a \<Rightarrow> bool) \<Rightarrow> 'a list \<Rightarrow> int" where
  "count_if P xs = int (length (filter P xs))"

lemma count_if_simps [simp]:
  "count_if P [] = 0"
  "count_if P (xs @ [x]) = count_if P xs + (if P x then 1 else 0)"
  by (simp_all add: count_if_def)

text \<open>The first \<open>i\<close> satellites are drawn and counted.\<close>

definition noise_upto :: "nat \<Rightarrow> nmea_sat_info \<Rightarrow> bool" where
  "noise_upto i si \<longleftrightarrow>
     length (si_sat si) = 12 \<and> (\<forall>j<i. noise_sat_ok j (si_sat si ! j)) \<and>
     si_inuse si = count_if (\<lambda>s. sat_in_use s \<noteq> 0) (take i (si_sat si)) \<and>
     si_inview si = count_if (\<lambda>s. sat_sig s > 0) (take i (si_sat si))"

lemma noise_upto_step:
  assumes "noise_upto i si" and "i < 12" and "noise_sat_ok i sat"
  shows "noise_upto (Suc i) (add_sat i sat si)"
proof -
  have "take (Suc i) ((si_sat si)[i := sat]) = take i (si_sat si) @ [sat]"
    using assms(1,2) by (simp add: noise_upto_def take_Suc_conv_app_nth)
  with assms show ?thesis by (auto simp: noise_upto_def add_sat_def nth_list_update less_Suc_eq)
qed

lemma noise_sig_spec:
  "rspec (if u \<noteq> 0 then nmea_random 40 99 else nmea_random 0 40)
     (\<lambda>x. 0 \<le> dbl_int x \<and> dbl_int x \<le> 99 \<and> (u \<noteq> 0 \<longrightarrow> 40 \<le> dbl_int x))"
  using rspec_random_int [of 40 99] rspec_random_int [of 0 40] by (auto elim!: rspec_weaken)

lemma noise_sats_spec:
  "noise_upto i si \<Longrightarrow> i + n = 12 \<Longrightarrow> rspec (noise_sats [i..<12] si) (noise_upto 12)"
proof (induction n arbitrary: i si)
  case 0
  then show ?case by (auto intro: rspec_return)
next
  case (Suc n)
  then have c: "[i..<12] = i # [Suc i..<12]" by (simp add: upt_conv_Cons)
  show ?case
    unfolding c noise_sats.simps
    by (rule rspec_bind [OF rspec_random_int [of 0 3, simplified]],
        rule rspec_bind [OF rspec_random_int [of 0 90, simplified]],
        rule rspec_bind [OF rspec_random_int [of 0 359, simplified]],
        rule rspec_bind [OF noise_sig_spec])
       (use Suc.prems in \<open>auto intro!: Suc.IH noise_upto_step simp: noise_sat_ok_def\<close>)
qed

text \<open>Every satellite in use has a signal, so it is in view.\<close>

lemma noise_upto_counts:
  assumes "noise_upto 12 si"
  shows "0 \<le> si_inuse si \<and> si_inuse si \<le> si_inview si \<and> si_inview si \<le> 12"
proof -
  let ?U = "\<lambda>s. sat_in_use s \<noteq> 0" and ?V = "\<lambda>s. sat_sig s > 0"
  have "noise_sat_ok j (si_sat si ! j)" if "j < length (si_sat si)" for j
    using assms that by (auto simp: noise_upto_def)
  then have "?U s \<longrightarrow> ?V s" if "s \<in> set (si_sat si)" for s
    using that by (fastforce simp: in_set_conv_nth noise_sat_ok_def)
  then have "filter ?U (si_sat si) = filter ?U (filter ?V (si_sat si))"
    by (auto intro!: filter_cong)
  then have "length (filter ?U (si_sat si)) \<le> length (filter ?V (si_sat si))"
    by (metis length_filter_le)
  moreover have "length (filter ?V (si_sat si)) \<le> 12"
    using assms by (metis noise_upto_def length_filter_le)
  ultimately show ?thesis using assms by (simp add: noise_upto_def count_if_def)
qed

definition noise_ok :: "nmea_info \<Rightarrow> bool" where
  "noise_ok i \<longleftrightarrow>
     in_sig i \<in> {1..3} \<and> in_fix i \<in> {2..3} \<and> in_PDOP i \<in> {0..9} \<and> in_HDOP i \<in> {0..9} \<and>
     in_VDOP i \<in> {0..9} \<and> in_lat i \<in> {0..100} \<and> in_lon i \<in> {0..100} \<and> in_speed i \<in> {0..100} \<and>
     in_direction i \<in> {0..360} \<and> in_elv i \<in> {- 100..100} \<and> noise_upto 12 (in_satinfo i)"

lemma noise_info_spec:
  assumes "info_wf info"
  shows "rspec (noise_info info) noise_ok"
proof -
  have si: "rspec (noise_sats [0..<12] ((in_satinfo info)\<lparr>si_inuse := 0, si_inview := 0\<rparr>)) (noise_upto 12)"
    by (rule noise_sats_spec [where n = 12])
       (use assms in \<open>auto simp: noise_upto_def info_wf_def sat_info_wf_def NMEA_MAXSAT_def\<close>)
  show ?thesis
    unfolding noise_info_def
    by (rule rspec_bind [OF rspec_random_int [of 1 3, simplified]],
        rule rspec_bind [OF rspec_random [of 0 9]], simp,
        rule rspec_bind [OF rspec_random [of 0 9]], simp,
        rule rspec_bind [OF rspec_random [of 0 9]], simp,
        rule rspec_bind [OF rspec_random_int [of 2 3, simplified]],
        rule rspec_bind [OF rspec_random [of 0 100]], simp,
        rule rspec_bind [OF rspec_random [of 0 100]], simp,
        rule rspec_bind [OF rspec_random [of 0 100]], simp,
        rule rspec_bind [OF rspec_random [of 0 360]], simp,
        rule rspec_bind [OF rspec_random [of 0 360]], simp,
        rule rspec_bind [OF rspec_random_int [of "- 100" 100, simplified]],
        rule rspec_bind [OF si])
       (rule rspec_return, simp add: noise_ok_def)
qed

text \<open>One turn of the noise generator returns 1 and draws every value in its range: the satellites are
  numbered 0 to 11, those in use have a signal of at least 40, and the counters count them, so that no
  more are in use than in view.\<close>

theorem noise_loop_ranges:
  assumes "rand_ok w" and "info_wf info"
  shows "\<exists>info' w'. nmea_igen_noise_loop info w = Inr (1, info', w') \<and> noise_ok info' \<and> rand_ok w' \<and>
    0 \<le> si_inuse (in_satinfo info') \<and> si_inuse (in_satinfo info') \<le> si_inview (in_satinfo info') \<and>
    si_inview (in_satinfo info') \<le> 12"
proof -
  obtain info' w' where r: "run_state (noise_info info) w = (info', w')" by fastforce
  with noise_info_spec [OF assms(2)] assms(1) have "noise_ok info'" "rand_ok w'"
    by (auto simp: rspec_def)
  with r show ?thesis
    using noise_upto_counts by (auto simp: nmea_igen_noise_loop_def noise_ok_def)
qed

subsection \<open>Rotation\<close>

lemma dbl_int_of_int [simp]: "dbl_int (of_int n) = n"
  by (simp add: dbl_int_def)

lemma sdiv_pos: "0 \<le> a \<Longrightarrow> 0 < b \<Longrightarrow> a sdiv b = a div (b :: int)"
  by (cases "a = 0") (simp_all add: signed_divide_int_def sgn_mult)

definition turn :: "int \<Rightarrow> nmea_satellite \<Rightarrow> nmea_satellite" where
  "turn az s = s\<lparr>sat_azimuth := (if az \<ge> 360 then az - 360 else az)\<rparr>"

lemma rotate_sats_spec:
  "it + k \<le> length sats \<Longrightarrow>
   \<exists>sats'. rotate_sats it k (of_int deg) (of_int srt) sats = Inr sats' \<and> length sats' = length sats \<and>
     (\<forall>j. sats' ! j =
        (if it \<le> j \<and> j < it + k then turn (srt + int (j - it) * deg) (sats ! j) else sats ! j))"
proof (induction k arbitrary: it srt sats)
  case (Suc k)
  define sats1 where "sats1 = sats[it := turn srt (sats ! it)]"
  have "turn srt (sats ! it) =
      (sats ! it)\<lparr>sat_azimuth := dbl_int (if real_of_int srt \<ge> 360 then real_of_int srt - 360 else real_of_int srt)\<rparr>"
    using dbl_int_of_int [of "srt - 360"] by (simp add: turn_def)
  moreover have "Suc it + k \<le> length sats1" using Suc.prems by (simp add: sats1_def)
  ultimately have "\<exists>sats'. rotate_sats it (Suc k) (of_int deg) (of_int srt) sats = Inr sats' \<and>
      length sats' = length sats1 \<and>
      (\<forall>j. sats' ! j = (if Suc it \<le> j \<and> j < Suc it + k
         then turn (srt + deg + int (j - Suc it) * deg) (sats1 ! j) else sats1 ! j))"
    using Suc.IH [of "Suc it" sats1 "srt + deg"] Suc.prems by (simp add: sats1_def)
  then obtain sats' where r: "rotate_sats it (Suc k) (of_int deg) (of_int srt) sats = Inr sats'"
    "length sats' = length sats1"
    and n: "\<And>j. sats' ! j = (if Suc it \<le> j \<and> j < Suc it + k
         then turn (srt + deg + int (j - Suc it) * deg) (sats1 ! j) else sats1 ! j)" by auto
  have "sats' ! j = (if it \<le> j \<and> j < it + Suc k then turn (srt + int (j - it) * deg) (sats ! j) else sats ! j)"
    for j
  proof (cases "j = it")
    case True
    with Suc.prems show ?thesis by (simp add: n sats1_def)
  next
    case False
    have e: "srt + deg + int (j - Suc it) * deg = srt + int (j - it) * deg" if "Suc it \<le> j"
      using that by (simp add: of_nat_diff algebra_simps)
    have "sats' ! j = (if Suc it \<le> j \<and> j < Suc it + k then turn (srt + int (j - it) * deg) (sats1 ! j)
        else sats1 ! j)"
      unfolding n by (rule if_cong) (simp_all only: e)
    with False show ?thesis by (simp add: sats1_def Suc_le_eq order_less_le)
  qed
  with r show ?case by (auto simp: sats1_def)
qed auto

text \<open>The distance between neighbours leaves the last satellite less than a full turn ahead.\<close>

lemma rotate_less:
  assumes "0 < c" "c \<le> 12" "j < nat c" "0 \<le> az" "az \<le> 359"
  shows "0 \<le> az + 5 + int j * (360 div c) \<and> az + 5 + int j * (360 div c) < 720"
proof -
  have "360 div c * c \<le> 360" using assms(1) pos_mod_sign [of c 360] by (simp add: minus_mod_eq_div_mult [symmetric])
  moreover have "30 \<le> 360 div c"
    using zdiv_mono2 [of 360 c 12] assms(1,2) by simp
  moreover have "int j * (360 div c) \<le> (c - 1) * (360 div c)"
    using assms(1,3) calculation(2) by (intro mult_right_mono) auto
  moreover have "(c - 1) * (360 div c) = 360 div c * c - 360 div c" by (simp add: algebra_simps)
  moreover have "0 \<le> int j * (360 div c)" using calculation(2) by simp
  ultimately show ?thesis using assms(4,5) by linarith
qed

lemma rotate_loop_spec:
  assumes "info_wf info" and "0 \<le> si_inview (in_satinfo info)" "si_inview (in_satinfo info) \<le> 12"
    and "sat_azimuth (si_sat (in_satinfo info) ! 0) \<in> {0..359}"
  shows "\<exists>info' w'. nmea_igen_rotate_loop info w = Inr (1, info', w') \<and> info_wf info' \<and>
    w' = w\<lparr>wd_nclock := wd_nclock w + 1\<rparr> \<and>
    (\<exists>t sats. info' = info\<lparr>in_utc := t, in_satinfo := (in_satinfo info)\<lparr>si_sat := sats\<rparr>\<rparr>) \<and>
    (\<forall>j<12. si_sat (in_satinfo info') ! j =
       (if int j < si_inview (in_satinfo info)
        then (si_sat (in_satinfo info) ! j)
          \<lparr>sat_azimuth := (sat_azimuth (si_sat (in_satinfo info) ! 0) + 5 +
             int j * (360 div si_inview (in_satinfo info))) mod 360\<rparr>
        else si_sat (in_satinfo info) ! j))"
proof -
  let ?si = "in_satinfo info"
  define c az where "c = si_inview ?si" and "az = sat_azimuth (si_sat ?si ! 0)"
  have len: "length (si_sat ?si) = 12"
    using assms(1) by (simp add: info_wf_def sat_info_wf_def NMEA_MAXSAT_def)
  have c: "0 \<le> c" "c \<le> 12" using assms(2,3) by (simp_all add: c_def)
  have nc: "0 + nat c \<le> length (si_sat ?si)" using c len by simp
  obtain sats' where r: "rotate_sats 0 (nat c) (of_int (360 sdiv (if c \<noteq> 0 then c else 1)))
        (of_int ((if c \<noteq> 0 then az else 0) + 5)) (si_sat ?si) = Inr sats'"
    and l: "length sats' = 12"
    and n: "\<And>j. sats' ! j = (if j < nat c
      then turn ((if c \<noteq> 0 then az else 0) + 5 + int j * (360 sdiv (if c \<noteq> 0 then c else 1))) (si_sat ?si ! j)
      else si_sat ?si ! j)"
    using rotate_sats_spec [OF nc, of "360 sdiv (if c \<noteq> 0 then c else 1)"
        "(if c \<noteq> 0 then az else 0) + 5", unfolded minus_nat.diff_0] len by auto
  have t: "sats' ! j = (si_sat ?si ! j)\<lparr>sat_azimuth := (az + 5 + int j * (360 div c)) mod 360\<rparr>"
    if "j < nat c" for j
  proof -
    have "0 \<le> az + 5 + int j * (360 div c) \<and> az + 5 + int j * (360 div c) < 720"
      using rotate_less [of c j az] that c assms(4) by (auto simp: az_def)
    then have "(az + 5 + int j * (360 div c)) mod 360 =
        (if az + 5 + int j * (360 div c) \<ge> 360 then az + 5 + int j * (360 div c) - 360
         else az + 5 + int j * (360 div c))"
      by (auto intro: mod_pos_pos_trivial simp: mod_pos_geq)
    with that show ?thesis by (simp add: n turn_def sdiv_pos)
  qed
  obtain i1 where s: "set_utc info w = (i1, w\<lparr>wd_nclock := wd_nclock w + 1\<rparr>)" "\<exists>t. i1 = info\<lparr>in_utc := t\<rparr>"
    by (auto simp: set_utc_def nmea_time_now_def Let_def)
  have "nmea_igen_rotate_loop info w =
      Inr (1, i1\<lparr>in_satinfo := ?si\<lparr>si_sat := sats'\<rparr>\<rparr>, w\<lparr>wd_nclock := wd_nclock w + 1\<rparr>)"
    unfolding nmea_igen_rotate_loop_def Let_def s(1) r [unfolded c_def az_def] prod.case bindR_simps
    by (rule refl)
  moreover have "si_sat ?si ! j = sats' ! j" if "\<not> int j < c" for j
    using that by (simp add: n)
  ultimately show ?thesis
    using s(2) l t c by (auto simp: info_wf_def sat_info_wf_def NMEA_MAXSAT_def c_def az_def)
qed

text \<open>One turn of the rotation moves satellite \<open>j\<close> in view to five degrees past the first one plus \<open>j\<close>
  equal parts of the circle, modulo 360, and changes nothing else but the time.\<close>

theorem rotate_loop_azimuths:
  assumes "info_wf info" and "0 \<le> si_inview (in_satinfo info)" "si_inview (in_satinfo info) \<le> 12"
    and "sat_azimuth (si_sat (in_satinfo info) ! 0) \<in> {0..359}"
  shows "\<exists>info' w'. nmea_igen_rotate_loop info w = Inr (1, info', w') \<and> info_wf info' \<and>
    w' = w\<lparr>wd_nclock := wd_nclock w + 1\<rparr> \<and>
    (\<exists>t sats. info' = info\<lparr>in_utc := t, in_satinfo := (in_satinfo info)\<lparr>si_sat := sats\<rparr>\<rparr>) \<and>
    (\<forall>j<12. si_sat (in_satinfo info') ! j =
       (if int j < si_inview (in_satinfo info)
        then (si_sat (in_satinfo info) ! j)
          \<lparr>sat_azimuth := (sat_azimuth (si_sat (in_satinfo info) ! 0) + 5 +
             int j * (360 div si_inview (in_satinfo info))) mod 360\<rparr>
        else si_sat (in_satinfo info) ! j))"
  using assms by (rule rotate_loop_spec)

subsection \<open>Movement\<close>

definition moving_ok :: "nmea_info \<Rightarrow> bool" where
  "moving_ok info \<longleftrightarrow> in_direction info \<in> {0..359} \<and> in_speed info \<in> {1..40}"

text \<open>A million radians are degrees that an \<open>int\<close> holds.\<close>

lemma info2pos_pos2info:
  assumes "\<bar>pos_lat p\<bar> \<le> 1000010" and "\<bar>pos_lon p\<bar> \<le> 1000010"
  shows "nmea_info2pos (nmea_pos2info p info) = p"
proof -
  have "0 < NMEA_PI180" "1 / 100 \<le> NMEA_PI180" by (simp_all add: NMEA_PI180_def NMEA_PI_def)
  then have "\<bar>x / NMEA_PI180\<bar> \<le> of_int INT_MAX" if "\<bar>x\<bar> \<le> 1000010" for x
    using that by (simp add: abs_divide divide_le_eq)
  with assms \<open>0 < NMEA_PI180\<close> show ?thesis
    by (cases p) (simp add: nmea_info2pos_def nmea_pos2info_def nmea_ndeg2radian_def nmea_radian2ndeg_def
      ndeg_inverse nmea_degree2radian_def nmea_radian2degree_def)
qed

text \<open>A step of the movement changes the longitude by less than one and a half turns.\<close>

lemma move_horz_bounded:
  assumes "\<bar>pos_lon p\<bar> \<le> 1000000"
  shows "\<bar>pos_lat (snd (nmea_move_horz p az d))\<bar> \<le> 1000010 \<and> \<bar>pos_lon (snd (nmea_move_horz p az d))\<bar> \<le> 1000010"
proof -
  have at: "\<bar>atan2 y x\<bar> \<le> 6" for y x
    using arctan_lbound [of "y / x"] arctan_ubound [of "y / x"] pi_less_4 by (auto simp: atan2_def)
  have as: "\<bar>arcsin x\<bar> \<le> 2" if "- 1 \<le> x" "x \<le> 1" for x
    using arcsin_bounded [OF that] pi_less_4 by auto
  have lon: "\<bar>pos_lon p + atan2 y x\<bar> \<le> 1000010" for y x using assms at [of y x] by linarith
  have lat: "\<bar>arcsin x\<bar> \<le> 1000010" if "- 1 \<le> x" "x \<le> 1" for x using as [OF that] by linarith
  show ?thesis using lon lat by (auto simp: nmea_move_horz_def Let_def c_asin_def)
qed

lemma rmove_steps:
  assumes "rand_ok w"
  obtains rd rs w2 where "nmea_igen_pos_rmove_loop info w =
      (let d0 = in_direction info + rd;
          s0 = in_speed info + rs;
          d1 = (if d0 < 0 then 359 + d0 else d0);
          d2 = (if d1 > 359 then d1 - 359 else d1);
          s1 = (if s0 > 40 then 40 else s0);
          s2 = (if s1 < 1 then 1 else s1);
          info1 = info\<lparr>in_direction := d2, in_speed := s2\<rparr>;
          crd = snd (nmea_move_horz (nmea_info2pos info1) d2 (s2 / 3600));
          info2 = nmea_pos2info crd info1
      in Inr (1, info2\<lparr>in_declination := in_direction info2\<rparr>, w2))"
    and "- 10 \<le> rd" "rd \<le> 10" "- 2 \<le> rs" "rs \<le> 3" "rand_ok w2"
proof -
  obtain rd w1 where 1: "run_state (nmea_random (- 10) 10) w = (rd, w1)" by fastforce
  with rspec_random [of "- 10" 10] assms have r1: "- 10 \<le> rd" "rd \<le> 10" "rand_ok w1"
    by (auto simp: rspec_def)
  obtain rs w2 where 2: "run_state (nmea_random (- 2) 3) w1 = (rs, w2)" by fastforce
  with rspec_random [of "- 2" 3] r1 have r2: "- 2 \<le> rs" "rs \<le> 3" "rand_ok w2"
    by (auto simp: rspec_def)
  from r1(1,2) r2 show ?thesis by (intro that [of rd rs w2]) (simp add: nmea_igen_pos_rmove_loop_def 1 2)
qed

lemma rmove_spec:
  assumes "rand_ok w" and "moving_ok info"
  shows "\<exists>info' w'. nmea_igen_pos_rmove_loop info w = Inr (1, info', w') \<and> rand_ok w' \<and> moving_ok info' \<and>
    in_declination info' = in_direction info' \<and> in_satinfo info' = in_satinfo info \<and>
    (\<bar>pos_lon (nmea_info2pos info)\<bar> \<le> 1000000 \<longrightarrow>
      nmea_info2pos info' = snd (nmea_move_horz (nmea_info2pos info) (in_direction info') (in_speed info' / 3600)))"
proof (rule rmove_steps [OF assms(1), of info])
  fix rd rs w2
  assume e: "nmea_igen_pos_rmove_loop info w =
      (let d0 = in_direction info + rd;
          s0 = in_speed info + rs;
          d1 = (if d0 < 0 then 359 + d0 else d0);
          d2 = (if d1 > 359 then d1 - 359 else d1);
          s1 = (if s0 > 40 then 40 else s0);
          s2 = (if s1 < 1 then 1 else s1);
          info1 = info\<lparr>in_direction := d2, in_speed := s2\<rparr>;
          crd = snd (nmea_move_horz (nmea_info2pos info1) d2 (s2 / 3600));
          info2 = nmea_pos2info crd info1
      in Inr (1, info2\<lparr>in_declination := in_direction info2\<rparr>, w2))"
    and r: "- 10 \<le> rd" "rd \<le> 10" "- 2 \<le> rs" "rs \<le> 3" "rand_ok w2"
  define d1 where "d1 = (if in_direction info + rd < 0 then 359 + (in_direction info + rd) else in_direction info + rd)"
  define d2 where "d2 = (if d1 > 359 then d1 - 359 else d1)"
  define s1 where "s1 = (if in_speed info + rs > 40 then 40 else in_speed info + rs)"
  define s2 where "s2 = (if s1 < 1 then 1 else s1)"
  define info1 where "info1 = info\<lparr>in_direction := d2, in_speed := s2\<rparr>"
  define crd where "crd = snd (nmea_move_horz (nmea_info2pos info1) d2 (s2 / 3600))"
  define info' where "info' = (nmea_pos2info crd info1)\<lparr>in_declination := in_direction (nmea_pos2info crd info1)\<rparr>"
  have "nmea_igen_pos_rmove_loop info w = Inr (1, info', w2)"
    unfolding e Let_def info'_def crd_def info1_def s2_def s1_def d2_def d1_def by (rule refl)
  moreover have "0 \<le> d1" "d1 \<le> 369" using r(1,2) assms(2) by (auto simp: d1_def moving_ok_def)
  then have "0 \<le> d2" "d2 \<le> 359" by (auto simp: d2_def)
  moreover have "1 \<le> s2" "s2 \<le> 40" by (auto simp: s2_def s1_def)
  moreover have "nmea_info2pos info' = nmea_info2pos (nmea_pos2info crd info1)"
    by (simp add: info'_def nmea_info2pos_def)
  moreover have "nmea_info2pos info1 = nmea_info2pos info" by (simp add: info1_def nmea_info2pos_def)
  moreover have "in_direction info' = d2" "in_speed info' = s2" "in_declination info' = d2"
    "in_satinfo info' = in_satinfo info"
    by (simp_all add: info'_def info1_def nmea_pos2info_def)
  ultimately show ?thesis
    using r(5) move_horz_bounded [of "nmea_info2pos info" d2 "s2 / 3600"]
    by (auto simp: moving_ok_def info2pos_pos2info crd_def)
qed

text \<open>One turn of the random movement keeps the direction within [0, 359] and the speed within
  [1, 40] km/h, sets the declination to the direction, and moves the position along the surface by
  exactly the metres that the new speed covers in one second; the longitude, which is not reduced to one turn, must
  still be in the range of the conversions.\<close>

theorem rmove_loop_distance:
  assumes "rand_ok w" and "moving_ok info" and "0 < cos (pos_lat (nmea_info2pos info))"
    and "\<bar>pos_lon (nmea_info2pos info)\<bar> \<le> 1000000"
  shows "\<exists>info' w'. nmea_igen_pos_rmove_loop info w = Inr (1, info', w') \<and> moving_ok info' \<and>
    in_declination info' = in_direction info' \<and>
    nmea_distance (nmea_info2pos info) (nmea_info2pos info') = in_speed info' * 1000 / 3600"
proof -
  obtain info' w' where i: "nmea_igen_pos_rmove_loop info w = Inr (1, info', w')" "moving_ok info'"
    "in_declination info' = in_direction info'"
    and p: "nmea_info2pos info' =
      snd (nmea_move_horz (nmea_info2pos info) (in_direction info') (in_speed info' / 3600))"
    using rmove_spec [OF assms(1,2)] assms(4) by auto
  have "in_speed info' / 3600 \<le> 1" using i(2) by (simp add: moving_ok_def)
  also have "1 \<le> pi * NMEA_EARTHRADIUS_KM" using pi_ge_two by (simp add: NMEA_EARTHRADIUS_KM_def)
  finally obtain q where "nmea_move_horz (nmea_info2pos info) (in_direction info') (in_speed info' / 3600) = (1, q)"
    "nmea_distance (nmea_info2pos info) q = 1000 * (in_speed info' / 3600)"
    using move_horz_len [OF assms(3), of "in_speed info' / 3600"] i(2) by (auto simp: moving_ok_def)
  with i p show ?thesis by auto
qed

subsection \<open>Life of the combined generator\<close>

definition rotate_chain :: "nat \<Rightarrow> nmeaGENERATOR list" where
  "rotate_chain a =
     [\<lparr>gen_addr = a, init_call = Some nmea_igen_rotate_init, loop_call = Some nmea_igen_rotate_loop,
       reset_call = Some nmea_igen_rotate_reset, destroy_call = None\<rparr>,
      \<lparr>gen_addr = a + 1, init_call = Some nmea_igen_pos_rmove_init,
       loop_call = Some nmea_igen_pos_rmove_loop, reset_call = None,
       destroy_call = Some nmea_igen_pos_rmove_destroy\<rparr>]"

text \<open>What every turn of the loop keeps.\<close>

definition rotating_ok :: "nmea_info \<Rightarrow> bool" where
  "rotating_ok info \<longleftrightarrow> info_wf info \<and> moving_ok info \<and> si_inview (in_satinfo info) = 8 \<and>
     (\<forall>j<8. sat_azimuth (si_sat (in_satinfo info) ! j) \<in> {0..359})"

lemma rotate_chain_loop:
  assumes "rand_ok w" and "rotating_ok info"
  shows "\<exists>info' w'. nmea_gen_loop (rotate_chain a) info w = Inr (1, info', w') \<and> rand_ok w' \<and> rotating_ok info'"
proof -
  obtain t sats where r: "nmea_igen_rotate_loop info w = Inr (1, info\<lparr>in_utc := t, in_satinfo :=
        (in_satinfo info)\<lparr>si_sat := sats\<rparr>\<rparr>, w\<lparr>wd_nclock := wd_nclock w + 1\<rparr>)"
    and l: "length sats = 12" and az: "\<forall>j<8. sat_azimuth (sats ! j) \<in> {0..359}"
    using rotate_loop_spec [of info w] assms(2)
    by (fastforce simp: rotating_ok_def info_wf_def sat_info_wf_def NMEA_MAXSAT_def)
  let ?i = "info\<lparr>in_utc := t, in_satinfo := (in_satinfo info)\<lparr>si_sat := sats\<rparr>\<rparr>"
  have "rand_ok (w\<lparr>wd_nclock := wd_nclock w + 1\<rparr>)" using assms(1) by (simp add: rand_ok_def)
  moreover have "moving_ok ?i" using assms(2) by (simp add: rotating_ok_def moving_ok_def)
  ultimately obtain info' w' where m: "nmea_igen_pos_rmove_loop ?i (w\<lparr>wd_nclock := wd_nclock w + 1\<rparr>) =
      Inr (1, info', w')" "rand_ok w'" "moving_ok info'" "in_satinfo info' = in_satinfo ?i"
    using rmove_spec by blast
  then have "rotating_ok info'"
    using assms(2) l az by (simp add: rotating_ok_def info_wf_def sat_info_wf_def NMEA_MAXSAT_def)
  with r m show ?thesis by (simp add: rotate_chain_def call_or_def)
qed

fun gen_turns :: "nat \<Rightarrow> nmeaGENERATOR list \<Rightarrow> gen_call" where
  "gen_turns 0 gen info w = Inr (1, info, w)"
| "gen_turns (Suc n) gen info w = bindR (nmea_gen_loop gen info w) (\<lambda>(r, i, w'). gen_turns n gen i w')"

lemma gen_turns_ok:
  "rand_ok w \<Longrightarrow> rotating_ok info \<Longrightarrow>
   \<exists>info' w'. gen_turns n (rotate_chain a) info w = Inr (1, info', w') \<and> rotating_ok info'"
proof (induction n arbitrary: info w)
  case (Suc n)
  then show ?case using rotate_chain_loop [OF Suc.prems, of a] by fastforce
qed simp

lemma create_rotate:
  assumes "wd_malloc w (wd_nmalloc w)" "wd_malloc w (wd_nmalloc w + 1)"
  shows "create_generator NMEA_GEN_ROTATE w =
    Inr (rotate_chain (wd_nmalloc w), w\<lparr>wd_nmalloc := wd_nmalloc w + 2\<rparr>)"
  using assms by (simp add: create_generator_def create_single_def new_gen_def gen_types Let_def rotate_chain_def)

lemma rotate_reset_azimuths:
  "length sats = 12 \<Longrightarrow> \<exists>sats'. rotate_reset_sats 0 8 (of_int (360 sdiv 8)) 0 sats = Inr sats' \<and>
     length sats' = 12 \<and> (\<forall>j<8. sat_azimuth (sats' ! j) = 45 * int j)"
  by (simp add: eval_nat_numeral less_Suc_eq nth_list_update dbl_int_def)

lemma init_rotate:
  "\<exists>info'. nmea_gen_init (rotate_chain a) info w = Inr (1, info', w) \<and> rotating_ok info'"
proof -
  obtain sats' where "rotate_reset_sats 0 8 (of_int (360 sdiv 8)) 0 (replicate 12 zero_sat) = Inr sats'"
     "length sats' = 12" "\<forall>j<8. sat_azimuth (sats' ! j) = 45 * int j"
    using rotate_reset_azimuths [of "replicate 12 zero_sat"] by auto
  then show ?thesis
    by (auto simp: nmea_gen_init_def rotate_chain_def nmea_igen_rotate_init_def nmea_igen_rotate_reset_def
      nmea_igen_pos_rmove_init_def nmea_zero_INFO_def zero_info_def rotating_ok_def moving_ok_def
      info_wf_def sat_info_wf_def NMEA_MAXSAT_def)
qed

text \<open>C20: when both allocations succeed, the combined generator is the rotation followed by the random
  movement, and however many turns of its loop are run, each succeeds and leaves eight satellites in
  view with azimuths in [0, 359], a direction in [0, 359] and a speed in [1, 40].\<close>

theorem rotate_generator_runs:
  assumes "rand_ok w" and "wd_malloc w (wd_nmalloc w)" "wd_malloc w (wd_nmalloc w + 1)"
  shows "\<exists>gen info1 w1 info' w'. nmea_create_generator NMEA_GEN_ROTATE info w = Inr (gen, info1, w1) \<and>
    length gen = 2 \<and> gen_turns n gen info1 w1 = Inr (1, info', w') \<and> rotating_ok info' \<and>
    nmea_destroy_generator gen = Inr [wd_nmalloc w + 1, wd_nmalloc w]"
proof -
  let ?g = "rotate_chain (wd_nmalloc w)" and ?w = "w\<lparr>wd_nmalloc := wd_nmalloc w + 2\<rparr>"
  obtain info1 where i: "nmea_gen_init ?g info ?w = Inr (1, info1, ?w)" "rotating_ok info1"
    using init_rotate by blast
  have "rand_ok ?w" using assms(1) by (simp add: rand_ok_def)
  with i(2) obtain info' w' where t: "gen_turns n ?g info1 ?w = Inr (1, info', w')" "rotating_ok info'"
    using gen_turns_ok by blast
  have "nmea_create_generator NMEA_GEN_ROTATE info w = Inr (?g, info1, ?w)"
    using create_rotate [OF assms(2,3)] i(1) by (simp add: nmea_create_generator_def rotate_chain_def)
  moreover have "nmea_destroy_generator ?g = Inr [wd_nmalloc w + 1, wd_nmalloc w]" "length ?g = 2"
    by (simp_all add: nmea_destroy_generator_def rotate_chain_def)
  ultimately show ?thesis using t by blast
qed

text \<open>When the first allocation fails, creating the combined generator dereferences the null pointer
  in \<open>nmea_gen_add\<close>, where every other type returns null.\<close>

theorem rotate_create_null:
  assumes "\<not> wd_malloc w (wd_nmalloc w)"
  shows "nmea_create_generator NMEA_GEN_ROTATE info w = Inl Null_pointer \<and>
    (ty \<noteq> NMEA_GEN_ROTATE \<longrightarrow> (\<exists>w'. nmea_create_generator ty info w = Inr ([], info, w')))"
  using assms
  by (simp add: nmea_create_generator_def create_generator_def create_single_def new_gen_def gen_types Let_def
    split_beta)

subsection \<open>Witnesses\<close>

definition demo_world :: world where
  "demo_world = \<lparr>wd_rand_max = 32767, wd_rand = (\<lambda>n. int (n mod 32768)), wd_nrand = 0,
     wd_clock = (\<lambda>n. \<lparr>tm_sec = 0, tm_min = 0, tm_hour = 12, tm_mday = 1, tm_mon = 0, tm_year = 100\<rparr>),
     wd_nclock = 0, wd_malloc = (\<lambda>n. n < 100), wd_nmalloc = 0\<rparr>"

lemma demo_world_ok [simp]: "rand_ok demo_world"
proof -
  have "int (n mod 32768) \<le> 32767" for n
    using mod_less_divisor [of 32768 n] by linarith
  then show ?thesis by (simp add: demo_world_def rand_ok_def)
qed

theorem noise_loop_ranges_witness:
  "\<exists>info' w'. nmea_igen_noise_loop zero_info demo_world = Inr (1, info', w') \<and> noise_ok info' \<and> rand_ok w' \<and>
    0 \<le> si_inuse (in_satinfo info') \<and> si_inuse (in_satinfo info') \<le> si_inview (in_satinfo info') \<and>
    si_inview (in_satinfo info') \<le> 12"
  by (rule noise_loop_ranges) simp_all

theorem rotate_loop_azimuths_witness:
  "\<exists>info' w'. nmea_igen_rotate_loop (zero_info\<lparr>in_satinfo := (in_satinfo zero_info)\<lparr>si_inview := 8\<rparr>\<rparr>) demo_world =
     Inr (1, info', w') \<and> sat_azimuth (si_sat (in_satinfo info') ! 7) = 320"
  using rotate_loop_azimuths [of "zero_info\<lparr>in_satinfo := (in_satinfo zero_info)\<lparr>si_inview := 8\<rparr>\<rparr>" demo_world]
  by (auto simp: zero_info_def zero_sat_def info_wf_def sat_info_wf_def NMEA_MAXSAT_def)

theorem rmove_loop_distance_witness:
  "\<exists>info' w'. nmea_igen_pos_rmove_loop (zero_info\<lparr>in_speed := 20\<rparr>) demo_world = Inr (1, info', w') \<and>
     moving_ok info' \<and> in_declination info' = in_direction info' \<and>
     nmea_distance (nmea_info2pos (zero_info\<lparr>in_speed := 20\<rparr>)) (nmea_info2pos info') = in_speed info' * 1000 / 3600"
  by (rule rmove_loop_distance)
     (simp_all add: moving_ok_def zero_info_def nmea_info2pos_def nmea_ndeg2radian_def nmea_ndeg2degree_def
       nmea_degree2radian_def to_int_def)

theorem rotate_generator_runs_witness:
  "\<exists>gen info1 w1 info' w'. nmea_create_generator NMEA_GEN_ROTATE zero_info demo_world = Inr (gen, info1, w1) \<and>
    length gen = 2 \<and> gen_turns 50 gen info1 w1 = Inr (1, info', w') \<and> rotating_ok info' \<and>
    nmea_destroy_generator gen = Inr [1, 0]"
  using rotate_generator_runs [of demo_world zero_info 50] by (simp add: demo_world_def [THEN arg_cong, of wd_malloc]
    demo_world_def [THEN arg_cong, of wd_nmalloc])

theorem rotate_create_null_witness:
  "nmea_create_generator NMEA_GEN_ROTATE zero_info (demo_world\<lparr>wd_nmalloc := 100\<rparr>) = Inl Null_pointer \<and>
   (NMEA_GEN_NOISE \<noteq> NMEA_GEN_ROTATE \<longrightarrow>
     (\<exists>w'. nmea_create_generator NMEA_GEN_NOISE zero_info (demo_world\<lparr>wd_nmalloc := 100\<rparr>) = Inr ([], zero_info, w')))"
  by (rule rotate_create_null) (simp add: demo_world_def)

end
