(* ===== verification/Rt_Def.thy ===== *)
theory Rt_Def
  imports Nmea_Prelude
begin

text \<open>
  What the kernel modules share from \<open>rtdef.h\<close>: the error codes, and the alignment macros on unbounded
  integers; a user of a narrower type reduces the result to its width.  \<open>RT_ALIGN_SIZE\<close> is 4 in the
  \<open>rtconfig.h\<close> of the boards.
\<close>

definition RT_EOK :: int where "RT_EOK = 0"
definition RT_ERROR :: int where "RT_ERROR = 1"
definition RT_ETIMEOUT :: int where "RT_ETIMEOUT = 2"
definition RT_EFULL :: int where "RT_EFULL = 3"
definition RT_EEMPTY :: int where "RT_EEMPTY = 4"
definition RT_ENOMEM :: int where "RT_ENOMEM = 5"
definition RT_EINVAL :: int where "RT_EINVAL = 10"

lemma error_codes [simp]: "RT_EOK = 0" "RT_ERROR = 1" "RT_ETIMEOUT = 2" "RT_EFULL = 3" "RT_EEMPTY = 4"
  "RT_ENOMEM = 5" "RT_EINVAL = 10"
  by (simp_all add: RT_EOK_def RT_ERROR_def RT_ETIMEOUT_def RT_EFULL_def RT_EEMPTY_def RT_ENOMEM_def RT_EINVAL_def)

text \<open>A value stored into the 15-bit fields of the queues.\<close>

definition idx15 :: "nat \<Rightarrow> nat" where
  "idx15 n = n mod 2 ^ 15"

text \<open>The first \<open>n\<close> places of a ring of \<open>n\<close> differ.\<close>

lemma ring_slots:
  fixes g :: nat
  assumes "g < n" "k < l" "l < n"
  shows "(g + k) mod n \<noteq> (g + l) mod n"
  using assms by (simp add: mod_if) linarith

definition RT_ALIGN_SIZE :: int where "RT_ALIGN_SIZE = 4"

definition RT_ALIGN :: "int \<Rightarrow> int \<Rightarrow> int" where
  "RT_ALIGN sz align = (sz + align - 1) AND NOT (align - 1)"

definition RT_ALIGN_DOWN :: "int \<Rightarrow> int \<Rightarrow> int" where
  "RT_ALIGN_DOWN sz align = sz AND NOT (align - 1)"

lemma align_down_4: "RT_ALIGN_DOWN n RT_ALIGN_SIZE = n - n mod 4"
proof -
  have "n AND NOT (mask k) = push_bit k (drop_bit k n)" for k
    by (rule bit_eqI) (auto simp: bit_simps)
  from this [of 2] have "n AND NOT (mask 2) = push_bit 2 (drop_bit 2 n)" .
  moreover have "push_bit 2 (drop_bit 2 n) = n - take_bit 2 n"
    using bits_ident [of 2 n] by simp
  ultimately show ?thesis
    by (simp add: RT_ALIGN_DOWN_def RT_ALIGN_SIZE_def mask_eq_exp_minus_1 take_bit_eq_mod)
qed

lemma align_up_4: "RT_ALIGN n 4 = (n + 3) - (n + 3) mod 4"
  using align_down_4 [of "n + 3"] by (simp add: RT_ALIGN_def RT_ALIGN_DOWN_def RT_ALIGN_SIZE_def add.commute)

text \<open>The same on 32-bit sizes, which are natural numbers here.\<close>

definition size_up :: "nat \<Rightarrow> nat" where
  "size_up n = nat (RT_ALIGN (int n) RT_ALIGN_SIZE mod 2 ^ 32)"

definition size_down :: "nat \<Rightarrow> nat" where
  "size_down n = nat (RT_ALIGN_DOWN (int n) RT_ALIGN_SIZE)"

lemma size_down_eq: "size_down n = n div 4 * 4"
proof -
  have "RT_ALIGN_DOWN (int n) RT_ALIGN_SIZE = int (n div 4 * 4)"
    using align_down_4 [of "int n"] minus_mod_eq_div_mult [of "int n" 4] by (simp add: zdiv_int)
  then show ?thesis by (simp add: size_down_def)
qed

lemma size_up_eq: "size_up n = ((n + 4 - 1) mod 2 ^ 32) div 4 * 4"
proof -
  have "RT_ALIGN (int n) 4 = (int n + 3) div 4 * 4"
    using minus_mod_eq_div_mult [of "int n + 3" 4] by (simp add: align_up_4)
  moreover have "((int n + 3) div 4 * 4) mod 2 ^ 32 = ((int n + 3) mod 2 ^ 32) div 4 * 4"
  proof -
    have "(int n + 3) mod (4 * 2 ^ 30) = 4 * ((int n + 3) div 4 mod 2 ^ 30) + (int n + 3) mod 4"
      by (rule zmod_zmult2_eq) simp
    then have "(int n + 3) mod (4 * 2 ^ 30) div 4 = (int n + 3) div 4 mod 2 ^ 30" by simp
    then show ?thesis by (simp add: mod_mult_mult2 [of "(int n + 3) div 4" 4 "2 ^ 30", simplified])
  qed
  ultimately have "RT_ALIGN (int n) RT_ALIGN_SIZE mod 2 ^ 32 = int (((n + 4 - 1) mod 2 ^ 32) div 4 * 4)"
    by (simp add: zdiv_int zmod_int RT_ALIGN_SIZE_def add.commute)
  then show ?thesis by (simp add: size_up_def)
qed

end
