(* ===== verification/Rt_Threads.thy ===== *)
theory Rt_Threads
  imports Rt_Def "HOL-Library.Multiset"
begin

text \<open>
  Threads that wait on the list of a kernel object.  A call that has to wait suspends its thread; somebody
  else resumes it, and it goes on with the test it was stopped at.  A thread is outside of the object,
  suspended in a call, or ready to go on with its call after it was resumed, with its error number
  (\<open>thread->error\<close>).  The type of calls is a parameter; a list of waiters belongs to the calls of one kind,
  told by a predicate.
\<close>

datatype 'c thread_state = Idle | Waiting 'c | Ready 'c int

type_synonym 'c threads = "nat \<Rightarrow> 'c thread_state"

text \<open>\<open>rt_thread_resume\<close> makes a suspended thread ready.\<close>

definition wake_thread :: "nat \<Rightarrow> int \<Rightarrow> 'c threads \<Rightarrow> 'c threads" where
  "wake_thread u err th = (case th u of Waiting c \<Rightarrow> th(u := Ready c err) | _ \<Rightarrow> th)"

text \<open>The thread that runs now is outside (it calls) or ready (it goes on).\<close>

definition runs :: "'c threads \<Rightarrow> nat \<Rightarrow> 'c \<Rightarrow> int option \<Rightarrow> bool" where
  "runs th t c woken \<longleftrightarrow> (case woken of None \<Rightarrow> th t = Idle | Some err \<Rightarrow> th t = Ready c err)"

text \<open>A list holds exactly the suspended threads of its kind.\<close>

definition waiters :: "('c \<Rightarrow> bool) \<Rightarrow> 'c threads \<Rightarrow> nat list \<Rightarrow> bool" where
  "waiters P th ts \<longleftrightarrow> distinct ts \<and> (\<forall>t. t \<in> set ts \<longleftrightarrow> (\<exists>c. th t = Waiting c \<and> P c))"

text \<open>The threads of a kind that were resumed without an error.\<close>

definition ready :: "('c \<Rightarrow> bool) \<Rightarrow> 'c threads \<Rightarrow> nat set" where
  "ready P th = {t. \<exists>c. th t = Ready c RT_EOK \<and> P c}"

definition finite_threads :: "'c threads \<Rightarrow> bool" where
  "finite_threads th \<longleftrightarrow> finite {t. th t \<noteq> Idle}"

subsection \<open>A thread leaves or blocks\<close>

lemma runs_not_waiting: "runs th t c woken \<Longrightarrow> th t \<noteq> Waiting c'"
  by (auto simp: runs_def split: option.splits)

lemma runs_own: "runs th t c woken \<Longrightarrow> t \<in> ready P th \<Longrightarrow> P c"
  by (auto simp: runs_def ready_def split: option.splits)

lemma finite_threads_upd [simp]: "finite_threads th \<Longrightarrow> finite_threads (th(t := v))"
  unfolding finite_threads_def by (rule finite_subset [of _ "insert t {t. th t \<noteq> Idle}"]) auto

lemma finite_threads_wake [simp]: "finite_threads th \<Longrightarrow> finite_threads (wake_thread u err th)"
  by (simp add: wake_thread_def split: thread_state.split)

lemma finite_ready [simp]: "finite_threads th \<Longrightarrow> finite (ready P th)"
  unfolding finite_threads_def by (rule finite_subset) (auto simp: ready_def)

lemma waiters_other:
  "waiters P th ts \<Longrightarrow> runs th t c woken \<Longrightarrow> (\<And>c'. v = Waiting c' \<Longrightarrow> \<not> P c') \<Longrightarrow> waiters P (th(t := v)) ts"
  by (auto simp: waiters_def dest: runs_not_waiting)

lemma waiters_block:
  "waiters P th ts \<Longrightarrow> runs th t c woken \<Longrightarrow> P c' \<Longrightarrow> waiters P (th(t := Waiting c')) (ts @ [t])"
  "waiters P th ts \<Longrightarrow> runs th t c woken \<Longrightarrow> P c' \<Longrightarrow> waiters P (th(t := Waiting c')) (t # ts)"
  by (auto simp: waiters_def dest: runs_not_waiting)

lemma ready_upd:
  "ready P (th(t := v)) = (if \<exists>c. v = Ready c RT_EOK \<and> P c then insert t (ready P th) else ready P th - {t})"
  by (auto simp: ready_def)

lemma ready_leave:
  assumes "finite_threads th" and "runs th t c woken" and "\<And>c e. v \<noteq> Ready c e"
  shows "\<not> P c \<Longrightarrow> ready P (th(t := v)) = ready P th"
    and "card (ready P th) \<le> Suc (card (ready P (th(t := v))))"
proof -
  have upd: "ready P (th(t := v)) = ready P th - {t}" using assms(3) by (simp add: ready_upd)
  show "\<not> P c \<Longrightarrow> ready P (th(t := v)) = ready P th" using runs_own [OF assms(2)] by (auto simp: upd)
  show "card (ready P th) \<le> Suc (card (ready P (th(t := v))))"
    using assms(1) by (auto simp: upd card_Diff_singleton_if)
qed

text \<open>A thread that comes back with an error, or was outside, was not counted.\<close>

lemma ready_error:
  "runs th t c woken \<Longrightarrow> woken \<noteq> Some RT_EOK \<Longrightarrow> (\<And>c e. v \<noteq> Ready c e) \<Longrightarrow> ready P (th(t := v)) = ready P th"
  by (auto simp: ready_def runs_def split: option.splits)

subsection \<open>A thread is resumed\<close>

lemma waiters_waiting: "waiters P th (u # us) \<Longrightarrow> \<exists>c. th u = Waiting c \<and> P c"
  by (auto simp: waiters_def)

lemma waiters_wake:
  assumes "waiters P th (u # us)"
  shows "waiters P (wake_thread u err th) us"
proof -
  obtain c where "th u = Waiting c" using waiters_waiting [OF assms] by blast
  with assms show ?thesis by (auto simp: waiters_def wake_thread_def)
qed

lemma waiters_wake_other:
  assumes "waiters P th (u # us)" and "waiters Q th ts" and "\<And>c. P c \<Longrightarrow> \<not> Q c"
  shows "waiters Q (wake_thread u err th) ts"
proof -
  obtain c where c: "th u = Waiting c" "P c" using waiters_waiting [OF assms(1)] by blast
  with assms(2,3) show ?thesis by (auto simp: waiters_def wake_thread_def)
qed

lemma ready_wake:
  assumes "finite_threads th" and "waiters P th (u # us)"
  shows "card (ready P (wake_thread u RT_EOK th)) = Suc (card (ready P th))"
    and "(\<And>c. P c \<Longrightarrow> \<not> Q c) \<Longrightarrow> ready Q (wake_thread u err th) = ready Q th"
proof -
  obtain c where u: "th u = Waiting c" "P c" using waiters_waiting [OF assms(2)] by blast
  then have "u \<notin> ready R th" for R by (simp add: ready_def)
  with u assms(1) show "card (ready P (wake_thread u RT_EOK th)) = Suc (card (ready P th))"
    "(\<And>c. P c \<Longrightarrow> \<not> Q c) \<Longrightarrow> ready Q (wake_thread u err th) = ready Q th"
    by (auto simp: wake_thread_def ready_upd)
qed

subsection \<open>Timers and resets\<close>

lemma waiters_timeout:
  "waiters P th ts \<Longrightarrow> th t = Waiting c \<Longrightarrow> waiters P (th(t := Ready c err)) (remove1 t ts)"
  by (auto simp: waiters_def)

lemma ready_timeout: "th t = Waiting c \<Longrightarrow> err \<noteq> RT_EOK \<Longrightarrow> ready P (th(t := Ready c err)) = ready P th"
  by (auto simp: ready_def)

text \<open>All threads of a list are resumed with an error.\<close>

definition wake_all :: "int \<Rightarrow> nat list \<Rightarrow> 'c threads \<Rightarrow> 'c threads" where
  "wake_all err ts th = fold (\<lambda>u. wake_thread u err) ts th"

lemma wake_all_at:
  "wake_all err ts th t = (case th t of Waiting c \<Rightarrow> if t \<in> set ts then Ready c err else th t | _ \<Rightarrow> th t)"
  unfolding wake_all_def
  by (induction ts arbitrary: th) (auto simp: wake_thread_def split: thread_state.splits)

lemma finite_threads_wake_all [simp]: "finite_threads th \<Longrightarrow> finite_threads (wake_all err ts th)"
  unfolding finite_threads_def
  by (rule finite_subset [of _ "{t. th t \<noteq> Idle}"]) (auto simp: wake_all_at split: thread_state.splits if_splits)

lemma waiters_wake_all: "waiters P th ts \<Longrightarrow> set ts \<subseteq> set us \<Longrightarrow> waiters P (wake_all err us th) []"
  by (auto simp: waiters_def wake_all_at split: thread_state.splits if_splits)

lemma ready_wake_all: "err \<noteq> RT_EOK \<Longrightarrow> ready P (wake_all err ts th) = ready P th"
  unfolding ready_def wake_all_at by (rule Collect_cong) (auto split: thread_state.split)

text \<open>A thread is put somewhere into the list.\<close>

lemma waiters_insert:
  assumes "waiters P th ts" and "runs th t c woken" and "P c'" and "mset ts' = add_mset t (mset ts)"
  shows "waiters P (th(t := Waiting c')) ts'"
proof -
  have "mset ts' = mset (t # ts)" using assms(4) by simp
  then have "set ts' = set (t # ts)" "distinct ts' = distinct (t # ts)"
    by (rule mset_eq_setD, rule mset_eq_imp_distinct_iff)
  then show ?thesis using assms(1,2,3) by (auto simp: waiters_def dest: runs_not_waiting)
qed

lemma waiters_idle [simp]: "waiters P (\<lambda>t. Idle) []" "finite_threads (\<lambda>t. Idle)" "ready P (\<lambda>t. Idle) = {}"
  by (simp_all add: waiters_def finite_threads_def ready_def)

subsection \<open>One side of a channel\<close>

text \<open>
  The threads of a kind wait for units of something: items to take, places to fill.  \<open>side\<close> says that the list
  is theirs and that no wake-up was lost: while one of them waits, every unit that is there is matched by
  a resumed thread of the kind.
\<close>

definition side :: "('c \<Rightarrow> bool) \<Rightarrow> 'c threads \<Rightarrow> nat list \<Rightarrow> nat \<Rightarrow> bool" where
  "side P th ts n \<longleftrightarrow> waiters P th ts \<and> finite_threads th \<and> (ts \<noteq> [] \<longrightarrow> n \<le> card (ready P th))"

lemma side_initial: "side P (\<lambda>t. Idle) [] n"
  by (simp add: side_def)

text \<open>A thread of another kind runs and leaves, or waits for something else.\<close>

lemma side_other:
  assumes "side P th ts n" and r: "runs th t c woken" and "\<not> P c"
    and "\<And>c'. v = Waiting c' \<Longrightarrow> \<not> P c'" and "\<And>c' e. v = Ready c' e \<Longrightarrow> \<not> P c'"
  shows "side P (th(t := v)) ts n"
proof -
  have "ready P (th(t := v)) = ready P th" using assms(5) runs_own [OF r] assms(3) by (auto simp: ready_upd)
  with assms(1) show ?thesis using waiters_other [OF _ r assms(4)] by (simp add: side_def)
qed

text \<open>A thread that was not resumed without error does so.\<close>

lemma side_idle:
  assumes "side P th ts n" and r: "runs th t c woken" and "woken \<noteq> Some RT_EOK"
    and "\<And>c'. v = Waiting c' \<Longrightarrow> \<not> P c'" and "\<And>c' e. v = Ready c' e \<Longrightarrow> \<not> P c'"
  shows "side P (th(t := v)) ts n"
proof -
  have "t \<notin> ready P th" using r assms(3) by (auto simp: ready_def runs_def split: option.splits)
  then have "ready P (th(t := v)) = ready P th" using assms(5) by (auto simp: ready_upd)
  with assms(1) show ?thesis using waiters_other [OF _ r assms(4)] by (simp add: side_def)
qed

text \<open>A thread of the kind runs and uses a unit up, or finds none.\<close>

lemma side_use:
  assumes "side P th ts n" and r: "runs th t c woken"
    and "\<And>c'. v = Waiting c' \<Longrightarrow> \<not> P c'" and "\<And>c' e. v = Ready c' e \<Longrightarrow> \<not> P c'" and "m \<le> n - 1"
  shows "side P (th(t := v)) ts m"
proof -
  have "ready P (th(t := v)) = ready P th - {t}" using assms(4) by (auto simp: ready_upd)
  moreover have "finite (ready P th)" using assms(1) by (simp add: side_def)
  ultimately have "card (ready P th) - 1 \<le> card (ready P (th(t := v)))" by (simp add: card_Diff_singleton_if)
  with assms(1,5) show ?thesis using waiters_other [OF _ r assms(3)] by (auto simp: side_def)
qed

lemma side_block:
  assumes "side P th ts n" and "runs th t c woken" and "P c'" and "mset ts' = add_mset t (mset ts)"
  shows "side P (th(t := Waiting c')) ts' 0"
  using assms(1) waiters_insert [of P th ts t c woken c' ts'] assms(2-4) by (simp add: side_def)

text \<open>A unit arrives: the first waiting thread is resumed.\<close>

lemma side_wake: "side P th (u # us) n \<Longrightarrow> side P (wake_thread u RT_EOK th) us (n + 1)"
  using waiters_wake [of P th u us] ready_wake(1) [of th P u us] by (auto simp: side_def)

lemma side_wake_other:
  assumes "side P th ts n" and "waiters Q th (u # us)" and "\<And>c. Q c \<Longrightarrow> \<not> P c"
  shows "side P (wake_thread u err th) ts n"
  using assms waiters_wake_other [OF assms(2) _ assms(3)] ready_wake(2) [OF _ assms(2,3)] by (simp add: side_def)

lemma side_empty: "side P th [] n \<Longrightarrow> side P th [] m"
  by (simp add: side_def)

lemma side_less: "side P th ts n \<Longrightarrow> m \<le> n \<Longrightarrow> side P th ts m"
  by (auto simp: side_def)

lemma side_timeout:
  assumes "side P th ts n" and "th t = Waiting c" and "err \<noteq> RT_EOK"
  shows "side P (th(t := Ready c err)) (remove1 t ts) n"
proof -
  have "remove1 t ts \<noteq> [] \<Longrightarrow> ts \<noteq> []" by auto
  with assms(1) show ?thesis
    using waiters_timeout [of P th ts t c err] ready_timeout [of th t c err P] assms(2,3) by (simp add: side_def)
qed

lemma side_reset:
  "side P th ts n \<Longrightarrow> set ts \<subseteq> set us \<Longrightarrow> side P (wake_all err us th) [] m"
  using waiters_wake_all [of P th ts us err] by (simp add: side_def)

lemma side_waiters: "side P th ts n \<Longrightarrow> waiters P th ts"
  by (simp add: side_def)

lemma side_resumed: "side P th ts n \<Longrightarrow> ts \<noteq> [] \<Longrightarrow> 0 < n \<Longrightarrow> \<exists>t c. th t = Ready c RT_EOK \<and> P c"
  by (auto simp: side_def ready_def card_gt_0_iff dest: order.strict_trans2)

end
