(* ===== verification/Rt_Ipc.thy ===== *)
theory Rt_Ipc
  imports Rt_Threads
begin

text \<open>
  Inter-thread communication (\<open>ipc.c\<close>): what its objects share, the lists of suspended threads, and the
  semaphore.  Mutex, mailbox, message queue and event have theories of their own.

  An operation is what it does with interrupts disabled.  \<open>woken\<close> is \<open>None\<close> at the call, and the thread's error
  number when the thread comes back from \<open>rt_schedule\<close>.  \<open>prio\<close> is the current priority of each thread, 0 the
  highest.  The checks of the objects' types and the hooks are left out.
\<close>

subsection \<open>The lists of suspended threads\<close>

definition RT_IPC_FLAG_FIFO :: nat where "RT_IPC_FLAG_FIFO = 0"
definition RT_IPC_FLAG_PRIO :: nat where "RT_IPC_FLAG_PRIO = 1"
definition RT_IPC_CMD_RESET :: nat where "RT_IPC_CMD_RESET = 1"

fun prio_insert :: "(nat \<Rightarrow> nat) \<Rightarrow> nat \<Rightarrow> nat list \<Rightarrow> nat list" where
  "prio_insert prio t [] = [t]"
| "prio_insert prio t (s # ss) = (if prio t < prio s then t # s # ss else s # prio_insert prio t ss)"

definition ipc_list_suspend :: "nat list \<Rightarrow> nat \<Rightarrow> nat \<Rightarrow> (nat \<Rightarrow> nat) \<Rightarrow> nat list result" where
  "ipc_list_suspend ts t flag prio =
     (if flag = RT_IPC_FLAG_FIFO then Inr (ts @ [t])
      else if flag = RT_IPC_FLAG_PRIO then Inr (prio_insert prio t ts)
      else Inl Assert_failed)"

text \<open>\<open>_ipc_list_resume\<close> resumes the first thread of a list that is not empty; \<open>_ipc_list_resume_all\<close> resumes all, with
  \<open>- RT_ERROR\<close>.\<close>

definition ipc_list_resume :: "nat list \<Rightarrow> (nat option \<times> nat list)" where
  "ipc_list_resume ts = (case ts of [] \<Rightarrow> (None, []) | u # us \<Rightarrow> (Some u, us))"

fun ipc_list_resume_all :: "nat list \<Rightarrow> 'c threads \<Rightarrow> 'c threads" where
  "ipc_list_resume_all [] th = th"
| "ipc_list_resume_all (u # us) th = ipc_list_resume_all us (wake_thread u (- RT_ERROR) th)"

lemma resume_all_wake_all: "ipc_list_resume_all ts th = wake_all (- RT_ERROR) ts th"
  by (induction ts arbitrary: th) (simp_all add: wake_all_def)

definition u16 :: "nat \<Rightarrow> nat" where
  "u16 n = n mod 2 ^ 16"

definition valid_flag :: "nat \<Rightarrow> bool" where
  "valid_flag flag \<longleftrightarrow> flag = RT_IPC_FLAG_FIFO \<or> flag = RT_IPC_FLAG_PRIO"

text \<open>The order of a list: by arrival, or by priority.\<close>

definition queue_order :: "nat \<Rightarrow> (nat \<Rightarrow> nat) \<Rightarrow> nat list \<Rightarrow> bool" where
  "queue_order flag prio ts \<longleftrightarrow> (flag = RT_IPC_FLAG_PRIO \<longrightarrow> sorted (map prio ts))"

lemma mset_prio_insert [simp]: "mset (prio_insert prio t ts) = add_mset t (mset ts)"
  by (induction ts) auto

lemma set_prio_insert [simp]: "set (prio_insert prio t ts) = insert t (set ts)"
  by (induction ts) auto

lemma sorted_prio_insert: "sorted (map prio ts) \<Longrightarrow> sorted (map prio (prio_insert prio t ts))"
  by (induction ts) (auto simp: not_less)

lemma prio_insert_cong: "(\<And>u. u = t \<or> u \<in> set ts \<Longrightarrow> prio u = prio' u) \<Longrightarrow> prio_insert prio t ts = prio_insert prio' t ts"
  by (induction ts) auto

text \<open>Threads of equal priority keep the order in which they came.\<close>

lemma prio_insert_stable:
  "sorted (map prio ts) \<Longrightarrow>
    filter (\<lambda>u. prio u = p) (prio_insert prio t ts) = filter (\<lambda>u. prio u = p) ts @ (if prio t = p then [t] else [])"
proof (induction ts)
  case (Cons s ss)
  have "filter (\<lambda>u. prio u = prio t) (s # ss) = []" if "prio t < prio s"
    using Cons.prems that by (auto simp: filter_empty_conv)
  with Cons show ?case by auto
qed simp

lemma suspend_ok:
  assumes "valid_flag flag"
  shows "\<exists>us. ipc_list_suspend ts t flag prio = Inr us \<and> mset us = add_mset t (mset ts) \<and>
    (queue_order flag prio ts \<longrightarrow> queue_order flag prio us)"
  using assms sorted_prio_insert
  by (auto simp: valid_flag_def ipc_list_suspend_def queue_order_def RT_IPC_FLAG_FIFO_def RT_IPC_FLAG_PRIO_def)

lemma queue_order_remove1: "queue_order flag prio ts \<Longrightarrow> queue_order flag prio (remove1 t ts)"
  by (auto simp: queue_order_def sorted_map_remove1)

lemma queue_order_tl: "queue_order flag prio (u # us) \<Longrightarrow> queue_order flag prio us"
  by (simp add: queue_order_def)

lemma queue_order_Nil [simp]: "queue_order flag prio []"
  by (simp add: queue_order_def)

subsection \<open>Calls\<close>

text \<open>A section returns a code with the thread it resumed and the value it read, suspends its thread, or enables
  interrupts to go on with its call.  A suspended thread waits with the call as it is then.\<close>

datatype ('c, 'x) outcome = Finish int "nat option" "'x option" | Suspend 'c | Proceed 'c

fun after :: "nat \<Rightarrow> ('c, 'x) outcome \<Rightarrow> 'c threads \<Rightarrow> 'c threads" where
  "after t (Suspend c) th = th(t := Waiting c)"
| "after t (Proceed c) th = th(t := Ready c RT_EOK)"
| "after t (Finish err None x) th = th(t := Idle)"
| "after t (Finish err (Some u) x) th = wake_thread u RT_EOK (th(t := Idle))"

fun succeeds :: "('c, 'x) outcome \<Rightarrow> bool" where
  "succeeds (Finish err u x) = (err = RT_EOK)"
| "succeeds (Suspend c) = False"
| "succeeds (Proceed c) = False"

fun value_of :: "('c, 'x) outcome \<Rightarrow> 'x option" where
  "value_of (Finish err u x) = x"
| "value_of (Suspend c) = None"
| "value_of (Proceed c) = None"

text \<open>A call goes on with its test unless it comes back with an error.\<close>

definition goes_on :: "(int \<times> int) option \<Rightarrow> bool" where
  "goes_on woken \<longleftrightarrow> (case woken of None \<Rightarrow> True | Some (err, elapsed) \<Rightarrow> err = RT_EOK)"

lemma goes_on_cases:
  obtains (called) "goes_on woken" "woken = None" | (resumed) el where "goes_on woken" "woken = Some (RT_EOK, el)"
  | (failed) err el where "\<not> goes_on woken" "woken = Some (err, el)" "err \<noteq> RT_EOK"
  by (cases woken) (auto simp: goes_on_def)

text \<open>The thread that an operation resumed, if any.\<close>

abbreviation wake_opt :: "nat option \<Rightarrow> 'c threads \<Rightarrow> 'c threads" where
  "wake_opt u th \<equiv> (case u of None \<Rightarrow> th | Some v \<Rightarrow> wake_thread v RT_EOK th)"

lemma after_finish: "after t (Finish err u x) th = wake_opt u (th(t := Idle))"
  by (cases u) simp_all

text \<open>A unit arrives for the threads of one kind, and the first of those that wait is resumed; the threads of the other
  kind are not concerned.\<close>

lemma channel_resume:
  assumes "side P th ts n" and "side Q th us f" and "\<And>c. P c \<Longrightarrow> \<not> Q c" and "ipc_list_resume ts = (u, ts')"
  shows "side P (wake_opt u th) ts' (n + 1)" and "side Q (wake_opt u th) us f"
  using assms side_wake [of P th] side_empty [of P th n "n + 1"] side_wake_other [OF assms(2) side_waiters]
  by (auto simp: ipc_list_resume_def split: list.splits)

text \<open>\<open>timeout -= tick_delta; if (timeout < 0) timeout = 0\<close>, on a signed and an unsigned number of 32 bits.\<close>

definition time_left :: "int \<Rightarrow> int \<Rightarrow> int" where
  "time_left timeout elapsed =
     (if timeout > 0 then (let left = wrap32 (timeout - elapsed) in if left < 0 then 0 else left) else timeout)"

subsection \<open>The semaphore\<close>

record rt_semaphore =
  sem_flag :: nat
  sem_value :: nat
  sem_wait :: "nat list"

definition RT_SEM_VALUE_MAX :: nat where "RT_SEM_VALUE_MAX = 65535"

definition rt_sem_init :: "nat \<Rightarrow> nat \<Rightarrow> (int \<times> rt_semaphore) result" where
  "rt_sem_init val flag =
     (if \<not> val < 0x10000 then Inl Assert_failed
      else if \<not> valid_flag flag then Inl Assert_failed
      else Inr (RT_EOK, \<lparr>sem_flag = flag, sem_value = val mod 2 ^ 16, sem_wait = []\<rparr>))"

text \<open>\<open>obj\<close> tells whether \<open>rt_object_allocate\<close> finds memory.\<close>

definition rt_sem_create :: "bool \<Rightarrow> nat \<Rightarrow> nat \<Rightarrow> rt_semaphore option result" where
  "rt_sem_create obj val flag =
     (if \<not> val < 0x10000 then Inl Assert_failed
      else if \<not> valid_flag flag then Inl Assert_failed
      else if \<not> obj then Inr None
      else Inr (Some \<lparr>sem_flag = flag, sem_value = val mod 2 ^ 16, sem_wait = []\<rparr>))"

text \<open>\<open>rt_sem_detach\<close> and \<open>rt_sem_delete\<close>: nobody is left on the list of the object that goes away.\<close>

definition rt_sem_detach :: "rt_semaphore \<Rightarrow> int threads \<Rightarrow> (int \<times> int threads)" where
  "rt_sem_detach s th = (RT_EOK, ipc_list_resume_all (sem_wait s) th)"

definition rt_sem_delete :: "rt_semaphore \<Rightarrow> int threads \<Rightarrow> (int \<times> int threads)" where
  "rt_sem_delete s th = (RT_EOK, ipc_list_resume_all (sem_wait s) th)"

definition rt_sem_take ::
    "int option \<Rightarrow> (nat \<Rightarrow> nat) \<Rightarrow> nat \<Rightarrow> int \<Rightarrow> rt_semaphore \<Rightarrow> ((int, unit) outcome \<times> rt_semaphore) result" where
  "rt_sem_take woken prio t time s =
     (case woken of
        None \<Rightarrow>
          if sem_value s > 0 then Inr (Finish RT_EOK None None, s\<lparr>sem_value := sem_value s - 1\<rparr>)
          else if time = 0 then Inr (Finish (- RT_ETIMEOUT) None None, s)
          else bindR (ipc_list_suspend (sem_wait s) t (sem_flag s) prio)
                 (\<lambda>ts. Inr (Suspend time, s\<lparr>sem_wait := ts\<rparr>))
      | Some err \<Rightarrow>
          if err \<noteq> RT_EOK then Inr (Finish err None None, s)
          else Inr (Finish RT_EOK None None, s))"

definition rt_sem_trytake ::
    "(nat \<Rightarrow> nat) \<Rightarrow> nat \<Rightarrow> rt_semaphore \<Rightarrow> ((int, unit) outcome \<times> rt_semaphore) result" where
  "rt_sem_trytake prio t s = rt_sem_take None prio t 0 s"

text \<open>The result is the code and the thread that is resumed.\<close>

definition rt_sem_release :: "rt_semaphore \<Rightarrow> int \<times> nat option \<times> rt_semaphore" where
  "rt_sem_release s =
     (if sem_wait s \<noteq> [] then
        (case ipc_list_resume (sem_wait s) of (u, us) \<Rightarrow> (RT_EOK, u, s\<lparr>sem_wait := us\<rparr>))
      else if sem_value s < RT_SEM_VALUE_MAX then (RT_EOK, None, s\<lparr>sem_value := sem_value s + 1\<rparr>)
      else (- RT_EFULL, None, s))"

definition rt_sem_control ::
    "rt_semaphore \<Rightarrow> nat \<Rightarrow> nat \<Rightarrow> int threads \<Rightarrow> int \<times> rt_semaphore \<times> int threads" where
  "rt_sem_control s cmd arg th =
     (if cmd = RT_IPC_CMD_RESET then
        (RT_EOK, s\<lparr>sem_wait := [], sem_value := arg mod 2 ^ 16\<rparr>, ipc_list_resume_all (sem_wait s) th)
      else (- RT_ERROR, s, th))"

subsection \<open>Threads on a semaphore\<close>

fun taken :: "(int, unit) outcome \<Rightarrow> nat" where
  "taken (Finish err u x) = (if err = RT_EOK then 1 else 0)"
| "taken out = 0"

text \<open>
  Threads take and release, timers expire, somebody resets the semaphore; an interrupt handler only releases.  The
  last two arguments count the units that the semaphore was given and those that were taken; a reset gives
  or takes away the difference.
\<close>

inductive sem_reach :: "(nat \<Rightarrow> nat) \<Rightarrow> rt_semaphore \<Rightarrow> int threads \<Rightarrow> nat \<Rightarrow> nat \<Rightarrow> bool" for prio where
  init: "rt_sem_init val flag = Inr (RT_EOK, s) \<Longrightarrow> sem_reach prio s (\<lambda>t. Idle) val 0"
| take: "sem_reach prio s th given got \<Longrightarrow> th t = Idle \<Longrightarrow> rt_sem_take None prio t time s = Inr (out, s') \<Longrightarrow>
    sem_reach prio s' (after t out th) given (got + taken out)"
| resume: "sem_reach prio s th given got \<Longrightarrow> th t = Ready time err \<Longrightarrow>
    rt_sem_take (Some err) prio t time s = Inr (out, s') \<Longrightarrow>
    sem_reach prio s' (after t out th) given (got + taken out)"
| release: "sem_reach prio s th given got \<Longrightarrow> rt_sem_release s = (err, u, s') \<Longrightarrow>
    sem_reach prio s' (wake_opt u th) (given + (if err = RT_EOK then 1 else 0)) got"
| timeout: "sem_reach prio s th given got \<Longrightarrow> th t = Waiting time \<Longrightarrow> 0 < time \<Longrightarrow>
    sem_reach prio (s\<lparr>sem_wait := remove1 t (sem_wait s)\<rparr>) (th(t := Ready time (- RT_ETIMEOUT))) given got"
| reset: "sem_reach prio s th given got \<Longrightarrow> rt_sem_control s RT_IPC_CMD_RESET arg th = (RT_EOK, s', th') \<Longrightarrow>
    sem_reach prio s' th' (given - sem_value s + sem_value s') got"

definition sem_ok :: "(nat \<Rightarrow> nat) \<Rightarrow> rt_semaphore \<Rightarrow> int threads \<Rightarrow> nat \<Rightarrow> nat \<Rightarrow> bool" where
  "sem_ok prio s th given got \<longleftrightarrow> waiters (\<lambda>_. True) th (sem_wait s) \<and> finite_threads th \<and>
     valid_flag (sem_flag s) \<and> queue_order (sem_flag s) prio (sem_wait s) \<and>
     (sem_wait s \<noteq> [] \<longrightarrow> sem_value s = 0) \<and> sem_value s \<le> RT_SEM_VALUE_MAX \<and>
     given = got + sem_value s + card (ready (\<lambda>_. True) th)"

lemma sem_okD:
  assumes "sem_ok prio s th given got"
  shows "waiters (\<lambda>_. True) th (sem_wait s)" "finite_threads th" "valid_flag (sem_flag s)"
    "queue_order (sem_flag s) prio (sem_wait s)" "sem_wait s \<noteq> [] \<Longrightarrow> sem_value s = 0"
    "sem_value s \<le> RT_SEM_VALUE_MAX" "given = got + sem_value s + card (ready (\<lambda>_. True) th)"
  using assms by (simp_all add: sem_ok_def)

lemma ready_idle_same: "th t = Idle \<Longrightarrow> ready P (th(t := Idle)) = ready P th"
  by (simp add: fun_upd_idem)

lemma sem_take_ok:
  assumes "sem_ok prio s th given got" and "th t = Idle"
  shows "\<exists>out s'. rt_sem_take None prio t time s = Inr (out, s') \<and>
    sem_ok prio s' (after t out th) given (got + taken out)"
proof -
  note k = sem_okD [OF assms(1)]
  have r: "runs th t time None" using assms(2) by (simp add: runs_def)
  have idle: "th(t := Idle) = th" using assms(2) by (simp add: fun_upd_idem)
  consider "sem_value s > 0" | "sem_value s = 0" "time = 0" | "sem_value s = 0" "time \<noteq> 0" by auto
  then show ?thesis
  proof cases
    case 3
    obtain us where us: "ipc_list_suspend (sem_wait s) t (sem_flag s) prio = Inr us"
      "mset us = add_mset t (mset (sem_wait s))" "queue_order (sem_flag s) prio us"
      using suspend_ok [OF k(3)] k(4) by blast
    have "ready (\<lambda>_. True) (th(t := Waiting time)) = ready (\<lambda>_. True) th"
      using assms(2) by (auto simp: ready_def)
    then show ?thesis using 3 us k waiters_insert [OF k(1) r TrueI us(2)]
      by (simp add: rt_sem_take_def sem_ok_def)
  qed (use k idle in \<open>auto simp: rt_sem_take_def sem_ok_def\<close>)
qed

lemma sem_resume_ok:
  assumes "sem_ok prio s th given got" and t: "th t = Ready time err"
  shows "\<exists>out s'. rt_sem_take (Some err) prio t time s = Inr (out, s') \<and>
    sem_ok prio s' (after t out th) given (got + taken out)"
proof -
  note k = sem_okD [OF assms(1)]
  have w: "waiters (\<lambda>_. True) (th(t := Idle)) (sem_wait s)"
    using waiters_other [OF k(1), of t time "Some err" Idle] t by (simp add: runs_def)
  let ?R = "ready (\<lambda>_. True)"
  have "card (?R th) = card (?R (th(t := Idle))) + (if err = RT_EOK then 1 else 0)"
  proof (cases "err = RT_EOK")
    case True
    then have "t \<in> ?R th" using t by (simp add: ready_def)
    then have "card (?R th) = Suc (card (?R th - {t}))" using k(2) by (simp only: card.remove finite_ready)
    with True show ?thesis by (simp add: ready_upd)
  next
    case False
    then have "t \<notin> ?R th" using t by (simp add: ready_def)
    with False show ?thesis by (simp add: ready_upd)
  qed
  with k w show ?thesis by (simp add: rt_sem_take_def sem_ok_def)
qed

lemma sem_release_ok:
  assumes "sem_ok prio s th given got" and "rt_sem_release s = (err, u, s')"
  shows "sem_ok prio s' (wake_opt u th) (given + (if err = RT_EOK then 1 else 0)) got"
proof (cases "sem_wait s")
  case Nil
  with sem_okD [OF assms(1)] assms(2) show ?thesis
    by (auto simp: rt_sem_release_def sem_ok_def split: if_splits)
next
  case (Cons v vs)
  note k = sem_okD [OF assms(1)]
  note w = k(1) [unfolded Cons]
  from Cons k assms(2) waiters_wake [OF w] ready_wake(1) [OF k(2) w] queue_order_tl show ?thesis
    by (auto simp: rt_sem_release_def ipc_list_resume_def sem_ok_def)
qed

lemma sem_reset_ok:
  assumes "sem_ok prio s th given got" and "rt_sem_control s RT_IPC_CMD_RESET arg th = (RT_EOK, s', th')"
  shows "sem_ok prio s' th' (given - sem_value s + sem_value s') got"
  using sem_okD [OF assms(1)] assms(2) waiters_wake_all [of "\<lambda>_. True" th "sem_wait s" "sem_wait s" "- RT_ERROR"]
  by (auto simp: rt_sem_control_def sem_ok_def resume_all_wake_all ready_wake_all RT_SEM_VALUE_MAX_def)

lemma sem_timeout_ok:
  assumes "sem_ok prio s th given got" and "th t = Waiting time"
  shows "sem_ok prio (s\<lparr>sem_wait := remove1 t (sem_wait s)\<rparr>) (th(t := Ready time (- RT_ETIMEOUT))) given got"
proof -
  note k = sem_okD [OF assms(1)]
  have "remove1 t (sem_wait s) \<noteq> [] \<Longrightarrow> sem_wait s \<noteq> []" by auto
  with k show ?thesis
    using waiters_timeout [OF k(1) assms(2), of "- RT_ETIMEOUT"] queue_order_remove1 [OF k(4), of t]
      ready_timeout [of th t time "- RT_ETIMEOUT" "\<lambda>_. True", OF assms(2)]
    by (simp add: sem_ok_def)
qed

lemma sem_reach_ok: "sem_reach prio s th given got \<Longrightarrow> sem_ok prio s th given got"
proof (induction rule: sem_reach.induct)
  case (init val flag s)
  then show ?case
    by (auto simp: rt_sem_init_def sem_ok_def RT_SEM_VALUE_MAX_def split: if_splits)
next
  case (take s th given got t time out s')
  then show ?case using sem_take_ok [of prio s th given got t time] by auto
next
  case (resume s th given got t time err out s')
  then show ?case using sem_resume_ok [of prio s th given got t time err] by auto
next
  case (release s th given got err u s')
  then show ?case using sem_release_ok by blast
next
  case (timeout s th given got t time)
  then show ?case using sem_timeout_ok by blast
next
  case (reset s th given got arg s' th')
  then show ?case using sem_reset_ok by blast
qed

text \<open>C31: A semaphore gives out what it was given and keeps the rest: units taken, its value and the units handed to
  resumed threads add up to the units it was given; it has no value while somebody waits; with
  \<open>RT_IPC_FLAG_PRIO\<close> the threads wait in the order of their priorities; no call faults, and a resumed thread
  gets its unit.
\<close>

theorem sem_conservation:
  assumes "sem_reach prio s th given got"
  shows "given = got + sem_value s + card (ready (\<lambda>_. True) th) \<and> sem_value s \<le> RT_SEM_VALUE_MAX \<and>
    (sem_wait s \<noteq> [] \<longrightarrow> sem_value s = 0) \<and>
    (sem_flag s = RT_IPC_FLAG_PRIO \<longrightarrow> sorted (map prio (sem_wait s))) \<and>
    (\<forall>t. t \<in> set (sem_wait s) \<longleftrightarrow> (\<exists>time. th t = Waiting time)) \<and>
    (\<forall>t time. th t = Idle \<longrightarrow> (\<exists>r. rt_sem_take None prio t time s = Inr r)) \<and>
    (\<forall>t time. th t = Ready time RT_EOK \<longrightarrow>
       rt_sem_take (Some RT_EOK) prio t time s = Inr (Finish RT_EOK None None, s))"
proof -
  note ok = sem_reach_ok [OF assms]
  note k = sem_okD [OF ok]
  have "\<exists>r. rt_sem_take None prio t time s = Inr r" if "th t = Idle" for t time
    using sem_take_ok [OF ok that] by blast
  with k show ?thesis by (auto simp: waiters_def queue_order_def rt_sem_take_def)
qed

text \<open>Two threads wait on an empty semaphore, the second with the higher priority; it is resumed first.\<close>

definition sem_demo_prio :: "nat \<Rightarrow> nat" where
  "sem_demo_prio t = (if t = 2 then 5 else 10)"

lemma sem_demo_reach:
  "\<exists>s th. sem_reach sem_demo_prio s th 1 0 \<and> sem_wait s = [1] \<and> th 2 = Ready (- 1) RT_EOK"
proof -
  let ?s = "\<lambda>ts. \<lparr>sem_flag = RT_IPC_FLAG_PRIO, sem_value = 0, sem_wait = ts\<rparr>"
  have 0: "sem_reach sem_demo_prio (?s []) (\<lambda>t. Idle) 0 0"
    by (rule sem_reach.init [where flag = RT_IPC_FLAG_PRIO]) (simp add: rt_sem_init_def valid_flag_def)
  have 1: "sem_reach sem_demo_prio (?s [1]) ((\<lambda>t. Idle)(1 := Waiting (- 1))) 0 0"
    using sem_reach.take [OF 0, of 1 "- 1" "Suspend (- 1)" "?s [1]"]
    by (simp add: rt_sem_take_def ipc_list_suspend_def RT_IPC_FLAG_FIFO_def RT_IPC_FLAG_PRIO_def)
  have 2: "sem_reach sem_demo_prio (?s [2, 1]) ((\<lambda>t. Idle)(1 := Waiting (- 1), 2 := Waiting (- 1))) 0 0"
    using sem_reach.take [OF 1, of 2 "- 1" "Suspend (- 1)" "?s [2, 1]"]
    by (simp add: rt_sem_take_def ipc_list_suspend_def RT_IPC_FLAG_FIFO_def RT_IPC_FLAG_PRIO_def sem_demo_prio_def)
  have "sem_reach sem_demo_prio (?s [1])
      (wake_thread 2 RT_EOK ((\<lambda>t. Idle)(1 := Waiting (- 1), 2 := Waiting (- 1)))) 1 0"
    using sem_reach.release [OF 2, of RT_EOK "Some 2" "?s [1]"]
    by (simp add: rt_sem_release_def ipc_list_resume_def)
  then show ?thesis by (intro exI conjI, assumption) (simp_all add: wake_thread_def)
qed

theorem sem_conservation_witness:
  "\<exists>s th. sem_reach sem_demo_prio s th 1 0 \<and> sem_wait s = [1] \<and> sem_value s = 0"
  using sem_demo_reach sem_conservation by (metis list.distinct(1))

end
