(* ===== verification/Rt_Mqueue.thy ===== *)
theory Rt_Mqueue
  imports Rt_Ipc
begin

text \<open>
  The message queue of the kernel (\<open>ipc.c\<close>), on which the GPS sample waits for its serial port: messages of up to
  \<open>msg_size\<close> bytes in a pool, the free ones and the queued ones in two linked lists.

  A message pointer is the offset of the message in the pool.  \<open>rt_mq_send_wait\<close>, \<open>rt_mq_urgent\<close> and
  \<open>rt_mq_recv\<close> work in two sections: a message leaves one list, is copied while interrupts are enabled, and
  enters the other list; in between others may run.  The copy is part of the first section here, since
  no one else can reach the message.
\<close>

subsection \<open>The data\<close>

record rt_messagequeue =
  mq_flag :: nat
  mq_msg_size :: nat
  mq_max_msgs :: nat
  mq_entry :: nat
  mq_head :: "nat option"
  mq_tail :: "nat option"
  mq_free :: "nat option"
  mq_wait :: "nat list"
  mq_senders :: "nat list"
  mq_next :: "nat \<Rightarrow> nat option"
  mq_data :: "nat \<Rightarrow> nat list option"

definition RT_MQ_ENTRY_MAX :: nat where "RT_MQ_ENTRY_MAX = 65535"
definition SIZEOF_MESSAGE :: nat where "SIZEOF_MESSAGE = 4"

text \<open>The calls: the first sections, and the second ones with the message they hold.\<close>

datatype mq_call =
    Mq_send "nat list" int
  | Mq_urgent "nat list"
  | Mq_recv nat int
  | Mq_link nat "nat list"
  | Mq_link_front nat "nat list"
  | Mq_give nat "nat list"

type_synonym mq_outcome = "(mq_call, nat list) outcome"

definition load_next :: "nat \<Rightarrow> rt_messagequeue \<Rightarrow> nat option result" where
  "load_next a q = (if mq_data q a = None then Inl Out_of_bounds else Inr (mq_next q a))"

definition store_next :: "nat \<Rightarrow> nat option \<Rightarrow> rt_messagequeue \<Rightarrow> rt_messagequeue result" where
  "store_next a v q =
     (if mq_data q a = None then Inl Out_of_bounds else Inr (q\<lparr>mq_next := (mq_next q)(a := v)\<rparr>))"

text \<open>\<open>rt_memcpy(msg + 1, buffer, size)\<close>\<close>

definition copy_in :: "nat \<Rightarrow> nat list \<Rightarrow> rt_messagequeue \<Rightarrow> rt_messagequeue result" where
  "copy_in a buffer q =
     (case mq_data q a of
        None \<Rightarrow> Inl Out_of_bounds
      | Some d \<Rightarrow> if length buffer \<le> length d
                  then Inr (q\<lparr>mq_data := (mq_data q)(a \<mapsto> buffer @ drop (length buffer) d)\<rparr>)
                  else Inl Buffer_overflow)"

text \<open>\<open>rt_memcpy(buffer, msg + 1, size > mq->msg_size ? mq->msg_size : size)\<close>\<close>

definition copy_out :: "nat \<Rightarrow> nat \<Rightarrow> rt_messagequeue \<Rightarrow> nat list result" where
  "copy_out a sz q =
     (case mq_data q a of
        None \<Rightarrow> Inl Out_of_bounds
      | Some d \<Rightarrow> (let n = (if sz > mq_msg_size q then mq_msg_size q else sz)
                   in if n \<le> length d then Inr (take n d) else Inl Out_of_bounds))"

subsection \<open>Setting up\<close>

text \<open>\<open>pool\<close> is the memory.  The loop puts every message in front of the free list.\<close>

definition link_free :: "nat list \<Rightarrow> nat \<Rightarrow> rt_messagequeue \<Rightarrow> rt_messagequeue result" where
  "link_free pool temp q =
     (let head = temp * (mq_msg_size q + SIZEOF_MESSAGE)
      in if head + SIZEOF_MESSAGE \<le> length pool
         then Inr (q\<lparr>mq_data := (mq_data q)(head \<mapsto> take (mq_msg_size q) (drop (head + SIZEOF_MESSAGE) pool)),
                     mq_next := (mq_next q)(head := mq_free q), mq_free := Some head\<rparr>)
         else Inl Buffer_overflow)"

fun link_all :: "nat list \<Rightarrow> nat \<Rightarrow> rt_messagequeue \<Rightarrow> rt_messagequeue result" where
  "link_all pool 0 q = Inr q"
| "link_all pool (Suc n) q = bindR (link_all pool n q) (link_free pool n)"

definition fresh_mqueue :: "nat \<Rightarrow> nat \<Rightarrow> nat \<Rightarrow> rt_messagequeue" where
  "fresh_mqueue flag msg_size max_msgs = \<lparr>mq_flag = flag, mq_msg_size = msg_size, mq_max_msgs = max_msgs, mq_entry = 0,
     mq_head = None, mq_tail = None, mq_free = None, mq_wait = [], mq_senders = [],
     mq_next = (\<lambda>_. None), mq_data = (\<lambda>_. None)\<rparr>"

definition rt_mq_init :: "nat list \<Rightarrow> nat \<Rightarrow> nat \<Rightarrow> nat \<Rightarrow> (int \<times> rt_messagequeue) result" where
  "rt_mq_init pool msg_size0 pool_size flag =
     (if \<not> valid_flag flag then Inl Assert_failed
      else
        (let msg_size = u16 (size_up msg_size0);
             max_msgs = u16 (pool_size div (msg_size + SIZEOF_MESSAGE))
         in bindR (link_all pool max_msgs (fresh_mqueue flag msg_size max_msgs)) (\<lambda>q. Inr (RT_EOK, q))))"

text \<open>\<open>malloc\<close> gives the memory for a number of bytes.\<close>

definition rt_mq_create ::
    "bool \<Rightarrow> (nat \<Rightarrow> nat list option) \<Rightarrow> nat \<Rightarrow> nat \<Rightarrow> nat \<Rightarrow> rt_messagequeue option result" where
  "rt_mq_create obj malloc msg_size0 max_msgs0 flag =
     (if \<not> valid_flag flag then Inl Assert_failed
      else if \<not> obj then Inr None
      else
        (let msg_size = u16 (size_up msg_size0);
             max_msgs = u16 max_msgs0
         in case malloc (((msg_size + SIZEOF_MESSAGE) * max_msgs) mod 2 ^ 32) of
              None \<Rightarrow> Inr None
            | Some pool \<Rightarrow> bindR (link_all pool max_msgs (fresh_mqueue flag msg_size max_msgs)) (\<lambda>q. Inr (Some q))))"

definition mq_resume_both :: "rt_messagequeue \<Rightarrow> mq_call threads \<Rightarrow> mq_call threads" where
  "mq_resume_both q th = ipc_list_resume_all (mq_senders q) (ipc_list_resume_all (mq_wait q) th)"

definition rt_mq_detach :: "rt_messagequeue \<Rightarrow> mq_call threads \<Rightarrow> int \<times> mq_call threads" where
  "rt_mq_detach q th = (RT_EOK, mq_resume_both q th)"

definition rt_mq_delete :: "rt_messagequeue \<Rightarrow> mq_call threads \<Rightarrow> int \<times> mq_call threads" where
  "rt_mq_delete q th = (RT_EOK, mq_resume_both q th)"

subsection \<open>Sending\<close>

text \<open>A message is taken from the free list; for \<open>rt_mq_send_wait\<close> it gets no successor.  The buffer is copied.\<close>

definition mq_send_section ::
    "(nat \<Rightarrow> nat) \<Rightarrow> nat \<Rightarrow> nat list \<Rightarrow> int \<Rightarrow> rt_messagequeue \<Rightarrow> (mq_outcome \<times> rt_messagequeue) result" where
  "mq_send_section prio t buffer timeout q =
     (case mq_free q of
        None \<Rightarrow>
          if timeout = 0 then Inr (Finish (- RT_EFULL) None None, q)
          else bindR (ipc_list_suspend (mq_senders q) t (mq_flag q) prio)
                 (\<lambda>ts. Inr (Suspend (Mq_send buffer timeout), q\<lparr>mq_senders := ts\<rparr>))
      | Some msg \<Rightarrow>
          bindR (load_next msg q)
            (\<lambda>nx. bindR (store_next msg None (q\<lparr>mq_free := nx\<rparr>))
               (\<lambda>q1. bindR (copy_in msg buffer q1) (\<lambda>q2. Inr (Proceed (Mq_link msg buffer), q2)))))"

definition rt_mq_send_wait ::
    "(int \<times> int) option \<Rightarrow> (nat \<Rightarrow> nat) \<Rightarrow> nat \<Rightarrow> nat list \<Rightarrow> int \<Rightarrow> rt_messagequeue \<Rightarrow>
     (mq_outcome \<times> rt_messagequeue) result" where
  "rt_mq_send_wait woken prio t buffer timeout q =
     (case woken of
        None \<Rightarrow>
          if buffer = [] then Inl Assert_failed
          else if length buffer > mq_msg_size q then Inr (Finish (- RT_ERROR) None None, q)
          else mq_send_section prio t buffer timeout q
      | Some (err, elapsed) \<Rightarrow>
          if err \<noteq> RT_EOK then Inr (Finish err None None, q)
          else mq_send_section prio t buffer (time_left timeout elapsed) q)"

definition mq_resume_receiver :: "rt_messagequeue \<Rightarrow> mq_outcome \<times> rt_messagequeue" where
  "mq_resume_receiver q =
     (case ipc_list_resume (mq_wait q) of (u, us) \<Rightarrow> (Finish RT_EOK u None, q\<lparr>mq_wait := us\<rparr>))"

definition mq_count :: "rt_messagequeue \<Rightarrow> mq_outcome \<times> rt_messagequeue" where
  "mq_count q =
     (if mq_entry q < RT_MQ_ENTRY_MAX then mq_resume_receiver (q\<lparr>mq_entry := mq_entry q + 1\<rparr>)
      else (Finish (- RT_EFULL) None None, q))"

definition mq_link :: "nat \<Rightarrow> rt_messagequeue \<Rightarrow> (mq_outcome \<times> rt_messagequeue) result" where
  "mq_link msg q =
     bindR (case mq_tail q of None \<Rightarrow> Inr q | Some tail \<Rightarrow> store_next tail (Some msg) q)
       (\<lambda>q1. let q2 = q1\<lparr>mq_tail := Some msg\<rparr>;
                 q3 = (if mq_head q2 = None then q2\<lparr>mq_head := Some msg\<rparr> else q2)
             in Inr (mq_count q3))"

definition rt_mq_send ::
    "(nat \<Rightarrow> nat) \<Rightarrow> nat \<Rightarrow> nat list \<Rightarrow> rt_messagequeue \<Rightarrow> (mq_outcome \<times> rt_messagequeue) result" where
  "rt_mq_send prio t buffer q = rt_mq_send_wait None prio t buffer 0 q"

definition rt_mq_urgent :: "nat list \<Rightarrow> rt_messagequeue \<Rightarrow> (mq_outcome \<times> rt_messagequeue) result" where
  "rt_mq_urgent buffer q =
     (if buffer = [] then Inl Assert_failed
      else if length buffer > mq_msg_size q then Inr (Finish (- RT_ERROR) None None, q)
      else
        (case mq_free q of
           None \<Rightarrow> Inr (Finish (- RT_EFULL) None None, q)
         | Some msg \<Rightarrow>
             bindR (load_next msg q)
               (\<lambda>nx. bindR (copy_in msg buffer (q\<lparr>mq_free := nx\<rparr>))
                  (\<lambda>q1. Inr (Proceed (Mq_link_front msg buffer), q1)))))"

definition mq_link_front :: "nat \<Rightarrow> rt_messagequeue \<Rightarrow> (mq_outcome \<times> rt_messagequeue) result" where
  "mq_link_front msg q =
     bindR (store_next msg (mq_head q) q)
       (\<lambda>q1. let q2 = q1\<lparr>mq_head := Some msg\<rparr>;
                 q3 = (if mq_tail q2 = None then q2\<lparr>mq_tail := Some msg\<rparr> else q2)
             in Inr (mq_count q3))"

subsection \<open>Receiving\<close>

definition mq_recv_section ::
    "(nat \<Rightarrow> nat) \<Rightarrow> nat \<Rightarrow> nat \<Rightarrow> int \<Rightarrow> rt_messagequeue \<Rightarrow> (mq_outcome \<times> rt_messagequeue) result" where
  "mq_recv_section prio t sz timeout q =
     (if mq_entry q = 0 then
        (if timeout = 0 then Inr (Finish (- RT_ETIMEOUT) None None, q)
         else bindR (ipc_list_suspend (mq_wait q) t (mq_flag q) prio)
                (\<lambda>ts. Inr (Suspend (Mq_recv sz timeout), q\<lparr>mq_wait := ts\<rparr>)))
      else
        (case mq_head q of
           None \<Rightarrow> Inl Null_pointer
         | Some msg \<Rightarrow>
             bindR (load_next msg q)
               (\<lambda>nx. let q1 = q\<lparr>mq_head := nx\<rparr>;
                         q2 = (if mq_tail q1 = Some msg then q1\<lparr>mq_tail := None\<rparr> else q1);
                         q3 = (if mq_entry q2 > 0 then q2\<lparr>mq_entry := mq_entry q2 - 1\<rparr> else q2)
                     in bindR (copy_out msg sz q3) (\<lambda>bytes. Inr (Proceed (Mq_give msg bytes), q3)))))"

definition rt_mq_recv ::
    "(int \<times> int) option \<Rightarrow> (nat \<Rightarrow> nat) \<Rightarrow> nat \<Rightarrow> nat \<Rightarrow> int \<Rightarrow> rt_messagequeue \<Rightarrow>
     (mq_outcome \<times> rt_messagequeue) result" where
  "rt_mq_recv woken prio t sz timeout q =
     (case woken of
        None \<Rightarrow> if sz = 0 then Inl Assert_failed else mq_recv_section prio t sz timeout q
      | Some (err, elapsed) \<Rightarrow>
          if err \<noteq> RT_EOK then Inr (Finish err None None, q)
          else mq_recv_section prio t sz (time_left timeout elapsed) q)"

definition mq_give :: "nat \<Rightarrow> nat list \<Rightarrow> rt_messagequeue \<Rightarrow> (mq_outcome \<times> rt_messagequeue) result" where
  "mq_give msg bytes q =
     bindR (store_next msg (mq_free q) q)
       (\<lambda>q1. case ipc_list_resume (mq_senders q1) of
               (u, us) \<Rightarrow> Inr (Finish RT_EOK u (Some bytes), q1\<lparr>mq_free := Some msg, mq_senders := us\<rparr>))"

text \<open>The loop of \<open>rt_mq_control\<close>, with fuel.\<close>

fun release_msgs :: "nat \<Rightarrow> rt_messagequeue \<Rightarrow> rt_messagequeue result" where
  "release_msgs fuel q =
     (case mq_head q of
        None \<Rightarrow> Inr q
      | Some msg \<Rightarrow>
          (case fuel of
             0 \<Rightarrow> Inl Endless_loop
           | Suc n \<Rightarrow>
               bindR (load_next msg q)
                 (\<lambda>nx. let q1 = q\<lparr>mq_head := nx\<rparr>;
                           q2 = (if mq_tail q1 = Some msg then q1\<lparr>mq_tail := None\<rparr> else q1)
                       in bindR (store_next msg (mq_free q2) q2)
                            (\<lambda>q3. release_msgs n (q3\<lparr>mq_free := Some msg\<rparr>)))))"

declare release_msgs.simps [simp del]

definition rt_mq_control ::
    "rt_messagequeue \<Rightarrow> nat \<Rightarrow> mq_call threads \<Rightarrow> (int \<times> rt_messagequeue \<times> mq_call threads) result" where
  "rt_mq_control q cmd th =
     (if cmd = RT_IPC_CMD_RESET then
        bindR (release_msgs (mq_max_msgs q) (q\<lparr>mq_wait := [], mq_senders := []\<rparr>))
          (\<lambda>q1. Inr (RT_EOK, q1\<lparr>mq_entry := 0\<rparr>, mq_resume_both q th))
      else Inr (- RT_ERROR, q, th))"

subsection \<open>Linked messages\<close>

fun msg_chain :: "(nat \<Rightarrow> nat option) \<Rightarrow> nat option \<Rightarrow> nat list \<Rightarrow> bool" where
  "msg_chain nx p [] \<longleftrightarrow> p = None"
| "msg_chain nx p (a # as) \<longleftrightarrow> p = Some a \<and> msg_chain nx (nx a) as"

lemma msg_chain_other [simp]: "a \<notin> set as \<Longrightarrow> msg_chain (nx(a := v)) p as = msg_chain nx p as"
  by (induction as arbitrary: p) auto

lemma msg_chain_None [simp]: "msg_chain nx None as \<longleftrightarrow> as = []"
  by (cases as) auto

lemma msg_chain_Some: "msg_chain nx (Some a) as \<longleftrightarrow> (\<exists>bs. as = a # bs \<and> msg_chain nx (nx a) bs)"
  by (cases as) auto

lemma msg_chain_empty: "msg_chain nx p as \<Longrightarrow> as = [] \<longleftrightarrow> p = None"
  by (cases as) auto

text \<open>A message is appended behind the last one.\<close>

lemma msg_chain_snoc:
  "msg_chain nx p as \<Longrightarrow> distinct as \<Longrightarrow> a \<notin> set as \<Longrightarrow> nx a = None \<Longrightarrow> as \<noteq> [] \<Longrightarrow>
    msg_chain (nx(last as := Some a)) p (as @ [a])"
proof (induction as arbitrary: p)
  case (Cons b bs)
  show ?case
  proof (cases bs)
    case Nil
    with Cons.prems show ?thesis by auto
  next
    case (Cons c cs)
    then have "last bs \<noteq> b" using Cons.prems(2) by (auto dest: last_in_set)
    with Cons Cons.IH [of "nx b"] Cons.prems show ?thesis by simp
  qed
qed simp

text \<open>The messages that threads hold between their sections; \<open>own\<close> maps a thread to its message.\<close>

lemma own_add:
  assumes "inj_on own (dom own)" and "finite (dom own)" and "own t = None" and "a \<notin> ran own"
  shows "inj_on (own(t \<mapsto> a)) (dom (own(t \<mapsto> a)))" "finite (dom (own(t \<mapsto> a)))"
    "card (dom (own(t \<mapsto> a))) = Suc (card (dom own))" "ran (own(t \<mapsto> a)) = insert a (ran own)"
proof -
  have "t \<notin> dom own" using assms(3) by auto
  then show "card (dom (own(t \<mapsto> a))) = Suc (card (dom own))" using assms(2) by simp
  show "inj_on (own(t \<mapsto> a)) (dom (own(t \<mapsto> a)))"
    using assms(1,3,4) by (auto simp: inj_on_def ran_def dom_def)
qed (use assms in simp_all)

lemma own_drop:
  assumes "inj_on own (dom own)" and "finite (dom own)" and "own t = Some a"
  shows "inj_on (own(t := None)) (dom (own(t := None)))" "finite (dom (own(t := None)))"
    "Suc (card (dom (own(t := None)))) = card (dom own)" "ran (own(t := None)) = ran own - {a}"
proof -
  have "t \<in> dom own" using assms(3) by auto
  then show "Suc (card (dom (own(t := None)))) = card (dom own)"
    using card.remove [OF assms(2)] by simp
  show "inj_on (own(t := None)) (dom (own(t := None)))" using assms(1) by (auto simp: inj_on_def dom_def)
  show "ran (own(t := None)) = ran own - {a}" using assms(1,3) by (auto simp: ran_def inj_on_def dom_def) (metis option.inject)
qed (use assms in simp)

subsection \<open>The pool\<close>

text \<open>A message holds a text: its first bytes are the text.\<close>

definition holds :: "rt_messagequeue \<Rightarrow> nat \<Rightarrow> nat list \<Rightarrow> bool" where
  "holds q a x \<longleftrightarrow> (\<exists>d. mq_data q a = Some d \<and> take (length x) d = x)"

text \<open>Every message is queued, free or held by one thread.\<close>

definition mq_pool :: "rt_messagequeue \<Rightarrow> nat list \<Rightarrow> nat list \<Rightarrow> (nat \<Rightarrow> nat option) \<Rightarrow> bool" where
  "mq_pool q qs fs own \<longleftrightarrow> msg_chain (mq_next q) (mq_head q) qs \<and> msg_chain (mq_next q) (mq_free q) fs \<and>
     mq_tail q = (if qs = [] then None else Some (last qs)) \<and> distinct (qs @ fs) \<and>
     (\<forall>a \<in> set qs \<union> set fs \<union> ran own. \<exists>d. mq_data q a = Some d \<and> length d = mq_msg_size q) \<and>
     ran own \<inter> (set qs \<union> set fs) = {} \<and> inj_on own (dom own) \<and> finite (dom own) \<and>
     card (dom own) + length qs + length fs = mq_max_msgs q \<and> mq_max_msgs q \<le> RT_MQ_ENTRY_MAX"

text \<open>The queued messages hold the texts \<open>xs\<close>.\<close>

definition mq_heap ::
    "rt_messagequeue \<Rightarrow> nat list \<Rightarrow> nat list \<Rightarrow> nat list list \<Rightarrow> (nat \<Rightarrow> nat option) \<Rightarrow> bool" where
  "mq_heap q qs fs xs own \<longleftrightarrow> mq_pool q qs fs own \<and> mq_entry q = length qs \<and> list_all2 (holds q) qs xs"

lemma mq_heapD:
  assumes "mq_heap q qs fs xs own"
  shows "msg_chain (mq_next q) (mq_head q) qs" "msg_chain (mq_next q) (mq_free q) fs"
    "mq_tail q = (if qs = [] then None else Some (last qs))" "distinct (qs @ fs)"
    "\<And>a. a \<in> set qs \<union> set fs \<union> ran own \<Longrightarrow> \<exists>d. mq_data q a = Some d \<and> length d = mq_msg_size q"
    "ran own \<inter> (set qs \<union> set fs) = {}" "inj_on own (dom own)" "finite (dom own)"
    "card (dom own) + length qs + length fs = mq_max_msgs q" "mq_max_msgs q \<le> RT_MQ_ENTRY_MAX"
    "mq_entry q = length qs" "list_all2 (holds q) qs xs"
  using assms by (simp_all add: mq_heap_def mq_pool_def)

lemma holds_upd [simp]:
  "holds (q\<lparr>mq_next := n\<rparr>) = holds q" "holds (q\<lparr>mq_head := h\<rparr>) = holds q" "holds (q\<lparr>mq_tail := h\<rparr>) = holds q"
  "holds (q\<lparr>mq_free := h\<rparr>) = holds q" "holds (q\<lparr>mq_entry := k\<rparr>) = holds q"
  "holds (q\<lparr>mq_wait := ts\<rparr>) = holds q" "holds (q\<lparr>mq_senders := ts\<rparr>) = holds q"
  by (simp_all add: holds_def fun_eq_iff)

lemma mq_heap_lists [simp]:
  "mq_heap (q\<lparr>mq_wait := ts\<rparr>) qs fs xs own = mq_heap q qs fs xs own"
  "mq_heap (q\<lparr>mq_senders := ts\<rparr>) qs fs xs own = mq_heap q qs fs xs own"
  "mq_pool (q\<lparr>mq_wait := ts\<rparr>) qs fs own = mq_pool q qs fs own"
  "mq_pool (q\<lparr>mq_senders := ts\<rparr>) qs fs own = mq_pool q qs fs own"
  "mq_pool (q\<lparr>mq_entry := n\<rparr>) qs fs own = mq_pool q qs fs own"
  by (simp_all add: mq_heap_def mq_pool_def)

lemma list_all2_holds_data:
  assumes "list_all2 (holds q) qs xs" and "a \<notin> set qs" and "mq_data q' = (mq_data q)(a := v)"
  shows "list_all2 (holds q') qs xs"
  using assms by (auto simp: list_all2_conv_all_nth holds_def)

text \<open>A free message is taken and filled.\<close>

lemma heap_take:
  assumes h: "mq_heap q qs (a # fs) xs own" and t: "own t = None" and len: "length buf \<le> mq_msg_size q"
    and d: "mq_data q a = Some d"
  shows "mq_heap (q\<lparr>mq_free := mq_next q a, mq_next := (mq_next q)(a := v),
      mq_data := (mq_data q)(a \<mapsto> buf @ drop (length buf) d)\<rparr>) qs fs xs (own(t \<mapsto> a))" (is "mq_heap ?q _ _ _ _")
    and "holds (q\<lparr>mq_free := mq_next q a, mq_next := (mq_next q)(a := v),
      mq_data := (mq_data q)(a \<mapsto> buf @ drop (length buf) d)\<rparr>) a buf"
proof -
  note k = mq_heapD [OF h]
  have fresh: "a \<notin> ran own" "a \<notin> set qs" "a \<notin> set fs" using k(4,6) by auto
  note o = own_add [OF k(7,8) t fresh(1)]
  have "length d = mq_msg_size q" using k(5) [of a] d by auto
  with len have "length (buf @ drop (length buf) d) = mq_msg_size q" by simp
  moreover have "list_all2 (holds ?q) qs xs"
    by (rule list_all2_holds_data [OF k(12) fresh(2)]) simp
  ultimately show "mq_heap ?q qs fs xs (own(t \<mapsto> a))"
    unfolding mq_heap_def mq_pool_def o(3,4) using k fresh o(1,2) by (auto simp del: fun_upd_apply dom_fun_upd simp: fun_upd_apply [of _ a])
  show "holds ?q a buf" by (simp add: holds_def)
qed

text \<open>A message that a thread holds is linked behind the last queued one.\<close>

lemma heap_link:
  assumes h: "mq_heap q qs fs xs own" and t: "own t = Some a" and "holds q a buf" and nx: "mq_next q a = None"
  shows "mq_heap (q\<lparr>mq_next := (if qs = [] then mq_next q else (mq_next q)(last qs := Some a)), mq_tail := Some a,
      mq_head := (if qs = [] then Some a else mq_head q), mq_entry := mq_entry q + 1\<rparr>)
    (qs @ [a]) fs (xs @ [buf]) (own(t := None))"
proof -
  note k = mq_heapD [OF h]
  have a: "a \<in> ran own" using t by (rule ranI)
  then have fresh: "a \<notin> set qs" "a \<notin> set fs" using k(6) by auto
  note o = own_drop [OF k(7,8) t]
  have ch: "msg_chain (if qs = [] then mq_next q else (mq_next q)(last qs := Some a))
      (if qs = [] then Some a else mq_head q) (qs @ [a])"
    using msg_chain_snoc [OF k(1) _ fresh(1) nx] k(4) nx by auto
  have "last qs \<notin> set fs" if "qs \<noteq> []" using k(4) last_in_set [OF that] by auto
  then have cf: "msg_chain (if qs = [] then mq_next q else (mq_next q)(last qs := Some a)) (mq_free q) fs"
    using k(2) by simp
  have "list_all2 (holds q) (qs @ [a]) (xs @ [buf])" using k(12) assms(3) by (simp add: list_all2_appendI)
  moreover have "distinct ((qs @ [a]) @ fs)" using k(4) fresh by auto
  ultimately show ?thesis using ch cf k o a fresh unfolding mq_heap_def mq_pool_def o(4) by (auto simp del: dom_fun_upd)
qed

text \<open>It is linked in front.\<close>

lemma heap_link_front:
  assumes h: "mq_heap q qs fs xs own" and t: "own t = Some a" and "holds q a buf"
  shows "mq_heap (q\<lparr>mq_next := (mq_next q)(a := mq_head q), mq_head := Some a,
      mq_tail := (if mq_tail q = None then Some a else mq_tail q), mq_entry := mq_entry q + 1\<rparr>)
    (a # qs) fs (buf # xs) (own(t := None))"
proof -
  note k = mq_heapD [OF h]
  have a: "a \<in> ran own" using t by (rule ranI)
  then have fresh: "a \<notin> set qs" "a \<notin> set fs" using k(6) by auto
  note o = own_drop [OF k(7,8) t]
  have "distinct ((a # qs) @ fs)" using k(4) fresh by auto
  then show ?thesis using k o a fresh assms(3) unfolding mq_heap_def mq_pool_def o(4) by (auto simp del: dom_fun_upd)
qed

text \<open>The first queued message goes to a thread.\<close>

lemma heap_unlink:
  assumes h: "mq_heap q (a # qs) fs (x # xs) own" and t: "own t = None"
  shows "mq_heap (q\<lparr>mq_head := mq_next q a, mq_tail := (if mq_tail q = Some a then None else mq_tail q),
      mq_entry := mq_entry q - 1\<rparr>) qs fs xs (own(t \<mapsto> a))"
proof -
  note k = mq_heapD [OF h]
  have fresh: "a \<notin> ran own" "a \<notin> set qs" "a \<notin> set fs" using k(4,6) by auto
  note o = own_add [OF k(7,8) t fresh(1)]
  have "(if mq_tail q = Some a then None else mq_tail q) = (if qs = [] then None else Some (last qs))"
    using k(3) fresh(2) by (auto dest: last_in_set)
  then show ?thesis using k o fresh unfolding mq_heap_def mq_pool_def o(4) by (auto simp del: dom_fun_upd)
qed

text \<open>A thread gives its message back.\<close>

lemma heap_give:
  assumes h: "mq_heap q qs fs xs own" and t: "own t = Some a"
  shows "mq_heap (q\<lparr>mq_next := (mq_next q)(a := mq_free q), mq_free := Some a\<rparr>) qs (a # fs) xs (own(t := None))"
proof -
  note k = mq_heapD [OF h]
  have a: "a \<in> ran own" using t by (rule ranI)
  then have fresh: "a \<notin> set qs" "a \<notin> set fs" using k(6) by auto
  note o = own_drop [OF k(7,8) t]
  show ?thesis using k o a fresh unfolding mq_heap_def mq_pool_def o(4) by (auto simp del: dom_fun_upd)
qed

text \<open>The loop of the set-up.\<close>

lemma link_all_ok:
  assumes "n * (mq_msg_size q + SIZEOF_MESSAGE) \<le> length pool" and "mq_free q = None"
  shows "\<exists>p nx dt. link_all pool n q = Inr (q\<lparr>mq_free := p, mq_next := nx, mq_data := dt\<rparr>) \<and>
    msg_chain nx p (map (\<lambda>k. k * (mq_msg_size q + SIZEOF_MESSAGE)) (rev [0..<n])) \<and>
    (\<forall>k<n. \<exists>d. dt (k * (mq_msg_size q + SIZEOF_MESSAGE)) = Some d \<and> length d = mq_msg_size q)"
  using assms(1)
proof (induction n)
  case 0
  then show ?case using assms(2) by (intro exI [of _ None] exI [of _ "mq_next q"] exI [of _ "mq_data q"]) simp
next
  case (Suc n)
  let ?w = "mq_msg_size q + SIZEOF_MESSAGE"
  have w: "0 < ?w" by (simp add: SIZEOF_MESSAGE_def)
  from Suc obtain p nx dt where IH: "link_all pool n q = Inr (q\<lparr>mq_free := p, mq_next := nx, mq_data := dt\<rparr>)"
    "msg_chain nx p (map (\<lambda>k. k * ?w) (rev [0..<n]))"
    "\<forall>k<n. \<exists>d. dt (k * ?w) = Some d \<and> length d = mq_msg_size q" by auto
  let ?d = "take (mq_msg_size q) (drop (n * ?w + SIZEOF_MESSAGE) pool)"
  have fit: "n * ?w + SIZEOF_MESSAGE \<le> length pool" "length ?d = mq_msg_size q" using Suc.prems by simp_all
  have "n * ?w \<notin> (\<lambda>k. k * ?w) ` {0..<n}" using w by auto
  then have ch: "msg_chain (nx(n * ?w := p)) (Some (n * ?w)) (map (\<lambda>k. k * ?w) (rev [0..<Suc n]))"
    using IH(2) by simp
  have "\<forall>k<Suc n. \<exists>d. (dt(n * ?w \<mapsto> ?d)) (k * ?w) = Some d \<and> length d = mq_msg_size q"
    using IH(3) fit(2) w by (auto simp: less_Suc_eq)
  moreover have "link_all pool (Suc n) q =
      Inr (q\<lparr>mq_free := Some (n * ?w), mq_next := nx(n * ?w := p), mq_data := dt(n * ?w \<mapsto> ?d)\<rparr>)"
    using IH(1) fit(1) by (simp add: link_free_def Let_def)
  ultimately show ?case using ch by blast
qed

lemma mq_init_heap:
  assumes "rt_mq_init pool msg_size0 pool_size flag = Inr (RT_EOK, q)" and "pool_size \<le> length pool"
  shows "\<exists>fs. mq_heap q [] fs [] (\<lambda>t. None) \<and> valid_flag (mq_flag q) \<and> mq_wait q = [] \<and> mq_senders q = []"
proof -
  let ?s = "u16 (size_up msg_size0)"
  let ?n = "u16 (pool_size div (?s + SIZEOF_MESSAGE))"
  let ?w = "?s + SIZEOF_MESSAGE"
  have w: "0 < ?w" by (simp add: SIZEOF_MESSAGE_def)
  have "?n * ?w \<le> pool_size div ?w * ?w" by (simp add: u16_def)
  also have "\<dots> \<le> length pool" using assms(2) by (metis div_times_less_eq_dividend order_trans)
  finally have "?n * (mq_msg_size (fresh_mqueue flag ?s ?n) + SIZEOF_MESSAGE) \<le> length pool"
    by (simp add: fresh_mqueue_def)
  from link_all_ok [OF this] obtain p nx dt where l: "link_all pool ?n (fresh_mqueue flag ?s ?n) =
      Inr ((fresh_mqueue flag ?s ?n)\<lparr>mq_free := p, mq_next := nx, mq_data := dt\<rparr>)"
    "msg_chain nx p (map (\<lambda>k. k * ?w) (rev [0..<?n]))"
    "\<forall>k<?n. \<exists>d. dt (k * ?w) = Some d \<and> length d = ?s"
    by (auto simp: fresh_mqueue_def)
  let ?fs = "map (\<lambda>k. k * ?w) (rev [0..<?n])"
  have v: "valid_flag flag" using assms(1) by (simp add: rt_mq_init_def split: if_splits)
  then have q: "q = (fresh_mqueue flag ?s ?n)\<lparr>mq_free := p, mq_next := nx, mq_data := dt\<rparr>"
    using assms(1) l(1) by (simp add: rt_mq_init_def Let_def)
  have "distinct ?fs" using w by (auto simp: distinct_map inj_on_def)
  moreover have "\<forall>a\<in>set ?fs. \<exists>d. dt a = Some d \<and> length d = ?s" using l(3) by auto
  moreover have "?n \<le> RT_MQ_ENTRY_MAX" by (simp add: u16_def RT_MQ_ENTRY_MAX_def)
  ultimately have "mq_heap q [] ?fs [] (\<lambda>t. None)" using l(2) by (simp add: q mq_heap_def mq_pool_def fresh_mqueue_def)
  then show ?thesis using v by (auto simp: q fresh_mqueue_def)
qed

text \<open>The loop of a reset.\<close>

lemma release_msgs_ok:
  "mq_pool q qs fs own \<Longrightarrow> length qs \<le> fuel \<Longrightarrow>
    \<exists>p nx. release_msgs fuel q = Inr (q\<lparr>mq_head := None, mq_tail := None, mq_free := p, mq_next := nx\<rparr>) \<and>
      mq_pool (q\<lparr>mq_head := None, mq_tail := None, mq_free := p, mq_next := nx\<rparr>) [] (rev qs @ fs) own \<and>
      (\<forall>a\<in>ran own. nx a = mq_next q a)"
proof (induction qs arbitrary: q fs fuel)
  case Nil
  have "mq_head q = None" "mq_tail q = None" using Nil(1) by (simp_all add: mq_pool_def)
  then have "q\<lparr>mq_head := None, mq_tail := None, mq_free := mq_free q, mq_next := mq_next q\<rparr> = q"
    "release_msgs fuel q = Inr q" by (simp_all add: release_msgs.simps)
  with Nil(1) show ?case by (intro exI [of _ "mq_free q"] exI [of _ "mq_next q"]) simp
next
  case (Cons a qs)
  obtain n where n: "fuel = Suc n" "length qs \<le> n" using Cons.prems(2) by (cases fuel) auto
  have fresh: "a \<notin> ran own" "a \<notin> set qs" "a \<notin> set fs" using Cons.prems(1) by (auto simp: mq_pool_def)
  have tail: "(if mq_tail q = Some a then None else mq_tail q) = (if qs = [] then None else Some (last qs))"
    using Cons.prems(1) fresh(2) by (auto simp: mq_pool_def dest: last_in_set)
  let ?q = "q\<lparr>mq_head := mq_next q a, mq_tail := (if mq_tail q = Some a then None else mq_tail q),
    mq_next := (mq_next q)(a := mq_free q), mq_free := Some a\<rparr>"
  have pool: "mq_pool ?q qs (a # fs) own"
    using Cons.prems(1) fresh unfolding mq_pool_def tail by auto
  from Cons.IH [OF this n(2)] obtain p nx where r:
    "release_msgs n ?q = Inr (?q\<lparr>mq_head := None, mq_tail := None, mq_free := p, mq_next := nx\<rparr>)"
    "mq_pool (?q\<lparr>mq_head := None, mq_tail := None, mq_free := p, mq_next := nx\<rparr>) [] (rev qs @ a # fs) own"
    "\<forall>b\<in>ran own. nx b = mq_next ?q b" by blast
  obtain d where data: "mq_data q a = Some d" "mq_head q = Some a" using Cons.prems(1) by (auto simp: mq_pool_def)
  have "release_msgs fuel q = release_msgs n ?q"
    using data unfolding n(1) by (simp add: release_msgs.simps [of "Suc n" q] load_next_def store_next_def Let_def)
  moreover have "?q\<lparr>mq_head := None, mq_tail := None, mq_free := p, mq_next := nx\<rparr> =
      q\<lparr>mq_head := None, mq_tail := None, mq_free := p, mq_next := nx\<rparr>" by simp
  moreover have "\<forall>b\<in>ran own. nx b = mq_next q b" using r(3) fresh(1) by auto
  ultimately show ?case using r(1,2) by auto
qed

subsection \<open>Threads on a message queue\<close>

fun is_mq_recv :: "mq_call \<Rightarrow> bool" where
  "is_mq_recv (Mq_recv sz timeout) = True"
| "is_mq_recv c = False"

fun is_mq_send :: "mq_call \<Rightarrow> bool" where
  "is_mq_send (Mq_send buffer timeout) = True"
| "is_mq_send c = False"

lemma mq_kinds: "is_mq_recv c \<Longrightarrow> \<not> is_mq_send c" "is_mq_send c \<Longrightarrow> \<not> is_mq_recv c"
  by (cases c; simp)+

text \<open>The message that a call holds.\<close>

fun msg_of :: "mq_call \<Rightarrow> nat option" where
  "msg_of (Mq_link a buffer) = Some a"
| "msg_of (Mq_link_front a buffer) = Some a"
| "msg_of (Mq_give a bytes) = Some a"
| "msg_of c = None"

fun mq_exec ::
    "(int \<times> int) option \<Rightarrow> (nat \<Rightarrow> nat) \<Rightarrow> nat \<Rightarrow> mq_call \<Rightarrow> rt_messagequeue \<Rightarrow>
     (mq_outcome \<times> rt_messagequeue) result" where
  "mq_exec woken prio t (Mq_send buffer timeout) q = rt_mq_send_wait woken prio t buffer timeout q"
| "mq_exec woken prio t (Mq_urgent buffer) q = rt_mq_urgent buffer q"
| "mq_exec woken prio t (Mq_recv sz timeout) q = rt_mq_recv woken prio t sz timeout q"
| "mq_exec woken prio t (Mq_link a buffer) q = mq_link a q"
| "mq_exec woken prio t (Mq_link_front a buffer) q = mq_link_front a q"
| "mq_exec woken prio t (Mq_give a bytes) q = mq_give a bytes q"

fun mq_timeout :: "mq_call \<Rightarrow> int" where
  "mq_timeout (Mq_send buffer timeout) = timeout"
| "mq_timeout (Mq_recv sz timeout) = timeout"
| "mq_timeout c = 0"

text \<open>What a section does to the list of messages.\<close>

fun mq_texts :: "mq_call \<Rightarrow> mq_outcome \<Rightarrow> nat list list \<Rightarrow> nat list list" where
  "mq_texts (Mq_link a buffer) (Finish err u x) xs = (if err = RT_EOK then xs @ [buffer] else xs)"
| "mq_texts (Mq_link_front a buffer) (Finish err u x) xs = (if err = RT_EOK then buffer # xs else xs)"
| "mq_texts (Mq_recv sz timeout) (Proceed c) xs = tl xs"
| "mq_texts c out xs = xs"

text \<open>A thread calls with a buffer of its own; \<open>msg_of c = None\<close> says that it starts with a first section.\<close>

inductive mq_reach ::
    "(nat \<Rightarrow> nat) \<Rightarrow> rt_messagequeue \<Rightarrow> mq_call threads \<Rightarrow> nat list list \<Rightarrow> bool" for prio where
  init: "rt_mq_init pool msg_size pool_size flag = Inr (RT_EOK, q) \<Longrightarrow> pool_size \<le> length pool \<Longrightarrow>
    mq_reach prio q (\<lambda>t. Idle) []"
| call: "mq_reach prio q th xs \<Longrightarrow> th t = Idle \<Longrightarrow> msg_of c = None \<Longrightarrow> mq_exec None prio t c q = Inr (out, q') \<Longrightarrow>
    mq_reach prio q' (after t out th) (mq_texts c out xs)"
| resume: "mq_reach prio q th xs \<Longrightarrow> th t = Ready c err \<Longrightarrow>
    mq_exec (Some (err, elapsed)) prio t c q = Inr (out, q') \<Longrightarrow>
    mq_reach prio q' (after t out th) (mq_texts c out xs)"
| timeout: "mq_reach prio q th xs \<Longrightarrow> th t = Waiting c \<Longrightarrow> 0 < mq_timeout c \<Longrightarrow>
    mq_reach prio (q\<lparr>mq_wait := remove1 t (mq_wait q), mq_senders := remove1 t (mq_senders q)\<rparr>)
      (th(t := Ready c (- RT_ETIMEOUT))) xs"
| reset: "mq_reach prio q th xs \<Longrightarrow> rt_mq_control q RT_IPC_CMD_RESET th = Inr (RT_EOK, q', th') \<Longrightarrow>
    mq_reach prio q' th' []"

fun held_by :: "mq_call thread_state \<Rightarrow> nat option" where
  "held_by (Ready c err) = msg_of c"
| "held_by s = None"

abbreviation owns :: "mq_call threads \<Rightarrow> nat \<Rightarrow> nat option" where
  "owns th \<equiv> (\<lambda>t. held_by (th t))"

text \<open>What the frames of suspended and preempted calls hold.\<close>

fun frame_ok :: "rt_messagequeue \<Rightarrow> mq_call thread_state \<Rightarrow> bool" where
  "frame_ok q Idle = True"
| "frame_ok q (Waiting c) = (case c of Mq_send buffer timeout \<Rightarrow> length buffer \<le> mq_msg_size q
    | Mq_recv sz timeout \<Rightarrow> True | _ \<Rightarrow> False)"
| "frame_ok q (Ready c err) = (case c of Mq_send buffer timeout \<Rightarrow> length buffer \<le> mq_msg_size q
    | Mq_recv sz timeout \<Rightarrow> True | Mq_urgent buffer \<Rightarrow> False
    | Mq_link a buffer \<Rightarrow> err = RT_EOK \<and> holds q a buffer \<and> mq_next q a = None
    | Mq_link_front a buffer \<Rightarrow> err = RT_EOK \<and> holds q a buffer | Mq_give a bytes \<Rightarrow> err = RT_EOK)"

definition mq_ok ::
    "rt_messagequeue \<Rightarrow> mq_call threads \<Rightarrow> nat list \<Rightarrow> nat list \<Rightarrow> nat list list \<Rightarrow> bool" where
  "mq_ok q th qs fs xs \<longleftrightarrow> mq_heap q qs fs xs (owns th) \<and> valid_flag (mq_flag q) \<and> (\<forall>t. frame_ok q (th t)) \<and>
     side is_mq_recv th (mq_wait q) (length qs) \<and> side is_mq_send th (mq_senders q) (length fs)"

lemma mq_okD:
  assumes "mq_ok q th qs fs xs"
  shows "mq_heap q qs fs xs (owns th)" "valid_flag (mq_flag q)" "\<And>t. frame_ok q (th t)"
    "side is_mq_recv th (mq_wait q) (length qs)" "side is_mq_send th (mq_senders q) (length fs)"
  using assms by (simp_all add: mq_ok_def)

text \<open>Frames of other threads do not see what happens to a message that is not theirs.\<close>

lemma frame_keep:
  assumes "frame_ok q s" and "mq_msg_size q' = mq_msg_size q"
    and "\<And>a. held_by s = Some a \<Longrightarrow> mq_data q' a = mq_data q a \<and> mq_next q' a = mq_next q a"
  shows "frame_ok q' s"
  using assms by (cases s) (auto simp: holds_def split: mq_call.splits)

lemma held_wake: "frame_ok q (th u) \<Longrightarrow> owns (wake_thread u err th) = owns th"
  by (auto simp: wake_thread_def fun_eq_iff split: thread_state.splits mq_call.splits)

lemma frame_wake: "frame_ok q (th u) \<Longrightarrow> frame_ok q (th t) \<Longrightarrow> frame_ok q (wake_thread u err th t)"
  by (auto simp: wake_thread_def split: thread_state.splits mq_call.splits)

lemma owns_upd: "owns (th(t := s)) = (owns th)(t := held_by s)"
  by auto

lemma mq_wake_opt:
  assumes "\<And>t. frame_ok q (th t)"
  shows "owns (wake_opt u th) = owns th" and "frame_ok q (wake_opt u th t)"
proof -
  show "owns (wake_opt u th) = owns th"
    by (cases u) (simp_all only: option.case held_wake [OF assms])
  show "frame_ok q (wake_opt u th t)"
    by (cases u) (simp_all only: option.case assms frame_wake [OF assms assms])
qed

text \<open>The end of both ways to link a message.\<close>

lemma mq_count_ok:
  assumes "mq_heap (q\<lparr>mq_entry := mq_entry q + 1\<rparr>) qs fs xs (owns th)" and "valid_flag (mq_flag q)"
    and "\<And>t. frame_ok q (th t)" and "side is_mq_recv th (mq_wait q) n" and "side is_mq_send th (mq_senders q) (length fs)"
    and "length qs = n + 1"
  shows "\<exists>u q'. mq_count q = (Finish RT_EOK u None, q') \<and> mq_ok q' (wake_opt u th) qs fs xs"
proof -
  obtain u us where r: "ipc_list_resume (mq_wait q) = (u, us)" by (cases "ipc_list_resume (mq_wait q)")
  let ?q = "q\<lparr>mq_entry := mq_entry q + 1\<rparr>"
  note k = mq_heapD [OF assms(1)]
  have "mq_entry q < RT_MQ_ENTRY_MAX" using k(9,10,11) by simp
  moreover note s = channel_resume [OF assms(4,5) mq_kinds(1) r]
  have fr: "frame_ok (?q\<lparr>mq_wait := us\<rparr>) (th t)" for t using frame_keep [OF assms(3)] by simp
  note w = mq_wake_opt(1) [of _ th u, OF fr] mq_wake_opt(2) [of _ th u, OF fr]
  have "mq_ok (?q\<lparr>mq_wait := us\<rparr>) (wake_opt u th) qs fs xs"
    unfolding mq_ok_def w(1) using s assms(1,2,6) w(2) by simp
  ultimately show ?thesis using r by (simp add: mq_count_def mq_resume_receiver_def)
qed

text \<open>The other frames while thread \<open>t\<close> changes its own message \<open>a\<close>: nobody else holds it.\<close>

lemma frames_other:
  assumes "\<And>t. frame_ok q (th t)" and "mq_msg_size q' = mq_msg_size q" and "frame_ok q' s"
    and "\<And>u b. u \<noteq> t \<Longrightarrow> held_by (th u) = Some b \<Longrightarrow> mq_data q' b = mq_data q b \<and> mq_next q' b = mq_next q b"
  shows "frame_ok q' ((th(t := s)) u)"
proof (cases "u = t")
  case False
  then show ?thesis using frame_keep [OF assms(1,2) assms(4) [of u]] by simp
qed (use assms(3) in simp)

lemma owns_none:
  "runs th t c woken \<Longrightarrow> msg_of c = None \<Longrightarrow> held_by s = None \<Longrightarrow> owns (th(t := s)) = owns th"
  by (auto simp: runs_def fun_eq_iff split: option.splits)

text \<open>Both kinds of sending take a free message.\<close>

lemma mq_take_free_ok:
  assumes ok: "mq_ok q th qs fs xs" and r: "runs th t c woken" "msg_of c = None" "\<not> is_mq_recv c"
    and len: "length buf \<le> mq_msg_size q" and free: "mq_free q = Some a"
    and c': "msg_of c' = Some a" "\<And>q'. holds q' a buf \<Longrightarrow> mq_next q' a = v \<Longrightarrow> frame_ok q' (Ready c' RT_EOK)"
  shows "\<exists>d fs'. mq_data q a = Some d \<and> length buf \<le> length d \<and> fs = a # fs' \<and>
    mq_ok (q\<lparr>mq_free := mq_next q a, mq_next := (mq_next q)(a := v),
      mq_data := (mq_data q)(a \<mapsto> buf @ drop (length buf) d)\<rparr>) (th(t := Ready c' RT_EOK)) qs fs' xs"
proof -
  note k = mq_okD [OF ok]
  note h = mq_heapD [OF k(1)]
  obtain fs' where fs: "fs = a # fs'" using h(2) free by (cases fs) auto
  obtain d where d: "mq_data q a = Some d" "length d = mq_msg_size q" using h(5) [of a] fs by auto
  have own: "owns th t = None" using r(1,2) by (auto simp: runs_def split: option.splits)
  have kind: "\<not> is_mq_recv c'" "\<not> is_mq_send c'" using c'(1) by (cases c'; simp)+
  let ?q = "q\<lparr>mq_free := mq_next q a, mq_next := (mq_next q)(a := v),
      mq_data := (mq_data q)(a \<mapsto> buf @ drop (length buf) d)\<rparr>"
  note t = heap_take [OF k(1) [unfolded fs] own len d(1), of v]
  have "owns (th(t := Ready c' RT_EOK)) = (owns th)(t \<mapsto> a)" using c'(1) by (auto simp: fun_eq_iff)
  then have "mq_heap ?q qs fs' xs (owns (th(t := Ready c' RT_EOK)))" using t(1) by simp
  moreover have "b \<noteq> a" if "held_by (th u) = Some b" for u b
    using h(6) fs that by (auto simp: ran_def)
  then have "frame_ok ?q ((th(t := Ready c' RT_EOK)) u)" for u
    using c'(2) [of ?q] t(2) by (intro frames_other [OF k(3)]) auto
  moreover have "side is_mq_recv (th(t := Ready c' RT_EOK)) (mq_wait q) (length qs)"
    using kind(1) by (intro side_other [OF k(4) r(1,3)]) auto
  moreover have "side is_mq_send (th(t := Ready c' RT_EOK)) (mq_senders q) (length fs')"
    using kind(2) fs by (intro side_use [OF k(5) r(1)]) auto
  ultimately have "mq_ok ?q (th(t := Ready c' RT_EOK)) qs fs' xs" using k(2) by (simp add: mq_ok_def)
  with d fs len show ?thesis by auto
qed

lemma mq_send_section_ok:
  assumes ok: "mq_ok q th qs fs xs" and r: "runs th t c woken" "is_mq_send c"
    and len: "length buf \<le> mq_msg_size q"
  shows "\<exists>out q' qs' fs'. mq_send_section prio t buf timeout q = Inr (out, q') \<and> mq_ok q' (after t out th) qs' fs' xs \<and>
    (if mq_free q = None then \<not> succeeds out \<and> (\<forall>c. out \<noteq> Proceed c) else (\<exists>a. out = Proceed (Mq_link a buf)))"
proof -
  note k = mq_okD [OF ok]
  note h = mq_heapD [OF k(1)]
  have own: "\<not> is_mq_recv c" "msg_of c = None" using r(2) by (cases c; simp)+
  show ?thesis
  proof (cases "mq_free q")
    case None
    then have fs: "fs = []" using h(2) by simp
    have keep: "mq_heap q qs fs xs (owns (th(t := s)))" if "held_by s = None" for s
      unfolding owns_none [OF r(1) own(2) that] by (rule k(1))
    show ?thesis
    proof (cases "timeout = 0")
      case True
      have "mq_ok q (th(t := Idle)) qs fs xs"
        using keep [of Idle] k(2,3) side_other [OF k(4) r(1) own(1), of Idle] side_use [OF k(5) r(1), of Idle 0] fs
        by (simp add: mq_ok_def)
      with True None show ?thesis by (auto simp: mq_send_section_def)
    next
      case False
      let ?s = "Waiting (Mq_send buf timeout)"
      obtain ts where ts: "ipc_list_suspend (mq_senders q) t (mq_flag q) prio = Inr ts"
        "mset ts = add_mset t (mset (mq_senders q))"
        using suspend_ok [OF k(2)] by blast
      have "side is_mq_send (th(t := ?s)) ts 0" by (rule side_block [OF k(5) r(1) _ ts(2)]) simp
      moreover have "frame_ok (q\<lparr>mq_senders := ts\<rparr>) ((th(t := ?s)) u)" for u
        using len by (intro frames_other [OF k(3)]) auto
      ultimately have "mq_ok (q\<lparr>mq_senders := ts\<rparr>) (th(t := ?s)) qs fs xs"
        using keep [of ?s] k(2) side_other [OF k(4) r(1) own(1), of ?s] fs by (simp add: mq_ok_def)
      with False None ts(1) show ?thesis by (auto simp: mq_send_section_def)
    qed
  next
    case (Some a)
    obtain d fs' where d: "mq_data q a = Some d" "length buf \<le> length d"
      "mq_ok (q\<lparr>mq_free := mq_next q a, mq_next := (mq_next q)(a := None),
        mq_data := (mq_data q)(a \<mapsto> buf @ drop (length buf) d)\<rparr>) (th(t := Ready (Mq_link a buf) RT_EOK)) qs fs' xs"
      using mq_take_free_ok [OF ok r(1) own(2,1) len Some, of "Mq_link a buf" None] by auto
    with Some show ?thesis
      by (auto simp: mq_send_section_def load_next_def store_next_def copy_in_def)
  qed
qed

lemma mq_urgent_ok:
  assumes ok: "mq_ok q th qs fs xs" and r: "runs th t (Mq_urgent buf) woken" and "buf \<noteq> []"
  shows "\<exists>out q' fs'. rt_mq_urgent buf q = Inr (out, q') \<and> mq_ok q' (after t out th) qs fs' xs \<and>
    (if length buf \<le> mq_msg_size q \<and> mq_free q \<noteq> None then (\<exists>a. out = Proceed (Mq_link_front a buf))
     else \<not> succeeds out \<and> (\<forall>c. out \<noteq> Proceed c))"
proof -
  note k = mq_okD [OF ok]
  have idle: "mq_ok q (th(t := Idle)) qs fs xs"
    unfolding mq_ok_def owns_none [OF r msg_of.simps(5) held_by.simps(2)]
    using k side_other [OF k(4) r, of Idle] side_other [OF k(5) r, of Idle] by simp
  show ?thesis
  proof (cases "length buf \<le> mq_msg_size q")
    case True
    show ?thesis
    proof (cases "mq_free q")
      case None
      with True assms(3) idle show ?thesis by (auto simp: rt_mq_urgent_def)
    next
      case (Some a)
      obtain d fs' where d: "mq_data q a = Some d" "length buf \<le> length d"
        "mq_ok (q\<lparr>mq_free := mq_next q a, mq_next := (mq_next q)(a := mq_next q a),
          mq_data := (mq_data q)(a \<mapsto> buf @ drop (length buf) d)\<rparr>) (th(t := Ready (Mq_link_front a buf) RT_EOK)) qs fs' xs"
        using mq_take_free_ok [OF ok r _ _ True Some, of "Mq_link_front a buf" "mq_next q a"] by auto
      with True Some assms(3) show ?thesis
        by (auto simp: rt_mq_urgent_def load_next_def copy_in_def)
    qed
  qed (use assms(3) idle in \<open>auto simp: rt_mq_urgent_def\<close>)
qed

text \<open>A thread that holds a message comes back to link it.\<close>

lemma mq_holder:
  assumes ok: "mq_ok q th qs fs xs" and t: "th t = Ready c err" and a: "msg_of c = Some a"
  shows "owns th t = Some a" "a \<notin> set qs" "a \<notin> set fs" "\<exists>d. mq_data q a = Some d"
    "\<And>u b. u \<noteq> t \<Longrightarrow> held_by (th u) = Some b \<Longrightarrow> b \<noteq> a"
    "\<And>u b. held_by (th u) = Some b \<Longrightarrow> b \<notin> set qs"
    "side is_mq_recv (th(t := Idle)) (mq_wait q) (length qs)" "side is_mq_send (th(t := Idle)) (mq_senders q) (length fs)"
proof -
  note k = mq_okD [OF ok]
  note h = mq_heapD [OF k(1)]
  show own: "owns th t = Some a" using t a by simp
  then have "a \<in> ran (owns th)" by (rule ranI)
  with h(5,6) show "a \<notin> set qs" "a \<notin> set fs" "\<exists>d. mq_data q a = Some d" by auto
  show "u \<noteq> t \<Longrightarrow> held_by (th u) = Some b \<Longrightarrow> b \<noteq> a" for u b
    using h(7) own by (auto simp: inj_on_def dom_def)
  show "held_by (th u) = Some b \<Longrightarrow> b \<notin> set qs" for u b
    using h(6) by (auto simp: ran_def)
  have r: "runs th t c (Some err)" using t by (simp add: runs_def)
  have kind: "\<not> is_mq_recv c" "\<not> is_mq_send c" using a by (cases c; simp)+
  show "side is_mq_recv (th(t := Idle)) (mq_wait q) (length qs)" by (rule side_other [OF k(4) r kind(1)]) auto
  show "side is_mq_send (th(t := Idle)) (mq_senders q) (length fs)" by (rule side_other [OF k(5) r kind(2)]) auto
qed

lemma mq_link_ok:
  assumes ok: "mq_ok q th qs fs xs" and t: "th t = Ready (Mq_link a buf) err"
  shows "\<exists>u q'. mq_link a q = Inr (Finish RT_EOK u None, q') \<and>
    mq_ok q' (wake_opt u (th(t := Idle))) (qs @ [a]) fs (xs @ [buf])"
proof -
  note k = mq_okD [OF ok]
  note h = mq_heapD [OF k(1)]
  note o = mq_holder [OF ok t msg_of.simps(1)]
  have buf: "holds q a buf" "mq_next q a = None" using k(3) [of t] t by simp_all
  let ?n = "if qs = [] then mq_next q else (mq_next q)(last qs := Some a)"
  let ?q = "q\<lparr>mq_next := ?n, mq_tail := Some a, mq_head := (if qs = [] then Some a else mq_head q)\<rparr>"
  have "mq_heap (?q\<lparr>mq_entry := mq_entry ?q + 1\<rparr>) (qs @ [a]) fs (xs @ [buf]) (owns (th(t := Idle)))"
    using heap_link [OF k(1) o(1) buf] unfolding owns_upd by simp
  moreover have "frame_ok ?q ((th(t := Idle)) u)" for u
  proof (rule frames_other [OF k(3)])
    fix u b assume "held_by (th u) = Some b"
    with o(6) have "b \<notin> set qs" by blast
    then have "qs \<noteq> [] \<Longrightarrow> b \<noteq> last qs" using last_in_set [of qs] by blast
    then show "mq_data ?q b = mq_data q b \<and> mq_next ?q b = mq_next q b" by simp
  qed simp_all
  ultimately obtain u q' where c: "mq_count ?q = (Finish RT_EOK u None, q')"
    "mq_ok q' (wake_opt u (th(t := Idle))) (qs @ [a]) fs (xs @ [buf])"
    using mq_count_ok [of ?q "qs @ [a]" fs "xs @ [buf]" "th(t := Idle)" "length qs"] k(2) o(7,8) by auto
  have "mq_link a q = Inr (mq_count ?q)"
  proof (cases "qs = []")
    case True
    then have e: "mq_tail q = None" "mq_head q = None" using h(1,3) by simp_all
    have "?q = q\<lparr>mq_tail := Some a, mq_head := Some a\<rparr>" using True by simp
    with e show ?thesis by (simp add: mq_link_def Let_def)
  next
    case False
    then obtain b where tail: "mq_tail q = Some (last qs)" "mq_head q = Some b" using h(1,3) by (cases qs) auto
    obtain d where "mq_data q (last qs) = Some d" using h(5) [of "last qs"] False by auto
    with tail False show ?thesis by (cases q) (simp add: mq_link_def store_next_def Let_def)
  qed
  with c show ?thesis by simp
qed

lemma mq_link_front_ok:
  assumes ok: "mq_ok q th qs fs xs" and t: "th t = Ready (Mq_link_front a buf) err"
  shows "\<exists>u q'. mq_link_front a q = Inr (Finish RT_EOK u None, q') \<and>
    mq_ok q' (wake_opt u (th(t := Idle))) (a # qs) fs (buf # xs)"
proof -
  note k = mq_okD [OF ok]
  note o = mq_holder [OF ok t msg_of.simps(2)]
  have buf: "holds q a buf" using k(3) [of t] t by simp
  let ?q = "q\<lparr>mq_next := (mq_next q)(a := mq_head q), mq_head := Some a,
    mq_tail := (if mq_tail q = None then Some a else mq_tail q)\<rparr>"
  have "mq_heap (?q\<lparr>mq_entry := mq_entry ?q + 1\<rparr>) (a # qs) fs (buf # xs) (owns (th(t := Idle)))"
    using heap_link_front [OF k(1) o(1) buf] unfolding owns_upd by simp
  moreover have "frame_ok ?q ((th(t := Idle)) u)" for u
    by (rule frames_other [OF k(3)]) (use o(5) in auto)
  ultimately obtain u q' where c: "mq_count ?q = (Finish RT_EOK u None, q')"
    "mq_ok q' (wake_opt u (th(t := Idle))) (a # qs) fs (buf # xs)"
    using mq_count_ok [of ?q "a # qs" fs "buf # xs" "th(t := Idle)" "length qs"] k(2) o(7,8) by auto
  obtain d where "mq_data q a = Some d" using o(4) by blast
  then have "mq_link_front a q = Inr (mq_count ?q)"
    by (cases "mq_tail q") (simp add: mq_link_front_def store_next_def Let_def,
        cases q, simp add: mq_link_front_def store_next_def Let_def)
  with c show ?thesis by simp
qed

text \<open>Receiving: the first message leaves the queue and is given back later.\<close>

lemma mq_recv_section_ok:
  assumes ok: "mq_ok q th qs fs xs" and r: "runs th t c woken" "is_mq_recv c"
  shows "\<exists>out q' qs'. mq_recv_section prio t sz timeout q = Inr (out, q') \<and>
    mq_ok q' (after t out th) qs' fs (mq_texts (Mq_recv sz tm) out xs) \<and>
    (if xs = [] then \<not> succeeds out \<and> (\<forall>c. out \<noteq> Proceed c)
     else (\<exists>a bytes. out = Proceed (Mq_give a bytes) \<and> take (length (hd xs)) bytes = take sz (hd xs)))"
proof -
  note k = mq_okD [OF ok]
  note h = mq_heapD [OF k(1)]
  have own: "\<not> is_mq_send c" "msg_of c = None" using r(2) by (cases c; simp)+
  show ?thesis
  proof (cases qs)
    case Nil
    then have e: "mq_entry q = 0" "xs = []" using h(11,12) by simp_all
    have keep: "mq_heap q qs fs xs (owns (th(t := s)))" if "held_by s = None" for s
      unfolding owns_none [OF r(1) own(2) that] by (rule k(1))
    show ?thesis
    proof (cases "timeout = 0")
      case True
      have "mq_ok q (th(t := Idle)) qs fs xs"
        using keep [of Idle] k(2,3) side_other [OF k(5) r(1) own(1), of Idle] side_use [OF k(4) r(1), of Idle 0] Nil
        by (simp add: mq_ok_def)
      with True e show ?thesis by (auto simp: mq_recv_section_def)
    next
      case False
      let ?s = "Waiting (Mq_recv sz timeout)"
      obtain ts where ts: "ipc_list_suspend (mq_wait q) t (mq_flag q) prio = Inr ts"
        "mset ts = add_mset t (mset (mq_wait q))"
        using suspend_ok [OF k(2)] by blast
      have "side is_mq_recv (th(t := ?s)) ts 0" by (rule side_block [OF k(4) r(1) _ ts(2)]) simp
      moreover have "frame_ok (q\<lparr>mq_wait := ts\<rparr>) ((th(t := ?s)) u)" for u
        by (intro frames_other [OF k(3)]) auto
      ultimately have "mq_ok (q\<lparr>mq_wait := ts\<rparr>) (th(t := ?s)) qs fs xs"
        using keep [of ?s] k(2) side_other [OF k(5) r(1) own(1), of ?s] Nil by (simp add: mq_ok_def)
      with False e ts(1) show ?thesis by (auto simp: mq_recv_section_def)
    qed
  next
    case (Cons a qs')
    obtain x xs' where xs: "xs = x # xs'" using h(12) Cons by (cases xs) auto
    have x: "holds q a x" using h(12) Cons xs by simp
    obtain d where d: "mq_data q a = Some d" "length d = mq_msg_size q" using h(5) [of a] Cons by auto
    have tx: "take (length x) d = x" using x d(1) by (simp add: holds_def)
    have idle: "owns th t = None" using r(1) own(2) by (auto simp: runs_def split: option.splits)
    let ?q = "q\<lparr>mq_head := mq_next q a, mq_tail := (if mq_tail q = Some a then None else mq_tail q),
      mq_entry := mq_entry q - 1\<rparr>"
    define bytes where "bytes = take (if sz > mq_msg_size q then mq_msg_size q else sz) d"
    have bytes: "take (length x) bytes = take sz x"
    proof -
      have "bytes = take sz d" using d(2) by (simp add: bytes_def)
      then have "take (length x) bytes = take sz (take (length x) d)" by (simp add: min.commute)
      with tx show ?thesis by simp
    qed
    let ?s = "Ready (Mq_give a bytes) RT_EOK"
    have "owns (th(t := ?s)) = (owns th)(t \<mapsto> a)" by (auto simp: fun_eq_iff)
    with heap_unlink [OF k(1) [unfolded Cons xs] idle]
    have "mq_heap ?q qs' fs xs' (owns (th(t := ?s)))" by simp
    moreover have "frame_ok ?q ((th(t := ?s)) u)" for u
      by (rule frames_other [OF k(3)]) auto
    moreover have "side is_mq_recv (th(t := ?s)) (mq_wait q) (length qs')"
      by (rule side_use [OF k(4) r(1)]) (use Cons in auto)
    moreover have "side is_mq_send (th(t := ?s)) (mq_senders q) (length fs)"
      by (rule side_other [OF k(5) r(1) own(1)]) auto
    ultimately have "mq_ok ?q (th(t := ?s)) qs' fs xs'" using k(2) by (simp add: mq_ok_def)
    moreover have "mq_recv_section prio t sz timeout q = Inr (Proceed (Mq_give a bytes), ?q)"
      using h(1,11) Cons d by (simp add: mq_recv_section_def load_next_def copy_out_def bytes_def Let_def)
    ultimately show ?thesis using xs bytes by auto
  qed
qed

lemma mq_give_ok:
  assumes ok: "mq_ok q th qs fs xs" and t: "th t = Ready (Mq_give a bytes) err"
  shows "\<exists>u q'. mq_give a bytes q = Inr (Finish RT_EOK u (Some bytes), q') \<and>
    mq_ok q' (wake_opt u (th(t := Idle))) qs (a # fs) xs"
proof -
  note k = mq_okD [OF ok]
  note o = mq_holder [OF ok t msg_of.simps(3)]
  obtain u us where res: "ipc_list_resume (mq_senders q) = (u, us)" by (cases "ipc_list_resume (mq_senders q)")
  let ?q = "q\<lparr>mq_next := (mq_next q)(a := mq_free q), mq_free := Some a, mq_senders := us\<rparr>"
  note s = channel_resume [OF o(8,7) mq_kinds(2) res]
  have fr: "frame_ok ?q ((th(t := Idle)) u)" for u
    by (rule frames_other [OF k(3)]) (use o(5) in auto)
  note w = mq_wake_opt(1) [of _ "th(t := Idle)" u, OF fr] mq_wake_opt(2) [of _ "th(t := Idle)" u, OF fr]
  have "mq_heap ?q qs (a # fs) xs (owns (th(t := Idle)))"
    using heap_give [OF k(1) o(1)] unfolding owns_upd by simp
  then have "mq_ok ?q (wake_opt u (th(t := Idle))) qs (a # fs) xs"
    unfolding mq_ok_def w(1) using s k(2) w(2) by simp
  moreover have "mq_give a bytes q = Inr (Finish RT_EOK u (Some bytes), ?q)"
    using o(4) res by (auto simp: mq_give_def store_next_def)
  ultimately show ?thesis by blast
qed

text \<open>A suspended thread that comes back with an error leaves.\<close>

lemma mq_error_ok:
  assumes ok: "mq_ok q th qs fs xs" and t: "th t = Ready c err" "err \<noteq> RT_EOK" "msg_of c = None"
  shows "mq_ok q (th(t := Idle)) qs fs xs"
proof -
  note k = mq_okD [OF ok]
  have r: "runs th t c (Some err)" using t by (simp add: runs_def)
  show ?thesis
    unfolding mq_ok_def owns_none [OF r t(3) held_by.simps(2)]
    using k side_idle [OF k(4) r, of Idle] side_idle [OF k(5) r, of Idle] t(2) by simp
qed

lemma mq_timeout_ok:
  assumes ok: "mq_ok q th qs fs xs" and t: "th t = Waiting c"
  shows "mq_ok (q\<lparr>mq_wait := remove1 t (mq_wait q), mq_senders := remove1 t (mq_senders q)\<rparr>)
    (th(t := Ready c (- RT_ETIMEOUT))) qs fs xs"
proof -
  note k = mq_okD [OF ok]
  have c: "msg_of c = None" "frame_ok q (Ready c (- RT_ETIMEOUT))"
    using k(3) [of t] t by (cases c; simp)+
  have own: "owns (th(t := Ready c (- RT_ETIMEOUT))) = owns th" using t c(1) by (auto simp: fun_eq_iff)
  have s: "side P (th(t := Ready c (- RT_ETIMEOUT))) (remove1 t ts) n" if "side P th ts n" for P ts n
    by (rule side_timeout [OF that t]) simp
  have "frame_ok (q\<lparr>mq_wait := remove1 t (mq_wait q), mq_senders := remove1 t (mq_senders q)\<rparr>)
      ((th(t := Ready c (- RT_ETIMEOUT))) u)" for u
    by (rule frames_other [OF k(3)]) (use frame_keep [OF c(2)] in auto)
  then show ?thesis unfolding mq_ok_def own using k s by simp
qed

lemma mq_reset_ok:
  assumes ok: "mq_ok q th qs fs xs"
  shows "\<exists>q' th'. rt_mq_control q RT_IPC_CMD_RESET th = Inr (RT_EOK, q', th') \<and> mq_ok q' th' [] (rev qs @ fs) []"
proof -
  note k = mq_okD [OF ok]
  note h = mq_heapD [OF k(1)]
  let ?us = "mq_wait q @ mq_senders q"
  let ?q = "q\<lparr>mq_wait := [], mq_senders := []\<rparr>"
  have "mq_pool ?q qs fs (owns th)" "length qs \<le> mq_max_msgs q" using k(1) h(9) by (simp_all add: mq_heap_def)
  from release_msgs_ok [OF this] obtain p nx where r:
    "release_msgs (mq_max_msgs q) ?q = Inr (?q\<lparr>mq_head := None, mq_tail := None, mq_free := p, mq_next := nx\<rparr>)"
    "mq_pool (?q\<lparr>mq_head := None, mq_tail := None, mq_free := p, mq_next := nx\<rparr>) [] (rev qs @ fs) (owns th)"
    "\<forall>a\<in>ran (owns th). nx a = mq_next q a" by auto
  let ?r = "?q\<lparr>mq_head := None, mq_tail := None, mq_free := p, mq_next := nx, mq_entry := 0\<rparr>"
  have th': "mq_resume_both q th = wake_all (- RT_ERROR) ?us th"
    by (simp add: mq_resume_both_def resume_all_wake_all wake_all_def)
  have fr: "frame_ok ?r (th u)" for u
    by (rule frame_keep [OF k(3)]) (use r(3) in \<open>auto intro: ranI\<close>)
  have "owns (wake_all err us th) u = owns th u" for err us u
    using k(3) [of u] by (auto simp: wake_all_at split: thread_state.splits mq_call.splits)
  then have own: "owns (wake_all err us th) = owns th" for err us by blast
  have frw: "frame_ok ?r (wake_all (- RT_ERROR) ?us th u)" for u
    using fr [of u] by (auto simp: wake_all_at split: thread_state.splits mq_call.splits)
  have "mq_heap ?r [] (rev qs @ fs) [] (owns th)" using r(2) by (simp add: mq_heap_def mq_pool_def)
  then have "mq_ok ?r (mq_resume_both q th) [] (rev qs @ fs) []"
    unfolding th' mq_ok_def own
    using k(2) frw side_reset [OF k(4), of ?us] side_reset [OF k(5), of ?us] by simp
  then show ?thesis using r(1) by (simp add: rt_mq_control_def)
qed

subsection \<open>Every step keeps the queue\<close>

text \<open>A call that a thread may be in: with a buffer that is not empty, or with a place for the message.\<close>

fun proper :: "mq_call \<Rightarrow> bool" where
  "proper (Mq_send buffer timeout) \<longleftrightarrow> buffer \<noteq> []"
| "proper (Mq_urgent buffer) \<longleftrightarrow> buffer \<noteq> []"
| "proper (Mq_recv sz timeout) \<longleftrightarrow> sz \<noteq> 0"
| "proper c \<longleftrightarrow> True"

definition mq_runs :: "mq_call threads \<Rightarrow> nat \<Rightarrow> mq_call \<Rightarrow> (int \<times> int) option \<Rightarrow> bool" where
  "mq_runs th t c woken \<longleftrightarrow> runs th t c (map_option fst woken) \<and> (woken = None \<longrightarrow> msg_of c = None \<and> proper c)"

text \<open>What a section promises: a send that finds a free message and a receive that finds a queued one go on to their second
  section, which succeeds; a message is received from its first byte on.\<close>

fun mq_result :: "mq_call \<Rightarrow> rt_messagequeue \<Rightarrow> nat list list \<Rightarrow> bool \<Rightarrow> mq_outcome \<Rightarrow> bool" where
  "mq_result (Mq_send buf timeout) q xs go out \<longleftrightarrow>
     (\<exists>a. out = Proceed (Mq_link a buf)) = (go \<and> length buf \<le> mq_msg_size q \<and> mq_free q \<noteq> None) \<and> \<not> succeeds out"
| "mq_result (Mq_urgent buf) q xs go out \<longleftrightarrow>
     (\<exists>a. out = Proceed (Mq_link_front a buf)) = (length buf \<le> mq_msg_size q \<and> mq_free q \<noteq> None) \<and> \<not> succeeds out"
| "mq_result (Mq_recv sz timeout) q xs go out \<longleftrightarrow>
     (if go \<and> xs \<noteq> [] then \<exists>a bytes. out = Proceed (Mq_give a bytes) \<and> take (length (hd xs)) bytes = take sz (hd xs)
      else (\<forall>c. out \<noteq> Proceed c)) \<and> \<not> succeeds out"
| "mq_result (Mq_give a bytes) q xs go out \<longleftrightarrow> (\<exists>u. out = Finish RT_EOK u (Some bytes))"
| "mq_result c q xs go out \<longleftrightarrow> (\<exists>u. out = Finish RT_EOK u None)"

lemma mq_exec_called:
  assumes ok: "mq_ok q th qs fs xs" and r: "runs th t c None" "msg_of c = None" "proper c"
  shows "\<exists>out q' qs' fs'. mq_exec None prio t c q = Inr (out, q') \<and>
    mq_ok q' (after t out th) qs' fs' (mq_texts c out xs) \<and> mq_result c q xs True out"
proof (cases c)
  case (Mq_send buf timeout)
  show ?thesis
  proof (cases "length buf \<le> mq_msg_size q")
    case True
    obtain out q' qs' fs' where s: "mq_send_section prio t buf timeout q = Inr (out, q')"
      "mq_ok q' (after t out th) qs' fs' xs"
      "if mq_free q = None then \<not> succeeds out \<and> (\<forall>c. out \<noteq> Proceed c) else \<exists>a. out = Proceed (Mq_link a buf)"
      using mq_send_section_ok [OF ok r(1) _ True, of prio timeout] Mq_send by auto
    have "mq_texts c out xs = xs" using Mq_send by (cases out) simp_all
    with s True Mq_send r(3) show ?thesis by (auto simp: rt_mq_send_wait_def split: if_splits)
  next
    case False
    note k = mq_okD [OF ok]
    have "th t = Idle" using r(1) by (simp add: runs_def)
    then have "th(t := Idle) = th" by (simp add: fun_upd_idem)
    with False Mq_send r(3) ok show ?thesis by (auto simp: rt_mq_send_wait_def)
  qed
next
  case (Mq_urgent buf)
  obtain out q' fs' where s: "rt_mq_urgent buf q = Inr (out, q')" "mq_ok q' (after t out th) qs fs' xs"
    "if length buf \<le> mq_msg_size q \<and> mq_free q \<noteq> None then \<exists>a. out = Proceed (Mq_link_front a buf)
     else \<not> succeeds out \<and> (\<forall>c. out \<noteq> Proceed c)"
    using mq_urgent_ok [OF ok, of t buf None] r Mq_urgent by auto
  have "mq_texts c out xs = xs" using Mq_urgent by (cases out) simp_all
  with s Mq_urgent show ?thesis by (auto split: if_splits)
next
  case (Mq_recv sz timeout)
  obtain out q' qs' where s: "mq_recv_section prio t sz timeout q = Inr (out, q')"
    "mq_ok q' (after t out th) qs' fs (mq_texts (Mq_recv sz timeout) out xs)"
    "if xs = [] then \<not> succeeds out \<and> (\<forall>c. out \<noteq> Proceed c)
     else \<exists>a bytes. out = Proceed (Mq_give a bytes) \<and> take (length (hd xs)) bytes = take sz (hd xs)"
    using mq_recv_section_ok [OF ok r(1), of prio sz timeout timeout] Mq_recv by auto
  with Mq_recv r(3) show ?thesis by (auto simp: rt_mq_recv_def split: if_splits)
qed (use r(2) in simp_all)

lemma mq_exec_resumed:
  assumes ok: "mq_ok q th qs fs xs" and t: "th t = Ready c RT_EOK"
  shows "\<exists>out q' qs' fs'. mq_exec (Some (RT_EOK, el)) prio t c q = Inr (out, q') \<and>
    mq_ok q' (after t out th) qs' fs' (mq_texts c out xs) \<and> mq_result c q xs True out"
proof (cases c)
  case (Mq_send buf timeout)
  have len: "length buf \<le> mq_msg_size q" using mq_okD(3) [OF ok, of t] t Mq_send by simp
  have r: "runs th t c (Some RT_EOK)" "is_mq_send c" using t Mq_send by (simp_all add: runs_def)
  obtain out q' qs' fs' where s: "mq_send_section prio t buf (time_left timeout el) q = Inr (out, q')"
    "mq_ok q' (after t out th) qs' fs' xs"
    "if mq_free q = None then \<not> succeeds out \<and> (\<forall>c. out \<noteq> Proceed c) else \<exists>a. out = Proceed (Mq_link a buf)"
    using mq_send_section_ok [OF ok r len, of prio "time_left timeout el"] by auto
  have "mq_texts c out xs = xs" using Mq_send by (cases out) simp_all
  with s len Mq_send show ?thesis by (auto simp: rt_mq_send_wait_def split: if_splits)
next
  case (Mq_urgent buf)
  then show ?thesis using mq_okD(3) [OF ok, of t] t by simp
next
  case (Mq_recv sz timeout)
  have r: "runs th t c (Some RT_EOK)" "is_mq_recv c" using t Mq_recv by (simp_all add: runs_def)
  obtain out q' qs' where s: "mq_recv_section prio t sz (time_left timeout el) q = Inr (out, q')"
    "mq_ok q' (after t out th) qs' fs (mq_texts (Mq_recv sz timeout) out xs)"
    "if xs = [] then \<not> succeeds out \<and> (\<forall>c. out \<noteq> Proceed c)
     else \<exists>a bytes. out = Proceed (Mq_give a bytes) \<and> take (length (hd xs)) bytes = take sz (hd xs)"
    using mq_recv_section_ok [OF ok r, of prio sz "time_left timeout el" timeout] by auto
  with Mq_recv show ?thesis by (auto simp: rt_mq_recv_def split: if_splits)
next
  case (Mq_link a buf)
  obtain u q' where "mq_link a q = Inr (Finish RT_EOK u None, q')"
    "mq_ok q' (wake_opt u (th(t := Idle))) (qs @ [a]) fs (xs @ [buf])"
    using mq_link_ok [OF ok t [unfolded Mq_link]] by blast
  with Mq_link show ?thesis
    by (intro exI [of _ "Finish RT_EOK u None"] exI [of _ q'] exI [of _ "qs @ [a]"] exI [of _ fs])
       (simp add: after_finish)
next
  case (Mq_link_front a buf)
  obtain u q' where "mq_link_front a q = Inr (Finish RT_EOK u None, q')"
    "mq_ok q' (wake_opt u (th(t := Idle))) (a # qs) fs (buf # xs)"
    using mq_link_front_ok [OF ok t [unfolded Mq_link_front]] by blast
  with Mq_link_front show ?thesis
    by (intro exI [of _ "Finish RT_EOK u None"] exI [of _ q'] exI [of _ "a # qs"] exI [of _ fs])
       (simp add: after_finish)
next
  case (Mq_give a bytes)
  obtain u q' where "mq_give a bytes q = Inr (Finish RT_EOK u (Some bytes), q')"
    "mq_ok q' (wake_opt u (th(t := Idle))) qs (a # fs) xs"
    using mq_give_ok [OF ok t [unfolded Mq_give]] by blast
  with Mq_give show ?thesis
    by (intro exI [of _ "Finish RT_EOK u (Some bytes)"] exI [of _ q'] exI [of _ qs] exI [of _ "a # fs"])
       (simp add: after_finish)
qed

lemma mq_exec_failed:
  assumes ok: "mq_ok q th qs fs xs" and t: "th t = Ready c err" "err \<noteq> RT_EOK"
  shows "mq_exec (Some (err, el)) prio t c q = Inr (Finish err None None, q)" "mq_ok q (th(t := Idle)) qs fs xs"
    "mq_texts c (Finish err None None) xs = xs" "mq_result c q xs False (Finish err None None)"
proof -
  have "frame_ok q (Ready c err)" using mq_okD(3) [OF ok, of t] t(1) by simp
  then have c: "(\<exists>buf tm. c = Mq_send buf tm) \<or> (\<exists>sz tm. c = Mq_recv sz tm)" using t(2) by (cases c) auto
  then show "mq_exec (Some (err, el)) prio t c q = Inr (Finish err None None, q)"
    "mq_texts c (Finish err None None) xs = xs" "mq_result c q xs False (Finish err None None)"
    using t(2) by (auto simp: rt_mq_send_wait_def rt_mq_recv_def)
  show "mq_ok q (th(t := Idle)) qs fs xs" using mq_error_ok [OF ok t] c by auto
qed

lemma mq_exec_ok:
  assumes ok: "mq_ok q th qs fs xs" and r: "mq_runs th t c woken"
  shows "\<exists>out q' qs' fs'. mq_exec woken prio t c q = Inr (out, q') \<and>
    mq_ok q' (after t out th) qs' fs' (mq_texts c out xs) \<and> mq_result c q xs (goes_on woken) out"
proof (rule goes_on_cases [of woken])
  assume "goes_on woken" "woken = None"
  with mq_exec_called [OF ok, of t c prio] r show ?thesis by (auto simp: mq_runs_def)
next
  fix el assume "goes_on woken" "woken = Some (RT_EOK, el)"
  moreover from this have "th t = Ready c RT_EOK" using r by (simp add: mq_runs_def runs_def)
  ultimately show ?thesis using mq_exec_resumed [OF ok, of t c el prio] by auto
next
  fix err el assume w: "\<not> goes_on woken" "woken = Some (err, el)" "err \<noteq> RT_EOK"
  then have "th t = Ready c err" using r by (simp add: mq_runs_def runs_def)
  note f = mq_exec_failed [OF ok this w(3)]
  from f w show ?thesis
    by (intro exI [of _ "Finish err None None"] exI [of _ q] exI [of _ qs] exI [of _ fs]) simp
qed

lemma mq_exec_improper: "mq_exec None prio t c q = Inr r \<Longrightarrow> proper c"
  by (cases c) (auto simp: rt_mq_send_wait_def rt_mq_urgent_def rt_mq_recv_def split: if_splits)

lemma mq_reach_ok: "mq_reach prio q th xs \<Longrightarrow> \<exists>qs fs. mq_ok q th qs fs xs"
proof (induction rule: mq_reach.induct)
  case (init pool msg_size pool_size flag q)
  obtain fs where "mq_heap q [] fs [] (\<lambda>t. None)" "valid_flag (mq_flag q)" "mq_wait q = []" "mq_senders q = []"
    using mq_init_heap [OF init] by blast
  then have "mq_ok q (\<lambda>t. Idle) [] fs []" by (simp add: mq_ok_def side_initial)
  then show ?case by blast
next
  case (call q th xs t c out q')
  then obtain qs fs where "mq_ok q th qs fs xs" by blast
  moreover have "mq_runs th t c None"
    using call(2,3) mq_exec_improper [OF call(4)] by (simp add: mq_runs_def runs_def)
  ultimately show ?case using mq_exec_ok [of q th qs fs xs t c None prio] call(4) by auto
next
  case (resume q th xs t c err elapsed out q')
  then obtain qs fs where "mq_ok q th qs fs xs" by blast
  moreover have "mq_runs th t c (Some (err, elapsed))" using resume(2) by (simp add: mq_runs_def runs_def)
  ultimately show ?case using mq_exec_ok [of q th qs fs xs t c "Some (err, elapsed)" prio] resume(3) by auto
next
  case (timeout q th xs t c)
  then show ?case using mq_timeout_ok by blast
next
  case (reset q th xs q' th')
  then obtain qs fs where "mq_ok q th qs fs xs" by blast
  from mq_reset_ok [OF this] reset(2) show ?case by auto
qed

subsection \<open>What the message queue promises\<close>

text \<open>C5: A message queue delivers: what is linked last is received last, an urgent message first; a receiver gets the bytes of
  the first message, as many as it has room for; a message once taken from the free list is always linked,
  and one once taken from the queue always delivered and given back.  No call of a running thread faults.
\<close>

theorem mq_delivers:
  assumes "mq_reach prio q th xs"
  shows "mq_entry q = length xs \<and> length xs \<le> mq_max_msgs q \<and>
    (\<forall>t c woken. mq_runs th t c woken \<longrightarrow>
       (\<exists>out q'. mq_exec woken prio t c q = Inr (out, q') \<and> mq_result c q xs (goes_on woken) out))"
proof -
  obtain qs fs where ok: "mq_ok q th qs fs xs" using mq_reach_ok [OF assms] by blast
  note h = mq_heapD [OF mq_okD(1) [OF ok]]
  have "length xs = length qs" using h(12) by (simp add: list_all2_lengthD)
  with h(9,11) mq_exec_ok [OF ok] show ?thesis by fastforce
qed

text \<open>C29: No wake-up is lost: while a receiver waits and there is a message, or a sender waits and there is a free one, a resumed
  thread of the same kind is about to run.  And no message is lost: if no thread is between its sections, the
  free and the queued messages are all of them.
\<close>

theorem mq_no_lost_wakeup:
  assumes "mq_reach prio q th xs"
  shows "(mq_wait q \<noteq> [] \<and> 0 < mq_entry q \<longrightarrow> (\<exists>t sz tm. th t = Ready (Mq_recv sz tm) RT_EOK)) \<and>
    (mq_senders q \<noteq> [] \<and> mq_free q \<noteq> None \<longrightarrow> (\<exists>t buf tm. th t = Ready (Mq_send buf tm) RT_EOK)) \<and>
    ((\<forall>t c err. th t = Ready c err \<longrightarrow> msg_of c = None) \<longrightarrow>
       (\<exists>fs. msg_chain (mq_next q) (mq_free q) fs \<and> distinct fs \<and> length fs + mq_entry q = mq_max_msgs q))"
proof -
  obtain qs fs where ok: "mq_ok q th qs fs xs" using mq_reach_ok [OF assms] by blast
  note k = mq_okD [OF ok]
  note h = mq_heapD [OF k(1)]
  have 1: "\<exists>t sz tm. th t = Ready (Mq_recv sz tm) RT_EOK" if "mq_wait q \<noteq> []" "0 < mq_entry q"
  proof -
    have "0 < length qs" using that(2) h(11) by simp
    from side_resumed [OF k(4) that(1) this] obtain t c where "th t = Ready c RT_EOK" "is_mq_recv c" by blast
    then show ?thesis by (cases c) auto
  qed
  have 2: "\<exists>t buf tm. th t = Ready (Mq_send buf tm) RT_EOK" if "mq_senders q \<noteq> []" "mq_free q \<noteq> None"
  proof -
    have "0 < length fs" using that(2) h(2) by (cases fs) auto
    from side_resumed [OF k(5) that(1) this] obtain t c where "th t = Ready c RT_EOK" "is_mq_send c" by blast
    then show ?thesis by (cases c) auto
  qed
  have 3: "\<exists>fs. msg_chain (mq_next q) (mq_free q) fs \<and> distinct fs \<and> length fs + mq_entry q = mq_max_msgs q"
    if "\<forall>t c err. th t = Ready c err \<longrightarrow> msg_of c = None"
  proof -
    have "held_by (th t) = None" for t using that by (cases "th t") auto
    then have "dom (owns th) = {}" by (auto simp: dom_def)
    with h(2,4,9,11) show ?thesis by (intro exI [of _ fs]) auto
  qed
  show ?thesis using 1 2 3 by blast
qed

subsection \<open>A message size that does not fit\<close>

text \<open>\<open>rt_mq_init\<close> stores the aligned message size into 16 bits without a check: with 65533 bytes it becomes 0, and every
  send fails.\<close>

lemma mq_size_truncated:
  assumes "rt_mq_init pool 65533 pool_size RT_IPC_FLAG_FIFO = Inr (RT_EOK, q)" and "pool_size \<le> length pool" and "buffer \<noteq> []"
  shows "rt_mq_send prio t buffer q = Inr (Finish (- RT_ERROR) None None, q)"
proof -
  have "mq_msg_size q = 0"
  proof -
    let ?n = "u16 (pool_size div SIZEOF_MESSAGE)"
    let ?q = "fresh_mqueue RT_IPC_FLAG_FIFO 0 ?n"
    have size: "u16 (size_up 65533) = 0" by (simp add: u16_def size_up_eq)
    have "?n * SIZEOF_MESSAGE \<le> length pool"
      using assms(2) by (simp add: u16_def) (metis div_times_less_eq_dividend mod_less_eq_dividend mult_le_mono1 order_trans)
    then obtain p nx dt where "link_all pool ?n ?q = Inr (?q\<lparr>mq_free := p, mq_next := nx, mq_data := dt\<rparr>)"
      using link_all_ok [of ?n ?q pool] by (auto simp: fresh_mqueue_def)
    with assms(1) size have "q = ?q\<lparr>mq_free := p, mq_next := nx, mq_data := dt\<rparr>"
      by (simp add: rt_mq_init_def Let_def valid_flag_def)
    then show ?thesis by (simp add: fresh_mqueue_def)
  qed
  with assms(3) show ?thesis by (simp add: rt_mq_send_def rt_mq_send_wait_def)
qed

subsection \<open>Instances\<close>

text \<open>A queue of two messages of 8 bytes.\<close>

definition mq_demo :: rt_messagequeue where
  "mq_demo = \<lparr>mq_flag = RT_IPC_FLAG_FIFO, mq_msg_size = 8, mq_max_msgs = 2, mq_entry = 0, mq_head = None, mq_tail = None,
     mq_free = Some 12, mq_wait = [], mq_senders = [], mq_next = (\<lambda>_. None)(0 := None, 12 := Some 0),
     mq_data = [0 \<mapsto> replicate 8 0, 12 \<mapsto> replicate 8 0]\<rparr>"

lemma mq_demo_reach: "mq_reach prio mq_demo (\<lambda>t. Idle) []"
proof -
  have two: "link_all pool 2 q = bindR (link_free pool 0 q) (link_free pool 1)" for pool q
    by (simp add: numeral_2_eq_2)
  have "rt_mq_init (replicate 24 0) 8 24 RT_IPC_FLAG_FIFO = Inr (RT_EOK, mq_demo)"
    by (simp add: rt_mq_init_def valid_flag_def u16_def size_up_eq SIZEOF_MESSAGE_def fresh_mqueue_def mq_demo_def
        link_free_def two)
  then show ?thesis by (rule mq_reach.init) simp
qed

lemmas mq_eval = rt_mq_send_wait_def mq_send_section_def rt_mq_recv_def mq_recv_section_def mq_link_def mq_count_def
  mq_resume_receiver_def ipc_list_resume_def ipc_list_suspend_def load_next_def store_next_def copy_in_def
  RT_MQ_ENTRY_MAX_def RT_IPC_FLAG_FIFO_def mq_demo_def Let_def

text \<open>Two receivers wait; a message is sent and linked, and the first of them is resumed.\<close>

lemma mq_demo_waiting:
  "\<exists>q th. mq_reach prio q th [[1, 2]] \<and> mq_wait q = [2] \<and> th 1 = Ready (Mq_recv 8 (- 1)) RT_EOK"
proof -
  let ?w = "\<lambda>us. mq_demo\<lparr>mq_wait := us\<rparr>"
  let ?c = "Mq_recv 8 (- 1)"
  have "mq_exec None prio 1 ?c mq_demo = Inr (Suspend ?c, ?w [1])" by (simp add: mq_eval)
  from mq_reach.call [OF mq_demo_reach _ _ this]
  have 1: "mq_reach prio (?w [1]) ((\<lambda>t. Idle)(1 := Waiting ?c)) []" by simp
  have "mq_exec None prio 2 ?c (?w [1]) = Inr (Suspend ?c, ?w [1, 2])" by (simp add: mq_eval)
  from mq_reach.call [OF 1 _ _ this]
  have 2: "mq_reach prio (?w [1, 2]) ((\<lambda>t. Idle)(1 := Waiting ?c, 2 := Waiting ?c)) []" by simp
  let ?q = "(?w [1, 2])\<lparr>mq_free := Some 0, mq_next := (\<lambda>_. None)(0 := None, 12 := None),
    mq_data := [0 \<mapsto> replicate 8 0, 12 \<mapsto> [1, 2] @ replicate 6 0]\<rparr>"
  have "mq_exec None prio 3 (Mq_send [1, 2] 0) (?w [1, 2]) = Inr (Proceed (Mq_link 12 [1, 2]), ?q)"
    by (simp add: mq_eval)
  from mq_reach.call [OF 2 _ _ this]
  have 3: "mq_reach prio ?q ((\<lambda>t. Idle)(1 := Waiting ?c, 2 := Waiting ?c, 3 := Ready (Mq_link 12 [1, 2]) RT_EOK)) []"
    by simp
  have "mq_exec (Some (RT_EOK, 0)) prio 3 (Mq_link 12 [1, 2]) ?q = Inr (Finish RT_EOK (Some 1) None,
      ?q\<lparr>mq_tail := Some 12, mq_head := Some 12, mq_entry := 1, mq_wait := [2]\<rparr>)"
    by (simp add: mq_eval)
  from mq_reach.resume [OF 3 _ this] show ?thesis by (intro exI conjI) (simp, simp, simp add: wake_thread_def)
qed

theorem mq_delivers_witness:
  "\<exists>q th. mq_reach (\<lambda>t. 0) q th [[1, 2]] \<and>
     (\<exists>a bytes q'. mq_exec (Some (RT_EOK, 0)) (\<lambda>t. 0) 1 (Mq_recv 8 (- 1)) q = Inr (Proceed (Mq_give a bytes), q') \<and>
        take 2 bytes = [1, 2])"
proof -
  obtain q th where q: "mq_reach (\<lambda>t. 0) q th [[1, 2]]" "th 1 = Ready (Mq_recv 8 (- 1)) RT_EOK"
    using mq_demo_waiting by blast
  have "mq_runs th 1 (Mq_recv 8 (- 1)) (Some (RT_EOK, 0))" using q(2) by (simp add: mq_runs_def runs_def)
  with mq_delivers [OF q(1)] obtain out q' where
    "mq_exec (Some (RT_EOK, 0)) (\<lambda>t. 0) 1 (Mq_recv 8 (- 1)) q = Inr (out, q')"
    "mq_result (Mq_recv 8 (- 1)) q [[1, 2]] (goes_on (Some (RT_EOK, 0))) out" by blast
  moreover from this(2) obtain a bytes where "out = Proceed (Mq_give a bytes)" "take 2 bytes = [1, 2]"
    by (auto simp: goes_on_def numeral_2_eq_2)
  ultimately show ?thesis using q(1) by blast
qed

theorem mq_no_lost_wakeup_witness:
  "\<exists>q th. mq_reach (\<lambda>t. 0) q th [[1, 2]] \<and> mq_wait q = [2] \<and> (\<exists>t sz tm. th t = Ready (Mq_recv sz tm) RT_EOK)"
proof -
  obtain q th where q: "mq_reach (\<lambda>t. 0) q th [[1, 2]]" "mq_wait q = [2]" using mq_demo_waiting by blast
  from mq_reach_ok [OF q(1)] obtain qs fs where ok: "mq_ok q th qs fs [[1, 2]]" by blast
  note h = mq_heapD [OF mq_okD(1) [OF ok]]
  have "0 < mq_entry q" using h(11,12) by (cases qs) auto
  with mq_no_lost_wakeup [OF q(1)] q(2) have "\<exists>t sz tm. th t = Ready (Mq_recv sz tm) RT_EOK" by simp
  with q(1,2) show ?thesis by blast
qed

end
