(* ===== verification/Nmea_Sample.thy ===== *)
theory Nmea_Sample
  imports Nmea_Library Nmea_Generator Rt_Mqueue
begin

text \<open>
  The sample application of the package (\<open>examples/nmea_sample.c\<close>): the serial driver calls \<open>uart_input\<close> for
  each block of bytes that came in, \<open>uart_input\<close> sends a message, and a thread receives the messages, reads the
  blocks and feeds them to the parser of the library.

  The device is an argument: \<open>read dev pos size\<close> is \<open>rt_device_read\<close> on a state of the device.  Log output is the list
  of the positions that the thread prints.
\<close>

subsection \<open>The messages\<close>

record rx_msg =
  rx_dev :: nat
  rx_size :: nat

text \<open>A word of 32 bits in memory, and the struct of two of them.\<close>

definition word_bytes :: "nat \<Rightarrow> nat list" where
  "word_bytes n = [n mod 256, n div 256 mod 256, n div 65536 mod 256, n div 16777216 mod 256]"

fun bytes_word :: "nat list \<Rightarrow> nat" where
  "bytes_word (a # b # c # d # _) = a + 256 * b + 65536 * c + 16777216 * d"
| "bytes_word _ = 0"

definition msg_bytes :: "rx_msg \<Rightarrow> nat list" where
  "msg_bytes m = word_bytes (rx_dev m) @ word_bytes (rx_size m)"

definition bytes_msg :: "nat list \<Rightarrow> rx_msg" where
  "bytes_msg bs = \<lparr>rx_dev = bytes_word bs, rx_size = bytes_word (drop 4 bs)\<rparr>"

definition SIZEOF_RX_MSG :: nat where "SIZEOF_RX_MSG = 8"
definition RT_SERIAL_RB_BUFSZ :: nat where "RT_SERIAL_RB_BUFSZ = 64"

lemma word_roundtrip: "n < 2 ^ 32 \<Longrightarrow> bytes_word (word_bytes n @ rest) = n"
proof -
  assume "n < 2 ^ 32"
  then have n: "n div 16777216 mod 256 = n div 16777216" by simp
  have "n mod 256 + 256 * (n div 256 mod 256) = n mod 65536"
    using mod_mult2_eq [of n 256 256] by simp
  moreover have "n mod 65536 + 65536 * (n div 65536 mod 256) = n mod 16777216"
    using mod_mult2_eq [of n 65536 256] by simp
  ultimately show ?thesis using n by (simp add: word_bytes_def)
qed

lemma msg_roundtrip: "rx_dev m < 2 ^ 32 \<Longrightarrow> rx_size m < 2 ^ 32 \<Longrightarrow> bytes_msg (msg_bytes m @ rest) = m"
  using word_roundtrip [of "rx_dev m" "word_bytes (rx_size m) @ rest"] word_roundtrip [of "rx_size m" rest]
  by (simp add: bytes_msg_def msg_bytes_def word_bytes_def)

subsection \<open>The callback and the thread\<close>

text \<open>\<open>uart_input\<close> runs in the interrupt handler \<open>t\<close>: it sends its message in both sections and prints a line when the
  queue is full.  The result is the code, whether it prints, and the thread that was resumed.\<close>

definition uart_input ::
    "(nat \<Rightarrow> nat) \<Rightarrow> nat \<Rightarrow> nat \<Rightarrow> nat \<Rightarrow> rt_messagequeue \<Rightarrow> (int \<times> bool \<times> nat option \<times> rt_messagequeue) result" where
  "uart_input prio t dev sz q =
     bindR (rt_mq_send prio t (msg_bytes \<lparr>rx_dev = dev, rx_size = sz\<rparr>) q)
       (\<lambda>(out, q1).
          bindR (case out of Proceed c \<Rightarrow> mq_exec (Some (RT_EOK, 0)) prio t c q1 | _ \<Rightarrow> Inr (out, q1))
            (\<lambda>(out2, q2).
               case out2 of
                 Finish err u x \<Rightarrow> Inr (err, err = - RT_EFULL, u, q2)
               | _ \<Rightarrow> Inl Bad_argument))"

text \<open>The body of the loop of \<open>nmea_thread_entry\<close>, for a message that \<open>rt_mq_recv\<close> gave.\<close>

definition thread_turn ::
    "(nat \<Rightarrow> nat \<Rightarrow> 'd \<Rightarrow> string \<times> 'd) \<Rightarrow> nmeaPROPERTY \<Rightarrow> (string \<Rightarrow> string) \<Rightarrow> nat list \<Rightarrow> 'd \<Rightarrow> pstate \<Rightarrow> nmea_info \<Rightarrow>
     ((real \<times> real) \<times> 'd \<times> pstate \<times> nmea_info) result option" where
  "thread_turn read pr stk bytes d s info =
     (case read (rx_dev (bytes_msg bytes)) (rx_size (bytes_msg bytes)) d of
        (rx_buffer, d') \<Rightarrow>
          if length rx_buffer > RT_SERIAL_RB_BUFSZ then Some (Inl Buffer_overflow)
          else
            (case lib_parse pr stk s rx_buffer info of
               None \<Rightarrow> None
             | Some (ev, Inl e) \<Rightarrow> Some (Inl e)
             | Some (ev, Inr (nread, info', s')) \<Rightarrow>
                 Some (Inr ((nmea_ndeg2degree (in_lat info'), nmea_ndeg2degree (in_lon info')), d', s', info'))))"

text \<open>The loop over the messages received so far.\<close>

fun nmea_thread ::
    "(nat \<Rightarrow> nat \<Rightarrow> 'd \<Rightarrow> string \<times> 'd) \<Rightarrow> nmeaPROPERTY \<Rightarrow> (string \<Rightarrow> string) \<Rightarrow> nat list list \<Rightarrow> 'd \<Rightarrow> pstate \<Rightarrow> nmea_info \<Rightarrow>
     ((real \<times> real) list \<times> 'd \<times> pstate \<times> nmea_info) result option" where
  "nmea_thread read pr stk [] d s info = Some (Inr ([], d, s, info))"
| "nmea_thread read pr stk (bytes # rest) d s info =
     (case thread_turn read pr stk bytes d s info of
        None \<Rightarrow> None
      | Some (Inl e) \<Rightarrow> Some (Inl e)
      | Some (Inr (pos, d1, s1, info1)) \<Rightarrow>
          (case nmea_thread read pr stk rest d1 s1 info1 of
             None \<Rightarrow> None
           | Some (Inl e) \<Rightarrow> Some (Inl e)
           | Some (Inr (ps, d2, s2, info2)) \<Rightarrow> Some (Inr (pos # ps, d2, s2, info2))))"

subsection \<open>The thread follows the stream\<close>

text \<open>\<open>fits sz pend text ns\<close>: cut into blocks of the sizes \<open>ns\<close>, the text never fills the parser's buffer of \<open>sz\<close> bytes.\<close>

fun fits :: "nat \<Rightarrow> string \<Rightarrow> string \<Rightarrow> nat list \<Rightarrow> bool" where
  "fits sz pend text [] \<longleftrightarrow> True"
| "fits sz pend text (n # ns) \<longleftrightarrow> length pend + n < sz \<and> n \<le> length text \<and> n \<le> RT_SERIAL_RB_BUFSZ \<and>
     fits sz (snd (split_stream (pend @ take n text))) (drop n text) ns"

text \<open>A device with a stream of bytes gives the next ones.\<close>

definition serial_stream :: "(nat \<Rightarrow> nat \<Rightarrow> 'd \<Rightarrow> string \<times> 'd) \<Rightarrow> nat \<Rightarrow> ('d \<Rightarrow> string) \<Rightarrow> bool" where
  "serial_stream read dev incoming \<longleftrightarrow>
     (\<forall>n d. fst (read dev n d) = take n (incoming d) \<and> incoming (snd (read dev n d)) = drop n (incoming d))"

definition messages :: "nat \<Rightarrow> nat list \<Rightarrow> nat list list" where
  "messages dev ns = map (\<lambda>n. msg_bytes \<lparr>rx_dev = dev, rx_size = n\<rparr>) ns"

lemma merge_append:
  "merge_packets (ps @ qs) info = bindR (merge_packets ps info) (merge_packets qs)"
  by (induction ps arbitrary: info) (auto simp: bindR_def split: sum.splits)

lemma thread_turn_ok:
  assumes dev: "serial_stream read dev incoming" "dev < 2 ^ 32" and r: "parser_rel s pend []"
    and n: "length pend + n < p_buff_size (fst s)" "n \<le> RT_SERIAL_RB_BUFSZ" "n \<le> length (incoming d)"
    and split: "split_stream (pend @ take n (incoming d)) = (fs, left)"
    and new: "frame_packets stk fs = Inr new" and merge: "merge_packets new info = Inr info'"
  shows "\<exists>d' s'. thread_turn read pr stk (msg_bytes \<lparr>rx_dev = dev, rx_size = n\<rparr>) d s info =
      Some (Inr ((nmea_ndeg2degree (in_lat info'), nmea_ndeg2degree (in_lon info')), d', s', info')) \<and>
    incoming d' = drop n (incoming d) \<and> parser_rel s' left [] \<and> p_buff_size (fst s') = p_buff_size (fst s)"
proof -
  let ?b = "take n (incoming d)"
  obtain d' where rd: "read dev n d = (?b, d')" "incoming d' = drop n (incoming d)"
    using dev(1) unfolding serial_stream_def by (metis prod.collapse)
  have len: "length ?b \<le> p_buff_size (fst s)" using n(1,3) by simp
  have keep: "keep_pending (p_buff_size (fst s)) pend ?b = pend" using n(1,3) by (simp add: keep_pending_def)
  have "merge_packets ([] @ new) info = Inr info'" using merge by simp
  from nmea_parse_rel [OF r len, unfolded keep, OF split new this] obtain s' where
    s': "nmea_parse stk s ?b info = Some (Inr (length new, info', s'))" "parser_rel s' left []"
      "p_buff_size (fst s') = p_buff_size (fst s)" by auto
  obtain ev where "lib_parse pr stk s ?b info = Some (ev, Inr (length new, info', s'))"
    using lib_parse_agrees [of pr stk s ?b info] s'(1) by (cases "lib_parse pr stk s ?b info") auto
  moreover have "n < 2 ^ 32" using n(2) by (simp add: RT_SERIAL_RB_BUFSZ_def)
  then have "bytes_msg (msg_bytes \<lparr>rx_dev = dev, rx_size = n\<rparr>) = \<lparr>rx_dev = dev, rx_size = n\<rparr>"
    using msg_roundtrip [of "\<lparr>rx_dev = dev, rx_size = n\<rparr>" "[]"] dev(2) by simp
  ultimately show ?thesis using rd s'(2,3) n(2) by (simp add: thread_turn_def)
qed

text \<open>What is left holds no complete frame.\<close>

lemma split_stream_rest: "split_stream a = (fs, left) \<Longrightarrow> split_stream left = ([], left)"
proof (induction a arbitrary: fs rule: split_stream.induct)
  case (1 a)
  obtain n crc where t: "nmea_find_tail a = (n, crc)" by (cases "nmea_find_tail a")
  show ?case
  proof (cases "n = 0")
    case True
    then have "split_stream a = ([], a)" using t by (simp add: split_stream.simps [of a])
    with 1(2) show ?thesis by simp
  next
    case False
    obtain gs l where "split_stream (drop n a) = (gs, l)" by (cases "split_stream (drop n a)")
    with 1(1) [OF t [symmetric] refl False, of gs] 1(2) t False show ?thesis
      by (auto simp: split_stream.simps [of a])
  qed
qed

lemma nmea_thread_ok:
  assumes dev: "serial_stream read dev incoming" "dev < 2 ^ 32"
  shows "parser_rel s pend [] \<Longrightarrow> split_stream pend = ([], pend) \<Longrightarrow>
    fits (p_buff_size (fst s)) pend (incoming d) ns \<Longrightarrow>
    split_stream (pend @ take (sum_list ns) (incoming d)) = (fs, left) \<Longrightarrow> frame_packets stk fs = Inr new \<Longrightarrow>
    merge_packets new info = Inr info' \<Longrightarrow>
    \<exists>ps d' s'. nmea_thread read pr stk (messages dev ns) d s info = Some (Inr (ps, d', s', info')) \<and>
      incoming d' = drop (sum_list ns) (incoming d) \<and> parser_rel s' left [] \<and> length ps = length ns \<and>
      (ns \<noteq> [] \<longrightarrow> last ps = (nmea_ndeg2degree (in_lat info'), nmea_ndeg2degree (in_lon info')))"
proof (induction ns arbitrary: s pend d fs left new info)
  case Nil
  then show ?case by (auto simp: messages_def)
next
  case (Cons n ns)
  let ?t = "incoming d"
  have n: "length pend + n < p_buff_size (fst s)" "n \<le> RT_SERIAL_RB_BUFSZ" "n \<le> length ?t"
    and fit: "fits (p_buff_size (fst s)) (snd (split_stream (pend @ take n ?t))) (drop n ?t) ns"
    using Cons.prems(3) by simp_all
  obtain f1 l1 where 1: "split_stream (pend @ take n ?t) = (f1, l1)" by (cases "split_stream (pend @ take n ?t)")
  obtain f2 l2 where 2: "split_stream (l1 @ take (sum_list ns) (drop n ?t)) = (f2, l2)"
    by (cases "split_stream (l1 @ take (sum_list ns) (drop n ?t))")
  have "take (sum_list (n # ns)) ?t = take n ?t @ take (sum_list ns) (drop n ?t)" by (simp add: take_add)
  then have fs: "fs = f1 @ f2" "left = l2"
    using Cons.prems(4) split_stream_append [OF 1, of "take (sum_list ns) (drop n ?t)"] 2 by simp_all
  obtain n1 n2 where new: "frame_packets stk f1 = Inr n1" "frame_packets stk f2 = Inr n2" "new = n1 @ n2"
    using Cons.prems(5) by (auto simp: fs frame_packets_append bindR_eq_Inr)
  obtain i1 where merge: "merge_packets n1 info = Inr i1" "merge_packets n2 i1 = Inr info'"
    using Cons.prems(6) by (auto simp: new merge_append bindR_eq_Inr)
  obtain d1 s1 where turn: "thread_turn read pr stk (msg_bytes \<lparr>rx_dev = dev, rx_size = n\<rparr>) d s info =
      Some (Inr ((nmea_ndeg2degree (in_lat i1), nmea_ndeg2degree (in_lon i1)), d1, s1, i1))"
    "incoming d1 = drop n ?t" "parser_rel s1 l1 []" "p_buff_size (fst s1) = p_buff_size (fst s)"
    using thread_turn_ok [OF dev Cons.prems(1) n 1 new(1) merge(1)] by blast
  have "fits (p_buff_size (fst s1)) l1 (incoming d1) ns" using fit 1 turn(2,4) by simp
  from Cons.IH [OF turn(3) split_stream_rest [OF 1] this _ new(2) merge(2)] 2 turn(2) fs(2)
  obtain ps d' s' where rest: "nmea_thread read pr stk (messages dev ns) d1 s1 i1 = Some (Inr (ps, d', s', info'))"
    "incoming d' = drop (sum_list ns) (drop n ?t)" "parser_rel s' left []" "length ps = length ns"
    "ns \<noteq> [] \<longrightarrow> last ps = (nmea_ndeg2degree (in_lat info'), nmea_ndeg2degree (in_lon info'))" by auto
  have "ns = [] \<Longrightarrow> i1 = info'" using rest(1) by (simp add: messages_def)
  with turn(1) rest show ?case by (auto simp: messages_def add.commute)
qed

text \<open>C4: However the serial driver cuts the stream of a receiver into blocks, the sample thread follows it: after the messages for
  the blocks, in their order, the bytes of the blocks are read, the summary is that of all complete sentences among
  them, merged in order, the unfinished sentence is kept, and the position printed last is that of the summary.
\<close>

theorem sample_follows_stream:
  assumes "serial_stream read dev incoming" and "dev < 2 ^ 32" and "parser_rel s [] []"
    and "fits (p_buff_size (fst s)) [] (incoming d) ns"
    and "split_stream (take (sum_list ns) (incoming d)) = (fs, left)" and "frame_packets stk fs = Inr new"
    and "merge_packets new info = Inr info'"
  shows "\<exists>ps d' s'. nmea_thread read pr stk (messages dev ns) d s info = Some (Inr (ps, d', s', info')) \<and>
    incoming d' = drop (sum_list ns) (incoming d) \<and> parser_rel s' left [] \<and> length ps = length ns \<and>
    (ns \<noteq> [] \<longrightarrow> last ps = (nmea_ndeg2degree (in_lat info'), nmea_ndeg2degree (in_lon info')))"
proof -
  have "split_stream [] = ([], [])" by (simp add: split_stream.simps [of "[]"])
  with nmea_thread_ok [OF assms(1-3) _ assms(4) _ assms(6,7), of left] assms(5) show ?thesis by simp
qed

subsection \<open>The callback\<close>

text \<open>C32: The callback never waits.  With messages of at least 8 bytes it either stores its message behind the others, or finds
  no free message, returns \<open>- RT_EFULL\<close> and says so; then the bytes stay in the device, but nobody is told of them.
\<close>

theorem uart_input_queues:
  assumes reach: "mq_reach prio q th xs" and t: "th t = Idle" and size: "SIZEOF_RX_MSG \<le> mq_msg_size q"
  shows "\<exists>err u q'. uart_input prio t dev sz q = Inr (err, err = - RT_EFULL, u, q') \<and>
    (if mq_free q = None then err = - RT_EFULL \<and> q' = q
     else err = RT_EOK \<and> mq_reach prio q' (wake_opt u th) (xs @ [msg_bytes \<lparr>rx_dev = dev, rx_size = sz\<rparr>]))"
proof -
  let ?m = "msg_bytes \<lparr>rx_dev = dev, rx_size = sz\<rparr>"
  obtain qs fs where ok: "mq_ok q th qs fs xs" using mq_reach_ok [OF reach] by blast
  have m: "?m \<noteq> []" "length ?m \<le> mq_msg_size q"
    using size by (simp_all add: msg_bytes_def word_bytes_def SIZEOF_RX_MSG_def)
  have send: "rt_mq_send prio t ?m q = mq_send_section prio t ?m 0 q"
    using m by (simp add: rt_mq_send_def rt_mq_send_wait_def)
  show ?thesis
  proof (cases "mq_free q = None")
    case True
    with send show ?thesis by (simp add: uart_input_def mq_send_section_def)
  next
    case False
    have r: "runs th t (Mq_send ?m 0) None" using t by (simp add: runs_def)
    obtain a q1 qs1 fs1 where s1: "mq_send_section prio t ?m 0 q = Inr (Proceed (Mq_link a ?m), q1)"
      "mq_ok q1 (th(t := Ready (Mq_link a ?m) RT_EOK)) qs1 fs1 xs"
      using mq_send_section_ok [OF ok r _ m(2), of prio 0] False by fastforce
    have e1: "mq_exec None prio t (Mq_send ?m 0) q = Inr (Proceed (Mq_link a ?m), q1)"
      using s1(1) m by (simp add: rt_mq_send_wait_def)
    have r1: "mq_reach prio q1 (th(t := Ready (Mq_link a ?m) RT_EOK)) xs"
      using mq_reach.call [OF reach t _ e1] by simp
    obtain u q2 where s2: "mq_link a q1 = Inr (Finish RT_EOK u None, q2)"
      using mq_link_ok [OF s1(2), of t a ?m RT_EOK] by auto
    then have e2: "mq_exec (Some (RT_EOK, 0)) prio t (Mq_link a ?m) q1 = Inr (Finish RT_EOK u None, q2)" by simp
    have back_idle: "(th(t := Ready (Mq_link a ?m) RT_EOK))(t := Idle) = th" using t by (auto simp: fun_eq_iff)
    have "mq_reach prio q2 (after t (Finish RT_EOK u None :: mq_outcome) (th(t := Ready (Mq_link a ?m) RT_EOK))) (xs @ [?m])"
      using mq_reach.resume [OF r1 _ e2] by simp
    then have "mq_reach prio q2 (wake_opt u th) (xs @ [?m])" unfolding after_finish back_idle .
    with send s1(1) e2 False show ?thesis by (auto simp: uart_input_def)
  qed
qed

subsection \<open>Instances\<close>

text \<open>A device that is just its stream.  The sentence of the sample stream comes in three blocks.\<close>

definition plain_read :: "nat \<Rightarrow> nat \<Rightarrow> string \<Rightarrow> string \<times> string" where
  "plain_read dev n d = (take n d, drop n d)"

lemma plain_stream: "serial_stream plain_read 5 (\<lambda>d. d)"
  by (simp add: serial_stream_def plain_read_def)

lemma left_length: "length (snd (split_stream a)) \<le> length a"
proof (induction a rule: split_stream.induct)
  case (1 a)
  obtain n crc where t: "nmea_find_tail a = (n, crc)" by (cases "nmea_find_tail a")
  show ?case
  proof (cases "n = 0")
    case True
    with t show ?thesis by (simp add: split_stream.simps [of a])
  next
    case False
    obtain gs l where d: "split_stream (drop n a) = (gs, l)" by (cases "split_stream (drop n a)")
    with 1 [OF t [symmetric] refl False] t False show ?thesis by (simp add: split_stream.simps [of a])
  qed
qed

text \<open>A text shorter than the buffer fits, in blocks the driver can hold.\<close>

lemma short_fits:
  "length pend + sum_list ns < sz \<Longrightarrow> sum_list ns \<le> length str \<Longrightarrow> \<forall>n\<in>set ns. n \<le> RT_SERIAL_RB_BUFSZ \<Longrightarrow>
    fits sz pend str ns"
proof (induction ns arbitrary: pend str)
  case (Cons n ns)
  have "length (snd (split_stream (pend @ take n str))) \<le> length pend + n"
    using left_length [of "pend @ take n str"] by simp
  with Cons show ?case by simp
qed simp

theorem sample_follows_stream_witness:
  "\<exists>ps d' s'. nmea_thread plain_read nmea_property (\<lambda>_. []) (messages 5 [9, 9, 9]) vtg_line
      (demo_parser, empty_heap) zero_info =
      Some (Inr (ps, d', s', zero_info\<lparr>in_direction := 5.5, in_speed := 7, in_smask := 16\<rparr>)) \<and> d' = [] \<and>
      length ps = 3"
proof -
  have fit: "fits (p_buff_size (fst (demo_parser, empty_heap))) [] vtg_line [9, 9, 9]"
    by (rule short_fits) (simp_all add: demo_size vtg_line_len(1) RT_SERIAL_RB_BUFSZ_def)
  have split: "split_stream (take (sum_list [9, 9, 9]) vtg_line) = ([(GPVTG, vtg_line)], [])"
    using vtg_line_split by (simp add: vtg_line_len(1))
  have merge: "merge_packets [vtg_packet] zero_info =
      Inr (zero_info\<lparr>in_direction := 5.5, in_speed := 7, in_smask := 16\<rparr>)"
    by (simp add: vtg_packet_def nmea_vtg_info_def zero_info_def)
  have "(5 :: nat) < 2 ^ 32" by simp
  from sample_follows_stream [OF plain_stream this demo_rel fit split vtg_line_frames merge, of nmea_property "\<lambda>_. []"]
  obtain ps d' s' where "nmea_thread plain_read nmea_property (\<lambda>_. []) (messages 5 [9, 9, 9]) vtg_line
      (demo_parser, empty_heap) zero_info =
      Some (Inr (ps, d', s', zero_info\<lparr>in_direction := 5.5, in_speed := 7, in_smask := 16\<rparr>))"
    "d' = drop (sum_list [9, 9, 9]) vtg_line" "length ps = length [9 :: nat, 9, 9]" by blast
  then show ?thesis by (intro exI [of _ ps] exI [of _ d'] exI [of _ s'] conjI) (simp_all add: vtg_line_len(1))
qed

theorem uart_input_queues_witness:
  "\<exists>u q'. uart_input (\<lambda>t. 0) 1 5 9 mq_demo = Inr (RT_EOK, False, u, q') \<and>
     mq_reach (\<lambda>t. 0) q' (wake_opt u (\<lambda>t. Idle)) [msg_bytes \<lparr>rx_dev = 5, rx_size = 9\<rparr>]"
proof -
  have "SIZEOF_RX_MSG \<le> mq_msg_size mq_demo" "mq_free mq_demo \<noteq> None"
    by (simp_all add: SIZEOF_RX_MSG_def mq_demo_def)
  with uart_input_queues [OF mq_demo_reach refl this(1), of "\<lambda>t. 0" 1 5 9] show ?thesis by auto
qed

end
