(* ===== verification/Nmea_Roundtrip.thy ===== *)
theory Nmea_Roundtrip
  imports Nmea_Generate
begin

text \<open>
  Generator and parser against each other: what \<open>nmea_gen_GP...\<close> writes is recognised by
  \<open>nmea_find_tail\<close> as one sentence and decoded by the parser of that sentence to the packet it was
  written from, fractions rounded to the decimals of the format.
\<close>

subsection \<open>Written fields\<close>

definition num_field :: "string \<Rightarrow> bool" where
  "num_field f \<longleftrightarrow> (\<forall>c \<in> set f. num_char c)"

lemma num_field_fmt [simp]: "num_field (fmt_int z w n)" "num_field (fmt_dbl z w p r)"
  by (auto simp: num_field_def num_char_fmt_int num_char_fmt_dbl)

lemma num_field_ok:
  assumes "num_field f"
  shows "field_ok f" "plain f" "ascii f" "NUL \<notin> set f"
  using assms by (auto simp: num_field_def field_ok_def plain_def ascii_def dest: num_char_facts)

lemma fmt_nonempty [simp]: "fmt_int z w n \<noteq> []" "fmt_dbl z w p r \<noteq> []"
  by (auto simp: fmt_int_def fmt_dbl_def with_sign_def zpad_def spad_def Let_def)

lemma nmea_atoi_fmt [simp]: "int_ok n \<Longrightarrow> w \<le> 11 \<Longrightarrow> nmea_atoi (fmt_int z w n) 10 = n"
  using length_fmt_int [of n z w] by (simp add: nmea_atoi_def NMEA_CONVSTR_BUF_def strtol_fmt_int)

lemma length_fmt_int_11: "int_ok n \<Longrightarrow> w \<le> 11 \<Longrightarrow> length (fmt_int z w n) \<le> 11"
  using length_fmt_int [of n z w] by simp

text \<open>At most nine digits before the point.\<close>

definition small :: "nat \<Rightarrow> real \<Rightarrow> bool" where
  "small p r \<longleftrightarrow> scaled p r < 10 ^ (p + 9)"

lemma length_fmt_small: "small p r \<Longrightarrow> 0 < p \<Longrightarrow> length (fmt_dbl z w p r) \<le> max w (p + 11)"
  using length_fmt_dbl [of p r 9 z w] by (simp add: small_def)

lemma length_small_15:
  "small 4 r \<Longrightarrow> length (fmt_dbl True 7 4 r) \<le> 15" "small 1 r \<Longrightarrow> length (fmt_dbl True 3 1 r) \<le> 15"
  "small (Suc 0) r \<Longrightarrow> length (fmt_dbl True 3 (Suc 0) r) \<le> 15"
  using length_fmt_small [of 4 r True 7] length_fmt_small [of 1 r True 3] by simp_all

lemma nmea_atof_fmt [simp]:
  "small p r \<Longrightarrow> 0 < p \<Longrightarrow> p \<le> 100 \<Longrightarrow> w \<le> 100 \<Longrightarrow> nmea_atof (fmt_dbl z w p r) = rounded p r"
proof -
  assume a: "small p r" "0 < p" "p \<le> 100" "w \<le> 100"
  then have "length (fmt_dbl z w p r) < 256" using length_fmt_small [of p r z w] by linarith
  with a show ?thesis by (simp add: nmea_atof_def NMEA_CONVSTR_BUF_def strtod_fmt_dbl)
qed

text \<open>A letter the sentence can carry.\<close>

definition letter :: "char \<Rightarrow> bool" where
  "letter c \<longleftrightarrow> c \<notin> {CHR '','', CHR ''*'', CHR ''$''} \<and> 0 \<le> c_int c"

lemma letter_field: "letter c \<Longrightarrow> char_ok [c] \<and> plain [c] \<and> ascii [c]"
  by (auto simp: letter_def char_ok_def field_ok_def)

subsection \<open>Written sentences\<close>

lemma csv_plain: "\<forall>f \<in> set fs. plain f \<and> ascii f \<Longrightarrow> plain (csv fs) \<and> ascii (csv fs)"
  by (induction fs rule: csv.induct) (auto simp: c_int_def)

lemma csv_length: "\<forall>f \<in> set fs. length f \<le> k \<Longrightarrow> length (csv fs) \<le> length fs * (k + 1)"
  by (induction fs rule: csv.induct) auto

lemma dig_not_comma: "n < 16 \<Longrightarrow> CHR '','' \<noteq> dig n"
proof
  assume "n < 16" "CHR '','' = dig n"
  with hex_digit [of n] have "is_dig 16 (CHR '','')" by metis
  then show False by (simp add: is_dig_def digit_val_def)
qed

lemma gen_sentence:
  assumes "c_format format args = CHR ''$'' # hdr @ CHR '','' # csv fs"
    and "plain hdr" and "ascii hdr" and "\<forall>f \<in> set fs. plain f \<and> ascii f"
    and "length hdr + length (csv fs) + 8 \<le> length mem"
  shows "\<exists>n out crc tail. nmea_printf mem format args = Inr (n, out) \<and>
    nmea_find_tail out = (n, crc) \<and> 0 \<le> crc \<and> take n out = sentence hdr fs tail \<and>
    CHR '','' \<notin> set tail \<and> length tail = 4"
proof -
  define body where "body = hdr @ CHR '','' # csv fs"
  have b: "plain body" "ascii body"
    using assms(2-4) csv_plain [of fs] by (auto simp: body_def c_int_def)
  have fit: "length body + 7 \<le> length mem" using assms(5) by (simp add: body_def)
  define out where "out = CHR ''$'' # body @ tail_text body @ NUL # drop (length body + 7) mem"
  have crc: "0 \<le> nmea_calc_crc body" "nmea_calc_crc body < 256"
    using xor_sum_range [OF b(2), of 0] by (auto simp: nmea_calc_crc_xor)
  have "take (length mem - (length body + 2)) (tail_text body) = tail_text body"
    using fit by (simp add: tail_text_def)
  then have p: "nmea_printf mem format args = Inr (length body + 6, out)"
    using printf_text [of format args "CHR ''$''" body mem] assms(1) b fit by (simp add: body_def out_def)
  have f: "nmea_find_tail out = (length body + 6, nmea_calc_crc body)"
    using find_tail_sentence [OF b(1), of "CHR ''$''" "dig (nat (nmea_calc_crc body) div 16)"
        "dig (nat (nmea_calc_crc body) mod 16)"] hex_text(2) [OF crc] crc
    by (simp add: out_def tail_text_def nmea_calc_crc_xor)
  have "nat (nmea_calc_crc body) div 16 < 16" "nat (nmea_calc_crc body) mod 16 < 16" using crc by auto
  then have t: "CHR '','' \<notin> set (tl (tail_text body))" "length (tl (tail_text body)) = 4"
    by (simp_all add: tail_text_def dig_not_comma)
  have "out = (CHR ''$'' # body @ tail_text body) @ NUL # drop (length body + 7) mem"
    "length (CHR ''$'' # body @ tail_text body) = length body + 6"
    by (simp_all add: out_def tail_text_def)
  then have "take (length body + 6) out = CHR ''$'' # body @ tail_text body"
    by (metis append_eq_conv_conj)
  then have "take (length body + 6) out = sentence hdr fs (tl (tail_text body))"
    by (simp add: sentence_def tail_text_def body_def)
  with p f crc t show ?thesis by blast
qed

subsection \<open>VTG\<close>

lemma vtg_format:
  "c_format ''$GPVTG,%.1f,%C,%.1f,%C,%.1f,%C,%.1f,%C''
     [ADbl a, AChr c1, ADbl b, AChr c2, ADbl c, AChr c3, ADbl d, AChr c4] =
   CHR ''$'' # ''GPVTG'' @ CHR '','' # csv [fmt_dbl False 0 1 a, [c1], fmt_dbl False 0 1 b, [c2],
     fmt_dbl False 0 1 c, [c3], fmt_dbl False 0 1 d, [c4]]"
  by (simp add: format_steps del: vformat.simps)

text \<open>A VTG packet with its four unit letters survives writing and parsing, its numbers rounded to
  one decimal.\<close>

theorem vtg_roundtrip:
  assumes "vtg_dir_t pack = CHR ''T''" "vtg_dec_m pack = CHR ''M''" "vtg_spn_n pack = CHR ''N''"
    "vtg_spk_k pack = CHR ''K''"
    and "small 1 (vtg_dir pack)" "small 1 (vtg_dec pack)" "small 1 (vtg_spn pack)" "small 1 (vtg_spk pack)"
    and "128 \<le> length mem"
  shows "\<exists>n out crc. nmea_gen_GPVTG mem pack = Inr (n, out) \<and> nmea_find_tail out = (n, crc) \<and> 0 \<le> crc \<and>
    nmea_parse_vtg (take n out) =
      (1, pack\<lparr>vtg_dir := rounded 1 (vtg_dir pack), vtg_dec := rounded 1 (vtg_dec pack),
               vtg_spn := rounded 1 (vtg_spn pack), vtg_spk := rounded 1 (vtg_spk pack)\<rparr>)"
proof -
  let ?d = "fmt_dbl False 0 1"
  let ?fs = "[?d (vtg_dir pack), ''T'', ?d (vtg_dec pack), ''M'', ?d (vtg_spn pack), ''N'',
    ?d (vtg_spk pack), ''K'']"
  have l: "\<forall>f \<in> set ?fs. length f \<le> 12"
    using assms(5-8) by (auto dest!: length_fmt_small [where z = False and w = 0])
  have "length (csv ?fs) \<le> 8 * (12 + 1)" using csv_length [OF l] by simp
  then have fit: "length ''GPVTG'' + length (csv ?fs) + 8 \<le> length mem" using assms(9) by simp
  have c: "char_ok ''T''" "char_ok ''M''" "char_ok ''N''" "char_ok ''K''"
    by (simp_all add: char_ok_def field_ok_def)
  have pl: "\<forall>f \<in> set ?fs. plain f \<and> ascii f"
    using num_field_ok(2,3) [OF num_field_fmt(2)] by (simp add: c_int_def)
  from gen_sentence [OF vtg_format _ _ pl fit] obtain n out crc tail where
    g: "nmea_gen_GPVTG mem pack = Inr (n, out)" "nmea_find_tail out = (n, crc)" "0 \<le> crc"
      "take n out = sentence ''GPVTG'' ?fs tail"
    unfolding nmea_gen_GPVTG_def assms(1-4) by (auto simp: c_int_def)
  have "nmea_parse_vtg (take n out) = (1, \<lparr>vtg_dir = nmea_atof (?d (vtg_dir pack)), vtg_dir_t = CHR ''T'',
      vtg_dec = nmea_atof (?d (vtg_dec pack)), vtg_dec_m = CHR ''M'',
      vtg_spn = nmea_atof (?d (vtg_spn pack)), vtg_spn_n = CHR ''N'',
      vtg_spk = nmea_atof (?d (vtg_spk pack)), vtg_spk_k = CHR ''K''\<rparr>)"
    unfolding g(4) nmea_parse_vtg_def
      scan_vtg [OF num_field_ok(1) [OF num_field_fmt(2)] c(1) num_field_ok(1) [OF num_field_fmt(2)] c(2)
        num_field_ok(1) [OF num_field_fmt(2)] c(3) num_field_ok(1) [OF num_field_fmt(2)] c(4)]
    by (simp add: Let_def chr_of_def)
  with g(1-3) assms(1-8) show ?thesis by simp
qed

subsection \<open>GSV\<close>

definition sat_ok :: "nmea_satellite \<Rightarrow> bool" where
  "sat_ok s \<longleftrightarrow> int_ok (sat_id s) \<and> int_ok (sat_elv s) \<and> int_ok (sat_azimuth s) \<and> int_ok (sat_sig s)"

definition sat_fields :: "nmea_satellite \<Rightarrow> string list" where
  "sat_fields s = [fmt_int True 2 (sat_id s), fmt_int True 2 (sat_elv s), fmt_int True 3 (sat_azimuth s),
     fmt_int True 2 (sat_sig s)]"

definition gsv_fields :: "nmea_gsv \<Rightarrow> string list" where
  "gsv_fields p = [fmt_int False 1 (gsv_pack_count p), fmt_int False 1 (wrap32 (gsv_pack_index p + 1)),
     fmt_int True 2 (gsv_sat_count p)] @ concat (map sat_fields (gsv_sat_data p))"

lemma gsv_format_text:
  assumes "gsv_sat_data p = [s0, s1, s2, s3]"
  shows "c_format (''$GPGSV,%1d,%1d,%02d,'' @ ''%02d,%02d,%03d,%02d,'' @ ''%02d,%02d,%03d,%02d,'' @
        ''%02d,%02d,%03d,%02d,'' @ ''%02d,%02d,%03d,%02d'')
      ([AInt (gsv_pack_count p), AInt (wrap32 (gsv_pack_index p + 1)), AInt (gsv_sat_count p)] @
        concat (map gsv_args (gsv_sat_data p))) =
    CHR ''$'' # ''GPGSV'' @ CHR '','' # csv (gsv_fields p)"
  using assms
  by (simp add: format_steps gsv_args_def arg_int_def gsv_fields_def sat_fields_def del: vformat.simps)

lemma gsv_need:
  assumes "0 \<le> i" and "i < 1000" and "0 \<le> c" and "int_ok c"
  shows "wrap32 (wrap32 (gsv_nsat (i + 1) c * 4) + 3) \<le> 19"
proof -
  have n: "gsv_nsat (i + 1) c = (if i * 4 + 4 > c then c - i * 4 else 4)"
    using assms by (auto simp: gsv_nsat_def int_ok_def Let_def)
  then have "gsv_nsat (i + 1) c \<le> 4" "- 4000 \<le> gsv_nsat (i + 1) c" using assms by auto
  then show ?thesis by (simp add: int_ok_def)
qed

text \<open>C11: a GSV packet with four satellites survives writing and parsing: all numbers come back, the
  message index counted from one as it is written, the \<open>in_use\<close> flags cleared.\<close>

theorem gsv_roundtrip:
  assumes "gsv_sat_data pack = [s0, s1, s2, s3]" and "\<forall>s \<in> set (gsv_sat_data pack). sat_ok s"
    and "int_ok (gsv_pack_count pack)" "int_ok (gsv_sat_count pack)"
    and "0 \<le> gsv_pack_index pack" "gsv_pack_index pack < 1000" "0 \<le> gsv_sat_count pack"
    and "300 \<le> length mem"
  shows "\<exists>n out crc. nmea_gen_GPGSV mem pack = Inr (n, out) \<and> nmea_find_tail out = (n, crc) \<and> 0 \<le> crc \<and>
    nmea_parse_gsv (take n out) =
      (1, pack\<lparr>gsv_pack_index := gsv_pack_index pack + 1,
               gsv_sat_data := map (\<lambda>s. s\<lparr>sat_in_use := 0\<rparr>) (gsv_sat_data pack)\<rparr>)"
proof -
  have idx: "wrap32 (gsv_pack_index pack + 1) = gsv_pack_index pack + 1" "int_ok (gsv_pack_index pack + 1)"
    using assms(5,6) by (simp_all add: int_ok_def)
  obtain fs f where fs: "gsv_fields pack = fs @ [f]" "length fs = 18" "f = fmt_int True 2 (sat_sig s3)"
    using assms(1) by (simp add: gsv_fields_def sat_fields_def)
  have nf: "\<forall>x \<in> set (gsv_fields pack). num_field x \<and> length x \<le> 11"
    using assms(1-4) idx by (simp add: gsv_fields_def sat_fields_def sat_ok_def length_fmt_int_11)
  then have "length (csv (gsv_fields pack)) \<le> 19 * (11 + 1)"
    using csv_length [of "gsv_fields pack" 11] fs by auto
  then have fit: "length ''GPGSV'' + length (csv (gsv_fields pack)) + 8 \<le> length mem" using assms(8) by simp
  have pl: "\<forall>x \<in> set (gsv_fields pack). plain x \<and> ascii x" using nf num_field_ok by blast
  from gen_sentence [OF gsv_format_text [OF assms(1)] _ _ pl fit] obtain n out crc tail where
    g: "nmea_gen_GPGSV mem pack = Inr (n, out)" "nmea_find_tail out = (n, crc)" "0 \<le> crc"
      "take n out = sentence ''GPGSV'' (fs @ [f]) tail" "CHR '','' \<notin> set tail" "length tail = 4"
    unfolding nmea_gen_GPGSV_def fs(1) by (auto simp: c_int_def)
  have fo: "\<forall>x \<in> set (fs @ [f]). field_ok x" using nf num_field_ok(1) fs(1) by auto
  have "length f \<le> 11" using nf fs(1) by auto
  then have sh: "length f + length tail + 1 < NMEA_CONVSTR_BUF" using g(6) by (simp add: NMEA_CONVSTR_BUF_def)
  have num: "num_at (fs @ [f]) k = (if k < 19 then nmea_atoi (gsv_fields pack ! k) 10 else 0)" for k
    using fs by (auto simp: num_at_def)
  have e: "nmea_parse_gsv (take n out) =
    (if wrap32 (wrap32 (gsv_nsat (num_at (fs @ [f]) 1) (num_at (fs @ [f]) 2) * 4) + 3) \<le> 19 then 1 else 0,
     \<lparr>gsv_pack_count = num_at (fs @ [f]) 0, gsv_pack_index = num_at (fs @ [f]) 1,
      gsv_sat_count = num_at (fs @ [f]) 2, gsv_sat_data = map (sat_at (fs @ [f])) [3, 7, 11, 15]\<rparr>)"
    unfolding g(4) nmea_parse_gsv_def scan_gsv [OF fo refl _ g(5), unfolded fs(2), OF order_refl]
    using fs(2) ld_int_gsv [OF sh, of fs 18] by (simp add: Let_def gsv_sat_def sat_at_def)
  have m: "num_at (fs @ [f]) 0 = gsv_pack_count pack" "num_at (fs @ [f]) 1 = gsv_pack_index pack + 1"
    "num_at (fs @ [f]) 2 = gsv_sat_count pack"
    using assms(3,4) idx by (simp_all add: num gsv_fields_def)
  have "map (sat_at (fs @ [f])) [3, 7, 11, 15] = map (\<lambda>s. s\<lparr>sat_in_use := 0\<rparr>) (gsv_sat_data pack)"
    using assms(1,2) by (simp add: sat_at_def num gsv_fields_def sat_fields_def sat_ok_def)
  with e g(1-3) m gsv_need [OF assms(5,6,7,4)] show ?thesis by simp
qed

subsection \<open>Times and dates\<close>

text \<open>Two decimal digits.\<close>

lemma fmt_two:
  assumes "0 \<le> n" and "n < 100"
  shows "fmt_int True 2 n = [dig (nat n div 10), dig (nat n mod 10)]"
proof -
  obtain m where m: "n = int m" "m < 100" using assms by (metis nonneg_int_cases of_nat_less_iff of_nat_numeral)
  have z: "dig 0 = CHR ''0''" by code_simp
  show ?thesis
    using m z by (cases "m < 10")
      (simp_all add: fmt_int_def with_sign_def zpad_def digits.simps [of _ m] digits.simps [of _ "m div 10"]
        numeral_2_eq_2)
qed

lemma atoi_two: "0 \<le> n \<Longrightarrow> n < 100 \<Longrightarrow> nmea_atoi [dig (nat n div 10), dig (nat n mod 10)] 10 = n"
  using nmea_atoi_fmt [of n 2 True] fmt_two [of n] by (simp add: int_ok_def)

definition time_ok :: "nmea_time \<Rightarrow> bool" where
  "time_ok t \<longleftrightarrow> (\<forall>x \<in> {t_hour t, t_min t, t_sec t, t_hsec t}. 0 \<le> x \<and> x < 100)"

definition time_field :: "nmea_time \<Rightarrow> string" where
  "time_field t = fmt_int True 2 (t_hour t) @ fmt_int True 2 (t_min t) @ fmt_int True 2 (t_sec t) @
     CHR ''.'' # fmt_int True 2 (t_hsec t)"

lemma time_field_num: "num_field (time_field t)"
  using num_field_fmt(1) [of True 2] by (auto simp: time_field_def num_field_def num_char_def)

lemma time_field_props:
  assumes "time_ok t"
  shows "length (time_field t) = 9" "time_field t \<noteq> []"
    "nmea_parse_time (time_field t) u =
      (0, u\<lparr>t_hour := t_hour t, t_min := t_min t, t_sec := t_sec t, t_hsec := t_hsec t\<rparr>)"
proof -
  have r: "0 \<le> t_hour t" "t_hour t < 100" "0 \<le> t_min t" "t_min t < 100" "0 \<le> t_sec t" "t_sec t < 100"
    "0 \<le> t_hsec t" "t_hsec t < 100"
    using assms by (simp_all add: time_ok_def)
  then show "length (time_field t) = 9" "time_field t \<noteq> []"
    by (simp_all add: time_field_def fmt_two)
  show "nmea_parse_time (time_field t) u =
      (0, u\<lparr>t_hour := t_hour t, t_min := t_min t, t_sec := t_sec t, t_hsec := t_hsec t\<rparr>)"
    using r by (simp add: time_field_def fmt_two parse_time_frac atoi_two)
qed

subsection \<open>RMC\<close>

definition rmc_fields :: "nmea_rmc \<Rightarrow> string list" where
  "rmc_fields p = [time_field (rmc_utc p), [rmc_status p], fmt_dbl True 7 4 (rmc_lat p), [rmc_ns p],
     fmt_dbl True 7 4 (rmc_lon p), [rmc_ew p], fmt_dbl True 3 1 (rmc_speed p),
     fmt_dbl True 3 1 (rmc_direction p),
     fmt_int True 2 (t_day (rmc_utc p)) @ fmt_int True 2 (wrap32 (t_mon (rmc_utc p) + 1)) @
       fmt_int True 2 (wrap32 (t_year (rmc_utc p) - 100)),
     fmt_dbl True 3 1 (rmc_declination p), [rmc_declin_ew p], [rmc_mode p]]"

lemma rmc_format_text:
  "c_format ''$GPRMC,%02d%02d%02d.%02d,%C,%07.4f,%C,%07.4f,%C,%03.1f,%03.1f,%02d%02d%02d,%03.1f,%C,%C''
       [AInt (t_hour (rmc_utc p)), AInt (t_min (rmc_utc p)), AInt (t_sec (rmc_utc p)),
        AInt (t_hsec (rmc_utc p)), AChr (rmc_status p), ADbl (rmc_lat p),
        AChr (rmc_ns p), ADbl (rmc_lon p), AChr (rmc_ew p), ADbl (rmc_speed p),
        ADbl (rmc_direction p), AInt (t_day (rmc_utc p)),
        AInt (wrap32 (t_mon (rmc_utc p) + 1)), AInt (wrap32 (t_year (rmc_utc p) - 100)),
        ADbl (rmc_declination p), AChr (rmc_declin_ew p), AChr (rmc_mode p)] =
   CHR ''$'' # ''GPRMC'' @ CHR '','' # csv (rmc_fields p)"
  by (simp add: format_steps arg_int_def rmc_fields_def time_field_def del: vformat.simps)

text \<open>A packet whose letters and numbers a sentence can carry, dated 2000 to 2089.\<close>

definition rmc_ok :: "nmea_rmc \<Rightarrow> bool" where
  "rmc_ok p \<longleftrightarrow> time_ok (rmc_utc p) \<and> 0 \<le> t_day (rmc_utc p) \<and> t_day (rmc_utc p) < 100 \<and>
     0 \<le> t_mon (rmc_utc p) \<and> t_mon (rmc_utc p) < 99 \<and>
     100 \<le> t_year (rmc_utc p) \<and> t_year (rmc_utc p) < 190 \<and>
     (\<forall>c \<in> {rmc_status p, rmc_ns p, rmc_ew p, rmc_declin_ew p, rmc_mode p}. letter c) \<and>
     small 4 (rmc_lat p) \<and> small 4 (rmc_lon p) \<and> small 1 (rmc_speed p) \<and> small 1 (rmc_direction p) \<and>
     small 1 (rmc_declination p)"

lemma rmc_fields_carry:
  assumes "rmc_ok p"
  shows "\<forall>f \<in> set (rmc_fields p). plain f \<and> ascii f" and "length (csv (rmc_fields p)) \<le> 192"
    and "rmc_fields p = [time_field (rmc_utc p), [rmc_status p], fmt_dbl True 7 4 (rmc_lat p), [rmc_ns p],
     fmt_dbl True 7 4 (rmc_lon p), [rmc_ew p], fmt_dbl True 3 1 (rmc_speed p),
     fmt_dbl True 3 1 (rmc_direction p),
     [dig (nat (t_day (rmc_utc p)) div 10), dig (nat (t_day (rmc_utc p)) mod 10),
      dig (nat (t_mon (rmc_utc p) + 1) div 10), dig (nat (t_mon (rmc_utc p) + 1) mod 10),
      dig (nat (t_year (rmc_utc p) - 100) div 10), dig (nat (t_year (rmc_utc p) - 100) mod 10)],
     fmt_dbl True 3 1 (rmc_declination p), [rmc_declin_ew p], [rmc_mode p]]"
proof -
  note ok = assms [unfolded rmc_ok_def]
  have w: "wrap32 (t_mon (rmc_utc p) + 1) = t_mon (rmc_utc p) + 1"
      "wrap32 (t_year (rmc_utc p) - 100) = t_year (rmc_utc p) - 100"
    using ok by (simp_all add: int_ok_def)
  show 1: "rmc_fields p = [time_field (rmc_utc p), [rmc_status p], fmt_dbl True 7 4 (rmc_lat p), [rmc_ns p],
     fmt_dbl True 7 4 (rmc_lon p), [rmc_ew p], fmt_dbl True 3 1 (rmc_speed p),
     fmt_dbl True 3 1 (rmc_direction p),
     [dig (nat (t_day (rmc_utc p)) div 10), dig (nat (t_day (rmc_utc p)) mod 10),
      dig (nat (t_mon (rmc_utc p) + 1) div 10), dig (nat (t_mon (rmc_utc p) + 1) mod 10),
      dig (nat (t_year (rmc_utc p) - 100) div 10), dig (nat (t_year (rmc_utc p) - 100) mod 10)],
     fmt_dbl True 3 1 (rmc_declination p), [rmc_declin_ew p], [rmc_mode p]]"
    using ok w by (simp add: rmc_fields_def fmt_two)
  show "\<forall>f \<in> set (rmc_fields p). plain f \<and> ascii f"
    using ok num_field_ok(2,3) num_field_fmt time_field_num letter_field by (simp add: rmc_fields_def)
  have l: "\<forall>f \<in> set (rmc_fields p). length f \<le> 15"
    unfolding 1 using ok time_field_props(1) by (simp add: length_small_15)
  then show "length (csv (rmc_fields p)) \<le> 192"
    using csv_length [OF l] by (simp add: rmc_fields_def)
qed

text \<open>An RMC packet dated 2000 to 2089 survives writing and parsing: date, time and letters come
  back as they were, positions rounded to four decimals, speed and angles to one.\<close>

theorem rmc_roundtrip:
  assumes "rmc_ok pack" and "256 \<le> length mem" and "length stk = NMEA_TIMEPARSE_BUF"
  shows "\<exists>n out crc. nmea_gen_GPRMC mem pack = Inr (n, out) \<and> nmea_find_tail out = (n, crc) \<and> 0 \<le> crc \<and>
    nmea_parse_rmc stk (take n out) =
      Inr (1, pack\<lparr>rmc_lat := rounded 4 (rmc_lat pack), rmc_lon := rounded 4 (rmc_lon pack),
        rmc_speed := rounded 1 (rmc_speed pack), rmc_direction := rounded 1 (rmc_direction pack),
        rmc_declination := rounded 1 (rmc_declination pack)\<rparr>)"
proof -
  let ?u = "rmc_utc pack"
  note ok = assms(1) [unfolded rmc_ok_def]
  note c = rmc_fields_carry [OF assms(1)]
  have fit: "length ''GPRMC'' + length (csv (rmc_fields pack)) + 8 \<le> length mem"
    using c(2) assms(2) by simp
  from gen_sentence [OF rmc_format_text _ _ c(1) fit] obtain n out crc tail where
    g: "nmea_gen_GPRMC mem pack = Inr (n, out)" "nmea_find_tail out = (n, crc)" "0 \<le> crc"
      "take n out = sentence ''GPRMC'' (rmc_fields pack) tail"
    unfolding nmea_gen_GPRMC_def by (auto simp: c_int_def)
  have t: "time_ok ?u" and m: "wrap32 (t_mon ?u) = t_mon ?u" using ok by (simp_all add: int_ok_def)
  note tf = time_field_props [OF t]
  have "put_conv 0 (CHR ''s'') (time_field ?u) Map.empty (0::nat) = Some (SStr (time_field ?u))"
    using tf(2) by (simp add: put_conv_def conv_val_def)
  moreover have "time_text stk (Some (SStr (time_field ?u))) = Inr (time_field ?u)"
    using time_text_present [OF assms(3), of "time_field ?u"] num_field_ok(4) [OF time_field_num] tf(1)
    by (simp add: NMEA_TIMEPARSE_BUF_def)
  moreover have "char_ok [rmc_status pack]" "char_ok [rmc_ns pack]" "char_ok [rmc_ew pack]"
      "char_ok [rmc_declin_ew pack]" "char_ok [rmc_mode pack]"
    using ok letter_field by simp_all
  note char = this
  note num = num_field_ok(1) [OF num_field_fmt(2)]
  ultimately have "nmea_parse_rmc stk (take n out) =
      Inr (1, pack\<lparr>rmc_lat := rounded 4 (rmc_lat pack), rmc_lon := rounded 4 (rmc_lon pack),
        rmc_speed := rounded 1 (rmc_speed pack), rmc_direction := rounded 1 (rmc_direction pack),
        rmc_declination := rounded 1 (rmc_declination pack)\<rparr>)"
    unfolding g(4) c(3) nmea_parse_rmc_def
      scan_rmc [OF num_field_ok(1) [OF time_field_num] char(1) num char(2) num char(3) num num num char(4,5)]
    using ok tf(1,3) m
    by (simp add: Let_def time_store_ok_def NMEA_TIMEPARSE_BUF_def chr_of_def atoi_two zero_time_def)
  with g(1-3) show ?thesis by blast
qed

subsection \<open>GGA\<close>

definition gga_fields :: "nmea_gga \<Rightarrow> string list" where
  "gga_fields p = [time_field (gga_utc p), fmt_dbl True 7 4 (gga_lat p), [gga_ns p],
     fmt_dbl True 7 4 (gga_lon p), [gga_ew p], fmt_int False 1 (gga_sig p), fmt_int True 2 (gga_satinuse p),
     fmt_dbl True 3 1 (gga_HDOP p), fmt_dbl True 3 1 (gga_elv p), [gga_elv_units p],
     fmt_dbl True 3 1 (gga_diff p), [gga_diff_units p], fmt_dbl True 3 1 (gga_dgps_age p),
     fmt_int True 4 (gga_dgps_sid p)]"

lemma gga_format_text:
  "c_format ''$GPGGA,%02d%02d%02d.%02d,%07.4f,%C,%07.4f,%C,%1d,%02d,%03.1f,%03.1f,%C,%03.1f,%C,%03.1f,%04d''
       [AInt (t_hour (gga_utc p)), AInt (t_min (gga_utc p)), AInt (t_sec (gga_utc p)),
        AInt (t_hsec (gga_utc p)), ADbl (gga_lat p), AChr (gga_ns p), ADbl (gga_lon p),
        AChr (gga_ew p), AInt (gga_sig p), AInt (gga_satinuse p), ADbl (gga_HDOP p),
        ADbl (gga_elv p), AChr (gga_elv_units p), ADbl (gga_diff p),
        AChr (gga_diff_units p), ADbl (gga_dgps_age p), AInt (gga_dgps_sid p)] =
   CHR ''$'' # ''GPGGA'' @ CHR '','' # csv (gga_fields p)"
  by (simp add: format_steps arg_int_def gga_fields_def time_field_def del: vformat.simps)

definition gga_ok :: "nmea_gga \<Rightarrow> bool" where
  "gga_ok p \<longleftrightarrow> time_ok (gga_utc p) \<and>
     (\<forall>c \<in> {gga_ns p, gga_ew p, gga_elv_units p, gga_diff_units p}. letter c) \<and>
     small 4 (gga_lat p) \<and> small 4 (gga_lon p) \<and> small 1 (gga_HDOP p) \<and> small 1 (gga_elv p) \<and>
     small 1 (gga_diff p) \<and> small 1 (gga_dgps_age p) \<and>
     int_ok (gga_sig p) \<and> int_ok (gga_satinuse p) \<and> int_ok (gga_dgps_sid p)"

lemma gga_fields_carry:
  assumes "gga_ok p"
  shows "\<forall>f \<in> set (gga_fields p). plain f \<and> ascii f" and "length (csv (gga_fields p)) \<le> 224"
proof -
  note ok = assms [unfolded gga_ok_def]
  show "\<forall>f \<in> set (gga_fields p). plain f \<and> ascii f"
    using ok num_field_ok(2,3) num_field_fmt time_field_num letter_field by (simp add: gga_fields_def)
  have i: "int_ok n \<Longrightarrow> w \<le> 11 \<Longrightarrow> length (fmt_int z w n) \<le> 15" for n z w
    using length_fmt_int_11 [of n w z] by simp
  have l: "\<forall>f \<in> set (gga_fields p). length f \<le> 15"
    using ok time_field_props(1) by (simp add: gga_fields_def length_small_15 i)
  then show "length (csv (gga_fields p)) \<le> 224"
    using csv_length [OF l] by (simp add: gga_fields_def)
qed

text \<open>C10: a GGA packet survives writing and parsing: the time of day, the letters and the counters come
  back as they were, positions rounded to four decimals, the other fractions to one.\<close>

theorem gga_roundtrip:
  assumes "gga_ok pack" and "256 \<le> length mem" and "length stk = NMEA_TIMEPARSE_BUF"
  shows "\<exists>n out crc. nmea_gen_GPGGA mem pack = Inr (n, out) \<and> nmea_find_tail out = (n, crc) \<and> 0 \<le> crc \<and>
    nmea_parse_gga stk (take n out) =
      Inr (1, pack\<lparr>gga_utc := (gga_utc pack)\<lparr>t_year := 0, t_mon := 0, t_day := 0\<rparr>,
        gga_lat := rounded 4 (gga_lat pack), gga_lon := rounded 4 (gga_lon pack),
        gga_HDOP := rounded 1 (gga_HDOP pack), gga_elv := rounded 1 (gga_elv pack),
        gga_diff := rounded 1 (gga_diff pack), gga_dgps_age := rounded 1 (gga_dgps_age pack)\<rparr>)"
proof -
  let ?u = "gga_utc pack"
  note ok = assms(1) [unfolded gga_ok_def]
  note c = gga_fields_carry [OF assms(1)]
  have fit: "length ''GPGGA'' + length (csv (gga_fields pack)) + 8 \<le> length mem"
    using c(2) assms(2) by simp
  from gen_sentence [OF gga_format_text _ _ c(1) fit] obtain n out crc tail where
    g: "nmea_gen_GPGGA mem pack = Inr (n, out)" "nmea_find_tail out = (n, crc)" "0 \<le> crc"
      "take n out = sentence ''GPGGA'' (gga_fields pack) tail"
    unfolding nmea_gen_GPGGA_def by (auto simp: c_int_def)
  have t: "time_ok ?u" using ok by simp
  note tf = time_field_props [OF t]
  have "put_conv 0 (CHR ''s'') (time_field ?u) Map.empty (0::nat) = Some (SStr (time_field ?u))"
    using tf(2) by (simp add: put_conv_def conv_val_def)
  moreover have "time_text stk (Some (SStr (time_field ?u))) = Inr (time_field ?u)"
    using time_text_present [OF assms(3), of "time_field ?u"] num_field_ok(4) [OF time_field_num] tf(1)
    by (simp add: NMEA_TIMEPARSE_BUF_def)
  moreover have "char_ok [gga_ns pack]" "char_ok [gga_ew pack]" "char_ok [gga_elv_units pack]"
      "char_ok [gga_diff_units pack]"
    using ok letter_field by simp_all
  note char = this
  note num = num_field_ok(1) [OF num_field_fmt(2)] and int = num_field_ok(1) [OF num_field_fmt(1)]
  ultimately have "nmea_parse_gga stk (take n out) =
      Inr (1, pack\<lparr>gga_utc := (gga_utc pack)\<lparr>t_year := 0, t_mon := 0, t_day := 0\<rparr>,
        gga_lat := rounded 4 (gga_lat pack), gga_lon := rounded 4 (gga_lon pack),
        gga_HDOP := rounded 1 (gga_HDOP pack), gga_elv := rounded 1 (gga_elv pack),
        gga_diff := rounded 1 (gga_diff pack), gga_dgps_age := rounded 1 (gga_dgps_age pack)\<rparr>)"
    unfolding g(4) gga_fields_def nmea_parse_gga_def
      scan_gga [OF num_field_ok(1) [OF time_field_num] num char(1) num char(2) int int num num char(3) num
        char(4) num int]
    using ok tf(1,3)
    by (simp add: Let_def time_store_ok_def NMEA_TIMEPARSE_BUF_def chr_of_def zero_time_def)
  with g(1-3) show ?thesis by blast
qed

subsection \<open>Sample packets\<close>

lemma small_samples:
  "small (Suc 0) (1 / 2)" "small (Suc 0) 0" "small 4 (7 / 2)" "small 4 0" "small (Suc 0) (- 20)"
  by (simp_all add: small_def scaled_def round_even_def)

lemma rounded_samples:
  "rounded (Suc 0) (1 / 2) = 1 / 2" "rounded (Suc 0) 0 = 0" "rounded 4 (7 / 2) = 7 / 2"
  "rounded 4 0 = 0" "rounded (Suc 0) (- 20) = - 20"
  by (simp_all add: rounded_def scaled_def round_even_def)

theorem vtg_roundtrip_witness:
  "\<exists>n out crc. nmea_gen_GPVTG (replicate 128 NUL) (nmea_zero_GPVTG\<lparr>vtg_dir := 1 / 2\<rparr>) = Inr (n, out) \<and>
    nmea_find_tail out = (n, crc) \<and> 0 \<le> crc \<and>
    nmea_parse_vtg (take n out) = (1, nmea_zero_GPVTG\<lparr>vtg_dir := 1 / 2\<rparr>)"
  using vtg_roundtrip [of "nmea_zero_GPVTG\<lparr>vtg_dir := 1 / 2\<rparr>" "replicate 128 NUL"]
  by (simp add: nmea_zero_GPVTG_def small_samples rounded_samples)

theorem gsv_roundtrip_witness:
  "\<exists>n out crc. nmea_gen_GPGSV (replicate 300 NUL) nmea_zero_GPGSV = Inr (n, out) \<and>
    nmea_find_tail out = (n, crc) \<and> 0 \<le> crc \<and>
    nmea_parse_gsv (take n out) = (1, nmea_zero_GPGSV\<lparr>gsv_pack_index := 1\<rparr>)"
  using gsv_roundtrip [of nmea_zero_GPGSV zero_sat zero_sat zero_sat zero_sat "replicate 300 NUL"]
  by (simp add: nmea_zero_GPGSV_def zero_sat_def sat_ok_def int_ok_def NMEA_SATINPACK_def numeral_eq_Suc)

theorem rmc_roundtrip_witness:
  "\<exists>n out crc. nmea_gen_GPRMC (replicate 256 NUL)
      \<lparr>rmc_utc = \<lparr>t_year = 118, t_mon = 8, t_day = 18, t_hour = 3, t_min = 10, t_sec = 24, t_hsec = 5\<rparr>,
       rmc_status = CHR ''A'', rmc_lat = 7 / 2, rmc_ns = CHR ''N'', rmc_lon = 0, rmc_ew = CHR ''E'',
       rmc_speed = 0, rmc_direction = 1 / 2, rmc_declination = 0, rmc_declin_ew = CHR ''E'',
       rmc_mode = CHR ''A''\<rparr> = Inr (n, out) \<and>
    nmea_find_tail out = (n, crc) \<and> 0 \<le> crc \<and>
    nmea_parse_rmc (replicate 256 NUL) (take n out) =
      Inr (1, \<lparr>rmc_utc = \<lparr>t_year = 118, t_mon = 8, t_day = 18, t_hour = 3, t_min = 10, t_sec = 24, t_hsec = 5\<rparr>,
       rmc_status = CHR ''A'', rmc_lat = 7 / 2, rmc_ns = CHR ''N'', rmc_lon = 0, rmc_ew = CHR ''E'',
       rmc_speed = 0, rmc_direction = 1 / 2, rmc_declination = 0, rmc_declin_ew = CHR ''E'',
       rmc_mode = CHR ''A''\<rparr>)"
  using rmc_roundtrip [of "\<lparr>rmc_utc = \<lparr>t_year = 118, t_mon = 8, t_day = 18, t_hour = 3, t_min = 10, t_sec = 24,
      t_hsec = 5\<rparr>, rmc_status = CHR ''A'', rmc_lat = 7 / 2, rmc_ns = CHR ''N'', rmc_lon = 0,
      rmc_ew = CHR ''E'', rmc_speed = 0, rmc_direction = 1 / 2, rmc_declination = 0,
      rmc_declin_ew = CHR ''E'', rmc_mode = CHR ''A''\<rparr>" "replicate 256 NUL" "replicate 256 NUL"]
  by (simp add: rmc_ok_def time_ok_def letter_def c_int_def NMEA_TIMEPARSE_BUF_def small_samples
      rounded_samples)

theorem gga_roundtrip_witness:
  "\<exists>n out crc. nmea_gen_GPGGA (replicate 256 NUL)
      ((nmea_zero_GPGGA zero_time)\<lparr>gga_lat := 7 / 2, gga_elv := - 20, gga_satinuse := 8\<rparr>) = Inr (n, out) \<and>
    nmea_find_tail out = (n, crc) \<and> 0 \<le> crc \<and>
    nmea_parse_gga (replicate 256 NUL) (take n out) =
      Inr (1, (nmea_zero_GPGGA zero_time)\<lparr>gga_lat := 7 / 2, gga_elv := - 20, gga_satinuse := 8\<rparr>)"
  using gga_roundtrip [of "(nmea_zero_GPGGA zero_time)\<lparr>gga_lat := 7 / 2, gga_elv := - 20, gga_satinuse := 8\<rparr>"
      "replicate 256 NUL" "replicate 256 NUL"]
  by (simp add: gga_ok_def nmea_zero_GPGGA_def zero_time_def time_ok_def letter_def c_int_def int_ok_def
      NMEA_TIMEPARSE_BUF_def small_samples rounded_samples)

end
