(* ===== verification/Gps_Parse.thy ===== *)
theory Gps_Parse
  imports Nmea_Gmath "HOL-Library.Signed_Division"
begin

text \<open>
  The stand-alone GPS parser of the board application (\<open>gps_parse.c\<close>, \<open>gps_parse.h\<close>, \<open>convert_time.c\<close>).
  The input is a C string without its terminator, a pointer into it the offset, and the array
  \<open>ptr_section\<close> a list of pointers that starts out all null.  Reading through a null pointer is the fault
  \<open>Null_pointer\<close>.  Stores into \<open>uint8_t\<close>, \<open>int8_t\<close> and \<open>int16_t\<close> members wrap; \<open>float\<close> and \<open>double\<close> are real.
\<close>

subsection \<open>The data\<close>

definition GGA_SECTION_MAX :: nat where "GGA_SECTION_MAX = 14"
definition RMC_SECTION_MAX :: nat where "RMC_SECTION_MAX = 12"
definition GSV_SECTION_MAX :: nat where "GSV_SECTION_MAX = 19"
definition GPS_NMEA_MAX_SVVIEW :: nat where "GPS_NMEA_MAX_SVVIEW = 40"
definition MAX_NMEA_PACK_LEN :: int where "MAX_NMEA_PACK_LEN = 200"
definition PARSE_GGA_MESSAGE_MAX_LEN :: nat where "PARSE_GGA_MESSAGE_MAX_LEN = 8"
definition PARSE_GSV_MESSAGE_MAX_LEN :: nat where "PARSE_GSV_MESSAGE_MAX_LEN = 7"
definition PARSE_RMC_MESSAGE_MAX_LEN :: nat where "PARSE_RMC_MESSAGE_MAX_LEN = 9"

lemmas gps_limits = GGA_SECTION_MAX_def RMC_SECTION_MAX_def GSV_SECTION_MAX_def GPS_NMEA_MAX_SVVIEW_def
  MAX_NMEA_PACK_LEN_def PARSE_GGA_MESSAGE_MAX_LEN_def PARSE_GSV_MESSAGE_MAX_LEN_def
  PARSE_RMC_MESSAGE_MAX_LEN_def

record NMEA_GGA =
  g_utc_time :: real
  g_Latitude :: real
  g_north_south :: int
  g_Longitude :: real
  g_east_west :: int
  g_position_status :: int
  g_sat_in_view :: int
  g_hdop :: real
  g_altitude :: real

record NMEA_RMC =
  r_utc_time :: real
  r_position_status :: int
  r_Latitude :: real
  r_north_south :: int
  r_Longitude :: real
  r_east_west :: int
  r_speed :: real
  r_azimuth :: real
  r_utc_date :: real

record NMEA_EPE =
  hacc :: real
  vacc :: real
  checksum :: int

record NMEA_GSV_SATELITES =
  prn :: int
  elevation :: int
  azimuth :: int
  cnr :: int

record NMEA_GSV =
  sates_in_view :: int
  rsv :: "NMEA_GSV_SATELITES list"

record NMEA_PARSE =
  np_gga :: NMEA_GGA
  np_rmc :: NMEA_RMC
  np_gsv :: NMEA_GSV
  np_epe :: NMEA_EPE

definition zero_gsv :: NMEA_GSV where
  "zero_gsv = \<lparr>sates_in_view = 0,
     rsv = replicate GPS_NMEA_MAX_SVVIEW \<lparr>prn = 0, elevation = 0, azimuth = 0, cnr = 0\<rparr>\<rparr>"

text \<open>Conversions to the narrow integer types.\<close>

definition u8 :: "int \<Rightarrow> int" where "u8 x = take_bit 8 x"
definition i16 :: "int \<Rightarrow> int" where "i16 x = signed_take_bit 15 x"

subsection \<open>Splitting a sentence\<close>

definition byte_at :: "string \<Rightarrow> nat \<Rightarrow> char" where
  "byte_at s i = (if i < length s then s ! i else NUL)"

definition strchr_from :: "string \<Rightarrow> nat \<Rightarrow> char \<Rightarrow> nat option" where
  "strchr_from s i c =
     (if c \<in> set (drop i s) then Some (i + length (takeWhile (\<lambda>x. x \<noteq> c) (drop i s))) else None)"

definition latitude_longitude_conversion :: "real \<Rightarrow> real" where
  "latitude_longitude_conversion fData =
     (let i = of_int (to_int (fData / 100)) in i + ((fData / 100 - i) * 100) / 60)"

function conv_loop ::
    "string \<Rightarrow> nat \<Rightarrow> nat \<Rightarrow> nat option \<Rightarrow> nat \<Rightarrow> nat option list \<Rightarrow> nat \<times> nat option list" where
  "conv_loop s ptr_end section_max_count ptr count out =
     (case ptr of
        None \<Rightarrow> (count, out)
      | Some p1 \<Rightarrow>
          if p1 < ptr_end \<and> count < section_max_count then
            conv_loop s ptr_end section_max_count (strchr_from s (p1 + 1) (CHR '','')) (count + 1)
              (out[count := Some (if byte_at s p1 = CHR '','' \<and> byte_at s (p1 + 1) = CHR '',''
                                  then p1 else p1 + 1)])
          else (count, out))"
  by pat_completeness auto
termination
  by (relation "measure (\<lambda>(s, e, mx, p, count, out). mx - count)") auto

declare conv_loop.simps [simp del]

definition data_conversion :: "string option \<Rightarrow> nat option list \<Rightarrow> nat \<Rightarrow> int \<times> nat option list" where
  "data_conversion input out section_max_count =
     (case input of
        None \<Rightarrow> (1, out)
      | Some s \<Rightarrow>
          (case (strchr_from s 0 (CHR '',''), strchr_from s 0 (CHR ''*'')) of
             (Some ptr, Some ptr_end) \<Rightarrow>
               if int ptr_end - int ptr > MAX_NMEA_PACK_LEN then (0, out)
               else
                 (let (count, out') = conv_loop s ptr_end section_max_count (Some ptr) 0 out
                  in (u8 (int count - 1), out'))
           | _ \<Rightarrow> (0, out)))"

text \<open>The text a section pointer points to; a null pointer must not be read.\<close>

definition section_at :: "string \<Rightarrow> nat option list \<Rightarrow> nat \<Rightarrow> string result" where
  "section_at s out k =
     (if k < length out then
        (case out ! k of None \<Rightarrow> Inl Null_pointer | Some p \<Rightarrow> Inr (drop p s))
      else Inl Out_of_bounds)"

definition atof_at :: "string \<Rightarrow> nat option list \<Rightarrow> nat \<Rightarrow> real result" where
  "atof_at s out k = bindR (section_at s out k) (\<lambda>t. Inr (strtod t))"

definition atoi_at :: "string \<Rightarrow> nat option list \<Rightarrow> nat \<Rightarrow> int result" where
  "atoi_at s out k = bindR (section_at s out k) (\<lambda>t. Inr (strtol t 10))"

definition char_at :: "string \<Rightarrow> nat option list \<Rightarrow> nat \<Rightarrow> char result" where
  "char_at s out k = bindR (section_at s out k) (\<lambda>t. Inr (byte_at t 0))"

definition flag_of :: "char \<Rightarrow> char \<Rightarrow> char \<Rightarrow> int" where
  "flag_of zero one c = (if c = zero then 0 else if c = one then 1 else - 1)"

subsection \<open>The sentences\<close>

definition parse_gga :: "string option \<Rightarrow> NMEA_GGA option \<Rightarrow> (bool \<times> NMEA_GGA option) result" where
  "parse_gga input pdat =
     (case (input, pdat) of
        (Some s, Some d) \<Rightarrow>
          (let (count, sec) = data_conversion input (replicate GGA_SECTION_MAX None) GGA_SECTION_MAX
           in if int PARSE_GGA_MESSAGE_MAX_LEN > count then Inr (False, pdat)
              else
                bindR (atof_at s sec 0) (\<lambda>utc.
                bindR (atof_at s sec 1) (\<lambda>lat.
                bindR (char_at s sec 2) (\<lambda>ns.
                bindR (atof_at s sec 3) (\<lambda>lon.
                bindR (char_at s sec 4) (\<lambda>ew.
                bindR (atoi_at s sec 6) (\<lambda>sats.
                bindR (atof_at s sec 7) (\<lambda>h.
                bindR (atof_at s sec 8) (\<lambda>alt.
                Inr (True, Some (d\<lparr>g_utc_time := utc,
                  g_Latitude := latitude_longitude_conversion lat,
                  g_north_south := flag_of (CHR ''N'') (CHR ''S'') ns,
                  g_Longitude := latitude_longitude_conversion lon,
                  g_east_west := flag_of (CHR ''E'') (CHR ''W'') ew,
                  g_sat_in_view := u8 sats, g_hdop := h, g_altitude := alt\<rparr>)))))))))))
      | _ \<Rightarrow> Inr (False, pdat))"

definition parse_rmc :: "string option \<Rightarrow> NMEA_RMC option \<Rightarrow> (bool \<times> NMEA_RMC option) result" where
  "parse_rmc input pdat =
     (case (input, pdat) of
        (Some s, Some d) \<Rightarrow>
          (let (count, sec) = data_conversion input (replicate RMC_SECTION_MAX None) RMC_SECTION_MAX
           in if count < int PARSE_RMC_MESSAGE_MAX_LEN
              then Inr (False, Some (d\<lparr>r_position_status := - 1\<rparr>))
              else
                bindR (atof_at s sec 0) (\<lambda>utc.
                bindR (char_at s sec 1) (\<lambda>st.
                bindR (atof_at s sec 2) (\<lambda>lat.
                bindR (char_at s sec 3) (\<lambda>ns.
                bindR (atof_at s sec 4) (\<lambda>lon.
                bindR (char_at s sec 5) (\<lambda>ew.
                bindR (atof_at s sec 6) (\<lambda>sp.
                bindR (atof_at s sec 7) (\<lambda>az.
                bindR (atof_at s sec 8) (\<lambda>date.
                Inr (True, Some (d\<lparr>r_utc_time := utc,
                  r_position_status := flag_of (CHR ''V'') (CHR ''A'') st,
                  r_Latitude := latitude_longitude_conversion lat,
                  r_north_south := flag_of (CHR ''N'') (CHR ''S'') ns,
                  r_Longitude := latitude_longitude_conversion lon,
                  r_east_west := flag_of (CHR ''E'') (CHR ''W'') ew,
                  r_speed := sp, r_azimuth := az, r_utc_date := date\<rparr>))))))))))))
      | _ \<Rightarrow> Inr (False, pdat))"

text \<open>An optional section: 0 when its pointer is null.\<close>

definition atoi_opt :: "string \<Rightarrow> nat option list \<Rightarrow> nat \<Rightarrow> int result" where
  "atoi_opt s out k =
     (if k < length out then
        Inr (case out ! k of None \<Rightarrow> 0 | Some p \<Rightarrow> strtol (drop p s) 10)
      else Inl Out_of_bounds)"

function gsv_loop ::
    "string \<Rightarrow> nat option list \<Rightarrow> nat \<Rightarrow> nat \<Rightarrow> nat \<Rightarrow> NMEA_GSV_SATELITES list \<Rightarrow> NMEA_GSV_SATELITES list result" where
  "gsv_loop s sec count i cur_index view =
     (if i < count \<and> cur_index < GPS_NMEA_MAX_SVVIEW then
        bindR (atoi_opt s sec i) (\<lambda>p.
        bindR (atoi_opt s sec (i + 1)) (\<lambda>e.
        bindR (atoi_opt s sec (i + 2)) (\<lambda>a.
        bindR (atoi_opt s sec (i + 3)) (\<lambda>c.
          if cur_index < length view then
            gsv_loop s sec count (i + 4) (cur_index + 1)
              (view[cur_index := \<lparr>prn = u8 p, elevation = u8 e, azimuth = i16 a, cnr = u8 c\<rparr>])
          else Inl Out_of_bounds))))
      else Inr view)"
  by pat_completeness auto
termination
  by (relation "measure (\<lambda>(s, sec, count, i, c, v). count - i)") auto

declare gsv_loop.simps [simp del]

definition parse_gsv :: "string option \<Rightarrow> NMEA_GSV option \<Rightarrow> (bool \<times> NMEA_GSV option) result" where
  "parse_gsv input pview =
     (case (input, pview) of
        (Some s, Some v) \<Rightarrow>
          (let (count, sec) = data_conversion input (replicate GSV_SECTION_MAX None) GSV_SECTION_MAX
           in if count < int PARSE_GSV_MESSAGE_MAX_LEN then Inr (False, pview)
              else if sec ! 0 = None then Inr (False, pview)
              else if sec ! 1 = None then Inr (False, pview)
              else
                bindR (atoi_at s sec 0) (\<lambda>t.
                bindR (atoi_at s sec 1) (\<lambda>c.
                  let total_no = u8 t; cur_no = u8 c
                  in if cur_no < 1 then Inr (False, pview)
                     else
                       (let cur_index = nat (u8 ((cur_no - 1) * 4));
                            v1 = (if cur_no = 1 then zero_gsv else v)
                        in bindR (case sec ! 2 of
                                    None \<Rightarrow> Inr v1
                                  | Some p \<Rightarrow> Inr (v1\<lparr>sates_in_view := i16 (strtol (drop p s) 10)\<rparr>))
                             (\<lambda>v2. bindR (gsv_loop s sec (nat count) 3 cur_index (rsv v2))
                                (\<lambda>sv. Inr (\<not> total_no < cur_no, Some (v2\<lparr>rsv := sv\<rparr>))))))))
      | _ \<Rightarrow> Inr (False, pview))"

subsection \<open>The error estimate, with \<open>sscanf\<close>\<close>

text \<open>A \<open>%f\<close> conversion: the number at the head of the text and the text after it.\<close>

definition scan_float :: "string \<Rightarrow> (real \<times> string) option" where
  "scan_float s =
     (let (sg, t) = sign_of (dropWhile isspace s);
          ip = takeWhile isdigit t;
          r1 = dropWhile isdigit t;
          (fp, r2) = (case r1 of [] \<Rightarrow> ([], [])
                      | c # r \<Rightarrow> if c = CHR ''.'' then (takeWhile isdigit r, dropWhile isdigit r) else ([], r1));
          r3 = (case r2 of [] \<Rightarrow> []
                | e # r \<Rightarrow> if e = CHR ''e'' \<or> e = CHR ''E''
                          then dropWhile isdigit (snd (sign_of r)) else r2)
      in if ip = [] \<and> fp = [] then None else Some (strtod s, r3))"

definition scan_hex :: "string \<Rightarrow> int option" where
  "scan_hex s =
     (let (sg, t) = sign_of (dropWhile isspace s)
      in if takeWhile (is_dig 16) (skip_0x 16 t) = [] then None
         else Some (wrap32 (sg * digits_val 16 (takeWhile (is_dig 16) (skip_0x 16 t)))))"

definition match_lit :: "string \<Rightarrow> string \<Rightarrow> string option" where
  "match_lit lit s = (if take (length lit) s = lit then Some (drop (length lit) s) else None)"

definition sscanf_epe :: "string \<Rightarrow> NMEA_EPE \<Rightarrow> NMEA_EPE" where
  "sscanf_epe s d =
     (case match_lit ''$GNEPE,'' s of
        None \<Rightarrow> d
      | Some s1 \<Rightarrow>
          (case scan_float s1 of
             None \<Rightarrow> d
           | Some (h, s2) \<Rightarrow>
               (let d1 = d\<lparr>hacc := h\<rparr>
                in case match_lit '','' s2 of
                     None \<Rightarrow> d1
                   | Some s3 \<Rightarrow>
                       (case scan_float s3 of
                          None \<Rightarrow> d1
                        | Some (v, s4) \<Rightarrow>
                            (let d2 = d1\<lparr>vacc := v\<rparr>
                             in case match_lit ''*'' s4 of
                                  None \<Rightarrow> d2
                                | Some s5 \<Rightarrow>
                                    (case scan_hex s5 of
                                       None \<Rightarrow> d2
                                     | Some x \<Rightarrow> d2\<lparr>checksum := x\<rparr>))))))"

definition parse_epe :: "string option \<Rightarrow> NMEA_EPE option \<Rightarrow> bool \<times> NMEA_EPE option" where
  "parse_epe input pdat =
     (case (input, pdat) of
        (Some s, Some d) \<Rightarrow> (True, Some (sscanf_epe s d))
      | _ \<Rightarrow> (False, pdat))"

subsection \<open>The shell command\<close>

definition gps_ospi_parse_nmea :: "NMEA_PARSE \<Rightarrow> NMEA_PARSE result" where
  "gps_ospi_parse_nmea g =
     (let rmc = drop 3 ''$GNRMC,014419.00,A,2930.34343,N,10634.36893,E,0.000,354.29,020221,2.60,W,D*37'' @ [CR, LF];
          gsv = drop 3 ''$GPGSV,1,1,01,01,,,41,1*61'' @ [CR, LF];
          gga = drop 3 ''$GNGGA,014423.00,2930.34347,N,10634.36892,E,2,12,1.00,245.4,M,-26.5,M,,0000*61'' @ [CR, LF]
      in bindR (if take 3 rmc = ''RMC''
                then bindR (parse_rmc (Some (drop 3 rmc)) (Some (np_rmc g)))
                       (\<lambda>(ok, d). Inr (g\<lparr>np_rmc := the d\<rparr>))
                else Inr g)
           (\<lambda>g1. bindR (if take 3 gsv = ''GSV''
                        then bindR (parse_gsv (Some (drop 3 gsv)) (Some (np_gsv g1)))
                               (\<lambda>(ok, d). Inr (g1\<lparr>np_gsv := the d\<rparr>))
                        else Inr g1)
              (\<lambda>g2. if take 3 gga = ''GGA''
                    then bindR (parse_gga (Some (drop 3 gga)) (Some (np_gga g2)))
                           (\<lambda>(ok, d). Inr (g2\<lparr>np_gga := the d\<rparr>))
                    else Inr g2)))"

subsection \<open>Seconds since the epoch\<close>

record gps_tm =
  gt_msec :: real
  gt_sec :: int
  gt_min :: int
  gt_hour :: int
  gt_mday :: int
  gt_mon :: int
  gt_year :: int

text \<open>\<open>mktime\<close> depends on the time zone of the system and is an argument.\<close>

definition split_time :: "real \<Rightarrow> real \<Rightarrow> gps_tm" where
  "split_time yymmdd hhmmss =
     \<lparr>gt_msec = hhmmss - of_int (to_int hhmmss),
      gt_sec = to_int hhmmss smod 100,
      gt_min = to_int (hhmmss / 100) smod 100,
      gt_hour = to_int hhmmss sdiv 10000,
      gt_mday = to_int yymmdd sdiv 10000,
      gt_mon = to_int (yymmdd / 100) smod 100 - 1,
      gt_year = to_int yymmdd smod 100 + 2000 - 1900\<rparr>"

definition convert_seconds ::
    "(int \<Rightarrow> int \<Rightarrow> int \<Rightarrow> int \<Rightarrow> int \<Rightarrow> int \<Rightarrow> int) \<Rightarrow> real \<Rightarrow> real \<Rightarrow> real" where
  "convert_seconds mktime yymmdd hhmmss =
     (let p = split_time yymmdd hhmmss
      in of_int (mktime (gt_year p) (gt_mon p) (gt_mday p) (gt_hour p) (gt_min p) (gt_sec p)) + gt_msec p)"

subsection \<open>Numbers end at a separator\<close>

definition sep :: "char \<Rightarrow> bool" where
  "sep c \<longleftrightarrow> c = CHR '','' \<or> c = CHR ''*''"

lemma sepE: "sep c \<Longrightarrow> (c = CHR '','' \<Longrightarrow> P) \<Longrightarrow> (c = CHR ''*'' \<Longrightarrow> P) \<Longrightarrow> P"
  by (auto simp: sep_def)

lemma takeWhile_sep: "\<not> P c \<Longrightarrow> takeWhile P (s @ c # r) = takeWhile P s"
  by (induction s) auto

lemma dropWhile_sep: "\<not> P c \<Longrightarrow> dropWhile P (s @ c # r) = dropWhile P s @ c # r"
  by (induction s) auto

lemma sep_chars [simp]:
  assumes "sep c"
  shows "\<not> isdigit c" "\<not> isspace c" "\<not> is_dig 10 c" "c \<noteq> CHR ''.''" "c \<noteq> CHR ''e''" "c \<noteq> CHR ''E''"
    "c \<noteq> CHR ''-''" "c \<noteq> CHR ''+''"
  using assms by (auto elim!: sepE simp: cdefs)

lemma sign_of_sep: "sep c \<Longrightarrow> sign_of (s @ c # r) = (fst (sign_of s), snd (sign_of s) @ c # r)"
  by (cases s) auto

lemma strtol_sep: "sep c \<Longrightarrow> strtol (s @ c # r) 10 = strtol s 10"
  by (simp add: strtol_def dropWhile_sep sign_of_sep takeWhile_sep split_beta Let_def)

lemma strtod_exp_sep: "sep c \<Longrightarrow> strtod_exp (s @ c # r) = strtod_exp s"
  by (cases s) (simp_all add: strtod_exp_def sign_of_sep takeWhile_sep split_beta)

lemma strtod_sep:
  assumes "sep c"
  shows "strtod (s @ c # r) = strtod s"
proof -
  have fp: "(case D @ c # r of [] \<Rightarrow> [] | x # y \<Rightarrow> if x = CHR ''.'' then takeWhile isdigit y else []) =
      (case D of [] \<Rightarrow> [] | x # y \<Rightarrow> if x = CHR ''.'' then takeWhile isdigit y else [])" for D
    using assms by (cases D) (auto simp: takeWhile_sep)
  have r2: "strtod_exp (case D @ c # r of [] \<Rightarrow> [] | x # y \<Rightarrow> if x = CHR ''.'' then dropWhile isdigit y else D @ c # r) =
      strtod_exp (case D of [] \<Rightarrow> [] | x # y \<Rightarrow> if x = CHR ''.'' then dropWhile isdigit y else D)" for D
    using assms by (cases D) (auto simp: dropWhile_sep strtod_exp_sep strtod_exp_sep [of _ "_ # _", simplified]
      strtod_exp_sep [of _ "[]", simplified])
  show ?thesis
    unfolding strtod_def Let_def split_beta dropWhile_sep [of isspace, OF sep_chars(2) [OF assms]] sign_of_sep [OF assms]
      fst_conv snd_conv takeWhile_sep [of isdigit, OF sep_chars(1) [OF assms]]
      dropWhile_sep [of isdigit, OF sep_chars(1) [OF assms]] fp r2
    by (rule refl)
qed

subsection \<open>Splitting at the commas\<close>

text \<open>The fields of a sentence as the code sees them from the first comma on.\<close>

definition fields_text :: "string list \<Rightarrow> string \<Rightarrow> string" where
  "fields_text fs rest = concat (map (\<lambda>f. CHR '','' # f) fs) @ CHR ''*'' # rest"

definition nosep :: "string \<Rightarrow> bool" where
  "nosep f \<longleftrightarrow> (\<forall>c\<in>set f. \<not> sep c)"

lemma fields_text_simps [simp]:
  "fields_text [] rest = CHR ''*'' # rest"
  "fields_text (f # fs) rest = CHR '','' # f @ fields_text fs rest"
  by (simp_all add: fields_text_def)

definition points_to :: "string \<Rightarrow> nat option \<Rightarrow> string \<Rightarrow> bool" where
  "points_to s p f \<longleftrightarrow> (\<exists>q c r. p = Some q \<and> sep c \<and> drop q s = f @ c # r)"

lemma fields_text_head: "\<exists>c r. sep c \<and> fields_text fs rest = c # r"
  by (cases fs) (auto simp: sep_def)

lemma strchr_after:
  assumes "drop q s = f @ t" and "c \<notin> set f"
  shows "strchr_from s q c = strchr_from s (q + length f) c"
proof -
  have "drop (q + length f) s = t" using assms(1) by (metis add.commute append_eq_conv_conj drop_drop)
  moreover have "takeWhile (\<lambda>x. x \<noteq> c) (f @ t) = f @ takeWhile (\<lambda>x. x \<noteq> c) t"
    using assms(2) by (induction f) auto
  ultimately show ?thesis using assms by (simp add: strchr_from_def)
qed

lemma strchr_hit: "drop q s = c # t \<Longrightarrow> strchr_from s q c = Some q"
  by (simp add: strchr_from_def)

lemma byte_at_drop: "drop q s = c # t \<Longrightarrow> byte_at s q = c"
  by (metis byte_at_def drop_all hd_drop_conv_nth leI list.distinct(1) list.sel(1))

lemma drop_add_eq: "drop q s = f @ t \<Longrightarrow> drop (q + length f) s = t"
  by (metis add.commute append_eq_conv_conj drop_drop)

definition span :: "string list \<Rightarrow> nat" where
  "span fs = length (concat (map (\<lambda>f. CHR '','' # f) fs))"

lemma span_simps [simp]: "span [] = 0" "span (f # fs) = Suc (length f + span fs)"
  by (simp_all add: span_def)

text \<open>The pointer stored for a field leads to its text, or to a separator when the field is empty.\<close>

lemma stored_pointer:
  assumes "drop p s = CHR '','' # f @ fields_text fs rest" and "nosep f"
  shows "points_to s (Some (if byte_at s p = CHR '','' \<and> byte_at s (p + 1) = CHR '','' then p else p + 1)) f"
proof -
  have p: "byte_at s p = CHR '',''" using assms(1) by (rule byte_at_drop)
  have p1: "drop (p + 1) s = f @ fields_text fs rest"
    using drop_add_eq [of p s "[CHR '','']"] assms(1) by simp
  obtain c r where h: "sep c" "fields_text fs rest = c # r" using fields_text_head by blast
  show ?thesis
  proof (cases f)
    case Nil
    with p p1 h assms(1) show ?thesis by (auto simp: points_to_def byte_at_drop)
  next
    case (Cons x xs)
    with p1 have "byte_at s (p + 1) = x" by (auto intro: byte_at_drop)
    with Cons assms(2) have "byte_at s (p + 1) \<noteq> CHR '',''" by (auto simp: nosep_def sep_def)
    with p1 h show ?thesis by (auto simp: points_to_def)
  qed
qed

lemma conv_loop_fields:
  assumes "drop p s = fields_text (f # fs) rest" and "\<forall>g\<in>set (f # fs). nosep g"
    and "count < mx" and "length out = mx"
  shows "\<exists>out'. conv_loop s (p + span (f # fs)) mx (Some p) count out =
      (min mx (count + length (f # fs)), out') \<and> length out' = mx \<and>
      (\<forall>k. k < count \<or> count + length (f # fs) \<le> k \<longrightarrow> out' ! k = out ! k) \<and>
      (\<forall>k. k < length (f # fs) \<longrightarrow> count + k < mx \<longrightarrow> points_to s (out' ! (count + k)) ((f # fs) ! k))"
  using assms
proof (induction fs arbitrary: p f count out)
  case Nil
  define q where "q = Some (if byte_at s p = CHR '','' \<and> byte_at s (p + 1) = CHR '','' then p else p + 1)"
  have "points_to s q f"
    using Nil.prems unfolding q_def by (intro stored_pointer [of p s f "[]"]) auto
  moreover have d: "drop (p + 1) s = f @ CHR ''*'' # rest"
    using drop_add_eq [of p s "[CHR '','']"] Nil.prems(1) by simp
  then have n: "strchr_from s (p + 1) (CHR '','') = strchr_from s (p + 1 + length f) (CHR '','')"
    using Nil.prems(2) by (intro strchr_after) (auto simp: nosep_def sep_def)
  have "conv_loop s (p + span [f]) mx (strchr_from s (p + 1) (CHR '','')) (count + 1) o' = (count + 1, o')" for o'
    unfolding n by (auto simp: conv_loop.simps strchr_from_def)
  then have "conv_loop s (p + span [f]) mx (Some p) count out = (count + 1, out[count := q])"
    using Nil.prems(3) by (simp add: conv_loop.simps [of _ _ _ "Some p"] q_def)
  ultimately show ?case using Nil.prems(3,4) by (auto simp: nth_list_update)
next
  case (Cons g gs)
  define q where "q = Some (if byte_at s p = CHR '','' \<and> byte_at s (p + 1) = CHR '','' then p else p + 1)"
  have pt: "points_to s q f"
    using Cons.prems unfolding q_def by (intro stored_pointer [of p s f "g # gs"]) auto
  have d: "drop (p + 1) s = f @ fields_text (g # gs) rest"
    using drop_add_eq [of p s "[CHR '','']"] Cons.prems(1) by simp
  define p' where "p' = p + 1 + length f"
  have dp: "drop p' s = fields_text (g # gs) rest" using drop_add_eq [OF d] by (simp add: p'_def)
  have "strchr_from s (p + 1) (CHR '','') = strchr_from s p' (CHR '','')"
    unfolding p'_def using d Cons.prems(2) by (intro strchr_after) (auto simp: nosep_def sep_def)
  also have "\<dots> = Some p'" using dp by (intro strchr_hit) simp
  finally have step: "conv_loop s (p + span (f # g # gs)) mx (Some p) count out =
      conv_loop s (p' + span (g # gs)) mx (Some p') (count + 1) (out[count := q])"
    using Cons.prems(3) by (simp add: conv_loop.simps [of _ _ _ "Some p"] q_def p'_def ac_simps)
  show ?case
  proof (cases "count + 1 < mx")
    case True
    obtain out' where o: "conv_loop s (p' + span (g # gs)) mx (Some p') (count + 1) (out[count := q]) =
        (min mx (count + 1 + length (g # gs)), out')" "length out' = mx"
      "\<forall>k. k < count + 1 \<or> count + 1 + length (g # gs) \<le> k \<longrightarrow> out' ! k = out[count := q] ! k"
      "\<forall>k. k < length (g # gs) \<longrightarrow> count + 1 + k < mx \<longrightarrow> points_to s (out' ! (count + 1 + k)) ((g # gs) ! k)"
      using Cons.IH [OF dp _ True, of "out[count := q]"] Cons.prems(2,4) by auto
    have "points_to s (out' ! (count + k)) ((f # g # gs) ! k)" if "k < length (f # g # gs)" "count + k < mx" for k
      using that o(3,4) pt Cons.prems(3,4) by (cases k) (auto simp: nth_list_update)
    with o step show ?thesis by (auto simp: nth_list_update)
  next
    case False
    then have "conv_loop s (p' + span (g # gs)) mx (Some p') (count + 1) (out[count := q]) = (mx, out[count := q])"
      using Cons.prems(3) by (simp add: conv_loop.simps)
    moreover have "count + k < mx \<longleftrightarrow> k = 0" for k using False Cons.prems(3) by auto
    ultimately show ?thesis using step pt False Cons.prems(3,4) by (auto simp: nth_list_update)
  qed
qed

lemma strchr_star:
  "\<forall>g\<in>set fs. nosep g \<Longrightarrow> drop p s = fields_text fs rest \<Longrightarrow> strchr_from s p (CHR ''*'') = Some (p + span fs)"
proof (induction fs arbitrary: p)
  case (Cons f fs)
  have "strchr_from s p (CHR ''*'') = strchr_from s (p + length (CHR '','' # f)) (CHR ''*'')"
    using Cons.prems by (intro strchr_after [where t = "fields_text fs rest"]) (auto simp: nosep_def sep_def)
  moreover have "drop (p + length (CHR '','' # f)) s = fields_text fs rest"
    using Cons.prems(2) by (intro drop_add_eq) simp
  ultimately show ?case using Cons.IH Cons.prems(1) by simp
qed (simp add: strchr_hit)

text \<open>The sections of a framed sentence.\<close>

lemma data_conversion_fields:
  assumes s: "s = pre @ fields_text fs rest" and "nosep pre" and "\<forall>g\<in>set fs. nosep g"
    and "fs \<noteq> []" and "span fs \<le> 200" and "0 < mx" "mx \<le> 255"
  shows "\<exists>out. data_conversion (Some s) (replicate mx None) mx = (int (min mx (length fs)) - 1, out) \<and>
    length out = mx \<and> (\<forall>k < min mx (length fs). points_to s (out ! k) (fs ! k)) \<and>
    (\<forall>k<mx. length fs \<le> k \<longrightarrow> out ! k = None)"
proof -
  obtain f fs' where fs: "fs = f # fs'" using assms(4) by (cases fs) auto
  let ?p = "length pre"
  have d: "drop 0 s = pre @ fields_text fs rest" "drop ?p s = fields_text fs rest" by (simp_all add: s)
  have c: "CHR '','' \<notin> set pre" "CHR ''*'' \<notin> set pre" using assms(2) by (auto simp: nosep_def sep_def)
  have "strchr_from s 0 (CHR '','') = strchr_from s (0 + ?p) (CHR '','')" by (rule strchr_after [OF d(1) c(1)])
  moreover have "strchr_from s 0 (CHR ''*'') = strchr_from s (0 + ?p) (CHR ''*'')" by (rule strchr_after [OF d(1) c(2)])
  moreover have "strchr_from s ?p (CHR '','') = Some ?p" using d(2) by (intro strchr_hit) (simp add: fs)
  moreover have "strchr_from s ?p (CHR ''*'') = Some (?p + span fs)" using assms(3) d(2) by (rule strchr_star)
  moreover obtain out where "conv_loop s (?p + span fs) mx (Some ?p) 0 (replicate mx None) =
      (min mx (length fs), out)" "length out = mx"
      "\<forall>k. k < length fs \<longrightarrow> k < mx \<longrightarrow> points_to s (out ! k) (fs ! k)"
      "\<forall>k. length fs \<le> k \<longrightarrow> out ! k = replicate mx None ! k"
    using conv_loop_fields [OF d(2) [unfolded fs] assms(3) [unfolded fs] assms(6) length_replicate]
    unfolding fs [symmetric] add_0 by blast
  moreover have "u8 (int (min mx (length fs)) - 1) = int (min mx (length fs)) - 1"
    unfolding u8_def using assms(4,6,7) by (intro take_bit_int_eq_self) (auto simp: fs)
  ultimately show ?thesis using assms(5) by (simp add: data_conversion_def MAX_NMEA_PACK_LEN_def)
qed

lemma read_section:
  assumes "k < length out" and "points_to s (out ! k) f"
  shows "atof_at s out k = Inr (strtod f)" and "atoi_at s out k = Inr (strtol f 10)"
    and "atoi_opt s out k = Inr (strtol f 10)"
    and "\<exists>c. char_at s out k = Inr c \<and> (if f = [] then sep c else c = hd f)"
proof -
  obtain q c r where q: "out ! k = Some q" "sep c" "drop q s = f @ c # r"
    using assms(2) by (auto simp: points_to_def)
  with assms(1) show "atof_at s out k = Inr (strtod f)" "atoi_at s out k = Inr (strtol f 10)"
    "atoi_opt s out k = Inr (strtol f 10)"
    by (simp_all add: atof_at_def atoi_at_def atoi_opt_def section_at_def strtod_sep strtol_sep)
  show "\<exists>c. char_at s out k = Inr c \<and> (if f = [] then sep c else c = hd f)"
    using q assms(1) by (cases f) (auto simp: char_at_def section_at_def byte_at_def)
qed

text \<open>A one-letter field, empty when the receiver has no value.\<close>

definition flag_text :: "char \<Rightarrow> char \<Rightarrow> string \<Rightarrow> int" where
  "flag_text zero one f = (if f = [] then - 1 else flag_of zero one (hd f))"

lemma read_flag:
  assumes "k < length out" and "points_to s (out ! k) f" and "\<not> sep zero" "\<not> sep one"
  shows "\<exists>c. char_at s out k = Inr c \<and> flag_of zero one c = flag_text zero one f"
proof -
  obtain c where c: "char_at s out k = Inr c" "if f = [] then sep c else c = hd f"
    using read_section(4) [OF assms(1,2)] by blast
  then have "flag_of zero one c = flag_text zero one f"
    using assms(3,4) by (cases "f = []") (auto simp: flag_of_def flag_text_def)
  with c(1) show ?thesis by blast
qed

lemma gga_fields_decoded:
  assumes "s = pre @ fields_text fs rest" and "nosep pre" and "\<forall>g\<in>set fs. nosep g"
    and "9 \<le> length fs" and "span fs \<le> 200"
  shows "parse_gga (Some s) (Some d) = Inr (True, Some (d\<lparr>g_utc_time := strtod (fs ! 0),
     g_Latitude := latitude_longitude_conversion (strtod (fs ! 1)),
     g_north_south := flag_text (CHR ''N'') (CHR ''S'') (fs ! 2),
     g_Longitude := latitude_longitude_conversion (strtod (fs ! 3)),
     g_east_west := flag_text (CHR ''E'') (CHR ''W'') (fs ! 4),
     g_sat_in_view := u8 (strtol (fs ! 6) 10), g_hdop := strtod (fs ! 7), g_altitude := strtod (fs ! 8)\<rparr>))"
proof -
  have "fs \<noteq> []" using assms(4) by auto
  then obtain out where o: "data_conversion (Some s) (replicate 14 None) 14 = (int (min 14 (length fs)) - 1, out)"
    "length out = 14" "\<forall>k < min 14 (length fs). points_to s (out ! k) (fs ! k)"
    using data_conversion_fields [OF assms(1-3) _ assms(5), of 14] by auto
  have p: "k < length out" "points_to s (out ! k) (fs ! k)" if "k < 9" for k
    using o(2,3) assms(4) that by auto
  obtain ns where ns: "char_at s out 2 = Inr ns"
      "flag_of (CHR ''N'') (CHR ''S'') ns = flag_text (CHR ''N'') (CHR ''S'') (fs ! 2)"
    using read_flag [OF p, of 2 "CHR ''N''" "CHR ''S''"] by (auto simp: sep_def)
  obtain ew where ew: "char_at s out 4 = Inr ew"
      "flag_of (CHR ''E'') (CHR ''W'') ew = flag_text (CHR ''E'') (CHR ''W'') (fs ! 4)"
    using read_flag [OF p, of 4 "CHR ''E''" "CHR ''W''"] by (auto simp: sep_def)
  show ?thesis
    using o(1) assms(4) ns ew
    by (simp add: parse_gga_def gps_limits read_section(1,2) [OF p] min_def)
qed

lemma rmc_fields_decoded:
  assumes "s = pre @ fields_text fs rest" and "nosep pre" and "\<forall>g\<in>set fs. nosep g"
    and "10 \<le> length fs" and "span fs \<le> 200"
  shows "parse_rmc (Some s) (Some d) = Inr (True, Some \<lparr>r_utc_time = strtod (fs ! 0),
     r_position_status = flag_text (CHR ''V'') (CHR ''A'') (fs ! 1),
     r_Latitude = latitude_longitude_conversion (strtod (fs ! 2)),
     r_north_south = flag_text (CHR ''N'') (CHR ''S'') (fs ! 3),
     r_Longitude = latitude_longitude_conversion (strtod (fs ! 4)),
     r_east_west = flag_text (CHR ''E'') (CHR ''W'') (fs ! 5),
     r_speed = strtod (fs ! 6), r_azimuth = strtod (fs ! 7), r_utc_date = strtod (fs ! 8)\<rparr>)"
proof -
  have "fs \<noteq> []" using assms(4) by auto
  then obtain out where o: "data_conversion (Some s) (replicate 12 None) 12 = (int (min 12 (length fs)) - 1, out)"
    "length out = 12" "\<forall>k < min 12 (length fs). points_to s (out ! k) (fs ! k)"
    using data_conversion_fields [OF assms(1-3) _ assms(5), of 12] by auto
  have p: "k < length out" "points_to s (out ! k) (fs ! k)" if "k < 10" for k
    using o(2,3) assms(4) that by auto
  obtain st where st: "char_at s out 1 = Inr st"
      "flag_of (CHR ''V'') (CHR ''A'') st = flag_text (CHR ''V'') (CHR ''A'') (fs ! 1)"
    using read_flag [OF p, of 1 "CHR ''V''" "CHR ''A''"] by (auto simp: sep_def)
  obtain ns where ns: "char_at s out 3 = Inr ns"
      "flag_of (CHR ''N'') (CHR ''S'') ns = flag_text (CHR ''N'') (CHR ''S'') (fs ! 3)"
    using read_flag [OF p, of 3 "CHR ''N''" "CHR ''S''"] by (auto simp: sep_def)
  obtain ew where ew: "char_at s out 5 = Inr ew"
      "flag_of (CHR ''E'') (CHR ''W'') ew = flag_text (CHR ''E'') (CHR ''W'') (fs ! 5)"
    using read_flag [OF p, of 5 "CHR ''E''" "CHR ''W''"] by (auto simp: sep_def)
  show ?thesis
    using o(1) assms(4) st ns ew
    by (simp add: parse_rmc_def gps_limits read_section(1,2) [OF p] min_def)
qed

text \<open>A GGA sentence with at least nine fields, cut at the commas, is decoded from the right fields:
  time, latitude, longitude and altitude with the degrees converted, the hemispheres as 0, 1 or -1 for a
  missing letter, and the number of satellites modulo 256.\<close>

theorem parse_gga_fields:
  assumes "s = pre @ fields_text fs rest" and "nosep pre" and "\<forall>g\<in>set fs. nosep g"
    and "9 \<le> length fs" and "span fs \<le> 200"
  shows "parse_gga (Some s) (Some d) = Inr (True, Some (d\<lparr>g_utc_time := strtod (fs ! 0),
     g_Latitude := latitude_longitude_conversion (strtod (fs ! 1)),
     g_north_south := flag_text (CHR ''N'') (CHR ''S'') (fs ! 2),
     g_Longitude := latitude_longitude_conversion (strtod (fs ! 3)),
     g_east_west := flag_text (CHR ''E'') (CHR ''W'') (fs ! 4),
     g_sat_in_view := u8 (strtol (fs ! 6) 10), g_hdop := strtod (fs ! 7), g_altitude := strtod (fs ! 8)\<rparr>))"
  using assms by (rule gga_fields_decoded)

text \<open>C22: an RMC sentence with at least ten fields is decoded from the right fields, the status letter as 1
  for A, 0 for V and -1 otherwise.\<close>

theorem parse_rmc_fields:
  assumes "s = pre @ fields_text fs rest" and "nosep pre" and "\<forall>g\<in>set fs. nosep g"
    and "10 \<le> length fs" and "span fs \<le> 200"
  shows "parse_rmc (Some s) (Some d) = Inr (True, Some \<lparr>r_utc_time = strtod (fs ! 0),
     r_position_status = flag_text (CHR ''V'') (CHR ''A'') (fs ! 1),
     r_Latitude = latitude_longitude_conversion (strtod (fs ! 2)),
     r_north_south = flag_text (CHR ''N'') (CHR ''S'') (fs ! 3),
     r_Longitude = latitude_longitude_conversion (strtod (fs ! 4)),
     r_east_west = flag_text (CHR ''E'') (CHR ''W'') (fs ! 5),
     r_speed = strtod (fs ! 6), r_azimuth = strtod (fs ! 7), r_utc_date = strtod (fs ! 8)\<rparr>)"
  using assms by (rule rmc_fields_decoded)

subsection \<open>Faults\<close>

lemma conv_loop_filled:
  "conv_loop s e mx ptr count out = (c, out') \<Longrightarrow> length out = mx \<Longrightarrow> count \<le> mx \<Longrightarrow>
   \<forall>k<count. out ! k \<noteq> None \<Longrightarrow>
   count \<le> c \<and> c \<le> mx \<and> length out' = mx \<and> (\<forall>k<c. out' ! k \<noteq> None)"
proof (induction s e mx ptr count out rule: conv_loop.induct)
  case (1 s e mx ptr count out)
  show ?case
  proof (cases "\<exists>p. ptr = Some p \<and> p < e \<and> count < mx")
    case True
    then obtain p where p: "ptr = Some p" "p < e" "count < mx" by blast
    define o' where "o' = out[count := Some (if byte_at s p = CHR '','' \<and> byte_at s (p + 1) = CHR '','' then p else p + 1)]"
    have "conv_loop s e mx (strchr_from s (p + 1) (CHR '','')) (count + 1) o' = (c, out')"
      using "1.prems"(1) p by (simp add: conv_loop.simps [of _ _ _ "Some p"] o'_def)
    moreover have "length o' = mx" "\<forall>k<count + 1. o' ! k \<noteq> None"
      using "1.prems" p by (auto simp: o'_def nth_list_update)
    ultimately show ?thesis using "1.IH" [OF p(1), folded o'_def] p by fastforce
  next
    case False
    then have "conv_loop s e mx ptr count out = (count, out)"
      by (auto simp: conv_loop.simps [of _ _ _ ptr] split: option.split)
    with "1.prems" show ?thesis by simp
  qed
qed

lemma conv_loop_first:
  assumes "p < e" "0 < mx" and c: "conv_loop s e mx (Some p) 0 out = (c, out')" and "length out = mx"
  shows "0 < c"
proof -
  define o' where "o' = out[0 := Some (if byte_at s p = CHR '','' \<and> byte_at s (p + 1) = CHR '','' then p else p + 1)]"
  have "conv_loop s e mx (strchr_from s (p + 1) (CHR '','')) 1 o' = (c, out')"
    using c assms(1,2) by (simp add: conv_loop.simps [of _ _ _ "Some p"] o'_def)
  from conv_loop_filled [OF this] show ?thesis using assms(2,4) by (auto simp: o'_def)
qed

lemma byte_at_strchr:
  assumes "strchr_from s 0 c = Some p"
  shows "byte_at s p = c"
proof -
  from assms have c: "c \<in> set s" "p = length (takeWhile (\<lambda>x. x \<noteq> c) s)"
    by (auto simp: strchr_from_def split: if_splits)
  then have "p < length s" by (metis (mono_tags) length_takeWhile_le nat_less_le takeWhile_eq_all_conv takeWhile_eq_take take_all_iff order_refl)
  then show ?thesis using c(2) nth_length_takeWhile [of "\<lambda>x. x \<noteq> c" s] by (simp add: byte_at_def)
qed

text \<open>The asterisk comes before the first comma.\<close>

definition star_first :: "string \<Rightarrow> bool" where
  "star_first s \<longleftrightarrow>
     (case (strchr_from s 0 (CHR '',''), strchr_from s 0 (CHR ''*'')) of
        (Some p, Some e) \<Rightarrow> e < p
      | _ \<Rightarrow> False)"

lemma data_conversion_cases:
  assumes "0 < mx" "mx \<le> 255"
  obtains (star) "star_first s" "data_conversion (Some s) (replicate mx None) mx = (255, replicate mx None)"
  | (fill) n out where "\<not> star_first s" "data_conversion (Some s) (replicate mx None) mx = (int n, out)"
      "length out = mx" "n < mx" "\<forall>k\<le>n. n = 0 \<or> out ! k \<noteq> None"
proof (cases "strchr_from s 0 (CHR '','') = None \<or> strchr_from s 0 (CHR ''*'') = None")
  case True
  then show thesis
    using assms by (intro fill [of 0 "replicate mx None"]) (auto simp: star_first_def data_conversion_def split: option.splits)
next
  case False
  then obtain p e where pe: "strchr_from s 0 (CHR '','') = Some p" "strchr_from s 0 (CHR ''*'') = Some e" by auto
  then have "p \<noteq> e" using byte_at_strchr [OF pe(1)] byte_at_strchr [OF pe(2)] by auto
  show thesis
  proof (cases "p < e")
    case True
    obtain c out where c: "conv_loop s e mx (Some p) 0 (replicate mx None) = (c, out)" by fastforce
    with conv_loop_first [OF True assms(1) c] have "0 < c" by simp
    moreover have "c \<le> mx \<and> length out = mx \<and> (\<forall>k<c. out ! k \<noteq> None)"
      using conv_loop_filled [OF c] by simp
    moreover have "u8 (int c - 1) = int (c - 1)"
      unfolding u8_def using calculation assms(2) by (subst take_bit_int_eq_self) auto
    ultimately have f: "0 < c" "c \<le> mx" "length out = mx" "\<forall>k<c. out ! k \<noteq> None" "u8 (int c - 1) = int (c - 1)"
      by auto
    show thesis
    proof (cases "int e - int p > MAX_NMEA_PACK_LEN")
      case True
      with pe assms \<open>p < e\<close> show thesis
        by (intro fill [of 0 "replicate mx None"]) (auto simp: star_first_def data_conversion_def)
    next
      case False
      with pe f c \<open>p < e\<close> show thesis
        by (intro fill [of "c - 1" out]) (auto simp: star_first_def data_conversion_def)
    qed
  next
    case False
    with \<open>p \<noteq> e\<close> have "e < p" by simp
    moreover have "u8 (- 1) = 255" by (simp add: u8_def take_bit_eq_mod)
    ultimately show thesis
      using pe by (intro star) (simp_all add: star_first_def data_conversion_def conv_loop.simps MAX_NMEA_PACK_LEN_def)
  qed
qed

lemma sections_readable:
  assumes "k < length out" and "out ! k \<noteq> None"
  shows "atof_at s out k = Inr (strtod (drop (the (out ! k)) s))"
    and "atoi_at s out k = Inr (strtol (drop (the (out ! k)) s) 10)"
    and "char_at s out k = Inr (byte_at (drop (the (out ! k)) s) 0)"
  using assms by (auto simp: atof_at_def atoi_at_def char_at_def section_at_def)

text \<open>The GGA and the RMC parser dereference a null section pointer exactly when an asterisk comes
  before the first comma: \<open>data_conversion\<close> then returns -1 as 255, which passes the test for enough fields.\<close>

theorem star_first_faults:
  "(parse_gga (Some s) (Some d) = Inl e \<longleftrightarrow> star_first s \<and> e = Null_pointer) \<and>
   (parse_rmc (Some s) (Some r) = Inl e \<longleftrightarrow> star_first s \<and> e = Null_pointer)"
proof -
  have null: "atof_at s (replicate m None) 0 = Inl Null_pointer" if "0 < m" for m
    using that by (simp add: atof_at_def section_at_def)
  have g: "if star_first s then parse_gga (Some s) (Some d) = Inl Null_pointer
    else \<exists>x. parse_gga (Some s) (Some d) = Inr x"
  proof (rule data_conversion_cases [of 14 s])
    fix n out
    assume fill: "\<not> star_first s" "data_conversion (Some s) (replicate 14 None) 14 = (int n, out)"
      "length out = 14" "n < 14" "\<forall>k\<le>n. n = 0 \<or> out ! k \<noteq> None"
    show ?thesis
    proof (cases "8 \<le> n")
      case True
      have "k < length out" "out ! k \<noteq> None" if "k \<le> 8" for k using that fill True by auto
      note rd = sections_readable [OF this]
      show ?thesis using fill(1,2) True by (auto simp: parse_gga_def gps_limits rd)
    qed (use fill(1,2) in \<open>auto simp: parse_gga_def gps_limits\<close>)
  qed (simp_all add: parse_gga_def gps_limits null)
  have m: "if star_first s then parse_rmc (Some s) (Some r) = Inl Null_pointer
    else \<exists>x. parse_rmc (Some s) (Some r) = Inr x"
  proof (rule data_conversion_cases [of 12 s])
    fix n out
    assume fill: "\<not> star_first s" "data_conversion (Some s) (replicate 12 None) 12 = (int n, out)"
      "length out = 12" "n < 12" "\<forall>k\<le>n. n = 0 \<or> out ! k \<noteq> None"
    show ?thesis
    proof (cases "9 \<le> n")
      case True
      have "k < length out" "out ! k \<noteq> None" if "k \<le> 8" for k using that fill True by auto
      note rd = sections_readable [OF this]
      show ?thesis using fill(1,2) True by (auto simp: parse_rmc_def gps_limits rd)
    qed (use fill(1,2) in \<open>auto simp: parse_rmc_def gps_limits\<close>)
  qed (simp_all add: parse_rmc_def gps_limits null)
  from g m show ?thesis by (auto split: if_splits)
qed

subsection \<open>Satellites in view\<close>

text \<open>The satellite whose four numbers start at section \<open>i\<close>.\<close>

definition sat_from :: "(nat \<Rightarrow> int) \<Rightarrow> nat \<Rightarrow> NMEA_GSV_SATELITES" where
  "sat_from num i = \<lparr>prn = u8 (num i), elevation = u8 (num (i + 1)), azimuth = i16 (num (i + 2)),
     cnr = u8 (num (i + 3))\<rparr>"

lemma gsv_loop_spec:
  assumes "\<And>k. k < 19 \<Longrightarrow> atoi_opt s sec k = Inr (num k)" and "n \<le> 18" "i mod 4 = 3" "length view = 40"
  shows "\<exists>view'. gsv_loop s sec n i c view = Inr view' \<and> length view' = 40 \<and>
    (\<forall>j<40. view' ! j = (if c \<le> j \<and> i + 4 * (j - c) < n then sat_from num (i + 4 * (j - c)) else view ! j))"
  using assms(3,4)
proof (induction "n - i" arbitrary: i c view rule: less_induct)
  case less
  show ?case
  proof (cases "i < n \<and> c < 40")
    case True
    then have "i \<noteq> 16" "i \<noteq> 17" "i < 18" using less.prems(1) assms(2) by auto
    then have i: "i + 3 < 19" by simp
    let ?v = "view[c := sat_from num i]"
    have g: "gsv_loop s sec n i c view = gsv_loop s sec n (i + 4) (c + 1) ?v"
      using True i less.prems(2)
      by (simp add: gsv_loop.simps [of _ _ _ i] GPS_NMEA_MAX_SVVIEW_def assms(1) sat_from_def)
    have "n - (i + 4) < n - i" "(i + 4) mod 4 = 3" "length ?v = 40" using True less.prems by auto
    from less.hyps [OF this, of "c + 1"]
    obtain view' where v: "gsv_loop s sec n (i + 4) (c + 1) ?v = Inr view'" "length view' = 40"
      "\<forall>j<40. view' ! j = (if c + 1 \<le> j \<and> i + 4 + 4 * (j - (c + 1)) < n
         then sat_from num (i + 4 + 4 * (j - (c + 1))) else ?v ! j)"
      by blast
    have "view' ! j = (if c \<le> j \<and> i + 4 * (j - c) < n then sat_from num (i + 4 * (j - c)) else view ! j)"
      if "j < 40" for j
    proof (cases "c + 1 \<le> j")
      case True
      then have "i + 4 + 4 * (j - (c + 1)) = i + 4 * (j - c)" by simp
      with v(3) that True show ?thesis by (simp only:) (simp add: nth_list_update)
    next
      case False
      with v(3) that \<open>i < n \<and> c < 40\<close> less.prems(2) show ?thesis by (auto simp: nth_list_update)
    qed
    with v g show ?thesis by auto
  next
    case False
    then show ?thesis using less.prems(2) by (auto simp: gsv_loop.simps [of _ _ _ i] GPS_NMEA_MAX_SVVIEW_def)
  qed
qed

lemma zero_gsv_length [simp]: "length (rsv zero_gsv) = 40"
  by (simp add: zero_gsv_def GPS_NMEA_MAX_SVVIEW_def)

lemma atoi_opt_total: "length sec = 19 \<Longrightarrow> k < 19 \<Longrightarrow>
    atoi_opt s sec k = Inr (case sec ! k of None \<Rightarrow> 0 | Some p \<Rightarrow> strtol (drop p s) 10)"
  by (simp add: atoi_opt_def)

lemma gsv_returns:
  assumes "length (rsv v) = 40"
  shows "\<exists>ok v'. parse_gsv (Some s) (Some v) = Inr (ok, Some v') \<and> length (rsv v') = 40"
proof (rule data_conversion_cases [of 19 s])
  assume "star_first s" "data_conversion (Some s) (replicate 19 None) 19 = (255, replicate 19 None)"
  then show ?thesis using assms by (auto simp: parse_gsv_def gps_limits)
next
  fix n out
  assume f: "\<not> star_first s" "data_conversion (Some s) (replicate 19 None) 19 = (int n, out)"
    "length out = 19" "n < 19" "\<forall>k\<le>n. n = 0 \<or> out ! k \<noteq> None"
  show ?thesis
  proof (cases "7 \<le> n")
    case True
    then have nn: "k < length out" "out ! k \<noteq> None" if "k \<le> 2" for k using that f(3,5) by auto
    obtain q where q: "out ! 2 = Some q" using nn [of 2] by auto
    have ok: "\<exists>view'. gsv_loop s out n 3 c w = Inr view' \<and> length view' = 40" if "length w = 40" for c w
      using gsv_loop_spec [OF atoi_opt_total [OF f(3)], where n = n and i = 3 and view = w and c = c] f(4) that by auto
    define sv where "sv c w = (case gsv_loop s out n 3 c w of Inl e \<Rightarrow> [] | Inr v \<Rightarrow> v)" for c w
    have sv: "gsv_loop s out n 3 c w = Inr (sv c w) \<and> length (sv c w) = 40" if "length w = 40" for c w
      using ok [OF that, of c] by (auto simp: sv_def)
    show ?thesis
      using f(2) True assms nn [of 0] nn [of 1] q
      by (auto simp: parse_gsv_def gps_limits sections_readable Let_def sv)
  qed (use f(2) assms in \<open>auto simp: parse_gsv_def gps_limits\<close>)
qed simp_all

text \<open>On every input string the GSV parser returns: it never reads a null section pointer, a section
  outside the array or a satellite outside the view of forty entries.\<close>

theorem parse_gsv_safe:
  assumes "length (rsv v) = 40"
  shows "\<exists>ok v'. parse_gsv (Some s) (Some v) = Inr (ok, Some v') \<and> length (rsv v') = 40"
  using assms by (rule gsv_returns)

text \<open>The number in section \<open>k\<close>; a section past the last one is a null pointer and reads as 0.\<close>

definition sec_num :: "string list \<Rightarrow> nat \<Rightarrow> int" where
  "sec_num fs k = (if k < min 19 (length fs) then strtol (fs ! k) 10 else 0)"

text \<open>A GSV sentence of at least eight fields whose message number is not zero modulo 256 fills the
  view: the satellites, four fields each, are stored from entry \<open>4 * (message - 1)\<close> modulo 256 on, entries
  outside are kept, the first message of a cycle clears the view before, and the result is true when the
  message number is at most the total.\<close>

theorem parse_gsv_fields:
  assumes "s = pre @ fields_text fs rest" and "nosep pre" and "\<forall>g\<in>set fs. nosep g"
    and "8 \<le> length fs" and "span fs \<le> 200" and "length (rsv v) = 40"
    and cur: "cur = u8 (strtol (fs ! 1) 10)" "1 \<le> cur"
  shows "\<exists>view. parse_gsv (Some s) (Some v) = Inr (cur \<le> u8 (strtol (fs ! 0) 10),
       Some \<lparr>sates_in_view = i16 (strtol (fs ! 2) 10), rsv = view\<rparr>) \<and> length view = 40 \<and>
    (\<forall>j<40. view ! j =
       (let first = nat (u8 ((cur - 1) * 4)); i = 3 + 4 * (j - first)
        in if first \<le> j \<and> i < min 19 (length fs) - 1 then sat_from (sec_num fs) i
           else if cur = 1 then rsv zero_gsv ! j else rsv v ! j))"
proof -
  have "fs \<noteq> []" using assms(4) by auto
  then obtain out where o: "data_conversion (Some s) (replicate 19 None) 19 = (int (min 19 (length fs)) - 1, out)"
    "length out = 19" "\<forall>k < min 19 (length fs). points_to s (out ! k) (fs ! k)"
    "\<forall>k<19. length fs \<le> k \<longrightarrow> out ! k = None"
    using data_conversion_fields [OF assms(1-3) _ assms(5), of 19] by auto
  let ?n = "min 19 (length fs) - 1" and ?first = "nat (u8 ((cur - 1) * 4))"
  define w where "w = (if cur = 1 then rsv zero_gsv else rsv v)"
  have num: "atoi_opt s out k = Inr (sec_num fs k)" if "k < 19" for k
  proof (cases "k < length fs")
    case True
    then show ?thesis using that o(2,3) by (simp add: read_section(3) sec_num_def)
  next
    case False
    then show ?thesis using that o(2,4) by (simp add: atoi_opt_def sec_num_def)
  qed
  have len: "length w = 40" "?n \<le> 18" "3 mod 4 = (3 :: nat)" using assms(6) by (auto simp: w_def)
  obtain view where v: "gsv_loop s out ?n 3 ?first w = Inr view" "length view = 40"
    "\<forall>j<40. view ! j = (if ?first \<le> j \<and> 3 + 4 * (j - ?first) < ?n
      then sat_from (sec_num fs) (3 + 4 * (j - ?first)) else w ! j)"
    using gsv_loop_spec [OF num len(2,3,1), where c = ?first] by blast
  have p: "k < length out" "points_to s (out ! k) (fs ! k)" if "k < 8" for k
    using o(2,3) assms(4) that by auto
  have nn: "out ! 0 \<noteq> None" "out ! 1 \<noteq> None" using p(2) [of 0] p(2) [of 1] by (auto simp: points_to_def)
  obtain q where q: "out ! 2 = Some q" "strtol (drop q s) 10 = strtol (fs ! 2) 10"
    using p(2) [of 2] by (auto simp: points_to_def strtol_sep)
  have "nat (int (min 19 (length fs)) - 1) = ?n" by simp
  then have "parse_gsv (Some s) (Some v) = Inr (cur \<le> u8 (strtol (fs ! 0) 10),
       Some \<lparr>sates_in_view = i16 (strtol (fs ! 2) 10), rsv = view\<rparr>)"
    using o(1) assms(4) nn q v(1) cur read_section(2) [OF p, of 0] read_section(2) [OF p, of 1]
    by (cases "cur = 1") (auto simp: parse_gsv_def gps_limits Let_def w_def not_less)
  with v(2,3) show ?thesis unfolding Let_def w_def by (intro exI [of _ view]) (auto split: if_splits)
qed

subsection \<open>Degrees and seconds\<close>

text \<open>The conversion of \<open>ddmm.mmmm\<close> to degrees in the application and \<open>nmea_ndeg2degree\<close> of the library
  compute the same value.\<close>

theorem latlon_equiv: "latitude_longitude_conversion x = nmea_ndeg2degree x"
  by (simp add: latitude_longitude_conversion_def nmea_ndeg2degree_def Let_def field_simps)

lemma to_int_of_nat_add: "0 \<le> x \<Longrightarrow> x < 1 \<Longrightarrow> int n \<le> INT_MAX \<Longrightarrow> to_int (of_nat n + x) = int n"
proof -
  assume x: "0 \<le> x" "x < 1" "int n \<le> INT_MAX"
  then have "\<lfloor>of_nat n + x\<rfloor> = int n" by (simp add: floor_eq_iff)
  with x show ?thesis by (simp add: to_int_def)
qed

lemma smod_nat: "int a smod int b = int (a mod b)" and sdiv_nat: "int a sdiv int b = int (a div b)"
  by (cases "a = 0"; cases "b = 0"; simp add: signed_modulo_int_def signed_divide_int_def sgn_mult zmod_int zdiv_int)+

lemma decimal:
  fixes a b c :: nat
  assumes "b < 100" "c < 100"
  shows "(a * 10000 + b * 100 + c) mod 100 = c" "(a * 100 + b) mod 100 = b" "(a * 10000 + b * 100 + c) div 10000 = a"
proof -
  have "a * 10000 + b * 100 + c = (a * 100 + b) * 100 + c" by simp
  then show "(a * 10000 + b * 100 + c) mod 100 = c" using assms(2) by (simp only: mod_mult_self3 mod_less)
  show "(a * 100 + b) mod 100 = b" using assms(1) by (simp only: mod_mult_self3 mod_less)
  have "b * 100 + c < 10000" using assms by simp
  then have "(a * 10000 + (b * 100 + c)) div 10000 = a" by simp
  then show "(a * 10000 + b * 100 + c) div 10000 = a" by (simp only: add.assoc)
qed

text \<open>\<open>convert_seconds\<close> splits a date written \<open>ddmmyy\<close> (its parameter is called \<open>yymmdd\<close>) and a time
  \<open>hhmmss.fff\<close> into their parts, years counted from 2000, months from 0.\<close>

theorem convert_seconds_split:
  assumes "day < 100" "mon < 100" "yr < 100" and "h < 100" "m < 100" "sec < 100" and "0 \<le> ms" "ms < 1"
  shows "convert_seconds mktime (of_nat (day * 10000 + mon * 100 + yr)) (of_nat (h * 10000 + m * 100 + sec) + ms) =
    of_int (mktime (int yr + 100) (int mon - 1) (int day) (int h) (int m) (int sec)) + ms"
proof -
  have q: "to_int ((of_nat (a * 10000 + b * 100 + c) + f) / 100) = int (a * 100 + b)"
    if "a < 100" "b < 100" "c < 100" "0 \<le> f" "f < 1" for a b c :: nat and f :: real
  proof -
    have "(of_nat (a * 10000 + b * 100 + c) + f) / 100 = of_nat (a * 100 + b) + (of_nat c + f) / 100"
      by (simp add: field_simps)
    moreover have "real c + f < 100" using that by linarith
    ultimately show ?thesis using that by (simp only:) (intro to_int_of_nat_add, auto)
  qed
  have w: "to_int (of_nat (a * 10000 + b * 100 + c) + f) = int (a * 10000 + b * 100 + c)"
    if "a < 100" "b < 100" "c < 100" "0 \<le> f" "f < 1" for a b c :: nat and f :: real
    using that by (intro to_int_of_nat_add) auto
  have "split_time (of_nat (day * 10000 + mon * 100 + yr)) (of_nat (h * 10000 + m * 100 + sec) + ms) =
    \<lparr>gt_msec = ms, gt_sec = int sec, gt_min = int m, gt_hour = int h, gt_mday = int day,
     gt_mon = int mon - 1, gt_year = int yr + 100\<rparr>"
    unfolding split_time_def q [OF assms(4-8)] q [OF assms(1-3) order_refl zero_less_one, unfolded add_0_right]
      w [OF assms(4-8)] w [OF assms(1-3) order_refl zero_less_one, unfolded add_0_right]
      smod_nat [of _ 100, unfolded of_nat_numeral] sdiv_nat [of _ 10000, unfolded of_nat_numeral]
      decimal [OF assms(2,3)] decimal [OF assms(5,6)]
    by simp
  then show ?thesis by (simp add: convert_seconds_def)
qed

subsection \<open>The shell command\<close>

text \<open>The sentences of the shell command, from the first comma on.\<close>

definition gga_example :: "string list" where
  "gga_example = [''014423.00'', ''2930.34347'', ''N'', ''10634.36892'', ''E'', ''2'', ''12'', ''1.00'', ''245.4'',
     ''M'', ''-26.5'', ''M'', [], ''0000'']"

definition rmc_example :: "string list" where
  "rmc_example = [''014419.00'', ''A'', ''2930.34343'', ''N'', ''10634.36893'', ''E'', ''0.000'', ''354.29'',
     ''020221'', ''2.60'', ''W'', ''D'']"

definition gsv_example :: "string list" where
  "gsv_example = [''1'', ''1'', ''01'', ''01'', [], [], ''41'', ''1'']"

definition zero_gga :: NMEA_GGA where
  "zero_gga = \<lparr>g_utc_time = 0, g_Latitude = 0, g_north_south = 0, g_Longitude = 0, g_east_west = 0,
     g_position_status = 0, g_sat_in_view = 0, g_hdop = 0, g_altitude = 0\<rparr>"

definition zero_rmc :: NMEA_RMC where
  "zero_rmc = \<lparr>r_utc_time = 0, r_position_status = 0, r_Latitude = 0, r_north_south = 0, r_Longitude = 0,
     r_east_west = 0, r_speed = 0, r_azimuth = 0, r_utc_date = 0\<rparr>"

text \<open>The shell command decodes its three sentences without a fault: the position of the RMC sentence and
  of the GGA sentence end up in the global record in degrees, north and east, with a valid status and
  twelve satellites.\<close>

theorem gps_command_result:
  assumes "length (rsv (np_gsv g)) = 40"
  shows "\<exists>g'. gps_ospi_parse_nmea g = Inr g' \<and> np_epe g' = np_epe g \<and> length (rsv (np_gsv g')) = 40 \<and>
    r_Latitude (np_rmc g') = latitude_longitude_conversion (strtod ''2930.34343'') \<and>
    r_position_status (np_rmc g') = 1 \<and>
    g_Latitude (np_gga g') = latitude_longitude_conversion (strtod ''2930.34347'') \<and>
    g_north_south (np_gga g') = 0 \<and> g_east_west (np_gga g') = 0 \<and> g_sat_in_view (np_gga g') = 12"
proof -
  have r: "parse_rmc (Some (drop 3 (drop 3 ''$GNRMC,014419.00,A,2930.34343,N,10634.36893,E,0.000,354.29,020221,2.60,W,D*37'' @ [CR, LF]))) (Some d) =
      Inr (True, Some (d'))" if "d' = \<lparr>r_utc_time = strtod (rmc_example ! 0),
     r_position_status = flag_text (CHR ''V'') (CHR ''A'') (rmc_example ! 1),
     r_Latitude = latitude_longitude_conversion (strtod (rmc_example ! 2)),
     r_north_south = flag_text (CHR ''N'') (CHR ''S'') (rmc_example ! 3),
     r_Longitude = latitude_longitude_conversion (strtod (rmc_example ! 4)),
     r_east_west = flag_text (CHR ''E'') (CHR ''W'') (rmc_example ! 5),
     r_speed = strtod (rmc_example ! 6), r_azimuth = strtod (rmc_example ! 7), r_utc_date = strtod (rmc_example ! 8)\<rparr>" for d d'
    unfolding that by (rule rmc_fields_decoded [of _ "[]" _ "''37'' @ [CR, LF]"])
      (simp_all add: rmc_example_def nosep_def sep_def)
  obtain ok v where v: "parse_gsv (Some (drop 3 (drop 3 ''$GPGSV,1,1,01,01,,,41,1*61'' @ [CR, LF]))) (Some (np_gsv g)) =
      Inr (ok, Some v)" "length (rsv v) = 40"
    using gsv_returns [OF assms] by blast
  note gg = gga_fields_decoded [of "drop 3 (drop 3 ''$GNGGA,014423.00,2930.34347,N,10634.36892,E,2,12,1.00,245.4,M,-26.5,M,,0000*61'' @ [CR, LF])"
      "[]" gga_example "''61'' @ [CR, LF]" "np_gga g"]
  show ?thesis
    unfolding gps_ospi_parse_nmea_def Let_def
    using v gg r [OF refl, of "np_rmc g"]
    by (simp add: gga_example_def rmc_example_def nosep_def sep_def flag_text_def flag_of_def u8_def strtol_def
      digits_val_def is_dig_def dval_def digit_val_def isspace_def take_bit_eq_mod)
qed

subsection \<open>Witnesses\<close>

theorem gps_command_result_witness:
  "\<exists>g'. gps_ospi_parse_nmea \<lparr>np_gga = zero_gga, np_rmc = zero_rmc, np_gsv = zero_gsv,
      np_epe = \<lparr>hacc = 0, vacc = 0, checksum = 0\<rparr>\<rparr> = Inr g' \<and> g_sat_in_view (np_gga g') = 12"
  using gps_command_result [of "\<lparr>np_gga = zero_gga, np_rmc = zero_rmc, np_gsv = zero_gsv,
      np_epe = \<lparr>hacc = 0, vacc = 0, checksum = 0\<rparr>\<rparr>"] by auto

theorem parse_gga_fields_witness:
  "\<exists>d. parse_gga (Some (fields_text gga_example ''61'')) (Some zero_gga) = Inr (True, Some d) \<and>
     g_north_south d = 0 \<and> g_east_west d = 0 \<and> g_sat_in_view d = 12 \<and> g_position_status d = 0"
  using parse_gga_fields [of "fields_text gga_example ''61''" "[]" gga_example "''61''" zero_gga]
  by (simp add: gga_example_def nosep_def sep_def flag_text_def flag_of_def u8_def zero_gga_def strtol_def
    digits_val_def is_dig_def dval_def digit_val_def isspace_def take_bit_eq_mod)

theorem parse_rmc_fields_witness:
  "\<exists>d. parse_rmc (Some (fields_text rmc_example ''37'')) (Some zero_rmc) = Inr (True, Some d) \<and>
     r_position_status d = 1 \<and> r_north_south d = 0 \<and> r_east_west d = 0"
  using parse_rmc_fields [of "fields_text rmc_example ''37''" "[]" rmc_example "''37''" zero_rmc]
  by (simp add: rmc_example_def nosep_def sep_def flag_text_def flag_of_def)

theorem parse_gsv_safe_witness:
  "\<exists>ok v'. parse_gsv (Some ''*,'') (Some zero_gsv) = Inr (ok, Some v') \<and> length (rsv v') = 40"
  by (rule parse_gsv_safe) simp

theorem parse_gsv_fields_witness:
  "\<exists>v. parse_gsv (Some (fields_text gsv_example ''61'')) (Some zero_gsv) = Inr (True, Some v) \<and>
     sates_in_view v = 1 \<and> prn (rsv v ! 0) = 1 \<and> cnr (rsv v ! 0) = 41"
  using parse_gsv_fields [of "fields_text gsv_example ''61''" "[]" gsv_example "''61''" zero_gsv 1]
  by (auto simp: gsv_example_def nosep_def sep_def u8_def i16_def strtol_def Let_def sec_num_def sat_from_def
    digits_val_def is_dig_def dval_def digit_val_def isspace_def take_bit_eq_mod signed_take_bit_eq_if_positive)

theorem convert_seconds_split_witness:
  "convert_seconds (\<lambda>y mo d h mi s. ((y * 400 + mo * 31 + d) * 24 + h) * 3600 + mi * 60 + s)
     (of_nat (2 * 10000 + 2 * 100 + 21)) (of_nat (1 * 10000 + 44 * 100 + 19) + 1 / 4) =
   of_int (((((int 21 + 100) * 400 + (int 2 - 1) * 31 + int 2) * 24 + int 1) * 3600) + int 44 * 60 + int 19) + 1 / 4"
  by (rule convert_seconds_split) simp_all

end
