(* ===== verification/Nmea_Board.thy ===== *)
theory Nmea_Board
  imports Nmea_Satellites Rt_Def
begin

text \<open>
  The rearranged sentence parsers of the board application (\<open>stm32l475_nmealib/applications/nmea/nmea_parse.c\<close>):
  null pointers are refused, the time buffer starts out zeroed, and the result is an error code of the kernel.
  \<open>nmea_scanf\<close>, \<open>nmea_atoi\<close> and \<open>nmea_atof\<close> are the same functions as in the simulator's library, so their model is
  that of \<open>Nmea_Tok\<close>.  An argument is \<open>None\<close> for the null pointer; the packet that the caller passes in is the
  packet the function leaves behind when it returns before the \<open>rt_memset\<close>.
\<close>

subsection \<open>The parsers\<close>

definition board_parse_time :: "string option \<Rightarrow> nmea_time \<Rightarrow> int \<times> nmea_time" where
  "board_parse_time buff0 res =
     (case buff0 of
        None \<Rightarrow> (- RT_ERROR, res)
      | Some buff \<Rightarrow>
          if length buff = 6 then
            (let (n, st) = nmea_scanf buff ''%2d%2d%2d'' (map Some [0, 1, 2])
             in (if n = 3 then RT_EOK else - RT_ERROR,
                 res\<lparr>t_hour := upd_time st 0 (t_hour res), t_min := upd_time st 1 (t_min res),
                     t_sec := upd_time st 2 (t_sec res)\<rparr>))
          else if length buff = 8 \<or> length buff = 9 \<or> length buff = 10 then
            (let (n, st) = nmea_scanf buff ''%2d%2d%2d.%d'' (map Some [0, 1, 2, 3])
             in (if n = 4 then RT_EOK else - RT_ERROR,
                 res\<lparr>t_hour := upd_time st 0 (t_hour res), t_min := upd_time st 1 (t_min res),
                     t_sec := upd_time st 2 (t_sec res), t_hsec := upd_time st 3 (t_hsec res)\<rparr>))
          else (- RT_ERROR, res))"

text \<open>\<open>char time_buff[NMEA_TIMEPARSE_BUF] = { 0 }\<close>\<close>

definition zero_buff :: string where
  "zero_buff = replicate NMEA_TIMEPARSE_BUF NUL"

definition board_parse_gga :: "string option \<Rightarrow> nmea_gga option \<Rightarrow> (int \<times> nmea_gga option) result" where
  "board_parse_gga buff0 pack0 =
     (case (buff0, pack0) of
        (Some buff, Some _) \<Rightarrow>
          (let (n, st) = nmea_scanf buff ''$GPGGA,%s,%f,%C,%f,%C,%d,%d,%f,%f,%C,%f,%C,%f,%d*''
                           (map Some [0, 1, 2, 3, 4, 5, 6, 7, 8, 9, 10, 11, 12, 13::nat]);
               pack = \<lparr>gga_utc = zero_time,
                       gga_lat = ld_dbl st 1, gga_ns = ld_chr st 2,
                       gga_lon = ld_dbl st 3, gga_ew = ld_chr st 4,
                       gga_sig = ld_int st 5, gga_satinuse = ld_int st 6,
                       gga_HDOP = ld_dbl st 7, gga_elv = ld_dbl st 8, gga_elv_units = ld_chr st 9,
                       gga_diff = ld_dbl st 10, gga_diff_units = ld_chr st 11,
                       gga_dgps_age = ld_dbl st 12, gga_dgps_sid = ld_int st 13\<rparr>
           in if \<not> time_store_ok (st 0) then Inl Stack_overflow
              else if n \<noteq> 14 then Inr (- RT_ERROR, Some pack)
              else
                bindR (time_text zero_buff (st 0))
                  (\<lambda>tm. let (r, utc) = board_parse_time (Some tm) (gga_utc pack); pack' = pack\<lparr>gga_utc := utc\<rparr>
                        in Inr (if r \<noteq> 0 then - RT_ERROR else RT_EOK, Some pack')))
      | _ \<Rightarrow> Inr (- RT_ERROR, pack0))"

definition board_parse_gsa :: "string option \<Rightarrow> nmea_gsa option \<Rightarrow> int \<times> nmea_gsa option" where
  "board_parse_gsa buff0 pack0 =
     (case (buff0, pack0) of
        (Some buff, Some _) \<Rightarrow>
          (let (n, st) = nmea_scanf buff ''$GPGSA,%C,%d,%d,%d,%d,%d,%d,%d,%d,%d,%d,%d,%d,%d,%f,%f,%f*''
                           (map Some [0, 1, 2, 3, 4, 5, 6, 7, 8, 9, 10, 11, 12, 13, 14, 15, 16::nat]);
               pack = \<lparr>gsa_fix_mode = ld_chr st 0, gsa_fix_type = ld_int st 1,
                       gsa_sat_prn = map (ld_int st) [2, 3, 4, 5, 6, 7, 8, 9, 10, 11, 12, 13],
                       gsa_PDOP = ld_dbl st 14, gsa_HDOP = ld_dbl st 15, gsa_VDOP = ld_dbl st 16\<rparr>
           in (if n \<noteq> 17 then - RT_ERROR else RT_EOK, Some pack))
      | _ \<Rightarrow> (- RT_ERROR, pack0))"

definition board_parse_gsv :: "string option \<Rightarrow> nmea_gsv option \<Rightarrow> int \<times> nmea_gsv option" where
  "board_parse_gsv buff0 pack0 =
     (case (buff0, pack0) of
        (Some buff, Some _) \<Rightarrow>
          (let (nsen, st) = nmea_scanf buff
                 (''$GPGSV,%d,%d,%d,'' @ ''%d,%d,%d,%d,'' @ ''%d,%d,%d,%d,'' @ ''%d,%d,%d,%d,'' @ ''%d,%d,%d,%d*'')
                 (map Some [0, 1, 2, 3, 4, 5, 6, 7, 8, 9, 10, 11, 12, 13, 14, 15, 16, 17, 18::nat]);
               pack = \<lparr>gsv_pack_count = ld_int st 0, gsv_pack_index = ld_int st 1, gsv_sat_count = ld_int st 2,
                       gsv_sat_data = map (gsv_sat st) [3, 7, 11, 15]\<rparr>;
               nsat1 = wrap32 (wrap32 (gsv_pack_index pack - 1) * 4);
               nsat2 = (if wrap32 (nsat1 + 4) > gsv_sat_count pack then wrap32 (gsv_sat_count pack - nsat1) else 4);
               nsat = wrap32 (wrap32 (nsat2 * 4) + 3)
           in (if int nsen < nsat \<or> int nsen > 19 then - RT_ERROR else RT_EOK, Some pack))
      | _ \<Rightarrow> (- RT_ERROR, pack0))"

definition board_parse_rmc :: "string option \<Rightarrow> nmea_rmc option \<Rightarrow> (int \<times> nmea_rmc option) result" where
  "board_parse_rmc buff0 pack0 =
     (case (buff0, pack0) of
        (Some buff, Some _) \<Rightarrow>
          (let (nsen, st) = nmea_scanf buff ''$GPRMC,%s,%C,%f,%C,%f,%C,%f,%f,%2d%2d%2d,%f,%C,%C*''
                 (map Some [0, 1, 2, 3, 4, 5, 6, 7, 8, 9, 10, 11, 12, 13::nat]);
               pack = \<lparr>rmc_utc = zero_time\<lparr>t_day := ld_int st 8, t_mon := ld_int st 9, t_year := ld_int st 10\<rparr>,
                       rmc_status = ld_chr st 1,
                       rmc_lat = ld_dbl st 2, rmc_ns = ld_chr st 3,
                       rmc_lon = ld_dbl st 4, rmc_ew = ld_chr st 5,
                       rmc_speed = ld_dbl st 6, rmc_direction = ld_dbl st 7,
                       rmc_declination = ld_dbl st 11, rmc_declin_ew = ld_chr st 12,
                       rmc_mode = ld_chr st 13\<rparr>
           in if \<not> time_store_ok (st 0) then Inl Stack_overflow
              else if nsen \<noteq> 13 \<and> nsen \<noteq> 14 then Inr (- RT_ERROR, Some pack)
              else
                bindR (time_text zero_buff (st 0))
                  (\<lambda>tm. let (r, utc) = board_parse_time (Some tm) (rmc_utc pack); pack' = pack\<lparr>rmc_utc := utc\<rparr>
                        in if r \<noteq> 0 then Inr (- RT_ERROR, Some pack')
                           else
                             (let utc1 = (if t_year utc < 90 then utc\<lparr>t_year := t_year utc + 100\<rparr> else utc);
                                  utc2 = utc1\<lparr>t_mon := wrap32 (t_mon utc1 - 1)\<rparr>
                              in Inr (RT_EOK, Some (pack'\<lparr>rmc_utc := utc2\<rparr>)))))
      | _ \<Rightarrow> Inr (- RT_ERROR, pack0))"

definition board_parse_vtg :: "string option \<Rightarrow> nmea_vtg option \<Rightarrow> int \<times> nmea_vtg option" where
  "board_parse_vtg buff0 pack0 =
     (case (buff0, pack0) of
        (Some buff, Some _) \<Rightarrow>
          (let (n, st) = nmea_scanf buff ''$GPVTG,%f,%C,%f,%C,%f,%C,%f,%C*'' (map Some [0, 1, 2, 3, 4, 5, 6, 7::nat]);
               pack = \<lparr>vtg_dir = ld_dbl st 0, vtg_dir_t = ld_chr st 1,
                       vtg_dec = ld_dbl st 2, vtg_dec_m = ld_chr st 3,
                       vtg_spn = ld_dbl st 4, vtg_spn_n = ld_chr st 5,
                       vtg_spk = ld_dbl st 6, vtg_spk_k = ld_chr st 7\<rparr>
           in (if n \<noteq> 8 then - RT_ERROR
               else if vtg_dir_t pack \<noteq> CHR ''T'' \<or> vtg_dec_m pack \<noteq> CHR ''M'' \<or>
                       vtg_spn_n pack \<noteq> CHR ''N'' \<or> vtg_spk_k pack \<noteq> CHR ''K'' then - RT_ERROR
               else RT_EOK, Some pack))
      | _ \<Rightarrow> (- RT_ERROR, pack0))"

subsection \<open>Agreement with the simulator's library\<close>

text \<open>The result 1 or 0 of the simulator's library as an error code.\<close>

definition as_code :: "int \<times> 'p \<Rightarrow> int \<times> 'p option" where
  "as_code = (\<lambda>(r, p). (if r = 1 then RT_EOK else - RT_ERROR, Some p))"

lemma board_time: "board_parse_time (Some tm) t = nmea_parse_time tm t"
  by (simp add: board_parse_time_def nmea_parse_time_def Let_def split_def)

lemma board_gga:
  "board_parse_gga (Some buff) (Some p) = map_sum id as_code (nmea_parse_gga zero_buff buff)"
  by (simp add: board_parse_gga_def nmea_parse_gga_def board_time Let_def split_def as_code_def bindR_def split: sum.splits)

lemma board_rmc:
  "board_parse_rmc (Some buff) (Some p) = map_sum id as_code (nmea_parse_rmc zero_buff buff)"
  by (simp add: board_parse_rmc_def nmea_parse_rmc_def board_time Let_def split_def as_code_def bindR_def split: sum.splits)

lemma board_gsa: "board_parse_gsa (Some buff) (Some p) = as_code (nmea_parse_gsa buff)"
  by (simp add: board_parse_gsa_def nmea_parse_gsa_def Let_def split_def as_code_def)

lemma board_gsv: "board_parse_gsv (Some buff) (Some p) = as_code (nmea_parse_gsv buff)"
  by (simp add: board_parse_gsv_def nmea_parse_gsv_def gsv_nsat_def Let_def split_def as_code_def)

lemma board_vtg: "board_parse_vtg (Some buff) (Some p) = as_code (nmea_parse_vtg buff)"
  by (simp add: board_parse_vtg_def nmea_parse_vtg_def Let_def split_def as_code_def)

text \<open>C23: With non-null arguments the board's parsers decode every sentence as the simulator's library does when its
  stack holds zeros, and report \<open>RT_EOK\<close> where that one returns 1; with a null argument they fail and leave
  the packet alone.
\<close>

theorem board_parsers_agree:
  "board_parse_gga buff0 gga = (case (buff0, gga) of
      (Some buff, Some _) \<Rightarrow> map_sum id as_code (nmea_parse_gga zero_buff buff) | _ \<Rightarrow> Inr (- RT_ERROR, gga)) \<and>
   board_parse_rmc buff0 rmc = (case (buff0, rmc) of
      (Some buff, Some _) \<Rightarrow> map_sum id as_code (nmea_parse_rmc zero_buff buff) | _ \<Rightarrow> Inr (- RT_ERROR, rmc)) \<and>
   board_parse_gsa buff0 gsa = (case (buff0, gsa) of
      (Some buff, Some _) \<Rightarrow> as_code (nmea_parse_gsa buff) | _ \<Rightarrow> (- RT_ERROR, gsa)) \<and>
   board_parse_gsv buff0 gsv = (case (buff0, gsv) of
      (Some buff, Some _) \<Rightarrow> as_code (nmea_parse_gsv buff) | _ \<Rightarrow> (- RT_ERROR, gsv)) \<and>
   board_parse_vtg buff0 vtg = (case (buff0, vtg) of
      (Some buff, Some _) \<Rightarrow> as_code (nmea_parse_vtg buff) | _ \<Rightarrow> (- RT_ERROR, vtg))"
  by (simp add: board_gga board_rmc board_gsa board_gsv board_vtg split: option.split)
     (simp add: board_parse_gga_def board_parse_rmc_def board_parse_gsa_def board_parse_gsv_def board_parse_vtg_def
       split: option.split)

subsection \<open>No time from the stack\<close>

text \<open>What the zeroed buffer changes: without a time field the time is the empty text and the sentence is refused,
  where the simulator's library decodes what the stack held.\<close>

lemma zero_buff_time: "time_text zero_buff None = Inr []"
  by (simp add: time_text_def zero_buff_def cstr_def NMEA_TIMEPARSE_BUF_def)

theorem board_gga_needs_time:
  assumes "nmea_scanf buff ''$GPGGA,%s,%f,%C,%f,%C,%d,%d,%f,%f,%C,%f,%C,%f,%d*''
      (map Some [0, 1, 2, 3, 4, 5, 6, 7, 8, 9, 10, 11, 12, 13::nat]) = (n, st)" and "st 0 = None"
  shows "\<exists>pack. board_parse_gga (Some buff) (Some p) = Inr (- RT_ERROR, Some pack)"
  unfolding board_parse_gga_def using assms zero_buff_time
  by (simp add: time_store_ok_def board_parse_time_def Let_def)

end
