(* ===== verification/Rt_Ringbuffer.thy ===== *)
theory Rt_Ringbuffer
  imports Rt_Def
begin

text \<open>
  The byte ring buffer of the device framework (\<open>components/drivers/ipc/ringbuffer.c\<close>), through
  which a serial driver hands the bytes of a receiver to the parser.  The buffer keeps a mirror bit
  beside each index to tell a full buffer from an empty one.  It is shown to refine a bounded list
  of bytes, operation by operation, and the locale \<open>byte_fifo\<close> states that contract for its users.

  The struct is a record.  The indices are 15-bit fields, so what is stored into them is taken
  modulo \<open>2 ^ 15\<close>; \<open>buffer_size\<close> is a 16-bit signed integer; sizes are 32-bit unsigned.  A copy
  that leaves its buffer is the fault \<open>Buffer_overflow\<close>.  The data argument of an operation is the
  list of its \<open>length\<close> bytes.
\<close>

subsection \<open>Data\<close>

type_synonym byte = "8 word"

record rt_ringbuffer =
  buffer_ptr :: "byte list"
  read_mirror :: bool
  read_index :: nat
  write_mirror :: bool
  write_index :: nat
  buffer_size :: int

datatype rt_ringbuffer_state = RT_RINGBUFFER_EMPTY | RT_RINGBUFFER_FULL | RT_RINGBUFFER_HALFFULL

definition memcpy_to :: "byte list \<Rightarrow> nat \<Rightarrow> byte list \<Rightarrow> byte list result" where
  "memcpy_to buf i src = (if i + length src \<le> length buf then Inr (splice buf i src) else Inl Buffer_overflow)"

definition mem_read :: "byte list \<Rightarrow> nat \<Rightarrow> nat \<Rightarrow> byte list result" where
  "mem_read buf i n = (if i + n \<le> length buf then Inr (take n (drop i buf)) else Inl Out_of_bounds)"

subsection \<open>Operations\<close>

definition rt_ringbuffer_status :: "rt_ringbuffer \<Rightarrow> rt_ringbuffer_state" where
  "rt_ringbuffer_status rb =
     (if read_index rb = write_index rb then
        (if read_mirror rb = write_mirror rb then RT_RINGBUFFER_EMPTY else RT_RINGBUFFER_FULL)
      else RT_RINGBUFFER_HALFFULL)"

definition rt_ringbuffer_init :: "byte list \<Rightarrow> int \<Rightarrow> rt_ringbuffer result" where
  "rt_ringbuffer_init pool sz =
     (if \<not> 0 < sz then Inl Assert_failed
      else Inr \<lparr>buffer_ptr = pool, read_mirror = False, read_index = 0, write_mirror = False,
                write_index = 0, buffer_size = RT_ALIGN_DOWN sz RT_ALIGN_SIZE\<rparr>)"

definition rt_ringbuffer_data_len :: "rt_ringbuffer \<Rightarrow> nat" where
  "rt_ringbuffer_data_len rb =
     (case rt_ringbuffer_status rb of
        RT_RINGBUFFER_EMPTY \<Rightarrow> 0
      | RT_RINGBUFFER_FULL \<Rightarrow> nat (buffer_size rb mod 2 ^ 32)
      | RT_RINGBUFFER_HALFFULL \<Rightarrow>
          (let wi = write_index rb; ri = read_index rb
           in if wi > ri then wi - ri
              else nat ((buffer_size rb - (int ri - int wi)) mod 2 ^ 32)))"

definition rt_ringbuffer_space_len :: "rt_ringbuffer \<Rightarrow> nat" where
  "rt_ringbuffer_space_len rb =
     nat ((buffer_size rb - int (rt_ringbuffer_data_len rb)) mod 2 ^ 32)"

definition rt_ringbuffer_get_size :: "rt_ringbuffer \<Rightarrow> nat" where
  "rt_ringbuffer_get_size rb = nat (buffer_size rb mod 2 ^ 16)"

text \<open>The two copies of a write that crosses the end of the buffer, shared by both put operations.\<close>

definition put_wrapped :: "rt_ringbuffer \<Rightarrow> byte list \<Rightarrow> nat \<Rightarrow> rt_ringbuffer result" where
  "put_wrapped rb ptr len =
     (let room = buffer_size rb - int (write_index rb)
      in if room < 0 then Inl Buffer_overflow
         else
           bindR (memcpy_to (buffer_ptr rb) (write_index rb) (take (nat room) ptr))
             (\<lambda>b1. bindR (memcpy_to b1 0 (take (len - nat room) (drop (nat room) ptr)))
                (\<lambda>b2. Inr (rb\<lparr>buffer_ptr := b2, write_mirror := \<not> write_mirror rb,
                             write_index := idx15 (len - nat room)\<rparr>))))"

definition rt_ringbuffer_put :: "rt_ringbuffer \<Rightarrow> byte list \<Rightarrow> (nat \<times> rt_ringbuffer) result" where
  "rt_ringbuffer_put rb ptr =
     (let sz = rt_ringbuffer_space_len rb mod 2 ^ 16
      in if sz = 0 then Inr (0, rb)
         else
           (let len = (if sz < length ptr then sz else length ptr)
            in if buffer_size rb - int (write_index rb) > int len then
                 bindR (memcpy_to (buffer_ptr rb) (write_index rb) (take len ptr))
                   (\<lambda>b. Inr (len, rb\<lparr>buffer_ptr := b, write_index := idx15 (write_index rb + len)\<rparr>))
               else bindR (put_wrapped rb ptr len) (\<lambda>rb'. Inr (len, rb'))))"

definition rt_ringbuffer_put_force :: "rt_ringbuffer \<Rightarrow> byte list \<Rightarrow> (nat \<times> rt_ringbuffer) result" where
  "rt_ringbuffer_put_force rb ptr0 =
     (let space_length = rt_ringbuffer_space_len rb mod 2 ^ 16;
          ptr = (if int (length ptr0) > buffer_size rb
                 then drop (nat (int (length ptr0) - buffer_size rb)) ptr0 else ptr0);
          len = (if int (length ptr0) > buffer_size rb then nat (buffer_size rb mod 2 ^ 16)
                 else length ptr0)
      in if buffer_size rb - int (write_index rb) > int len then
           bindR (memcpy_to (buffer_ptr rb) (write_index rb) (take len ptr))
             (\<lambda>b. let rb1 = rb\<lparr>buffer_ptr := b, write_index := idx15 (write_index rb + len)\<rparr>
                  in Inr (len, if len > space_length then rb1\<lparr>read_index := write_index rb1\<rparr> else rb1))
         else
           bindR (put_wrapped rb ptr len)
             (\<lambda>rb1. Inr (len,
                if len > space_length then
                  (let rb2 = (if write_index rb1 \<le> read_index rb1
                              then rb1\<lparr>read_mirror := \<not> read_mirror rb1\<rparr> else rb1)
                   in rb2\<lparr>read_index := write_index rb2\<rparr>)
                else rb1)))"

text \<open>The bytes stored through \<open>ptr\<close> are part of the result.\<close>

definition rt_ringbuffer_get :: "rt_ringbuffer \<Rightarrow> nat \<Rightarrow> (nat \<times> byte list \<times> rt_ringbuffer) result" where
  "rt_ringbuffer_get rb length0 =
     (let sz = rt_ringbuffer_data_len rb
      in if sz = 0 then Inr (0, [], rb)
         else
           (let len = (if sz < length0 then sz mod 2 ^ 16 else length0);
                room = buffer_size rb - int (read_index rb)
            in if room > int len then
                 bindR (mem_read (buffer_ptr rb) (read_index rb) len)
                   (\<lambda>d. Inr (len, d, rb\<lparr>read_index := idx15 (read_index rb + len)\<rparr>))
               else if room < 0 then Inl Out_of_bounds
               else
                 bindR (mem_read (buffer_ptr rb) (read_index rb) (nat room))
                   (\<lambda>d1. bindR (mem_read (buffer_ptr rb) 0 (len - nat room))
                      (\<lambda>d2. Inr (len, d1 @ d2,
                         rb\<lparr>read_mirror := \<not> read_mirror rb,
                            read_index := idx15 (len - nat room)\<rparr>)))))"

text \<open>\<open>*ptr\<close> is the index into the buffer it points at, \<open>None\<close> for \<open>RT_NULL\<close>.\<close>

definition rt_ringbuffer_peak :: "rt_ringbuffer \<Rightarrow> nat \<times> nat option \<times> rt_ringbuffer" where
  "rt_ringbuffer_peak rb =
     (let sz = rt_ringbuffer_data_len rb
      in if sz = 0 then (0, None, rb)
         else if nat ((buffer_size rb - int (read_index rb)) mod 2 ^ 32) > sz then
           (sz, Some (read_index rb), rb\<lparr>read_index := idx15 (read_index rb + sz)\<rparr>)
         else
           (nat ((buffer_size rb - int (read_index rb)) mod 2 ^ 32), Some (read_index rb),
            rb\<lparr>read_mirror := \<not> read_mirror rb, read_index := 0\<rparr>))"

text \<open>Storing one byte and moving the write index, shared by both putchar operations.\<close>

definition put_byte :: "rt_ringbuffer \<Rightarrow> byte \<Rightarrow> rt_ringbuffer result" where
  "put_byte rb ch =
     bindR (memcpy_to (buffer_ptr rb) (write_index rb) [ch])
       (\<lambda>b. let rb1 = rb\<lparr>buffer_ptr := b\<rparr>
            in Inr (if int (write_index rb) = buffer_size rb - 1
                    then rb1\<lparr>write_mirror := \<not> write_mirror rb, write_index := 0\<rparr>
                    else rb1\<lparr>write_index := idx15 (write_index rb + 1)\<rparr>))"

definition rt_ringbuffer_putchar :: "rt_ringbuffer \<Rightarrow> byte \<Rightarrow> (nat \<times> rt_ringbuffer) result" where
  "rt_ringbuffer_putchar rb ch =
     (if rt_ringbuffer_space_len rb = 0 then Inr (0, rb)
      else bindR (put_byte rb ch) (\<lambda>rb'. Inr (1, rb')))"

definition rt_ringbuffer_putchar_force :: "rt_ringbuffer \<Rightarrow> byte \<Rightarrow> (nat \<times> rt_ringbuffer) result" where
  "rt_ringbuffer_putchar_force rb ch =
     (let old_state = rt_ringbuffer_status rb
      in bindR (put_byte rb ch)
           (\<lambda>rb1. Inr (1,
              if old_state \<noteq> RT_RINGBUFFER_FULL then rb1
              else if int (write_index rb) = buffer_size rb - 1
              then rb1\<lparr>read_mirror := \<not> read_mirror rb1, read_index := write_index rb1\<rparr>
              else rb1\<lparr>read_index := write_index rb1\<rparr>)))"

definition rt_ringbuffer_getchar :: "rt_ringbuffer \<Rightarrow> (nat \<times> byte option \<times> rt_ringbuffer) result" where
  "rt_ringbuffer_getchar rb =
     (if rt_ringbuffer_data_len rb = 0 then Inr (0, None, rb)
      else
        bindR (mem_read (buffer_ptr rb) (read_index rb) 1)
          (\<lambda>d. Inr (1, Some (hd d),
             if int (read_index rb) = buffer_size rb - 1
             then rb\<lparr>read_mirror := \<not> read_mirror rb, read_index := 0\<rparr>
             else rb\<lparr>read_index := idx15 (read_index rb + 1)\<rparr>)))"

definition rt_ringbuffer_reset :: "rt_ringbuffer \<Rightarrow> rt_ringbuffer" where
  "rt_ringbuffer_reset rb =
     rb\<lparr>read_mirror := False, read_index := 0, write_mirror := False, write_index := 0\<rparr>"

text \<open>
  \<open>rt_ringbuffer_create\<close>: \<open>mem1\<close> says whether the control block could be allocated, \<open>pool\<close> is the
  block handed out for the data.  The 16-bit unsigned size is passed on as a signed one.
\<close>

definition s16 :: "int \<Rightarrow> int" where
  "s16 x = signed_take_bit 15 x"

definition rt_ringbuffer_create :: "bool \<Rightarrow> (nat \<Rightarrow> byte list option) \<Rightarrow> nat \<Rightarrow> rt_ringbuffer option result" where
  "rt_ringbuffer_create mem1 malloc sz0 =
     (if \<not> 0 < sz0 then Inl Assert_failed
      else
        (let sz = RT_ALIGN_DOWN (int sz0) RT_ALIGN_SIZE
         in if \<not> mem1 then Inr None
            else
              (case malloc (nat sz) of
                 None \<Rightarrow> Inr None
               | Some pool \<Rightarrow> bindR (rt_ringbuffer_init pool (s16 sz)) (\<lambda>rb. Inr (Some rb)))))"

lemmas ring_defs = rt_ringbuffer_status_def rt_ringbuffer_data_len_def rt_ringbuffer_space_len_def
  put_wrapped_def rt_ringbuffer_put_def rt_ringbuffer_put_force_def rt_ringbuffer_get_def
  rt_ringbuffer_peak_def put_byte_def rt_ringbuffer_putchar_def rt_ringbuffer_putchar_force_def
  rt_ringbuffer_getchar_def rt_ringbuffer_reset_def memcpy_to_def mem_read_def idx15_def

subsection \<open>Invariant and abstraction\<close>

definition ring_wf :: "rt_ringbuffer \<Rightarrow> bool" where
  "ring_wf rb \<longleftrightarrow> 0 < buffer_size rb \<and> buffer_size rb < 2 ^ 15 \<and>
     buffer_size rb \<le> int (length (buffer_ptr rb)) \<and>
     int (read_index rb) < buffer_size rb \<and> int (write_index rb) < buffer_size rb \<and>
     (if read_mirror rb = write_mirror rb then read_index rb \<le> write_index rb
      else write_index rb \<le> read_index rb)"

text \<open>The bytes of the buffer, oldest first.\<close>

definition ring_list :: "rt_ringbuffer \<Rightarrow> byte list" where
  "ring_list rb =
     (if read_mirror rb = write_mirror rb
      then take (write_index rb - read_index rb) (drop (read_index rb) (buffer_ptr rb))
      else take (nat (buffer_size rb) - read_index rb) (drop (read_index rb) (buffer_ptr rb)) @
           take (write_index rb) (buffer_ptr rb))"

lemma ring_wf_alt:
  assumes "ring_wf rb"
  obtains sz where "buffer_size rb = int sz" "0 < sz" "sz < 2 ^ 15" "sz \<le> length (buffer_ptr rb)"
    "read_index rb < sz" "write_index rb < sz"
    "read_mirror rb = write_mirror rb \<Longrightarrow> read_index rb \<le> write_index rb"
    "read_mirror rb \<noteq> write_mirror rb \<Longrightarrow> write_index rb \<le> read_index rb"
proof
  show "buffer_size rb = int (nat (buffer_size rb))" using assms by (simp add: ring_wf_def)
qed (use assms in \<open>auto simp: ring_wf_def nat_less_iff split: if_splits\<close>)

lemma data_len_ring:
  assumes "ring_wf rb"
  shows "rt_ringbuffer_data_len rb = length (ring_list rb)"
  using assms
proof (rule ring_wf_alt)
  fix sz assume a: "buffer_size rb = int sz" "0 < sz" "sz < 2 ^ 15" "sz \<le> length (buffer_ptr rb)"
    "read_index rb < sz" "write_index rb < sz"
    "read_mirror rb = write_mirror rb \<Longrightarrow> read_index rb \<le> write_index rb"
    "read_mirror rb \<noteq> write_mirror rb \<Longrightarrow> write_index rb \<le> read_index rb"
  show ?thesis
  proof (cases "read_mirror rb = write_mirror rb")
    case True
    with a show ?thesis
      by (auto simp: rt_ringbuffer_data_len_def rt_ringbuffer_status_def ring_list_def)
  next
    case False
    then have "(int sz - (int (read_index rb) - int (write_index rb))) mod 4294967296 =
        int (sz - (read_index rb - write_index rb))"
      using a by (auto simp: of_nat_diff intro!: mod_pos_pos_trivial)
    moreover have "sz mod 4294967296 = sz" using a(3) by simp
    ultimately show ?thesis
      using a False
      by (auto simp: rt_ringbuffer_data_len_def rt_ringbuffer_status_def ring_list_def Let_def zmod_int
          simp flip: of_nat_mod)
  qed
qed

lemma ring_list_bound: "ring_wf rb \<Longrightarrow> length (ring_list rb) \<le> nat (buffer_size rb)"
  by (erule ring_wf_alt) (auto simp: ring_list_def)

lemma space_len_ring:
  assumes "ring_wf rb"
  shows "rt_ringbuffer_space_len rb = nat (buffer_size rb) - length (ring_list rb)"
    and "rt_ringbuffer_space_len rb mod 2 ^ 16 = nat (buffer_size rb) - length (ring_list rb)"
proof -
  have b: "length (ring_list rb) \<le> nat (buffer_size rb)" "buffer_size rb < 2 ^ 15"
    using assms ring_list_bound by (auto simp: ring_wf_def)
  then have "(buffer_size rb - int (length (ring_list rb))) mod 2 ^ 32 =
      buffer_size rb - int (length (ring_list rb))"
    using assms by (intro mod_pos_pos_trivial) (auto simp: ring_wf_def)
  then show 1: "rt_ringbuffer_space_len rb = nat (buffer_size rb) - length (ring_list rb)"
    by (simp add: rt_ringbuffer_space_len_def data_len_ring [OF assms] nat_diff_distrib')
  show "rt_ringbuffer_space_len rb mod 2 ^ 16 = nat (buffer_size rb) - length (ring_list rb)"
    using b by (simp add: 1)
qed

subsection \<open>Moving the indices\<close>

text \<open>The buffer cut at the two indices and at its size.\<close>

lemma list_cut3:
  assumes "i \<le> j" and "j \<le> n" and "n \<le> length xs"
  obtains a b c e where "xs = a @ b @ c @ e" "length a = i" "length b = j - i" "length c = n - j"
proof
  show "xs = take i xs @ take (j - i) (drop i xs) @ take (n - j) (drop j xs) @ drop n xs"
    using assms by (metis append_take_drop_id drop_drop le_add_diff_inverse2)
qed (use assms in auto)

lemma ring_cutE:
  assumes "ring_wf rb"
  obtains (same) a b c e where "buffer_ptr rb = a @ b @ c @ e" "read_index rb = length a"
      "write_index rb = length a + length b" "buffer_size rb = int (length a + length b + length c)"
      "read_mirror rb = write_mirror rb" "1 \<le> length c" "length a + length b + length c < 2 ^ 15"
      "ring_list rb = b"
    | (other) a b c e where "buffer_ptr rb = a @ b @ c @ e" "write_index rb = length a"
      "read_index rb = length a + length b" "buffer_size rb = int (length a + length b + length c)"
      "read_mirror rb = (\<not> write_mirror rb)" "1 \<le> length c" "length a + length b + length c < 2 ^ 15"
      "ring_list rb = c @ a"
proof -
  have sz: "nat (buffer_size rb) \<le> length (buffer_ptr rb)"
    using assms by (simp add: ring_wf_def nat_le_iff)
  show ?thesis
  proof (cases "read_mirror rb = write_mirror rb")
    case True
    with assms have le: "read_index rb \<le> write_index rb" "write_index rb \<le> nat (buffer_size rb)"
      by (simp_all add: ring_wf_def le_nat_iff)
    obtain a b c e where c: "buffer_ptr rb = a @ b @ c @ e" "length a = read_index rb"
      "length b = write_index rb - read_index rb" "length c = nat (buffer_size rb) - write_index rb"
      using list_cut3 [OF le sz] .
    have "1 \<le> length c" using c(4) assms by (simp add: ring_wf_def Suc_le_eq zless_nat_eq_int_zless)
    with c True le assms show ?thesis
      by (intro same [of a b c e]) (auto simp: ring_wf_def ring_list_def)
  next
    case False
    with assms have le: "write_index rb \<le> read_index rb" "read_index rb \<le> nat (buffer_size rb)"
      by (simp_all add: ring_wf_def le_nat_iff)
    obtain a b c e where c: "buffer_ptr rb = a @ b @ c @ e" "length a = write_index rb"
      "length b = read_index rb - write_index rb" "length c = nat (buffer_size rb) - read_index rb"
      using list_cut3 [OF le sz] .
    have "1 \<le> length c" using c(4) assms by (simp add: ring_wf_def Suc_le_eq zless_nat_eq_int_zless)
    with c False le assms show ?thesis
      by (intro other [of a b c e]) (auto simp: ring_wf_def ring_list_def)
  qed
qed

lemma nat_int_add3: "nat (int a + int b + int c) = a + b + c"
  by simp

lemmas ring_move = ring_wf_def ring_list_def splice_def nat_int_add3

text \<open>Both branches of a write, on the list: the data is appended.\<close>

lemma ring_write_plain:
  assumes "ring_wf rb" and "int (write_index rb + length d) < buffer_size rb"
    and "length (ring_list rb) + length d \<le> nat (buffer_size rb)"
  shows "ring_wf (rb\<lparr>buffer_ptr := splice (buffer_ptr rb) (write_index rb) d,
       write_index := write_index rb + length d\<rparr>) \<and>
    ring_list (rb\<lparr>buffer_ptr := splice (buffer_ptr rb) (write_index rb) d,
       write_index := write_index rb + length d\<rparr>) = ring_list rb @ d"
  using assms(1)
proof (cases rule: ring_cutE)
  case (same a b c e)
  then have "drop (length d) (c @ e) = drop (length d) c @ e" using assms(2) by simp
  with same assms(2) show ?thesis by (auto simp: ring_move)
next
  case (other a b c e)
  then have "length d \<le> length b" using assms(3) by simp
  with other assms(2) show ?thesis by (auto simp: ring_move)
qed

lemma ring_write_wrap:
  assumes "ring_wf rb" and "int (write_index rb + length d) \<ge> buffer_size rb"
    and "length (ring_list rb) + length d \<le> nat (buffer_size rb)"
    and k: "k = nat (buffer_size rb) - write_index rb"
  shows "ring_wf (rb\<lparr>buffer_ptr := splice (splice (buffer_ptr rb) (write_index rb) (take k d)) 0 (drop k d),
       write_mirror := \<not> write_mirror rb, write_index := length d - k\<rparr>) \<and>
    ring_list (rb\<lparr>buffer_ptr := splice (splice (buffer_ptr rb) (write_index rb) (take k d)) 0 (drop k d),
       write_mirror := \<not> write_mirror rb, write_index := length d - k\<rparr>) = ring_list rb @ d"
  using assms(1)
proof (cases rule: ring_cutE)
  case (same a b c e)
  have kc: "k = length c" using k same by simp
  obtain d1 d2 where d: "d = d1 @ d2" "length d1 = length c"
    using assms(2) same by (metis append_take_drop_id length_take min.absorb2 nat_int of_nat_le_iff
        add_le_cancel_left)
  have "length d2 \<le> length a" using assms(3) same d by simp
  with same d kc show ?thesis by (auto simp: ring_move)
next
  case (other a b c e)
  then have False using assms(2,3) by simp
  then show ?thesis ..
qed

text \<open>Both branches of a read: \<open>n\<close> bytes are taken off the front.\<close>

lemma ring_read_plain:
  assumes "ring_wf rb" and "int (read_index rb + n) < buffer_size rb" and "n \<le> length (ring_list rb)"
  shows "ring_wf (rb\<lparr>read_index := read_index rb + n\<rparr>) \<and>
    ring_list (rb\<lparr>read_index := read_index rb + n\<rparr>) = drop n (ring_list rb) \<and>
    take n (drop (read_index rb) (buffer_ptr rb)) = take n (ring_list rb)"
  using assms(1)
proof (cases rule: ring_cutE)
  case (same a b c e)
  with assms(3) show ?thesis by (auto simp: ring_move)
next
  case (other a b c e)
  then have "n < length c" using assms(2) by simp
  with other show ?thesis by (auto simp: ring_move)
qed

lemma ring_read_wrap:
  assumes "ring_wf rb" and "int (read_index rb + n) \<ge> buffer_size rb" and "n \<le> length (ring_list rb)"
    and k: "k = nat (buffer_size rb) - read_index rb"
  shows "ring_wf (rb\<lparr>read_mirror := \<not> read_mirror rb, read_index := n - k\<rparr>) \<and>
    ring_list (rb\<lparr>read_mirror := \<not> read_mirror rb, read_index := n - k\<rparr>) = drop n (ring_list rb) \<and>
    k \<le> n \<and> n - k \<le> length (buffer_ptr rb) \<and>
    take k (drop (read_index rb) (buffer_ptr rb)) @ take (n - k) (buffer_ptr rb) = take n (ring_list rb)"
  using assms(1)
proof (cases rule: ring_cutE)
  case (same a b c e)
  then have False using assms(2,3) by simp
  then show ?thesis ..
next
  case (other a b c e)
  then have "length c \<le> n" "n - length c \<le> length a" "k = length c"
    using assms(2,3) k by simp_all
  with other show ?thesis by (auto simp: ring_move)
qed

lemma idx15_wf: "ring_wf rb \<Longrightarrow> int n < buffer_size rb \<Longrightarrow> idx15 n = n"
  by (auto simp: ring_wf_def idx15_def)

subsection \<open>The operations on the list\<close>

lemma ring_room:
  assumes "ring_wf rb"
  shows "int (write_index rb) < buffer_size rb" "int (read_index rb) < buffer_size rb"
    "buffer_size rb \<le> int (length (buffer_ptr rb))" "0 < buffer_size rb"
  using assms by (simp_all add: ring_wf_def)

lemma put_wrapped_ring:
  assumes wf: "ring_wf rb" and "int (write_index rb + length d) \<ge> buffer_size rb"
    and "length d \<le> nat (buffer_size rb)" and k: "k = nat (buffer_size rb) - write_index rb"
  shows "put_wrapped rb (d @ d') (length d) =
    Inr (rb\<lparr>buffer_ptr := splice (splice (buffer_ptr rb) (write_index rb) (take k d)) 0 (drop k d),
            write_mirror := \<not> write_mirror rb, write_index := length d - k\<rparr>)"
proof -
  note r = ring_room [OF wf]
  have k': "nat (buffer_size rb - int (write_index rb)) = k" "k \<le> length d"
      "write_index rb + k = nat (buffer_size rb)"
    using r assms(2) by (auto simp: k nat_diff_distrib' le_nat_iff)
  have i: "idx15 (length d - k) = length d - k"
    using wf r assms(3) k'(3) by (intro idx15_wf [OF wf]) linarith
  have lb: "length d - k \<le> length (buffer_ptr rb)" "write_index rb + k \<le> length (buffer_ptr rb)"
    using r assms(3) k'(3) by linarith+
  show ?thesis
    using r k' lb by (simp add: put_wrapped_def memcpy_to_def Let_def i)
qed

text \<open>A put that fits: the data is appended.\<close>

lemma put_fits:
  assumes wf: "ring_wf rb" and fit: "length (ring_list rb) + length d \<le> nat (buffer_size rb)"
  shows "\<exists>rb'. (if buffer_size rb - int (write_index rb) > int (length d)
      then bindR (memcpy_to (buffer_ptr rb) (write_index rb) d)
        (\<lambda>b. Inr (rb\<lparr>buffer_ptr := b, write_index := idx15 (write_index rb + length d)\<rparr>))
      else put_wrapped rb (d @ d') (length d)) = Inr rb' \<and>
    ring_wf rb' \<and> buffer_size rb' = buffer_size rb \<and> ring_list rb' = ring_list rb @ d"
proof (cases "buffer_size rb - int (write_index rb) > int (length d)")
  case True
  then have lt: "int (write_index rb + length d) < buffer_size rb" by simp
  then have "write_index rb + length d \<le> length (buffer_ptr rb)"
    using ring_room(3) [OF wf] by linarith
  with True ring_write_plain [OF wf lt fit] idx15_wf [OF wf lt] show ?thesis
    by (simp add: memcpy_to_def)
next
  case False
  then have ge: "int (write_index rb + length d) \<ge> buffer_size rb" by simp
  from put_wrapped_ring [OF wf ge _ refl, of d'] ring_write_wrap [OF wf ge fit refl] False fit
  show ?thesis by simp
qed

lemma put_ring:
  assumes wf: "ring_wf rb"
  defines "n \<equiv> nat (buffer_size rb) - length (ring_list rb)"
  shows "\<exists>rb'. rt_ringbuffer_put rb d = Inr (min n (length d), rb') \<and> ring_wf rb' \<and>
    buffer_size rb' = buffer_size rb \<and> ring_list rb' = ring_list rb @ take n d"
proof (cases "n = 0")
  case True
  then show ?thesis using wf space_len_ring(2) [OF wf] by (simp add: rt_ringbuffer_put_def n_def)
next
  case False
  define e where "e = take n d"
  have le: "length e = min n (length d)" "d = e @ drop n d" by (simp_all add: e_def min.commute)
  have fit: "length (ring_list rb) + length e \<le> nat (buffer_size rb)"
    using ring_list_bound [OF wf] le(1) by (simp add: n_def)
  have len: "(if n < length d then n else length d) = length e" using le by simp
  have te: "take (length e) d = e" by (simp add: e_def min_def)
  from put_fits [OF wf fit, of "drop n d"] obtain rb' where
    1: "(if buffer_size rb - int (write_index rb) > int (length e)
      then bindR (memcpy_to (buffer_ptr rb) (write_index rb) e)
        (\<lambda>b. Inr (rb\<lparr>buffer_ptr := b, write_index := idx15 (write_index rb + length e)\<rparr>))
      else put_wrapped rb (e @ drop n d) (length e)) = Inr rb'"
    and 2: "ring_wf rb'" "buffer_size rb' = buffer_size rb" "ring_list rb' = ring_list rb @ e" by blast
  have "rt_ringbuffer_put rb d = Inr (length e, rb')"
    using 1 False space_len_ring(2) [OF wf]
    by (simp add: rt_ringbuffer_put_def n_def [symmetric] len te le(2) [symmetric] Let_def
        bindR_def split: if_splits sum.splits)
  with 2 le(1) show ?thesis by (simp add: e_def)
qed

lemma get_ring:
  assumes wf: "ring_wf rb"
  shows "\<exists>rb'. rt_ringbuffer_get rb m =
      Inr (min m (length (ring_list rb)), take m (ring_list rb), rb') \<and>
    ring_wf rb' \<and> buffer_size rb' = buffer_size rb \<and> ring_list rb' = drop m (ring_list rb)"
proof (cases "ring_list rb = []")
  case True
  then show ?thesis using wf data_len_ring [OF wf] by (simp add: rt_ringbuffer_get_def)
next
  case False
  define n where "n = min m (length (ring_list rb))"
  note r = ring_room [OF wf]
  have "buffer_size rb < 32768" using wf by (simp add: ring_wf_def)
  then have "length (ring_list rb) < 65536" using ring_list_bound [OF wf] by linarith
  then have small: "length (ring_list rb) mod 65536 = length (ring_list rb)" by simp
  have n: "n \<le> length (ring_list rb)" "take m (ring_list rb) = take n (ring_list rb)"
      "drop m (ring_list rb) = drop n (ring_list rb)"
    by (simp_all add: n_def min_def)
  have len: "(if length (ring_list rb) < m then length (ring_list rb) mod 2 ^ 16 else m) = n"
    using small by (simp add: n_def)
  show ?thesis
  proof (cases "buffer_size rb - int (read_index rb) > int n")
    case True
    then have lt: "int (read_index rb + n) < buffer_size rb" by simp
    then have "read_index rb + n \<le> length (buffer_ptr rb)" using r by linarith
    with False True ring_read_plain [OF wf lt n(1)] idx15_wf [OF wf lt] data_len_ring [OF wf]
    show ?thesis
      by (simp add: rt_ringbuffer_get_def len mem_read_def Let_def n(2,3) n_def [symmetric])
  next
    case False': False
    then have ge: "int (read_index rb + n) \<ge> buffer_size rb" by simp
    define k where "k = nat (buffer_size rb) - read_index rb"
    have k: "nat (buffer_size rb - int (read_index rb)) = k" "read_index rb + k \<le> length (buffer_ptr rb)"
      using r by (auto simp: k_def nat_diff_distrib' le_nat_iff)
    note w = ring_read_wrap [OF wf ge n(1) k_def]
    have "length (ring_list rb) \<le> nat (buffer_size rb)" by (rule ring_list_bound [OF wf])
    then have "int (n - k) < buffer_size rb" using r n(1) k_def by linarith
    then have "idx15 (n - k) = n - k" by (rule idx15_wf [OF wf])
    with False False' w k r data_len_ring [OF wf] show ?thesis
      by (simp add: rt_ringbuffer_get_def len mem_read_def Let_def n(2,3) n_def [symmetric])
  qed
qed

text \<open>Overwriting: the newest \<open>buffer_size\<close> bytes stay.\<close>

definition last_n :: "nat \<Rightarrow> 'a list \<Rightarrow> 'a list" where
  "last_n n xs = drop (length xs - n) xs"

lemma last_n_append_last: "last_n n (xs @ last_n n ys) = last_n n (xs @ ys)"
proof (cases "n \<le> length ys")
  case True
  then have "length (last_n n ys) = n" by (simp add: last_n_def)
  with True show ?thesis by (simp add: last_n_def)
next
  case False
  then show ?thesis by (simp add: last_n_def)
qed

lemma last_n_all: "length xs \<le> n \<Longrightarrow> last_n n xs = xs"
  by (simp add: last_n_def)

lemma ring_force_plain:
  assumes "ring_wf rb" and "int (write_index rb + length d) < buffer_size rb"
    and "length (ring_list rb) + length d > nat (buffer_size rb)"
    and rb': "rb' = rb\<lparr>buffer_ptr := splice (buffer_ptr rb) (write_index rb) d,
       write_index := write_index rb + length d, read_index := write_index rb + length d\<rparr>"
  shows "ring_wf rb' \<and> ring_list rb' = last_n (nat (buffer_size rb)) (ring_list rb @ d)"
  using assms(1)
proof (cases rule: ring_cutE)
  case (same a b c e)
  then have False using assms(2,3) by simp
  then show ?thesis ..
next
  case (other a b c e)
  then have len: "length b < length d" "length d < length b + length c" using assms(2,3) by simp_all
  obtain c1 c2 where c: "c = c1 @ c2" "length c1 = length d - length b"
    using len by (metis append_take_drop_id length_take min.absorb4 less_imp_le min.absorb2
        less_diff_conv2 add.commute)
  with other len assms(2) show ?thesis
    by (auto simp: rb' ring_move last_n_def)
qed

lemma ring_force_wrap:
  assumes "ring_wf rb" and "int (write_index rb + length d) \<ge> buffer_size rb"
    and "length (ring_list rb) + length d > nat (buffer_size rb)" and "length d \<le> nat (buffer_size rb)"
    and k: "k = nat (buffer_size rb) - write_index rb"
    and rb': "rb' = rb\<lparr>buffer_ptr := splice (splice (buffer_ptr rb) (write_index rb) (take k d)) 0 (drop k d),
       write_mirror := \<not> write_mirror rb, write_index := length d - k,
       read_mirror := (if length d - k \<le> read_index rb then \<not> read_mirror rb else read_mirror rb),
       read_index := length d - k\<rparr>"
  shows "ring_wf rb' \<and> ring_list rb' = last_n (nat (buffer_size rb)) (ring_list rb @ d)"
proof -
  have kd: "k \<le> length d" using assms(2) k by linarith
  obtain d1 d2 where d: "d = d1 @ d2" "length d1 = k"
    using kd by (metis append_take_drop_id length_take min.absorb2)
  show ?thesis
    using assms(1)
  proof (cases rule: ring_cutE)
    case (same a b c e)
    then have "k = length c" using k by simp
    moreover from this have "length a < length d2" "length d2 \<le> length a + length b"
      using assms(3,4) same d by simp_all
    ultimately show ?thesis
      using same d by (auto simp: rb' ring_move last_n_def)
  next
    case (other a b c e)
    then have "k = length b + length c" using k by simp
    moreover from this have "length d2 \<le> length a" using assms(4) other d by simp
    ultimately show ?thesis
      using other d by (auto simp: rb' ring_move last_n_def)
  qed
qed

lemma put_force_ring:
  assumes wf: "ring_wf rb"
  defines "n \<equiv> nat (buffer_size rb)"
  shows "\<exists>rb'. rt_ringbuffer_put_force rb d0 = Inr (min n (length d0), rb') \<and> ring_wf rb' \<and>
    buffer_size rb' = buffer_size rb \<and> ring_list rb' = last_n n (ring_list rb @ d0)"
proof -
  note r = ring_room [OF wf]
  define d where "d = last_n n d0"
  have ld: "length d = min n (length d0)" by (auto simp: d_def last_n_def)
  have ptr: "(if int (length d0) > buffer_size rb
      then drop (nat (int (length d0) - buffer_size rb)) d0 else d0) = d"
    using r by (auto simp: d_def last_n_def n_def nat_diff_distrib' not_less nat_le_iff)
  have "nat (buffer_size rb mod 2 ^ 16) = n" using wf by (simp add: ring_wf_def n_def)
  then have len: "(if int (length d0) > buffer_size rb then nat (buffer_size rb mod 2 ^ 16)
      else length d0) = length d"
    using r by (auto simp: ld n_def)
  have spc: "rt_ringbuffer_space_len rb mod 2 ^ 16 = n - length (ring_list rb)"
    using space_len_ring(2) [OF wf] by (simp add: n_def)
  have eq: "last_n n (ring_list rb @ d0) = last_n n (ring_list rb @ d)"
    by (simp add: d_def last_n_append_last)
  have dn: "length d \<le> n" by (simp add: ld)
  have lb: "length (ring_list rb) \<le> n" using ring_list_bound [OF wf] by (simp add: n_def)
  note force = rt_ringbuffer_put_force_def ptr len spc len [simplified] spc [simplified] Let_def
  show ?thesis
  proof (cases "length (ring_list rb) + length d \<le> n")
    case True
    then have ns: "\<not> length d > n - length (ring_list rb)" by simp
    from True have all: "last_n n (ring_list rb @ d) = ring_list rb @ d" by (simp add: last_n_all)
    from put_fits [OF wf True [unfolded n_def], of "[]"] ns all show ?thesis
      by (auto simp: force eq ld [symmetric] bindR_def split: if_splits sum.splits)
  next
    case False
    then have over: "length d > n - length (ring_list rb)"
      "length (ring_list rb) + length d > nat (buffer_size rb)" using lb by (simp_all add: n_def)
    show ?thesis
    proof (cases "buffer_size rb - int (write_index rb) > int (length d)")
      case True
      then have lt: "int (write_index rb + length d) < buffer_size rb" by simp
      then have "write_index rb + length d \<le> length (buffer_ptr rb)" using r by linarith
      with True over ring_force_plain [OF wf lt over(2) refl] idx15_wf [OF wf lt] show ?thesis
        by (simp add: force eq memcpy_to_def ld [symmetric] n_def [symmetric])
    next
      case False
      then have ge: "int (write_index rb + length d) \<ge> buffer_size rb" by simp
      from False over put_wrapped_ring [OF wf ge dn [unfolded n_def] refl, of "[]"]
        ring_force_wrap [OF wf ge over(2) dn [unfolded n_def] refl refl]
      show ?thesis
        by (simp add: force eq ld [symmetric] n_def [symmetric] split: if_splits)
    qed
  qed
qed

text \<open>Single bytes.\<close>

lemma put_byte_eq:
  assumes wf: "ring_wf rb"
  shows "put_byte rb ch =
    (if buffer_size rb - int (write_index rb) > int (length [ch])
     then bindR (memcpy_to (buffer_ptr rb) (write_index rb) [ch])
       (\<lambda>b. Inr (rb\<lparr>buffer_ptr := b, write_index := idx15 (write_index rb + length [ch])\<rparr>))
     else put_wrapped rb ([ch] @ []) (length [ch]))"
proof (cases "int (write_index rb) = buffer_size rb - 1")
  case True
  moreover have "splice (splice B (write_index rb) [ch]) 0 [] = splice B (write_index rb) [ch]" for B :: "byte list"
    by (simp add: splice_def)
  ultimately show ?thesis
    by (auto simp: put_byte_def put_wrapped_def memcpy_to_def idx15_def Let_def)
next
  case False
  then have "buffer_size rb - int (write_index rb) > 1" using ring_room [OF wf] by simp
  with False show ?thesis by (simp add: put_byte_def Let_def)
qed

lemma putchar_ring:
  assumes wf: "ring_wf rb" and space: "length (ring_list rb) < nat (buffer_size rb)"
  shows "\<exists>rb'. put_byte rb ch = Inr rb' \<and> ring_wf rb' \<and> buffer_size rb' = buffer_size rb \<and>
    ring_list rb' = ring_list rb @ [ch]"
  using put_fits [OF wf, of "[ch]" "[]"] space by (simp add: put_byte_eq [OF wf])

lemma putchar_full:
  assumes wf: "ring_wf rb" and "length (ring_list rb) = nat (buffer_size rb)"
  shows "\<exists>rb'. rt_ringbuffer_putchar_force rb ch = Inr (1, rb') \<and> ring_wf rb' \<and>
    buffer_size rb' = buffer_size rb \<and> ring_list rb' = tl (ring_list rb) @ [ch]"
  using wf
proof (cases rule: ring_cutE)
  case (same a b c e)
  with assms(2) show ?thesis by (simp add: nat_int_add3)
next
  case (other a b c e)
  then have b: "b = []" using assms(2) by (simp add: nat_int_add3)
  obtain x c' where c: "c = x # c'" using other(6) by (cases c) auto
  have st: "rt_ringbuffer_status rb = RT_RINGBUFFER_FULL"
    using other b by (simp add: rt_ringbuffer_status_def)
  show ?thesis
  proof (cases "c' = []")
    case True
    moreover have "nat (1 + int (length a)) - length a = 1" by simp
    ultimately show ?thesis
      using other b c
      by (auto simp: rt_ringbuffer_putchar_force_def put_byte_def memcpy_to_def st Let_def ring_move)
  next
    case False
    then have "1 \<le> length c'" by (cases c') auto
    with other b c show ?thesis
      by (auto simp: rt_ringbuffer_putchar_force_def put_byte_def memcpy_to_def st Let_def ring_move idx15_def)
  qed
qed

lemma getchar_ring:
  assumes wf: "ring_wf rb" and l: "ring_list rb = x # xs"
  shows "\<exists>rb'. rt_ringbuffer_getchar rb = Inr (1, Some x, rb') \<and> ring_wf rb' \<and>
    buffer_size rb' = buffer_size rb \<and> ring_list rb' = xs"
proof -
  note r = ring_room [OF wf]
  have d: "rt_ringbuffer_data_len rb \<noteq> 0" using data_len_ring [OF wf] l by simp
  have one: "1 \<le> length (ring_list rb)" using l by simp
  show ?thesis
  proof (cases "int (read_index rb) = buffer_size rb - 1")
    case True
    then have ge: "int (read_index rb + 1) \<ge> buffer_size rb" and k: "nat (buffer_size rb) - read_index rb = 1"
      using r by simp_all
    have w: "ring_wf (rb\<lparr>read_mirror := \<not> read_mirror rb, read_index := 0\<rparr>)"
      "ring_list (rb\<lparr>read_mirror := \<not> read_mirror rb, read_index := 0\<rparr>) = xs"
      "take 1 (drop (read_index rb) (buffer_ptr rb)) = [x]"
      using ring_read_wrap [OF wf ge one k [symmetric]] l by simp_all
    have "read_index rb + 1 \<le> length (buffer_ptr rb)" using r by linarith
    with d w True show ?thesis by (simp add: rt_ringbuffer_getchar_def mem_read_def)
  next
    case False
    then have lt: "int (read_index rb + 1) < buffer_size rb" using r by simp
    then have "read_index rb + 1 \<le> length (buffer_ptr rb)" using r by linarith
    with d False ring_read_plain [OF wf lt one] l idx15_wf [OF wf lt] show ?thesis
      by (simp add: rt_ringbuffer_getchar_def mem_read_def)
  qed
qed

text \<open>\<open>rt_ringbuffer_peak\<close> hands out the bytes up to the end of the buffer in place and drops them.\<close>

lemma peak_ring:
  assumes wf: "ring_wf rb" and l: "ring_list rb \<noteq> []"
  shows "\<exists>n rb'. rt_ringbuffer_peak rb = (n, Some (read_index rb), rb') \<and> 0 < n \<and>
    n \<le> length (ring_list rb) \<and> take n (drop (read_index rb) (buffer_ptr rb)) = take n (ring_list rb) \<and>
    ring_wf rb' \<and> ring_list rb' = drop n (ring_list rb)"
proof -
  note r = ring_room [OF wf]
  define k where "k = nat (buffer_size rb) - read_index rb"
  have "(buffer_size rb - int (read_index rb)) mod 4294967296 = buffer_size rb - int (read_index rb)"
    using r wf by (intro mod_pos_pos_trivial) (auto simp: ring_wf_def)
  then have k: "nat ((buffer_size rb - int (read_index rb)) mod 4294967296) = k"
    using r by (simp add: k_def nat_diff_distrib')
  have d: "rt_ringbuffer_data_len rb = length (ring_list rb)" by (rule data_len_ring [OF wf])
  show ?thesis
  proof (cases "k > length (ring_list rb)")
    case True
    then have lt: "int (read_index rb + length (ring_list rb)) < buffer_size rb"
      using r by (simp add: k_def)
    from ring_read_plain [OF wf lt] idx15_wf [OF wf lt] True k d l show ?thesis
      by (simp add: rt_ringbuffer_peak_def Let_def)
  next
    case False
    then have ge: "int (read_index rb + k) \<ge> buffer_size rb" "k \<le> length (ring_list rb)" "0 < k"
      using r by (simp_all add: k_def)
    from ring_read_wrap [OF wf ge(1,2) k_def] False k d l ge show ?thesis
      by (simp add: rt_ringbuffer_peak_def Let_def)
  qed
qed

lemma reset_ring: "ring_wf rb \<Longrightarrow> ring_wf (rt_ringbuffer_reset rb) \<and> ring_list (rt_ringbuffer_reset rb) = []"
  by (auto simp: rt_ringbuffer_reset_def ring_wf_def ring_list_def)

subsection \<open>The contract\<close>

text \<open>
  What a user of the buffer relies on: a bounded first-in first-out list of bytes.  \<open>run_ops\<close> runs a
  sequence of puts and gets, collecting the bytes that were accepted and those that were read.
\<close>

datatype ring_op = Put "byte list" | Get nat

fun run_ops :: "('s \<Rightarrow> byte list \<Rightarrow> (nat \<times> 's) result) \<Rightarrow> ('s \<Rightarrow> nat \<Rightarrow> (nat \<times> byte list \<times> 's) result) \<Rightarrow>
    ring_op list \<Rightarrow> 's \<Rightarrow> (byte list \<times> byte list \<times> 's) result" where
  "run_ops pt gt [] s = Inr ([], [], s)"
| "run_ops pt gt (Put d # ops) s =
     bindR (pt s d) (\<lambda>(n, s'). bindR (run_ops pt gt ops s')
       (\<lambda>(acc, out, s''). Inr (take n d @ acc, out, s'')))"
| "run_ops pt gt (Get m # ops) s =
     bindR (gt s m) (\<lambda>(n, d, s'). bindR (run_ops pt gt ops s')
       (\<lambda>(acc, out, s''). Inr (acc, d @ out, s'')))"

text \<open>The same operations on a list of at most \<open>c\<close> bytes: a put appends what fits, a get takes from the front.\<close>

fun queue_ops :: "nat \<Rightarrow> ring_op list \<Rightarrow> byte list \<Rightarrow> byte list \<times> byte list \<times> byte list" where
  "queue_ops c [] q = ([], [], q)"
| "queue_ops c (Put d # ops) q =
     (let x = take (c - length q) d; (acc, out, q') = queue_ops c ops (q @ x) in (x @ acc, out, q'))"
| "queue_ops c (Get m # ops) q =
     (let (acc, out, q') = queue_ops c ops (drop m q) in (acc, take m q @ out, q'))"

locale byte_fifo =
  fixes inv :: "'s \<Rightarrow> bool"
    and bytes :: "'s \<Rightarrow> byte list"
    and cap :: "'s \<Rightarrow> nat"
    and pt :: "'s \<Rightarrow> byte list \<Rightarrow> (nat \<times> 's) result"
    and gt :: "'s \<Rightarrow> nat \<Rightarrow> (nat \<times> byte list \<times> 's) result"
  assumes bound: "inv s \<Longrightarrow> length (bytes s) \<le> cap s"
    and put_law: "inv s \<Longrightarrow> \<exists>s'. pt s d = Inr (min (cap s - length (bytes s)) (length d), s') \<and> inv s' \<and>
      cap s' = cap s \<and> bytes s' = bytes s @ take (cap s - length (bytes s)) d"
    and get_law: "inv s \<Longrightarrow> \<exists>s'. gt s m = Inr (min m (length (bytes s)), take m (bytes s), s') \<and> inv s' \<and>
      cap s' = cap s \<and> bytes s' = drop m (bytes s)"
begin

text \<open>No byte is lost, repeated or reordered.\<close>

lemma run_fifo:
  "inv s \<Longrightarrow> \<exists>acc out s'. run_ops pt gt ops s = Inr (acc, out, s') \<and> inv s' \<and> cap s' = cap s \<and>
     (acc, out, bytes s') = queue_ops (cap s) ops (bytes s) \<and> bytes s @ acc = out @ bytes s'"
proof (induction ops arbitrary: s)
  case (Cons op ops)
  show ?case
  proof (cases op)
    case (Put d)
    from put_law [OF Cons.prems, of d] obtain s1 where
      1: "pt s d = Inr (min (cap s - length (bytes s)) (length d), s1)" "inv s1" "cap s1 = cap s"
        "bytes s1 = bytes s @ take (cap s - length (bytes s)) d" by blast
    from Cons.IH [OF 1(2)] obtain acc out s' where
      2: "run_ops pt gt ops s1 = Inr (acc, out, s')" "inv s'" "cap s' = cap s1"
        "queue_ops (cap s1) ops (bytes s1) = (acc, out, bytes s')" "bytes s1 @ acc = out @ bytes s'" by force
    with 1 Put show ?thesis by (auto simp: min_def)
  next
    case (Get m)
    from get_law [OF Cons.prems, of m] obtain s1 where
      1: "gt s m = Inr (min m (length (bytes s)), take m (bytes s), s1)" "inv s1" "cap s1 = cap s"
        "bytes s1 = drop m (bytes s)" by blast
    from Cons.IH [OF 1(2)] obtain acc out s' where
      2: "run_ops pt gt ops s1 = Inr (acc, out, s')" "inv s'" "cap s' = cap s1"
        "bytes s1 @ acc = out @ bytes s'" "queue_ops (cap s1) ops (bytes s1) = (acc, out, bytes s')" by force
    have "take m (bytes s) @ out @ bytes s' = bytes s @ acc"
      using 2(4) 1(4) by (metis append_assoc append_take_drop_id)
    with 1 2 Get show ?thesis by simp
  qed
qed simp

text \<open>What was put into an empty buffer and fits comes out again in one get.\<close>

lemma put_get:
  assumes "inv s" and "bytes s = []" and "length d \<le> cap s"
  shows "\<exists>s' s''. pt s d = Inr (length d, s') \<and> gt s' (length d) = Inr (length d, d, s'') \<and> bytes s'' = []"
proof -
  from put_law [OF assms(1), of d] assms obtain s' where
    1: "pt s d = Inr (length d, s')" "inv s'" "bytes s' = d" by auto
  with get_law [OF 1(2), of "length d"] show ?thesis by auto
qed

end

interpretation rbq: byte_fifo ring_wf ring_list "\<lambda>rb. nat (buffer_size rb)" rt_ringbuffer_put
  rt_ringbuffer_get
  using ring_list_bound put_ring get_ring by unfold_locales fastforce+

subsection \<open>Properties\<close>

text \<open>\<open>rt_ringbuffer_put\<close> appends the bytes that fit to the list of stored bytes, drops the rest,
  returns how many were stored and keeps the invariant; no copy leaves the buffer.\<close>

theorem ring_put_refines:
  assumes "ring_wf rb"
  shows "\<exists>rb'. rt_ringbuffer_put rb d =
      Inr (min (nat (buffer_size rb) - length (ring_list rb)) (length d), rb') \<and> ring_wf rb' \<and>
    ring_list rb' = ring_list rb @ take (nat (buffer_size rb) - length (ring_list rb)) d"
  using rbq.put_law [OF assms, of d] by blast

text \<open>\<open>rt_ringbuffer_put_force\<close> keeps the newest \<open>buffer_size\<close> bytes of what was stored followed by
  the new data.\<close>

theorem ring_put_force_refines:
  assumes "ring_wf rb"
  shows "\<exists>rb'. rt_ringbuffer_put_force rb d = Inr (min (nat (buffer_size rb)) (length d), rb') \<and>
    ring_wf rb' \<and> ring_list rb' = last_n (nat (buffer_size rb)) (ring_list rb @ d)"
  using put_force_ring [OF assms, of d] by blast

text \<open>C12: over any sequence of puts and gets the buffer accepts, gives out and holds what a list of at most
  \<open>buffer_size\<close> bytes does; the bytes read are, in order, exactly the bytes accepted, up to those still stored.\<close>

theorem ring_fifo:
  assumes "ring_wf rb"
  shows "\<exists>acc out rb'. run_ops rt_ringbuffer_put rt_ringbuffer_get ops rb = Inr (acc, out, rb') \<and>
    ring_wf rb' \<and> nat (buffer_size rb') = nat (buffer_size rb) \<and>
    (acc, out, ring_list rb') = queue_ops (nat (buffer_size rb)) ops (ring_list rb) \<and>
    ring_list rb @ acc = out @ ring_list rb'"
  using rbq.run_fifo [OF assms, of ops] by blast

text \<open>\<open>rt_ringbuffer_putchar_force\<close> on a full buffer drops the oldest byte and appends the new one.\<close>

theorem ring_putchar_force_full:
  assumes "ring_wf rb" and "length (ring_list rb) = nat (buffer_size rb)"
  shows "\<exists>rb'. rt_ringbuffer_putchar_force rb ch = Inr (1, rb') \<and> ring_wf rb' \<and>
    ring_list rb' = tl (ring_list rb) @ [ch]"
  using putchar_full [OF assms] by blast

text \<open>The sizes 32768 to 65535 that the unsigned parameter of \<open>rt_ringbuffer_create\<close> admits turn
  negative when they are passed on, and the assertion in \<open>rt_ringbuffer_init\<close> fails.\<close>

theorem ring_create_large:
  assumes "32768 \<le> sz" and "sz < 65536" and "malloc (nat (RT_ALIGN_DOWN (int sz) RT_ALIGN_SIZE)) = Some pool"
  shows "rt_ringbuffer_create True malloc sz = Inl Assert_failed"
proof -
  define x where "x = RT_ALIGN_DOWN (int sz) RT_ALIGN_SIZE"
  have x: "x = int sz - int sz mod 4" by (simp add: x_def align_down_4)
  have "32768 \<le> x" "x < 65536" using assms(1,2) unfolding x by presburger+
  then have "(x - 32768 + 65536) mod 65536 = x - 32768"
    unfolding mod_add_self2 by (intro mod_pos_pos_trivial) auto
  then have "(x + 32768) mod 65536 = x - 32768" by (simp add: add.commute)
  with \<open>x < 65536\<close> have "s16 x < 0"
    by (simp add: s16_def signed_take_bit_eq_take_bit_shift take_bit_eq_mod)
  with assms(3) x_def show ?thesis by (simp add: rt_ringbuffer_create_def rt_ringbuffer_init_def Let_def)
qed

subsection \<open>A sample buffer\<close>

definition demo_ring :: rt_ringbuffer where
  "demo_ring = \<lparr>buffer_ptr = [5, 6, 3, 4], read_mirror = False, read_index = 2, write_mirror = True,
     write_index = 2, buffer_size = 4\<rparr>"

lemma demo_ring: "ring_wf demo_ring" "ring_list demo_ring = [3, 4, 5, 6]" "buffer_size demo_ring = 4"
  by (simp_all add: demo_ring_def ring_wf_def ring_list_def)

definition demo_half :: rt_ringbuffer where
  "demo_half = demo_ring\<lparr>write_index := 0\<rparr>"

lemma demo_half: "ring_wf demo_half" "ring_list demo_half = [3, 4]" "buffer_size demo_half = 4"
  by (simp_all add: demo_half_def demo_ring_def ring_wf_def ring_list_def)

theorem ring_put_refines_witness:
  "\<exists>rb'. rt_ringbuffer_put demo_half [7, 8, 9] = Inr (2, rb') \<and> ring_wf rb' \<and>
    ring_list rb' = [3, 4, 7, 8]"
  using ring_put_refines [OF demo_half(1), of "[7, 8, 9]"] by (simp add: demo_half(2,3) numeral_2_eq_2)

theorem ring_put_force_refines_witness:
  "\<exists>rb'. rt_ringbuffer_put_force demo_half [7, 8, 9] = Inr (3, rb') \<and> ring_wf rb' \<and>
    ring_list rb' = [4, 7, 8, 9]"
  using ring_put_force_refines [OF demo_half(1), of "[7, 8, 9]"]
  by (simp add: demo_half(2,3) last_n_def numeral_3_eq_3)

theorem ring_fifo_witness:
  "\<exists>rb'. run_ops rt_ringbuffer_put rt_ringbuffer_get [Get 1, Put [7, 8], Get 2] demo_half =
      Inr ([7, 8], [3, 4, 7], rb') \<and> ring_wf rb' \<and> ring_list rb' = [8]"
  using ring_fifo [OF demo_half(1), of "[Get 1, Put [7, 8], Get 2]"] by (auto simp: demo_half(2,3) simp del: run_ops.simps)

theorem ring_putchar_force_full_witness:
  "\<exists>rb'. rt_ringbuffer_putchar_force demo_ring 7 = Inr (1, rb') \<and> ring_wf rb' \<and>
    ring_list rb' = [4, 5, 6, 7]"
  using ring_putchar_force_full [OF demo_ring(1), of 7] by (simp add: demo_ring(2,3))

theorem ring_create_large_witness:
  "rt_ringbuffer_create True (\<lambda>_. Some []) 40000 = Inl Assert_failed"
  by (rule ring_create_large [where pool = "[]"]) simp_all

end
