(* ===== verification/Rt_Ringblk.thy ===== *)
theory Rt_Ringblk
  imports Nmea_Prelude
begin

text \<open>
  The ring block buffer of the kernel (\<open>ringblk_buf.c\<close>, \<open>ringblk_buf.h\<close> and the singly linked lists of
  \<open>rtservice.h\<close>): variable-sized blocks of one buffer, handed out in ring order, with their descriptors in
  an array \<open>blk_set\<close> and linked through it.

  A pointer to a list node is the index of the descriptor that holds it, \<open>None\<close> the null pointer.  The
  pointer \<open>tail\<close> is \<open>None\<close> when it points at the list head inside the object.  Addresses of bytes are
  natural numbers, differences of pointers wrap at 32 bits as \<open>rt_size_t\<close> does.  A walk along a list
  carries as fuel the number of descriptors plus two; running out of it would be an endless loop of the
  code and is a fault.  Disabling interrupts makes each call atomic, so calls do not interleave.
\<close>

subsection \<open>The data\<close>

datatype rt_rbb_status = RT_RBB_BLK_UNUSED | RT_RBB_BLK_INITED | RT_RBB_BLK_PUT | RT_RBB_BLK_GET

record rt_rbb_blk =
  blk_status :: rt_rbb_status
  blk_size :: nat
  blk_buf :: nat
  blk_next :: "nat option"

record rt_rbb_blk_queue =
  q_blocks :: "nat option"
  q_blk_num :: nat

record rt_rbb =
  rbb_buf :: nat
  rbb_buf_size :: nat
  rbb_set :: "rt_rbb_blk list"
  rbb_list :: "nat option"
  rbb_tail :: "nat option"
  rbb_free :: "nat option"

definition sub32 :: "nat \<Rightarrow> nat \<Rightarrow> nat" where
  "sub32 a b = nat ((int a - int b) mod 2 ^ 32)"

subsection \<open>Singly linked lists\<close>

text \<open>The loop \<open>while (node->next && node->next != n) node = node->next\<close>: \<open>nx\<close> is \<open>node->next\<close>.\<close>

fun slist_walk ::
    "nat \<Rightarrow> rt_rbb_blk list \<Rightarrow> nat option \<Rightarrow> nat option \<Rightarrow> nat \<Rightarrow> (nat option \<times> nat option) result" where
  "slist_walk 0 bs node nx n = Inl Endless_loop"
| "slist_walk (Suc fuel) bs node nx n =
     (case nx of
        None \<Rightarrow> Inr (node, None)
      | Some j \<Rightarrow>
          if j = n then Inr (node, Some j)
          else if j < length bs then slist_walk fuel bs (Some j) (blk_next (bs ! j)) n
          else Inl Out_of_bounds)"

text \<open>\<open>node->next = v\<close>, the list head being part of the result.\<close>

definition set_next :: "nat option \<Rightarrow> nat option \<Rightarrow> rt_rbb_blk list \<times> nat option \<Rightarrow> rt_rbb_blk list \<times> nat option" where
  "set_next node v st =
     (case node of
        None \<Rightarrow> (fst st, v)
      | Some i \<Rightarrow> ((fst st)[i := (fst st ! i)\<lparr>blk_next := v\<rparr>], snd st))"

definition rt_slist_insert :: "rt_rbb_blk list \<times> nat option \<Rightarrow> nat \<Rightarrow> rt_rbb_blk list \<times> nat option" where
  "rt_slist_insert st n = set_next None (Some n) (set_next (Some n) (snd st) st)"

definition rt_slist_remove ::
    "rt_rbb_blk list \<times> nat option \<Rightarrow> nat \<Rightarrow> (rt_rbb_blk list \<times> nat option) result" where
  "rt_slist_remove st n =
     bindR (slist_walk (length (fst st) + 2) (fst st) None (snd st) n)
       (\<lambda>(node, nx).
          case nx of
            None \<Rightarrow> Inr st
          | Some j \<Rightarrow> if j < length (fst st) then Inr (set_next node (blk_next (fst st ! j)) st) else Inl Out_of_bounds)"

subsection \<open>The operations\<close>

fun rbb_init_loop :: "nat \<Rightarrow> nat \<Rightarrow> rt_rbb_blk list \<times> nat option \<Rightarrow> rt_rbb_blk list \<times> nat option" where
  "rbb_init_loop i 0 st = st"
| "rbb_init_loop i (Suc k) st =
     rbb_init_loop (Suc i) k
       (rt_slist_insert
          ((fst st)[i := (fst st ! i)\<lparr>blk_status := RT_RBB_BLK_UNUSED, blk_next := None\<rparr>], snd st) i)"

text \<open>\<open>block_set\<close> is the array as the caller hands it over, with \<open>blk_max_num\<close> entries.\<close>

definition rt_rbb_init :: "nat \<Rightarrow> nat \<Rightarrow> rt_rbb_blk list \<Rightarrow> rt_rbb" where
  "rt_rbb_init buf buf_size block_set =
     (let (bs, free) = rbb_init_loop 0 (length block_set) (block_set, None)
      in \<lparr>rbb_buf = buf, rbb_buf_size = buf_size, rbb_set = bs, rbb_list = None, rbb_tail = None,
          rbb_free = free\<rparr>)"

text \<open>The three allocations: whether the object is available, the buffer, and the descriptors.\<close>

definition rt_rbb_create :: "bool \<Rightarrow> nat option \<Rightarrow> rt_rbb_blk list option \<Rightarrow> nat \<Rightarrow> rt_rbb option" where
  "rt_rbb_create obj mem blk_set buf_size =
     (if \<not> obj then None
      else
        (case mem of
           None \<Rightarrow> None
         | Some buf \<Rightarrow> (case blk_set of None \<Rightarrow> None | Some bs \<Rightarrow> Some (rt_rbb_init buf buf_size bs))))"

definition find_empty_blk_in_set :: "rt_rbb \<Rightarrow> (nat option \<times> rt_rbb) result" where
  "find_empty_blk_in_set rbb =
     (case rbb_free rbb of
        None \<Rightarrow> Inr (None, rbb)
      | Some blk \<Rightarrow>
          bindR (rt_slist_remove (rbb_set rbb, rbb_free rbb) blk)
            (\<lambda>(bs, free).
               if blk_status (bs ! blk) = RT_RBB_BLK_UNUSED
               then Inr (Some blk, rbb\<lparr>rbb_set := bs, rbb_free := free\<rparr>)
               else Inl Assert_failed))"

definition list_append :: "rt_rbb \<Rightarrow> nat \<Rightarrow> rt_rbb" where
  "list_append rbb n =
     (let (bs, h) = set_next (rbb_tail rbb) (Some n) (rbb_set rbb, rbb_list rbb);
          (bs', h') = set_next (Some n) None (bs, h)
      in rbb\<lparr>rbb_set := bs', rbb_list := h', rbb_tail := Some n\<rparr>)"

definition list_remove :: "rt_rbb \<Rightarrow> nat \<Rightarrow> rt_rbb result" where
  "list_remove rbb n =
     bindR (slist_walk (length (rbb_set rbb) + 2) (rbb_set rbb) None (rbb_list rbb) n)
       (\<lambda>(node, nx).
          case nx of
            None \<Rightarrow> Inr rbb
          | Some j \<Rightarrow>
              if j < length (rbb_set rbb) then
                (let (bs, h) = set_next node (blk_next (rbb_set rbb ! j)) (rbb_set rbb, rbb_list rbb);
                     (bs', h') = set_next (Some n) None (bs, h)
                 in Inr (rbb\<lparr>rbb_set := bs', rbb_list := h',
                             rbb_tail := (if rbb_tail rbb = Some n then node else rbb_tail rbb)\<rparr>))
              else Inl Out_of_bounds)"

text \<open>Link the new descriptor and fill it in.\<close>

definition use_blk :: "rt_rbb \<Rightarrow> nat \<Rightarrow> nat \<Rightarrow> nat \<Rightarrow> rt_rbb" where
  "use_blk rbb n buf sz =
     (let r = list_append rbb n
      in r\<lparr>rbb_set := (rbb_set r)[n := (rbb_set r ! n)\<lparr>blk_status := RT_RBB_BLK_INITED, blk_buf := buf,
                                       blk_size := sz mod 2 ^ 24\<rparr>]\<rparr>)"

definition rt_rbb_blk_alloc :: "rt_rbb \<Rightarrow> nat \<Rightarrow> (nat option \<times> rt_rbb) result" where
  "rt_rbb_blk_alloc rbb0 size0 =
     (if \<not> size0 < 2 ^ 24 then Inl Assert_failed
      else
        bindR (find_empty_blk_in_set rbb0)
          (\<lambda>(new_rbb, rbb).
             case new_rbb of
               None \<Rightarrow> Inr (None, rbb)
             | Some n \<Rightarrow>
                 (case rbb_list rbb of
                    None \<Rightarrow> Inr (Some n, use_blk rbb n (rbb_buf rbb) size0)
                  | Some head \<Rightarrow>
                      (case rbb_tail rbb of
                         None \<Rightarrow> Inl Out_of_bounds
                       | Some tail \<Rightarrow>
                           (let hb = rbb_set rbb ! head; tb = rbb_set rbb ! tail
                            in if blk_buf hb \<le> blk_buf tb then
                                 (let empty1 = sub32 (rbb_buf rbb + rbb_buf_size rbb) (blk_buf tb + blk_size tb);
                                      empty2 = sub32 (blk_buf hb) (rbb_buf rbb)
                                  in if empty1 \<ge> size0
                                     then Inr (Some n, use_blk rbb n (blk_buf tb + blk_size tb) size0)
                                     else if empty2 \<ge> size0
                                     then Inr (Some n, use_blk rbb n (rbb_buf rbb) size0)
                                     else Inr (None, rbb))
                               else
                                 (let empty1 = sub32 (blk_buf hb) (blk_buf tb + blk_size tb)
                                  in if empty1 \<ge> size0
                                     then Inr (Some n, use_blk rbb n (blk_buf tb + blk_size tb) size0)
                                     else Inr (None, rbb)))))))"

definition set_status :: "nat \<Rightarrow> rt_rbb_status \<Rightarrow> rt_rbb \<Rightarrow> rt_rbb" where
  "set_status n st rbb = rbb\<lparr>rbb_set := (rbb_set rbb)[n := (rbb_set rbb ! n)\<lparr>blk_status := st\<rparr>]\<rparr>"

definition rt_rbb_blk_put :: "rt_rbb \<Rightarrow> nat \<Rightarrow> rt_rbb result" where
  "rt_rbb_blk_put rbb block =
     (if blk_status (rbb_set rbb ! block) = RT_RBB_BLK_INITED then Inr (set_status block RT_RBB_BLK_PUT rbb)
      else Inl Assert_failed)"

fun blk_get_loop :: "nat \<Rightarrow> rt_rbb \<Rightarrow> nat option \<Rightarrow> (nat option \<times> rt_rbb) result" where
  "blk_get_loop 0 rbb node = Inl Endless_loop"
| "blk_get_loop (Suc fuel) rbb node =
     (case node of
        None \<Rightarrow> Inr (None, rbb)
      | Some i \<Rightarrow>
          if \<not> i < length (rbb_set rbb) then Inl Out_of_bounds
          else if blk_status (rbb_set rbb ! i) = RT_RBB_BLK_PUT
          then Inr (Some i, set_status i RT_RBB_BLK_GET rbb)
          else blk_get_loop fuel rbb (blk_next (rbb_set rbb ! i)))"

definition rt_rbb_blk_get :: "rt_rbb \<Rightarrow> (nat option \<times> rt_rbb) result" where
  "rt_rbb_blk_get rbb =
     (if rbb_list rbb = None then Inr (None, rbb)
      else blk_get_loop (length (rbb_set rbb) + 2) rbb (rbb_list rbb))"

definition rt_rbb_blk_size :: "rt_rbb \<Rightarrow> nat \<Rightarrow> nat" where
  "rt_rbb_blk_size rbb block = blk_size (rbb_set rbb ! block)"

definition rt_rbb_blk_buf :: "rt_rbb \<Rightarrow> nat \<Rightarrow> nat" where
  "rt_rbb_blk_buf rbb block = blk_buf (rbb_set rbb ! block)"

definition rt_rbb_blk_free :: "rt_rbb \<Rightarrow> nat \<Rightarrow> rt_rbb result" where
  "rt_rbb_blk_free rbb block =
     (if blk_status (rbb_set rbb ! block) \<noteq> RT_RBB_BLK_UNUSED then
        bindR (list_remove rbb block)
          (\<lambda>r1. let r2 = set_status block RT_RBB_BLK_UNUSED r1;
                    (bs, free) = rt_slist_insert (rbb_set r2, rbb_free r2) block
                in Inr (r2\<lparr>rbb_set := bs, rbb_free := free\<rparr>))
      else Inl Assert_failed)"

text \<open>
  The loop of \<open>rt_rbb_blk_queue_get\<close>.  The step \<open>node = tmp, tmp = rt_slist_next (node)\<close> reads through
  \<open>node\<close> before the loop condition has tested it.
\<close>

fun queue_get_loop ::
    "nat \<Rightarrow> nat \<Rightarrow> rt_rbb \<Rightarrow> nat option \<Rightarrow> nat option \<Rightarrow> nat option \<Rightarrow> nat \<Rightarrow> rt_rbb_blk_queue \<Rightarrow>
       (nat \<times> rt_rbb_blk_queue \<times> rt_rbb) result" where
  "queue_get_loop 0 queue_data_len rbb node tmp last_block data_total q = Inl Endless_loop"
| "queue_get_loop (Suc fuel) queue_data_len rbb node tmp last_block data_total q =
     (case node of
        None \<Rightarrow> Inr (data_total, q, rbb)
      | Some i \<Rightarrow>
          if \<not> i < length (rbb_set rbb) then Inl Out_of_bounds
          else
            (let b = rbb_set rbb ! i;
                 step = (\<lambda>r l t q'.
                   case tmp of
                     None \<Rightarrow> Inl Null_pointer
                   | Some j \<Rightarrow>
                       if j < length (rbb_set r)
                       then queue_get_loop fuel queue_data_len r tmp (blk_next (rbb_set r ! j)) l t q'
                       else Inl Out_of_bounds);
                 take = (\<lambda>q'. step (set_status i RT_RBB_BLK_GET rbb) (Some i) ((data_total + blk_size b) mod 2 ^ 32)
                                (q'\<lparr>q_blk_num := q_blk_num q' + 1\<rparr>))
             in case last_block of
                  None \<Rightarrow>
                    if blk_status b = RT_RBB_BLK_PUT then take (q\<lparr>q_blocks := Some i, q_blk_num := 0\<rparr>)
                    else step rbb None data_total q
                | Some l \<Rightarrow>
                    if blk_status b \<noteq> RT_RBB_BLK_PUT \<or> blk_buf (rbb_set rbb ! l) > blk_buf b \<or>
                       (data_total + blk_size b) mod 2 ^ 32 > queue_data_len
                    then Inr (data_total, q, rbb)
                    else take q))"

definition rt_rbb_blk_queue_get :: "rt_rbb \<Rightarrow> nat \<Rightarrow> rt_rbb_blk_queue \<Rightarrow> (nat \<times> rt_rbb_blk_queue \<times> rt_rbb) result" where
  "rt_rbb_blk_queue_get rbb queue_data_len blk_queue =
     (case rbb_list rbb of
        None \<Rightarrow> Inr (0, blk_queue, rbb)
      | Some i \<Rightarrow>
          if i < length (rbb_set rbb)
          then queue_get_loop (length (rbb_set rbb) + 2) queue_data_len rbb (Some i) (blk_next (rbb_set rbb ! i))
                 None 0 blk_queue
          else Inl Out_of_bounds)"

fun queue_len_loop :: "rt_rbb \<Rightarrow> nat option \<Rightarrow> nat \<Rightarrow> nat \<Rightarrow> nat result" where
  "queue_len_loop rbb blk 0 data_total = Inr data_total"
| "queue_len_loop rbb blk (Suc k) data_total =
     (case blk of
        None \<Rightarrow> Inl Null_pointer
      | Some i \<Rightarrow>
          if i < length (rbb_set rbb)
          then queue_len_loop rbb (blk_next (rbb_set rbb ! i)) k ((data_total + blk_size (rbb_set rbb ! i)) mod 2 ^ 32)
          else Inl Out_of_bounds)"

definition rt_rbb_blk_queue_len :: "rt_rbb \<Rightarrow> rt_rbb_blk_queue \<Rightarrow> nat result" where
  "rt_rbb_blk_queue_len rbb q = queue_len_loop rbb (q_blocks q) (q_blk_num q) 0"

definition rt_rbb_blk_queue_buf :: "rt_rbb \<Rightarrow> rt_rbb_blk_queue \<Rightarrow> nat result" where
  "rt_rbb_blk_queue_buf rbb q =
     (case q_blocks q of None \<Rightarrow> Inl Null_pointer | Some i \<Rightarrow> Inr (blk_buf (rbb_set rbb ! i)))"

fun queue_free_loop :: "rt_rbb \<Rightarrow> nat option \<Rightarrow> nat \<Rightarrow> rt_rbb result" where
  "queue_free_loop rbb blk 0 = Inr rbb"
| "queue_free_loop rbb blk (Suc k) =
     (case blk of
        None \<Rightarrow> Inl Null_pointer
      | Some i \<Rightarrow>
          if i < length (rbb_set rbb)
          then bindR (rt_rbb_blk_free rbb i) (\<lambda>r. queue_free_loop r (blk_next (rbb_set rbb ! i)) k)
          else Inl Out_of_bounds)"

definition rt_rbb_blk_queue_free :: "rt_rbb \<Rightarrow> rt_rbb_blk_queue \<Rightarrow> rt_rbb result" where
  "rt_rbb_blk_queue_free rbb q = queue_free_loop rbb (q_blocks q) (q_blk_num q)"

fun next_len_loop :: "nat \<Rightarrow> rt_rbb \<Rightarrow> nat option \<Rightarrow> nat option \<Rightarrow> nat \<Rightarrow> nat result" where
  "next_len_loop 0 rbb node last_block data_len = Inl Endless_loop"
| "next_len_loop (Suc fuel) rbb node last_block data_len =
     (case node of
        None \<Rightarrow> Inr data_len
      | Some i \<Rightarrow>
          if \<not> i < length (rbb_set rbb) then Inl Out_of_bounds
          else
            (let b = rbb_set rbb ! i
             in case last_block of
                  None \<Rightarrow>
                    if blk_status b \<noteq> RT_RBB_BLK_PUT then next_len_loop fuel rbb (blk_next b) None data_len
                    else next_len_loop fuel rbb (blk_next b) (Some i) ((data_len + blk_size b) mod 2 ^ 32)
                | Some l \<Rightarrow>
                    if blk_status b \<noteq> RT_RBB_BLK_PUT \<or> blk_buf (rbb_set rbb ! l) > blk_buf b then Inr data_len
                    else next_len_loop fuel rbb (blk_next b) (Some i) ((data_len + blk_size b) mod 2 ^ 32)))"

definition rt_rbb_next_blk_queue_len :: "rt_rbb \<Rightarrow> nat result" where
  "rt_rbb_next_blk_queue_len rbb =
     (if rbb_list rbb = None then Inr 0
      else next_len_loop (length (rbb_set rbb) + 2) rbb (rbb_list rbb) None 0)"

definition rt_rbb_get_buf_size :: "rt_rbb \<Rightarrow> nat" where
  "rt_rbb_get_buf_size rbb = rbb_buf_size rbb"

subsection \<open>Lists along the descriptors\<close>

fun seg :: "rt_rbb_blk list \<Rightarrow> nat option \<Rightarrow> nat list \<Rightarrow> nat option \<Rightarrow> bool" where
  "seg bs p [] q \<longleftrightarrow> p = q"
| "seg bs p (i # is) q \<longleftrightarrow> p = Some i \<and> i < length bs \<and> seg bs (blk_next (bs ! i)) is q"

abbreviation path :: "rt_rbb_blk list \<Rightarrow> nat option \<Rightarrow> nat list \<Rightarrow> bool" where
  "path bs p is \<equiv> seg bs p is None"

lemma seg_append: "seg bs p (xs @ ys) q \<longleftrightarrow> (\<exists>m. seg bs p xs m \<and> seg bs m ys q)"
  by (induction xs arbitrary: p) auto

lemma seg_upd [simp]: "i \<notin> set xs \<Longrightarrow> seg (bs[i := x]) p xs q = seg bs p xs q"
  by (induction xs arbitrary: p) auto

lemma seg_keep:
  assumes "\<And>i. i \<in> set xs \<Longrightarrow> blk_next (bs' ! i) = blk_next (bs ! i)" and "length bs' = length bs"
  shows "seg bs' p xs q = seg bs p xs q"
  using assms(1) by (induction xs arbitrary: p) (auto simp: assms(2))

lemma upd_proj: "f x = f (bs ! i) \<Longrightarrow> f (bs[i := x] ! k) = f (bs ! k)"
  by (cases "i < length bs"; cases "i = k") (simp_all add: list_update_beyond)

lemmas upd_fields = upd_proj [of blk_status] upd_proj [of blk_buf] upd_proj [of blk_size] upd_proj [of blk_next]

lemma seg_bound: "seg bs p xs q \<Longrightarrow> i \<in> set xs \<Longrightarrow> i < length bs"
  by (induction xs arbitrary: p) auto

lemma distinct_bound:
  assumes "distinct xs" and "\<forall>i\<in>set xs. i < n"
  shows "length xs \<le> n"
proof -
  have "set xs \<subseteq> {..<n}" using assms(2) by auto
  then have "card (set xs) \<le> card {..<n}" by (intro card_mono) auto
  then show ?thesis using assms(1) by (simp add: distinct_card)
qed

lemma slist_walk_found:
  "seg bs nx xs (Some n) \<Longrightarrow> n \<notin> set xs \<Longrightarrow> length xs < fuel \<Longrightarrow>
   slist_walk fuel bs node nx n = Inr (if xs = [] then node else Some (last xs), Some n)"
proof (induction xs arbitrary: nx fuel node)
  case Nil
  then show ?case by (cases fuel) auto
next
  case (Cons x xs)
  then obtain f where "fuel = Suc f" by (cases fuel) auto
  with Cons show ?case by auto
qed

subsection \<open>The two lists of the object\<close>

definition rbb_lists :: "rt_rbb \<Rightarrow> nat list \<Rightarrow> nat list \<Rightarrow> bool" where
  "rbb_lists r used fr \<longleftrightarrow>
     path (rbb_set r) (rbb_list r) used \<and> path (rbb_set r) (rbb_free r) fr \<and> distinct (used @ fr) \<and>
     rbb_tail r = (if used = [] then None else Some (last used)) \<and>
     (\<forall>i<length (rbb_set r). blk_status (rbb_set r ! i) \<noteq> RT_RBB_BLK_UNUSED \<longleftrightarrow> i \<in> set used)"

text \<open>What a descriptor says about the buffer.\<close>

definition extent :: "rt_rbb \<Rightarrow> nat \<Rightarrow> nat \<times> nat" where
  "extent r i = (blk_buf (rbb_set r ! i), blk_size (rbb_set r ! i))"

definition same_buf :: "rt_rbb \<Rightarrow> rt_rbb \<Rightarrow> bool" where
  "same_buf r r' \<longleftrightarrow> rbb_buf r' = rbb_buf r \<and> rbb_buf_size r' = rbb_buf_size r \<and>
     length (rbb_set r') = length (rbb_set r)"

lemma rbb_lists_bound: "rbb_lists r used fr \<Longrightarrow> i \<in> set used \<union> set fr \<Longrightarrow> i < length (rbb_set r)"
  by (auto simp: rbb_lists_def dest: seg_bound)

lemma slist_remove_first:
  assumes "n < length bs"
  shows "rt_slist_remove (bs, Some n) n = Inr (bs, blk_next (bs ! n))"
  using assms by (simp add: rt_slist_remove_def set_next_def)

lemma find_empty_some:
  assumes "rbb_lists r used (n # fr)"
  shows "find_empty_blk_in_set r = Inr (Some n, r\<lparr>rbb_free := blk_next (rbb_set r ! n)\<rparr>)"
    and "rbb_lists (r\<lparr>rbb_free := blk_next (rbb_set r ! n)\<rparr>) used fr"
proof -
  have n: "n < length (rbb_set r)" "rbb_free r = Some n" "blk_status (rbb_set r ! n) = RT_RBB_BLK_UNUSED"
    using assms by (auto simp: rbb_lists_def)
  then show "find_empty_blk_in_set r = Inr (Some n, r\<lparr>rbb_free := blk_next (rbb_set r ! n)\<rparr>)"
    by (simp add: find_empty_blk_in_set_def slist_remove_first)
  show "rbb_lists (r\<lparr>rbb_free := blk_next (rbb_set r ! n)\<rparr>) used fr"
    using assms by (auto simp: rbb_lists_def)
qed

lemma find_empty_none: "rbb_lists r used [] \<Longrightarrow> find_empty_blk_in_set r = Inr (None, r)"
  by (simp add: rbb_lists_def find_empty_blk_in_set_def)

lemma use_blk_lists:
  assumes l: "rbb_lists r used fr" and n: "n < length (rbb_set r)" "n \<notin> set used" "n \<notin> set fr"
  shows "rbb_lists (use_blk r n b sz) (used @ [n]) fr" and "same_buf r (use_blk r n b sz)"
    and "extent (use_blk r n b sz) n = (b, sz mod 2 ^ 24)"
    and "i \<noteq> n \<Longrightarrow> extent (use_blk r n b sz) i = extent r i"
proof -
  define bs1 where "bs1 = (case rbb_tail r of None \<Rightarrow> rbb_set r
    | Some t \<Rightarrow> (rbb_set r)[t := (rbb_set r ! t)\<lparr>blk_next := Some n\<rparr>])"
  define bs2 where "bs2 = bs1[n := (bs1 ! n)\<lparr>blk_next := None, blk_status := RT_RBB_BLK_INITED, blk_buf := b,
    blk_size := sz mod 2 ^ 24\<rparr>]"
  have u: "use_blk r n b sz = r\<lparr>rbb_set := bs2, rbb_list := (if rbb_tail r = None then Some n else rbb_list r),
      rbb_tail := Some n\<rparr>"
    using n(1) by (auto simp: use_blk_def list_append_def set_next_def bs2_def bs1_def Let_def split: option.split)
  have len: "length bs2 = length (rbb_set r)" "length bs1 = length (rbb_set r)"
    by (auto simp: bs2_def bs1_def split: option.split)
  have tail: "rbb_tail r = Some t \<Longrightarrow> t \<in> set used" for t
    using l by (auto simp: rbb_lists_def split: if_splits)
  have other: "blk_status (bs2 ! i) = blk_status (rbb_set r ! i)" "blk_buf (bs2 ! i) = blk_buf (rbb_set r ! i)"
    "blk_size (bs2 ! i) = blk_size (rbb_set r ! i)" if "i \<noteq> n" for i
    using that rbb_lists_bound [OF l] tail
    by (auto simp: bs2_def bs1_def nth_list_update split: option.split)
  have "path bs2 (if rbb_tail r = None then Some n else rbb_list r) (used @ [n])"
  proof (cases "used = []")
    case True
    then show ?thesis using l n(1) len by (auto simp: rbb_lists_def bs2_def)
  next
    case False
    then obtain us t where us: "used = us @ [t]" by (metis append_butlast_last_id)
    have "t < length (rbb_set r)" "t \<noteq> n" "t \<notin> set us" "rbb_tail r = Some t" "seg (rbb_set r) (rbb_list r) us (Some t)"
      using l n us by (auto simp: rbb_lists_def seg_append)
    moreover from this have "seg bs2 (rbb_list r) us (Some t)"
      using n(2) us by (simp add: bs2_def bs1_def)
    ultimately show ?thesis using us n(1) len by (simp add: seg_append bs2_def bs1_def)
  qed
  moreover have "rbb_tail r = Some t \<Longrightarrow> t \<notin> set fr" for t
    using tail l by (auto simp: rbb_lists_def)
  then have "path bs2 (rbb_free r) fr"
    using l n(3) by (simp add: rbb_lists_def bs2_def bs1_def split: option.split)
  moreover have "blk_status (bs2 ! n) = RT_RBB_BLK_INITED" using n(1) len by (simp add: bs2_def)
  then have "blk_status (bs2 ! i) \<noteq> RT_RBB_BLK_UNUSED \<longleftrightarrow> i \<in> set (used @ [n])" if "i < length bs2" for i
    using l that len other(1) [of i] by (cases "i = n") (auto simp: rbb_lists_def)
  ultimately show "rbb_lists (use_blk r n b sz) (used @ [n]) fr"
    using l n unfolding rbb_lists_def u by auto
  show "same_buf r (use_blk r n b sz)" using len by (simp add: u same_buf_def)
  show "extent (use_blk r n b sz) n = (b, sz mod 2 ^ 24)" using n(1) len by (simp add: u extent_def bs2_def)
  show "extent (use_blk r n b sz) i = extent r i" if "i \<noteq> n" using other that by (simp add: u extent_def)
qed

lemma list_remove_lists:
  assumes l: "rbb_lists r (xs @ n # ys) fr"
  shows "\<exists>bs h. list_remove r n = Inr (r\<lparr>rbb_set := bs, rbb_list := h,
      rbb_tail := (if xs @ ys = [] then None else Some (last (xs @ ys)))\<rparr>) \<and>
    length bs = length (rbb_set r) \<and> path bs h (xs @ ys) \<and> path bs (rbb_free r) fr \<and>
    (\<forall>i. blk_status (bs ! i) = blk_status (rbb_set r ! i) \<and> blk_buf (bs ! i) = blk_buf (rbb_set r ! i) \<and>
         blk_size (bs ! i) = blk_size (rbb_set r ! i))"
proof -
  let ?bs = "rbb_set r" and ?node = "if xs = [] then None else Some (last xs)"
  have d: "distinct (xs @ n # ys)" "distinct fr" "set (xs @ n # ys) \<inter> set fr = {}"
    and s: "seg ?bs (rbb_list r) xs (Some n)" "n < length ?bs" "path ?bs (blk_next (?bs ! n)) ys"
    and f: "path ?bs (rbb_free r) fr"
    using l by (auto simp: rbb_lists_def seg_append)
  have "length (xs @ n # ys) \<le> length ?bs"
    using rbb_lists_bound [OF l] by (intro distinct_bound [OF d(1)]) auto
  then have w: "slist_walk (length ?bs + 2) ?bs None (rbb_list r) n = Inr (?node, Some n)"
    using d(1) by (intro slist_walk_found [OF s(1)]) auto
  define bs1 where "bs1 = (if xs = [] then ?bs else ?bs[last xs := (?bs ! last xs)\<lparr>blk_next := blk_next (?bs ! n)\<rparr>])"
  define bs2 where "bs2 = bs1[n := (bs1 ! n)\<lparr>blk_next := None\<rparr>]"
  define h where "h = (if xs = [] then blk_next (?bs ! n) else rbb_list r)"
  have "list_remove r n = Inr (r\<lparr>rbb_set := bs2, rbb_list := h,
      rbb_tail := (if rbb_tail r = Some n then ?node else rbb_tail r)\<rparr>)"
    unfolding list_remove_def w bindR_simps prod.case option.case
    using s(2) by (simp add: set_next_def bs2_def bs1_def h_def Let_def)
  moreover have "(if rbb_tail r = Some n then ?node else rbb_tail r) = (if xs @ ys = [] then None else Some (last (xs @ ys)))"
    using l d(1) by (cases "ys = []") (auto simp: rbb_lists_def)
  moreover have "path bs2 h (xs @ ys)"
  proof (cases "xs = []")
    case True
    then show ?thesis using s(3) d(1) by (simp add: bs2_def bs1_def h_def)
  next
    case False
    then obtain us t where us: "xs = us @ [t]" by (metis append_butlast_last_id)
    with s(1) d(1) have "seg ?bs (rbb_list r) us (Some t)" "t < length ?bs" "t \<noteq> n" "t \<notin> set us" "n \<notin> set us"
      "t \<notin> set ys" "n \<notin> set ys"
      by (auto simp: seg_append)
    with us s(3) show ?thesis by (simp add: seg_append bs2_def bs1_def h_def)
  qed
  moreover have "last xs \<in> set (xs @ n # ys)" if "xs \<noteq> []" using that by simp
  then have "last xs \<notin> set fr" if "xs \<noteq> []" using d(3) that by blast
  then have "path bs2 (rbb_free r) fr" using f d(3) by (simp add: bs2_def bs1_def)
  moreover have "length bs2 = length ?bs" by (simp add: bs2_def bs1_def)
  moreover have "blk_status (bs2 ! i) = blk_status (?bs ! i) \<and> blk_buf (bs2 ! i) = blk_buf (?bs ! i) \<and>
      blk_size (bs2 ! i) = blk_size (?bs ! i)" for i
    by (simp add: bs2_def bs1_def upd_fields)
  ultimately show ?thesis by (intro exI [of _ bs2] exI [of _ h]) simp
qed

lemma blk_free_lists:
  assumes l: "rbb_lists r (xs @ n # ys) fr"
  shows "\<exists>r'. rt_rbb_blk_free r n = Inr r' \<and> rbb_lists r' (xs @ ys) (n # fr) \<and> same_buf r r' \<and>
    (\<forall>i. extent r' i = extent r i)"
proof -
  obtain bs h where b: "list_remove r n = Inr (r\<lparr>rbb_set := bs, rbb_list := h,
      rbb_tail := (if xs @ ys = [] then None else Some (last (xs @ ys)))\<rparr>)"
    "length bs = length (rbb_set r)" "path bs h (xs @ ys)" "path bs (rbb_free r) fr"
    "\<forall>i. blk_status (bs ! i) = blk_status (rbb_set r ! i) \<and> blk_buf (bs ! i) = blk_buf (rbb_set r ! i) \<and>
         blk_size (bs ! i) = blk_size (rbb_set r ! i)"
    using list_remove_lists [OF l] by blast
  define bs' where "bs' = bs[n := (bs ! n)\<lparr>blk_status := RT_RBB_BLK_UNUSED, blk_next := rbb_free r\<rparr>]"
  define r' where "r' = r\<lparr>rbb_set := bs', rbb_list := h,
      rbb_tail := (if xs @ ys = [] then None else Some (last (xs @ ys))), rbb_free := Some n\<rparr>"
  have n: "n < length (rbb_set r)" "blk_status (rbb_set r ! n) \<noteq> RT_RBB_BLK_UNUSED"
    using l rbb_lists_bound [OF l, of n] by (auto simp: rbb_lists_def)
  then have "rt_rbb_blk_free r n = Inr r'"
    using b(1,2) by (simp add: rt_rbb_blk_free_def set_status_def rt_slist_insert_def set_next_def r'_def bs'_def)
  moreover have "blk_status (bs' ! i) \<noteq> RT_RBB_BLK_UNUSED \<longleftrightarrow> i \<in> set (xs @ ys)" if "i < length bs'" for i
    using that l b(2,5) n(1) by (auto simp: bs'_def rbb_lists_def nth_list_update)
  then have "rbb_lists r' (xs @ ys) (n # fr)"
    using l b(2-4) n(1) by (auto simp: rbb_lists_def r'_def bs'_def)
  moreover have "same_buf r r'" using b(2) by (simp add: same_buf_def r'_def bs'_def)
  moreover have "extent r' i = extent r i" for i
    using b(2,5) n(1) by (cases "i = n") (simp_all add: extent_def r'_def bs'_def)
  ultimately show ?thesis by blast
qed

lemma set_status_lists:
  assumes "rbb_lists r used fr" and "i \<in> set used" and "st \<noteq> RT_RBB_BLK_UNUSED"
  shows "rbb_lists (set_status i st r) used fr" and "same_buf r (set_status i st r)"
    and "extent (set_status i st r) j = extent r j"
proof -
  let ?bs = "(rbb_set r)[i := (rbb_set r ! i)\<lparr>blk_status := st\<rparr>]"
  have i: "i < length (rbb_set r)" using assms(1,2) by (auto intro: rbb_lists_bound)
  have k: "blk_next (?bs ! k) = blk_next (rbb_set r ! k)" for k using i by (simp add: nth_list_update)
  have "seg ?bs p xs q = seg (rbb_set r) p xs q" for p xs q by (rule seg_keep) (simp_all add: k)
  then show "rbb_lists (set_status i st r) used fr"
    using assms i by (auto simp: rbb_lists_def set_status_def nth_list_update)
  show "same_buf r (set_status i st r)" by (simp add: same_buf_def set_status_def)
  show "extent (set_status i st r) j = extent r j" using i by (cases "i = j") (simp_all add: extent_def set_status_def)
qed

subsection \<open>The layout of the blocks\<close>

text \<open>Blocks one after the other between two addresses.\<close>

fun laid :: "nat \<Rightarrow> nat \<Rightarrow> (nat \<times> nat) list \<Rightarrow> bool" where
  "laid lo hi [] \<longleftrightarrow> lo \<le> hi"
| "laid lo hi ((b, s) # xs) \<longleftrightarrow> lo \<le> b \<and> 0 < s \<and> laid (b + s) hi xs"

text \<open>At most one wrap: first the blocks from some middle to the end, then those from the start to the middle.\<close>

definition ring_laid :: "nat \<Rightarrow> nat \<Rightarrow> (nat \<times> nat) list \<Rightarrow> bool" where
  "ring_laid lo hi bs \<longleftrightarrow> (\<exists>xs ys m. bs = xs @ ys \<and> laid m hi xs \<and> laid lo m ys)"

lemma laid_le: "laid lo hi xs \<Longrightarrow> lo \<le> hi"
  by (induction lo hi xs rule: laid.induct) auto

lemma laid_lower: "laid m hi xs \<Longrightarrow> lo \<le> m \<Longrightarrow> laid lo hi xs"
  by (cases xs) auto

lemma laid_upper: "laid lo m xs \<Longrightarrow> m \<le> hi \<Longrightarrow> laid lo hi xs"
  by (induction lo m xs rule: laid.induct) auto

lemma laid_snoc: "laid lo hi (xs @ [(b, s)]) \<longleftrightarrow> laid lo b xs \<and> 0 < s \<and> b + s \<le> hi"
  by (induction xs arbitrary: lo) (auto dest: laid_le)

lemma laid_remove: "laid lo hi (xs @ b # ys) \<Longrightarrow> laid lo hi (xs @ ys)"
proof (induction xs arbitrary: lo)
  case Nil
  then show ?case using laid_lower [of "fst b + snd b" hi ys lo] by (cases b) auto
qed auto

lemma laid_tail: "laid lo hi (xs @ [(b, s)]) \<Longrightarrow> laid lo (b + s) (xs @ [(b, s)])"
  by (simp add: laid_snoc)

lemma laid_hd_last: "laid lo hi xs \<Longrightarrow> xs \<noteq> [] \<Longrightarrow> fst (hd xs) \<le> fst (last xs)"
proof (induction lo hi xs rule: laid.induct)
  case (2 lo hi b s xs)
  then show ?case by (cases xs) auto
qed auto

lemma laid_in: "laid lo hi xs \<Longrightarrow> (b, s) \<in> set xs \<Longrightarrow> lo \<le> b \<and> 0 < s \<and> b + s \<le> hi"
  by (induction lo hi xs rule: laid.induct) (auto dest: laid_le)

lemma laid_order:
  "laid lo hi xs \<Longrightarrow> i < j \<Longrightarrow> j < length xs \<Longrightarrow> fst (xs ! i) + snd (xs ! i) \<le> fst (xs ! j)"
proof (induction lo hi xs arbitrary: i j rule: laid.induct)
  case (2 lo hi b s xs)
  show ?case
  proof (cases i)
    case 0
    then obtain j' where "j = Suc j'" "j' < length xs" using "2.prems" by (cases j) auto
    moreover have "b + s \<le> fst (xs ! j')" using laid_in [of "b + s" hi xs] "2.prems"(1) calculation(2)
      by (metis laid.simps(2) nth_mem prod.collapse)
    ultimately show ?thesis using 0 by simp
  next
    case (Suc i')
    then obtain j' where "j = Suc j'" using "2.prems"(2) by (cases j) auto
    with Suc "2" show ?thesis by auto
  qed
qed auto

lemma ring_laid_remove:
  assumes "ring_laid lo hi (us @ b # vs)"
  shows "ring_laid lo hi (us @ vs)"
proof -
  obtain xs ys m where x: "us @ b # vs = xs @ ys" "laid m hi xs" "laid lo m ys"
    using assms by (auto simp: ring_laid_def)
  from x(1) consider zs where "xs = us @ b # zs" "vs = zs @ ys" | zs where "us = xs @ zs" "ys = zs @ b # vs"
    by (auto simp: append_eq_append_conv2 Cons_eq_append_conv append_eq_Cons_conv)
  then show ?thesis
  proof cases
    case (1 zs)
    then have "laid m hi (us @ zs)" using x(2) laid_remove by blast
    with x(3) 1 show ?thesis unfolding ring_laid_def by (intro exI [of _ "us @ zs"] exI [of _ ys] exI [of _ m]) simp
  next
    case (2 zs)
    then have "laid lo m (zs @ vs)" using x(3) laid_remove by blast
    with x(2) 2 show ?thesis unfolding ring_laid_def by (intro exI [of _ xs] exI [of _ "zs @ vs"] exI [of _ m]) simp
  qed
qed

lemma ring_laid_Nil: "lo \<le> hi \<Longrightarrow> ring_laid lo hi []"
  unfolding ring_laid_def by (intro exI [of _ "[]"] exI [of _ lo]) simp

lemma ring_laid_le: "ring_laid lo hi bs \<Longrightarrow> lo \<le> hi"
  by (auto simp: ring_laid_def dest!: laid_le)

text \<open>The test \<open>head->buf <= tail->buf\<close> tells the two layouts apart.\<close>

lemma ring_plain:
  assumes "ring_laid lo hi (us @ [(b, s)])" and "fst (hd (us @ [(b, s)])) \<le> b"
  shows "laid lo hi (us @ [(b, s)])"
proof -
  obtain xs ys m where x: "us @ [(b, s)] = xs @ ys" "laid m hi xs" "laid lo m ys"
    using assms(1) by (auto simp: ring_laid_def)
  consider "ys = []" | "xs = []" | "xs \<noteq> []" "ys \<noteq> []" by blast
  then show ?thesis
  proof cases
    case 1
    then show ?thesis using x laid_le [OF x(3)] by (auto intro: laid_lower)
  next
    case 2
    then show ?thesis using x laid_le [OF x(2)] by (auto intro: laid_upper)
  next
    case 3
    then have "(b, s) \<in> set ys" using x(1) by (metis last_append last_in_set last_snoc)
    then have "b + s \<le> m" "0 < s" using laid_in [OF x(3)] by auto
    moreover have "m \<le> fst (hd xs)" using x(2) 3(1) by (cases xs) auto
    moreover have "hd (us @ [(b, s)]) = hd xs" using x(1) 3(1) by simp
    ultimately show ?thesis using assms(2) by simp
  qed
qed

lemma ring_in:
  assumes "ring_laid lo hi bs" and "(b, s) \<in> set bs"
  shows "lo \<le> b \<and> 0 < s \<and> b + s \<le> hi"
proof -
  obtain xs ys m where x: "bs = xs @ ys" "laid m hi xs" "laid lo m ys"
    using assms(1) by (auto simp: ring_laid_def)
  then show ?thesis
    using laid_in [OF x(2), of b s] laid_in [OF x(3), of b s] laid_le [OF x(2)] laid_le [OF x(3)] assms(2) by auto
qed

lemma ring_wrapped:
  assumes "ring_laid lo hi (us @ [(b, s)])" and "b < fst (hd (us @ [(b, s)]))"
  shows "b + s \<le> fst (hd (us @ [(b, s)]))"
    and "b + s + sz \<le> fst (hd (us @ [(b, s)])) \<Longrightarrow> 0 < sz \<Longrightarrow> ring_laid lo hi (us @ [(b, s), (b + s, sz)])"
proof -
  let ?h = "fst (hd (us @ [(b, s)]))"
  obtain xs ys m where x: "us @ [(b, s)] = xs @ ys" "laid m hi xs" "laid lo m ys"
    using assms(1) by (auto simp: ring_laid_def)
  have "ys \<noteq> []"
  proof
    assume "ys = []"
    then have "laid m hi (us @ [(b, s)])" using x by simp
    from laid_hd_last [OF this] assms(2) show False by simp
  qed
  moreover have xs: "xs \<noteq> []"
  proof
    assume "xs = []"
    then have "laid lo m (us @ [(b, s)])" using x by simp
    from laid_hd_last [OF this] assms(2) show False by simp
  qed
  ultimately obtain ys' where y: "ys = ys' @ [(b, s)]" "us = xs @ ys'"
    using x(1) by (metis append_butlast_last_id append_assoc append_eq_append_conv butlast_append last_append last_snoc butlast_snoc)
  have h: "?h = fst (hd xs)" using x(1) xs by simp
  have lh: "laid ?h hi xs" "m \<le> ?h" using x(2) xs h by (cases xs; auto)+
  have bm: "laid lo b ys'" "0 < s" "b + s \<le> m" using x(3) by (simp_all add: y laid_snoc)
  with lh(2) show "b + s \<le> ?h" by simp
  assume sz: "b + s + sz \<le> ?h" "0 < sz"
  have "laid lo ?h (ys' @ [(b, s), (b + s, sz)])"
    using bm sz laid_snoc [of lo ?h "ys' @ [(b, s)]" "b + s" sz] by (simp add: laid_snoc)
  with lh(1) show "ring_laid lo hi (us @ [(b, s), (b + s, sz)])"
    unfolding ring_laid_def using y
    by (intro exI [of _ xs] exI [of _ "ys' @ [(b, s), (b + s, sz)]"] exI [of _ ?h]) simp
qed

subsection \<open>The invariant\<close>

definition rbb_inv :: "rt_rbb \<Rightarrow> nat list \<Rightarrow> nat list \<Rightarrow> bool" where
  "rbb_inv r used fr \<longleftrightarrow>
     rbb_lists r used fr \<and> rbb_buf r + rbb_buf_size r < 2 ^ 32 \<and>
     ring_laid (rbb_buf r) (rbb_buf r + rbb_buf_size r) (map (extent r) used)"

lemma rbb_inv_cong:
  assumes "rbb_inv r used fr" and "rbb_lists r' used' fr'" and "same_buf r r'" and "map (extent r') used' = map (extent r) used"
  shows "rbb_inv r' used' fr'"
  using assms by (simp add: rbb_inv_def same_buf_def)

lemma sub32_le: "b \<le> a \<Longrightarrow> a < 2 ^ 32 \<Longrightarrow> sub32 a b = a - b"
proof -
  assume "b \<le> a" "a < 2 ^ 32"
  then have "(int a - int b) mod 2 ^ 32 = int a - int b" by (intro mod_pos_pos_trivial) auto
  with \<open>b \<le> a\<close> show ?thesis by (simp add: sub32_def)
qed

text \<open>Appending a block that the layout has room for.\<close>

lemma use_blk_inv:
  assumes i: "rbb_inv r used fr" and n: "n < length (rbb_set r)" "n \<notin> set used" "n \<notin> set fr" and sz: "sz < 2 ^ 24"
    and lay: "ring_laid (rbb_buf r) (rbb_buf r + rbb_buf_size r) (map (extent r) used @ [(b, sz)])"
  shows "rbb_inv (use_blk r n b sz) (used @ [n]) fr"
proof -
  have l: "rbb_lists r used fr" using i by (simp add: rbb_inv_def)
  have e: "map (extent (use_blk r n b sz)) (used @ [n]) = map (extent r) used @ [(b, sz)]"
    using use_blk_lists(3) [OF l n, of b sz] use_blk_lists(4) [OF l n, of _ b sz] n(2) sz
    by (auto intro!: map_cong) (metis prod.inject)+
  show ?thesis
    unfolding rbb_inv_def e using use_blk_lists(1,2) [OF l n, of b sz] i lay by (simp add: rbb_inv_def same_buf_def)
qed

text \<open>The state in which a free descriptor has been taken off its list.\<close>

definition popped :: "rt_rbb \<Rightarrow> nat \<Rightarrow> rt_rbb" where
  "popped r n = r\<lparr>rbb_free := blk_next (rbb_set r ! n)\<rparr>"

lemma popped_inv:
  assumes "rbb_inv r used (n # fr)"
  shows "find_empty_blk_in_set r = Inr (Some n, popped r n)" and "rbb_inv (popped r n) used fr"
    and "n < length (rbb_set (popped r n))" "n \<notin> set used" "n \<notin> set fr"
    and "rbb_set (popped r n) = rbb_set r" "rbb_list (popped r n) = rbb_list r" "rbb_tail (popped r n) = rbb_tail r"
    and "rbb_buf (popped r n) = rbb_buf r" "rbb_buf_size (popped r n) = rbb_buf_size r"
proof -
  have l: "rbb_lists r used (n # fr)" using assms by (simp add: rbb_inv_def)
  show "find_empty_blk_in_set r = Inr (Some n, popped r n)"
    unfolding popped_def by (rule find_empty_some(1) [OF l])
  have "extent (popped r n) = extent r" by (simp add: fun_eq_iff extent_def popped_def)
  with find_empty_some(2) [OF l] assms show "rbb_inv (popped r n) used fr"
    by (simp add: rbb_inv_def popped_def)
  show "n < length (rbb_set (popped r n))" using rbb_lists_bound [OF l, of n] by (simp add: popped_def)
  show "n \<notin> set used" "n \<notin> set fr" using l by (auto simp: rbb_lists_def)
qed (simp_all add: popped_def)

lemma alloc_room:
  assumes i: "rbb_inv r (us @ [t]) fr" and sz: "0 < sz"
    and hb: "hb = blk_buf (rbb_set r ! hd (us @ [t]))"
    and te: "te = blk_buf (rbb_set r ! t) + blk_size (rbb_set r ! t)"
  shows "hb \<le> blk_buf (rbb_set r ! t) \<Longrightarrow> sz \<le> sub32 (rbb_buf r + rbb_buf_size r) te \<Longrightarrow>
      ring_laid (rbb_buf r) (rbb_buf r + rbb_buf_size r) (map (extent r) (us @ [t]) @ [(te, sz)])"
    and "hb \<le> blk_buf (rbb_set r ! t) \<Longrightarrow> sz \<le> sub32 hb (rbb_buf r) \<Longrightarrow>
      ring_laid (rbb_buf r) (rbb_buf r + rbb_buf_size r) (map (extent r) (us @ [t]) @ [(rbb_buf r, sz)])"
    and "blk_buf (rbb_set r ! t) < hb \<Longrightarrow> sz \<le> sub32 hb te \<Longrightarrow>
      ring_laid (rbb_buf r) (rbb_buf r + rbb_buf_size r) (map (extent r) (us @ [t]) @ [(te, sz)])"
proof -
  let ?lo = "rbb_buf r" and ?hi = "rbb_buf r + rbb_buf_size r" and ?es = "map (extent r) (us @ [t])"
  define b s where "b = blk_buf (rbb_set r ! t)" and "s = blk_size (rbb_set r ! t)"
  have es: "?es = map (extent r) us @ [(b, s)]" by (simp add: extent_def b_def s_def)
  have hd: "fst (hd ?es) = hb" by (cases us) (simp_all add: hb extent_def)
  have ring: "ring_laid ?lo ?hi ?es" "?hi < 2 ^ 32" using i by (simp_all add: rbb_inv_def)
  have "hd ?es \<in> set ?es" by (rule hd_in_set) simp
  then have h: "?lo \<le> hb" "hb < 2 ^ 32"
    using ring_in [OF ring(1), of hb "snd (hd ?es)"] hd ring(2) by (metis prod.collapse, metis prod.collapse add_leE order_le_less_trans)
  have "(b, s) \<in> set ?es" unfolding es by simp
  then have t: "te \<le> ?hi" using ring_in [OF ring(1)] by (simp add: te b_def s_def)
  have plain: "laid ?lo ?hi (map (extent r) us @ [(b, s)])" if "hb \<le> blk_buf (rbb_set r ! t)"
    using ring_plain [OF ring(1) [unfolded es]] hd [unfolded es] that by (simp add: b_def)
  show "ring_laid ?lo ?hi (?es @ [(te, sz)])" if "hb \<le> blk_buf (rbb_set r ! t)" "sz \<le> sub32 ?hi te"
  proof -
    have "te + sz \<le> ?hi" using that(2) sub32_le [OF t ring(2)] t by simp
    with plain [OF that(1)] sz have "laid ?lo ?hi ((map (extent r) us @ [(b, s)]) @ [(te, sz)])"
      by (subst laid_snoc) (simp add: laid_snoc te b_def s_def)
    then show ?thesis
      unfolding es ring_laid_def
      by (intro exI [of _ "(map (extent r) us @ [(b, s)]) @ [(te, sz)]"] exI [of _ "[]"] exI [of _ ?lo]) simp
  qed
  show "ring_laid ?lo ?hi (?es @ [(?lo, sz)])" if "hb \<le> blk_buf (rbb_set r ! t)" "sz \<le> sub32 hb ?lo"
  proof -
    have "?lo + sz \<le> hb" using that(2) sub32_le [OF h] h(1) by simp
    with plain [OF that(1)] hd have "laid (?lo + sz) ?hi ?es"
      unfolding es by (cases us) (auto simp: extent_def)
    then show ?thesis
      unfolding ring_laid_def using sz by (intro exI [of _ ?es] exI [of _ "[(?lo, sz)]"] exI [of _ "?lo + sz"]) simp
  qed
  show "ring_laid ?lo ?hi (?es @ [(te, sz)])" if w: "blk_buf (rbb_set r ! t) < hb" "sz \<le> sub32 hb te"
  proof -
    note rw = ring_wrapped [OF ring(1) [unfolded es], folded es, unfolded hd, folded b_def]
    have "te \<le> hb" using rw(1) w(1) by (simp add: te b_def s_def)
    then have "te + sz \<le> hb" using sub32_le [OF _ h(2), of te] w(2) by simp
    then show ?thesis using rw(2) w(1) sz by (simp add: extent_def te b_def s_def)
  qed
qed

text \<open>What an allocation does: the new block is the last of the list, or there is no room for it.\<close>

lemma alloc_inv:
  assumes i: "rbb_inv r used (n # fr)" and sz: "0 < sz" "sz < 2 ^ 24" "sz \<le> rbb_buf_size r"
  shows "(\<exists>r'. rt_rbb_blk_alloc r sz = Inr (Some n, r') \<and> rbb_inv r' (used @ [n]) fr \<and> same_buf r r' \<and>
           snd (extent r' n) = sz) \<or>
    rt_rbb_blk_alloc r sz = Inr (None, popped r n) \<and> rbb_inv (popped r n) used fr"
proof -
  note p = popped_inv [OF i]
  let ?p = "popped r n"
  have ok: "rbb_inv (use_blk ?p n b sz) (used @ [n]) fr \<and> same_buf r (use_blk ?p n b sz) \<and>
      snd (extent (use_blk ?p n b sz) n) = sz"
    if "ring_laid (rbb_buf ?p) (rbb_buf ?p + rbb_buf_size ?p) (map (extent ?p) used @ [(b, sz)])" for b
  proof -
    have l: "rbb_lists ?p used fr" using p(2) by (simp add: rbb_inv_def)
    from use_blk_inv [OF p(2-5) sz(2) that] use_blk_lists(2,3) [OF l p(3-5), of b sz] sz(2)
    show ?thesis by (simp add: same_buf_def p)
  qed
  show ?thesis
  proof (cases used rule: rev_cases)
    case Nil
    then have "rt_rbb_blk_alloc r sz = Inr (Some n, use_blk ?p n (rbb_buf ?p) sz)"
      using p(1,2) sz(2) by (simp add: rt_rbb_blk_alloc_def rbb_inv_def rbb_lists_def)
    moreover have "ring_laid (rbb_buf ?p) (rbb_buf ?p + rbb_buf_size ?p) (map (extent ?p) used @ [(rbb_buf ?p, sz)])"
      unfolding ring_laid_def using sz Nil
      by (intro exI [of _ "[(rbb_buf ?p, sz)]"] exI [of _ "[]"] exI [of _ "rbb_buf ?p"]) (simp add: p)
    ultimately show ?thesis using ok by blast
  next
    case (snoc us t)
    have pt: "rbb_list ?p = Some (hd (us @ [t]))" "rbb_tail ?p = Some t"
      using p(2) snoc by (cases us; simp add: rbb_inv_def rbb_lists_def)+
    define hb te where "hb = blk_buf (rbb_set ?p ! hd (us @ [t]))"
      and "te = blk_buf (rbb_set ?p ! t) + blk_size (rbb_set ?p ! t)"
    note room = alloc_room [OF p(2) [unfolded snoc] sz(1) hb_def te_def, folded snoc]
    have "rt_rbb_blk_alloc r sz =
       (if hb \<le> blk_buf (rbb_set ?p ! t) then
          if sz \<le> sub32 (rbb_buf ?p + rbb_buf_size ?p) te then Inr (Some n, use_blk ?p n te sz)
          else if sz \<le> sub32 hb (rbb_buf ?p) then Inr (Some n, use_blk ?p n (rbb_buf ?p) sz)
          else Inr (None, ?p)
        else if sz \<le> sub32 hb te then Inr (Some n, use_blk ?p n te sz) else Inr (None, ?p))"
      using p(1) pt sz(2) by (simp add: rt_rbb_blk_alloc_def hb_def te_def Let_def)
    then show ?thesis
      using ok [OF room(1)] ok [OF room(2)] ok [OF room(3)] p(2) by (auto simp: not_le)
  qed
qed

lemma init_loop_lists:
  "i + k = length bs \<Longrightarrow> path bs fr (rev [0..<i]) \<Longrightarrow> \<forall>j<i. blk_status (bs ! j) = RT_RBB_BLK_UNUSED \<Longrightarrow>
   \<exists>bs' fr'. rbb_init_loop i k (bs, fr) = (bs', fr') \<and> length bs' = length bs \<and>
     path bs' fr' (rev [0..<length bs]) \<and> (\<forall>j<length bs. blk_status (bs' ! j) = RT_RBB_BLK_UNUSED)"
proof (induction k arbitrary: i bs fr)
  case (Suc k)
  define bs1 where "bs1 = bs[i := (bs ! i)\<lparr>blk_status := RT_RBB_BLK_UNUSED, blk_next := fr\<rparr>]"
  have "rbb_init_loop i (Suc k) (bs, fr) = rbb_init_loop (Suc i) k (bs1, Some i)"
    using Suc.prems(1) by (simp add: rt_slist_insert_def set_next_def bs1_def)
  moreover have "path bs1 (Some i) (rev [0..<Suc i])" using Suc.prems(1,2) by (simp add: bs1_def)
  moreover have "\<forall>j<Suc i. blk_status (bs1 ! j) = RT_RBB_BLK_UNUSED"
    using Suc.prems(1,3) by (auto simp: bs1_def less_Suc_eq)
  moreover have "Suc i + k = length bs1" "length bs1 = length bs" using Suc.prems(1) by (simp_all add: bs1_def)
  ultimately show ?case using Suc.IH [of "Suc i" bs1 "Some i"] by simp
qed auto

lemma init_inv:
  assumes "buf + bsz < 2 ^ 32"
  shows "rbb_inv (rt_rbb_init buf bsz bs) [] (rev [0..<length bs])"
    and "rbb_buf (rt_rbb_init buf bsz bs) = buf" "rbb_buf_size (rt_rbb_init buf bsz bs) = bsz"
proof -
  obtain bs' fr' where "rbb_init_loop 0 (length bs) (bs, None) = (bs', fr')" "length bs' = length bs"
    "path bs' fr' (rev [0..<length bs])" "\<forall>j<length bs. blk_status (bs' ! j) = RT_RBB_BLK_UNUSED"
    using init_loop_lists [of 0 "length bs" bs None] by auto
  then show "rbb_inv (rt_rbb_init buf bsz bs) [] (rev [0..<length bs])"
    "rbb_buf (rt_rbb_init buf bsz bs) = buf" "rbb_buf_size (rt_rbb_init buf bsz bs) = bsz"
    using assms ring_laid_Nil [of buf "buf + bsz"] by (simp_all add: rt_rbb_init_def rbb_inv_def rbb_lists_def)
qed

subsection \<open>All reachable states\<close>

inductive rbb_reach :: "nat \<Rightarrow> nat \<Rightarrow> rt_rbb \<Rightarrow> bool" for buf bsz where
  init: "rbb_reach buf bsz (rt_rbb_init buf bsz bs)"
| alloc: "rbb_reach buf bsz r \<Longrightarrow> 0 < sz \<Longrightarrow> sz \<le> bsz \<Longrightarrow> rt_rbb_blk_alloc r sz = Inr (x, r') \<Longrightarrow>
    rbb_reach buf bsz r'"
| put: "rbb_reach buf bsz r \<Longrightarrow> i < length (rbb_set r) \<Longrightarrow> rt_rbb_blk_put r i = Inr r' \<Longrightarrow> rbb_reach buf bsz r'"
| get: "rbb_reach buf bsz r \<Longrightarrow> rt_rbb_blk_get r = Inr (x, r') \<Longrightarrow> rbb_reach buf bsz r'"
| free: "rbb_reach buf bsz r \<Longrightarrow> i < length (rbb_set r) \<Longrightarrow> rt_rbb_blk_free r i = Inr r' \<Longrightarrow> rbb_reach buf bsz r'"
| queue_get: "rbb_reach buf bsz r \<Longrightarrow> rt_rbb_blk_queue_get r len q = Inr (n, q', r') \<Longrightarrow> rbb_reach buf bsz r'"
| queue_free: "rbb_reach buf bsz r \<Longrightarrow> rt_rbb_blk_queue_free r q = Inr r' \<Longrightarrow> rbb_reach buf bsz r'"

text \<open>The invariant with the lists hidden.\<close>

definition rbb_ok :: "nat \<Rightarrow> nat \<Rightarrow> rt_rbb \<Rightarrow> bool" where
  "rbb_ok buf bsz r \<longleftrightarrow> rbb_buf r = buf \<and> rbb_buf_size r = bsz \<and> (\<exists>used fr. rbb_inv r used fr)"

lemma status_used: "rbb_inv r used fr \<Longrightarrow> i < length (rbb_set r) \<Longrightarrow>
    blk_status (rbb_set r ! i) \<noteq> RT_RBB_BLK_UNUSED \<longleftrightarrow> i \<in> set used"
  by (auto simp: rbb_inv_def rbb_lists_def)

lemma set_status_ok:
  assumes "rbb_ok buf bsz r" and "i < length (rbb_set r)" and "blk_status (rbb_set r ! i) \<noteq> RT_RBB_BLK_UNUSED"
    and "st \<noteq> RT_RBB_BLK_UNUSED"
  shows "rbb_ok buf bsz (set_status i st r)"
proof -
  obtain used fr where i: "rbb_inv r used fr" using assms(1) by (auto simp: rbb_ok_def)
  have u: "i \<in> set used" using status_used [OF i assms(2)] assms(3) by simp
  have l: "rbb_lists r used fr" using i by (simp add: rbb_inv_def)
  note ss = set_status_lists [OF l u assms(4)]
  have "rbb_inv (set_status i st r) used fr" by (rule rbb_inv_cong [OF i ss(1,2)]) (simp add: ss(3))
  with ss(2) assms(1) show ?thesis by (auto simp: rbb_ok_def same_buf_def)
qed

lemma free_ok:
  assumes "rbb_ok buf bsz r" and "i < length (rbb_set r)" and f: "rt_rbb_blk_free r i = Inr r'"
  shows "rbb_ok buf bsz r'"
proof -
  obtain used fr where i: "rbb_inv r used fr" using assms(1) by (auto simp: rbb_ok_def)
  have "blk_status (rbb_set r ! i) \<noteq> RT_RBB_BLK_UNUSED" using f by (auto simp: rt_rbb_blk_free_def split: if_splits)
  then obtain xs ys where u: "used = xs @ i # ys" using status_used [OF i assms(2)] by (auto simp: in_set_conv_decomp)
  then have "rbb_lists r' (xs @ ys) (i # fr)" "same_buf r r'" "extent r' = extent r"
    using blk_free_lists [of r xs i ys fr] i f by (auto simp: rbb_inv_def fun_eq_iff)
  moreover have "ring_laid (rbb_buf r) (rbb_buf r + rbb_buf_size r) (map (extent r) (xs @ ys))"
    using i u ring_laid_remove [of "rbb_buf r" "rbb_buf r + rbb_buf_size r" "map (extent r) xs" "extent r i"
        "map (extent r) ys"] by (simp add: rbb_inv_def)
  ultimately have "rbb_inv r' (xs @ ys) (i # fr)" using i by (simp add: rbb_inv_def same_buf_def)
  with assms(1) \<open>same_buf r r'\<close> show ?thesis by (auto simp: rbb_ok_def same_buf_def)
qed

lemma get_loop_ok:
  "blk_get_loop fuel r node = Inr (x, r') \<Longrightarrow> rbb_ok buf bsz r \<Longrightarrow> rbb_ok buf bsz r'"
  by (induction fuel r node rule: blk_get_loop.induct)
     (auto split: option.splits if_splits intro!: set_status_ok)

lemma queue_get_ok:
  "queue_get_loop fuel len r node tmp l t q = Inr (n, q', r') \<Longrightarrow> rbb_ok buf bsz r \<Longrightarrow> rbb_ok buf bsz r'"
proof (induction fuel arbitrary: r node tmp l t q)
  case (Suc fuel)
  have g: "rbb_ok buf bsz (set_status i RT_RBB_BLK_GET r)"
    if "i < length (rbb_set r)" "blk_status (rbb_set r ! i) = RT_RBB_BLK_PUT" for i
    using Suc.prems(2) that by (intro set_status_ok) auto
  from Suc.prems show ?case
    by (auto simp: Let_def split: option.splits if_splits intro: Suc.IH [OF _ g] Suc.IH)
qed simp

declare blk_get_loop.simps [simp del] queue_get_loop.simps [simp del]

lemma queue_free_ok:
  "queue_free_loop r blk k = Inr r' \<Longrightarrow> rbb_ok buf bsz r \<Longrightarrow> rbb_ok buf bsz r'"
  by (induction r blk k rule: queue_free_loop.induct)
     (auto simp: bindR_eq_Inr split: option.splits if_splits intro: free_ok)

lemma alloc_ok:
  assumes "rbb_ok buf bsz r" and "0 < sz" "sz \<le> bsz" and a: "rt_rbb_blk_alloc r sz = Inr (x, r')"
  shows "rbb_ok buf bsz r'"
proof -
  obtain used fr where i: "rbb_inv r used fr" and b: "rbb_buf r = buf" "rbb_buf_size r = bsz"
    using assms(1) by (auto simp: rbb_ok_def)
  have sz: "sz < 2 ^ 24" using a by (auto simp: rt_rbb_blk_alloc_def split: if_splits)
  show ?thesis
  proof (cases fr)
    case Nil
    then have "rbb_lists r used []" using i by (simp add: rbb_inv_def)
    then have "rt_rbb_blk_alloc r sz = Inr (None, r)"
      using sz find_empty_none [of r used] by (simp add: rt_rbb_blk_alloc_def)
    with a assms(1) show ?thesis by simp
  next
    case (Cons n fr')
    have "rbb_buf (popped r n) = buf" "rbb_buf_size (popped r n) = bsz"
      using popped_inv(9,10) [OF i [unfolded Cons]] b by simp_all
    then show ?thesis
      using alloc_inv [OF i [unfolded Cons] assms(2) sz] assms(3) a b by (auto simp: rbb_ok_def same_buf_def)
  qed
qed

lemma rbb_reach_ok:
  assumes "rbb_reach buf bsz r" and "buf + bsz < 2 ^ 32"
  shows "rbb_ok buf bsz r"
  using assms(1)
proof induction
  case (init bs)
  then show ?case using init_inv [OF assms(2), of bs] by (auto simp: rbb_ok_def)
next
  case (alloc r sz x r')
  then show ?case by (auto intro: alloc_ok)
next
  case (put r i r')
  then show ?case by (auto simp: rt_rbb_blk_put_def split: if_splits intro!: set_status_ok)
next
  case (get r x r')
  then show ?case by (auto simp: rt_rbb_blk_get_def split: if_splits intro: get_loop_ok)
next
  case (free r i r')
  then show ?case by (auto intro: free_ok)
next
  case (queue_get r len q n q' r')
  then show ?case by (auto simp: rt_rbb_blk_queue_get_def split: option.splits if_splits intro: queue_get_ok)
next
  case (queue_free r q r')
  then show ?case by (auto simp: rt_rbb_blk_queue_free_def intro: queue_free_ok)
qed

subsection \<open>Blocks in use never overlap\<close>

lemma laid_disjoint:
  "laid lo hi xs \<Longrightarrow> i < length xs \<Longrightarrow> j < length xs \<Longrightarrow> i \<noteq> j \<Longrightarrow>
   fst (xs ! i) + snd (xs ! i) \<le> fst (xs ! j) \<or> fst (xs ! j) + snd (xs ! j) \<le> fst (xs ! i)"
  using laid_order [of lo hi xs i j] laid_order [of lo hi xs j i] by (cases "i < j") auto

lemma laid_nth: "laid lo hi xs \<Longrightarrow> i < length xs \<Longrightarrow> lo \<le> fst (xs ! i) \<and> fst (xs ! i) + snd (xs ! i) \<le> hi"
  using laid_in [of lo hi xs "fst (xs ! i)" "snd (xs ! i)"] by simp

text \<open>Two layouts, one behind the other: every entry of the first starts where the second has ended.\<close>

lemma ring_disjoint:
  assumes "ring_laid lo hi es" and "i < length es" "j < length es" "i \<noteq> j"
  shows "fst (es ! i) + snd (es ! i) \<le> fst (es ! j) \<or> fst (es ! j) + snd (es ! j) \<le> fst (es ! i)"
proof -
  obtain xs ys m where x: "es = xs @ ys" "laid m hi xs" "laid lo m ys"
    using assms(1) by (auto simp: ring_laid_def)
  let ?k = "length xs"
  consider "i < ?k" "j < ?k" | "i < ?k" "?k \<le> j" | "?k \<le> i" "j < ?k" | "?k \<le> i" "?k \<le> j" by linarith
  then show ?thesis
  proof cases
    case 1
    then show ?thesis using laid_disjoint [OF x(2) _ _ assms(4)] by (simp add: x(1) nth_append)
  next
    case 2
    then show ?thesis using laid_nth [OF x(2), of i] laid_nth [OF x(3), of "j - ?k"] assms(3)
      by (auto simp: x(1) nth_append less_diff_conv2)
  next
    case 3
    then show ?thesis using laid_nth [OF x(2), of j] laid_nth [OF x(3), of "i - ?k"] assms(2)
      by (auto simp: x(1) nth_append less_diff_conv2)
  next
    case 4
    then show ?thesis using laid_disjoint [OF x(3), of "i - ?k" "j - ?k"] assms(2-4)
      by (auto simp: x(1) nth_append less_diff_conv2)
  qed
qed

lemma reached_blocks:
  assumes "rbb_reach buf bsz r" and "buf + bsz < 2 ^ 32"
    and "i < length (rbb_set r)" "blk_status (rbb_set r ! i) \<noteq> RT_RBB_BLK_UNUSED"
    and "j < length (rbb_set r)" "blk_status (rbb_set r ! j) \<noteq> RT_RBB_BLK_UNUSED"
  shows "buf \<le> rt_rbb_blk_buf r i" and "0 < rt_rbb_blk_size r i"
    and "rt_rbb_blk_buf r i + rt_rbb_blk_size r i \<le> buf + rt_rbb_get_buf_size r"
    and "i \<noteq> j \<Longrightarrow> rt_rbb_blk_buf r i + rt_rbb_blk_size r i \<le> rt_rbb_blk_buf r j \<or>
                 rt_rbb_blk_buf r j + rt_rbb_blk_size r j \<le> rt_rbb_blk_buf r i"
proof -
  obtain used fr where v: "rbb_inv r used fr" "rbb_buf r = buf" "rbb_buf_size r = bsz"
    using rbb_reach_ok [OF assms(1,2)] by (auto simp: rbb_ok_def)
  have u: "i \<in> set used" "j \<in> set used" using status_used [OF v(1)] assms(3-6) by auto
  have ring: "ring_laid buf (buf + bsz) (map (extent r) used)" using v by (simp add: rbb_inv_def)
  have "(blk_buf (rbb_set r ! i), blk_size (rbb_set r ! i)) \<in> set (map (extent r) used)"
    using u(1) by (force simp: extent_def)
  from ring_in [OF ring this] show "buf \<le> rt_rbb_blk_buf r i" "0 < rt_rbb_blk_size r i"
    "rt_rbb_blk_buf r i + rt_rbb_blk_size r i \<le> buf + rt_rbb_get_buf_size r"
    by (simp_all add: rt_rbb_blk_buf_def rt_rbb_blk_size_def rt_rbb_get_buf_size_def v)
  assume "i \<noteq> j"
  from u obtain a b where "a < length used" "used ! a = i" "b < length used" "used ! b = j"
    by (auto simp: in_set_conv_nth)
  with ring_disjoint [OF ring, of a b] \<open>i \<noteq> j\<close>
  show "rt_rbb_blk_buf r i + rt_rbb_blk_size r i \<le> rt_rbb_blk_buf r j \<or>
        rt_rbb_blk_buf r j + rt_rbb_blk_size r j \<le> rt_rbb_blk_buf r i"
    by (auto simp: extent_def rt_rbb_blk_buf_def rt_rbb_blk_size_def)
qed

text \<open>C24: Every state reached from \<open>rt_rbb_init\<close> by the calls of the module keeps the blocks that are in use
  inside the buffer, non-empty and pairwise disjoint, whatever the order of allocation, release and wrap.
  The requests are positive and at most the buffer's size, which the calls themselves do not check.
\<close>

theorem rbb_blocks_disjoint:
  assumes "rbb_reach buf bsz r" and "buf + bsz < 2 ^ 32"
    and "i < length (rbb_set r)" "blk_status (rbb_set r ! i) \<noteq> RT_RBB_BLK_UNUSED"
    and "j < length (rbb_set r)" "blk_status (rbb_set r ! j) \<noteq> RT_RBB_BLK_UNUSED"
  shows "buf \<le> rt_rbb_blk_buf r i \<and> 0 < rt_rbb_blk_size r i \<and>
    rt_rbb_blk_buf r i + rt_rbb_blk_size r i \<le> buf + rt_rbb_get_buf_size r \<and>
    (i \<noteq> j \<longrightarrow> rt_rbb_blk_buf r i + rt_rbb_blk_size r i \<le> rt_rbb_blk_buf r j \<or>
               rt_rbb_blk_buf r j + rt_rbb_blk_size r j \<le> rt_rbb_blk_buf r i)"
  using reached_blocks [OF assms] by blast

subsection \<open>Blocks are got in the order of their allocation\<close>

lemma get_loop_find:
  assumes "path (rbb_set r) p xs" and "length xs < fuel"
  shows "blk_get_loop fuel r p =
     Inr (case find (\<lambda>i. blk_status (rbb_set r ! i) = RT_RBB_BLK_PUT) xs of
            None \<Rightarrow> (None, r) | Some i \<Rightarrow> (Some i, set_status i RT_RBB_BLK_GET r))"
  using assms
proof (induction xs arbitrary: p fuel)
  case Nil
  then show ?case by (cases fuel) (auto simp: blk_get_loop.simps)
next
  case (Cons x xs)
  then obtain f where "fuel = Suc f" by (cases fuel) auto
  with Cons show ?case by (auto simp: blk_get_loop.simps)
qed

lemma lists_length: "rbb_lists r used fr \<Longrightarrow> length used \<le> length (rbb_set r)"
  using rbb_lists_bound [of r used fr] by (intro distinct_bound) (auto simp: rbb_lists_def)

text \<open>\<open>rt_rbb_blk_get\<close> always returns, in every reachable state: with the first block of the list, in the
  order of allocation, that has been put and not yet got, which it marks as got; or with null.
\<close>

theorem rbb_get_order:
  assumes "rbb_reach buf bsz r" and "buf + bsz < 2 ^ 32"
  shows "\<exists>used fr. rbb_lists r used fr \<and>
    rt_rbb_blk_get r =
      Inr (case find (\<lambda>i. blk_status (rbb_set r ! i) = RT_RBB_BLK_PUT) used of
             None \<Rightarrow> (None, r) | Some i \<Rightarrow> (Some i, set_status i RT_RBB_BLK_GET r))"
proof -
  obtain used fr where v: "rbb_lists r used fr"
    using rbb_reach_ok [OF assms] by (auto simp: rbb_ok_def rbb_inv_def)
  then have "path (rbb_set r) (rbb_list r) used" by (simp add: rbb_lists_def)
  then have "rt_rbb_blk_get r =
      Inr (case find (\<lambda>i. blk_status (rbb_set r ! i) = RT_RBB_BLK_PUT) used of
             None \<Rightarrow> (None, r) | Some i \<Rightarrow> (Some i, set_status i RT_RBB_BLK_GET r))"
    using get_loop_find [of r _ used "length (rbb_set r) + 2"] lists_length [OF v]
    by (cases used) (auto simp: rt_rbb_blk_get_def)
  with v show ?thesis by blast
qed

subsection \<open>What an allocation does\<close>

text \<open>A request of at most the buffer's size, when a descriptor is free, never faults: it is either served
  with the first free descriptor, whose block becomes the last of the list and has the size asked for,
  the blocks before it staying where they are; or it is refused, and then the descriptor that was taken
  off the free list is on no list any more.  A refused request costs a descriptor for good.
\<close>

theorem rbb_alloc_result:
  assumes "rbb_inv r used (n # fr)" and "0 < sz" "sz < 2 ^ 24" "sz \<le> rbb_buf_size r"
  shows "(\<exists>r'. rt_rbb_blk_alloc r sz = Inr (Some n, r') \<and> rbb_inv r' (used @ [n]) fr \<and>
             rt_rbb_blk_size r' n = sz) \<or>
         (\<exists>r'. rt_rbb_blk_alloc r sz = Inr (None, r') \<and> rbb_inv r' used fr \<and>
             rbb_set r' = rbb_set r \<and> n \<notin> set used \<union> set fr)"
  using alloc_inv [OF assms] popped_inv(4-6) [OF assms(1)] by (auto simp: rt_rbb_blk_size_def extent_def)

subsection \<open>The loop of the queue\<close>

text \<open>Whether the loop that collects a queue takes everything up to the end of the list without a break.\<close>

fun queue_to_end :: "nat \<Rightarrow> rt_rbb \<Rightarrow> nat option \<Rightarrow> nat \<Rightarrow> nat list \<Rightarrow> bool" where
  "queue_to_end len r l t [] \<longleftrightarrow> True"
| "queue_to_end len r None t (i # is) \<longleftrightarrow>
     (if blk_status (rbb_set r ! i) = RT_RBB_BLK_PUT
      then queue_to_end len r (Some i) ((t + blk_size (rbb_set r ! i)) mod 2 ^ 32) is
      else queue_to_end len r None t is)"
| "queue_to_end len r (Some l) t (i # is) \<longleftrightarrow>
     blk_status (rbb_set r ! i) = RT_RBB_BLK_PUT \<and> blk_buf (rbb_set r ! l) \<le> blk_buf (rbb_set r ! i) \<and>
     (t + blk_size (rbb_set r ! i)) mod 2 ^ 32 \<le> len \<and>
     queue_to_end len r (Some i) ((t + blk_size (rbb_set r ! i)) mod 2 ^ 32) is"

lemma queue_to_end_cong:
  assumes "\<forall>k\<in>set is. rbb_set r' ! k = rbb_set r ! k"
    and "\<forall>k. l = Some k \<longrightarrow> blk_buf (rbb_set r' ! k) = blk_buf (rbb_set r ! k)"
  shows "queue_to_end len r' l t is = queue_to_end len r l t is"
  using assms by (induction len r l t "is" rule: queue_to_end.induct) auto

lemma queue_get_loop_null:
  assumes "path (rbb_set r) (Some i) (i # is)" and "length is < fuel" and "distinct (i # is)"
  shows "queue_get_loop fuel len r (Some i) (blk_next (rbb_set r ! i)) l t q = Inl Null_pointer \<longleftrightarrow>
         queue_to_end len r l t (i # is)"
  using assms
proof (induction "is" arbitrary: i fuel r l t q)
  case Nil
  then obtain f where "fuel = Suc f" by (cases fuel) auto
  with Nil show ?case by (auto simp: queue_get_loop.simps Let_def split: option.split)
next
  case (Cons j js)
  from Cons.prems(2) obtain f where f: "fuel = Suc f" "length js < f" by (cases fuel) auto
  let ?r = "set_status i RT_RBB_BLK_GET r"
  have j: "i < length (rbb_set r)" "blk_next (rbb_set r ! i) = Some j" "path (rbb_set r) (Some j) (j # js)"
    "j < length (rbb_set r)" "i \<notin> set (j # js)"
    using Cons.prems by auto
  have s: "rbb_set ?r = (rbb_set r)[i := (rbb_set r ! i)\<lparr>blk_status := RT_RBB_BLK_GET\<rparr>]" by (simp add: set_status_def)
  have r: "path (rbb_set ?r) (Some j) (j # js)" unfolding s seg_upd [OF j(5)] by (rule j(3))
  have same: "\<forall>k\<in>set (j # js). rbb_set ?r ! k = rbb_set r ! k" using j(5) by (metis s nth_list_update_neq)
  have bufs: "blk_buf (rbb_set ?r ! k) = blk_buf (rbb_set r ! k)" for k by (simp add: set_status_def upd_fields)
  have q1: "queue_get_loop f len r (Some j) (blk_next (rbb_set r ! j)) l t q = Inl Null_pointer \<longleftrightarrow>
      queue_to_end len r l t (j # js)" for l t q
    using Cons.IH [OF j(3) f(2)] Cons.prems(3) by simp
  have q2: "queue_get_loop f len ?r (Some j) (blk_next (rbb_set ?r ! j)) l t q = Inl Null_pointer \<longleftrightarrow>
      queue_to_end len r l t (j # js)" for l t q
    using Cons.IH [OF r f(2)] Cons.prems(3) queue_to_end_cong [OF same, of l len t] bufs by simp
  have len: "length (rbb_set ?r) = length (rbb_set r)" by (simp add: set_status_def)
  show ?case
    using j(1,2,4) q1 q2 len
    by (cases l) (auto simp: f(1) queue_get_loop.simps Let_def queue_to_end.simps(2) [of _ _ _ i]
        queue_to_end.simps(3) [of _ _ _ _ i] simp del: queue_to_end.simps(2,3))
qed

text \<open>
  \<open>rt_rbb_blk_queue_get\<close> on a non-empty list: the step of its loop reads through the null pointer exactly
  when no break comes first, that is when the queue extends to the last block of the list or nothing
  has been put at all.
\<close>

theorem queue_get_null:
  assumes "rbb_lists r used fr" and "used \<noteq> []"
  shows "rt_rbb_blk_queue_get r len q = Inl Null_pointer \<longleftrightarrow> queue_to_end len r None 0 used"
proof -
  obtain i "is" where u: "used = i # is" using assms(2) by (cases used) auto
  have p: "path (rbb_set r) (Some i) (i # is)" "rbb_list r = Some i" "distinct (i # is)"
    using assms(1) by (auto simp: rbb_lists_def u)
  have "length is < length (rbb_set r) + 2" using lists_length [OF assms(1)] by (simp add: u)
  from queue_get_loop_null [OF p(1) this p(3)] p show ?thesis
    by (simp add: rt_rbb_blk_queue_get_def u del: queue_to_end.simps)
qed

text \<open>
  Without a check against the buffer's size, a request to an empty object is always granted at the start
  of the buffer, also one that is larger than the whole buffer.
\<close>

theorem rbb_alloc_oversize:
  assumes "rbb_lists r [] (n # fr)" and "sz < 2 ^ 24"
  shows "\<exists>r'. rt_rbb_blk_alloc r sz = Inr (Some n, r') \<and> rt_rbb_blk_buf r' n = rbb_buf r \<and> rt_rbb_blk_size r' n = sz"
proof -
  let ?p = "r\<lparr>rbb_free := blk_next (rbb_set r ! n)\<rparr>"
  have l: "rbb_lists ?p [] fr" by (rule find_empty_some(2) [OF assms(1)])
  have n: "n < length (rbb_set ?p)" "n \<notin> set []" "n \<notin> set fr"
    using rbb_lists_bound [OF assms(1), of n] assms(1) by (auto simp: rbb_lists_def)
  have "rbb_list r = None" using assms(1) by (simp add: rbb_lists_def)
  then have "rt_rbb_blk_alloc r sz = Inr (Some n, use_blk ?p n (rbb_buf r) sz)"
    using assms(2) find_empty_some(1) [OF assms(1)] by (simp add: rt_rbb_blk_alloc_def)
  with use_blk_lists(3) [OF l n, of "rbb_buf r" sz] assms(2) show ?thesis
    by (simp add: extent_def rt_rbb_blk_buf_def rt_rbb_blk_size_def)
qed

subsection \<open>Runs of the module\<close>

definition blank_blk :: rt_rbb_blk where
  "blank_blk = \<lparr>blk_status = RT_RBB_BLK_UNUSED, blk_size = 0, blk_buf = 0, blk_next = None\<rparr>"

datatype rbb_op = Alloc nat | Put nat | Get | Free nat

fun rbb_step :: "rbb_op \<Rightarrow> rt_rbb \<Rightarrow> rt_rbb result" where
  "rbb_step (Alloc sz) r = bindR (rt_rbb_blk_alloc r sz) (\<lambda>(x, r'). Inr r')"
| "rbb_step (Put i) r = (if i < length (rbb_set r) then rt_rbb_blk_put r i else Inl Out_of_bounds)"
| "rbb_step Get r = bindR (rt_rbb_blk_get r) (\<lambda>(x, r'). Inr r')"
| "rbb_step (Free i) r = (if i < length (rbb_set r) then rt_rbb_blk_free r i else Inl Out_of_bounds)"

fun rbb_run :: "rbb_op list \<Rightarrow> rt_rbb \<Rightarrow> rt_rbb result" where
  "rbb_run [] r = Inr r"
| "rbb_run (a # as) r = bindR (rbb_step a r) (rbb_run as)"

text \<open>A run whose requests are within bounds goes through reachable states.\<close>

lemma rbb_run_reach:
  "rbb_run as r = Inr r' \<Longrightarrow> rbb_reach buf bsz r \<Longrightarrow> \<forall>sz. Alloc sz \<in> set as \<longrightarrow> 0 < sz \<and> sz \<le> bsz \<Longrightarrow>
   rbb_reach buf bsz r'"
proof (induction as arbitrary: r)
  case (Cons a as)
  then obtain r1 where r1: "rbb_step a r = Inr r1" "rbb_run as r1 = Inr r'" by (auto simp: bindR_eq_Inr)
  have "rbb_reach buf bsz r1"
    using r1(1) Cons.prems(2,3)
    by (cases a) (auto simp: bindR_eq_Inr split: if_splits intro: rbb_reach.intros)
  with Cons r1(2) show ?case by auto
qed simp

lemma slist_walk_numeral [simp]:
  "slist_walk (numeral k) bs node nx n = slist_walk (Suc (pred_numeral k)) bs node nx n"
  by (simp only: numeral_eq_Suc)

lemma blk_get_numeral:
  "blk_get_loop (numeral k) r node = blk_get_loop (Suc (pred_numeral k)) r node"
  by (simp only: numeral_eq_Suc)

lemmas rbb_eval = rt_rbb_init_def blank_blk_def rt_slist_insert_def set_next_def Let_def
  rt_rbb_blk_alloc_def find_empty_blk_in_set_def slist_remove_first use_blk_def list_append_def sub32_def
  rt_rbb_blk_free_def list_remove_def set_status_def rt_rbb_blk_put_def rt_rbb_blk_get_def
  blk_get_loop.simps blk_get_numeral rt_rbb_blk_buf_def rt_rbb_blk_size_def rt_rbb_get_buf_size_def

definition demo :: rt_rbb where
  "demo = rt_rbb_init 100 10 [blank_blk, blank_blk, blank_blk, blank_blk]"

definition demo_wrapped :: rt_rbb where
  "demo_wrapped =
     \<lparr>rbb_buf = 100, rbb_buf_size = 10,
      rbb_set =
        [\<lparr>blk_status = RT_RBB_BLK_UNUSED, blk_size = 0, blk_buf = 0, blk_next = None\<rparr>,
         \<lparr>blk_status = RT_RBB_BLK_UNUSED, blk_size = 0, blk_buf = 0, blk_next = Some 0\<rparr>,
         \<lparr>blk_status = RT_RBB_BLK_PUT, blk_size = 4, blk_buf = 106, blk_next = Some 3\<rparr>,
         \<lparr>blk_status = RT_RBB_BLK_INITED, blk_size = 5, blk_buf = 100, blk_next = None\<rparr>],
      rbb_list = Some 2, rbb_tail = Some 3, rbb_free = Some 1\<rparr>"

lemma demo_run: "rbb_run [Alloc 6, Put 3, Alloc 4, Put 2, Get, Free 3, Alloc 5] demo = Inr demo_wrapped"
  by (simp add: rbb_eval demo_def demo_wrapped_def)

lemma demo_reach: "rbb_reach 100 10 demo" "rbb_reach 100 10 demo_wrapped"
proof -
  show "rbb_reach 100 10 demo" unfolding demo_def by (rule rbb_reach.init)
  from rbb_run_reach [OF demo_run this] show "rbb_reach 100 10 demo_wrapped" by simp
qed

lemma demo_inv: "rbb_inv demo [] [3, 2, 1, 0]"
proof -
  have "rev [0..<length [blank_blk, blank_blk, blank_blk, blank_blk]] = [3, 2, 1, 0]"
    by (simp add: numeral_2_eq_2 numeral_3_eq_3)
  with init_inv(1) [of 100 10 "[blank_blk, blank_blk, blank_blk, blank_blk]"] show ?thesis
    by (simp add: demo_def del: upt_Suc)
qed

text \<open>
  A request for no bytes is granted and makes the test \<open>head->buf <= tail->buf\<close> misjudge the layout:
  after it, block 0 lies on top of block 2, both in use.
\<close>

theorem rbb_empty_block_overlap:
  "bindR (rbb_run [Alloc 6, Alloc 4, Free 3, Alloc 6, Alloc 0, Alloc 4] demo)
     (\<lambda>r. Inr (map (\<lambda>i. (rt_rbb_blk_buf r i, rt_rbb_blk_size r i)) [0, 2], map (\<lambda>i. blk_status (rbb_set r ! i)) [0, 2])) =
   Inr ([(106, 4), (106, 4)], [RT_RBB_BLK_INITED, RT_RBB_BLK_INITED])"
  by (simp add: rbb_eval demo_def)

theorem rbb_blocks_disjoint_witness:
  "100 \<le> rt_rbb_blk_buf demo_wrapped 3 \<and> 0 < rt_rbb_blk_size demo_wrapped 3 \<and>
   rt_rbb_blk_buf demo_wrapped 3 + rt_rbb_blk_size demo_wrapped 3 \<le> 100 + rt_rbb_get_buf_size demo_wrapped \<and>
   (rt_rbb_blk_buf demo_wrapped 3 + rt_rbb_blk_size demo_wrapped 3 \<le> rt_rbb_blk_buf demo_wrapped 2 \<or>
    rt_rbb_blk_buf demo_wrapped 2 + rt_rbb_blk_size demo_wrapped 2 \<le> rt_rbb_blk_buf demo_wrapped 3)"
  using rbb_blocks_disjoint [OF demo_reach(2), of 3 2] by (simp add: demo_wrapped_def)

theorem rbb_get_order_witness:
  "rbb_reach 100 10 demo_wrapped \<and>
   (\<exists>used fr. rbb_lists demo_wrapped used fr \<and>
    rt_rbb_blk_get demo_wrapped =
      Inr (case find (\<lambda>i. blk_status (rbb_set demo_wrapped ! i) = RT_RBB_BLK_PUT) used of
             None \<Rightarrow> (None, demo_wrapped)
           | Some i \<Rightarrow> (Some i, set_status i RT_RBB_BLK_GET demo_wrapped)))"
  using rbb_get_order [OF demo_reach(2)] demo_reach(2) by simp

theorem rbb_alloc_result_witness:
  "rbb_inv demo [] [3, 2, 1, 0] \<and>
   ((\<exists>r'. rt_rbb_blk_alloc demo 6 = Inr (Some 3, r') \<and> rbb_inv r' [3] [2, 1, 0] \<and> rt_rbb_blk_size r' 3 = 6) \<or>
    (\<exists>r'. rt_rbb_blk_alloc demo 6 = Inr (None, r') \<and> rbb_inv r' [] [2, 1, 0] \<and> rbb_set r' = rbb_set demo))"
  using rbb_alloc_result [OF demo_inv, of 6] demo_inv
  by (auto simp: demo_def rt_rbb_init_def rt_slist_insert_def set_next_def Let_def)

theorem rbb_alloc_oversize_witness:
  "\<exists>r'. rt_rbb_blk_alloc demo 50 = Inr (Some 3, r') \<and> rt_rbb_blk_buf r' 3 = rbb_buf demo \<and> rt_rbb_blk_size r' 3 = 50"
  using rbb_alloc_oversize [of demo 3 "[2, 1, 0]" 50] demo_inv by (simp add: rbb_inv_def)

text \<open>A block that has been put, alone on the list, and nothing behind it.\<close>

definition demo_put :: rt_rbb where
  "demo_put = set_status 3 RT_RBB_BLK_PUT (use_blk (popped demo 3) 3 100 6)"

lemma demo_put_lists: "rbb_lists demo_put [3] [2, 1, 0]"
proof -
  note p = popped_inv [OF demo_inv]
  have "rbb_lists (use_blk (popped demo 3) 3 100 6) [3] [2, 1, 0]"
    using use_blk_lists(1) [of "popped demo 3" "[]" "[2, 1, 0]" 3 100 6] p(2-5) by (simp add: rbb_inv_def)
  then show ?thesis unfolding demo_put_def by (intro set_status_lists(1)) auto
qed

theorem queue_get_null_witness:
  "rbb_lists demo_put [3] [2, 1, 0] \<and> rt_rbb_blk_queue_get demo_put 10 \<lparr>q_blocks = None, q_blk_num = 0\<rparr> = Inl Null_pointer"
  using queue_get_null [OF demo_put_lists, of 10 "\<lparr>q_blocks = None, q_blk_num = 0\<rparr>"] demo_put_lists by simp

end
