(* ===== verification/Rt_Dataqueue.thy ===== *)
theory Rt_Dataqueue
  imports Rt_Threads
begin

text \<open>
  The data queue of the device framework (\<open>dataqueue.c\<close>): a bounded queue of pointers with their sizes on
  which threads wait, writers while it is full and readers while it is empty.

  A thread that has to wait is suspended on a list and its call goes on when it runs again; an operation is
  therefore modelled as what it does with interrupts disabled, from the test of its loop on.  Its argument
  \<open>woken\<close> is \<open>None\<close> at the call and the thread's error number when the thread comes back from \<open>rt_schedule\<close>.
  It either returns, with the thread it resumed and the event it notifies, or blocks again.  The second
  half of the theory lets any number of threads, timers and resets interleave.
\<close>

subsection \<open>The data\<close>

record rt_data_item =
  data_ptr :: nat
  data_size :: nat

text \<open>The array of the queue: not allocated, given back to the heap, or its cells.\<close>

datatype dq_cells = No_memory | Given_back | Cells "rt_data_item list"

record rt_data_queue =
  dq_magic :: nat
  dq_size :: nat
  dq_lwm :: nat
  dq_get :: nat
  dq_empty :: bool
  dq_put :: nat
  dq_full :: bool
  dq_queue :: dq_cells
  push_list :: "nat list"
  pop_list :: "nat list"
  dq_notify :: bool

definition DATAQUEUE_MAGIC :: nat where "DATAQUEUE_MAGIC = 0xbead0e0e"

datatype dq_event = RT_DATAQUEUE_EVENT_POP | RT_DATAQUEUE_EVENT_PUSH | RT_DATAQUEUE_EVENT_LWM

text \<open>What a call does until interrupts are enabled again: it returns a code, the thread it resumes, the event
  and the item it read, or it suspends its thread.\<close>

datatype dq_outcome = Returns int "nat option" "dq_event option" "rt_data_item option" | Blocks

subsection \<open>The operations\<close>

text \<open>\<open>mem\<close> is the memory that \<open>rt_malloc\<close> hands out, with what it holds.\<close>

definition rt_data_queue_init ::
    "nat \<Rightarrow> nat \<Rightarrow> bool \<Rightarrow> rt_data_item list option \<Rightarrow> (int \<times> rt_data_queue) result" where
  "rt_data_queue_init sz lwm notify mem =
     (if \<not> sz > 0 then Inl Assert_failed
      else
        (let q = \<lparr>dq_magic = DATAQUEUE_MAGIC, dq_size = sz, dq_lwm = lwm, dq_get = 0, dq_empty = True,
                  dq_put = 0, dq_full = False, dq_queue = No_memory, push_list = [], pop_list = [],
                  dq_notify = notify\<rparr>
         in case mem of
              None \<Rightarrow> Inr (- RT_ENOMEM, q)
            | Some xs \<Rightarrow> Inr (RT_EOK, q\<lparr>dq_queue := Cells xs\<rparr>)))"

definition notify :: "rt_data_queue \<Rightarrow> dq_event \<Rightarrow> dq_event option" where
  "notify q e = (if dq_notify q then Some e else None)"

definition store_item :: "nat \<Rightarrow> rt_data_item \<Rightarrow> rt_data_queue \<Rightarrow> rt_data_queue result" where
  "store_item i x q =
     (case dq_queue q of
        No_memory \<Rightarrow> Inl Null_pointer
      | Given_back \<Rightarrow> Inl Use_after_free
      | Cells xs \<Rightarrow> if i < length xs then Inr (q\<lparr>dq_queue := Cells (xs[i := x])\<rparr>) else Inl Out_of_bounds)"

definition load_item :: "nat \<Rightarrow> rt_data_queue \<Rightarrow> rt_data_item result" where
  "load_item i q =
     (case dq_queue q of
        No_memory \<Rightarrow> Inl Null_pointer
      | Given_back \<Rightarrow> Inl Use_after_free
      | Cells xs \<Rightarrow> if i < length xs then Inr (xs ! i) else Inl Out_of_bounds)"

text \<open>\<open>rt_int16_t len\<close> is returned as \<open>rt_uint16_t\<close>.\<close>

definition rt_data_queue_len :: "rt_data_queue \<Rightarrow> nat result" where
  "rt_data_queue_len q =
     (if dq_magic q \<noteq> DATAQUEUE_MAGIC then Inl Assert_failed
      else if dq_empty q then Inr 0
      else if dq_put q > dq_get q then Inr (nat ((int (dq_put q) - int (dq_get q)) mod 2 ^ 16))
      else Inr (nat ((int (dq_size q) + int (dq_put q) - int (dq_get q)) mod 2 ^ 16)))"

text \<open>\<open>index += 1; if (index == size) index = 0\<close> on a 15-bit field.\<close>

definition next_index :: "nat \<Rightarrow> rt_data_queue \<Rightarrow> nat" where
  "next_index i q = (if idx15 (i + 1) = dq_size q then 0 else idx15 (i + 1))"

definition push_section :: "nat \<Rightarrow> rt_data_item \<Rightarrow> int \<Rightarrow> rt_data_queue \<Rightarrow> (dq_outcome \<times> rt_data_queue) result" where
  "push_section t x timeout q =
     (if dq_full q then
        (if timeout = 0 then Inr (Returns (- RT_ETIMEOUT) None None None, q)
         else Inr (Blocks, q\<lparr>push_list := push_list q @ [t]\<rparr>))
      else
        bindR (store_item (dq_put q) x q)
          (\<lambda>q1. let q2 = q1\<lparr>dq_put := next_index (dq_put q1) q1, dq_empty := False\<rparr>;
                    q3 = (if dq_put q2 = dq_get q2 then q2\<lparr>dq_full := True\<rparr> else q2)
                in case pop_list q3 of
                     [] \<Rightarrow> Inr (Returns RT_EOK None (notify q3 RT_DATAQUEUE_EVENT_PUSH) None, q3)
                   | u # us \<Rightarrow> Inr (Returns RT_EOK (Some u) None None, q3\<lparr>pop_list := us\<rparr>)))"

definition rt_data_queue_push ::
    "int option \<Rightarrow> nat \<Rightarrow> rt_data_item \<Rightarrow> int \<Rightarrow> rt_data_queue \<Rightarrow> (dq_outcome \<times> rt_data_queue) result" where
  "rt_data_queue_push woken t x timeout q =
     (case woken of
        None \<Rightarrow> if dq_magic q \<noteq> DATAQUEUE_MAGIC then Inl Assert_failed else push_section t x timeout q
      | Some err \<Rightarrow> if err \<noteq> RT_EOK then Inr (Returns err None None None, q) else push_section t x timeout q)"

definition pop_section :: "nat \<Rightarrow> int \<Rightarrow> rt_data_queue \<Rightarrow> (dq_outcome \<times> rt_data_queue) result" where
  "pop_section t timeout q =
     (if dq_empty q then
        (if timeout = 0 then Inr (Returns (- RT_ETIMEOUT) None None None, q)
         else Inr (Blocks, q\<lparr>pop_list := pop_list q @ [t]\<rparr>))
      else
        bindR (load_item (dq_get q) q)
          (\<lambda>x. let q1 = q\<lparr>dq_get := next_index (dq_get q) q, dq_full := False\<rparr>;
                   q2 = (if dq_put q1 = dq_get q1 then q1\<lparr>dq_empty := True\<rparr> else q1)
               in bindR (rt_data_queue_len q2)
                    (\<lambda>n. if n \<le> dq_lwm q2 then
                           (case push_list q2 of
                              [] \<Rightarrow> Inr (Returns RT_EOK None (notify q2 RT_DATAQUEUE_EVENT_LWM) (Some x), q2)
                            | u # us \<Rightarrow>
                                Inr (Returns RT_EOK (Some u) (notify q2 RT_DATAQUEUE_EVENT_LWM) (Some x),
                                     q2\<lparr>push_list := us\<rparr>))
                         else Inr (Returns RT_EOK None (notify q2 RT_DATAQUEUE_EVENT_POP) (Some x), q2))))"

definition rt_data_queue_pop ::
    "int option \<Rightarrow> nat \<Rightarrow> int \<Rightarrow> rt_data_queue \<Rightarrow> (dq_outcome \<times> rt_data_queue) result" where
  "rt_data_queue_pop woken t timeout q =
     (case woken of
        None \<Rightarrow> if dq_magic q \<noteq> DATAQUEUE_MAGIC then Inl Assert_failed else pop_section t timeout q
      | Some err \<Rightarrow> if err \<noteq> RT_EOK then Inr (Returns err None None None, q) else pop_section t timeout q)"

definition rt_data_queue_peek :: "rt_data_queue \<Rightarrow> (int \<times> rt_data_item option) result" where
  "rt_data_queue_peek q =
     (if dq_magic q \<noteq> DATAQUEUE_MAGIC then Inl Assert_failed
      else if dq_empty q then Inr (- RT_EEMPTY, None)
      else bindR (load_item (dq_get q) q) (\<lambda>x. Inr (RT_EOK, Some x)))"

text \<open>The threads on the two lists are resumed, in this order, with the error \<open>- RT_ERROR\<close>.\<close>

definition rt_data_queue_reset :: "rt_data_queue \<Rightarrow> (nat list \<times> rt_data_queue) result" where
  "rt_data_queue_reset q =
     (if dq_magic q \<noteq> DATAQUEUE_MAGIC then Inl Assert_failed
      else Inr (pop_list q @ push_list q,
                q\<lparr>dq_get := 0, dq_put := 0, dq_empty := True, dq_full := False, pop_list := [], push_list := []\<rparr>))"

definition rt_data_queue_deinit :: "rt_data_queue \<Rightarrow> (nat list \<times> rt_data_queue) result" where
  "rt_data_queue_deinit q =
     bindR (rt_data_queue_reset q) (\<lambda>(ts, q1). Inr (ts, q1\<lparr>dq_magic := 0, dq_queue := Given_back\<rparr>))"

subsection \<open>The abstraction\<close>

text \<open>\<open>dq_wf q xs\<close>: the control block and its cells hold the items \<open>xs\<close>, the oldest first.\<close>

definition dq_wf :: "rt_data_queue \<Rightarrow> rt_data_item list \<Rightarrow> bool" where
  "dq_wf q xs \<longleftrightarrow> dq_magic q = DATAQUEUE_MAGIC \<and> 0 < dq_size q \<and> dq_size q < 2 ^ 15 \<and>
     dq_get q < dq_size q \<and> length xs \<le> dq_size q \<and> dq_put q = (dq_get q + length xs) mod dq_size q \<and>
     (dq_empty q \<longleftrightarrow> xs = []) \<and> (dq_full q \<longleftrightarrow> length xs = dq_size q) \<and>
     (\<exists>cs. dq_queue q = Cells cs \<and> length cs = dq_size q \<and>
        (\<forall>k<length xs. cs ! ((dq_get q + k) mod dq_size q) = xs ! k))"

lemma next_index_wf: "dq_wf q xs \<Longrightarrow> i < dq_size q \<Longrightarrow> next_index i q = (i + 1) mod dq_size q"
  by (auto simp: dq_wf_def next_index_def idx15_def mod_Suc)

lemma dq_len_wf:
  assumes "dq_wf q xs"
  shows "rt_data_queue_len q = Inr (length xs)"
proof -
  have w: "dq_magic q = DATAQUEUE_MAGIC" "0 < dq_size q" "dq_size q < 2 ^ 15" "dq_get q < dq_size q"
    "length xs \<le> dq_size q" "dq_put q = (dq_get q + length xs) mod dq_size q" "dq_empty q \<longleftrightarrow> xs = []"
    using assms by (simp_all add: dq_wf_def)
  consider "xs = []" | "xs \<noteq> []" "dq_get q + length xs < dq_size q" | "xs \<noteq> []" "dq_size q \<le> dq_get q + length xs"
    by linarith
  then show ?thesis
  proof cases
    case 3
    then have "dq_put q = dq_get q + length xs - dq_size q" using w by (simp add: mod_if)
    with 3 w(1-5,7) show ?thesis by (auto simp: rt_data_queue_len_def)
  qed (use w in \<open>simp_all add: rt_data_queue_len_def\<close>)
qed

lemma store_wf:
  fixes x :: rt_data_item
  assumes wf: "dq_wf q xs" and room: "\<not> dq_full q"
  defines "q2 \<equiv> q\<lparr>dq_queue := Cells ((case dq_queue q of Cells cs \<Rightarrow> cs)[dq_put q := x]),
                   dq_put := (dq_put q + 1) mod dq_size q, dq_empty := False\<rparr>"
  shows "store_item (dq_put q) x q = Inr (q\<lparr>dq_queue := dq_queue q2\<rparr>)"
    and "dq_wf (if dq_put q2 = dq_get q2 then q2\<lparr>dq_full := True\<rparr> else q2) (xs @ [x])"
proof -
  obtain cs where cs: "dq_queue q = Cells cs" "length cs = dq_size q"
    "\<forall>k<length xs. cs ! ((dq_get q + k) mod dq_size q) = xs ! k"
    and w: "dq_magic q = DATAQUEUE_MAGIC" "0 < dq_size q" "dq_size q < 2 ^ 15" "dq_get q < dq_size q"
    "length xs < dq_size q" "dq_put q = (dq_get q + length xs) mod dq_size q"
    using wf room by (auto simp: dq_wf_def)
  have put: "dq_put q < dq_size q" using w by simp
  show "store_item (dq_put q) x q = Inr (q\<lparr>dq_queue := dq_queue q2\<rparr>)"
    using cs put by (simp add: store_item_def q2_def)
  have ne: "(dq_get q + k) mod dq_size q \<noteq> dq_put q" if "k < length xs" for k
    using ring_slots [OF w(4) that w(5)] w(6) by simp
  have cells: "cs[dq_put q := x] ! ((dq_get q + k) mod dq_size q) = (xs @ [x]) ! k" if "k < length xs + 1" for k
  proof (cases "k = length xs")
    case True
    then show ?thesis using put cs(2) w(6) by simp
  next
    case False
    with that have "k < length xs" by simp
    with ne [OF this] cs(3) show ?thesis by (simp add: nth_append)
  qed
  have next_put: "dq_put q2 = (dq_get q + length (xs @ [x])) mod dq_size q"
    by (simp add: q2_def w(6) mod_simps add.assoc)
  have full: "dq_put q2 = dq_get q2 \<longleftrightarrow> length (xs @ [x]) = dq_size q"
    unfolding next_put using w(4,5) by (auto simp: q2_def mod_if)
  have "dq_queue q2 = Cells (cs[dq_put q := x])" "dq_get q2 = dq_get q" "dq_size q2 = dq_size q" "\<not> dq_empty q2"
    "dq_magic q2 = DATAQUEUE_MAGIC" "\<not> dq_full q2"
    using cs(1) w(1) room by (simp_all add: q2_def)
  then show "dq_wf (if dq_put q2 = dq_get q2 then q2\<lparr>dq_full := True\<rparr> else q2) (xs @ [x])"
    using w(2-5) next_put full cells cs(2) by (auto simp: dq_wf_def)
qed

lemma load_wf:
  assumes wf: "dq_wf q (x # xs)"
  defines "q1 \<equiv> q\<lparr>dq_get := (dq_get q + 1) mod dq_size q, dq_full := False\<rparr>"
  shows "load_item (dq_get q) q = Inr x"
    and "dq_wf (if dq_put q1 = dq_get q1 then q1\<lparr>dq_empty := True\<rparr> else q1) xs"
proof -
  obtain cs where cs: "dq_queue q = Cells cs" "length cs = dq_size q"
    "\<forall>k<Suc (length xs). cs ! ((dq_get q + k) mod dq_size q) = (x # xs) ! k"
    and w: "dq_magic q = DATAQUEUE_MAGIC" "0 < dq_size q" "dq_size q < 2 ^ 15" "dq_get q < dq_size q"
    "length xs < dq_size q" "dq_put q = (dq_get q + Suc (length xs)) mod dq_size q" "\<not> dq_empty q"
    using wf by (auto simp: dq_wf_def)
  show "load_item (dq_get q) q = Inr x"
    using cs(1,2) cs(3) [rule_format, of 0] w(4) by (simp add: load_item_def)
  have cells: "cs ! ((dq_get q1 + k) mod dq_size q) = xs ! k" if "k < length xs" for k
    using cs(3) [rule_format, of "Suc k"] that by (simp add: q1_def mod_simps add.assoc)
  have put: "dq_put q1 = (dq_get q1 + length xs) mod dq_size q"
    by (simp add: q1_def w(6) mod_simps)
  have get: "dq_get q1 < dq_size q" using w(2) by (simp add: q1_def)
  have empty: "dq_put q1 = dq_get q1 \<longleftrightarrow> xs = []"
    unfolding put using get w(5) by (auto simp: mod_if)
  have "dq_queue q1 = Cells cs" "dq_size q1 = dq_size q" "\<not> dq_empty q1" "dq_magic q1 = DATAQUEUE_MAGIC" "\<not> dq_full q1"
    using cs(1) w by (simp_all add: q1_def)
  then show "dq_wf (if dq_put q1 = dq_get q1 then q1\<lparr>dq_empty := True\<rparr> else q1) xs"
    using w(2,3,5) get put empty cells cs(2) by (auto simp: dq_wf_def)
qed

text \<open>What the sections do to the items and the lists.\<close>

lemma push_section_full:
  assumes "dq_wf q xs" and "length xs = dq_size q"
  shows "push_section t x timeout q =
    (if timeout = 0 then Inr (Returns (- RT_ETIMEOUT) None None None, q)
     else Inr (Blocks, q\<lparr>push_list := push_list q @ [t]\<rparr>))"
  using assms by (simp add: push_section_def dq_wf_def)

lemma push_section_room:
  assumes "dq_wf q xs" and "length xs < dq_size q"
  shows "\<exists>ev q'. push_section t x timeout q =
      Inr (Returns RT_EOK (if pop_list q = [] then None else Some (hd (pop_list q))) ev None, q') \<and>
    dq_wf q' (xs @ [x]) \<and> pop_list q' = tl (pop_list q) \<and> push_list q' = push_list q \<and>
    dq_size q' = dq_size q \<and> dq_lwm q' = dq_lwm q"
proof -
  have room: "\<not> dq_full q" and put: "dq_put q < dq_size q" using assms by (auto simp: dq_wf_def)
  define q2 where "q2 = q\<lparr>dq_queue := Cells ((case dq_queue q of Cells cs \<Rightarrow> cs)[dq_put q := x]),
                   dq_put := (dq_put q + 1) mod dq_size q, dq_empty := False\<rparr>"
  define q3 where "q3 = (if dq_put q2 = dq_get q2 then q2\<lparr>dq_full := True\<rparr> else q2)"
  note st = store_wf [OF assms(1) room, of x, folded q2_def, folded q3_def]
  have same: "pop_list q3 = pop_list q" "push_list q3 = push_list q" "dq_size q3 = dq_size q" "dq_lwm q3 = dq_lwm q"
    by (simp_all add: q3_def q2_def)
  define q1 where "q1 = q\<lparr>dq_queue := dq_queue q2\<rparr>"
  have nx: "next_index (dq_put q1) q1 = (dq_put q + 1) mod dq_size q"
    using next_index_wf [OF assms(1) put] by (simp add: next_index_def q1_def)
  have q2: "q1\<lparr>dq_put := (dq_put q + 1) mod dq_size q, dq_empty := False\<rparr> = q2"
    by (simp add: q1_def q2_def)
  have "push_section t x timeout q =
      (case pop_list q3 of
         [] \<Rightarrow> Inr (Returns RT_EOK None (notify q3 RT_DATAQUEUE_EVENT_PUSH) None, q3)
       | u # us \<Rightarrow> Inr (Returns RT_EOK (Some u) None None, q3\<lparr>pop_list := us\<rparr>))"
    using room unfolding push_section_def st(1) [folded q1_def] Let_def bindR_simps nx q2 q3_def [symmetric] by simp
  moreover have "dq_wf (q3\<lparr>pop_list := us\<rparr>) (xs @ [x])" for us
    using st(2) by (simp add: dq_wf_def)
  ultimately show ?thesis using st(2) same by (cases "pop_list q") auto
qed

lemma pop_section_empty:
  assumes "dq_wf q []"
  shows "pop_section t timeout q =
    (if timeout = 0 then Inr (Returns (- RT_ETIMEOUT) None None None, q)
     else Inr (Blocks, q\<lparr>pop_list := pop_list q @ [t]\<rparr>))"
  using assms by (simp add: pop_section_def dq_wf_def)

lemma pop_section_item:
  assumes "dq_wf q (x # xs)"
  shows "\<exists>ev q'. pop_section t timeout q =
      Inr (Returns RT_EOK (if length xs \<le> dq_lwm q \<and> push_list q \<noteq> [] then Some (hd (push_list q)) else None) ev
        (Some x), q') \<and>
    dq_wf q' xs \<and> pop_list q' = pop_list q \<and>
    push_list q' = (if length xs \<le> dq_lwm q then tl (push_list q) else push_list q) \<and>
    dq_size q' = dq_size q \<and> dq_lwm q' = dq_lwm q"
proof -
  have ne: "\<not> dq_empty q" and get: "dq_get q < dq_size q" using assms by (auto simp: dq_wf_def)
  define q1 where "q1 = q\<lparr>dq_get := (dq_get q + 1) mod dq_size q, dq_full := False\<rparr>"
  define q2 where "q2 = (if dq_put q1 = dq_get q1 then q1\<lparr>dq_empty := True\<rparr> else q1)"
  note ld = load_wf [OF assms, folded q1_def, folded q2_def]
  have same: "pop_list q2 = pop_list q" "push_list q2 = push_list q" "dq_size q2 = dq_size q" "dq_lwm q2 = dq_lwm q"
    by (simp_all add: q2_def q1_def)
  have nx: "next_index (dq_get q) q = (dq_get q + 1) mod dq_size q"
    using next_index_wf [OF assms get] by simp
  have "pop_section t timeout q =
      (if length xs \<le> dq_lwm q2 then
         (case push_list q2 of
            [] \<Rightarrow> Inr (Returns RT_EOK None (notify q2 RT_DATAQUEUE_EVENT_LWM) (Some x), q2)
          | u # us \<Rightarrow> Inr (Returns RT_EOK (Some u) (notify q2 RT_DATAQUEUE_EVENT_LWM) (Some x), q2\<lparr>push_list := us\<rparr>))
       else Inr (Returns RT_EOK None (notify q2 RT_DATAQUEUE_EVENT_POP) (Some x), q2))"
    using ne unfolding pop_section_def nx ld(1) Let_def bindR_simps q1_def [symmetric] q2_def [symmetric]
      dq_len_wf [OF ld(2)] by simp
  moreover have "dq_wf (q2\<lparr>push_list := us\<rparr>) xs" for us
    using ld(2) by (simp add: dq_wf_def)
  ultimately show ?thesis using ld(2) same by (cases "push_list q") auto
qed

subsection \<open>Threads on the queue\<close>

text \<open>The calls that threads are in.  \<open>dq_exec\<close> runs one section of a call.\<close>

datatype dq_call = Push rt_data_item int | Pop int

fun is_push :: "dq_call \<Rightarrow> bool" where
  "is_push (Push x timeout) = True"
| "is_push (Pop timeout) = False"

definition is_pop :: "dq_call \<Rightarrow> bool" where
  "is_pop c \<longleftrightarrow> \<not> is_push c"

lemma is_pop_simps [simp]: "\<not> is_pop (Push x tm)" "is_pop (Pop tm)"
  by (simp_all add: is_pop_def)

fun dq_exec :: "int option \<Rightarrow> nat \<Rightarrow> dq_call \<Rightarrow> rt_data_queue \<Rightarrow> (dq_outcome \<times> rt_data_queue) result" where
  "dq_exec woken t (Push x timeout) q = rt_data_queue_push woken t x timeout q"
| "dq_exec woken t (Pop timeout) q = rt_data_queue_pop woken t timeout q"

fun dq_timeout :: "dq_call \<Rightarrow> int" where
  "dq_timeout (Push x timeout) = timeout"
| "dq_timeout (Pop timeout) = timeout"

fun dq_after :: "nat \<Rightarrow> dq_call \<Rightarrow> dq_outcome \<Rightarrow> dq_call threads \<Rightarrow> dq_call threads" where
  "dq_after t c Blocks th = th(t := Waiting c)"
| "dq_after t c (Returns err None ev x) th = th(t := Idle)"
| "dq_after t c (Returns err (Some u) ev x) th = wake_thread u RT_EOK (th(t := Idle))"

text \<open>The items that a section put into the queue, and those it took out.\<close>

fun put_items :: "dq_call \<Rightarrow> dq_outcome \<Rightarrow> rt_data_item list" where
  "put_items (Push x timeout) (Returns err u ev y) = (if err = RT_EOK then [x] else [])"
| "put_items c out = []"

fun got_items :: "dq_outcome \<Rightarrow> rt_data_item list" where
  "got_items (Returns err u ev (Some y)) = [y]"
| "got_items out = []"

text \<open>
  What can happen: a thread calls an operation, a resumed thread goes on, the timer of a suspended one
  expires, somebody resets the queue.  The last two arguments are the items put in and taken out so far, oldest first;
  a reset forgets the items it drops.
\<close>

inductive dq_reach :: "rt_data_queue \<Rightarrow> dq_call threads \<Rightarrow> rt_data_item list \<Rightarrow> rt_data_item list \<Rightarrow> bool" where
  init: "rt_data_queue_init sz lwm nt (Some mem) = Inr (RT_EOK, q) \<Longrightarrow> length mem = sz \<Longrightarrow> sz < 2 ^ 15 \<Longrightarrow>
    dq_reach q (\<lambda>t. Idle) [] []"
| call: "dq_reach q th ins outs \<Longrightarrow> th t = Idle \<Longrightarrow> dq_exec None t c q = Inr (out, q') \<Longrightarrow>
    dq_reach q' (dq_after t c out th) (ins @ put_items c out) (outs @ got_items out)"
| resume: "dq_reach q th ins outs \<Longrightarrow> th t = Ready c err \<Longrightarrow> dq_exec (Some err) t c q = Inr (out, q') \<Longrightarrow>
    dq_reach q' (dq_after t c out th) (ins @ put_items c out) (outs @ got_items out)"
| timeout: "dq_reach q th ins outs \<Longrightarrow> th t = Waiting c \<Longrightarrow> 0 < dq_timeout c \<Longrightarrow>
    dq_reach (q\<lparr>push_list := remove1 t (push_list q), pop_list := remove1 t (pop_list q)\<rparr>)
      (th(t := Ready c (- RT_ETIMEOUT))) ins outs"
| reset: "dq_reach q th ins outs \<Longrightarrow> rt_data_queue_reset q = Inr (ts, q') \<Longrightarrow>
    dq_reach q' (wake_all (- RT_ERROR) ts th) outs outs"

subsection \<open>The invariant\<close>

definition lists_ok :: "rt_data_queue \<Rightarrow> dq_call threads \<Rightarrow> bool" where
  "lists_ok q th \<longleftrightarrow> waiters is_push th (push_list q) \<and> waiters is_pop th (pop_list q) \<and> finite_threads th"

text \<open>
  No wake-up is lost: a waiting reader is matched by a resumed reader for each item, and a waiting writer
  by a resumed writer for each place that is free up to the low water mark.
\<close>

definition wakeups_ok :: "rt_data_queue \<Rightarrow> dq_call threads \<Rightarrow> nat \<Rightarrow> bool" where
  "wakeups_ok q th n \<longleftrightarrow> (pop_list q \<noteq> [] \<longrightarrow> n \<le> card (ready is_pop th)) \<and>
     (push_list q \<noteq> [] \<longrightarrow> min (dq_lwm q + 1) (dq_size q) \<le> n + card (ready is_push th))"

definition dq_ok :: "rt_data_queue \<Rightarrow> dq_call threads \<Rightarrow> rt_data_item list \<Rightarrow> bool" where
  "dq_ok q th xs \<longleftrightarrow> dq_wf q xs \<and> lists_ok q th \<and> wakeups_ok q th (length xs)"

lemma dq_okD:
  assumes "dq_ok q th xs"
  shows "dq_wf q xs" "waiters is_push th (push_list q)" "waiters is_pop th (pop_list q)" "finite_threads th"
    "pop_list q \<noteq> [] \<Longrightarrow> length xs \<le> card (ready is_pop th)"
    "push_list q \<noteq> [] \<Longrightarrow> min (dq_lwm q + 1) (dq_size q) \<le> length xs + card (ready is_push th)"
  using assms by (simp_all add: dq_ok_def lists_ok_def wakeups_ok_def)

lemma dq_okI:
  assumes "dq_wf q xs" "waiters is_push th (push_list q)" "waiters is_pop th (pop_list q)" "finite_threads th"
    and "pop_list q \<noteq> [] \<Longrightarrow> length xs \<le> card (ready is_pop th)"
    and "push_list q \<noteq> [] \<Longrightarrow> min (dq_lwm q + 1) (dq_size q) \<le> length xs + card (ready is_push th)"
  shows "dq_ok q th xs"
  using assms by (simp add: dq_ok_def lists_ok_def wakeups_ok_def)

lemma is_pop_elim: "is_pop c \<Longrightarrow> (\<And>tm. c = Pop tm \<Longrightarrow> R) \<Longrightarrow> R"
  by (cases c) auto

lemma kinds: "is_push c \<Longrightarrow> \<not> is_pop c" "is_pop c \<Longrightarrow> \<not> is_push c"
  by (simp_all add: is_pop_def)

lemma dq_error_ok:
  assumes ok: "dq_ok q th xs" and r: "runs th t c woken" and "woken \<noteq> Some RT_EOK"
  shows "dq_ok q (th(t := Idle)) xs"
  by (intro dq_okI) (use dq_okD [OF ok] waiters_other [OF _ r, of _ _ Idle] ready_error [OF r assms(3), of Idle]
    in simp_all)

lemma dq_push_ok:
  assumes ok: "dq_ok q th xs" and r: "runs th t (Push x tm) woken"
  shows "\<exists>out q' xs'. push_section t x tm q = Inr (out, q') \<and> dq_ok q' (dq_after t (Push x tm) out th) xs' \<and>
    got_items out @ xs' = xs @ put_items (Push x tm) out"
proof -
  note k = dq_okD [OF ok]
  have len: "length xs \<le> dq_size q" using k(1) by (simp add: dq_wf_def)
  let ?c = "Push x tm" and ?th = "th(t := Idle)"
  note idle = ready_leave [OF k(4) r, of Idle, simplified]
  have w1: "waiters is_push ?th (push_list q)" "waiters is_pop ?th (pop_list q)" "finite_threads ?th"
    using k waiters_other [OF _ r, of _ _ Idle] by simp_all
  show ?thesis
  proof (cases "length xs = dq_size q")
    case True
    have "dq_ok q ?th xs" by (intro dq_okI) (use k w1 idle(1) [of is_pop] True in auto)
    moreover have "dq_ok (q\<lparr>push_list := push_list q @ [t]\<rparr>) (th(t := Waiting ?c)) xs"
      by (intro dq_okI) (use k waiters_block(1) [OF k(2) r, of ?c] waiters_other [OF k(3) r, of "Waiting ?c"]
        ready_leave(1) [OF k(4) r, of "Waiting ?c" is_pop] True in \<open>simp_all add: dq_wf_def\<close>)
    ultimately show ?thesis unfolding push_section_full [OF k(1) True] by simp
  next
    case False
    with len have "length xs < dq_size q" by simp
    from push_section_room [OF k(1) this, of t x tm] obtain ev q' where
      q': "push_section t x tm q =
        Inr (Returns RT_EOK (if pop_list q = [] then None else Some (hd (pop_list q))) ev None, q')"
      "dq_wf q' (xs @ [x])" "pop_list q' = tl (pop_list q)" "push_list q' = push_list q"
      "dq_size q' = dq_size q" "dq_lwm q' = dq_lwm q" by blast
    have "dq_ok q' (dq_after t ?c (Returns RT_EOK (if pop_list q = [] then None else Some (hd (pop_list q))) ev None) th)
      (xs @ [x])"
    proof (cases "pop_list q")
      case Nil
      have "dq_ok q' ?th (xs @ [x])" by (intro dq_okI) (use Nil q' w1 k(6) idle(2) [of is_push] in auto)
      with Nil show ?thesis by simp
    next
      case (Cons u us)
      note w = w1(2) [unfolded Cons]
      have "dq_ok q' (wake_thread u RT_EOK ?th) (xs @ [x])"
        by (intro dq_okI) (use Cons q' w1 k(5,6) idle(2) [of is_push] idle(1) [of is_pop] waiters_wake [OF w]
          waiters_wake_other [OF w w1(1) kinds(2)] ready_wake(1) [OF w1(3) w] ready_wake(2) [OF w1(3) w kinds(2)]
          in auto)
      with Cons show ?thesis by simp
    qed
    with q'(1) show ?thesis by (intro exI conjI) (assumption, assumption, simp)
  qed
qed

lemma dq_pop_ok:
  assumes ok: "dq_ok q th xs" and r: "runs th t (Pop tm) woken"
  shows "\<exists>out q' xs'. pop_section t tm q = Inr (out, q') \<and> dq_ok q' (dq_after t (Pop tm) out th) xs' \<and>
    got_items out @ xs' = xs @ put_items (Pop tm) out"
proof -
  note k = dq_okD [OF ok]
  let ?c = "Pop tm" and ?th = "th(t := Idle)"
  note idle = ready_leave [OF k(4) r, of Idle, simplified]
  have w1: "waiters is_push ?th (push_list q)" "waiters is_pop ?th (pop_list q)" "finite_threads ?th"
    using k waiters_other [OF _ r, of _ _ Idle] by simp_all
  show ?thesis
  proof (cases xs)
    case Nil
    have "dq_ok q ?th xs" by (intro dq_okI) (use k w1 idle(1) [of is_push] Nil in auto)
    moreover have "dq_ok (q\<lparr>pop_list := pop_list q @ [t]\<rparr>) (th(t := Waiting ?c)) xs"
      by (intro dq_okI) (use k waiters_block(1) [OF k(3) r, of ?c] waiters_other [OF k(2) r, of "Waiting ?c"]
        ready_leave(1) [OF k(4) r, of "Waiting ?c" is_push] Nil in \<open>simp_all add: dq_wf_def\<close>)
    ultimately show ?thesis using Nil unfolding pop_section_empty [OF k(1) [unfolded Nil]] by simp
  next
    case (Cons y ys)
    from pop_section_item [OF k(1) [unfolded Cons], of t tm] obtain ev q' where
      q': "pop_section t tm q = Inr (Returns RT_EOK
          (if length ys \<le> dq_lwm q \<and> push_list q \<noteq> [] then Some (hd (push_list q)) else None) ev (Some y), q')"
      "dq_wf q' ys" "pop_list q' = pop_list q"
      "push_list q' = (if length ys \<le> dq_lwm q then tl (push_list q) else push_list q)"
      "dq_size q' = dq_size q" "dq_lwm q' = dq_lwm q" by blast
    have "dq_ok q' (dq_after t ?c (Returns RT_EOK
        (if length ys \<le> dq_lwm q \<and> push_list q \<noteq> [] then Some (hd (push_list q)) else None) ev (Some y)) th) ys"
    proof (cases "length ys \<le> dq_lwm q \<and> push_list q \<noteq> []")
      case False
      have "push_list q' = push_list q" using q'(4) False by auto
      then have "dq_ok q' ?th ys"
        by (intro dq_okI) (use False q' w1 k(5,6) Cons idle(2) [of is_pop] idle(1) [of is_push] in auto)
      with False show ?thesis by auto
    next
      case True
      then obtain u us where u: "push_list q = u # us" by (cases "push_list q") auto
      note w = w1(1) [unfolded u]
      have "dq_ok q' (wake_thread u RT_EOK ?th) ys"
        by (intro dq_okI) (use True u q' w1 k(5,6) Cons idle(2) [of is_pop] idle(1) [of is_push] waiters_wake [OF w]
          waiters_wake_other [OF w w1(2) kinds(1)] ready_wake(1) [OF w1(3) w] ready_wake(2) [OF w1(3) w kinds(1)]
          in auto)
      with True u show ?thesis by simp
    qed
    with q'(1) Cons show ?thesis by (intro exI conjI) (assumption, assumption, simp)
  qed
qed

lemma dq_exec_ok:
  assumes "dq_ok q th xs" and "runs th t c woken"
  shows "\<exists>out q' xs'. dq_exec woken t c q = Inr (out, q') \<and> dq_ok q' (dq_after t c out th) xs' \<and>
    got_items out @ xs' = xs @ put_items c out"
proof (cases "woken = None \<or> woken = Some RT_EOK")
  case True
  have magic: "dq_magic q = DATAQUEUE_MAGIC" using assms(1) by (simp add: dq_ok_def dq_wf_def)
  show ?thesis
  proof (cases c)
    case (Push x tm)
    then show ?thesis using True magic dq_push_ok [OF assms(1), of t x tm woken] assms(2)
      by (auto simp: rt_data_queue_push_def)
  next
    case (Pop tm)
    then show ?thesis using True magic dq_pop_ok [OF assms(1), of t tm woken] assms(2)
      by (auto simp: rt_data_queue_pop_def)
  qed
next
  case False
  then obtain err where e: "woken = Some err" "err \<noteq> RT_EOK" by auto
  then have "dq_exec woken t c q = Inr (Returns err None None None, q)"
    by (cases c) (simp_all add: rt_data_queue_push_def rt_data_queue_pop_def)
  moreover have "put_items c (Returns err None None None) = []" using e by (cases c) simp_all
  ultimately show ?thesis using dq_error_ok [OF assms] e by auto
qed

lemma dq_timeout_ok:
  assumes "dq_ok q th xs" and "th t = Waiting c"
  shows "dq_ok (q\<lparr>push_list := remove1 t (push_list q), pop_list := remove1 t (pop_list q)\<rparr>)
    (th(t := Ready c (- RT_ETIMEOUT))) xs"
proof -
  note k = dq_okD [OF assms(1)]
  have ne: "remove1 t ts \<noteq> [] \<Longrightarrow> ts \<noteq> []" for ts by auto
  have "dq_wf (q\<lparr>push_list := remove1 t (push_list q), pop_list := remove1 t (pop_list q)\<rparr>) xs"
    using k(1) by (simp add: dq_wf_def)
  then show ?thesis
    by (intro dq_okI) (use k(4) k(5,6) [OF ne] waiters_timeout [OF k(2), of t c, OF assms(2)]
      waiters_timeout [OF k(3), of t c, OF assms(2)] ready_timeout [of th t c "- RT_ETIMEOUT", OF assms(2)] in simp_all)
qed

lemma dq_reset_ok:
  assumes "dq_ok q th xs"
  shows "\<exists>ts q'. rt_data_queue_reset q = Inr (ts, q') \<and> dq_ok q' (wake_all (- RT_ERROR) ts th) []"
proof -
  note k = dq_okD [OF assms]
  have "rt_data_queue_reset q = Inr (pop_list q @ push_list q, q\<lparr>dq_get := 0, dq_put := 0, dq_empty := True,
      dq_full := False, pop_list := [], push_list := []\<rparr>)" (is "_ = Inr (?ts, ?q)")
    using k(1) by (simp add: rt_data_queue_reset_def dq_wf_def)
  moreover have "dq_wf ?q []" using k(1) by (auto simp: dq_wf_def)
  then have "dq_ok ?q (wake_all (- RT_ERROR) ?ts th) []"
    by (intro dq_okI) (use k waiters_wake_all [OF k(2), of ?ts] waiters_wake_all [OF k(3), of ?ts] in simp_all)
  ultimately show ?thesis by blast
qed

lemma dq_init_ok:
  assumes "rt_data_queue_init sz lwm nt (Some mem) = Inr (RT_EOK, q)" and "length mem = sz" "sz < 2 ^ 15"
  shows "dq_ok q (\<lambda>t. Idle) []"
  using assms by (auto simp: rt_data_queue_init_def dq_ok_def dq_wf_def lists_ok_def wakeups_ok_def split: if_splits)

lemma dq_reach_ok: "dq_reach q th ins outs \<Longrightarrow> \<exists>xs. dq_ok q th xs \<and> ins = outs @ xs"
proof (induction rule: dq_reach.induct)
  case (init sz lwm nt mem q)
  then show ?case using dq_init_ok by fastforce
next
  case (call q th ins outs t c out q')
  then obtain xs where "dq_ok q th xs" "ins = outs @ xs" by blast
  with dq_exec_ok [of q th xs t c None] call(2,3) show ?case by (fastforce simp: runs_def)
next
  case (resume q th ins outs t c err out q')
  then obtain xs where "dq_ok q th xs" "ins = outs @ xs" by blast
  with dq_exec_ok [of q th xs t c "Some err"] resume(2,3) show ?case by (fastforce simp: runs_def)
next
  case (timeout q th ins outs t c)
  then show ?case using dq_timeout_ok by blast
next
  case (reset q th ins outs ts q')
  then show ?case using dq_reset_ok by fastforce
qed

subsection \<open>Properties\<close>

text \<open>C25: Whatever the order of calls, wake-ups, expiring timers and resets, the queue holds the items that were put in
  and not taken out yet, in order and at most \<open>size\<close> of them, and no call faults.
\<close>

theorem dq_fifo:
  assumes "dq_reach q th ins outs"
  shows "\<exists>xs. ins = outs @ xs \<and> length xs \<le> dq_size q \<and> rt_data_queue_len q = Inr (length xs) \<and>
    rt_data_queue_peek q = Inr (case xs of [] \<Rightarrow> (- RT_EEMPTY, None) | x # _ \<Rightarrow> (RT_EOK, Some x)) \<and>
    (\<forall>t c. th t = Idle \<longrightarrow> (\<exists>r. dq_exec None t c q = Inr r)) \<and>
    (\<forall>t c err. th t = Ready c err \<longrightarrow> (\<exists>r. dq_exec (Some err) t c q = Inr r))"
proof -
  obtain xs where xs: "dq_ok q th xs" "ins = outs @ xs" using dq_reach_ok [OF assms] by blast
  then have wf: "dq_wf q xs" by (simp add: dq_ok_def)
  have "rt_data_queue_peek q = Inr (case xs of [] \<Rightarrow> (- RT_EEMPTY, None) | x # _ \<Rightarrow> (RT_EOK, Some x))"
  proof (cases xs)
    case (Cons x ys)
    then show ?thesis using wf load_wf(1) [of q x ys] by (simp add: rt_data_queue_peek_def) (simp add: dq_wf_def)
  qed (use wf in \<open>simp add: rt_data_queue_peek_def dq_wf_def\<close>)
  moreover have "\<exists>r. dq_exec None t c q = Inr r" if "th t = Idle" for t c
    using dq_exec_ok [OF xs(1), of t c None] that by (auto simp: runs_def)
  moreover have "\<exists>r. dq_exec (Some err) t c q = Inr r" if "th t = Ready c err" for t c err
    using dq_exec_ok [OF xs(1), of t c "Some err"] that by (auto simp: runs_def)
  ultimately show ?thesis using xs(2) wf dq_len_wf [OF wf] by (auto simp: dq_wf_def)
qed

text \<open>C26: No wake-up is lost.  While the queue holds an item and a reader waits, a reader that was resumed is about to run;
  the same holds for writers when the length is at or below the low water mark (above it they stay suspended
  beside a free slot, by the design of the mark); and readers and writers never wait for each other with nobody
  about to run.
\<close>

theorem dq_no_lost_wakeup:
  assumes "dq_reach q th ins outs"
  shows "(pop_list q \<noteq> [] \<and> \<not> dq_empty q \<longrightarrow> (\<exists>t tm. th t = Ready (Pop tm) RT_EOK)) \<and>
    (push_list q \<noteq> [] \<and> \<not> dq_full q \<and> (\<exists>n. rt_data_queue_len q = Inr n \<and> n \<le> dq_lwm q) \<longrightarrow>
       (\<exists>t x tm. th t = Ready (Push x tm) RT_EOK)) \<and>
    (pop_list q \<noteq> [] \<and> push_list q \<noteq> [] \<longrightarrow> (\<exists>t c. th t = Ready c RT_EOK))"
proof -
  obtain xs where xs: "dq_ok q th xs" using dq_reach_ok [OF assms] by blast
  then have wf: "dq_wf q xs" and wk: "wakeups_ok q th (length xs)" by (simp_all add: dq_ok_def)
  have pops: "\<exists>t tm. th t = Ready (Pop tm) RT_EOK" if "0 < card (ready is_pop th)"
    using that by (auto simp: card_gt_0_iff ready_def elim!: is_push.elims is_pop_elim)
  have pushes: "\<exists>t x tm. th t = Ready (Push x tm) RT_EOK" if "0 < card (ready is_push th)"
    using that by (auto simp: card_gt_0_iff ready_def elim!: is_push.elims)
  have 1: "0 < card (ready is_pop th)" if "pop_list q \<noteq> []" "xs \<noteq> []"
    using wk that by (cases xs) (auto simp: wakeups_ok_def)
  have 2: "0 < card (ready is_push th)" if "push_list q \<noteq> []" "length xs \<noteq> dq_size q" "length xs \<le> dq_lwm q"
    using wk wf that by (auto simp: wakeups_ok_def dq_wf_def)
  have e: "dq_empty q \<longleftrightarrow> xs = []" "dq_full q \<longleftrightarrow> length xs = dq_size q" "0 < dq_size q"
    using wf by (simp_all add: dq_wf_def)
  have 3: "\<exists>t c. th t = Ready c RT_EOK" if "pop_list q \<noteq> []" "push_list q \<noteq> []"
    using that 1 2 pops pushes e(3) by (cases xs) (simp, blast, simp, blast)
  show ?thesis unfolding e dq_len_wf [OF wf] using 1 2 3 pops pushes by auto
qed

subsection \<open>Where the module goes wrong\<close>

text \<open>A writer that was resumed and has not run yet when \<open>rt_data_queue_deinit\<close> is called keeps \<open>RT_EOK\<close>, finds the
  queue not full and stores into the array that was given back.\<close>

theorem dq_deinit_use_after_free:
  assumes "dq_wf q xs" and "rt_data_queue_deinit q = Inr (ts, q')"
  shows "dq_exec (Some RT_EOK) t (Push x tm) q' = Inl Use_after_free"
  using assms by (auto simp: rt_data_queue_deinit_def rt_data_queue_reset_def rt_data_queue_push_def
      push_section_def store_item_def split: if_splits)

text \<open>The size has 16 bits, the indices 15: with a size above 32768 an index wraps before it reaches the size, and
  a queue with one item reports thousands.\<close>

theorem dq_large_length:
  assumes "2 ^ 15 < dq_size q" "dq_size q < 2 ^ 16" and "dq_magic q = DATAQUEUE_MAGIC" "\<not> dq_empty q"
    and "dq_get q = 32767" "dq_put q = next_index (dq_get q) q"
  shows "rt_data_queue_len q = Inr (dq_size q - 32767)"
  using assms by (simp add: rt_data_queue_len_def next_index_def idx15_def nat_diff_distrib')

subsection \<open>Instances\<close>

definition dq_demo :: rt_data_queue where
  "dq_demo = \<lparr>dq_magic = DATAQUEUE_MAGIC, dq_size = 2, dq_lwm = 1, dq_get = 0, dq_empty = True, dq_put = 0,
     dq_full = False, dq_queue = Cells (replicate 2 \<lparr>data_ptr = 0, data_size = 0\<rparr>), push_list = [], pop_list = [],
     dq_notify = False\<rparr>"

text \<open>Two readers wait; an item arrives and the first of them is resumed.\<close>

lemma dq_demo_reach:
  "\<exists>q th. dq_reach q th [\<lparr>data_ptr = 8, data_size = 4\<rparr>] [] \<and> pop_list q = [2] \<and> \<not> dq_empty q"
proof -
  let ?x = "\<lparr>data_ptr = 8, data_size = 4\<rparr>"
  have 0: "dq_reach dq_demo (\<lambda>t. Idle) [] []"
    by (rule dq_reach.init [where sz = 2 and lwm = 1 and nt = False and
          mem = "replicate 2 \<lparr>data_ptr = 0, data_size = 0\<rparr>"])
       (simp_all add: rt_data_queue_init_def dq_demo_def)
  have 1: "dq_reach (dq_demo\<lparr>pop_list := [1]\<rparr>) ((\<lambda>t. Idle)(1 := Waiting (Pop (- 1)))) [] []"
    using dq_reach.call [OF 0, of 1 "Pop (- 1)" Blocks "dq_demo\<lparr>pop_list := [1]\<rparr>"]
    by (simp add: rt_data_queue_pop_def pop_section_def dq_demo_def)
  have 2: "dq_reach (dq_demo\<lparr>pop_list := [1, 2]\<rparr>)
      ((\<lambda>t. Idle)(1 := Waiting (Pop (- 1)), 2 := Waiting (Pop (- 1)))) [] []"
    using dq_reach.call [OF 1, of 2 "Pop (- 1)" Blocks "dq_demo\<lparr>pop_list := [1, 2]\<rparr>"]
    by (simp add: rt_data_queue_pop_def pop_section_def dq_demo_def)
  have "\<exists>q'. dq_exec None 3 (Push ?x 0) (dq_demo\<lparr>pop_list := [1, 2]\<rparr>) =
      Inr (Returns RT_EOK (Some 1) None None, q') \<and> pop_list q' = [2] \<and> \<not> dq_empty q'"
    by (simp add: rt_data_queue_push_def push_section_def store_item_def next_index_def idx15_def dq_demo_def)
  then obtain q' where q': "dq_exec None 3 (Push ?x 0) (dq_demo\<lparr>pop_list := [1, 2]\<rparr>) =
      Inr (Returns RT_EOK (Some 1) None None, q')" "pop_list q' = [2]" "\<not> dq_empty q'" by blast
  from dq_reach.call [OF 2 _ q'(1)] q'(2,3) show ?thesis by (intro exI conjI) auto
qed

theorem dq_fifo_witness:
  "\<exists>q th xs. dq_reach q th [\<lparr>data_ptr = 8, data_size = 4\<rparr>] [] \<and> [\<lparr>data_ptr = 8, data_size = 4\<rparr>] = [] @ xs \<and>
     rt_data_queue_len q = Inr (length xs)"
  using dq_demo_reach dq_fifo by blast

theorem dq_no_lost_wakeup_witness:
  "\<exists>q th. dq_reach q th [\<lparr>data_ptr = 8, data_size = 4\<rparr>] [] \<and> pop_list q = [2] \<and>
     (\<exists>t tm. th t = Ready (Pop tm) RT_EOK)"
proof -
  obtain q th where q: "dq_reach q th [\<lparr>data_ptr = 8, data_size = 4\<rparr>] []" "pop_list q = [2]" "\<not> dq_empty q"
    using dq_demo_reach by blast
  from dq_no_lost_wakeup [OF q(1)] q(2,3) have "\<exists>t tm. th t = Ready (Pop tm) RT_EOK" by simp
  with q show ?thesis by blast
qed

end
