(* ===== verification/Rt_Mempool.thy ===== *)
theory Rt_Mempool
  imports Rt_Threads
begin

text \<open>
  The memory pools of the kernel (\<open>mempool.c\<close>): blocks of one size, the free ones in a list that is threaded
  through the word in front of each block; in front of a block in use that word points to its pool.

  The model keeps these words, a map from their addresses, and the ends of the memory that the pool was
  given: storing a word outside of it is a fault.  Addresses and sizes have 32 bits.  A thread that finds no
  block is suspended; as for the data queue, an operation is what it does with interrupts disabled.
  \<open>woken\<close> is \<open>None\<close> at the call, or the error number with which the thread comes back from \<open>rt_schedule\<close> and
  the ticks that have passed.
\<close>

subsection \<open>The data\<close>

text \<open>The word in front of a block: the next free block, or the pool that the block belongs to.\<close>

datatype mp_word = Link "nat option" | Owner

record rt_mempool =
  mp_start :: nat
  mp_size :: nat
  mp_block_size :: nat
  mp_list :: "nat option"
  mp_total :: nat
  mp_free :: nat
  mp_wait :: "nat list"
  mp_mem :: "nat \<Rightarrow> mp_word option"
  mp_extent :: nat

definition SIZEOF_PTR :: nat where "SIZEOF_PTR = 4"

definition u32 :: "nat \<Rightarrow> nat" where
  "u32 n = n mod 2 ^ 32"

definition mp_store :: "nat \<Rightarrow> mp_word \<Rightarrow> rt_mempool \<Rightarrow> rt_mempool result" where
  "mp_store a w m =
     (if mp_start m \<le> a \<and> a + SIZEOF_PTR \<le> mp_start m + mp_extent m then Inr (m\<lparr>mp_mem := (mp_mem m)(a \<mapsto> w)\<rparr>)
      else Inl Buffer_overflow)"

definition mp_load :: "nat \<Rightarrow> rt_mempool \<Rightarrow> mp_word result" where
  "mp_load a m = (case mp_mem m a of None \<Rightarrow> Inl Out_of_bounds | Some w \<Rightarrow> Inr w)"

subsection \<open>Setting up\<close>

text \<open>The address of the word in front of block \<open>offset\<close>.\<close>

definition mp_block :: "rt_mempool \<Rightarrow> nat \<Rightarrow> nat" where
  "mp_block m offset = u32 (mp_start m + offset * u32 (mp_block_size m + SIZEOF_PTR))"

fun link_blocks :: "nat \<Rightarrow> nat \<Rightarrow> rt_mempool \<Rightarrow> rt_mempool result" where
  "link_blocks 0 offset m = Inr m"
| "link_blocks (Suc n) offset m =
     bindR (mp_store (mp_block m offset) (Link (Some (mp_block m (offset + 1)))) m) (link_blocks n (offset + 1))"

text \<open>The free list is built, the same way by \<open>rt_mp_init\<close> and \<open>rt_mp_create\<close>; \<open>offset - 1\<close> wraps for an empty pool.\<close>

definition build_list :: "rt_mempool \<Rightarrow> rt_mempool result" where
  "build_list m =
     bindR (link_blocks (mp_total m) 0 m)
       (\<lambda>m1. bindR (mp_store (mp_block m1 (nat ((int (mp_total m1) - 1) mod 2 ^ 32))) (Link None) m1)
               (\<lambda>m2. Inr (m2\<lparr>mp_list := Some (mp_start m2)\<rparr>)))"

definition rt_mp_init :: "nat \<Rightarrow> nat \<Rightarrow> nat \<Rightarrow> (nat \<Rightarrow> mp_word option) \<Rightarrow> (int \<times> rt_mempool) result" where
  "rt_mp_init start sz block_size0 mem =
     (if \<not> (sz > 0 \<and> block_size0 > 0) then Inl Assert_failed
      else
        (let size1 = size_down sz;
             block_size = size_up block_size0
         in if u32 (block_size + SIZEOF_PTR) = 0 then Inl Div_by_zero
            else
              (let total = size1 div u32 (block_size + SIZEOF_PTR)
               in bindR (build_list \<lparr>mp_start = start, mp_size = size1, mp_block_size = block_size, mp_list = None,
                                     mp_total = total, mp_free = total, mp_wait = [], mp_mem = mem, mp_extent = sz\<rparr>)
                    (\<lambda>m. Inr (RT_EOK, m)))))"

text \<open>\<open>malloc\<close> tells where \<open>rt_malloc\<close> puts a block of a size; the pool object itself comes from the kernel's objects.\<close>

definition rt_mp_create ::
    "bool \<Rightarrow> (nat \<Rightarrow> nat option) \<Rightarrow> nat \<Rightarrow> nat \<Rightarrow> (nat \<Rightarrow> mp_word option) \<Rightarrow> rt_mempool option result" where
  "rt_mp_create obj malloc block_count block_size0 mem =
     (if \<not> (block_count > 0 \<and> block_size0 > 0) then Inl Assert_failed
      else if \<not> obj then Inr None
      else
        (let block_size = size_up block_size0;
             sz = u32 (u32 (block_size + SIZEOF_PTR) * block_count)
         in case malloc sz of
              None \<Rightarrow> Inr None
            | Some start \<Rightarrow>
                bindR (build_list \<lparr>mp_start = start, mp_size = sz, mp_block_size = block_size, mp_list = None,
                                   mp_total = block_count, mp_free = block_count, mp_wait = [], mp_mem = mem,
                                   mp_extent = sz\<rparr>)
                  (\<lambda>m. Inr (Some m))))"

subsection \<open>Blocks\<close>

text \<open>A call returns a block, fails with the null pointer and an error number, or suspends its thread with the
  time it may still wait.\<close>

datatype mp_outcome = Block nat | Null int | Suspends int

definition alloc_section :: "nat \<Rightarrow> int \<Rightarrow> rt_mempool \<Rightarrow> (mp_outcome \<times> rt_mempool) result" where
  "alloc_section t time m =
     (if mp_free m = 0 then
        (if time = 0 then Inr (Null (- RT_ETIMEOUT), m)
         else Inr (Suspends time, m\<lparr>mp_wait := t # mp_wait m\<rparr>))
      else
        (let m1 = m\<lparr>mp_free := mp_free m - 1\<rparr>
         in case mp_list m1 of
              None \<Rightarrow> Inl Assert_failed
            | Some block_ptr \<Rightarrow>
                bindR (mp_load block_ptr m1)
                  (\<lambda>w. case w of
                         Owner \<Rightarrow> Inl Bad_argument
                       | Link nxt \<Rightarrow>
                           bindR (mp_store block_ptr Owner (m1\<lparr>mp_list := nxt\<rparr>))
                             (\<lambda>m2. Inr (Block (block_ptr + SIZEOF_PTR), m2)))))"

definition rt_mp_alloc :: "(int \<times> int) option \<Rightarrow> nat \<Rightarrow> int \<Rightarrow> rt_mempool \<Rightarrow> (mp_outcome \<times> rt_mempool) result" where
  "rt_mp_alloc woken t time m =
     (case woken of
        None \<Rightarrow> alloc_section t time m
      | Some (err, elapsed) \<Rightarrow>
          if err \<noteq> RT_EOK then Inr (Null err, m)
          else alloc_section t (if time > 0 then (if time - elapsed < 0 then 0 else time - elapsed) else time) m)"

text \<open>The result is the thread that was resumed.\<close>

definition rt_mp_free :: "nat option \<Rightarrow> rt_mempool \<Rightarrow> (nat option \<times> rt_mempool) result" where
  "rt_mp_free block m =
     (case block of
        None \<Rightarrow> Inr (None, m)
      | Some b \<Rightarrow>
          (let block_ptr = b - SIZEOF_PTR
           in bindR (mp_load block_ptr m)
                (\<lambda>w. case w of
                       Link nxt \<Rightarrow> Inl Bad_argument
                     | Owner \<Rightarrow>
                         bindR (mp_store block_ptr (Link (mp_list m)) (m\<lparr>mp_free := mp_free m + 1\<rparr>))
                           (\<lambda>m1. let m2 = m1\<lparr>mp_list := Some block_ptr\<rparr>
                                 in case mp_wait m2 of
                                      [] \<Rightarrow> Inr (None, m2)
                                    | u # us \<Rightarrow> Inr (Some u, m2\<lparr>mp_wait := us\<rparr>)))))"

text \<open>The waiting threads are resumed with the error \<open>- RT_ERROR\<close>; what else the two functions do is giving the
  memory and the object back.\<close>

definition rt_mp_detach :: "rt_mempool \<Rightarrow> nat list \<times> rt_mempool" where
  "rt_mp_detach m = (mp_wait m, m\<lparr>mp_wait := []\<rparr>)"

definition rt_mp_delete :: "rt_mempool \<Rightarrow> nat list \<times> nat" where
  "rt_mp_delete m = (mp_wait m, mp_start m)"

subsection \<open>The invariant\<close>

text \<open>The free list: a chain through the words of the blocks.\<close>

fun chain :: "(nat \<Rightarrow> mp_word option) \<Rightarrow> nat option \<Rightarrow> nat list \<Rightarrow> bool" where
  "chain mem p [] \<longleftrightarrow> p = None"
| "chain mem p (a # fs) \<longleftrightarrow> p = Some a \<and> (\<exists>n. mem a = Some (Link n) \<and> chain mem n fs)"

lemma chain_upd [simp]: "a \<notin> set fs \<Longrightarrow> chain (mem(a := w)) p fs = chain mem p fs"
  by (induction fs arbitrary: p) auto

definition step :: "rt_mempool \<Rightarrow> nat" where
  "step m = mp_block_size m + SIZEOF_PTR"

text \<open>\<open>fs\<close> are the free blocks in the order of the list, \<open>us\<close> the blocks in use; the words of both are at the starts
  of the pool's blocks.\<close>

definition mp_wf :: "rt_mempool \<Rightarrow> nat list \<Rightarrow> nat set \<Rightarrow> bool" where
  "mp_wf m fs us \<longleftrightarrow> distinct fs \<and> set fs \<inter> us = {} \<and> set fs \<union> us = (\<lambda>k. mp_start m + k * step m) ` {..<mp_total m} \<and>
     chain (mp_mem m) (mp_list m) fs \<and> (\<forall>a\<in>us. mp_mem m a = Some Owner) \<and> mp_free m = length fs \<and>
     mp_total m * step m \<le> mp_extent m \<and> mp_start m + mp_extent m \<le> 2 ^ 32"

lemma mp_wf_wait [simp]: "mp_wf (m\<lparr>mp_wait := ws\<rparr>) fs us = mp_wf m fs us"
  by (simp add: mp_wf_def step_def)

lemma mp_wf_block:
  assumes "mp_wf m fs us" and "a \<in> set fs \<union> us"
  shows "mp_start m \<le> a" "a + step m \<le> mp_start m + mp_extent m" "mp_store a w m = Inr (m\<lparr>mp_mem := (mp_mem m)(a \<mapsto> w)\<rparr>)"
proof -
  obtain k where k: "k < mp_total m" "a = mp_start m + k * step m" using assms by (auto simp: mp_wf_def)
  then have "(k + 1) * step m \<le> mp_total m * step m" by (intro mult_le_mono1) simp
  with assms(1) have "(k + 1) * step m \<le> mp_extent m" by (simp add: mp_wf_def)
  with k(2) show a: "mp_start m \<le> a" "a + step m \<le> mp_start m + mp_extent m" by simp_all
  then show "mp_store a w m = Inr (m\<lparr>mp_mem := (mp_mem m)(a \<mapsto> w)\<rparr>)" by (simp add: mp_store_def step_def)
qed

text \<open>Two blocks of a pool do not overlap.\<close>

lemma mp_wf_apart:
  assumes "mp_wf m fs us" and "a \<in> set fs \<union> us" "b \<in> set fs \<union> us" "a < b"
  shows "a + step m \<le> b"
proof -
  obtain k l where k: "a = mp_start m + k * step m" "b = mp_start m + l * step m" using assms by (auto simp: mp_wf_def)
  with assms(4) have "k < l" by (auto simp: mult_less_cancel2)
  then have "(k + 1) * step m \<le> l * step m" by (intro mult_le_mono1) simp
  with k show ?thesis by simp
qed

lemma mp_wf_count:
  assumes "mp_wf m fs us"
  shows "length fs + card us = mp_total m" and "finite us"
proof -
  have s: "0 < step m" by (simp add: step_def SIZEOF_PTR_def)
  have all: "set fs \<union> us = (\<lambda>k. mp_start m + k * step m) ` {..<mp_total m}" and disj: "distinct fs" "set fs \<inter> us = {}"
    using assms by (simp_all add: mp_wf_def)
  have "inj_on (\<lambda>k. mp_start m + k * step m) {..<mp_total m}" using s by (auto simp: inj_on_def)
  then have "card (set fs \<union> us) = mp_total m" unfolding all by (simp add: card_image)
  moreover have "finite (set fs \<union> us)" unfolding all by simp
  ultimately show "length fs + card us = mp_total m" "finite us" using disj by (simp_all add: card_Un_disjoint distinct_card)
qed

subsection \<open>Setting up gives a pool\<close>

lemma mp_store_fields:
  "mp_store a w m = Inr m' \<Longrightarrow> m' = m\<lparr>mp_mem := (mp_mem m)(a \<mapsto> w)\<rparr>"
  by (auto simp: mp_store_def split: if_splits)

lemma link_blocks_result:
  assumes "mp_start m + mp_extent m \<le> 2 ^ 32" and "(off + n) * step m \<le> mp_extent m" and "mp_extent m < 2 ^ 32"
  shows "\<exists>mem. link_blocks n off m = Inr (m\<lparr>mp_mem := mem\<rparr>) \<and>
    (\<forall>k. off \<le> k \<and> k < off + n \<longrightarrow> mem (mp_start m + k * step m) = Some (Link (Some (mp_block m (k + 1))))) \<and>
    (\<forall>a. a < mp_start m + off * step m \<longrightarrow> mem a = mp_mem m a)"
  using assms
proof (induction n arbitrary: off m)
  case 0
  then show ?case by (auto intro: exI [of _ "mp_mem m"])
next
  case (Suc n)
  have s: "0 < step m" by (simp add: step_def SIZEOF_PTR_def)
  have le: "(off + 1) * step m \<le> mp_extent m"
    using Suc.prems(2) by (rule order_trans [rotated]) (intro mult_le_mono1, simp)
  then have "step m < 2 ^ 32" using Suc.prems(3) by simp
  then have u: "u32 (mp_block_size m + SIZEOF_PTR) = step m" by (simp add: u32_def step_def)
  have "mp_start m + off * step m < 2 ^ 32" using le Suc.prems(1) s by simp
  then have b: "mp_block m off = mp_start m + off * step m" by (simp add: mp_block_def u) (simp add: u32_def)
  have st: "mp_store (mp_block m off) w m = Inr (m\<lparr>mp_mem := (mp_mem m)(mp_start m + off * step m \<mapsto> w)\<rparr>)" for w
    using le by (simp add: mp_store_def b step_def)
  let ?m = "m\<lparr>mp_mem := (mp_mem m)(mp_start m + off * step m \<mapsto> Link (Some (mp_block m (off + 1))))\<rparr>"
  have "\<exists>mem. link_blocks n (off + 1) ?m = Inr (?m\<lparr>mp_mem := mem\<rparr>) \<and>
    (\<forall>k. off + 1 \<le> k \<and> k < off + 1 + n \<longrightarrow> mem (mp_start ?m + k * step ?m) = Some (Link (Some (mp_block ?m (k + 1))))) \<and>
    (\<forall>a. a < mp_start ?m + (off + 1) * step ?m \<longrightarrow> mem a = mp_mem ?m a)"
    by (rule Suc.IH) (use Suc.prems in \<open>simp_all add: step_def\<close>)
  then obtain mem where mem: "link_blocks n (off + 1) ?m = Inr (m\<lparr>mp_mem := mem\<rparr>)"
    "\<And>k. off + 1 \<le> k \<Longrightarrow> k < off + 1 + n \<Longrightarrow> mem (mp_start m + k * step m) = Some (Link (Some (mp_block m (k + 1))))"
    "\<And>a. a < mp_start m + (off + 1) * step m \<Longrightarrow>
       mem a = ((mp_mem m)(mp_start m + off * step m \<mapsto> Link (Some (mp_block m (off + 1))))) a"
    by (auto simp: step_def mp_block_def)
  have "mem (mp_start m + k * step m) = Some (Link (Some (mp_block m (k + 1))))" if "off \<le> k" "k < off + Suc n" for k
  proof (cases "k = off")
    case True
    then show ?thesis using mem(3) [of "mp_start m + off * step m"] s by simp
  next
    case False
    then show ?thesis using mem(2) [of k] that by simp
  qed
  moreover have "mem a = mp_mem m a" if "a < mp_start m + off * step m" for a
    using mem(3) [of a] that by simp
  ultimately show ?case using st mem(1) by (intro exI [of _ mem]) simp
qed

lemma chain_blocks:
  assumes "\<And>k. i \<le> k \<Longrightarrow> k < n \<Longrightarrow> mem (b k) = Some (Link (if k + 1 < n then Some (b (k + 1)) else None))"
  shows "i \<le> n \<Longrightarrow> chain mem (if i < n then Some (b i) else None) (map b [i..<n])"
  using assms
proof (induction "n - i" arbitrary: i)
  case (Suc d)
  then have "i < n" by simp
  then have "chain mem (if i + 1 < n then Some (b (i + 1)) else None) (map b [i + 1..<n])"
    using Suc by (intro Suc.hyps(1)) auto
  with \<open>i < n\<close> Suc.prems(2) [of i] show ?case by (auto simp: upt_conv_Cons)
qed simp

lemma build_list_wf:
  assumes "mp_start m + mp_extent m \<le> 2 ^ 32" and "mp_total m * step m \<le> mp_extent m" and "mp_extent m < 2 ^ 32"
    and "0 < mp_total m" and "mp_free m = mp_total m"
  shows "\<exists>m'. build_list m = Inr m' \<and> mp_wf m' (map (\<lambda>k. mp_start m + k * step m) [0..<mp_total m]) {} \<and>
    mp_wait m' = mp_wait m \<and> mp_start m' = mp_start m \<and> mp_extent m' = mp_extent m \<and>
    mp_total m' = mp_total m \<and> mp_block_size m' = mp_block_size m"
proof -
  let ?b = "\<lambda>k. mp_start m + k * step m" and ?n = "mp_total m"
  have s: "0 < step m" by (simp add: step_def SIZEOF_PTR_def)
  obtain mem where mem: "link_blocks ?n 0 m = Inr (m\<lparr>mp_mem := mem\<rparr>)"
    "\<And>k. k < ?n \<Longrightarrow> mem (?b k) = Some (Link (Some (mp_block m (k + 1))))"
    using link_blocks_result [of m 0 ?n] assms by auto
  have le: "(k + 1) * step m \<le> mp_extent m" if "k < ?n" for k
  proof -
    have "(k + 1) * step m \<le> ?n * step m" using that by (intro mult_le_mono1) simp
    then show ?thesis using assms(2) by simp
  qed
  have "step m < 2 ^ 32" using le [OF assms(4)] assms(3) by simp
  then have u: "u32 (mp_block_size m + SIZEOF_PTR) = step m" by (simp add: u32_def step_def)
  have b: "mp_block m' k = ?b k" if "k < ?n" "mp_start m' = mp_start m" "mp_block_size m' = mp_block_size m" for k m'
  proof -
    have "?b k < 2 ^ 32" using le [OF that(1)] assms(1) s by simp
    then show ?thesis using that(2,3) by (simp add: mp_block_def u) (simp add: u32_def)
  qed
  have "?n \<le> ?n * step m" using s by simp
  then have "?n < 2 ^ 32" using assms(2,3) by linarith
  then have last: "nat ((int ?n - 1) mod 2 ^ 32) = ?n - 1" using assms(4) by (simp add: nat_diff_distrib')
  let ?m = "m\<lparr>mp_mem := mem\<rparr>" and ?mem = "mem(?b (?n - 1) \<mapsto> Link None)"
  have "mp_block ?m (?n - 1) = ?b (?n - 1)" using assms(4) by (intro b) simp_all
  moreover have "(?n - 1 + 1) * step m = (?n - 1) * step m + step m" by (simp only: distrib_right mult_1)
  then have "?b (?n - 1) + SIZEOF_PTR \<le> mp_start m + mp_extent m"
    using le [of "?n - 1"] assms(4) by (simp add: step_def del: Suc_pred)
  ultimately have st: "mp_store (mp_block ?m (?n - 1)) (Link None) ?m = Inr (m\<lparr>mp_mem := ?mem\<rparr>)"
    by (simp add: mp_store_def)
  let ?m' = "m\<lparr>mp_mem := ?mem, mp_list := Some (mp_start m)\<rparr>"
  have "build_list m = Inr ?m'" using mem(1) st last by (simp add: build_list_def)
  moreover have "chain ?mem (if 0 < ?n then Some (?b 0) else None) (map ?b [0..<?n])"
  proof (rule chain_blocks)
    fix k assume k: "k < ?n"
    have ne: "?b k \<noteq> ?b (?n - 1)" if "k + 1 < ?n" using that s by simp
    show "?mem (?b k) = Some (Link (if k + 1 < ?n then Some (?b (k + 1)) else None))"
    proof (cases "k + 1 < ?n")
      case True
      then show ?thesis using ne mem(2) [OF k] b [of "k + 1" m] by simp
    next
      case False
      then have "k = ?n - 1" using k by simp
      then show ?thesis using k by simp
    qed
  qed simp
  then have "mp_wf ?m' (map ?b [0..<?n]) {}"
    using assms s by (auto simp: mp_wf_def distinct_map inj_on_def step_def)
  ultimately show ?thesis by auto
qed

subsection \<open>Taking and giving back\<close>

definition same_pool :: "rt_mempool \<Rightarrow> rt_mempool \<Rightarrow> bool" where
  "same_pool m m' \<longleftrightarrow> mp_start m' = mp_start m \<and> mp_block_size m' = mp_block_size m \<and> mp_total m' = mp_total m \<and>
     mp_extent m' = mp_extent m"

lemma alloc_section_empty:
  "mp_wf m [] us \<Longrightarrow> alloc_section t time m =
    (if time = 0 then Inr (Null (- RT_ETIMEOUT), m) else Inr (Suspends time, m\<lparr>mp_wait := t # mp_wait m\<rparr>))"
  by (simp add: alloc_section_def mp_wf_def)

lemma alloc_section_block:
  assumes "mp_wf m (a # fs) us"
  shows "\<exists>m'. alloc_section t time m = Inr (Block (a + SIZEOF_PTR), m') \<and> mp_wf m' fs (insert a us) \<and>
    mp_wait m' = mp_wait m \<and> same_pool m m'"
proof -
  obtain n where n: "mp_list m = Some a" "mp_mem m a = Some (Link n)" "chain (mp_mem m) n fs" "mp_free m = Suc (length fs)"
    "a \<notin> set fs" "a \<notin> us"
    using assms by (auto simp: mp_wf_def)
  let ?m = "m\<lparr>mp_free := length fs, mp_list := n, mp_mem := (mp_mem m)(a \<mapsto> Owner)\<rparr>"
  have "mp_store a Owner (m\<lparr>mp_free := length fs, mp_list := n\<rparr>) = Inr ?m"
    using mp_wf_block(1,2) [OF assms, of a] by (simp add: mp_store_def step_def)
  then have "alloc_section t time m = Inr (Block (a + SIZEOF_PTR), ?m)"
    using n by (simp add: alloc_section_def mp_load_def)
  moreover have "mp_wf ?m fs (insert a us)"
    using assms n by (auto simp: mp_wf_def step_def)
  ultimately show ?thesis by (auto simp: same_pool_def)
qed

lemma free_block:
  assumes "mp_wf m fs us" and "a \<in> us"
  shows "\<exists>m'. rt_mp_free (Some (a + SIZEOF_PTR)) m =
      Inr (if mp_wait m = [] then None else Some (hd (mp_wait m)), m') \<and>
    mp_wf m' (a # fs) (us - {a}) \<and> mp_wait m' = tl (mp_wait m) \<and> same_pool m m'"
proof -
  have a: "mp_mem m a = Some Owner" "a \<notin> set fs" using assms by (auto simp: mp_wf_def)
  let ?m = "m\<lparr>mp_free := Suc (mp_free m), mp_mem := (mp_mem m)(a \<mapsto> Link (mp_list m)), mp_list := Some a\<rparr>"
  have "mp_store a (Link (mp_list m)) (m\<lparr>mp_free := mp_free m + 1\<rparr>) =
      Inr (m\<lparr>mp_free := mp_free m + 1, mp_mem := (mp_mem m)(a \<mapsto> Link (mp_list m))\<rparr>)"
    using mp_wf_block(1,2) [OF assms(1), of a] assms(2) by (simp add: mp_store_def step_def)
  then have "rt_mp_free (Some (a + SIZEOF_PTR)) m =
      (case mp_wait ?m of [] \<Rightarrow> Inr (None, ?m) | u # us \<Rightarrow> Inr (Some u, ?m\<lparr>mp_wait := us\<rparr>))"
    using a by (simp add: rt_mp_free_def mp_load_def Let_def)
  moreover have "set (a # fs) \<union> (us - {a}) = set fs \<union> us" using assms(2) by auto
  then have "mp_wf ?m (a # fs) (us - {a})" using assms a by (auto simp: mp_wf_def step_def)
  ultimately show ?thesis by (cases "mp_wait m") (auto simp: same_pool_def)
qed

subsection \<open>Threads on the pool\<close>

text \<open>A call is known by the time it may still wait.  The last argument are the blocks that the clients hold.\<close>

fun mp_after :: "nat \<Rightarrow> mp_outcome \<Rightarrow> int threads \<Rightarrow> int threads" where
  "mp_after t (Suspends time) th = th(t := Waiting time)"
| "mp_after t (Block b) th = th(t := Idle)"
| "mp_after t (Null err) th = th(t := Idle)"

fun got_block :: "mp_outcome \<Rightarrow> nat set" where
  "got_block (Block b) = {b}"
| "got_block (Null err) = {}"
| "got_block (Suspends time) = {}"

inductive mp_reach :: "rt_mempool \<Rightarrow> int threads \<Rightarrow> nat set \<Rightarrow> bool" where
  init: "rt_mp_init start sz bs mem = Inr (RT_EOK, m) \<Longrightarrow> start + sz \<le> 2 ^ 32 \<Longrightarrow> sz < 2 ^ 32 \<Longrightarrow>
    size_up bs + SIZEOF_PTR \<le> size_down sz \<Longrightarrow> mp_reach m (\<lambda>t. Idle) {}"
| create: "rt_mp_create True malloc n bs mem = Inr (Some m) \<Longrightarrow> n * (size_up bs + SIZEOF_PTR) < 2 ^ 32 \<Longrightarrow>
    malloc (n * (size_up bs + SIZEOF_PTR)) = Some start \<Longrightarrow> start + n * (size_up bs + SIZEOF_PTR) \<le> 2 ^ 32 \<Longrightarrow>
    mp_reach m (\<lambda>t. Idle) {}"
| alloc: "mp_reach m th held \<Longrightarrow> th t = Idle \<Longrightarrow> rt_mp_alloc None t time m = Inr (out, m') \<Longrightarrow>
    mp_reach m' (mp_after t out th) (held \<union> got_block out)"
| resume: "mp_reach m th held \<Longrightarrow> th t = Ready time err \<Longrightarrow>
    rt_mp_alloc (Some (err, elapsed)) t time m = Inr (out, m') \<Longrightarrow>
    mp_reach m' (mp_after t out th) (held \<union> got_block out)"
| free: "mp_reach m th held \<Longrightarrow> p \<in> held \<Longrightarrow> rt_mp_free (Some p) m = Inr (w, m') \<Longrightarrow>
    mp_reach m' (case w of None \<Rightarrow> th | Some u \<Rightarrow> wake_thread u RT_EOK th) (held - {p})"
| timeout: "mp_reach m th held \<Longrightarrow> th t = Waiting time \<Longrightarrow> 0 < time \<Longrightarrow>
    mp_reach (m\<lparr>mp_wait := remove1 t (mp_wait m)\<rparr>) (th(t := Ready time (- RT_ETIMEOUT))) held"

abbreviation any_call :: "int \<Rightarrow> bool" where "any_call \<equiv> \<lambda>c. True"

definition mp_ok :: "rt_mempool \<Rightarrow> int threads \<Rightarrow> nat set \<Rightarrow> bool" where
  "mp_ok m th held \<longleftrightarrow> (\<exists>fs us. mp_wf m fs us \<and> held = (\<lambda>a. a + SIZEOF_PTR) ` us \<and>
     waiters any_call th (mp_wait m) \<and> finite_threads th \<and>
     (mp_wait m \<noteq> [] \<longrightarrow> length fs \<le> card (ready any_call th)))"

lemma mp_alloc_ok:
  assumes "mp_ok m th held" and r: "runs th t c (map_option fst woken)" and "woken = None \<Longrightarrow> c = time"
  shows "\<exists>out m'. rt_mp_alloc woken t time m = Inr (out, m') \<and> mp_ok m' (mp_after t out th) (held \<union> got_block out)"
proof -
  obtain fs us where k: "mp_wf m fs us" "held = (\<lambda>a. a + SIZEOF_PTR) ` us" "waiters any_call th (mp_wait m)"
    "finite_threads th" "mp_wait m \<noteq> [] \<Longrightarrow> length fs \<le> card (ready any_call th)"
    using assms(1) by (auto simp: mp_ok_def)
  let ?th = "th(t := Idle)"
  have w1: "waiters any_call ?th (mp_wait m)" using waiters_other [OF k(3) r, of Idle] by simp
  note idle = ready_leave(2) [OF k(4) r, of Idle any_call, simplified]
  have sec: "\<exists>out m'. alloc_section t tm m = Inr (out, m') \<and> mp_ok m' (mp_after t out th) (held \<union> got_block out)" for tm
  proof (cases fs)
    case Nil
    have "mp_ok m ?th held" using k w1 Nil unfolding mp_ok_def by (intro exI [of _ "[]"] exI [of _ us]) simp
    moreover have "mp_ok (m\<lparr>mp_wait := t # mp_wait m\<rparr>) (th(t := Waiting tm)) held"
      using k(1,2,4) waiters_block(2) [OF k(3) r, of tm] Nil unfolding mp_ok_def
      by (intro exI [of _ "[]"] exI [of _ us]) (simp add: mp_wf_def step_def)
    ultimately show ?thesis using alloc_section_empty [OF k(1) [unfolded Nil], of t tm] by simp
  next
    case (Cons a gs)
    from alloc_section_block [OF k(1) [unfolded Cons], of t tm] obtain m' where
      m': "alloc_section t tm m = Inr (Block (a + SIZEOF_PTR), m')" "mp_wf m' gs (insert a us)" "mp_wait m' = mp_wait m"
      by blast
    have "mp_ok m' ?th (held \<union> {a + SIZEOF_PTR})"
      using m'(2,3) k w1 Cons idle unfolding mp_ok_def by (intro exI [of _ gs] exI [of _ "insert a us"]) auto
    with m'(1) show ?thesis by simp
  qed
  show ?thesis
  proof (cases "woken = None \<or> (\<exists>el. woken = Some (RT_EOK, el))")
    case True
    then show ?thesis using sec by (auto simp: rt_mp_alloc_def)
  next
    case False
    then obtain err el where e: "woken = Some (err, el)" "err \<noteq> RT_EOK" by (cases woken) auto
    then have "ready any_call ?th = ready any_call th" by (intro ready_error [OF r]) auto
    then have "mp_ok m ?th held" using k w1 unfolding mp_ok_def by (intro exI [of _ fs] exI [of _ us]) simp
    with e show ?thesis by (simp add: rt_mp_alloc_def)
  qed
qed

lemma mp_free_ok:
  assumes "mp_ok m th held" and "p \<in> held"
  shows "\<exists>w m'. rt_mp_free (Some p) m = Inr (w, m') \<and>
    mp_ok m' (case w of None \<Rightarrow> th | Some u \<Rightarrow> wake_thread u RT_EOK th) (held - {p})"
proof -
  obtain fs us where k: "mp_wf m fs us" "held = (\<lambda>a. a + SIZEOF_PTR) ` us" "waiters any_call th (mp_wait m)"
    "finite_threads th" "mp_wait m \<noteq> [] \<Longrightarrow> length fs \<le> card (ready any_call th)"
    using assms(1) by (auto simp: mp_ok_def)
  obtain a where a: "a \<in> us" "p = a + SIZEOF_PTR" using assms(2) k(2) by auto
  from free_block [OF k(1) a(1)] obtain m' where
    m': "rt_mp_free (Some p) m = Inr (if mp_wait m = [] then None else Some (hd (mp_wait m)), m')"
    "mp_wf m' (a # fs) (us - {a})" "mp_wait m' = tl (mp_wait m)" using a(2) by blast
  have held: "held - {p} = (\<lambda>a. a + SIZEOF_PTR) ` (us - {a})" using k(2) a(2) by auto
  show ?thesis
  proof (cases "mp_wait m")
    case Nil
    have "mp_ok m' th (held - {p})" using m' held k(3,4) Nil unfolding mp_ok_def by (intro exI [of _ "a # fs"] exI [of _ "us - {a}"]) simp
    with m'(1) Nil show ?thesis by simp
  next
    case (Cons u ws)
    note w = k(3) [unfolded Cons]
    have "mp_ok m' (wake_thread u RT_EOK th) (held - {p})"
      using m'(2,3) held k(4,5) Cons waiters_wake [OF w, of RT_EOK] ready_wake(1) [OF k(4) w] unfolding mp_ok_def
      by (intro exI [of _ "a # fs"] exI [of _ "us - {a}"]) simp
    with m'(1) Cons show ?thesis by simp
  qed
qed

lemma mp_new_ok: "mp_wf m fs {} \<Longrightarrow> mp_wait m = [] \<Longrightarrow> mp_ok m (\<lambda>t. Idle) {}"
  unfolding mp_ok_def by (intro exI [of _ fs] exI [of _ "{}"]) simp

lemma mp_init_ok:
  assumes "rt_mp_init start sz bs mem = Inr (RT_EOK, m)" and "start + sz \<le> 2 ^ 32" "sz < 2 ^ 32"
    and "size_up bs + SIZEOF_PTR \<le> size_down sz"
  shows "mp_ok m (\<lambda>t. Idle) {}"
proof -
  let ?st = "size_up bs + SIZEOF_PTR" and ?sz = "size_down sz"
  have s: "0 < ?st" by (simp add: SIZEOF_PTR_def)
  have le: "?sz \<le> sz" by (simp add: size_down_eq)
  then have "u32 ?st = ?st" using assms(3,4) by (simp add: u32_def)
  let ?m = "\<lparr>mp_start = start, mp_size = ?sz, mp_block_size = size_up bs, mp_list = None, mp_total = ?sz div ?st,
     mp_free = ?sz div ?st, mp_wait = [], mp_mem = mem, mp_extent = sz\<rparr>"
  have "build_list ?m = Inr m"
    using assms(1) s by (auto simp: rt_mp_init_def Let_def \<open>u32 ?st = ?st\<close> bindR_eq_Inr split: if_splits)
  moreover have "0 < ?sz div ?st" using assms(4) s by (simp add: div_greater_zero_iff)
  moreover have "?sz div ?st * ?st \<le> sz" using le by (rule order_trans [rotated]) simp
  ultimately show ?thesis
    using build_list_wf [of ?m] assms(2,3) by (auto simp: step_def intro: mp_new_ok)
qed

lemma mp_create_ok:
  assumes "rt_mp_create True malloc n bs mem = Inr (Some m)" and "n * (size_up bs + SIZEOF_PTR) < 2 ^ 32"
    and "malloc (n * (size_up bs + SIZEOF_PTR)) = Some start" "start + n * (size_up bs + SIZEOF_PTR) \<le> 2 ^ 32"
  shows "mp_ok m (\<lambda>t. Idle) {}"
proof -
  let ?st = "size_up bs + SIZEOF_PTR"
  have n: "0 < n" using assms(1) by (auto simp: rt_mp_create_def split: if_splits)
  then have "?st \<le> n * ?st" by simp
  then have "?st < 2 ^ 32" using assms(2) by linarith
  then have u: "u32 ?st = ?st" "u32 (?st * n) = n * ?st"
    using assms(2) by (simp add: u32_def, simp add: u32_def mult.commute)
  let ?m = "\<lparr>mp_start = start, mp_size = n * ?st, mp_block_size = size_up bs, mp_list = None, mp_total = n,
     mp_free = n, mp_wait = [], mp_mem = mem, mp_extent = n * ?st\<rparr>"
  have "build_list ?m = Inr m"
    using assms(1,3) by (auto simp: rt_mp_create_def Let_def u bindR_eq_Inr split: if_splits)
  then show ?thesis using build_list_wf [of ?m] assms(2,4) n by (auto simp: step_def intro: mp_new_ok)
qed

lemma mp_timeout_ok:
  assumes "mp_ok m th held" and "th t = Waiting time"
  shows "mp_ok (m\<lparr>mp_wait := remove1 t (mp_wait m)\<rparr>) (th(t := Ready time (- RT_ETIMEOUT))) held"
proof -
  obtain fs us where k: "mp_wf m fs us" "held = (\<lambda>a. a + SIZEOF_PTR) ` us" "waiters any_call th (mp_wait m)"
    "finite_threads th" "mp_wait m \<noteq> [] \<Longrightarrow> length fs \<le> card (ready any_call th)"
    using assms(1) by (auto simp: mp_ok_def)
  have ne: "remove1 t ts \<noteq> [] \<Longrightarrow> ts \<noteq> []" for ts by auto
  show ?thesis unfolding mp_ok_def
    by (intro exI [of _ fs] exI [of _ us] conjI impI)
      (use k(1,2,4) k(5) [OF ne] waiters_timeout [OF k(3), of t time, OF assms(2)]
        ready_timeout [of th t time "- RT_ETIMEOUT", OF assms(2)] in simp_all)
qed

lemma mp_reach_ok: "mp_reach m th held \<Longrightarrow> mp_ok m th held"
proof (induction rule: mp_reach.induct)
  case (init start sz bs mem m)
  then show ?case by (rule mp_init_ok)
next
  case (create malloc n bs mem m start)
  then show ?case by (rule mp_create_ok)
next
  case (alloc m th held t time out m')
  then show ?case using mp_alloc_ok [of m th held t time None time] by (auto simp: runs_def)
next
  case (resume m th held t time err elapsed out m')
  then show ?case using mp_alloc_ok [of m th held t time "Some (err, elapsed)" time] by (auto simp: runs_def)
next
  case (free m th held p w m')
  then show ?case using mp_free_ok [of m th held p] by auto
next
  case (timeout m th held t time)
  then show ?case by (intro mp_timeout_ok)
qed

subsection \<open>Properties\<close>

text \<open>C33: The blocks that clients hold lie inside the pool and, with the words in front of them, apart from each other; the
  counter of free blocks is right; and no call faults, whatever the interleaving: neither a fresh one nor that of a thread
  that was resumed, although others may have taken the block for which it was resumed.
\<close>

theorem mp_blocks_apart:
  assumes "mp_reach m th held"
  shows "(\<forall>p\<in>held. mp_start m + SIZEOF_PTR \<le> p \<and> p + mp_block_size m \<le> mp_start m + mp_extent m) \<and>
    (\<forall>p\<in>held. \<forall>q\<in>held. p < q \<longrightarrow> p + mp_block_size m + SIZEOF_PTR \<le> q) \<and> mp_free m + card held = mp_total m \<and>
    (\<forall>t time. th t = Idle \<longrightarrow> (\<exists>r. rt_mp_alloc None t time m = Inr r)) \<and>
    (\<forall>t time err elapsed. th t = Ready time err \<longrightarrow> (\<exists>r. rt_mp_alloc (Some (err, elapsed)) t time m = Inr r)) \<and>
    (\<forall>p\<in>held. \<exists>r. rt_mp_free (Some p) m = Inr r)"
proof -
  note ok = mp_reach_ok [OF assms]
  then obtain fs us where k: "mp_wf m fs us" "held = (\<lambda>a. a + SIZEOF_PTR) ` us" by (auto simp: mp_ok_def)
  have "mp_start m + SIZEOF_PTR \<le> p \<and> p + mp_block_size m \<le> mp_start m + mp_extent m" if "p \<in> held" for p
    using that k(2) mp_wf_block(1,2) [OF k(1)] by (fastforce simp: step_def)
  moreover have "p + mp_block_size m + SIZEOF_PTR \<le> q" if "p \<in> held" "q \<in> held" "p < q" for p q
    using that k(2) mp_wf_apart [OF k(1)] by (fastforce simp: step_def)
  moreover have "card held = card us" unfolding k(2) by (rule card_image) simp
  then have "mp_free m + card held = mp_total m" using mp_wf_count(1) [OF k(1)] k(1) by (simp add: mp_wf_def)
  moreover have "\<exists>r. rt_mp_alloc None t time m = Inr r" if "th t = Idle" for t time
    using mp_alloc_ok [OF ok, of t time None time] that by (auto simp: runs_def)
  moreover have "\<exists>r. rt_mp_alloc (Some (err, elapsed)) t time m = Inr r" if "th t = Ready time err" for t time err elapsed
    using mp_alloc_ok [OF ok, of t time "Some (err, elapsed)" time] that by (auto simp: runs_def)
  moreover have "\<exists>r. rt_mp_free (Some p) m = Inr r" if "p \<in> held" for p
    using mp_free_ok [OF ok that] by blast
  ultimately show ?thesis by blast
qed

text \<open>C34: While a block is free and a thread waits for one, a thread that was resumed is about to run.\<close>

theorem mp_no_lost_wakeup:
  assumes "mp_reach m th held" and "mp_wait m \<noteq> []" and "0 < mp_free m"
  shows "\<exists>t time. th t = Ready time RT_EOK"
proof -
  obtain fs us where "mp_wf m fs us" "length fs \<le> card (ready any_call th)"
    using mp_reach_ok [OF assms(1)] assms(2) by (auto simp: mp_ok_def)
  moreover have "mp_free m = length fs" using \<open>mp_wf m fs us\<close> by (simp add: mp_wf_def)
  ultimately have "0 < card (ready any_call th)" using assms(3) by linarith
  then show ?thesis by (auto simp: card_gt_0_iff ready_def)
qed

text \<open>A pool that has no room for a single block: the word that ends the list is stored in front of the memory.\<close>

theorem mp_init_no_block:
  assumes "0 < sz" "0 < bs" "size_down sz < size_up bs + SIZEOF_PTR" "size_up bs + SIZEOF_PTR < 2 ^ 32"
    and "size_up bs + SIZEOF_PTR \<le> start" "start < 2 ^ 32"
  shows "rt_mp_init start sz bs mem = Inl Buffer_overflow"
proof -
  let ?st = "size_up bs + SIZEOF_PTR"
  have u: "u32 ?st = ?st" using assms(4) by (simp add: u32_def)
  have s: "0 < ?st" by (simp add: SIZEOF_PTR_def)
  have "(start + (2 ^ 32 - 1) * ?st) mod 2 ^ 32 = (start - ?st + 2 ^ 32 * ?st) mod 2 ^ 32"
    using assms(5) by (simp add: algebra_simps)
  also have "\<dots> = start - ?st" using assms(6) by (simp only: mod_mult_self2) simp
  finally have "u32 (start + (2 ^ 32 - 1) * ?st) = start - ?st" by (simp add: u32_def)
  moreover have "nat ((int 0 - 1) mod 2 ^ 32) = 2 ^ 32 - 1" by simp
  ultimately show ?thesis
    using assms(1-3,5) s
    by (simp add: rt_mp_init_def Let_def u build_list_def mp_block_def mp_store_def)
qed

subsection \<open>Instances\<close>

text \<open>A pool of one block of four bytes: it is taken, two threads wait for it, and it is given back.\<close>

definition mp_demo :: "nat option \<Rightarrow> nat \<Rightarrow> mp_word \<Rightarrow> nat list \<Rightarrow> rt_mempool" where
  "mp_demo l n w ws = \<lparr>mp_start = 100, mp_size = 8, mp_block_size = 4, mp_list = l, mp_total = 1, mp_free = n,
     mp_wait = ws, mp_mem = [100 \<mapsto> w], mp_extent = 8\<rparr>"

lemma mp_demo_sizes: "size_up 4 = 4" "size_down 8 = 8"
  by (simp_all add: size_up_eq size_down_eq)

lemma mp_demo_init: "rt_mp_init 100 8 4 Map.empty = Inr (RT_EOK, mp_demo (Some 100) 1 (Link None) [])"
  by (simp add: rt_mp_init_def Let_def mp_demo_sizes u32_def SIZEOF_PTR_def build_list_def mp_store_def mp_block_def
      mp_demo_def)

lemma mp_demo_taken: "mp_reach (mp_demo None 0 Owner []) (\<lambda>t. Idle) {104}"
proof -
  have 0: "mp_reach (mp_demo (Some 100) 1 (Link None) []) (\<lambda>t. Idle) {}"
    by (rule mp_reach.init [OF mp_demo_init]) (simp_all add: mp_demo_sizes SIZEOF_PTR_def)
  have 1: "rt_mp_alloc None 1 0 (mp_demo (Some 100) 1 (Link None) []) = Inr (Block 104, mp_demo None 0 Owner [])"
    by (simp add: rt_mp_alloc_def alloc_section_def mp_load_def mp_store_def SIZEOF_PTR_def mp_demo_def)
  have "(\<lambda>t. Idle)(Suc 0 := Idle) = (\<lambda>t. Idle :: int thread_state)" by auto
  then show ?thesis using mp_reach.alloc [OF 0 _ 1] by simp
qed

lemma mp_demo_waiting:
  "\<exists>th. mp_reach (mp_demo (Some 100) 1 (Link None) [2]) th {}"
proof -
  have a: "rt_mp_alloc None t (- 1) (mp_demo None 0 Owner ws) = Inr (Suspends (- 1), mp_demo None 0 Owner (t # ws))" for t ws
    by (simp add: rt_mp_alloc_def alloc_section_def mp_demo_def)
  have 1: "mp_reach (mp_demo None 0 Owner [2]) ((\<lambda>t. Idle)(2 := Waiting (- 1))) {104}"
    using mp_reach.alloc [OF mp_demo_taken _ a, of 2] by simp
  have 2: "mp_reach (mp_demo None 0 Owner [3, 2]) ((\<lambda>t. Idle)(2 := Waiting (- 1), 3 := Waiting (- 1))) {104}"
    using mp_reach.alloc [OF 1 _ a, of 3] by simp
  have f: "rt_mp_free (Some 104) (mp_demo None 0 Owner [3, 2]) = Inr (Some 3, mp_demo (Some 100) 1 (Link None) [2])"
    by (simp add: rt_mp_free_def mp_load_def mp_store_def SIZEOF_PTR_def mp_demo_def Let_def)
  from mp_reach.free [OF 2 _ f] show ?thesis by auto
qed

theorem mp_blocks_apart_witness:
  "mp_reach (mp_demo None 0 Owner []) (\<lambda>t. Idle) {104} \<and> 100 + 4 \<le> (104 :: nat) \<and>
   (\<exists>r. rt_mp_free (Some 104) (mp_demo None 0 Owner []) = Inr r) \<and>
   mp_free (mp_demo None 0 Owner []) + card {104 :: nat} = mp_total (mp_demo None 0 Owner [])"
proof (intro conjI)
  note safe = mp_blocks_apart [OF mp_demo_taken]
  show "\<exists>r. rt_mp_free (Some 104) (mp_demo None 0 Owner []) = Inr r"
    by (rule safe [THEN conjunct2, THEN conjunct2, THEN conjunct2, THEN conjunct2, THEN conjunct2, THEN bspec]) simp
  show "mp_free (mp_demo None 0 Owner []) + card {104 :: nat} = mp_total (mp_demo None 0 Owner [])"
    by (rule safe [THEN conjunct2, THEN conjunct2, THEN conjunct1])
qed (use mp_demo_taken in simp_all)

theorem mp_no_lost_wakeup_witness:
  "\<exists>m th t time. mp_reach m th {} \<and> mp_wait m = [2] \<and> th t = Ready time RT_EOK"
proof -
  obtain th where r: "mp_reach (mp_demo (Some 100) 1 (Link None) [2]) th {}" using mp_demo_waiting by blast
  from mp_no_lost_wakeup [OF r] have "\<exists>t time. th t = Ready time RT_EOK" by (simp add: mp_demo_def)
  with r show ?thesis by (fastforce simp: mp_demo_def)
qed

end
