(* ===== verification/Rt_Mutex.thy ===== *)
theory Rt_Mutex
  imports Rt_Ipc
begin

text \<open>
  The mutex of the kernel (\<open>ipc.c\<close>), with the priorities of the threads as part of the state: a thread that has
  to wait lends its priority to the owner, through \<open>rt_thread_control\<close> of \<open>thread.c\<close>.

  Three groups of results: nobody but the owner holds the mutex; with one mutex the owner runs at the priority of
  the most urgent waiting thread and gets its own back with the release; with two mutexes it does not.
\<close>

subsection \<open>The operations\<close>

record rt_mutex =
  mx_flag :: nat
  mx_value :: nat
  mx_original_priority :: nat
  mx_hold :: nat
  mx_owner :: "nat option"
  mx_wait :: "nat list"

definition RT_MUTEX_VALUE_MAX :: nat where "RT_MUTEX_VALUE_MAX = 65535"
definition RT_MUTEX_HOLD_MAX :: nat where "RT_MUTEX_HOLD_MAX = 255"

definition fresh_mutex :: rt_mutex where
  "fresh_mutex = \<lparr>mx_flag = RT_IPC_FLAG_PRIO, mx_value = 1, mx_original_priority = 0xFF, mx_hold = 0,
     mx_owner = None, mx_wait = []\<rparr>"

text \<open>The parameter \<open>flag\<close> is obsolete.\<close>

definition rt_mutex_init :: "nat \<Rightarrow> int \<times> rt_mutex" where
  "rt_mutex_init flag = (RT_EOK, fresh_mutex)"

definition rt_mutex_create :: "bool \<Rightarrow> nat \<Rightarrow> rt_mutex option" where
  "rt_mutex_create obj flag = (if obj then Some fresh_mutex else None)"

definition rt_mutex_detach :: "rt_mutex \<Rightarrow> int threads \<Rightarrow> int \<times> int threads" where
  "rt_mutex_detach m th = (RT_EOK, ipc_list_resume_all (mx_wait m) th)"

definition rt_mutex_delete :: "rt_mutex \<Rightarrow> int threads \<Rightarrow> int \<times> int threads" where
  "rt_mutex_delete m th = (RT_EOK, ipc_list_resume_all (mx_wait m) th)"

text \<open>\<open>RT_THREAD_CTRL_CHANGE_PRIORITY\<close>; the queues of the scheduler are not modelled.  A suspended thread keeps its
  place in the list it waits in.\<close>

definition change_priority :: "nat \<Rightarrow> nat \<Rightarrow> (nat \<Rightarrow> nat) \<Rightarrow> nat \<Rightarrow> nat" where
  "change_priority t p prio = prio(t := p)"

text \<open>The part of \<open>rt_mutex_take\<close> for a mutex that somebody else owns.\<close>

definition take_wait ::
    "nat \<Rightarrow> int \<Rightarrow> rt_mutex \<Rightarrow> (nat \<Rightarrow> nat) \<Rightarrow> ((int, unit) outcome \<times> rt_mutex \<times> (nat \<Rightarrow> nat)) result" where
  "take_wait t time m prio =
     (if time = 0 then Inr (Finish (- RT_ETIMEOUT) None None, m, prio)
      else
        (case mx_owner m of
           None \<Rightarrow> Inl Null_pointer
         | Some ow \<Rightarrow>
             (let prio' = (if prio t < prio ow then change_priority ow (prio t) prio else prio)
              in bindR (ipc_list_suspend (mx_wait m) t (mx_flag m) prio')
                   (\<lambda>ts. Inr (Suspend time, m\<lparr>mx_wait := ts\<rparr>, prio')))))"

definition rt_mutex_take ::
    "int option \<Rightarrow> nat \<Rightarrow> int \<Rightarrow> rt_mutex \<Rightarrow> (nat \<Rightarrow> nat) \<Rightarrow>
     ((int, unit) outcome \<times> rt_mutex \<times> (nat \<Rightarrow> nat)) result" where
  "rt_mutex_take woken t time m prio =
     (case woken of
        Some err \<Rightarrow>
          if err \<noteq> RT_EOK then Inr (Finish err None None, m, prio) else Inr (Finish RT_EOK None None, m, prio)
      | None \<Rightarrow>
          if mx_owner m = Some t then
            (if mx_hold m < RT_MUTEX_HOLD_MAX
             then Inr (Finish RT_EOK None None, m\<lparr>mx_hold := mx_hold m + 1\<rparr>, prio)
             else Inr (Finish (- RT_EFULL) None None, m, prio))
          else if mx_value m > 0 then
            (let m1 = m\<lparr>mx_value := mx_value m - 1, mx_owner := Some t, mx_original_priority := prio t\<rparr>
             in if mx_hold m1 < RT_MUTEX_HOLD_MAX
                then Inr (Finish RT_EOK None None, m1\<lparr>mx_hold := mx_hold m1 + 1\<rparr>, prio)
                else Inr (Finish (- RT_EFULL) None None, m1, prio))
          else take_wait t time m prio)"

definition rt_mutex_trytake ::
    "nat \<Rightarrow> rt_mutex \<Rightarrow> (nat \<Rightarrow> nat) \<Rightarrow> ((int, unit) outcome \<times> rt_mutex \<times> (nat \<Rightarrow> nat)) result" where
  "rt_mutex_trytake t m prio = rt_mutex_take None t 0 m prio"

text \<open>The owner gives the mutex up: it passes to the first waiting thread, or is free.\<close>

definition hand_over :: "rt_mutex \<Rightarrow> (nat \<Rightarrow> nat) \<Rightarrow> int \<times> nat option \<times> rt_mutex" where
  "hand_over m prio =
     (case mx_wait m of
        u # us \<Rightarrow>
          (let m1 = m\<lparr>mx_owner := Some u, mx_original_priority := prio u\<rparr>
           in if mx_hold m1 < RT_MUTEX_HOLD_MAX
              then (RT_EOK, Some u, m1\<lparr>mx_hold := mx_hold m1 + 1, mx_wait := us\<rparr>)
              else (- RT_EFULL, None, m1))
      | [] \<Rightarrow>
          if mx_value m < RT_MUTEX_VALUE_MAX
          then (RT_EOK, None, m\<lparr>mx_value := mx_value m + 1, mx_owner := None, mx_original_priority := 0xff\<rparr>)
          else (- RT_EFULL, None, m))"

text \<open>\<open>hold --\<close> on 8 bits.\<close>

definition dec8 :: "nat \<Rightarrow> nat" where
  "dec8 n = nat ((int n - 1) mod 2 ^ 8)"

definition rt_mutex_release ::
    "nat \<Rightarrow> rt_mutex \<Rightarrow> (nat \<Rightarrow> nat) \<Rightarrow> int \<times> nat option \<times> rt_mutex \<times> (nat \<Rightarrow> nat)" where
  "rt_mutex_release t m prio =
     (if Some t \<noteq> mx_owner m then (- RT_ERROR, None, m, prio)
      else
        (let m1 = m\<lparr>mx_hold := dec8 (mx_hold m)\<rparr>
         in if mx_hold m1 = 0 then
              (let prio' = (if mx_original_priority m1 \<noteq> prio t
                            then change_priority t (mx_original_priority m1) prio else prio)
               in case hand_over m1 prio' of (err, u, m2) \<Rightarrow> (err, u, m2, prio'))
            else (RT_EOK, None, m1, prio)))"

definition rt_mutex_control :: "rt_mutex \<Rightarrow> nat \<Rightarrow> int" where
  "rt_mutex_control m cmd = - RT_ERROR"

subsection \<open>Threads on one mutex\<close>

text \<open>\<open>base\<close> is the priority that a thread has without loans, \<open>held\<close> how often a thread has taken the mutex and not
  released it.\<close>

definition count_take :: "nat \<Rightarrow> (int, unit) outcome \<Rightarrow> (nat \<Rightarrow> nat) \<Rightarrow> nat \<Rightarrow> nat" where
  "count_take t out held = (if out = Finish RT_EOK None None then held(t := held t + 1) else held)"

inductive mx_reach ::
    "(nat \<Rightarrow> nat) \<Rightarrow> rt_mutex \<Rightarrow> (nat \<Rightarrow> nat) \<Rightarrow> int threads \<Rightarrow> (nat \<Rightarrow> nat) \<Rightarrow> bool" for base where
  init: "rt_mutex_init flag = (RT_EOK, m) \<Longrightarrow> mx_reach base m base (\<lambda>t. Idle) (\<lambda>t. 0)"
| take: "mx_reach base m prio th held \<Longrightarrow> th t = Idle \<Longrightarrow>
    rt_mutex_take None t time m prio = Inr (out, m', prio') \<Longrightarrow>
    mx_reach base m' prio' (after t out th) (count_take t out held)"
| resume: "mx_reach base m prio th held \<Longrightarrow> th t = Ready time err \<Longrightarrow>
    rt_mutex_take (Some err) t time m prio = Inr (out, m', prio') \<Longrightarrow>
    mx_reach base m' prio' (after t out th) (count_take t out held)"
| release: "mx_reach base m prio th held \<Longrightarrow> th t = Idle \<Longrightarrow> rt_mutex_release t m prio = (err, u, m', prio') \<Longrightarrow>
    mx_reach base m' prio' (wake_opt u th) (if err = RT_EOK then held(t := held t - 1) else held)"
| timeout: "mx_reach base m prio th held \<Longrightarrow> th t = Waiting time \<Longrightarrow> 0 < time \<Longrightarrow>
    mx_reach base (m\<lparr>mx_wait := remove1 t (mx_wait m)\<rparr>) prio (th(t := Ready time (- RT_ETIMEOUT))) held"

text \<open>The states of a mutex: free, owned by a thread that is outside of the module, or handed over to a thread that
  has not run yet.\<close>

definition mx_free :: "rt_mutex \<Rightarrow> int threads \<Rightarrow> (nat \<Rightarrow> nat) \<Rightarrow> bool" where
  "mx_free m th held \<longleftrightarrow> mx_owner m = None \<and> mx_value m = 1 \<and> mx_hold m = 0 \<and> mx_wait m = [] \<and>
     held = (\<lambda>t. 0) \<and> ready (\<lambda>_. True) th = {}"

definition mx_owned :: "nat \<Rightarrow> rt_mutex \<Rightarrow> int threads \<Rightarrow> (nat \<Rightarrow> nat) \<Rightarrow> bool" where
  "mx_owned ow m th held \<longleftrightarrow> mx_owner m = Some ow \<and> mx_value m = 0 \<and> 0 < mx_hold m \<and> mx_hold m \<le> RT_MUTEX_HOLD_MAX \<and>
     (if th ow = Idle then held = (\<lambda>t. 0)(ow := mx_hold m) \<and> ready (\<lambda>_. True) th = {}
      else held = (\<lambda>t. 0) \<and> mx_hold m = 1 \<and> ready (\<lambda>_. True) th = {ow})"

definition loans_ok :: "(nat \<Rightarrow> nat) \<Rightarrow> nat \<Rightarrow> rt_mutex \<Rightarrow> (nat \<Rightarrow> nat) \<Rightarrow> bool" where
  "loans_ok base ow m prio \<longleftrightarrow> mx_original_priority m = base ow \<and> (\<forall>t. t \<noteq> ow \<longrightarrow> prio t = base t) \<and>
     prio ow \<le> base ow \<and> (\<forall>u\<in>set (mx_wait m). prio ow \<le> base u)"

definition mx_ok :: "(nat \<Rightarrow> nat) \<Rightarrow> rt_mutex \<Rightarrow> (nat \<Rightarrow> nat) \<Rightarrow> int threads \<Rightarrow> (nat \<Rightarrow> nat) \<Rightarrow> bool" where
  "mx_ok base m prio th held \<longleftrightarrow> mx_flag m = RT_IPC_FLAG_PRIO \<and> waiters (\<lambda>_. True) th (mx_wait m) \<and>
     sorted (map base (mx_wait m)) \<and>
     (case mx_owner m of
        None \<Rightarrow> mx_free m th held \<and> prio = base
      | Some ow \<Rightarrow> mx_owned ow m th held \<and> loans_ok base ow m prio)"

lemma mx_okD:
  assumes "mx_ok base m prio th held"
  shows "mx_flag m = RT_IPC_FLAG_PRIO" "waiters (\<lambda>_. True) th (mx_wait m)" "sorted (map base (mx_wait m))"
    "mx_owner m = None \<Longrightarrow> mx_free m th held \<and> prio = base"
    "mx_owner m = Some ow \<Longrightarrow> mx_owned ow m th held \<and> loans_ok base ow m prio"
  using assms by (simp_all add: mx_ok_def)

lemma dec8_pos: "0 < n \<Longrightarrow> n \<le> RT_MUTEX_HOLD_MAX \<Longrightarrow> dec8 n = n - 1"
  by (simp add: dec8_def RT_MUTEX_HOLD_MAX_def nat_diff_distrib')

text \<open>An owner is never in the list.\<close>

lemma owner_not_waiting:
  assumes "mx_owned ow m th held" and "waiters (\<lambda>_. True) th (mx_wait m)"
  shows "ow \<notin> set (mx_wait m)"
proof
  assume "ow \<in> set (mx_wait m)"
  then obtain c where c: "th ow = Waiting c" using assms(2) by (auto simp: waiters_def)
  then have "ow \<in> ready (\<lambda>_. True) th" using assms(1) by (auto simp: mx_owned_def)
  with c show False by (simp add: ready_def)
qed

subsection \<open>Every step keeps the invariant\<close>

lemma mx_take_free:
  assumes "mx_ok base m prio th held" and "th t = Idle" and "mx_owner m = None"
  shows "\<exists>m' prio'. rt_mutex_take None t time m prio = Inr (Finish RT_EOK None None, m', prio') \<and>
    mx_ok base m' prio' th (held(t := held t + 1))"
  using mx_okD [OF assms(1)] assms(2,3)
  by (auto simp: rt_mutex_take_def mx_ok_def mx_free_def mx_owned_def loans_ok_def RT_MUTEX_HOLD_MAX_def)

lemma mx_take_own:
  assumes "mx_ok base m prio th held" and "th t = Idle" and "mx_owner m = Some t"
  shows "\<exists>out m'. rt_mutex_take None t time m prio = Inr (out, m', prio) \<and>
    after t out th = th \<and> mx_ok base m' prio th (count_take t out held)"
  using mx_okD [OF assms(1)] assms(2,3)
  by (auto simp: rt_mutex_take_def mx_ok_def mx_owned_def loans_ok_def count_take_def fun_upd_idem)

lemma mx_take_wait:
  assumes "mx_ok base m prio th held" and t: "th t = Idle" and ow: "mx_owner m = Some ow" "ow \<noteq> t" and "time \<noteq> 0"
  shows "\<exists>m' prio'. rt_mutex_take None t time m prio = Inr (Suspend time, m', prio') \<and>
    mx_ok base m' prio' (th(t := Waiting time)) held"
proof -
  note k = mx_okD [OF assms(1)]
  have own: "mx_owned ow m th held" and ln: "loans_ok base ow m prio" using k(5) [OF ow(1)] by simp_all
  define prio' where "prio' = (if prio t < prio ow then change_priority ow (prio t) prio else prio)"
  define us where "us = prio_insert prio' t (mx_wait m)"
  have base: "prio' u = base u" if "u \<noteq> ow" for u
    using that ln by (auto simp: prio'_def change_priority_def loans_ok_def)
  have same: "us = prio_insert base t (mx_wait m)"
    unfolding us_def by (rule prio_insert_cong) (use owner_not_waiting [OF own k(2)] ow(2) base in metis)
  have "waiters (\<lambda>_. True) (th(t := Waiting time)) us"
    using waiters_insert [of "\<lambda>_. True" th "mx_wait m" t time None time us] k(2) t by (simp add: us_def runs_def)
  moreover have "sorted (map base us)" unfolding same by (rule sorted_prio_insert [OF k(3)])
  moreover have "ready (\<lambda>_. True) (th(t := Waiting time)) = ready (\<lambda>_. True) th"
    using t by (auto simp: ready_def)
  then have "mx_owned ow (m\<lparr>mx_wait := us\<rparr>) (th(t := Waiting time)) held"
    using own ow(2) by (simp add: mx_owned_def)
  moreover have "loans_ok base ow (m\<lparr>mx_wait := us\<rparr>) prio'"
    using ln base ow(2) by (auto simp: loans_ok_def same prio'_def change_priority_def)
  moreover have "rt_mutex_take None t time m prio = Inr (Suspend time, m\<lparr>mx_wait := us\<rparr>, prio')"
    using own ow assms(5) k(1)
    by (simp add: rt_mutex_take_def take_wait_def mx_owned_def us_def ipc_list_suspend_def prio'_def Let_def
        RT_IPC_FLAG_FIFO_def RT_IPC_FLAG_PRIO_def)
  ultimately have "rt_mutex_take None t time m prio = Inr (Suspend time, m\<lparr>mx_wait := us\<rparr>, prio') \<and>
      mx_ok base (m\<lparr>mx_wait := us\<rparr>) prio' (th(t := Waiting time)) held"
    using k(1) ow(1) by (simp add: mx_ok_def)
  then show ?thesis by blast
qed

lemma mx_take_ok:
  assumes ok: "mx_ok base m prio th held" and t: "th t = Idle"
  shows "\<exists>out m' prio'. rt_mutex_take None t time m prio = Inr (out, m', prio') \<and>
    mx_ok base m' prio' (after t out th) (count_take t out held)"
proof (cases "mx_owner m")
  case None
  have "after t (Finish RT_EOK None None) th = th" using t by (simp add: fun_upd_idem)
  with mx_take_free [OF ok t None, of time] show ?thesis by (fastforce simp: count_take_def)
next
  case (Some ow)
  show ?thesis
  proof (cases "ow = t")
    case True
    with mx_take_own [OF ok t, of time] Some show ?thesis by force
  next
    case False
    show ?thesis
    proof (cases "time = 0")
      case True
      have "mx_owned ow m th held" using mx_okD(5) [OF ok Some] by simp
      then have "rt_mutex_take None t time m prio = Inr (Finish (- RT_ETIMEOUT) None None, m, prio)"
        using True False Some by (simp add: rt_mutex_take_def take_wait_def mx_owned_def)
      with ok t show ?thesis by (simp add: count_take_def fun_upd_idem)
    next
      case ne: False
      from mx_take_wait [OF ok t Some False ne] show ?thesis by (fastforce simp: count_take_def)
    qed
  qed
qed

lemma mx_resume_ok:
  assumes ok: "mx_ok base m prio th held" and t: "th t = Ready time err"
  shows "\<exists>out m' prio'. rt_mutex_take (Some err) t time m prio = Inr (out, m', prio') \<and>
    mx_ok base m' prio' (after t out th) (count_take t out held)"
proof -
  note k = mx_okD [OF ok]
  have w: "waiters (\<lambda>_. True) (th(t := Idle)) (mx_wait m)"
    using waiters_other [OF k(2), of t time "Some err" Idle] t by (simp add: runs_def)
  have rd: "ready (\<lambda>_. True) (th(t := Idle)) = ready (\<lambda>_. True) th - {t}" by (simp add: ready_upd)
  have in_rd: "t \<in> ready (\<lambda>_. True) th \<longleftrightarrow> err = RT_EOK" using t by (simp add: ready_def)
  show ?thesis
  proof (cases "mx_owner m")
    case None
    then have "err \<noteq> RT_EOK" using k(4) in_rd by (auto simp: mx_free_def)
    moreover have "mx_ok base m prio (th(t := Idle)) held" using None k w rd by (simp add: mx_ok_def mx_free_def)
    ultimately show ?thesis by (simp add: rt_mutex_take_def count_take_def)
  next
    case (Some ow)
    then have own: "mx_owned ow m th held" and ln: "loans_ok base ow m prio" using k(5) by simp_all
    show ?thesis
    proof (cases "err = RT_EOK")
      case True
      then have "ready (\<lambda>_. True) th = {ow}" "held = (\<lambda>t. 0)" "mx_hold m = 1" "ow = t"
        using own in_rd by (auto simp: mx_owned_def split: if_splits)
      then have "mx_owned ow m (th(t := Idle)) (held(t := held t + 1))"
        using own rd by (simp add: mx_owned_def)
      with True Some k(1,3) w ln show ?thesis by (simp add: rt_mutex_take_def mx_ok_def count_take_def)
    next
      case False
      then have "t \<notin> ready (\<lambda>_. True) th" using in_rd by simp
      then have "mx_owned ow m (th(t := Idle)) held"
        using own rd t by (auto simp: mx_owned_def split: if_splits)
      with False Some k(1,3) w ln show ?thesis by (simp add: rt_mutex_take_def mx_ok_def count_take_def)
    qed
  qed
qed

lemma mx_release_last:
  assumes ok: "mx_ok base m prio th held" and t: "th t = Idle" and ow: "mx_owner m = Some t" and "mx_hold m = 1"
  shows "\<exists>u m'. rt_mutex_release t m prio = (RT_EOK, u, m', base) \<and>
    mx_ok base m' base (wake_opt u th) (held(t := held t - 1))"
proof -
  note k = mx_okD [OF ok]
  have own: "mx_owned t m th held" and ln: "loans_ok base t m prio" using k(5) [OF ow] by simp_all
  have held: "held(t := held t - 1) = (\<lambda>t. 0)" "ready (\<lambda>_. True) th = {}"
    using own t assms(4) by (auto simp: mx_owned_def)
  have hold: "dec8 (mx_hold m) = 0" using assms(4) by (simp add: dec8_pos RT_MUTEX_HOLD_MAX_def)
  have restored: "(if mx_original_priority m \<noteq> prio t then change_priority t (mx_original_priority m) prio else prio) = base"
    using ln by (auto simp: loans_ok_def change_priority_def fun_eq_iff) metis
  have restored': "mx_original_priority m = prio t \<Longrightarrow> prio = base"
    "mx_original_priority m \<noteq> prio t \<Longrightarrow> change_priority t (mx_original_priority m) prio = base"
    using restored by simp_all
  show ?thesis
  proof (cases "mx_wait m")
    case Nil
    with k(1,2) own assms(4) ow held hold restored' show ?thesis
      by (simp add: rt_mutex_release_def hand_over_def Let_def mx_owned_def mx_ok_def mx_free_def RT_MUTEX_VALUE_MAX_def)
  next
    case (Cons u us)
    note w = k(2) [unfolded Cons]
    obtain c where c: "th u = Waiting c" using waiters_waiting [OF w] by blast
    have "ready (\<lambda>_. True) (wake_thread u RT_EOK th) = {u}"
      using c held(2) by (simp add: wake_thread_def ready_upd)
    with Cons k(1,3) own assms(4) ow held(1) hold restored' waiters_wake [OF w, of RT_EOK] c show ?thesis
      by (auto simp: rt_mutex_release_def hand_over_def Let_def mx_owned_def mx_ok_def loans_ok_def
          RT_MUTEX_HOLD_MAX_def wake_thread_def)
  qed
qed

lemma mx_release_ok:
  assumes ok: "mx_ok base m prio th held" and t: "th t = Idle"
    and rel: "rt_mutex_release t m prio = (err, u, m', prio')"
  shows "mx_ok base m' prio' (wake_opt u th) (if err = RT_EOK then held(t := held t - 1) else held)"
proof (cases "mx_owner m = Some t \<and> mx_hold m = 1")
  case True
  with mx_release_last [OF ok t] rel show ?thesis by auto
next
  case False
  show ?thesis
  proof (cases "mx_owner m = Some t")
    case True
    then have own: "mx_owned t m th held" and ln: "loans_ok base t m prio" using mx_okD(5) [OF ok] by simp_all
    have h: "dec8 (mx_hold m) = mx_hold m - 1" "mx_hold m - 1 \<noteq> 0"
      using own False True by (auto simp: mx_owned_def dec8_pos)
    with True own ln ok rel t show ?thesis
      by (auto simp: rt_mutex_release_def Let_def mx_ok_def mx_owned_def loans_ok_def)
  next
    case False
    with ok rel show ?thesis by (auto simp: rt_mutex_release_def)
  qed
qed

lemma mx_timeout_ok:
  assumes ok: "mx_ok base m prio th held" and t: "th t = Waiting time"
  shows "mx_ok base (m\<lparr>mx_wait := remove1 t (mx_wait m)\<rparr>) prio (th(t := Ready time (- RT_ETIMEOUT))) held"
proof -
  note k = mx_okD [OF ok]
  have rd: "ready (\<lambda>_. True) (th(t := Ready time (- RT_ETIMEOUT))) = ready (\<lambda>_. True) th"
    using t by (simp add: ready_timeout)
  have ne: "ow \<noteq> t" if "mx_owned ow m th held" for ow
    using owner_not_waiting [OF that k(2)] k(2) t by (auto simp: waiters_def)
  have sub: "set (remove1 t (mx_wait m)) \<subseteq> set (mx_wait m)" by (rule set_remove1_subset)
  from k waiters_timeout [OF k(2) t] sorted_map_remove1 [OF k(3), of t] rd ne sub show ?thesis
    by (auto simp: mx_ok_def mx_free_def mx_owned_def loans_ok_def split: option.splits)
qed

lemma mx_reach_ok: "mx_reach base m prio th held \<Longrightarrow> mx_ok base m prio th held"
proof (induction rule: mx_reach.induct)
  case (init flag m)
  then show ?case by (auto simp: rt_mutex_init_def fresh_mutex_def mx_ok_def mx_free_def)
next
  case (take m prio th held t time out m' prio')
  then show ?case using mx_take_ok [of base m prio th held t time] by auto
next
  case (resume m prio th held t time err out m' prio')
  then show ?case using mx_resume_ok [of base m prio th held t time err] by auto
next
  case (release m prio th held t err u m' prio')
  then show ?case using mx_release_ok by blast
next
  case (timeout m prio th held t time)
  then show ?case using mx_timeout_ok by blast
qed

subsection \<open>Mutual exclusion\<close>

text \<open>C8: At most one thread holds the mutex, it is the owner, and \<open>hold\<close> counts how often it has taken it.  While threads wait there
  is an owner: it holds the mutex, or it was resumed and its call is about to return with the mutex.  The owner does not wait, neither in
  the list nor suspended, and taking the mutex once more does not suspend it: it is counted, up to 255 times.  No call faults, and
  a thread that is not the owner cannot release.
\<close>

theorem mutex_exclusive:
  assumes "mx_reach base m prio th held"
  shows "(\<forall>t. 0 < held t \<longrightarrow> mx_owner m = Some t \<and> held t = mx_hold m) \<and>
    (mx_owner m = None \<longrightarrow> mx_wait m = []) \<and>
    (\<forall>t. mx_owner m = Some t \<longrightarrow> 0 < held t \<or> (\<exists>time. th t = Ready time RT_EOK)) \<and>
    (\<forall>t time. th t = Ready time RT_EOK \<longrightarrow> mx_owner m = Some t \<and> mx_hold m = 1) \<and>
    (\<forall>t time. mx_owner m = Some t \<longrightarrow> t \<notin> set (mx_wait m) \<and> th t \<noteq> Waiting time) \<and>
    (\<forall>t time. mx_owner m = Some t \<longrightarrow> rt_mutex_take None t time m prio =
       (if mx_hold m < 255 then Inr (Finish RT_EOK None None, m\<lparr>mx_hold := mx_hold m + 1\<rparr>, prio)
        else Inr (Finish (- RT_EFULL) None None, m, prio))) \<and>
    (\<forall>t time. th t = Idle \<longrightarrow> (\<exists>r. rt_mutex_take None t time m prio = Inr r)) \<and>
    (\<forall>t. mx_owner m \<noteq> Some t \<longrightarrow> rt_mutex_release t m prio = (- RT_ERROR, None, m, prio))"
proof -
  note ok = mx_reach_ok [OF assms]
  note k = mx_okD [OF ok]
  have calls: "\<exists>r. rt_mutex_take None t time m prio = Inr r" if "th t = Idle" for t time
    using mx_take_ok [OF ok that] by blast
  have rel: "rt_mutex_release t m prio = (- RT_ERROR, None, m, prio)" if "mx_owner m \<noteq> Some t" for t
    using that by (auto simp: rt_mutex_release_def)
  have again: "rt_mutex_take None t time m prio =
      (if mx_hold m < 255 then Inr (Finish RT_EOK None None, m\<lparr>mx_hold := mx_hold m + 1\<rparr>, prio)
       else Inr (Finish (- RT_EFULL) None None, m, prio))" if "mx_owner m = Some t" for t time
    using that by (simp add: rt_mutex_take_def RT_MUTEX_HOLD_MAX_def)
  have out: "t \<notin> set (mx_wait m) \<and> th t \<noteq> Waiting time" if "mx_owner m = Some t" for t time
    using owner_not_waiting [of t m th held] k(2) k(5) [OF that] by (auto simp: waiters_def)
  show ?thesis
  proof (cases "mx_owner m")
    case None
    with k(4) calls rel again out show ?thesis by (auto simp: mx_free_def ready_def)
  next
    case (Some ow)
    then have own: "mx_owned ow m th held" using k(5) by simp
    have rd: "th ow \<noteq> Idle \<and> mx_owner m = Some t \<and> mx_hold m = 1" if "th t = Ready time RT_EOK" for t time
    proof -
      have "t \<in> ready (\<lambda>_. True) th" using that by (simp add: ready_def)
      with own Some show ?thesis by (auto simp: mx_owned_def split: if_splits)
    qed
    have "\<exists>time. th ow = Ready time RT_EOK" if "th ow \<noteq> Idle"
      using own that by (auto simp: mx_owned_def ready_def split: if_splits)
    moreover have "\<forall>t. 0 < held t \<longrightarrow> ow = t \<and> held t = mx_hold m" "th ow = Idle \<longrightarrow> 0 < held ow"
      using own by (auto simp: mx_owned_def split: if_splits)
    ultimately show ?thesis using Some calls rel rd again out by auto
  qed
qed

subsection \<open>Priority inheritance\<close>

text \<open>C9: With one mutex, priority inheritance works: the owner runs at least at the priority of every thread that waits; all
  others run at their own; and when the owner lets go it has its own priority again, and the mutex goes to a
  waiting thread that no other waiting thread precedes in priority.
\<close>

theorem mutex_inheritance:
  assumes "mx_reach base m prio th held"
  shows "(\<forall>ow. mx_owner m = Some ow \<longrightarrow> prio ow \<le> base ow \<and> (\<forall>u\<in>set (mx_wait m). prio ow \<le> base u)) \<and>
    (\<forall>t. mx_owner m \<noteq> Some t \<longrightarrow> prio t = base t) \<and>
    (\<forall>t err v m' prio'. rt_mutex_release t m prio = (err, v, m', prio') \<and> mx_hold m = 1 \<and> th t = Idle \<and>
        mx_owner m = Some t \<longrightarrow> prio' = base \<and> (mx_wait m \<noteq> [] \<longrightarrow> mx_owner m' = Some (hd (mx_wait m)) \<and>
        (\<forall>w\<in>set (mx_wait m). base (hd (mx_wait m)) \<le> base w)))"
proof -
  note ok = mx_reach_ok [OF assms]
  note k = mx_okD [OF ok]
  have 1: "prio ow \<le> base ow \<and> (\<forall>u\<in>set (mx_wait m). prio ow \<le> base u)" if "mx_owner m = Some ow" for ow
    using k(5) [OF that] by (simp add: loans_ok_def)
  have 2: "prio t = base t" if "mx_owner m \<noteq> Some t" for t
    using k(4,5) that by (cases "mx_owner m") (auto simp: loans_ok_def)
  have 3: "prio' = base \<and> (mx_wait m \<noteq> [] \<longrightarrow> mx_owner m' = Some (hd (mx_wait m)) \<and>
        (\<forall>w\<in>set (mx_wait m). base (hd (mx_wait m)) \<le> base w))"
    if r: "rt_mutex_release t m prio = (err, v, m', prio')" "mx_hold m = 1" "th t = Idle" "mx_owner m = Some t"
    for t err v m' prio'
  proof -
    have hold: "dec8 (mx_hold m) = 0" using r(2) by (simp add: dec8_pos RT_MUTEX_HOLD_MAX_def)
    have "prio' = base" using mx_release_last [OF ok r(3,4,2)] r(1) by auto
    moreover have "mx_owner m' = Some u" if "mx_wait m = u # us" for u us
      using r(1,4) hold that
      by (auto simp: rt_mutex_release_def hand_over_def Let_def RT_MUTEX_HOLD_MAX_def split: if_splits)
    ultimately show ?thesis using k(3) by (cases "mx_wait m") auto
  qed
  show ?thesis using 1 2 3 by blast
qed

subsection \<open>Two mutexes\<close>

text \<open>
  A thread of priority 20 takes mutex A and mutex B; a thread of priority 5 waits for A, so the owner is lifted to 5.  The
  owner releases B: \<open>rt_mutex_release\<close> restores the priority that it had when it took B, and the owner of A
  is back at 20 while the urgent thread still waits for it.
\<close>

definition lift_demo :: "(rt_mutex \<times> rt_mutex \<times> (nat \<Rightarrow> nat)) result" where
  "lift_demo =
     bindR (rt_mutex_take None 1 (- 1) fresh_mutex (\<lambda>t. if t = 1 then 20 else 5))
       (\<lambda>(r1, a, p1). bindR (rt_mutex_take None 1 (- 1) fresh_mutex p1)
          (\<lambda>(r2, b, p2). bindR (rt_mutex_take None 2 (- 1) a p2)
             (\<lambda>(r3, a', p3). Inr (a', b, p3))))"

lemmas mutex_eval = lift_demo_def rt_mutex_take_def take_wait_def fresh_mutex_def RT_MUTEX_HOLD_MAX_def
  change_priority_def ipc_list_suspend_def RT_IPC_FLAG_FIFO_def RT_IPC_FLAG_PRIO_def rt_mutex_release_def dec8_def
  hand_over_def RT_MUTEX_VALUE_MAX_def

theorem mutex_loan_dropped:
  "\<exists>a b p. lift_demo = Inr (a, b, p) \<and> p 1 = 5 \<and>
     (case rt_mutex_release 1 b p of (err, u, b', p') \<Rightarrow>
        err = RT_EOK \<and> mx_owner a = Some 1 \<and> mx_wait a = [2] \<and> p' 1 = 20 \<and> p' 2 = 5)"
  by (simp add: mutex_eval)

text \<open>The other way round the loan is never given back: a mutex that the owner takes while it is lifted remembers the lent
  priority, and the last release leaves the thread with it.\<close>

theorem mutex_loan_kept:
  "\<exists>a b p. lift_demo = Inr (a, b, p) \<and>
     (case rt_mutex_take None 1 (- 1) fresh_mutex p of Inl e \<Rightarrow> False | Inr (r, c, p1) \<Rightarrow>
        (case rt_mutex_release 1 a p1 of (e2, u2, a2, p2) \<Rightarrow>
           (case rt_mutex_release 1 b p2 of (e3, u3, b3, p3) \<Rightarrow>
              (case rt_mutex_release 1 c p3 of (e4, u4, c4, p4) \<Rightarrow>
                 [e2, e3, e4] = [RT_EOK, RT_EOK, RT_EOK] \<and> mx_owner a2 = Some 2 \<and> mx_owner b3 = None \<and>
                 mx_owner c4 = None \<and> p4 1 = 5))))"
  by (simp add: mutex_eval)

subsection \<open>Instances\<close>

definition mx_base :: "nat \<Rightarrow> nat" where
  "mx_base t = (if t = 1 then 20 else if t = 2 then 10 else 5)"

text \<open>Thread 1 owns the mutex, threads 2 and 3 wait.\<close>

definition mx_demo :: rt_mutex where
  "mx_demo = \<lparr>mx_flag = RT_IPC_FLAG_PRIO, mx_value = 0, mx_original_priority = 20, mx_hold = 1, mx_owner = Some 1,
     mx_wait = [3, 2]\<rparr>"

lemma mx_demo_reach:
  "mx_reach mx_base mx_demo (mx_base(1 := 10, 1 := 5)) ((\<lambda>t. Idle)(2 := Waiting (- 1), 3 := Waiting (- 1)))
     ((\<lambda>t. 0)(1 := 1))"
proof -
  let ?m = "\<lambda>ts. mx_demo\<lparr>mx_wait := ts\<rparr>"
  have 0: "mx_reach mx_base fresh_mutex mx_base (\<lambda>t. Idle) (\<lambda>t. 0)"
    by (rule mx_reach.init [of 0]) (simp add: rt_mutex_init_def)
  have "mx_reach mx_base (?m []) mx_base ((\<lambda>t. Idle)(1 := Idle)) ((\<lambda>t. 0)(1 := 1))"
    using mx_reach.take [OF 0, of 1 "- 1" "Finish RT_EOK None None" "?m []" mx_base]
    by (simp add: mutex_eval mx_demo_def count_take_def mx_base_def)
  then have 1: "mx_reach mx_base (?m []) mx_base (\<lambda>t. Idle) ((\<lambda>t. 0)(1 := 1))"
    by (simp add: fun_upd_idem)
  have 2: "mx_reach mx_base (?m [2]) (mx_base(1 := 10)) ((\<lambda>t. Idle)(2 := Waiting (- 1))) ((\<lambda>t. 0)(1 := 1))"
    using mx_reach.take [OF 1, of 2 "- 1" "Suspend (- 1)" "?m [2]" "mx_base(1 := 10)"]
    by (simp add: mutex_eval mx_demo_def count_take_def mx_base_def)
  have 3: "mx_reach mx_base (?m [3, 2]) (mx_base(1 := 10, 1 := 5))
      ((\<lambda>t. Idle)(2 := Waiting (- 1), 3 := Waiting (- 1))) ((\<lambda>t. 0)(1 := 1))"
    using mx_reach.take [OF 2, of 3 "- 1" "Suspend (- 1)" "?m [3, 2]" "mx_base(1 := 10, 1 := 5)"]
    by (simp add: mutex_eval mx_demo_def count_take_def mx_base_def)
  then show ?thesis by (simp add: mx_demo_def)
qed

theorem mutex_exclusive_witness:
  "mx_owner mx_demo = Some 1 \<and> mx_hold mx_demo = 1 \<and>
     rt_mutex_release 2 mx_demo (mx_base(1 := 10, 1 := 5)) = (- RT_ERROR, None, mx_demo, mx_base(1 := 10, 1 := 5))"
proof -
  have "mx_owner mx_demo = Some 1 \<and> ((\<lambda>t. 0)(1 := 1)) 1 = mx_hold mx_demo"
    using mutex_exclusive [OF mx_demo_reach] by (metis fun_upd_same zero_less_one)
  moreover have "mx_owner mx_demo \<noteq> Some 2" by (simp add: mx_demo_def)
  ultimately show ?thesis using mutex_exclusive [OF mx_demo_reach] by (metis fun_upd_same)
qed

theorem mutex_inheritance_witness:
  "(mx_base(1 := 10, 1 := 5)) 1 \<le> mx_base 2 \<and> (mx_base(1 := 10, 1 := 5)) 1 \<le> mx_base 3 \<and>
     (\<exists>v m' prio'. rt_mutex_release 1 mx_demo (mx_base(1 := 10, 1 := 5)) = (RT_EOK, v, m', prio') \<and>
        prio' = mx_base \<and> mx_owner m' = Some 3)"
proof -
  obtain err v m' prio' where r: "rt_mutex_release 1 mx_demo (mx_base(1 := 10, 1 := 5)) = (err, v, m', prio')"
    by (metis prod_cases4)
  then have "err = RT_EOK" by (auto simp: mutex_eval mx_demo_def)
  moreover have "prio' = mx_base \<and> mx_owner m' = Some 3"
    using mutex_inheritance [OF mx_demo_reach] r by (simp add: mx_demo_def)
  ultimately show ?thesis using r mutex_inheritance [OF mx_demo_reach] by (simp add: mx_demo_def)
qed

end
