(* ===== verification/Rt_Timer.thy ===== *)
theory Rt_Timer
  imports Rt_Def
begin

text \<open>
  The clock and the hard timers of the kernel (\<open>timer.c\<close>, \<open>clock.c\<close>), with the skip list of one level and
  without software timers, as the boards configure them.  A timer is known by its address; the two lists
  that its node can be in are the list of active timers and the list local to \<open>rt_timer_check\<close>, which holds
  the timer whose timeout function runs.  Ticks are 32-bit words and wrap.

  An object is in \<open>timers\<close> while its type says that it is a timer: detaching or deleting it takes it out.  A
  timeout function is client code: a parameter, from its address, its argument and the state to a state.
\<close>

subsection \<open>The data\<close>

type_synonym tick = "32 word"

definition RT_TICK_MAX :: tick where "RT_TICK_MAX = 0xffffffff"

definition RT_TIMER_FLAG_DEACTIVATED :: "8 word" where "RT_TIMER_FLAG_DEACTIVATED = 0"
definition RT_TIMER_FLAG_ACTIVATED :: "8 word" where "RT_TIMER_FLAG_ACTIVATED = 1"
definition RT_TIMER_FLAG_PERIODIC :: "8 word" where "RT_TIMER_FLAG_PERIODIC = 2"

record rt_timer =
  flag :: "8 word"
  object_static :: bool
  timeout_func :: nat
  parameter :: nat
  init_tick :: tick
  timeout_tick :: tick

record timer_sys =
  timers :: "nat \<Rightarrow> rt_timer option"
  timer_list :: "nat list"
  check_list :: "nat list"
  random_nr :: "32 word"
  rt_tick :: tick
  remaining_tick :: "32 word"
  slice_tick :: "32 word"
  yield_stat :: bool

type_synonym timeout_code = "nat \<Rightarrow> nat \<Rightarrow> timer_sys \<Rightarrow> timer_sys result"

subsection \<open>The clock\<close>

definition rt_tick_get :: "timer_sys \<Rightarrow> tick" where
  "rt_tick_get s = rt_tick s"

definition rt_tick_set :: "tick \<Rightarrow> timer_sys \<Rightarrow> timer_sys" where
  "rt_tick_set tick s = s\<lparr>rt_tick := tick\<rparr>"

definition rt_tick_from_millisecond :: "int \<Rightarrow> int \<Rightarrow> tick" where
  "rt_tick_from_millisecond tps ms =
     (if ms < 0 then word_of_int (- 1)
      else word_of_int (tps * (ms div 1000)) + word_of_int ((tps * (ms mod 1000) + 999) div 1000))"

text \<open>Compiled when a second has a divisor of 1000 ticks.\<close>

definition rt_tick_get_millisecond :: "tick \<Rightarrow> timer_sys \<Rightarrow> tick" where
  "rt_tick_get_millisecond tps s = rt_tick_get s * (1000 div tps)"

subsection \<open>Timers\<close>

text \<open>A field of one timer is updated.\<close>

definition on_timer :: "nat \<Rightarrow> (rt_timer \<Rightarrow> rt_timer) \<Rightarrow> timer_sys \<Rightarrow> timer_sys" where
  "on_timer t f s = s\<lparr>timers := (timers s)(t := map_option f (timers s t))\<rparr>"

definition activated :: "rt_timer \<Rightarrow> bool" where
  "activated tm \<longleftrightarrow> flag tm AND RT_TIMER_FLAG_ACTIVATED \<noteq> 0"

definition periodic :: "rt_timer \<Rightarrow> bool" where
  "periodic tm \<longleftrightarrow> flag tm AND RT_TIMER_FLAG_PERIODIC \<noteq> 0"

definition deactivate :: "rt_timer \<Rightarrow> rt_timer" where
  "deactivate tm = tm\<lparr>flag := flag tm AND NOT RT_TIMER_FLAG_ACTIVATED\<rparr>"

definition activate :: "rt_timer \<Rightarrow> rt_timer" where
  "activate tm = tm\<lparr>flag := flag tm OR RT_TIMER_FLAG_ACTIVATED\<rparr>"

definition timer_init :: "nat \<Rightarrow> bool \<Rightarrow> nat \<Rightarrow> nat \<Rightarrow> tick \<Rightarrow> 8 word \<Rightarrow> timer_sys \<Rightarrow> timer_sys" where
  "timer_init t static timeout param time fl s =
     s\<lparr>timers := (timers s)(t \<mapsto> deactivate \<lparr>flag = fl, object_static = static, timeout_func = timeout,
        parameter = param, init_tick = time, timeout_tick = 0\<rparr>)\<rparr>"

definition due_tick :: "timer_sys \<Rightarrow> nat \<Rightarrow> tick" where
  "due_tick s t = (case timers s t of None \<Rightarrow> 0 | Some tm \<Rightarrow> timeout_tick tm)"

definition timer_list_next_timeout :: "timer_sys \<Rightarrow> tick" where
  "timer_list_next_timeout s = (case timer_list s of [] \<Rightarrow> RT_TICK_MAX | t # _ \<Rightarrow> due_tick s t)"

text \<open>The node is taken out of whatever list it is in.\<close>

definition timer_remove :: "nat \<Rightarrow> timer_sys \<Rightarrow> timer_sys" where
  "timer_remove t s = s\<lparr>timer_list := removeAll t (timer_list s), check_list := removeAll t (check_list s)\<rparr>"

definition rt_timer_init ::
  "nat \<Rightarrow> nat option \<Rightarrow> nat \<Rightarrow> tick \<Rightarrow> 8 word \<Rightarrow> timer_sys \<Rightarrow> timer_sys result" where
  "rt_timer_init t timeout param time fl s =
     (case timeout of None \<Rightarrow> Inl Assert_failed
      | Some f \<Rightarrow>
          if time \<ge> RT_TICK_MAX div 2 then Inl Assert_failed
          else if timers s t \<noteq> None then Inl Assert_failed
          else Inr (timer_init t True f param time fl s))"

text \<open>The object comes from the heap: \<open>fresh\<close> is the address that \<open>rt_object_allocate\<close> gives, if it does.\<close>

definition rt_timer_create ::
  "nat option \<Rightarrow> nat option \<Rightarrow> nat \<Rightarrow> tick \<Rightarrow> 8 word \<Rightarrow> timer_sys \<Rightarrow> (nat option \<times> timer_sys) result" where
  "rt_timer_create fresh timeout param time fl s =
     (case timeout of None \<Rightarrow> Inl Assert_failed
      | Some f \<Rightarrow>
          if time \<ge> RT_TICK_MAX div 2 then Inl Assert_failed
          else (case fresh of None \<Rightarrow> Inr (None, s)
                | Some t \<Rightarrow> Inr (Some t, timer_init t False f param time fl s)))"

definition rt_timer_detach :: "nat \<Rightarrow> timer_sys \<Rightarrow> timer_sys result" where
  "rt_timer_detach t s =
     (case timers s t of None \<Rightarrow> Inl Assert_failed
      | Some tm \<Rightarrow>
          if \<not> object_static tm then Inl Assert_failed
          else (let s1 = on_timer t deactivate (timer_remove t s) in Inr (s1\<lparr>timers := (timers s1)(t := None)\<rparr>)))"

definition rt_timer_delete :: "nat \<Rightarrow> timer_sys \<Rightarrow> timer_sys result" where
  "rt_timer_delete t s =
     (case timers s t of None \<Rightarrow> Inl Assert_failed
      | Some tm \<Rightarrow>
          if object_static tm then Inl Assert_failed
          else (let s1 = on_timer t deactivate (timer_remove t s) in Inr (s1\<lparr>timers := (timers s1)(t := None)\<rparr>)))"

text \<open>The walk to the place of the new timer: behind the timers that are due before it or with it.\<close>

fun timer_place :: "(nat \<Rightarrow> tick) \<Rightarrow> tick \<Rightarrow> nat \<Rightarrow> nat list \<Rightarrow> nat list" where
  "timer_place due new t [] = [t]"
| "timer_place due new t (u # us) =
     (if due u - new = 0 then u # timer_place due new t us
      else if due u - new < RT_TICK_MAX div 2 then t # u # us
      else u # timer_place due new t us)"

definition rt_timer_start :: "nat \<Rightarrow> timer_sys \<Rightarrow> timer_sys result" where
  "rt_timer_start t s =
     (case timers s t of None \<Rightarrow> Inl Assert_failed
      | Some tm \<Rightarrow>
          let s1 = on_timer t deactivate (timer_remove t s);
              new = rt_tick_get s1 + init_tick tm;
              s2 = on_timer t (timeout_tick_update (\<lambda>_. new)) s1;
              s3 = s2\<lparr>random_nr := random_nr s2 + 1,
                      timer_list := timer_place (due_tick s2) new t (timer_list s2)\<rparr>
          in Inr (on_timer t activate s3))"

definition rt_timer_stop :: "nat \<Rightarrow> timer_sys \<Rightarrow> (int \<times> timer_sys) result" where
  "rt_timer_stop t s =
     (case timers s t of None \<Rightarrow> Inl Assert_failed
      | Some tm \<Rightarrow>
          if \<not> activated tm then Inr (- RT_ERROR, s)
          else Inr (RT_EOK, on_timer t deactivate (timer_remove t s)))"

text \<open>The commands of \<open>rt_timer_control\<close>; \<open>GET_STATE\<close> has no \<open>break\<close> and runs into \<open>GET_REMAIN_TIME\<close>.\<close>

datatype timer_cmd = SET_TIME | GET_TIME | SET_ONESHOT | SET_PERIODIC | GET_STATE | GET_REMAIN_TIME | OTHER_CMD

definition rt_timer_control :: "nat \<Rightarrow> timer_cmd \<Rightarrow> tick \<Rightarrow> timer_sys \<Rightarrow> (tick \<times> timer_sys) result" where
  "rt_timer_control t cmd arg s =
     (case timers s t of None \<Rightarrow> Inl Assert_failed
      | Some tm \<Rightarrow> Inr (case cmd of
          GET_TIME \<Rightarrow> (init_tick tm, s)
        | SET_TIME \<Rightarrow> (arg, on_timer t (init_tick_update (\<lambda>_. arg)) s)
        | SET_ONESHOT \<Rightarrow> (arg, on_timer t (flag_update (\<lambda>f. f AND NOT RT_TIMER_FLAG_PERIODIC)) s)
        | SET_PERIODIC \<Rightarrow> (arg, on_timer t (flag_update (\<lambda>f. f OR RT_TIMER_FLAG_PERIODIC)) s)
        | GET_STATE \<Rightarrow>
            (let arg1 = (if activated tm then ucast RT_TIMER_FLAG_ACTIVATED else ucast RT_TIMER_FLAG_DEACTIVATED) :: tick;
                 arg2 = timeout_tick tm in (arg2, s))
        | GET_REMAIN_TIME \<Rightarrow> (timeout_tick tm, s)
        | OTHER_CMD \<Rightarrow> (arg, s)))"

subsection \<open>The timer interrupt\<close>

definition timer_expired :: "tick \<Rightarrow> rt_timer \<Rightarrow> bool" where
  "timer_expired current tm \<longleftrightarrow> current - timeout_tick tm < RT_TICK_MAX div 2"

text \<open>One round of the loop of \<open>rt_timer_check\<close>, for an expired timer at the head.\<close>

definition timer_fire :: "timeout_code \<Rightarrow> nat \<Rightarrow> rt_timer \<Rightarrow> timer_sys \<Rightarrow> timer_sys result" where
  "timer_fire run t tm s =
     (let s1 = timer_remove t s;
          s2 = (if \<not> periodic tm then on_timer t deactivate s1 else s1);
          s3 = s2\<lparr>check_list := t # check_list s2\<rparr>
      in bindR (run (timeout_func tm) (parameter tm) s3) (\<lambda>s4.
           if check_list s4 = [] then Inr s4
           else (let s5 = timer_remove t s4 in
             case timers s5 t of None \<Rightarrow> Inl Use_after_free
             | Some tm' \<Rightarrow>
                 if periodic tm' \<and> activated tm' then rt_timer_start t (on_timer t deactivate s5) else Inr s5)))"

text \<open>
  The loop may go on for ever.  The result comes with the timers that were fired, in order; \<open>check_list\<close>
  is the local list of the call and is empty when it starts.
\<close>

partial_function (option) timer_check_loop ::
  "timeout_code \<Rightarrow> timer_sys \<Rightarrow> (nat list \<times> timer_sys) result option" where
  "timer_check_loop run s =
     (case timer_list s of [] \<Rightarrow> Some (Inr ([], s))
      | t # _ \<Rightarrow>
          (case timers s t of None \<Rightarrow> Some (Inl Use_after_free)
           | Some tm \<Rightarrow>
               if timer_expired (rt_tick_get s) tm then
                 (case timer_fire run t tm s of Inl e \<Rightarrow> Some (Inl e)
                  | Inr s' \<Rightarrow>
                      Option.bind (timer_check_loop run s') (\<lambda>r.
                        Some (bindR r (\<lambda>(ts, s''). Inr (t # ts, s'')))))
               else Some (Inr ([], s))))"

declare timer_check_loop.simps [code]

definition rt_timer_check :: "timeout_code \<Rightarrow> timer_sys \<Rightarrow> (nat list \<times> timer_sys) result option" where
  "rt_timer_check run s = timer_check_loop run (s\<lparr>check_list := []\<rparr>)"

definition rt_timer_next_timeout_tick :: "timer_sys \<Rightarrow> tick" where
  "rt_timer_next_timeout_tick s = timer_list_next_timeout s"

text \<open>
  One tick: the slice of the running thread is counted down, and the timers are checked.  The flag of the
  result says that \<open>rt_schedule\<close> was called.
\<close>

definition rt_tick_increase ::
  "timeout_code \<Rightarrow> timer_sys \<Rightarrow> (bool \<times> nat list \<times> timer_sys) result option" where
  "rt_tick_increase run s =
     (let s1 = s\<lparr>rt_tick := rt_tick s + 1, remaining_tick := remaining_tick s - 1\<rparr>;
          over = remaining_tick s1 = 0;
          s2 = (if over then s1\<lparr>remaining_tick := slice_tick s1, yield_stat := True\<rparr> else s1)
      in map_option (\<lambda>r. bindR r (\<lambda>(ts, s'). Inr (over, ts, s'))) (rt_timer_check run s2))"

text \<open>A number of ticks in a row, with the timers that each of them fires.\<close>

fun run_ticks :: "timeout_code \<Rightarrow> nat \<Rightarrow> timer_sys \<Rightarrow> (nat list list \<times> timer_sys) result option" where
  "run_ticks run 0 s = Some (Inr ([], s))"
| "run_ticks run (Suc k) s =
     Option.bind (rt_tick_increase run s) (\<lambda>r. case r of Inl e \<Rightarrow> Some (Inl e)
       | Inr (over, ts, s1) \<Rightarrow> map_option (\<lambda>r. bindR r (\<lambda>(tss, s'). Inr (ts # tss, s'))) (run_ticks run k s1))"

text \<open>The state when the system starts.\<close>

definition rt_system_timer_init :: "timer_sys \<Rightarrow> timer_sys" where
  "rt_system_timer_init s = s\<lparr>timer_list := []\<rparr>"

subsection \<open>Reading the flags and the lists\<close>

lemma tick_half [simp]: "RT_TICK_MAX div 2 = 0x7fffffff"
  by (simp add: RT_TICK_MAX_def)

lemma tick_get [simp]: "rt_tick_get s = rt_tick s"
  by (simp add: rt_tick_get_def)

lemma activated_bit: "activated tm \<longleftrightarrow> bit (flag tm) 0"
  using and_exp_eq_0_iff_not_bit [of "flag tm" 0] by (simp add: activated_def RT_TIMER_FLAG_ACTIVATED_def)

lemma periodic_bit: "periodic tm \<longleftrightarrow> bit (flag tm) 1"
  using and_exp_eq_0_iff_not_bit [of "flag tm" 1] by (simp add: periodic_def RT_TIMER_FLAG_PERIODIC_def)

lemma flag_ops [simp]:
  "\<not> activated (deactivate tm)" "activated (activate tm)"
  "periodic (deactivate tm) = periodic tm" "periodic (activate tm) = periodic tm"
  by (simp_all add: activated_bit periodic_bit deactivate_def activate_def RT_TIMER_FLAG_ACTIVATED_def bit_simps)

lemma deactivate_sel [simp]:
  "object_static (deactivate tm) = object_static tm" "timeout_func (deactivate tm) = timeout_func tm"
  "parameter (deactivate tm) = parameter tm" "init_tick (deactivate tm) = init_tick tm"
  "timeout_tick (deactivate tm) = timeout_tick tm"
  by (simp_all add: deactivate_def)

lemma activate_sel [simp]:
  "object_static (activate tm) = object_static tm" "timeout_func (activate tm) = timeout_func tm"
  "parameter (activate tm) = parameter tm" "init_tick (activate tm) = init_tick tm"
  "timeout_tick (activate tm) = timeout_tick tm"
  by (simp_all add: activate_def)

lemma on_timer_sel [simp]:
  "timers (on_timer t f s) u = (if u = t then map_option f (timers s t) else timers s u)"
  "timer_list (on_timer t f s) = timer_list s" "check_list (on_timer t f s) = check_list s"
  "rt_tick (on_timer t f s) = rt_tick s" "random_nr (on_timer t f s) = random_nr s"
  by (simp_all add: on_timer_def)

lemma timer_remove_sel [simp]:
  "timers (timer_remove t s) = timers s" "rt_tick (timer_remove t s) = rt_tick s"
  "timer_list (timer_remove t s) = removeAll t (timer_list s)"
  "check_list (timer_remove t s) = removeAll t (check_list s)"
  by (simp_all add: timer_remove_def)

subsection \<open>The time that is left\<close>

text \<open>
  The ticks until a timer is due, negative when it is over.  Its word does not tell a far future from the
  past; the invariant keeps what is left in a window in which the tests of the code do.
\<close>

definition ticks_left :: "timer_sys \<Rightarrow> nat \<Rightarrow> int" where
  "ticks_left s t = sint (due_tick s t - rt_tick s)"

definition in_window :: "int \<Rightarrow> bool" where
  "in_window d \<longleftrightarrow> - 1 \<le> d \<and> d < 2147483647"

lemma sint_32: "sint (w :: 32 word) = (if uint w < 2147483648 then uint w else uint w - 4294967296)"
proof -
  have w: "uint w < 4294967296" "0 \<le> uint w" using uint_lt2p [of w] by simp_all
  have "bit (uint w) 31 \<longleftrightarrow> uint w \<ge> 2147483648"
  proof -
    have "uint w div 2147483648 = (if uint w < 2147483648 then 0 else 1)"
      using w by (auto intro: div_pos_pos_trivial int_div_pos_eq [of _ _ _ "uint w - 2147483648"])
    then show ?thesis by (simp add: bit_iff_odd)
  qed
  then show ?thesis
    using w by (simp add: sint_uint signed_take_bit_eq_take_bit_minus take_bit_eq_mod)
qed

lemma uint_32_of_int: "uint (word_of_int x :: 32 word) = x mod 4294967296"
  by (simp add: uint_word_of_int take_bit_eq_mod)

lemma mod_32: "- 4294967296 \<le> x \<Longrightarrow> x < 4294967296 \<Longrightarrow> x mod 4294967296 = (if 0 \<le> x then x else x + 4294967296 :: int)"
  using mod_pos_pos_trivial [of "x + 4294967296" 4294967296] by simp

lemma word_positive:
  assumes "- 2147483648 \<le> x" and "x < 2147483647"
  shows "(word_of_int x :: 32 word) \<noteq> 0 \<and> (word_of_int x :: 32 word) < 0x7fffffff \<longleftrightarrow> 0 < x"
proof -
  have "x mod 4294967296 = (if 0 \<le> x then x else x + 4294967296)"
    using assms by (intro mod_32) simp_all
  then have "uint (word_of_int x :: 32 word) = (if 0 \<le> x then x else x + 4294967296)"
    by (simp only: uint_32_of_int)
  then show ?thesis using assms by (simp only: word_less_alt word_uint_eq_iff) (auto split: if_splits)
qed

lemma ticks_diff:
  "due_tick s u - (rt_tick s + w) = word_of_int (ticks_left s u - sint w)"
proof -
  have "due_tick s u - (rt_tick s + w) = (due_tick s u - rt_tick s) - w" by simp
  also have "\<dots> = word_of_int (ticks_left s u - sint w)"
    by (simp add: ticks_left_def wi_hom_sub [symmetric])
  finally show ?thesis .
qed

lemma expired_left:
  assumes "timers s t = Some tm" and "in_window (ticks_left s t)"
  shows "timer_expired (rt_tick s) tm \<longleftrightarrow> ticks_left s t \<le> 0"
proof -
  let ?d = "ticks_left s t"
  have "rt_tick s - timeout_tick tm = word_of_int (- ?d)"
    using assms(1) by (simp add: ticks_left_def due_tick_def wi_hom_neg [symmetric])
  then have "uint (rt_tick s - timeout_tick tm) = - ?d mod 4294967296" by (simp only: uint_32_of_int)
  moreover have "- ?d mod 4294967296 = (if ?d \<le> 0 then - ?d else 4294967296 - ?d)"
    using assms(2) mod_32 [of "- ?d"] by (auto simp: in_window_def)
  ultimately show ?thesis
    using assms(2) by (simp add: timer_expired_def word_less_alt in_window_def)
qed

subsection \<open>The list of active timers\<close>

text \<open>
  The list is ordered by the time that is left; its timers are timers, active, and in the window.  \<open>lo\<close> bounds
  the time from below: a timer that is due now is still in the list until the next tick, \<open>-1\<close> then.
\<close>

definition timer_inv :: "int \<Rightarrow> timer_sys \<Rightarrow> bool" where
  "timer_inv lo s \<longleftrightarrow>
     distinct (timer_list s) \<and> set (timer_list s) \<inter> set (check_list s) = {} \<and>
     sorted (map (ticks_left s) (timer_list s)) \<and>
     (\<forall>t \<in> set (timer_list s). in_window (ticks_left s t) \<and> lo \<le> ticks_left s t \<and> (\<exists>tm. timers s t = Some tm \<and> activated tm)) \<and>
     (\<forall>t \<in> set (check_list s). timers s t \<noteq> None) \<and>
     (\<forall>t tm. timers s t = Some tm \<longrightarrow> init_tick tm < RT_TICK_MAX div 2)"

lemma timer_invD:
  assumes "timer_inv lo s"
  shows "distinct (timer_list s)" "sorted (map (ticks_left s) (timer_list s))"
    and "t \<in> set (timer_list s) \<Longrightarrow> in_window (ticks_left s t)"
    and "t \<in> set (timer_list s) \<Longrightarrow> \<exists>tm. timers s t = Some tm \<and> activated tm"
    and "timers s t = Some tm \<Longrightarrow> init_tick tm < 0x7fffffff"
    and "t \<in> set (timer_list s) \<Longrightarrow> lo \<le> ticks_left s t"
    and "set (timer_list s) \<inter> set (check_list s) = {}" "t \<in> set (check_list s) \<Longrightarrow> \<exists>tm. timers s t = Some tm"
  using assms by (auto simp: timer_inv_def)

text \<open>What only takes timers out, or changes no due time, keeps it.\<close>

lemma timer_inv_less:
  assumes inv: "timer_inv lo s" and tick: "rt_tick s' = rt_tick s"
    and list: "timer_list s' = filter P (timer_list s)"
    and check: "set (check_list s') \<inter> set (timer_list s') = {}" "\<forall>t \<in> set (check_list s'). timers s' t \<noteq> None"
    and old: "\<And>t tm. t \<in> set (timer_list s') \<Longrightarrow> timers s t = Some tm \<Longrightarrow> activated tm \<Longrightarrow>
      \<exists>tm'. timers s' t = Some tm' \<and> timeout_tick tm' = timeout_tick tm \<and> activated tm'"
    and init: "\<And>t tm. timers s' t = Some tm \<Longrightarrow> init_tick tm < 0x7fffffff"
  shows "timer_inv lo s'"
proof -
  have same: "ticks_left s' t = ticks_left s t \<and> (\<exists>tm. timers s' t = Some tm \<and> activated tm)"
    if t: "t \<in> set (timer_list s')" for t
  proof -
    obtain tm where tm: "timers s t = Some tm" "activated tm"
      using timer_invD(4) [OF inv, of t] t list by auto
    then show ?thesis using old [OF t tm] tick by (auto simp: ticks_left_def due_tick_def)
  qed
  then have "map (ticks_left s') (timer_list s') = map (ticks_left s) (filter P (timer_list s))"
    by (simp add: list)
  then have "sorted (map (ticks_left s') (timer_list s'))"
    using sorted_filter [OF timer_invD(2) [OF inv], of P] by (simp only:)
  moreover have "in_window (ticks_left s' t)" if "t \<in> set (timer_list s')" for t
    using same [OF that] timer_invD(3) [OF inv, of t] that list by auto
  moreover have "lo \<le> ticks_left s' t" if "t \<in> set (timer_list s')" for t
    using same [OF that] timer_invD(6) [OF inv, of t] that list by auto
  ultimately show ?thesis
    unfolding timer_inv_def using same check init distinct_filter [OF timer_invD(1) [OF inv], of P]
    by (simp add: list Int_commute)
qed

lemma removeAll_filter: "removeAll t xs = filter (\<lambda>u. u \<noteq> t) xs"
  by (simp add: removeAll_filter_not_eq eq_commute)

lemma timer_remove_inv:
  assumes "timer_inv lo s"
  shows "timer_inv lo (timer_remove t s)"
  by (rule timer_inv_less [OF assms, where P = "\<lambda>u. u \<noteq> t"])
    (use timer_invD [OF assms] in \<open>auto simp: removeAll_filter\<close>)

text \<open>A change of a timer that is not in the list, or that leaves its due time.\<close>

lemma on_timer_inv:
  assumes inv: "timer_inv lo s" and "\<And>tm. init_tick tm < 0x7fffffff \<Longrightarrow> init_tick (f tm) < 0x7fffffff"
    and "t \<notin> set (timer_list s) \<or> (\<forall>tm. timeout_tick (f tm) = timeout_tick tm \<and> (activated tm \<longrightarrow> activated (f tm)))"
  shows "timer_inv lo (on_timer t f s)"
proof (rule timer_inv_less [OF inv, where P = "\<lambda>_. True"])
  show "set (check_list (on_timer t f s)) \<inter> set (timer_list (on_timer t f s)) = {}"
    using timer_invD(7) [OF inv] by (simp add: Int_commute)
  show "\<forall>u \<in> set (check_list (on_timer t f s)). timers (on_timer t f s) u \<noteq> None"
    using timer_invD(8) [OF inv] by fastforce
  show "init_tick tm < 0x7fffffff" if "timers (on_timer t f s) u = Some tm" for u tm
    using that timer_invD(5) [OF inv] assms(2) by (auto split: if_splits)
  show "\<exists>tm'. timers (on_timer t f s) u = Some tm' \<and> timeout_tick tm' = timeout_tick tm \<and> activated tm'"
    if "u \<in> set (timer_list (on_timer t f s))" "timers s u = Some tm" "activated tm" for u tm
    using that assms(3) by auto
qed simp_all

subsection \<open>Starting a timer\<close>

lemma timer_place_eq:
  assumes "\<forall>u \<in> set us. in_window (ticks_left s u)" and "in_window (sint w)" and "0 \<le> sint w"
  shows "timer_place (due_tick s) (rt_tick s + w) t us =
    takeWhile (\<lambda>u. ticks_left s u \<le> sint w) us @ t # dropWhile (\<lambda>u. ticks_left s u \<le> sint w) us"
  using assms(1)
proof (induction us)
  case (Cons u us)
  let ?x = "ticks_left s u - sint w"
  have "- 2147483648 \<le> ?x" "?x < 2147483647" using Cons.prems assms(2,3) by (auto simp: in_window_def)
  note word_positive [OF this]
  then have "due_tick s u - (rt_tick s + w) \<noteq> 0 \<and> due_tick s u - (rt_tick s + w) < 0x7fffffff \<longleftrightarrow> 0 < ?x"
    by (simp only: ticks_diff)
  then show ?case using Cons by auto
qed simp

lemma sorted_takeWhile_filter:
  "sorted (map f us) \<Longrightarrow> takeWhile (\<lambda>u. f u \<le> c) us = filter (\<lambda>u. f u \<le> (c :: int)) us"
  by (induction us) (auto intro!: filter_False [symmetric])

lemma sorted_dropWhile_filter:
  "sorted (map f us) \<Longrightarrow> dropWhile (\<lambda>u. f u \<le> c) us = filter (\<lambda>u. c < (f u :: int)) us"
  by (induction us) (auto intro!: filter_True [symmetric] filter_cong)

lemma small_tick:
  assumes "(w :: tick) < 0x7fffffff"
  shows "sint w = uint w" "in_window (sint w)" "0 \<le> sint w"
proof -
  have "uint w < 2147483647" using assms by (simp add: word_less_alt)
  moreover have "- 1 \<le> uint w" using uint_ge_0 [of w] by linarith
  ultimately show "sint w = uint w" "in_window (sint w)" "0 \<le> sint w" by (simp_all add: sint_32 in_window_def)
qed

definition restarted :: "tick \<Rightarrow> rt_timer \<Rightarrow> rt_timer" where
  "restarted now tm = activate (deactivate tm\<lparr>timeout_tick := now + init_tick tm\<rparr>)"

lemma restarted_sel [simp]:
  "activated (restarted now tm)" "timeout_tick (restarted now tm) = now + init_tick tm"
  "init_tick (restarted now tm) = init_tick tm" "periodic (restarted now tm) = periodic tm"
  "timeout_func (restarted now tm) = timeout_func tm" "object_static (restarted now tm) = object_static tm"
  by (simp_all add: restarted_def) (simp add: periodic_bit activate_def deactivate_def RT_TIMER_FLAG_ACTIVATED_def bit_simps)

text \<open>
  The timer goes behind all timers that are due before it or with it, and in front of the others: the order
  is stable.
\<close>

lemma timer_start_result:
  assumes inv: "timer_inv lo s" and tm: "timers s t = Some tm"
  obtains s' where "rt_timer_start t s = Inr s'" and "rt_tick s' = rt_tick s"
    and "timers s' = (timers s)(t \<mapsto> restarted (rt_tick s) tm)"
    and "check_list s' = removeAll t (check_list s)"
    and "timer_list s' = filter (\<lambda>u. ticks_left s u \<le> uint (init_tick tm)) (removeAll t (timer_list s)) @
      t # filter (\<lambda>u. uint (init_tick tm) < ticks_left s u) (removeAll t (timer_list s))"
proof -
  let ?L = "removeAll t (timer_list s)"
  let ?new = "rt_tick s + init_tick tm"
  note init = small_tick [OF timer_invD(5) [OF inv tm]]
  let ?s2 = "on_timer t (timeout_tick_update (\<lambda>_. ?new)) (on_timer t deactivate (timer_remove t s))"
  have due: "due_tick ?s2 u = due_tick s u" if "u \<in> set ?L" for u
    using that by (auto simp: due_tick_def)
  have place: "timer_place (due_tick ?s2) ?new t ?L = timer_place (due_tick s) ?new t ?L"
  proof -
    have "timer_place d ?new t us = timer_place d' ?new t us" if "\<forall>u \<in> set us. d u = d' u" for d d' us
      using that by (induction us) auto
    then show ?thesis using due by blast
  qed
  have "timer_place (due_tick s) ?new t ?L =
      takeWhile (\<lambda>u. ticks_left s u \<le> sint (init_tick tm)) ?L @ t # dropWhile (\<lambda>u. ticks_left s u \<le> sint (init_tick tm)) ?L"
    by (rule timer_place_eq) (use timer_invD(3) [OF inv] init in auto)
  moreover have "sorted (map (ticks_left s) ?L)"
    using sorted_filter [OF timer_invD(2) [OF inv]] by (simp only: removeAll_filter)
  note sorted_takeWhile_filter [OF this] sorted_dropWhile_filter [OF this]
  ultimately have list: "timer_place (due_tick ?s2) ?new t ?L =
      filter (\<lambda>u. ticks_left s u \<le> uint (init_tick tm)) ?L @ t # filter (\<lambda>u. uint (init_tick tm) < ticks_left s u) ?L"
    by (simp only: place init(1))
  have "rt_timer_start t s = Inr (on_timer t activate
      (?s2\<lparr>random_nr := random_nr ?s2 + 1, timer_list := timer_place (due_tick ?s2) ?new t ?L\<rparr>))"
    by (simp add: rt_timer_start_def tm Let_def)
  then show thesis
    by (rule that) (simp_all add: tm list restarted_def fun_eq_iff)
qed

lemma start_some: "timers s t = Some tm \<Longrightarrow> \<exists>s'. rt_timer_start t s = Inr s'"
  by (simp add: rt_timer_start_def Let_def)

lemma timer_start_inv:
  assumes inv: "timer_inv lo s" and lo: "lo \<le> 0" and run: "rt_timer_start t s = Inr s'"
  shows "timer_inv lo s'"
proof -
  obtain tm where tm: "timers s t = Some tm"
    using run by (cases "timers s t") (simp_all add: rt_timer_start_def)
  let ?L = "removeAll t (timer_list s)" and ?n = "uint (init_tick tm)"
  note init = small_tick [OF timer_invD(5) [OF inv tm]]
  obtain "rt_tick s' = rt_tick s" "timers s' = (timers s)(t \<mapsto> restarted (rt_tick s) tm)"
      "check_list s' = removeAll t (check_list s)"
      and list: "timer_list s' = filter (\<lambda>u. ticks_left s u \<le> ?n) ?L @ t # filter (\<lambda>u. ?n < ticks_left s u) ?L"
    using timer_start_result [OF inv tm] run by (metis sum.inject(2))
  note s' = this
  have left: "ticks_left s' u = (if u = t then ?n else ticks_left s u)" for u
    using s' init(1) by (simp add: ticks_left_def due_tick_def)
  have "sorted (map (ticks_left s) ?L)"
    using sorted_filter [OF timer_invD(2) [OF inv]] by (simp only: removeAll_filter)
  then have part: "sorted (map (ticks_left s) (filter P ?L))" for P by (rule sorted_filter)
  have map: "map (ticks_left s') (filter P ?L) = map (ticks_left s) (filter P ?L)" for P
    by (simp add: left)
  have "sorted (map (ticks_left s') (timer_list s'))"
    unfolding list using part by (simp add: sorted_append map) (auto simp: left)
  moreover have set: "set (timer_list s') = insert t (set (timer_list s))" by (auto simp: list)
  moreover have "distinct (timer_list s')" using timer_invD(1) [OF inv] by (auto simp: list distinct_removeAll)
  moreover have "in_window (ticks_left s' u) \<and> lo \<le> ticks_left s' u \<and> (\<exists>tm. timers s' u = Some tm \<and> activated tm)"
    if "u \<in> set (timer_list s')" for u
    using that init order_trans [OF lo uint_ge_0 [of "init_tick tm"]] timer_invD(3,4,6) [OF inv, of u] by (auto simp: set left s'(2))
  moreover have "init_tick tm' < 0x7fffffff" if "timers s' u = Some tm'" for u tm'
    using that timer_invD(5) [OF inv] tm by (auto simp: s'(2) split: if_splits)
  moreover have "\<exists>tm. timers s' u = Some tm" if "u \<in> set (check_list s')" for u
    using that timer_invD(8) [OF inv, of u] by (auto simp: s'(2,3))
  ultimately show ?thesis
    unfolding timer_inv_def using timer_invD(7) [OF inv] by (simp add: s'(3)) blast
qed

subsection \<open>What a client can do\<close>

text \<open>The calls, with the bound that the interface asks for where the code does not check it.\<close>

inductive timer_call :: "timer_sys \<Rightarrow> timer_sys \<Rightarrow> bool" where
  call_start: "rt_timer_start t s = Inr s' \<Longrightarrow> timer_call s s'"
| call_stop: "rt_timer_stop t s = Inr (e, s') \<Longrightarrow> timer_call s s'"
| call_control: "rt_timer_control t cmd arg s = Inr (v, s') \<Longrightarrow>
    (cmd = SET_TIME \<Longrightarrow> arg < RT_TICK_MAX div 2) \<Longrightarrow> timer_call s s'"
| call_init: "rt_timer_init t timeout param time fl s = Inr s' \<Longrightarrow> timer_call s s'"
| call_create: "rt_timer_create fresh timeout param time fl s = Inr (r, s') \<Longrightarrow>
    (\<And>t. fresh = Some t \<Longrightarrow> timers s t = None) \<Longrightarrow> timer_call s s'"
| call_detach: "rt_timer_detach t s = Inr s' \<Longrightarrow> timer_call s s'"
| call_delete: "rt_timer_delete t s = Inr s' \<Longrightarrow> timer_call s s'"

text \<open>A timeout function makes such calls.\<close>

definition timeouts_call :: "timeout_code \<Rightarrow> bool" where
  "timeouts_call run \<longleftrightarrow> (\<forall>f p s s'. run f p s = Inr s' \<longrightarrow> timer_call\<^sup>*\<^sup>* s s')"

lemma timer_stop_inv:
  assumes inv: "timer_inv lo s"
  shows "timer_inv lo (on_timer t deactivate (timer_remove t s))"
  by (rule on_timer_inv [OF timer_remove_inv [OF inv]]) simp_all

lemma timer_drop_inv:
  assumes inv: "timer_inv lo s" and "t \<notin> set (timer_list s)" "t \<notin> set (check_list s)"
  shows "timer_inv lo (s\<lparr>timers := (timers s)(t := None)\<rparr>)"
  by (rule timer_inv_less [OF inv, where P = "\<lambda>_. True"])
    (use assms(2,3) timer_invD [OF inv] in \<open>auto split: if_splits\<close>)

lemma timer_init_inv:
  assumes inv: "timer_inv lo s" and "timers s t = None" and "time < 0x7fffffff"
  shows "timer_inv lo (timer_init t static f param time fl s)"
  by (rule timer_inv_less [OF inv, where P = "\<lambda>_. True"])
    (use assms(2,3) timer_invD [OF inv] in \<open>auto simp: timer_init_def split: if_splits\<close>)

lemma timer_push_inv:
  assumes inv: "timer_inv lo s" and "timers s t \<noteq> None" and "t \<notin> set (timer_list s)"
  shows "timer_inv lo (s\<lparr>check_list := t # check_list s\<rparr>)"
  by (rule timer_inv_less [OF inv, where P = "\<lambda>_. True"])
    (use assms(2,3) timer_invD [OF inv] in \<open>auto\<close>)

lemma timer_call_inv:
  assumes "timer_call s s'" and inv: "timer_inv lo s" and lo: "lo \<le> 0"
  shows "timer_inv lo s' \<and> rt_tick s' = rt_tick s"
  using assms(1)
proof cases
  case (call_start t)
  then have "rt_tick s' = rt_tick s"
    by (auto simp: rt_timer_start_def Let_def split: option.splits)
  with timer_start_inv [OF inv lo call_start] show ?thesis by simp
next
  case (call_stop t e)
  then show ?thesis using inv timer_stop_inv [OF inv]
    by (auto simp: rt_timer_stop_def split: option.splits if_splits)
next
  case (call_control t cmd arg v)
  have "timer_inv lo (on_timer t (flag_update (\<lambda>f. f AND NOT RT_TIMER_FLAG_PERIODIC)) s)"
    "timer_inv lo (on_timer t (flag_update (\<lambda>f. f OR RT_TIMER_FLAG_PERIODIC)) s)"
    by (rule on_timer_inv [OF inv]; simp add: activated_bit RT_TIMER_FLAG_PERIODIC_def bit_simps)+
  moreover have "timer_inv lo (on_timer t (init_tick_update (\<lambda>_. arg)) s)" if "arg < 0x7fffffff"
    by (rule on_timer_inv [OF inv]) (use that in \<open>simp_all add: activated_bit\<close>)
  ultimately show ?thesis using call_control inv
    by (auto simp: rt_timer_control_def Let_def split: option.splits timer_cmd.splits)
next
  case (call_init t timeout param time fl)
  then show ?thesis using timer_init_inv [OF inv]
    by (auto simp: rt_timer_init_def timer_init_def not_le split: option.splits if_splits)
next
  case (call_create fresh timeout param time fl r)
  then show ?thesis using timer_init_inv [OF inv] inv
    by (auto simp: rt_timer_create_def timer_init_def not_le split: option.splits if_splits)
next
  case (call_detach t)
  then show ?thesis using timer_drop_inv [OF timer_stop_inv [OF inv, of t], of t]
    by (auto simp: rt_timer_detach_def Let_def split: option.splits if_splits)
next
  case (call_delete t)
  then show ?thesis using timer_drop_inv [OF timer_stop_inv [OF inv, of t], of t]
    by (auto simp: rt_timer_delete_def Let_def split: option.splits if_splits)
qed

lemma timer_calls_inv:
  "timer_call\<^sup>*\<^sup>* s s' \<Longrightarrow> timer_inv lo s \<Longrightarrow> lo \<le> 0 \<Longrightarrow> timer_inv lo s' \<and> rt_tick s' = rt_tick s"
  by (induction rule: rtranclp_induct) (auto dest: timer_call_inv)

lemma timer_inv_mono: "timer_inv lo s \<Longrightarrow> lo' \<le> lo \<Longrightarrow> timer_inv lo' s"
  by (auto simp: timer_inv_def)

subsection \<open>The interrupt\<close>

lemma timer_fire_inv:
  assumes inv: "timer_inv lo s" and lo: "lo \<le> 0" and run: "timeouts_call run"
    and tm: "timers s t = Some tm" and fire: "timer_fire run t tm s = Inr s'"
  shows "timer_inv lo s' \<and> rt_tick s' = rt_tick s"
proof -
  define s2 where "s2 = (if \<not> periodic tm then on_timer t deactivate (timer_remove t s) else timer_remove t s)"
  have "timer_inv lo s2"
    using timer_stop_inv [OF inv] timer_remove_inv [OF inv] by (simp add: s2_def)
  moreover have "timers s2 t \<noteq> None" "t \<notin> set (timer_list s2)" by (auto simp: s2_def tm)
  ultimately have s3: "timer_inv lo (s2\<lparr>check_list := t # check_list s2\<rparr>)"
    by (rule timer_push_inv)
  obtain s4 where s4: "run (timeout_func tm) (parameter tm) (s2\<lparr>check_list := t # check_list s2\<rparr>) = Inr s4"
    using fire by (auto simp: timer_fire_def Let_def s2_def bindR_eq_Inr split: if_splits)
  then have inv4: "timer_inv lo s4" "rt_tick s4 = rt_tick s"
    using timer_calls_inv [OF _ s3 lo, of s4] run unfolding timeouts_call_def by (auto simp: s2_def)
  have restart: "timer_inv lo s' \<and> rt_tick s' = rt_tick s"
    if "rt_timer_start t (on_timer t deactivate (timer_remove t s4)) = Inr s'"
    using timer_call_inv [OF call_start [OF that] timer_stop_inv [OF inv4(1)] lo] inv4(2) by simp
  have "check_list s4 = [] \<and> s' = s4 \<or> s' = timer_remove t s4 \<or>
      rt_timer_start t (on_timer t deactivate (timer_remove t s4)) = Inr s'"
    using fire s4 by (auto simp: timer_fire_def Let_def s2_def split: if_splits option.splits)
  then show ?thesis using restart inv4 timer_remove_inv [OF inv4(1)] by auto
qed

lemma sorted_head: "sorted (map f (t # us)) \<Longrightarrow> u \<in> set (t # us) \<Longrightarrow> f t \<le> (f u :: int)"
  by auto

text \<open>When the check returns, no timer is due.\<close>

lemma timer_check_loop_inv:
  assumes "timer_check_loop run s = Some r" and "r = Inr (ts, s')" and "timeouts_call run" and "timer_inv (- 1) s"
  shows "timer_inv 1 s' \<and> rt_tick s' = rt_tick s"
  using assms
proof (induction arbitrary: ts s' rule: timer_check_loop.raw_induct [rotated 1, consumes 1, case_names step])
  case (step loop run s r)
  note inv = \<open>timer_inv (- 1) s\<close>
  show ?case
  proof (cases "timer_list s")
    case Nil
    then have "timer_inv 1 s" using inv by (simp add: timer_inv_def)
    then show ?thesis using step.prems step.hyps Nil by simp
  next
    case (Cons t us)
    then obtain tm where tm: "timers s t = Some tm" using timer_invD(4) [OF inv, of t] by auto
    have win: "in_window (ticks_left s t)" using timer_invD(3) [OF inv, of t] Cons by simp
    show ?thesis
    proof (cases "ticks_left s t \<le> 0")
      case False
      then have "1 \<le> ticks_left s u" if "u \<in> set (timer_list s)" for u
        using sorted_head [of "ticks_left s" t us u] timer_invD(2) [OF inv] that Cons by fastforce
      then have "timer_inv 1 s" using inv by (auto simp: timer_inv_def)
      then show ?thesis using step.prems step.hyps Cons tm expired_left [OF tm win] False by simp
    next
      case True
      then obtain s1 ts1 where s1: "timer_fire run t tm s = Inr s1" and rest: "loop run s1 = Some (Inr (ts1, s'))"
        using step.prems step.hyps Cons tm expired_left [OF tm win]
        by (auto simp: bind_eq_Some_conv bindR_eq_Inr split: sum.splits)
      have "timer_inv (- 1) s1 \<and> rt_tick s1 = rt_tick s"
        by (rule timer_fire_inv [OF inv _ _ tm s1]) (use step.prems step.hyps in simp_all)
      then show ?thesis using step.IH [OF rest refl] step.prems step.hyps by simp
    qed
  qed
qed

subsection \<open>Timeout functions that leave the timers alone\<close>

definition leaves_timers :: "timeout_code \<Rightarrow> bool" where
  "leaves_timers run \<longleftrightarrow> (\<forall>f p s. run f p s = Inr s)"

text \<open>What a timer is after it has fired, and what the check leaves of all timers.\<close>

definition fired :: "tick \<Rightarrow> rt_timer \<Rightarrow> rt_timer" where
  "fired now tm = (if periodic tm then restarted now tm else deactivate tm)"

definition due :: "timer_sys \<Rightarrow> nat \<Rightarrow> bool" where
  "due s t \<longleftrightarrow> ticks_left s t \<le> 0"

lemma fired_sel [simp]:
  "init_tick (fired now tm) = init_tick tm" "periodic (fired now tm) = periodic tm"
  by (simp_all add: fired_def)

lemma restarted_deactivate [simp]: "restarted now (deactivate tm) = restarted now tm"
  by (simp add: restarted_def deactivate_def ac_simps)

lemma timer_fire_passive:
  assumes inv: "timer_inv lo s" and lo: "lo \<le> 0" and check: "check_list s = []" and run: "leaves_timers run"
    and head: "timer_list s = t # us" and tm: "timers s t = Some tm"
  obtains s1 where "timer_fire run t tm s = Inr s1" and "rt_tick s1 = rt_tick s" and "check_list s1 = []"
    and "timers s1 = (timers s)(t \<mapsto> fired (rt_tick s) tm)" and "timer_inv lo s1"
    and "timer_list s1 = (if periodic tm
      then filter (\<lambda>u. ticks_left s u \<le> uint (init_tick tm)) us @ t # filter (\<lambda>u. uint (init_tick tm) < ticks_left s u) us
      else us)"
proof -
  have t: "t \<notin> set us" using timer_invD(1) [OF inv] head by simp
  have on: "activated tm" using timer_invD(4) [OF inv, of t] head tm by auto
  show thesis
  proof (cases "periodic tm")
    case False
    let ?s1 = "timer_remove t (on_timer t deactivate (timer_remove t s))"
    have "timer_fire run t tm s = Inr ?s1"
      using run False tm check
      by (simp add: timer_fire_def leaves_timers_def Let_def) (simp add: timer_remove_def on_timer_def)
    then show thesis
      by (rule that) (use t False tm check head timer_remove_inv [OF timer_stop_inv [OF inv]] in
        \<open>simp_all add: fired_def fun_eq_iff removeAll_id\<close>)
  next
    case True
    let ?s0 = "on_timer t deactivate (timer_remove t s)"
    have inv0: "timer_inv lo ?s0" by (rule timer_stop_inv [OF inv])
    have tm0: "timers ?s0 t = Some (deactivate tm)" by (simp add: tm)
    have list0: "removeAll t (timer_list ?s0) = us" using t head by (simp add: removeAll_id)
    have left: "ticks_left ?s0 u = ticks_left s u" for u
      by (simp add: ticks_left_def due_tick_def tm)
    have "timer_fire run t tm s = rt_timer_start t ?s0"
      using run True tm check on
      by (simp add: timer_fire_def leaves_timers_def Let_def) (simp add: timer_remove_def on_timer_def)
    then have fire: "timer_fire run t tm s = Inr s'" if "rt_timer_start t ?s0 = Inr s'" for s'
      using that by simp
    obtain s' where s': "rt_timer_start t ?s0 = Inr s'" "rt_tick s' = rt_tick ?s0"
      "timers s' = (timers ?s0)(t \<mapsto> restarted (rt_tick ?s0) (deactivate tm))"
      "check_list s' = removeAll t (check_list ?s0)"
      "timer_list s' = filter (\<lambda>u. ticks_left ?s0 u \<le> uint (init_tick (deactivate tm))) (removeAll t (timer_list ?s0)) @
        t # filter (\<lambda>u. uint (init_tick (deactivate tm)) < ticks_left ?s0 u) (removeAll t (timer_list ?s0))"
      by (rule timer_start_result [OF inv0 tm0])
    show thesis
    proof (rule that [OF fire [OF s'(1)]])
      show "timers s' = (timers s)(t \<mapsto> fired (rt_tick s) tm)"
        using True by (simp add: s'(3) fired_def fun_eq_iff)
    qed (use True check timer_start_inv [OF inv0 lo s'(1)] s'(2,4,5) in
        \<open>simp_all only: left list0 if_True, simp_all\<close>)
  qed
qed

text \<open>All due timers fire, in the order of the list, and the periodic ones are started again.\<close>

definition no_zero_period :: "timer_sys \<Rightarrow> bool" where
  "no_zero_period s \<longleftrightarrow> (\<forall>t tm. timers s t = Some tm \<and> periodic tm \<longrightarrow> init_tick tm \<noteq> 0)"

lemma filter_due:
  "0 < c \<Longrightarrow> filter (due s) (filter (\<lambda>u. ticks_left s u \<le> c) us) = filter (due s) us"
  "0 < c \<Longrightarrow> filter (due s) (filter (\<lambda>u. c < ticks_left s u) us) = []"
  by (induction us) (auto simp: due_def)

lemma timer_check_leaves:
  assumes "timer_inv (- 1) s" and "check_list s = []" and "leaves_timers run" and "no_zero_period s"
  shows "\<exists>s'. timer_check_loop run s = Some (Inr (filter (due s) (timer_list s), s')) \<and>
    rt_tick s' = rt_tick s \<and> check_list s' = [] \<and> timer_inv 1 s' \<and>
    (\<forall>t. timers s' t = (if t \<in> set (timer_list s) \<and> due s t then map_option (fired (rt_tick s)) (timers s t) else timers s t)) \<and>
    (\<forall>t. t \<in> set (timer_list s') \<longleftrightarrow> t \<in> set (timer_list s) \<and> (due s t \<longrightarrow> (\<exists>tm. timers s t = Some tm \<and> periodic tm)))"
  using assms
proof (induction "length (filter (due s) (timer_list s))" arbitrary: s rule: less_induct)
  case less
  note inv = \<open>timer_inv (- 1) s\<close>
  show ?case
  proof (cases "timer_list s")
    case Nil
    then have "timer_inv 1 s" using inv by (simp add: timer_inv_def)
    then show ?thesis using less.prems Nil by (subst timer_check_loop.simps) simp
  next
    case (Cons t us)
    then obtain tm where tm: "timers s t = Some tm" using timer_invD(4) [OF inv, of t] by auto
    have win: "in_window (ticks_left s t)" using timer_invD(3) [OF inv, of t] Cons by simp
    show ?thesis
    proof (cases "due s t")
      case False
      then have all: "0 < ticks_left s u" if "u \<in> set (timer_list s)" for u
        using sorted_head [of "ticks_left s" t us u] timer_invD(2) [OF inv] that Cons by (fastforce simp: due_def)
      then have "timer_inv 1 s" using inv by (fastforce simp: timer_inv_def)
      moreover have none: "\<not> due s u" if "u \<in> set (timer_list s)" for u using all [OF that] by (simp add: due_def)
      moreover have "filter (due s) (timer_list s) = []" using none by (simp add: filter_empty_conv)
      ultimately show ?thesis using less.prems Cons tm expired_left [OF tm win] False
        by (subst timer_check_loop.simps) (auto simp: due_def)
    next
      case True
      let ?n = "uint (init_tick tm)"
      obtain s1 where s1: "timer_fire run t tm s = Inr s1" "rt_tick s1 = rt_tick s" "check_list s1 = []"
          "timers s1 = (timers s)(t \<mapsto> fired (rt_tick s) tm)" "timer_inv (- 1) s1"
          and list: "timer_list s1 = (if periodic tm
            then filter (\<lambda>u. ticks_left s u \<le> ?n) us @ t # filter (\<lambda>u. ?n < ticks_left s u) us else us)"
        using timer_fire_passive [OF inv _ less.prems(2,3) Cons tm] by auto
      have t: "t \<notin> set us" using timer_invD(1) [OF inv] Cons by simp
      have left: "ticks_left s1 u = ticks_left s u" if "u \<noteq> t" for u
        using that s1(2,4) by (simp add: ticks_left_def due_tick_def)
      have pos: "0 < ?n" "ticks_left s1 t = ?n" if "periodic tm"
        using that less.prems(4) tm small_tick [OF timer_invD(5) [OF inv tm]] uint_ge_0 [of "init_tick tm"]
        by (auto simp: no_zero_period_def ticks_left_def due_tick_def s1(2,4) fired_def word_uint_eq_iff less_le)
      have due1: "due s1 u = due s u" if "u \<in> set us" for u
        using that t left by (cases "u = t") (simp_all add: due_def)
      then have "filter (due s1) us = filter (due s) us" by (auto intro: filter_cong)
      moreover have "filter (due s1) (filter P us) = filter (due s) (filter P us)" for P
        using due1 by (auto intro: filter_cong)
      ultimately have log: "filter (due s1) (timer_list s1) = filter (due s) us"
        using pos by (cases "periodic tm") (simp_all add: list filter_due due_def [of s1 t] del: filter_filter)
      have "set (timer_list s1) = (if periodic tm then insert t (set us) else set us)" by (auto simp: list)
      note set1 = this
      have zero: "no_zero_period s1"
        using less.prems(4) tm unfolding no_zero_period_def s1(4) by (auto split: if_splits)
      have "length (filter (due s1) (timer_list s1)) < length (filter (due s) (timer_list s))"
        using True Cons by (simp only: log) simp
      from less.hyps [OF this s1(5,3) less.prems(3) zero] obtain s' where
        s': "timer_check_loop run s1 = Some (Inr (filter (due s) us, s'))" "rt_tick s' = rt_tick s"
          "check_list s' = []" "timer_inv 1 s'"
          "\<And>u. timers s' u = (if u \<in> set (timer_list s1) \<and> due s1 u then map_option (fired (rt_tick s)) (timers s1 u) else timers s1 u)"
          "\<And>u. u \<in> set (timer_list s') \<longleftrightarrow> u \<in> set (timer_list s1) \<and> (due s1 u \<longrightarrow> (\<exists>tm. timers s1 u = Some tm \<and> periodic tm))"
        unfolding log s1(2) by blast
      have not_due: "periodic tm \<Longrightarrow> \<not> due s1 t" using pos by (simp add: due_def)
      have "timer_check_loop run s = Some (Inr (filter (due s) (timer_list s), s'))"
        using Cons tm True expired_left [OF tm win] s1(1) s'(1)
        by (subst timer_check_loop.simps) (simp add: due_def [symmetric])
      moreover have "timers s' u = (if u \<in> set (timer_list s) \<and> due s u then map_option (fired (rt_tick s)) (timers s u) else timers s u)" for u
        using True t tm not_due due1 [of u] s'(5) [of u] by (auto simp: Cons set1 s1(4) split: if_splits)
      moreover have "u \<in> set (timer_list s') \<longleftrightarrow> u \<in> set (timer_list s) \<and> (due s u \<longrightarrow> (\<exists>tm. timers s u = Some tm \<and> periodic tm))" for u
        using True t tm not_due due1 [of u] s'(6) [of u] by (auto simp: Cons set1 s1(4) split: if_splits)
      ultimately show ?thesis using s'(2-4) by blast
    qed
  qed
qed

subsection \<open>Ticks\<close>

lemma sint_of_int: "- 2147483648 \<le> x \<Longrightarrow> x < 2147483648 \<Longrightarrow> sint (word_of_int x :: 32 word) = x"
  by (simp add: sint_32 uint_32_of_int mod_32)

lemma ticks_left_tick:
  assumes "due_tick s1 t = due_tick s t" "rt_tick s1 = rt_tick s + 1" "in_window (ticks_left s t)" "0 \<le> ticks_left s t"
  shows "ticks_left s1 t = ticks_left s t - 1"
proof -
  let ?d = "ticks_left s t"
  have range: "- 2147483648 \<le> ?d - 1" "?d - 1 < 2147483648" using assms(3,4) by (simp_all add: in_window_def)
  have "due_tick s1 t - rt_tick s1 = (due_tick s t - rt_tick s) - 1" by (simp add: assms(1,2))
  also have "due_tick s t - rt_tick s = word_of_int ?d" by (simp add: ticks_left_def)
  also have "word_of_int ?d - 1 = (word_of_int (?d - 1) :: tick)" by (simp add: wi_hom_sub [symmetric])
  finally have "ticks_left s1 t = sint (word_of_int (?d - 1) :: tick)" by (simp only: ticks_left_def)
  then show ?thesis by (simp only: sint_of_int [OF range])
qed

lemma sorted_pred: "sorted xs \<Longrightarrow> sorted (map (\<lambda>d. d - 1 :: int) xs)"
  by (induction xs) auto

text \<open>The state in which the loop starts.\<close>

lemma tick_increase_eq:
  obtains over s1 where
    "rt_tick_increase run s = map_option (\<lambda>r. bindR r (\<lambda>(ts, s'). Inr (over, ts, s'))) (timer_check_loop run s1)"
    and "timers s1 = timers s" "timer_list s1 = timer_list s" "check_list s1 = []" "rt_tick s1 = rt_tick s + 1"
proof -
  define s0 where "s0 = s\<lparr>rt_tick := rt_tick s + 1, remaining_tick := remaining_tick s - 1\<rparr>"
  show thesis
    by (rule that [of "remaining_tick s0 = 0" "(if remaining_tick s0 = 0
        then s0\<lparr>remaining_tick := slice_tick s0, yield_stat := True\<rparr> else s0)\<lparr>check_list := []\<rparr>"])
      (simp_all add: rt_tick_increase_def rt_timer_check_def s0_def Let_def)
qed

lemma tick_passes:
  assumes inv: "timer_inv 0 s" and s1: "timers s1 = timers s" "timer_list s1 = timer_list s" "check_list s1 = []"
    and tick: "rt_tick s1 = rt_tick s + 1"
  shows "timer_inv (- 1) s1"
    and "t \<in> set (timer_list s) \<Longrightarrow> ticks_left s1 t = ticks_left s t - 1"
proof -
  have left: "ticks_left s1 t = ticks_left s t - 1" if "t \<in> set (timer_list s)" for t
    by (rule ticks_left_tick) (use timer_invD(3,6) [OF inv that] s1(1) tick in \<open>simp_all add: due_tick_def\<close>)
  then show "t \<in> set (timer_list s) \<Longrightarrow> ticks_left s1 t = ticks_left s t - 1" .
  have "map (ticks_left s1) (timer_list s) = map (\<lambda>d. d - 1) (map (ticks_left s) (timer_list s))" using left by simp
  moreover have "sorted (map (\<lambda>d. d - 1) (map (ticks_left s) (timer_list s)))"
    by (rule sorted_pred [OF timer_invD(2) [OF inv]])
  ultimately have sorted: "sorted (map (ticks_left s1) (timer_list s))" by (simp only:)
  have "in_window (ticks_left s1 t) \<and> - 1 \<le> ticks_left s1 t" if "t \<in> set (timer_list s)" for t
    using left [OF that] timer_invD(3,6) [OF inv that] by (simp add: in_window_def)
  then show "timer_inv (- 1) s1"
    unfolding timer_inv_def using s1 sorted timer_invD(1,4,5) [OF inv] by simp
qed

text \<open>A tick with any timeout functions: when it returns, what is in the list is in order, and not due.\<close>

lemma tick_inv:
  assumes "rt_tick_increase run s = Some (Inr (over, ts, s'))" and inv: "timer_inv 0 s" and "timeouts_call run"
  shows "timer_inv 1 s'"
proof -
  obtain over1 s1 where eq: "rt_tick_increase run s =
      map_option (\<lambda>r. bindR r (\<lambda>(ts, s'). Inr (over1, ts, s'))) (timer_check_loop run s1)"
    and s1: "timers s1 = timers s" "timer_list s1 = timer_list s" "check_list s1 = []" "rt_tick s1 = rt_tick s + 1"
    by (rule tick_increase_eq)
  have run: "timer_check_loop run s1 = Some (Inr (ts, s'))" using assms(1) eq by (auto simp: bindR_eq_Inr)
  show ?thesis
    using timer_check_loop_inv [OF run refl assms(3) tick_passes(1) [OF inv s1]] by simp
qed

text \<open>A tick with timeout functions that leave the timers alone.\<close>

lemma tick_leaves:
  assumes inv: "timer_inv 0 s" and run: "leaves_timers run" and zero: "no_zero_period s"
  obtains over s' where
    "rt_tick_increase run s = Some (Inr (over, filter (\<lambda>t. ticks_left s t \<le> 1) (timer_list s), s'))"
    and "timer_inv 1 s'" and "no_zero_period s'" and "rt_tick s' = rt_tick s + 1"
    and "\<forall>t. timers s' t = (if t \<in> set (timer_list s) \<and> ticks_left s t \<le> 1
      then map_option (fired (rt_tick s + 1)) (timers s t) else timers s t)"
    and "\<forall>t. t \<in> set (timer_list s') \<longleftrightarrow>
      t \<in> set (timer_list s) \<and> (ticks_left s t \<le> 1 \<longrightarrow> (\<exists>tm. timers s t = Some tm \<and> periodic tm))"
proof -
  obtain over s1 where eq: "rt_tick_increase run s =
      map_option (\<lambda>r. bindR r (\<lambda>(ts, s'). Inr (over, ts, s'))) (timer_check_loop run s1)"
    and s1: "timers s1 = timers s" "timer_list s1 = timer_list s" "check_list s1 = []" "rt_tick s1 = rt_tick s + 1"
    by (rule tick_increase_eq)
  have due: "due s1 t \<longleftrightarrow> ticks_left s t \<le> 1" if "t \<in> set (timer_list s)" for t
    using tick_passes(2) [OF inv s1 that] by (simp add: due_def)
  then have log: "filter (due s1) (timer_list s1) = filter (\<lambda>t. ticks_left s t \<le> 1) (timer_list s)"
    by (auto simp: s1 intro: filter_cong)
  have "no_zero_period s1" using zero by (simp add: no_zero_period_def s1)
  from timer_check_leaves [OF tick_passes(1) [OF inv s1] s1(3) run this] obtain s' where
    s': "timer_check_loop run s1 = Some (Inr (filter (\<lambda>t. ticks_left s t \<le> 1) (timer_list s), s'))"
      "rt_tick s' = rt_tick s1" "timer_inv 1 s'"
      "\<And>t. timers s' t = (if t \<in> set (timer_list s) \<and> due s1 t then map_option (fired (rt_tick s1)) (timers s t) else timers s t)"
      "\<And>t. t \<in> set (timer_list s') \<longleftrightarrow> t \<in> set (timer_list s) \<and> (due s1 t \<longrightarrow> (\<exists>tm. timers s t = Some tm \<and> periodic tm))"
    unfolding log unfolding s1 by blast
  have "no_zero_period s'"
    using zero unfolding no_zero_period_def s'(4) by (auto split: if_splits)
  then show thesis
    using s' due by (intro that [of over s']) (auto simp: eq s1)
qed

subsection \<open>When a timer fires\<close>

text \<open>The ticks, from 0, at which a timer fires that has \<open>d\<close> ticks left and \<open>n\<close> ticks in a period.\<close>

definition fires_at :: "nat \<Rightarrow> bool \<Rightarrow> nat \<Rightarrow> nat \<Rightarrow> bool" where
  "fires_at n p d i \<longleftrightarrow> (if p then d \<le> Suc i \<and> n dvd Suc i - d else Suc i = d)"

lemma fires_at_later:
  "1 < d \<Longrightarrow> \<not> fires_at n p d 0" "1 < d \<Longrightarrow> fires_at n p d (Suc i) \<longleftrightarrow> fires_at n p (d - 1) i"
  by (cases d; auto simp: fires_at_def)+

lemma fires_at_again: "0 < n \<Longrightarrow> fires_at n True 1 (Suc i) \<longleftrightarrow> fires_at n True n i"
  by (auto simp: fires_at_def dvd_imp_le dvd_minus_self)

lemma fires_at_started:
  "0 < n \<Longrightarrow> fires_at n p n i \<longleftrightarrow> (if p then n dvd Suc i else Suc i = n)"
  by (auto simp: fires_at_def dvd_imp_le dvd_minus_self)

definition fires :: "timer_sys \<Rightarrow> nat \<Rightarrow> rt_timer \<Rightarrow> nat \<Rightarrow> bool" where
  "fires s t tm i \<longleftrightarrow> t \<in> set (timer_list s) \<and> fires_at (unat (init_tick tm)) (periodic tm) (nat (ticks_left s t)) i"

lemma fires_tick:
  assumes inv: "timer_inv 0 s" and run: "leaves_timers run" and zero: "no_zero_period s"
    and tm: "timers s t = Some tm" and n: "init_tick tm \<noteq> 0"
    and left: "t \<in> set (timer_list s) \<Longrightarrow> 1 \<le> ticks_left s t"
  obtains over ts s' tm' where "rt_tick_increase run s = Some (Inr (over, ts, s'))"
    and "timer_inv 1 s'" and "no_zero_period s'" and "timers s' t = Some tm'" "init_tick tm' = init_tick tm"
    and "t \<in> set ts \<longleftrightarrow> fires s t tm 0" and "\<And>i. fires s t tm (Suc i) \<longleftrightarrow> fires s' t tm' i"
proof -
  obtain over s' where s1: "rt_tick_increase run s = Some (Inr (over, filter (\<lambda>t. ticks_left s t \<le> 1) (timer_list s), s'))"
    "timer_inv 1 s'" "no_zero_period s'" "rt_tick s' = rt_tick s + 1"
    and all: "\<forall>t. timers s' t = (if t \<in> set (timer_list s) \<and> ticks_left s t \<le> 1
      then map_option (fired (rt_tick s + 1)) (timers s t) else timers s t)"
    "\<forall>t. t \<in> set (timer_list s') \<longleftrightarrow>
      t \<in> set (timer_list s) \<and> (ticks_left s t \<le> 1 \<longrightarrow> (\<exists>tm. timers s t = Some tm \<and> periodic tm))"
    by (rule tick_leaves [OF inv run zero])
  note s' = s1 all(1) [THEN spec, of t, unfolded tm, simplified] all(2) [THEN spec, of t, unfolded tm, simplified]
  have pos: "0 < unat (init_tick tm)" using n by (simp add: unat_gt_0)
  note small = small_tick [OF timer_invD(5) [OF inv tm]]
  consider "t \<notin> set (timer_list s)" | "t \<in> set (timer_list s)" "ticks_left s t = 1" | "t \<in> set (timer_list s)" "1 < ticks_left s t"
    using left by fastforce
  then show thesis
  proof cases
    case 1
    then show ?thesis using s' tm by (intro that [OF s'(1-3)]) (auto simp: fires_def)
  next
    case 2
    have "nat (ticks_left s' t) = unat (init_tick tm)" if "periodic tm"
      using 2 that tm small(1) by (simp add: ticks_left_def due_tick_def s'(4,5) fired_def)
    then show ?thesis using s' tm 2 fires_at_again [OF pos]
      by (intro that [OF s'(1-3), of "fired (rt_tick s + 1) tm"]) (auto simp: fires_def, auto simp: fires_at_def)
  next
    case 3
    have "ticks_left s' t = ticks_left s t - 1"
      by (rule ticks_left_tick) (use 3 tm s'(4,5) timer_invD(3) [OF inv 3(1)] in \<open>simp_all add: due_tick_def\<close>)
    then have "nat (ticks_left s' t) = nat (ticks_left s t) - 1" by simp
    then show ?thesis using s' tm 3 fires_at_later [of "nat (ticks_left s t)" "unat (init_tick tm)" "periodic tm"]
      by (intro that [OF s'(1-3)]) (auto simp: fires_def)
  qed
qed

lemma run_ticks_fires:
  assumes "timer_inv 0 s" and "leaves_timers run" and "no_zero_period s"
    and "timers s t = Some tm" and "init_tick tm \<noteq> 0" and "t \<in> set (timer_list s) \<Longrightarrow> 1 \<le> ticks_left s t"
  shows "\<exists>logs s'. run_ticks run k s = Some (Inr (logs, s')) \<and> length logs = k \<and>
    (\<forall>i < k. t \<in> set (logs ! i) \<longleftrightarrow> fires s t tm i)"
  using assms
proof (induction k arbitrary: s tm)
  case (Suc k)
  obtain over ts s1 tm1 where s1: "rt_tick_increase run s = Some (Inr (over, ts, s1))"
      "timer_inv 1 s1" "no_zero_period s1" "timers s1 t = Some tm1" "init_tick tm1 = init_tick tm"
      "t \<in> set ts \<longleftrightarrow> fires s t tm 0" "\<And>i. fires s t tm (Suc i) \<longleftrightarrow> fires s1 t tm1 i"
    using fires_tick [OF Suc.prems] by metis
  have "\<exists>logs s'. run_ticks run k s1 = Some (Inr (logs, s')) \<and> length logs = k \<and>
      (\<forall>i < k. t \<in> set (logs ! i) \<longleftrightarrow> fires s1 t tm1 i)"
    by (rule Suc.IH) (use Suc.prems s1 timer_inv_mono [OF s1(2)] timer_invD(6) [OF s1(2)] in simp_all)
  then obtain logs s' where "run_ticks run k s1 = Some (Inr (logs, s'))" "length logs = k"
      "\<And>i. i < k \<Longrightarrow> t \<in> set (logs ! i) \<longleftrightarrow> fires s1 t tm1 i"
    by blast
  then show ?case using s1(1,6,7)
    by (intro exI [of _ "ts # logs"] exI [of _ s']) (auto simp: less_Suc_eq_0_disj)
qed simp

subsection \<open>Properties\<close>

text \<open>The states that the system can reach.\<close>

inductive timer_reach :: "timeout_code \<Rightarrow> timer_sys \<Rightarrow> bool" for run where
  reach_boot: "timers s = (\<lambda>_. None) \<Longrightarrow> check_list s = [] \<Longrightarrow> timer_reach run (rt_system_timer_init s)"
| reach_call: "timer_reach run s \<Longrightarrow> timer_call s s' \<Longrightarrow> timer_reach run s'"
| reach_tick: "timer_reach run s \<Longrightarrow> rt_tick_increase run s = Some (Inr (over, ts, s')) \<Longrightarrow> timer_reach run s'"

lemma reach_inv: "timer_reach run s \<Longrightarrow> timeouts_call run \<Longrightarrow> timer_inv 0 s"
proof (induction rule: timer_reach.induct)
  case (reach_boot s)
  then show ?case by (simp add: timer_inv_def rt_system_timer_init_def)
next
  case (reach_call s s')
  then show ?case using timer_call_inv by simp
next
  case (reach_tick s over ts s')
  then show ?case using tick_inv timer_inv_mono by fastforce
qed

text \<open>The example: a periodic timer 1 of two ticks and a one-shot timer 2 of three.\<close>

definition boot_timers :: timer_sys where
  "boot_timers = rt_system_timer_init \<lparr>timers = \<lambda>_. None, timer_list = [], check_list = [], random_nr = 0,
     rt_tick = 0xffffffff, remaining_tick = 20, slice_tick = 20, yield_stat = False\<rparr>"

definition idle_code :: timeout_code where
  "idle_code f p s = Inr s"

definition two_timers :: timer_sys where
  "two_timers = timer_init 2 True 10 0 3 0 (timer_init 1 True 10 0 2 RT_TIMER_FLAG_PERIODIC boot_timers)"

lemma idle_code_facts: "leaves_timers idle_code" "timeouts_call idle_code"
  by (auto simp: leaves_timers_def timeouts_call_def idle_code_def)

lemma reach_init:
  assumes "timer_reach run s" and "timers s t = None" and "time < 0x7fffffff"
  shows "timer_reach run (timer_init t True f param time fl s)"
  by (rule reach_call [OF assms(1) call_init [of t "Some f" param time fl]])
    (use assms(2,3) in \<open>simp add: rt_timer_init_def not_le\<close>)

lemma two_timers_reach: "timer_reach idle_code two_timers"
proof -
  have "timer_reach idle_code boot_timers" unfolding boot_timers_def by (rule reach_boot) simp_all
  then show ?thesis unfolding two_timers_def
    by (intro reach_init) (simp_all add: timer_init_def boot_timers_def rt_system_timer_init_def)
qed

text \<open>C35: Whatever the client and the timeout functions call, and however the clock wraps, the active timers are
  kept in the order in which they are due, each of them is an active timer, and none is overdue between two
  ticks: the head of the list is the next timer.
\<close>

theorem timers_in_order:
  assumes "timer_reach run s" and "timeouts_call run"
  shows "sorted (map (ticks_left s) (timer_list s)) \<and> distinct (timer_list s) \<and>
    (\<forall>t \<in> set (timer_list s). 0 \<le> ticks_left s t \<and> (\<exists>tm. timers s t = Some tm \<and> activated tm)) \<and>
    rt_timer_next_timeout_tick s =
      (case timer_list s of [] \<Rightarrow> RT_TICK_MAX | t # _ \<Rightarrow> rt_tick s + word_of_int (ticks_left s t))"
  using reach_inv [OF assms]
  by (auto simp: timer_inv_def rt_timer_next_timeout_tick_def timer_list_next_timeout_def ticks_left_def split: list.split)

theorem timers_in_order_witness:
  "sorted (map (ticks_left two_timers) (timer_list two_timers)) \<and> distinct (timer_list two_timers)"
  using timers_in_order [OF two_timers_reach idle_code_facts(2)] by blast

text \<open>
  Starting a timer of \<open>n\<close> ticks puts it behind the timers that are due within \<open>n\<close> ticks, those of the
  same tick included, and in front of the later ones.
\<close>

theorem timer_start_stable:
  assumes "timer_reach run s" and "timeouts_call run" and "timers s t = Some tm" and "t \<notin> set (timer_list s)"
  shows "map_option timer_list (case rt_timer_start t s of Inr s' \<Rightarrow> Some s' | Inl _ \<Rightarrow> None) =
    Some (filter (\<lambda>u. ticks_left s u \<le> uint (init_tick tm)) (timer_list s) @
      t # filter (\<lambda>u. uint (init_tick tm) < ticks_left s u) (timer_list s))"
proof -
  have all: "removeAll t (timer_list s) = timer_list s" using assms(4) by (simp add: removeAll_id)
  show ?thesis
    by (rule timer_start_result [OF reach_inv [OF assms(1,2)] assms(3)]) (simp add: all)
qed

theorem timer_start_stable_witness:
  "\<exists>t tm. timers two_timers t = Some tm \<and> init_tick tm = 3 \<and>
    map_option timer_list (case rt_timer_start t two_timers of Inr s' \<Rightarrow> Some s' | Inl _ \<Rightarrow> None) = Some [t]"
proof (intro exI conjI)
  let ?tm = "deactivate \<lparr>flag = 0, object_static = True, timeout_func = 10, parameter = 0, init_tick = 3, timeout_tick = 0\<rparr>"
  show tm: "timers two_timers 2 = Some ?tm" by (simp add: two_timers_def timer_init_def)
  have "timer_list two_timers = []"
    by (simp add: two_timers_def timer_init_def boot_timers_def rt_system_timer_init_def)
  then show "map_option timer_list (case rt_timer_start 2 two_timers of Inr s' \<Rightarrow> Some s' | Inl _ \<Rightarrow> None) = Some [2]"
    using timer_start_stable [OF two_timers_reach idle_code_facts(2) tm] by simp
qed simp

text \<open>C36: A timer of \<open>n\<close> ticks, \<open>0 < n\<close>, that is started when the other timers are whatever the client made them
  (but no periodic timer has 0 ticks), with timeout functions that leave the timers alone: for any number of
  ticks after that every tick returns, and the timer fires at the \<open>n\<close>-th tick and never again if it is a
  one-shot timer, at the ticks \<open>n\<close>, \<open>2n\<close>, \<open>3n\<close>, and so on, and no others if it is periodic.
\<close>

theorem timer_fires_on_time:
  assumes reach: "timer_reach run s" and code: "leaves_timers run" "timeouts_call run"
    and zero: "no_zero_period s" and tm: "timers s t = Some tm" and n: "init_tick tm \<noteq> 0"
    and start: "rt_timer_start t s = Inr s0"
  shows "\<exists>logs s'. run_ticks run k s0 = Some (Inr (logs, s')) \<and> length logs = k \<and>
    (\<forall>i < k. t \<in> set (logs ! i) \<longleftrightarrow>
      (if periodic tm then unat (init_tick tm) dvd Suc i else Suc i = unat (init_tick tm)))"
proof -
  have inv: "timer_inv 0 s" by (rule reach_inv [OF reach code(2)])
  note small = small_tick [OF timer_invD(5) [OF inv tm]]
  have pos: "0 < unat (init_tick tm)" using n by (simp add: unat_gt_0)
  obtain s1 where s1: "rt_timer_start t s = Inr s1" "rt_tick s1 = rt_tick s"
    "timers s1 = (timers s)(t \<mapsto> restarted (rt_tick s) tm)" "t \<in> set (timer_list s1)"
    by (rule timer_start_result [OF inv tm]) auto
  then have s0: "s1 = s0" using start by simp
  have tm0: "timers s0 t = Some (restarted (rt_tick s) tm)" using s1(3) by (simp add: s0)
  have left: "ticks_left s0 t = uint (init_tick tm)"
    using s1(2) tm0 small(1) by (simp add: s0 ticks_left_def due_tick_def)
  have zero0: "no_zero_period s0" using zero tm s1(3) unfolding s0 no_zero_period_def by (auto split: if_splits)
  have "fires s0 t (restarted (rt_tick s) tm) i \<longleftrightarrow>
      (if periodic tm then unat (init_tick tm) dvd Suc i else Suc i = unat (init_tick tm))" for i
    using s1(4) fires_at_started [OF pos, of "periodic tm" i] by (simp add: fires_def left s0)
  moreover have "1 \<le> ticks_left s0 t" using pos by (simp add: left unat_gt_0 word_uint_eq_iff) (metis int_one_le_iff_zero_less uint_ge_0 less_le)
  ultimately show ?thesis
    using run_ticks_fires [OF timer_start_inv [OF inv _ start] code(1) zero0 tm0, of k] n by simp
qed

theorem timer_fires_on_time_witness:
  "\<exists>s0 logs s'. rt_timer_start 1 two_timers = Inr s0 \<and> run_ticks idle_code 5 s0 = Some (Inr (logs, s')) \<and>
    1 \<notin> set (logs ! 0) \<and> 1 \<in> set (logs ! 1) \<and> 1 \<notin> set (logs ! 2) \<and> 1 \<in> set (logs ! 3)"
proof -
  let ?tm = "deactivate \<lparr>flag = RT_TIMER_FLAG_PERIODIC, object_static = True, timeout_func = 10, parameter = 0,
    init_tick = 2, timeout_tick = 0\<rparr>"
  have tm: "timers two_timers 1 = Some ?tm" by (simp add: two_timers_def timer_init_def)
  have periodic: "periodic ?tm" by (simp only: flag_ops) (simp add: periodic_def RT_TIMER_FLAG_PERIODIC_def)
  have zero: "no_zero_period two_timers"
    by (auto simp: no_zero_period_def two_timers_def timer_init_def boot_timers_def rt_system_timer_init_def split: if_splits)
  obtain s0 where s0: "rt_timer_start 1 two_timers = Inr s0" using start_some [OF tm] by blast
  obtain logs s' where run: "run_ticks idle_code 5 s0 = Some (Inr (logs, s'))"
      and fire: "\<And>i. i < 5 \<Longrightarrow> 1 \<in> set (logs ! i) \<longleftrightarrow> 2 dvd Suc i"
    using timer_fires_on_time [OF two_timers_reach idle_code_facts zero tm _ s0, of 5] periodic by auto
  show ?thesis
    by (intro exI conjI, rule s0, rule run) (simp_all add: fire [simplified])
qed

text \<open>A periodic timer of 0 ticks is started again as due, for ever: the next tick does not return.\<close>

lemma zero_period_stuck:
  assumes "timer_check_loop run s = Some r" and "timer_inv (- 1) s" and "check_list s = []" and "leaves_timers run"
    and "t \<in> set (timer_list s)" and "timers s t = Some tm" and "periodic tm" and "init_tick tm = 0" and "due s t"
  shows False
  using assms
proof (induction arbitrary: tm rule: timer_check_loop.raw_induct [rotated 1, consumes 1, case_names step])
  case (step loop run s r)
  note inv = \<open>timer_inv (- 1) s\<close>
  obtain u us where us: "timer_list s = u # us" using step.prems(4) by (cases "timer_list s") auto
  obtain um where um: "timers s u = Some um" using timer_invD(4) [OF inv, of u] us by auto
  have "ticks_left s u \<le> ticks_left s t"
    using sorted_head [of "ticks_left s" u us t] timer_invD(2) [OF inv] step.prems(4) us by simp
  then have due: "ticks_left s u \<le> 0" using step.prems(8) by (simp add: due_def)
  have win: "in_window (ticks_left s u)" using timer_invD(3) [OF inv, of u] us by simp
  obtain s1 where s1: "timer_fire run u um s = Inr s1" "rt_tick s1 = rt_tick s" "check_list s1 = []"
      "timers s1 = (timers s)(u \<mapsto> fired (rt_tick s) um)" "timer_inv (- 1) s1"
      and list: "timer_list s1 = (if periodic um
        then filter (\<lambda>v. ticks_left s v \<le> uint (init_tick um)) us @ u # filter (\<lambda>v. uint (init_tick um) < ticks_left s v) us
        else us)"
    by (rule timer_fire_passive [OF inv _ step.prems(2,3) us um]) simp_all
  then obtain r1 where r1: "loop run s1 = Some r1"
    using step.hyps us um due expired_left [OF um win] by (auto simp: bind_eq_Some_conv)
  have "ticks_left s1 t \<le> 0"
    using step.prems(5-8) um
    by (cases "u = t") (auto simp: ticks_left_def due_tick_def s1(2,4) fired_def due_def)
  moreover have "t \<in> set (timer_list s1)" using step.prems(4-6) us um by (auto simp: list)
  moreover obtain tm1 where "timers s1 t = Some tm1" "periodic tm1" "init_tick tm1 = 0"
    using step.prems(5-7) um by (cases "u = t") (auto simp: s1(4))
  ultimately show False
    using step.IH [OF r1 s1(5,3) step.prems(3)] by (simp add: due_def)
qed

text \<open>
  Nothing keeps a client from a periodic timer of 0 ticks, which the code starts again as due: once it is
  started, the next tick interrupt does not return.
\<close>

theorem timer_zero_period:
  assumes reach: "timer_reach run s" and code: "leaves_timers run" "timeouts_call run"
    and tm: "timers s t = Some tm" "periodic tm" "init_tick tm = 0" and start: "rt_timer_start t s = Inr s0"
  shows "rt_tick_increase run s0 = None"
proof -
  have inv: "timer_inv 0 s" by (rule reach_inv [OF reach code(2)])
  obtain s1 where s1: "rt_timer_start t s = Inr s1" "rt_tick s1 = rt_tick s"
    "timers s1 = (timers s)(t \<mapsto> restarted (rt_tick s) tm)" "t \<in> set (timer_list s1)"
    by (rule timer_start_result [OF inv tm(1)]) auto
  then have s0: "s1 = s0" using start by simp
  have inv0: "timer_inv 0 s0" by (rule timer_start_inv [OF inv _ start]) simp
  have left: "ticks_left s0 t = 0" using s1(2,3) tm(3) by (simp add: s0 ticks_left_def due_tick_def)
  obtain over s2 where eq: "rt_tick_increase run s0 =
      map_option (\<lambda>r. bindR r (\<lambda>(ts, s'). Inr (over, ts, s'))) (timer_check_loop run s2)"
    and s2: "timers s2 = timers s0" "timer_list s2 = timer_list s0" "check_list s2 = []" "rt_tick s2 = rt_tick s0 + 1"
    by (rule tick_increase_eq)
  have t: "t \<in> set (timer_list s0)" using s1(4) by (simp add: s0)
  have "timer_check_loop run s2 \<noteq> Some r" for r
    using zero_period_stuck [where run = run and s = s2 and r = r and t = t and tm = "restarted (rt_tick s) tm"] tick_passes(1) [OF inv0 s2] tick_passes(2) [OF inv0 s2 t] t s1(3) tm code(1) s2 left
    by (auto simp: due_def s0)
  then show ?thesis by (simp add: eq) (metis option.exhaust)
qed

definition zero_timer :: timer_sys where
  "zero_timer = timer_init 1 True 10 0 0 RT_TIMER_FLAG_PERIODIC boot_timers"

theorem timer_zero_period_witness:
  "\<exists>s0. rt_timer_start 1 zero_timer = Inr s0 \<and> rt_tick_increase idle_code s0 = None"
proof -
  let ?tm = "deactivate \<lparr>flag = RT_TIMER_FLAG_PERIODIC, object_static = True, timeout_func = 10, parameter = 0,
    init_tick = 0, timeout_tick = 0\<rparr>"
  have tm: "timers zero_timer 1 = Some ?tm" by (simp add: zero_timer_def timer_init_def)
  have periodic: "periodic ?tm" by (simp only: flag_ops) (simp add: periodic_def RT_TIMER_FLAG_PERIODIC_def)
  have reach: "timer_reach idle_code zero_timer"
    unfolding zero_timer_def boot_timers_def
    by (intro reach_init reach_boot) (simp_all add: rt_system_timer_init_def)
  obtain s0 where s0: "rt_timer_start 1 zero_timer = Inr s0" using start_some [OF tm] by blast
  show ?thesis
    using timer_zero_period [OF reach idle_code_facts tm periodic _ s0] s0 by auto
qed

text \<open>The ticks of a time in milliseconds are rounded up, so that a wait is never too short.\<close>

lemma tick_from_ms:
  assumes "0 \<le> ms" "ms \<le> INT_MAX" "0 < tps" "tps \<le> 1000"
  shows "uint (rt_tick_from_millisecond tps ms) = (tps * ms + 999) div 1000"
proof -
  let ?q = "ms div 1000" and ?r = "ms mod 1000"
  have ms: "ms = 1000 * ?q + ?r" by simp
  have "tps * ms + 999 = (tps * ?r + 999) + 1000 * (tps * ?q)" by (subst ms) (simp only: algebra_simps)
  then have eq: "(tps * ms + 999) div 1000 = tps * ?q + (tps * ?r + 999) div 1000" by simp
  have "tps * ms \<le> 1000 * INT_MAX" using assms by (intro mult_mono) simp_all
  then have "(tps * ms + 999) div 1000 \<le> (1000 * INT_MAX + 999) div 1000" by (intro zdiv_mono1) simp_all
  then have "(tps * ms + 999) div 1000 < 4294967296" by simp
  moreover have "0 \<le> tps * ms" using assms by simp
  then have "0 \<le> (tps * ms + 999) div 1000" by simp
  moreover have "rt_tick_from_millisecond tps ms = word_of_int ((tps * ms + 999) div 1000)"
    using assms(1) by (simp only: rt_tick_from_millisecond_def eq wi_hom_add) simp
  ultimately show ?thesis by (simp only: uint_32_of_int) simp
qed

subsection \<open>What the interface does not keep\<close>

text \<open>\<open>GET_STATE\<close> writes the state and then runs into the next case, which overwrites it with a tick.\<close>

lemma control_get_state:
  "timers s t = Some tm \<Longrightarrow>
    rt_timer_control t GET_STATE arg s = Inr (timeout_tick tm, s) \<and>
    rt_timer_control t GET_STATE arg s = rt_timer_control t GET_REMAIN_TIME arg s"
  by (simp add: rt_timer_control_def Let_def)

lemma control_get_state_witness:
  "\<exists>tm. timers two_timers 1 = Some tm \<and> rt_timer_control 1 GET_STATE 7 two_timers = Inr (timeout_tick tm, two_timers)"
  using control_get_state [of two_timers 1] by (simp add: two_timers_def timer_init_def)

text \<open>
  \<open>SET_TIME\<close> takes a time that \<open>rt_timer_init\<close> refuses, and the timer with the longest time fires at the next
  tick.
\<close>

definition far_timer :: timer_sys where
  "far_timer = (case rt_timer_control 2 SET_TIME 0xfffffff0 two_timers of Inr (v, s) \<Rightarrow>
     (case rt_timer_start 2 s of Inr s' \<Rightarrow> s' | Inl _ \<Rightarrow> s) | Inl _ \<Rightarrow> two_timers)"

text \<open>
  A timeout function that turns its periodic timer into a one-shot timer: the timer is not started again but
  stays marked as active, and is in no list.
\<close>

definition once_code :: timeout_code where
  "once_code f p s = (case rt_timer_control 1 SET_ONESHOT 0 s of Inr (v, s') \<Rightarrow> Inr s' | Inl e \<Rightarrow> Inl e)"

definition active_orphan :: "timer_sys \<Rightarrow> nat \<Rightarrow> bool" where
  "active_orphan s t \<longleftrightarrow> t \<notin> set (timer_list s) \<and> (case timers s t of Some tm \<Rightarrow> activated tm | None \<Rightarrow> False)"

text \<open>What a run has fired, and what it leaves.\<close>

definition tick_log :: "timeout_code \<Rightarrow> nat \<Rightarrow> timer_sys \<Rightarrow> nat list list option" where
  "tick_log run k s = (case run_ticks run k s of Some (Inr (tss, s')) \<Rightarrow> Some tss | _ \<Rightarrow> None)"

lemma far_timer_fires: "tick_log idle_code 1 far_timer = Some [[2]]"
  by code_simp

lemma periodic_to_oneshot:
  "case rt_timer_start 1 two_timers of Inr s0 \<Rightarrow>
    (case run_ticks once_code 2 s0 of Some (Inr (tss, s)) \<Rightarrow> tss = [[], [1]] \<and> active_orphan s 1 | _ \<Rightarrow> False) | _ \<Rightarrow> False"
  by code_simp

end
