(* ===== verification/Rt_Scheduler.thy ===== *)
theory Rt_Scheduler
  imports Rt_Mutex Rt_Timer "HOL-Library.Word"
begin

unbundle bit_operations_syntax

text \<open>
  The scheduler (\<open>scheduler.c\<close>, for one processor and 32 priorities), the states of threads in \<open>thread.c\<close>, and \<open>__rt_ffs\<close>
  of \<open>kservice.c\<close> with its table.  A ready thread is in the list of its priority; a bit of the priority group tells
  for each list whether it has threads.  The current thread is in no list.

  The lists of kernel objects, in which suspended threads may be, are not part of the state; \<open>th_timer\<close> is the time for
  which the timer of a thread was started, which \<open>Rt_Timer\<close> keeps.  What follows a switch of context is another thread's call.
\<close>

subsection \<open>The lowest bit of a word\<close>

definition lowest_bit_bitmap :: "nat list" where
  "lowest_bit_bitmap =
    [0, 0, 1, 0, 2, 0, 1, 0, 3, 0, 1, 0, 2, 0, 1, 0,
     4, 0, 1, 0, 2, 0, 1, 0, 3, 0, 1, 0, 2, 0, 1, 0,
     5, 0, 1, 0, 2, 0, 1, 0, 3, 0, 1, 0, 2, 0, 1, 0,
     4, 0, 1, 0, 2, 0, 1, 0, 3, 0, 1, 0, 2, 0, 1, 0,
     6, 0, 1, 0, 2, 0, 1, 0, 3, 0, 1, 0, 2, 0, 1, 0,
     4, 0, 1, 0, 2, 0, 1, 0, 3, 0, 1, 0, 2, 0, 1, 0,
     5, 0, 1, 0, 2, 0, 1, 0, 3, 0, 1, 0, 2, 0, 1, 0,
     4, 0, 1, 0, 2, 0, 1, 0, 3, 0, 1, 0, 2, 0, 1, 0,
     7, 0, 1, 0, 2, 0, 1, 0, 3, 0, 1, 0, 2, 0, 1, 0,
     4, 0, 1, 0, 2, 0, 1, 0, 3, 0, 1, 0, 2, 0, 1, 0,
     5, 0, 1, 0, 2, 0, 1, 0, 3, 0, 1, 0, 2, 0, 1, 0,
     4, 0, 1, 0, 2, 0, 1, 0, 3, 0, 1, 0, 2, 0, 1, 0,
     6, 0, 1, 0, 2, 0, 1, 0, 3, 0, 1, 0, 2, 0, 1, 0,
     4, 0, 1, 0, 2, 0, 1, 0, 3, 0, 1, 0, 2, 0, 1, 0,
     5, 0, 1, 0, 2, 0, 1, 0, 3, 0, 1, 0, 2, 0, 1, 0,
     4, 0, 1, 0, 2, 0, 1, 0, 3, 0, 1, 0, 2, 0, 1, 0]"

definition rt_ffs :: "32 word \<Rightarrow> nat" where
  "rt_ffs v =
     (if v = 0 then 0
      else if v AND 0xff \<noteq> 0 then lowest_bit_bitmap ! unat (v AND 0xff) + 1
      else if v AND 0xff00 \<noteq> 0 then lowest_bit_bitmap ! unat (drop_bit 8 (v AND 0xff00)) + 9
      else if v AND 0xff0000 \<noteq> 0 then lowest_bit_bitmap ! unat (drop_bit 16 (v AND 0xff0000)) + 17
      else lowest_bit_bitmap ! unat (drop_bit 24 (v AND 0xff000000)) + 25)"

fun lowest_bit :: "nat \<Rightarrow> nat" where
  "lowest_bit n = (if n = 0 \<or> odd n then 0 else Suc (lowest_bit (n div 2)))"

declare lowest_bit.simps [simp del]

lemma bitmap_lowest: "lowest_bit_bitmap = map lowest_bit [0..<256]"
  by code_simp

lemma lowest_bit_spec: "n \<noteq> 0 \<Longrightarrow> bit n (lowest_bit n) \<and> (\<forall>m<lowest_bit n. \<not> bit n m)"
proof (induction n rule: lowest_bit.induct)
  case (1 n)
  show ?case
  proof (cases "odd n")
    case False
    then have "n div 2 \<noteq> 0" using 1(2) by (auto elim: evenE)
    with 1 False have IH: "bit (n div 2) (lowest_bit (n div 2))" "\<forall>m<lowest_bit (n div 2). \<not> bit (n div 2) m" by auto
    have l: "lowest_bit n = Suc (lowest_bit (n div 2))" using False 1(2) by (simp add: lowest_bit.simps [of n])
    have "\<not> bit n m" if "m < lowest_bit n" for m
      using that IH(2) False l by (cases m) (auto simp: bit_0 bit_Suc)
    with IH(1) l show ?thesis by (simp add: bit_Suc)
  qed (simp add: lowest_bit.simps [of n] bit_0)
qed

lemma bitmap_byte:
  fixes x :: "32 word"
  assumes "x \<noteq> 0" and "\<And>n. bit x n \<Longrightarrow> n < 8"
  shows "lowest_bit_bitmap ! unat x < 8 \<and> bit x (lowest_bit_bitmap ! unat x) \<and>
    (\<forall>m<lowest_bit_bitmap ! unat x. \<not> bit x m)"
proof -
  have "take_bit 8 x = x" using assms(2) by (auto simp: bit_eq_iff bit_take_bit_iff)
  then have "unat x = take_bit 8 (unat x)" using unsigned_take_bit_eq [of 8 x] by simp
  moreover have "take_bit 8 (unat x) < 256" using take_bit_nat_less_exp [of 8 "unat x"] by simp
  ultimately have "unat x < 256" by metis
  then have b: "lowest_bit_bitmap ! unat x = lowest_bit (unat x)" by (simp add: bitmap_lowest)
  have u: "bit (unat x) n = bit x n" for n by (auto simp: bit_unsigned_iff dest: bit_imp_le_length)
  have "unat x \<noteq> 0" using assms(1) by (simp add: unat_eq_0)
  from lowest_bit_spec [OF this] show ?thesis using assms(2) by (auto simp: b u)
qed

lemma byte_masks:
  "(0xff :: 32 word) = push_bit 0 (mask 8)" "(0xff00 :: 32 word) = push_bit 8 (mask 8)"
  "(0xff0000 :: 32 word) = push_bit 16 (mask 8)" "(0xff000000 :: 32 word) = push_bit 24 (mask 8)"
  by (simp_all add: mask_eq_exp_minus_1 push_bit_eq_mult)

lemma bit_byte_mask:
  "k + 8 \<le> 32 \<Longrightarrow> bit (push_bit k (mask 8) :: 32 word) n \<longleftrightarrow> k \<le> n \<and> n < k + 8"
  by (auto simp: bit_push_bit_iff bit_mask_iff)

text \<open>One byte of a word, with the bytes below it empty.\<close>

lemma ffs_byte:
  fixes v mk :: "32 word"
  assumes mk: "mk = push_bit k (mask 8)" and "k + 8 \<le> 32"
    and "v AND mk \<noteq> 0" and below: "\<And>n. n < k \<Longrightarrow> \<not> bit v n"
  defines "j \<equiv> lowest_bit_bitmap ! unat (drop_bit k (v AND mk))"
  shows "k + j < 32 \<and> bit v (k + j) \<and> (\<forall>m<k + j. \<not> bit v m)"
proof -
  let ?x = "drop_bit k (v AND mk)"
  have x: "bit ?x n \<longleftrightarrow> bit v (k + n) \<and> n < 8" for n using assms(2) by (auto simp: bit_drop_bit_eq bit_and_iff mk bit_byte_mask)
  obtain n where "bit (v AND mk) n" using assms(3) by (auto simp: bit_eq_iff)
  then have "bit v (k + (n - k)) \<and> n - k < 8" using assms(2) by (auto simp: bit_and_iff mk bit_byte_mask)
  then have "bit ?x (n - k)" using x by blast
  then have "?x \<noteq> 0" by (metis bit_0_eq bot_apply bot_bool_def)
  with bitmap_byte [of ?x] x have j: "j < 8" "bit ?x j" "\<forall>m<j. \<not> bit ?x m" by (auto simp: j_def)
  have "\<not> bit v m" if "m < k + j" for m
  proof (cases "m < k")
    case False
    then have "\<not> bit ?x (m - k)" using j(3) that by auto
    then have "\<not> (bit v (k + (m - k)) \<and> m - k < 8)" using x [of "m - k"] by blast
    moreover have "m - k < 8" using that j(1) by linarith
    ultimately show ?thesis using False by simp
  qed (use below in blast)
  moreover have "bit v (k + j)" using j(2) x by blast
  ultimately show ?thesis using j(1) assms(2) by simp
qed

theorem ffs_lowest:
  assumes "v \<noteq> 0"
  shows "\<exists>n<32. rt_ffs v = Suc n \<and> bit v n \<and> (\<forall>m<n. \<not> bit v m)"
proof -
  have clear: "\<not> bit v n" if "v AND push_bit k (mask 8) = 0" "k \<le> n" "n < k + 8" "k + 8 \<le> 32" for n k
    using that by (metis bit_0_eq bit_and_iff bit_byte_mask bot_apply bot_bool_def)
  note zero = clear [of 0, folded byte_masks] clear [of 8, folded byte_masks] clear [of 16, folded byte_masks]
  note byte = ffs_byte [OF byte_masks(1), of v] ffs_byte [OF byte_masks(2), of v] ffs_byte [OF byte_masks(3), of v]
    ffs_byte [OF byte_masks(4), of v]
  consider "v AND 0xff \<noteq> 0" | "v AND 0xff = 0" "v AND 0xff00 \<noteq> 0"
    | "v AND 0xff = 0" "v AND 0xff00 = 0" "v AND 0xff0000 \<noteq> 0"
    | "v AND 0xff = 0" "v AND 0xff00 = 0" "v AND 0xff0000 = 0" by blast
  then show ?thesis
  proof cases
    case 1
    then show ?thesis using byte(1) assms by (auto simp: rt_ffs_def)
  next
    case 2
    then show ?thesis using byte(2) assms zero(1) by (auto simp: rt_ffs_def)
  next
    case 3
    have "\<not> bit v n" if "n < 16" for n using 3 zero(1,2) [of n] that by (cases "n < 8") auto
    then show ?thesis using byte(3) assms 3 by (auto simp: rt_ffs_def)
  next
    case 4
    have low: "\<not> bit v n" if "n < 24" for n
      using 4 zero [of n] that by (cases "n < 8"; cases "n < 16") auto
    obtain n where "bit v n" using assms by (auto simp: bit_eq_iff)
    moreover from this have "24 \<le> n" using low not_less by blast
    ultimately have "bit (v AND push_bit 24 (mask 8)) n"
      using bit_imp_le_length [of v n] by (auto simp: bit_and_iff bit_byte_mask)
    then have "v AND 0xff000000 \<noteq> 0" by (metis bit_0_eq bot_apply bot_bool_def byte_masks(4))
    then show ?thesis using byte(4) assms 4 low by (auto simp: rt_ffs_def)
  qed
qed

subsection \<open>Threads and their lists\<close>

definition RT_THREAD_PRIORITY_MAX :: nat where "RT_THREAD_PRIORITY_MAX = 32"
definition RT_THREAD_INIT :: "8 word" where "RT_THREAD_INIT = 0x00"
definition RT_THREAD_READY :: "8 word" where "RT_THREAD_READY = 0x01"
definition RT_THREAD_SUSPEND :: "8 word" where "RT_THREAD_SUSPEND = 0x02"
definition RT_THREAD_RUNNING :: "8 word" where "RT_THREAD_RUNNING = 0x03"
definition RT_THREAD_CLOSE :: "8 word" where "RT_THREAD_CLOSE = 0x04"
definition RT_THREAD_STAT_MASK :: "8 word" where "RT_THREAD_STAT_MASK = 0x07"
definition RT_THREAD_STAT_YIELD :: "8 word" where "RT_THREAD_STAT_YIELD = 0x08"

record rt_thread =
  th_stat :: "8 word"
  current_priority :: nat
  number_mask :: "32 word"
  th_init_tick :: "32 word"
  th_remaining_tick :: "32 word"
  th_error :: int
  th_timer :: "32 word option"

record scheduler =
  priority_table :: "nat \<Rightarrow> nat list"
  ready_group :: "32 word"
  lock_nest :: int
  current_thread :: "nat option"
  threads :: "nat \<Rightarrow> rt_thread"

definition stat_of :: "nat \<Rightarrow> scheduler \<Rightarrow> 8 word" where
  "stat_of t s = th_stat (threads s t) AND RT_THREAD_STAT_MASK"

definition on_thread :: "nat \<Rightarrow> (rt_thread \<Rightarrow> rt_thread) \<Rightarrow> scheduler \<Rightarrow> scheduler" where
  "on_thread t f s = s\<lparr>threads := (threads s)(t := f (threads s t))\<rparr>"

text \<open>\<open>thread->stat = stat | (thread->stat & ~RT_THREAD_STAT_MASK)\<close>\<close>

definition set_stat :: "nat \<Rightarrow> 8 word \<Rightarrow> scheduler \<Rightarrow> scheduler" where
  "set_stat t st = on_thread t (\<lambda>x. x\<lparr>th_stat := st OR (th_stat x AND NOT RT_THREAD_STAT_MASK)\<rparr>)"

text \<open>\<open>rt_list_remove(&(thread->tlist))\<close>\<close>

definition unlink :: "nat \<Rightarrow> scheduler \<Rightarrow> scheduler" where
  "unlink t s = s\<lparr>priority_table := (\<lambda>p. removeAll t (priority_table s p))\<rparr>"

definition rt_schedule_insert_thread :: "nat \<Rightarrow> scheduler \<Rightarrow> scheduler" where
  "rt_schedule_insert_thread t s =
     (if current_thread s = Some t then set_stat t RT_THREAD_RUNNING s
      else
        (let s1 = set_stat t RT_THREAD_READY s; p = current_priority (threads s1 t)
         in s1\<lparr>priority_table := (priority_table s1)(p := priority_table s1 p @ [t]),
              ready_group := ready_group s1 OR number_mask (threads s1 t)\<rparr>))"

definition rt_schedule_remove_thread :: "nat \<Rightarrow> scheduler \<Rightarrow> scheduler" where
  "rt_schedule_remove_thread t s =
     (let s1 = unlink t s
      in if priority_table s1 (current_priority (threads s1 t)) = []
         then s1\<lparr>ready_group := ready_group s1 AND NOT (number_mask (threads s1 t))\<rparr> else s1)"

text \<open>The index is \<open>- 1\<close> when no bit is set; the head of an empty list is no thread.\<close>

definition highest_thread :: "scheduler \<Rightarrow> (nat \<times> nat) result" where
  "highest_thread s =
     (case rt_ffs (ready_group s) of
        0 \<Rightarrow> Inl Out_of_bounds
      | Suc p \<Rightarrow> (case priority_table s p of [] \<Rightarrow> Inl Out_of_bounds | t # _ \<Rightarrow> Inr (p, t)))"

definition rt_system_scheduler_init :: "scheduler \<Rightarrow> scheduler" where
  "rt_system_scheduler_init s = s\<lparr>lock_nest := 0, priority_table := (\<lambda>p. []), ready_group := 0\<rparr>"

definition rt_system_scheduler_start :: "scheduler \<Rightarrow> scheduler result" where
  "rt_system_scheduler_start s =
     bindR (highest_thread s)
       (\<lambda>(p, t). Inr (on_thread t (\<lambda>x. x\<lparr>th_stat := RT_THREAD_RUNNING\<rparr>)
          (rt_schedule_remove_thread t (s\<lparr>current_thread := Some t\<rparr>))))"

text \<open>A running thread has used its yield up.\<close>

definition unyield :: "nat \<Rightarrow> scheduler \<Rightarrow> scheduler" where
  "unyield c s = (if stat_of c s = RT_THREAD_RUNNING
     then on_thread c (\<lambda>x. x\<lparr>th_stat := th_stat x AND NOT RT_THREAD_STAT_YIELD\<rparr>) s else s)"

definition rt_schedule :: "scheduler \<Rightarrow> scheduler result" where
  "rt_schedule s =
     (if lock_nest s \<noteq> 0 then Inr s
      else if ready_group s = 0 then Inr s
      else bindR (highest_thread s)
        (\<lambda>(p, t).
           case current_thread s of
             None \<Rightarrow> Inl Null_pointer
           | Some c \<Rightarrow>
               (let cur = threads s c;
                    running = (stat_of c s = RT_THREAD_RUNNING);
                    stays = running \<and> (current_priority cur < p \<or>
                      current_priority cur = p \<and> th_stat cur AND RT_THREAD_STAT_YIELD = 0);
                    s1 = unyield c s;
                    to_thread = (if stays then c else t)
                in if to_thread \<noteq> c then
                     (let s2 = s1\<lparr>current_thread := Some to_thread\<rparr>;
                          s3 = (if running \<and> \<not> stays then rt_schedule_insert_thread c s2 else s2)
                      in Inr (set_stat to_thread RT_THREAD_RUNNING (rt_schedule_remove_thread to_thread s3)))
                   else Inr (set_stat c RT_THREAD_RUNNING (rt_schedule_remove_thread c s1)))))"

text \<open>The counter is an \<open>rt_int16_t\<close>.\<close>

definition wrap16 :: "int \<Rightarrow> int" where
  "wrap16 n = (n + 2 ^ 15) mod 2 ^ 16 - 2 ^ 15"

definition rt_enter_critical :: "scheduler \<Rightarrow> scheduler" where
  "rt_enter_critical s = s\<lparr>lock_nest := wrap16 (lock_nest s + 1)\<rparr>"

definition rt_exit_critical :: "scheduler \<Rightarrow> scheduler result" where
  "rt_exit_critical s =
     (let s1 = s\<lparr>lock_nest := wrap16 (lock_nest s - 1)\<rparr>
      in if lock_nest s1 \<le> 0 then
           (let s2 = s1\<lparr>lock_nest := 0\<rparr> in if current_thread s2 \<noteq> None then rt_schedule s2 else Inr s2)
         else Inr s1)"

definition rt_critical_level :: "scheduler \<Rightarrow> nat" where
  "rt_critical_level s = nat (lock_nest s mod 2 ^ 16)"

subsection \<open>The states of a thread\<close>

definition thread_init :: "nat \<Rightarrow> nat \<Rightarrow> 32 word \<Rightarrow> scheduler \<Rightarrow> (int \<times> scheduler) result" where
  "thread_init t priority tick s =
     (if \<not> priority < RT_THREAD_PRIORITY_MAX then Inl Assert_failed
      else Inr (RT_EOK, on_thread t (\<lambda>x. \<lparr>th_stat = RT_THREAD_INIT, current_priority = priority, number_mask = 0,
        th_init_tick = tick, th_remaining_tick = tick, th_error = RT_EOK, th_timer = None\<rparr>) s))"

definition rt_thread_init :: "nat \<Rightarrow> nat \<Rightarrow> 32 word \<Rightarrow> scheduler \<Rightarrow> (int \<times> scheduler) result" where
  "rt_thread_init t priority tick s = thread_init t priority tick s"

text \<open>\<open>obj\<close> and \<open>stack\<close> tell whether there is memory for the object and the stack.\<close>

definition rt_thread_create :: "bool \<Rightarrow> bool \<Rightarrow> nat \<Rightarrow> nat \<Rightarrow> 32 word \<Rightarrow> scheduler \<Rightarrow> (nat option \<times> scheduler) result" where
  "rt_thread_create obj stack t priority tick s =
     (if \<not> obj \<or> \<not> stack then Inr (None, s)
      else bindR (thread_init t priority tick s) (\<lambda>(err, s1). Inr (Some t, s1)))"

definition rt_thread_resume :: "nat \<Rightarrow> scheduler \<Rightarrow> int \<times> scheduler" where
  "rt_thread_resume t s =
     (if stat_of t s \<noteq> RT_THREAD_SUSPEND then (- RT_ERROR, s)
      else (RT_EOK, rt_schedule_insert_thread t (on_thread t (\<lambda>x. x\<lparr>th_timer := None\<rparr>) (unlink t s))))"

definition rt_thread_startup :: "nat \<Rightarrow> scheduler \<Rightarrow> (int \<times> scheduler) result" where
  "rt_thread_startup t s =
     (if stat_of t s \<noteq> RT_THREAD_INIT then Inl Assert_failed
      else
        (let s1 = on_thread t (\<lambda>x. x\<lparr>number_mask := push_bit (current_priority x) 1,
                                     th_stat := RT_THREAD_SUSPEND\<rparr>) s;
             s2 = snd (rt_thread_resume t s1)
         in if current_thread s2 \<noteq> None then bindR (rt_schedule s2) (\<lambda>s3. Inr (RT_EOK, s3)) else Inr (RT_EOK, s2)))"

definition rt_thread_suspend :: "nat \<Rightarrow> scheduler \<Rightarrow> (int \<times> scheduler) result" where
  "rt_thread_suspend t s =
     (if current_thread s \<noteq> Some t then Inl Assert_failed
      else if stat_of t s \<noteq> RT_THREAD_READY \<and> stat_of t s \<noteq> RT_THREAD_RUNNING then Inr (- RT_ERROR, s)
      else Inr (RT_EOK, on_thread t (\<lambda>x. x\<lparr>th_timer := None\<rparr>)
             (set_stat t RT_THREAD_SUSPEND (rt_schedule_remove_thread t s))))"

text \<open>The current thread yields, or its time slice is used up: the part of \<open>rt_tick_increase\<close> before the timers.\<close>

definition rt_thread_yield :: "scheduler \<Rightarrow> scheduler result" where
  "rt_thread_yield s =
     (case current_thread s of
        None \<Rightarrow> Inl Null_pointer
      | Some c \<Rightarrow> rt_schedule (on_thread c (\<lambda>x. x\<lparr>th_remaining_tick := th_init_tick x,
                                  th_stat := th_stat x OR RT_THREAD_STAT_YIELD\<rparr>) s))"

definition time_slice :: "scheduler \<Rightarrow> scheduler result" where
  "time_slice s =
     (case current_thread s of
        None \<Rightarrow> Inl Null_pointer
      | Some c \<Rightarrow>
          (let s1 = on_thread c (\<lambda>x. x\<lparr>th_remaining_tick := th_remaining_tick x - 1\<rparr>) s
           in if th_remaining_tick (threads s1 c) = 0
              then rt_schedule (on_thread c (\<lambda>x. x\<lparr>th_remaining_tick := th_init_tick x,
                     th_stat := th_stat x OR RT_THREAD_STAT_YIELD\<rparr>) s1)
              else Inr s1))"

text \<open>\<open>rt_thread_sleep\<close> up to the switch, and what it returns when the thread comes back.  The thread suspends itself with its
  timer started.\<close>

definition suspend_for :: "nat \<Rightarrow> 32 word \<Rightarrow> scheduler \<Rightarrow> scheduler result" where
  "suspend_for c tick s =
     bindR (rt_thread_suspend c s) (\<lambda>(err, s1). rt_schedule (on_thread c (\<lambda>x. x\<lparr>th_timer := Some tick\<rparr>) s1))"

definition rt_thread_sleep :: "32 word \<Rightarrow> scheduler \<Rightarrow> scheduler result" where
  "rt_thread_sleep tick s =
     (case current_thread s of
        None \<Rightarrow> Inl Assert_failed
      | Some c \<Rightarrow> suspend_for c tick (on_thread c (\<lambda>x. x\<lparr>th_error := RT_EOK\<rparr>) s))"

definition rt_thread_delay :: "32 word \<Rightarrow> scheduler \<Rightarrow> scheduler result" where
  "rt_thread_delay tick s = rt_thread_sleep tick s"

definition rt_thread_mdelay :: "int \<Rightarrow> int \<Rightarrow> scheduler \<Rightarrow> scheduler result" where
  "rt_thread_mdelay tps ms s = rt_thread_sleep (rt_tick_from_millisecond tps ms) s"

text \<open>\<open>*tick\<close> is an argument and a result.\<close>

definition rt_thread_delay_until :: "32 word \<Rightarrow> 32 word \<Rightarrow> 32 word \<Rightarrow> scheduler \<Rightarrow> (32 word \<times> scheduler) result" where
  "rt_thread_delay_until cur_tick tick inc_tick s =
     (case current_thread s of
        None \<Rightarrow> Inl Assert_failed
      | Some c \<Rightarrow>
          (let s1 = on_thread c (\<lambda>x. x\<lparr>th_error := RT_EOK\<rparr>) s
           in if cur_tick - tick < inc_tick
              then bindR (suspend_for c (tick + inc_tick - cur_tick) s1) (\<lambda>s2. Inr (tick + inc_tick, s2))
              else Inr (cur_tick, s1)))"

definition slept :: "nat \<Rightarrow> scheduler \<Rightarrow> int \<times> scheduler" where
  "slept t s =
     (let s1 = (if th_error (threads s t) = - RT_ETIMEOUT then on_thread t (\<lambda>x. x\<lparr>th_error := RT_EOK\<rparr>) s else s)
      in (th_error (threads s1 t), s1))"

definition thread_timeout :: "nat \<Rightarrow> scheduler \<Rightarrow> scheduler result" where
  "thread_timeout t s =
     (if stat_of t s \<noteq> RT_THREAD_SUSPEND then Inl Assert_failed
      else rt_schedule (rt_schedule_insert_thread t (unlink t (on_thread t (\<lambda>x. x\<lparr>th_error := - RT_ETIMEOUT\<rparr>) s))))"

text \<open>\<open>RT_THREAD_CTRL_CHANGE_PRIORITY\<close>; a shift by 32 or more is undefined.\<close>

definition set_priority :: "nat \<Rightarrow> nat \<Rightarrow> scheduler \<Rightarrow> scheduler result" where
  "set_priority t p s =
     (if \<not> p < 32 then Inl Bad_argument
      else Inr (on_thread t (\<lambda>x. x\<lparr>current_priority := p, number_mask := push_bit p 1\<rparr>) s))"

definition ctrl_change_priority :: "nat \<Rightarrow> nat \<Rightarrow> scheduler \<Rightarrow> (int \<times> scheduler) result" where
  "ctrl_change_priority t p s =
     (if stat_of t s = RT_THREAD_READY
      then bindR (set_priority t p (rt_schedule_remove_thread t s))
             (\<lambda>s1. Inr (RT_EOK, rt_schedule_insert_thread t s1))
      else bindR (set_priority t p s) (\<lambda>s1. Inr (RT_EOK, s1)))"

definition rt_thread_detach :: "nat \<Rightarrow> scheduler \<Rightarrow> int \<times> scheduler" where
  "rt_thread_detach t s =
     (if stat_of t s = RT_THREAD_CLOSE then (RT_EOK, s)
      else
        (let s1 = (if stat_of t s \<noteq> RT_THREAD_INIT then rt_schedule_remove_thread t s else s)
         in (RT_EOK, on_thread t (\<lambda>x. x\<lparr>th_stat := RT_THREAD_CLOSE, th_timer := None\<rparr>) s1)))"

definition rt_thread_delete :: "nat \<Rightarrow> scheduler \<Rightarrow> int \<times> scheduler" where
  "rt_thread_delete t s =
     (if stat_of t s = RT_THREAD_CLOSE then (RT_EOK, s)
      else
        (let s1 = (if stat_of t s \<noteq> RT_THREAD_INIT then rt_schedule_remove_thread t s else s)
         in (RT_EOK, on_thread t (\<lambda>x. x\<lparr>th_stat := RT_THREAD_CLOSE, th_timer := None\<rparr>) s1)))"

text \<open>The commands of \<open>rt_thread_control\<close>; \<open>system\<close> tells whether the thread is a system object.\<close>

datatype thread_ctrl = Ctrl_startup | Ctrl_close | Ctrl_change_priority nat | Ctrl_other

definition rt_thread_control :: "nat \<Rightarrow> bool \<Rightarrow> thread_ctrl \<Rightarrow> scheduler \<Rightarrow> (int \<times> scheduler) result" where
  "rt_thread_control t system cmd s =
     (case cmd of
        Ctrl_change_priority p \<Rightarrow> ctrl_change_priority t p s
      | Ctrl_startup \<Rightarrow> rt_thread_startup t s
      | Ctrl_close \<Rightarrow>
          (let (err, s1) = (if system then rt_thread_detach t s else rt_thread_delete t s)
           in bindR (rt_schedule s1) (\<lambda>s2. Inr (err, s2)))
      | Ctrl_other \<Rightarrow> Inr (RT_EOK, s))"

definition thread_exit :: "scheduler \<Rightarrow> scheduler result" where
  "thread_exit s =
     (case current_thread s of
        None \<Rightarrow> Inl Null_pointer
      | Some c \<Rightarrow> rt_schedule (on_thread c (\<lambda>x. x\<lparr>th_stat := RT_THREAD_CLOSE, th_timer := None\<rparr>)
                    (rt_schedule_remove_thread c s)))"

subsection \<open>The invariant\<close>

text \<open>\<open>ready_ok X\<close> speaks of the lists and the group; the threads of \<open>X\<close> are taken out.  \<open>current_ok Y\<close> speaks of the current
  thread, but not of those of \<open>Y\<close>.\<close>

definition mask_ok :: "8 word \<Rightarrow> rt_thread \<Rightarrow> bool" where
  "mask_ok st x \<longleftrightarrow> number_mask x = push_bit (current_priority x) 1 \<or>
     number_mask x = 0 \<and> (st = RT_THREAD_INIT \<or> st = RT_THREAD_CLOSE)"

lemma mask_ok_upd [simp]:
  "mask_ok st (x\<lparr>th_stat := a\<rparr>) = mask_ok st x" "mask_ok st (x\<lparr>th_timer := b\<rparr>) = mask_ok st x"
  "mask_ok st (x\<lparr>th_error := e\<rparr>) = mask_ok st x" "mask_ok st (x\<lparr>th_remaining_tick := n\<rparr>) = mask_ok st x"
  by (simp_all add: mask_ok_def)

lemma mask_ok_started: "mask_ok st x \<Longrightarrow> st \<noteq> RT_THREAD_INIT \<Longrightarrow> st \<noteq> RT_THREAD_CLOSE \<Longrightarrow> mask_ok st' x"
  by (simp add: mask_ok_def)

lemma mask_ok_close: "mask_ok st x \<Longrightarrow> mask_ok RT_THREAD_CLOSE x"
  by (auto simp: mask_ok_def)

definition ready_ok :: "nat set \<Rightarrow> scheduler \<Rightarrow> bool" where
  "ready_ok X s \<longleftrightarrow> (\<forall>p. distinct (priority_table s p)) \<and>
     (\<forall>p t. t \<in> set (priority_table s p) \<longleftrightarrow>
        t \<notin> X \<and> stat_of t s = RT_THREAD_READY \<and> current_priority (threads s t) = p) \<and>
     (\<forall>t. current_priority (threads s t) < 32) \<and>
     (\<forall>t. mask_ok (stat_of t s) (threads s t)) \<and>
     (\<forall>p. bit (ready_group s) p \<longleftrightarrow> priority_table s p \<noteq> [])"

definition current_ok :: "nat set \<Rightarrow> scheduler \<Rightarrow> bool" where
  "current_ok Y s \<longleftrightarrow>
     (\<forall>c. current_thread s = Some c \<and> c \<notin> Y \<longrightarrow>
        stat_of c s = RT_THREAD_RUNNING \<or> stat_of c s = RT_THREAD_SUSPEND \<or> stat_of c s = RT_THREAD_CLOSE) \<and>
     (\<forall>t. stat_of t s = RT_THREAD_RUNNING \<and> t \<notin> Y \<longrightarrow> current_thread s = Some t)"

definition sched_ok :: "scheduler \<Rightarrow> bool" where
  "sched_ok s \<longleftrightarrow> ready_ok {} s \<and> current_ok {} s"

lemmas stat_codes = RT_THREAD_INIT_def RT_THREAD_READY_def RT_THREAD_SUSPEND_def RT_THREAD_RUNNING_def
  RT_THREAD_CLOSE_def

lemma stat_codes_distinct [simp]:
  "RT_THREAD_READY \<noteq> RT_THREAD_INIT" "RT_THREAD_SUSPEND \<noteq> RT_THREAD_INIT" "RT_THREAD_RUNNING \<noteq> RT_THREAD_INIT"
  "RT_THREAD_CLOSE \<noteq> RT_THREAD_INIT" "RT_THREAD_INIT \<noteq> RT_THREAD_READY" "RT_THREAD_SUSPEND \<noteq> RT_THREAD_READY"
  "RT_THREAD_RUNNING \<noteq> RT_THREAD_READY" "RT_THREAD_CLOSE \<noteq> RT_THREAD_READY" "RT_THREAD_INIT \<noteq> RT_THREAD_RUNNING"
  "RT_THREAD_READY \<noteq> RT_THREAD_RUNNING" "RT_THREAD_SUSPEND \<noteq> RT_THREAD_RUNNING" "RT_THREAD_CLOSE \<noteq> RT_THREAD_RUNNING"
  "RT_THREAD_READY \<noteq> RT_THREAD_SUSPEND" "RT_THREAD_INIT \<noteq> RT_THREAD_SUSPEND" "RT_THREAD_RUNNING \<noteq> RT_THREAD_SUSPEND"
  "RT_THREAD_READY \<noteq> RT_THREAD_CLOSE" "RT_THREAD_INIT \<noteq> RT_THREAD_CLOSE" "RT_THREAD_RUNNING \<noteq> RT_THREAD_CLOSE"
  "RT_THREAD_SUSPEND \<noteq> RT_THREAD_CLOSE" "RT_THREAD_CLOSE \<noteq> RT_THREAD_SUSPEND"
  by (simp_all add: stat_codes)

lemma stat_masks [simp]:
  "RT_THREAD_INIT AND RT_THREAD_STAT_MASK = RT_THREAD_INIT" "RT_THREAD_READY AND RT_THREAD_STAT_MASK = RT_THREAD_READY"
  "RT_THREAD_SUSPEND AND RT_THREAD_STAT_MASK = RT_THREAD_SUSPEND"
  "RT_THREAD_RUNNING AND RT_THREAD_STAT_MASK = RT_THREAD_RUNNING"
  "RT_THREAD_CLOSE AND RT_THREAD_STAT_MASK = RT_THREAD_CLOSE"
  by (simp_all add: stat_codes RT_THREAD_STAT_MASK_def)

lemma stat_or [simp]: "(st OR (x AND NOT m)) AND m = st AND (m :: 8 word)"
  by (rule bit_word_eqI) (auto simp: bit_and_iff bit_or_iff bit_not_iff)

lemma stat_yield [simp]:
  "(x AND NOT RT_THREAD_STAT_YIELD) AND RT_THREAD_STAT_MASK = x AND RT_THREAD_STAT_MASK"
  "(x OR RT_THREAD_STAT_YIELD) AND RT_THREAD_STAT_MASK = x AND RT_THREAD_STAT_MASK"
proof -
  have "RT_THREAD_STAT_YIELD AND RT_THREAD_STAT_MASK = 0"
    by (simp add: RT_THREAD_STAT_YIELD_def RT_THREAD_STAT_MASK_def)
  then have b: "\<not> (bit RT_THREAD_STAT_YIELD n \<and> bit RT_THREAD_STAT_MASK n)" for n
    by (metis bit_0_eq bit_and_iff bot_apply bot_bool_def)
  show "(x AND NOT RT_THREAD_STAT_YIELD) AND RT_THREAD_STAT_MASK = x AND RT_THREAD_STAT_MASK"
    "(x OR RT_THREAD_STAT_YIELD) AND RT_THREAD_STAT_MASK = x AND RT_THREAD_STAT_MASK"
    using b by (auto intro!: bit_word_eqI simp: bit_and_iff bit_or_iff bit_not_iff)
qed

lemma on_thread_sel [simp]:
  "priority_table (on_thread t f s) = priority_table s" "ready_group (on_thread t f s) = ready_group s"
  "lock_nest (on_thread t f s) = lock_nest s" "current_thread (on_thread t f s) = current_thread s"
  "threads (on_thread t f s) u = (if u = t then f (threads s t) else threads s u)"
  by (simp_all add: on_thread_def)

lemma stat_on_thread [simp]:
  "stat_of u (on_thread t f s) = (if u = t then th_stat (f (threads s t)) AND RT_THREAD_STAT_MASK else stat_of u s)"
  by (simp add: stat_of_def)

lemma stat_upd [simp]:
  "stat_of u (s\<lparr>priority_table := x\<rparr>) = stat_of u s" "stat_of u (s\<lparr>ready_group := g\<rparr>) = stat_of u s"
  "stat_of u (s\<lparr>current_thread := c\<rparr>) = stat_of u s" "stat_of u (s\<lparr>lock_nest := n\<rparr>) = stat_of u s"
  by (simp_all add: stat_of_def)

lemma set_stat_sel [simp]:
  "priority_table (set_stat t st s) = priority_table s" "ready_group (set_stat t st s) = ready_group s"
  "lock_nest (set_stat t st s) = lock_nest s" "current_thread (set_stat t st s) = current_thread s"
  "current_priority (threads (set_stat t st s) u) = current_priority (threads s u)"
  "number_mask (threads (set_stat t st s) u) = number_mask (threads s u)"
  "stat_of u (set_stat t st s) = (if u = t then st AND RT_THREAD_STAT_MASK else stat_of u s)"
  by (simp_all add: set_stat_def)

lemma unlink_sel [simp]:
  "priority_table (unlink t s) p = removeAll t (priority_table s p)" "ready_group (unlink t s) = ready_group s"
  "lock_nest (unlink t s) = lock_nest s" "current_thread (unlink t s) = current_thread s"
  "threads (unlink t s) = threads s" "stat_of u (unlink t s) = stat_of u s"
  by (simp_all add: unlink_def stat_of_def)

lemma remove_sel [simp]:
  "priority_table (rt_schedule_remove_thread t s) p = removeAll t (priority_table s p)"
  "lock_nest (rt_schedule_remove_thread t s) = lock_nest s"
  "current_thread (rt_schedule_remove_thread t s) = current_thread s"
  "threads (rt_schedule_remove_thread t s) = threads s" "stat_of u (rt_schedule_remove_thread t s) = stat_of u s"
  by (simp_all add: rt_schedule_remove_thread_def Let_def stat_of_def)

lemma lists_okD:
  assumes "ready_ok X s"
  shows "distinct (priority_table s p)"
    "t \<in> set (priority_table s p) \<longleftrightarrow> t \<notin> X \<and> stat_of t s = RT_THREAD_READY \<and> current_priority (threads s t) = p"
    "current_priority (threads s t) < 32"
    "mask_ok (stat_of t s) (threads s t)"
    "bit (ready_group s) p \<longleftrightarrow> priority_table s p \<noteq> []"
  using assms unfolding ready_ok_def by blast+

lemma current_okD:
  assumes "current_ok Y s"
  shows "current_thread s = Some c \<Longrightarrow> c \<notin> Y \<Longrightarrow>
      stat_of c s = RT_THREAD_RUNNING \<or> stat_of c s = RT_THREAD_SUSPEND \<or> stat_of c s = RT_THREAD_CLOSE"
    "stat_of t s = RT_THREAD_RUNNING \<Longrightarrow> t \<notin> Y \<Longrightarrow> current_thread s = Some t"
    "current_thread s = Some c \<Longrightarrow> c \<notin> Y \<Longrightarrow> stat_of c s \<noteq> RT_THREAD_READY \<and> stat_of c s \<noteq> RT_THREAD_INIT"
proof -
  show 1: "current_thread s = Some c \<Longrightarrow> c \<notin> Y \<Longrightarrow>
      stat_of c s = RT_THREAD_RUNNING \<or> stat_of c s = RT_THREAD_SUSPEND \<or> stat_of c s = RT_THREAD_CLOSE" for c
    using assms unfolding current_ok_def by blast
  show "stat_of t s = RT_THREAD_RUNNING \<Longrightarrow> t \<notin> Y \<Longrightarrow> current_thread s = Some t"
    using assms unfolding current_ok_def by blast
  show "current_thread s = Some c \<Longrightarrow> c \<notin> Y \<Longrightarrow> stat_of c s \<noteq> RT_THREAD_READY \<and> stat_of c s \<noteq> RT_THREAD_INIT"
    by (drule (1) 1) (elim disjE; simp)
qed

lemma current_okI:
  assumes "\<And>c. current_thread s = Some c \<Longrightarrow> c \<notin> Y \<Longrightarrow>
      stat_of c s = RT_THREAD_RUNNING \<or> stat_of c s = RT_THREAD_SUSPEND \<or> stat_of c s = RT_THREAD_CLOSE"
    and "\<And>t. stat_of t s = RT_THREAD_RUNNING \<Longrightarrow> t \<notin> Y \<Longrightarrow> current_thread s = Some t"
  shows "current_ok Y s"
  using assms unfolding current_ok_def by blast

text \<open>The steps that the operations are made of.\<close>

lemma bit_priority: "p < 32 \<Longrightarrow> bit (2 ^ p :: 32 word) n \<longleftrightarrow> n = p"
  by (auto simp: bit_exp_iff)

lemma lists_remove:
  assumes ok: "ready_ok X s"
  shows "ready_ok (insert t X) (rt_schedule_remove_thread t s)"
proof -
  note k = lists_okD [OF ok]
  let ?p = "current_priority (threads s t)"
  have other: "removeAll t (priority_table s q) = priority_table s q" if "q \<noteq> ?p" for q
    using k(2) that by (metis removeAll_id)
  have "bit (ready_group (rt_schedule_remove_thread t s)) q \<longleftrightarrow> removeAll t (priority_table s q) \<noteq> []" for q
  proof (cases "number_mask (threads s t) = 0")
    case True
    then have "stat_of t s \<noteq> RT_THREAD_READY" using k(3,4) [of t] by (auto simp: mask_ok_def)
    then have "removeAll t (priority_table s p) = priority_table s p" for p using k(2) by simp
    with True show ?thesis using k(5) by (simp add: rt_schedule_remove_thread_def Let_def)
  next
    case False
    then have m: "number_mask (threads s t) = 2 ^ ?p" using k(4) [of t] by (simp add: mask_ok_def)
    have "q < 32" if "bit (ready_group s) q" using bit_imp_le_length [OF that] by simp
    then show ?thesis using k(5) [of q] other [of q]
      by (cases "q = ?p") (auto simp: rt_schedule_remove_thread_def Let_def bit_and_iff bit_not_iff m bit_priority [OF k(3)])
  qed
  with k show ?thesis by (auto simp: ready_ok_def intro: distinct_removeAll)
qed

lemma lists_insert:
  assumes ok: "ready_ok (insert t X) s" and "t \<notin> X" and "stat_of t s \<noteq> RT_THREAD_INIT" "stat_of t s \<noteq> RT_THREAD_CLOSE"
  shows "ready_ok X (rt_schedule_insert_thread t s)"
proof -
  note k = lists_okD [OF ok]
  have m: "number_mask (threads s t) = 2 ^ current_priority (threads s t)"
    using k(4) [of t] assms(3,4) by (simp add: mask_ok_def)
  have mask: "mask_ok st (threads (set_stat t st' s) u)" if "u \<noteq> t \<Longrightarrow> st = stat_of u s" for st st' u
    using k(4) [of u] that m by (cases "u = t") (simp_all add: mask_ok_def)
  show ?thesis
  proof (cases "current_thread s = Some t")
    case True
    then show ?thesis using k(1,2,3,5) assms(2,3) mask
      by (auto simp: ready_ok_def rt_schedule_insert_thread_def)
  next
    case False
    have new: "t \<notin> set (priority_table s p)" for p using k(2) by blast
    show ?thesis using False k(1,2,3,5) assms(2,3) new mask
      by (auto simp: ready_ok_def rt_schedule_insert_thread_def Let_def bit_or_iff m bit_priority [OF k(3)])
  qed
qed

lemma lists_free: "ready_ok (insert t X) s \<Longrightarrow> stat_of t s \<noteq> RT_THREAD_READY \<Longrightarrow> ready_ok X s"
  unfolding ready_ok_def by blast

lemma lists_out: "ready_ok X s \<Longrightarrow> stat_of t s \<noteq> RT_THREAD_READY \<Longrightarrow> ready_ok (insert t X) s"
  unfolding ready_ok_def by blast

lemma lists_on:
  assumes "ready_ok X s" and "t \<in> X \<or> th_stat (f (threads s t)) AND RT_THREAD_STAT_MASK = stat_of t s"
    and "current_priority (f (threads s t)) < 32"
    and "t \<in> X \<or> current_priority (f (threads s t)) = current_priority (threads s t)"
    and "mask_ok (th_stat (f (threads s t)) AND RT_THREAD_STAT_MASK) (f (threads s t))"
  shows "ready_ok X (on_thread t f s)"
  using assms by (auto simp: ready_ok_def)

text \<open>The list that is read is the most urgent one that has threads.\<close>

lemma highest_ok:
  assumes ok: "ready_ok X s" and "ready_group s \<noteq> 0"
  obtains p t us where "highest_thread s = Inr (p, t)" "priority_table s p = t # us" "p < 32"
    "t \<notin> X" "stat_of t s = RT_THREAD_READY" "current_priority (threads s t) = p"
    "\<And>u. u \<notin> X \<Longrightarrow> stat_of u s = RT_THREAD_READY \<Longrightarrow> p \<le> current_priority (threads s u)"
proof -
  note k = lists_okD [OF ok]
  obtain p where p: "p < 32" "rt_ffs (ready_group s) = Suc p" "bit (ready_group s) p"
    "\<forall>m<p. \<not> bit (ready_group s) m" using ffs_lowest [OF assms(2)] by blast
  then obtain t us where t: "priority_table s p = t # us" using k(5) by (cases "priority_table s p") auto
  then have "t \<notin> X \<and> stat_of t s = RT_THREAD_READY \<and> current_priority (threads s t) = p" using k(2) [of t p] by simp
  moreover have "p \<le> current_priority (threads s u)" if "u \<notin> X" "stat_of u s = RT_THREAD_READY" for u
  proof (rule ccontr)
    assume "\<not> p \<le> current_priority (threads s u)"
    then have "priority_table s (current_priority (threads s u)) = []" using p(4) k(5) by auto
    with k(2) [of u "current_priority (threads s u)"] that show False by simp
  qed
  moreover have "highest_thread s = Inr (p, t)" using p(2) t by (simp add: highest_thread_def)
  ultimately show thesis using that t p(1) by blast
qed

lemma nobody_ready:
  assumes ok: "ready_ok X s" and "ready_group s = 0" and "u \<notin> X"
  shows "stat_of u s \<noteq> RT_THREAD_READY"
  using lists_okD(2) [OF ok, of u "current_priority (threads s u)"] lists_okD(5) [OF ok] assms(2,3) by auto

lemma current_on:
  assumes "current_ok Y s" and "t \<in> Y \<or> th_stat (f (threads s t)) AND RT_THREAD_STAT_MASK = stat_of t s"
  shows "current_ok Y (on_thread t f s)"
proof -
  have st: "stat_of u (on_thread t f s) = stat_of u s" if "u \<notin> Y" for u using assms(2) that by auto
  show ?thesis by (rule current_okI) (use current_okD(1,2) [OF assms(1)] st in \<open>simp_all del: stat_on_thread\<close>)
qed

text \<open>The current thread goes on.\<close>

lemma keep_current:
  assumes ok: "sched_ok s" and c: "current_thread s = Some c" and run: "stat_of c s = RT_THREAD_RUNNING"
  shows "sched_ok (set_stat c RT_THREAD_RUNNING (rt_schedule_remove_thread c s))"
    and "priority_table (set_stat c RT_THREAD_RUNNING (rt_schedule_remove_thread c s)) = priority_table s"
proof -
  have l: "ready_ok {} s" and cu: "current_ok {} s" using ok by (simp_all add: sched_ok_def)
  have st: "stat_of c s \<noteq> RT_THREAD_READY" using run by simp
  have "ready_ok {c} (rt_schedule_remove_thread c s)" by (rule lists_remove [OF l])
  then have "ready_ok {c} (set_stat c RT_THREAD_RUNNING (rt_schedule_remove_thread c s))"
    unfolding set_stat_def using lists_okD(3) [OF l] lists_okD(4) [OF l, of c] run by (intro lists_on) simp_all
  then have "ready_ok {} (set_stat c RT_THREAD_RUNNING (rt_schedule_remove_thread c s))"
    by (rule lists_free) simp
  moreover have "current_ok {} (set_stat c RT_THREAD_RUNNING (rt_schedule_remove_thread c s))"
    by (rule current_okI) (use c current_okD(2) [OF cu] in \<open>simp_all split: if_splits\<close>)
  ultimately show "sched_ok (set_stat c RT_THREAD_RUNNING (rt_schedule_remove_thread c s))" by (simp add: sched_ok_def)
  have "c \<notin> set (priority_table s p)" for p using lists_okD(2) [OF l] st by blast
  then show "priority_table (set_stat c RT_THREAD_RUNNING (rt_schedule_remove_thread c s)) = priority_table s"
    by (auto simp: fun_eq_iff)
qed

text \<open>\<open>switch_to t s\<close>: the current thread is now \<open>t\<close>, which leaves its list.\<close>

definition switch_to :: "nat \<Rightarrow> scheduler \<Rightarrow> scheduler" where
  "switch_to t s = set_stat t RT_THREAD_RUNNING (rt_schedule_remove_thread t s)"

lemma switch_ok:
  assumes l: "ready_ok {} s" and cu: "current_ok {t} s" and t: "current_thread s = Some t" "stat_of t s = RT_THREAD_READY"
  shows "sched_ok (switch_to t s)"
proof -
  have "ready_ok {t} (rt_schedule_remove_thread t s)" by (rule lists_remove [OF l])
  then have "ready_ok {t} (switch_to t s)"
    unfolding switch_to_def set_stat_def
    using lists_okD(3) [OF l] mask_ok_started [OF lists_okD(4) [OF l, of t]] t(2) by (intro lists_on) simp_all
  then have "ready_ok {} (switch_to t s)" by (rule lists_free) (simp add: switch_to_def)
  moreover have "current_ok {} (switch_to t s)"
    by (rule current_okI) (use t(1) current_okD(2) [OF cu] in \<open>simp_all add: switch_to_def split: if_splits\<close>)
  ultimately show ?thesis by (simp add: sched_ok_def)
qed

lemma unyield_sel [simp]:
  "priority_table (unyield c s) = priority_table s" "ready_group (unyield c s) = ready_group s"
  "lock_nest (unyield c s) = lock_nest s" "current_thread (unyield c s) = current_thread s"
  "stat_of u (unyield c s) = stat_of u s" "current_priority (threads (unyield c s) u) = current_priority (threads s u)"
  "number_mask (threads (unyield c s) u) = number_mask (threads s u)"
  by (simp_all add: unyield_def stat_of_def)

lemma mask_unyield [simp]: "mask_ok st (threads (unyield c s) u) = mask_ok st (threads s u)"
  by (simp add: mask_ok_def)

lemma unyield_ok: "ready_ok X s \<Longrightarrow> ready_ok X (unyield c s)" "current_ok Y s \<Longrightarrow> current_ok Y (unyield c s)"
  by (simp_all add: ready_ok_def current_ok_def)

text \<open>The ways through \<open>rt_schedule\<close>.\<close>

lemma schedule_cases:
  assumes ok: "sched_ok s" and c: "current_thread s = Some c"
  obtains (off) "lock_nest s \<noteq> 0 \<or> ready_group s = 0" "rt_schedule s = Inr s"
  | (stay) p t where "lock_nest s = 0" "highest_thread s = Inr (p, t)" "stat_of c s = RT_THREAD_RUNNING"
      "current_priority (threads s c) < p \<or> current_priority (threads s c) = p \<and>
        th_stat (threads s c) AND RT_THREAD_STAT_YIELD = 0"
      "rt_schedule s = Inr (set_stat c RT_THREAD_RUNNING (rt_schedule_remove_thread c (unyield c s)))"
  | (swap) p t us where "lock_nest s = 0" "highest_thread s = Inr (p, t)" "t \<noteq> c" "priority_table s p = t # us"
      "stat_of c s = RT_THREAD_RUNNING"
      "p < current_priority (threads s c) \<or> current_priority (threads s c) = p \<and>
        th_stat (threads s c) AND RT_THREAD_STAT_YIELD \<noteq> 0"
      "rt_schedule s = Inr (switch_to t (rt_schedule_insert_thread c (unyield c s\<lparr>current_thread := Some t\<rparr>)))"
  | (leave) p t us where "lock_nest s = 0" "highest_thread s = Inr (p, t)" "t \<noteq> c" "priority_table s p = t # us"
      "stat_of c s \<noteq> RT_THREAD_RUNNING"
      "rt_schedule s = Inr (switch_to t (unyield c s\<lparr>current_thread := Some t\<rparr>))"
proof (cases "lock_nest s \<noteq> 0 \<or> ready_group s = 0")
  case True
  then show thesis by (intro off) (auto simp: rt_schedule_def)
next
  case False
  have l: "ready_ok {} s" and cu: "current_ok {} s" using ok by (simp_all add: sched_ok_def)
  obtain p t us where h: "highest_thread s = Inr (p, t)" "priority_table s p = t # us" "stat_of t s = RT_THREAD_READY"
  proof -
    have "ready_group s \<noteq> 0" using False by simp
    from highest_ok [OF l this] show thesis using that by metis
  qed
  have tc: "t \<noteq> c" using h(3) current_okD(3) [OF cu c] by auto
  show thesis
  proof (cases "stat_of c s = RT_THREAD_RUNNING")
    case run: True
    let ?pc = "current_priority (threads s c)" and ?y = "th_stat (threads s c) AND RT_THREAD_STAT_YIELD"
    show thesis
    proof (cases "?pc < p \<or> ?pc = p \<and> ?y = 0")
      case True
      show thesis
        by (rule stay [OF _ h(1) run True]) (use False c h(1) run True tc in \<open>auto simp: rt_schedule_def Let_def\<close>)
    next
      case no: False
      show thesis
        by (rule swap [OF _ h(1) tc h(2) run])
          (use False c h(1) run no tc in \<open>auto simp: rt_schedule_def switch_to_def Let_def\<close>)
    qed
  next
    case no: False
    show thesis
      by (rule leave [OF _ h(1) tc h(2) no])
        (use False c h(1) no tc in \<open>auto simp: rt_schedule_def switch_to_def Let_def\<close>)
  qed
qed

lemma insert_sel:
  assumes "current_thread s \<noteq> Some t"
  shows "stat_of u (rt_schedule_insert_thread t s) = (if u = t then RT_THREAD_READY else stat_of u s)"
    "current_thread (rt_schedule_insert_thread t s) = current_thread s"
    "lock_nest (rt_schedule_insert_thread t s) = lock_nest s"
    "current_priority (threads (rt_schedule_insert_thread t s) u) = current_priority (threads s u)"
    "priority_table (rt_schedule_insert_thread t s) =
       (priority_table s)(current_priority (threads s t) := priority_table s (current_priority (threads s t)) @ [t])"
  using assms by (simp_all add: rt_schedule_insert_thread_def Let_def)

lemma switch_sel [simp]:
  "stat_of u (switch_to t s) = (if u = t then RT_THREAD_RUNNING else stat_of u s)"
  "current_thread (switch_to t s) = current_thread s" "lock_nest (switch_to t s) = lock_nest s"
  "current_priority (threads (switch_to t s) u) = current_priority (threads s u)"
  "priority_table (switch_to t s) p = removeAll t (priority_table s p)"
  by (simp_all add: switch_to_def)

lemma lists_upd [simp]:
  "ready_ok X (s\<lparr>current_thread := c\<rparr>) = ready_ok X s" "ready_ok X (s\<lparr>lock_nest := n\<rparr>) = ready_ok X s"
  by (simp_all add: ready_ok_def)

text \<open>Nobody who is ready is more urgent than the thread that runs.\<close>

definition most_urgent :: "scheduler \<Rightarrow> bool" where
  "most_urgent s \<longleftrightarrow> (\<forall>t. stat_of t s = RT_THREAD_READY \<longrightarrow>
     (\<exists>c. current_thread s = Some c \<and> stat_of c s = RT_THREAD_RUNNING \<and>
        current_priority (threads s c) \<le> current_priority (threads s t)))"

lemma schedule_ok:
  assumes ok: "sched_ok s" and c: "current_thread s = Some c"
  shows "\<exists>s'. rt_schedule s = Inr s' \<and> sched_ok s' \<and> current_thread s' \<noteq> None \<and> lock_nest s' = lock_nest s \<and>
    (lock_nest s = 0 \<longrightarrow> most_urgent s')"
proof -
  have l: "ready_ok {} s" and cu: "current_ok {} s" using ok by (simp_all add: sched_ok_def)
  have urgent: "p \<le> current_priority (threads s u)"
    if "highest_thread s = Inr (p, t)" "stat_of u s = RT_THREAD_READY" for p t u
  proof -
    have "ready_group s \<noteq> 0" using nobody_ready [OF l, of u] that(2) by auto
    from highest_ok [OF l this] show ?thesis using that by (metis Pair_inject empty_iff sum.inject(2))
  qed
  have top: "stat_of t s = RT_THREAD_READY \<and> current_priority (threads s t) = p"
    if "priority_table s p = t # us" for t p us using lists_okD(2) [OF l, of t p] that by simp
  from ok c show ?thesis
  proof (cases rule: schedule_cases)
    case off
    then have "lock_nest s = 0 \<Longrightarrow> most_urgent s" using nobody_ready [OF l] by (auto simp: most_urgent_def)
    with off ok c show ?thesis by auto
  next
    case (stay p t)
    have u: "sched_ok (unyield c s)" using ok unyield_ok by (simp add: sched_ok_def)
    have "most_urgent (set_stat c RT_THREAD_RUNNING (rt_schedule_remove_thread c (unyield c s)))"
      using stay(4) urgent [OF stay(2)] c by (fastforce simp: most_urgent_def)
    with stay(5) keep_current(1) [OF u] stay(3) c show ?thesis by simp
  next
    case (swap p t us)
    let ?s2 = "unyield c s\<lparr>current_thread := Some t\<rparr>"
    let ?s3 = "rt_schedule_insert_thread c ?s2"
    have 2: "current_thread ?s2 \<noteq> Some c" using swap(3) by simp
    have "ready_ok {c} ?s2" using lists_out [OF l, of c] swap(5) unyield_ok(1) by simp
    then have 3: "ready_ok {} ?s3" by (rule lists_insert) (simp_all add: swap(5))
    have "current_ok {t} ?s3"
      by (rule current_okI) (use current_okD(2) [OF cu] c swap(3) in \<open>auto simp: insert_sel [OF 2] split: if_splits\<close>)
    then have "sched_ok (switch_to t ?s3)"
      by (rule switch_ok [OF 3]) (use top [OF swap(4)] swap(3) in \<open>simp_all add: insert_sel [OF 2]\<close>)
    moreover have "most_urgent (switch_to t ?s3)"
      using swap(3,6) urgent [OF swap(2)] top [OF swap(4)] by (auto simp: most_urgent_def insert_sel [OF 2])
    ultimately show ?thesis using swap(7) by (simp add: insert_sel [OF 2])
  next
    case (leave p t us)
    let ?s2 = "unyield c s\<lparr>current_thread := Some t\<rparr>"
    have 2: "ready_ok {} ?s2" using l unyield_ok(1) by simp
    have "current_ok {t} ?s2"
      by (rule current_okI) (use current_okD(2) [OF cu] c leave(5) in \<open>auto split: if_splits\<close>)
    then have "sched_ok (switch_to t ?s2)"
      by (rule switch_ok [OF 2]) (use top [OF leave(4)] in simp_all)
    moreover have "most_urgent (switch_to t ?s2)"
      using urgent [OF leave(2)] top [OF leave(4)] by (auto simp: most_urgent_def)
    ultimately show ?thesis using leave(6) by simp
  qed
qed

subsection \<open>Every operation keeps the invariant\<close>

lemma sched_okD: "sched_ok s \<Longrightarrow> ready_ok {} s" "sched_ok s \<Longrightarrow> current_ok {} s"
  by (simp_all add: sched_ok_def)

lemma schedule_keeps: "sched_ok s \<Longrightarrow> rt_schedule s = Inr s' \<Longrightarrow> sched_ok s'"
proof (cases "current_thread s")
  case None
  assume "sched_ok s" "rt_schedule s = Inr s'"
  with None show ?thesis by (auto simp: rt_schedule_def bindR_eq_Inr split: if_splits)
next
  case (Some c)
  assume "sched_ok s" "rt_schedule s = Inr s'"
  with schedule_ok [OF this(1) Some] show ?thesis by auto
qed

text \<open>A thread outside of the lists changes.\<close>

lemma change_idle:
  assumes ok: "sched_ok s" and t: "stat_of t s \<noteq> RT_THREAD_READY"
    and new: "th_stat (f (threads s t)) AND RT_THREAD_STAT_MASK \<noteq> RT_THREAD_READY"
    and p: "current_priority (f (threads s t)) < 32"
    and m: "mask_ok (th_stat (f (threads s t)) AND RT_THREAD_STAT_MASK) (f (threads s t))"
    and cur: "th_stat (f (threads s t)) AND RT_THREAD_STAT_MASK = stat_of t s \<or>
      (if current_thread s = Some t
       then th_stat (f (threads s t)) AND RT_THREAD_STAT_MASK \<in> {RT_THREAD_SUSPEND, RT_THREAD_CLOSE}
       else th_stat (f (threads s t)) AND RT_THREAD_STAT_MASK \<noteq> RT_THREAD_RUNNING)"
  shows "sched_ok (on_thread t f s)"
proof -
  have "ready_ok {t} (on_thread t f s)"
    by (rule lists_on [OF lists_out [OF sched_okD(1) [OF ok] t]]) (use p m in simp_all)
  then have "ready_ok {} (on_thread t f s)" by (rule lists_free) (use new in simp)
  moreover have "current_ok {} (on_thread t f s)"
  proof -
    define n where "n = th_stat (f (threads s t)) AND RT_THREAD_STAT_MASK"
    note cu = current_okD(1,2) [OF sched_okD(2) [OF ok]]
    have 1: "n = RT_THREAD_RUNNING \<or> n = RT_THREAD_SUSPEND \<or> n = RT_THREAD_CLOSE" if "current_thread s = Some t"
      using cur cu(1) [of t] that by (auto simp: n_def)
    have 2: "current_thread s = Some t" if "n = RT_THREAD_RUNNING"
      using cur cu(2) [of t] that by (auto simp: n_def split: if_splits)
    have st: "stat_of u (on_thread t f s) = (if u = t then n else stat_of u s)" for u by (simp add: n_def)
    show ?thesis
    proof (rule current_okI)
      fix c
      assume "current_thread (on_thread t f s) = Some c"
      then show "stat_of c (on_thread t f s) = RT_THREAD_RUNNING \<or> stat_of c (on_thread t f s) = RT_THREAD_SUSPEND \<or>
          stat_of c (on_thread t f s) = RT_THREAD_CLOSE" using 1 cu(1) [of c] unfolding st by (cases "c = t") simp_all
    next
      fix u
      assume "stat_of u (on_thread t f s) = RT_THREAD_RUNNING"
      then show "current_thread (on_thread t f s) = Some u" using 2 cu(2) [of u] unfolding st by (cases "u = t") simp_all
    qed
  qed
  ultimately show ?thesis by (simp add: sched_ok_def)
qed

text \<open>A change of a thread that its state and its priority do not see.\<close>

lemma change_same:
  assumes ok: "sched_ok s" and "th_stat (f (threads s t)) AND RT_THREAD_STAT_MASK = stat_of t s"
    and "current_priority (f (threads s t)) = current_priority (threads s t)"
    and "number_mask (f (threads s t)) = number_mask (threads s t)"
  shows "sched_ok (on_thread t f s)"
proof -
  note l = lists_okD(3,4) [OF sched_okD(1) [OF ok], of t]
  have "mask_ok (stat_of t s) (f (threads s t))" using l(2) assms(3,4) by (simp add: mask_ok_def)
  then show ?thesis using lists_on [OF sched_okD(1) [OF ok]] current_on [OF sched_okD(2) [OF ok]] assms l(1)
    by (simp add: sched_ok_def)
qed

lemma unlink_idle: "sched_ok s \<Longrightarrow> stat_of t s \<noteq> RT_THREAD_READY \<Longrightarrow> unlink t s = s"
  using lists_okD(2) [OF sched_okD(1)] by (simp add: unlink_def fun_eq_iff)

lemma insert_suspended:
  assumes ok: "sched_ok s" and t: "stat_of t s = RT_THREAD_SUSPEND"
  shows "sched_ok (rt_schedule_insert_thread t s)"
proof -
  have l: "ready_ok {} (rt_schedule_insert_thread t s)"
    by (rule lists_insert [OF lists_out [OF sched_okD(1) [OF ok]]]) (simp_all add: t)
  have "current_ok {} (rt_schedule_insert_thread t s)"
  proof (cases "current_thread s = Some t")
    case True
    then show ?thesis using current_okD(2) [OF sched_okD(2) [OF ok]]
      by (intro current_okI) (simp_all add: rt_schedule_insert_thread_def split: if_splits)
  next
    case False
    then show ?thesis using current_okD(1,2) [OF sched_okD(2) [OF ok]]
      by (intro current_okI) (auto simp: insert_sel [OF False] split: if_splits)
  qed
  with l show ?thesis by (simp add: sched_ok_def)
qed

lemma thread_resume_ok: "sched_ok s \<Longrightarrow> sched_ok (snd (rt_thread_resume t s))"
  by (auto simp: rt_thread_resume_def unlink_idle stat_of_def intro!: insert_suspended change_same)

lemma remove_current:
  assumes ok: "sched_ok s" and "current_thread s = Some c"
  shows "rt_schedule_remove_thread c s = s"
proof -
  note l = lists_okD [OF sched_okD(1) [OF ok]]
  have c: "stat_of c s \<noteq> RT_THREAD_READY" "stat_of c s \<noteq> RT_THREAD_INIT"
    using current_okD(3) [OF sched_okD(2) [OF ok] assms(2)] by simp_all
  have "ready_group s AND NOT (number_mask (threads s c)) = ready_group s"
    if "priority_table s (current_priority (threads s c)) = []"
  proof -
    consider "number_mask (threads s c) = 0" | "number_mask (threads s c) = 2 ^ current_priority (threads s c)"
      using l(4) [of c] by (auto simp: mask_ok_def)
    then show ?thesis
    proof cases
      case m: 2
      have "\<not> bit (ready_group s) (current_priority (threads s c))" using l(5) that by simp
      then show ?thesis unfolding m
        by (intro bit_word_eqI) (auto simp: bit_and_iff bit_not_iff bit_priority [OF l(3)])
    qed simp
  qed
  then show ?thesis by (auto simp: rt_schedule_remove_thread_def unlink_idle [OF ok c(1)])
qed

lemma thread_suspend_ok: "sched_ok s \<Longrightarrow> rt_thread_suspend t s = Inr (err, s') \<Longrightarrow> sched_ok s'"
proof -
  assume ok: "sched_ok s" and r: "rt_thread_suspend t s = Inr (err, s')"
  have "sched_ok (set_stat t RT_THREAD_SUSPEND s)" if "current_thread s = Some t" "stat_of t s = RT_THREAD_RUNNING"
    unfolding set_stat_def
    using lists_okD(3) [OF sched_okD(1) [OF ok], of t] mask_ok_started [OF lists_okD(4) [OF sched_okD(1) [OF ok], of t]] that
    by (intro change_idle [OF ok]) simp_all
  then have "sched_ok (on_thread t (\<lambda>x. x\<lparr>th_timer := None\<rparr>) (set_stat t RT_THREAD_SUSPEND s))"
    if "current_thread s = Some t" "stat_of t s = RT_THREAD_RUNNING"
    using that by (intro change_same) (simp_all add: stat_of_def)
  moreover have "stat_of t s \<noteq> RT_THREAD_READY" if "current_thread s = Some t"
    using current_okD(3) [OF sched_okD(2) [OF ok] that] by simp
  ultimately show ?thesis using r ok by (auto simp: rt_thread_suspend_def remove_current split: if_splits)
qed

lemma startup_ok:
  assumes ok: "sched_ok s" and r: "rt_thread_startup t s = Inr (err, s')"
  shows "sched_ok s'"
proof -
  define s1 where "s1 = on_thread t (\<lambda>x. x\<lparr>number_mask := push_bit (current_priority x) 1,
    th_stat := RT_THREAD_SUSPEND\<rparr>) s"
  have t: "stat_of t s = RT_THREAD_INIT" using r by (simp add: rt_thread_startup_def split: if_splits)
  then have "current_thread s \<noteq> Some t" using current_okD(3) [OF sched_okD(2) [OF ok], of t] by auto
  then have "sched_ok s1" unfolding s1_def
    using lists_okD(3) [OF sched_okD(1) [OF ok]] t by (intro change_idle [OF ok]) (simp_all add: mask_ok_def)
  then have 2: "sched_ok (snd (rt_thread_resume t s1))" by (rule thread_resume_ok)
  show ?thesis using r t 2 schedule_keeps [OF 2]
    unfolding rt_thread_startup_def Let_def s1_def [symmetric] by (auto simp: bindR_eq_Inr split: if_splits)
qed

lemma suspend_for_ok: "sched_ok s \<Longrightarrow> suspend_for c tick (on_thread c (\<lambda>x. x\<lparr>th_error := RT_EOK\<rparr>) s) = Inr s' \<Longrightarrow> sched_ok s'"
proof -
  assume ok: "sched_ok s" and r: "suspend_for c tick (on_thread c (\<lambda>x. x\<lparr>th_error := RT_EOK\<rparr>) s) = Inr s'"
  obtain err s1 where 1: "rt_thread_suspend c (on_thread c (\<lambda>x. x\<lparr>th_error := RT_EOK\<rparr>) s) = Inr (err, s1)"
    "rt_schedule (on_thread c (\<lambda>x. x\<lparr>th_timer := Some tick\<rparr>) s1) = Inr s'"
    using r by (auto simp: suspend_for_def bindR_eq_Inr)
  have "sched_ok (on_thread c (\<lambda>x. x\<lparr>th_error := RT_EOK\<rparr>) s)" using ok by (intro change_same) (simp_all add: stat_of_def)
  then have "sched_ok s1" using thread_suspend_ok 1(1) by blast
  then have "sched_ok (on_thread c (\<lambda>x. x\<lparr>th_timer := Some tick\<rparr>) s1)" by (intro change_same) (simp_all add: stat_of_def)
  then show ?thesis using schedule_keeps 1(2) by blast
qed

lemma sleep_ok: "sched_ok s \<Longrightarrow> rt_thread_sleep tick s = Inr s' \<Longrightarrow> sched_ok s'"
  using suspend_for_ok by (auto simp: rt_thread_sleep_def split: option.splits)

lemma delay_until_ok: "sched_ok s \<Longrightarrow> rt_thread_delay_until cur tick inc s = Inr (tick', s') \<Longrightarrow> sched_ok s'"
proof -
  assume ok: "sched_ok s" and r: "rt_thread_delay_until cur tick inc s = Inr (tick', s')"
  have "sched_ok (on_thread c (\<lambda>x. x\<lparr>th_error := RT_EOK\<rparr>) s)" for c
    using ok by (intro change_same) (simp_all add: stat_of_def)
  then show ?thesis using r suspend_for_ok [OF ok]
    by (auto simp: rt_thread_delay_until_def bindR_eq_Inr Let_def split: option.splits if_splits)
qed

lemma timeout_ok: "sched_ok s \<Longrightarrow> thread_timeout t s = Inr s' \<Longrightarrow> sched_ok s'"
proof -
  assume ok: "sched_ok s" and r: "thread_timeout t s = Inr s'"
  let ?s1 = "on_thread t (\<lambda>x. x\<lparr>th_error := - RT_ETIMEOUT\<rparr>) s"
  have t: "stat_of t s = RT_THREAD_SUSPEND" using r by (simp add: thread_timeout_def split: if_splits)
  have 1: "sched_ok ?s1" using ok by (intro change_same) (simp_all add: stat_of_def)
  have st: "stat_of t ?s1 = RT_THREAD_SUSPEND" using t by (simp add: stat_of_def)
  have "sched_ok (rt_schedule_insert_thread t (unlink t ?s1))"
    using insert_suspended [OF 1 st] unlink_idle [OF 1] st by simp
  then show ?thesis using r t schedule_keeps by (simp add: thread_timeout_def)
qed

lemma current_upd: "stat_of t s = RT_THREAD_READY \<Longrightarrow> sched_ok s \<Longrightarrow> current_thread s \<noteq> Some t"
  using current_okD(3) [OF sched_okD(2), of s t] by auto

lemma change_priority_ok: "sched_ok s \<Longrightarrow> ctrl_change_priority t p s = Inr (err, s') \<Longrightarrow> sched_ok s'"
proof -
  assume ok: "sched_ok s" and r: "ctrl_change_priority t p s = Inr (err, s')"
  let ?f = "\<lambda>x. x\<lparr>current_priority := p, number_mask := push_bit p 1\<rparr>"
  note l = sched_okD(1) [OF ok] and cu = current_okD(1,2) [OF sched_okD(2) [OF ok]]
  have p: "p < 32" using r by (auto simp: ctrl_change_priority_def set_priority_def bindR_def split: if_splits)
  show ?thesis
  proof (cases "stat_of t s = RT_THREAD_READY")
    case True
    let ?s1 = "on_thread t ?f (rt_schedule_remove_thread t s)"
    have "ready_ok {t} (rt_schedule_remove_thread t s)" by (rule lists_remove [OF l])
    then have "ready_ok {t} ?s1" by (rule lists_on) (use p in \<open>simp_all add: mask_ok_def\<close>)
    then have 1: "ready_ok {} (rt_schedule_insert_thread t ?s1)"
      by (rule lists_insert) (use True in \<open>simp_all add: stat_of_def\<close>)
    have t: "current_thread ?s1 \<noteq> Some t" using current_upd [OF True ok] by simp
    have st: "stat_of u ?s1 = stat_of u s" for u by (simp add: stat_of_def)
    have "current_ok {} (rt_schedule_insert_thread t ?s1)"
    proof (rule current_okI)
      fix c
      assume "current_thread (rt_schedule_insert_thread t ?s1) = Some c"
      then have "current_thread s = Some c" "c \<noteq> t" using t unfolding insert_sel(2) [OF t] by auto
      then show "stat_of c (rt_schedule_insert_thread t ?s1) = RT_THREAD_RUNNING \<or>
          stat_of c (rt_schedule_insert_thread t ?s1) = RT_THREAD_SUSPEND \<or>
          stat_of c (rt_schedule_insert_thread t ?s1) = RT_THREAD_CLOSE"
        using cu(1) [of c] unfolding insert_sel(1) [OF t] st by simp
    next
      fix u
      assume "stat_of u (rt_schedule_insert_thread t ?s1) = RT_THREAD_RUNNING"
      then have "stat_of u s = RT_THREAD_RUNNING" unfolding insert_sel(1) [OF t] st by (simp split: if_splits)
      then show "current_thread (rt_schedule_insert_thread t ?s1) = Some u"
        using cu(2) [of u] unfolding insert_sel(2) [OF t] by simp
    qed
    with 1 show ?thesis using r True p
      by (auto simp: ctrl_change_priority_def set_priority_def bindR_def sched_ok_def)
  next
    case False
    have "sched_ok (on_thread t ?f s)"
      by (rule change_idle [OF ok False]) (use False p in \<open>simp_all add: stat_of_def mask_ok_def\<close>)
    then show ?thesis using r False p by (auto simp: ctrl_change_priority_def set_priority_def bindR_def)
  qed
qed

lemma detach_ok: "sched_ok s \<Longrightarrow> sched_ok (snd (rt_thread_detach t s))"
proof -
  assume ok: "sched_ok s"
  note l = sched_okD(1) [OF ok] and cu = current_okD(1,2) [OF sched_okD(2) [OF ok]]
  let ?f = "\<lambda>x. x\<lparr>th_stat := RT_THREAD_CLOSE, th_timer := None\<rparr>"
  consider "stat_of t s = RT_THREAD_CLOSE" | "stat_of t s = RT_THREAD_INIT"
    | "stat_of t s \<noteq> RT_THREAD_CLOSE" "stat_of t s \<noteq> RT_THREAD_INIT" by blast
  then show ?thesis
  proof cases
    case 2
    have "sched_ok (on_thread t ?f s)"
      by (rule change_idle [OF ok])
        (use 2 lists_okD(3) [OF l, of t] mask_ok_close [OF lists_okD(4) [OF l, of t]] in \<open>simp_all\<close>)
    with 2 show ?thesis by (simp add: rt_thread_detach_def)
  next
    case 3
    have "ready_ok {t} (rt_schedule_remove_thread t s)" by (rule lists_remove [OF l])
    then have "ready_ok {t} (on_thread t ?f (rt_schedule_remove_thread t s))"
      by (rule lists_on) (use lists_okD(3) [OF l, of t] mask_ok_close [OF lists_okD(4) [OF l, of t]] in simp_all)
    then have 1: "ready_ok {} (on_thread t ?f (rt_schedule_remove_thread t s))" by (rule lists_free) simp
    have "current_ok {} (on_thread t ?f (rt_schedule_remove_thread t s))"
    proof (rule current_okI)
      fix c
      assume "current_thread (on_thread t ?f (rt_schedule_remove_thread t s)) = Some c"
      then show "stat_of c (on_thread t ?f (rt_schedule_remove_thread t s)) = RT_THREAD_RUNNING \<or>
          stat_of c (on_thread t ?f (rt_schedule_remove_thread t s)) = RT_THREAD_SUSPEND \<or>
          stat_of c (on_thread t ?f (rt_schedule_remove_thread t s)) = RT_THREAD_CLOSE" using cu(1) [of c] by simp
    next
      fix u
      assume "stat_of u (on_thread t ?f (rt_schedule_remove_thread t s)) = RT_THREAD_RUNNING"
      then show "current_thread (on_thread t ?f (rt_schedule_remove_thread t s)) = Some u"
        using cu(2) [of u] by (simp split: if_splits)
    qed
    with 1 3 show ?thesis by (simp add: rt_thread_detach_def sched_ok_def)
  qed (use ok in \<open>simp add: rt_thread_detach_def\<close>)
qed

lemma delete_detach: "rt_thread_delete t s = rt_thread_detach t s"
  by (simp add: rt_thread_delete_def rt_thread_detach_def)

lemma control_ok:
  assumes ok: "sched_ok s" and r: "rt_thread_control t system cmd s = Inr (err, s')"
  shows "sched_ok s'"
proof (cases cmd)
  case Ctrl_startup
  then show ?thesis using r startup_ok [OF ok] by (simp add: rt_thread_control_def)
next
  case Ctrl_close
  then have "rt_schedule (snd (rt_thread_detach t s)) = Inr s'"
    using r by (cases "rt_thread_detach t s"; cases system) (auto simp: rt_thread_control_def delete_detach bindR_eq_Inr)
  then show ?thesis by (rule schedule_keeps [OF detach_ok [OF ok]])
next
  case (Ctrl_change_priority p)
  then show ?thesis using r change_priority_ok [OF ok] by (simp add: rt_thread_control_def)
next
  case Ctrl_other
  then show ?thesis using r ok by (simp add: rt_thread_control_def)
qed

lemma exit_ok: "sched_ok s \<Longrightarrow> thread_exit s = Inr s' \<Longrightarrow> sched_ok s'"
proof -
  assume ok: "sched_ok s" and r: "thread_exit s = Inr s'"
  obtain c where c: "current_thread s = Some c" using r by (auto simp: thread_exit_def split: option.splits)
  note l = sched_okD(1) [OF ok]
  have "sched_ok (on_thread c (\<lambda>x. x\<lparr>th_stat := RT_THREAD_CLOSE, th_timer := None\<rparr>) s)"
    by (rule change_idle [OF ok]) (use c current_okD(3) [OF sched_okD(2) [OF ok] c] lists_okD(3) [OF l, of c]
        mask_ok_close [OF lists_okD(4) [OF l, of c]] in simp_all)
  then show ?thesis using r c schedule_keeps by (simp add: thread_exit_def remove_current [OF ok c])
qed

lemma init_ok:
  assumes ok: "sched_ok s" and "stat_of t s = RT_THREAD_INIT \<or> stat_of t s = RT_THREAD_CLOSE" and c: "current_thread s \<noteq> Some t"
    and "rt_thread_init t priority tick s = Inr (err, s')"
  shows "sched_ok s'"
proof -
  have "sched_ok (on_thread t (\<lambda>x. \<lparr>th_stat = RT_THREAD_INIT, current_priority = priority, number_mask = 0,
      th_init_tick = tick, th_remaining_tick = tick, th_error = RT_EOK, th_timer = None\<rparr>) s)"
    if "priority < 32"
    by (rule change_idle [OF ok]) (use assms(2) c that in \<open>auto simp: mask_ok_def\<close>)
  then show ?thesis using assms(4) by (auto simp: rt_thread_init_def thread_init_def RT_THREAD_PRIORITY_MAX_def split: if_splits)
qed

lemma start_ok:
  assumes ok: "sched_ok s" and "rt_system_scheduler_start s = Inr s'" and "current_thread s = None"
  shows "sched_ok s'"
proof -
  note l = sched_okD(1) [OF ok]
  obtain p t where h: "highest_thread s = Inr (p, t)" and s': "s' = on_thread t (\<lambda>x. x\<lparr>th_stat := RT_THREAD_RUNNING\<rparr>)
      (rt_schedule_remove_thread t (s\<lparr>current_thread := Some t\<rparr>))"
    using assms(2) by (auto simp: rt_system_scheduler_start_def bindR_eq_Inr)
  have "rt_ffs (ready_group s) \<noteq> 0" using h by (auto simp: highest_thread_def split: nat.splits)
  then have "ready_group s \<noteq> 0" by (auto simp: rt_ffs_def)
  then have t: "stat_of t s = RT_THREAD_READY" using h by (auto intro: highest_ok [OF l])
  let ?s1 = "rt_schedule_remove_thread t (s\<lparr>current_thread := Some t\<rparr>)"
  have "ready_ok {t} ?s1" by (rule lists_remove) (simp add: l)
  then have "ready_ok {t} s'" unfolding s'
    by (rule lists_on) (use lists_okD(3) [OF l, of t] mask_ok_started [OF lists_okD(4) [OF l, of t]] t in simp_all)
  then have "ready_ok {} s'" by (rule lists_free) (simp add: s')
  moreover have "current_ok {} s'"
    by (rule current_okI) (use assms(3) current_okD(2) [OF sched_okD(2) [OF ok]] in \<open>simp_all add: s' split: if_splits\<close>)
  ultimately show ?thesis by (simp add: sched_ok_def)
qed

subsection \<open>What the scheduler promises\<close>

text \<open>The system starts with no thread; then threads are made, started, resumed, suspended and closed, change their priority,
  yield, sleep and time out, the scheduler is locked and unlocked, and ticks pass.\<close>

inductive sched_reach :: "scheduler \<Rightarrow> bool" where
  boot: "(\<And>t. stat_of t s = RT_THREAD_INIT \<and> number_mask (threads s t) = 0 \<and> current_priority (threads s t) < 32) \<Longrightarrow>
    current_thread s = None \<Longrightarrow> sched_reach (rt_system_scheduler_init s)"
| start: "sched_reach s \<Longrightarrow> current_thread s = None \<Longrightarrow> rt_system_scheduler_start s = Inr s' \<Longrightarrow> sched_reach s'"
| init: "sched_reach s \<Longrightarrow> stat_of t s = RT_THREAD_INIT \<or> stat_of t s = RT_THREAD_CLOSE \<Longrightarrow> current_thread s \<noteq> Some t \<Longrightarrow>
    rt_thread_init t priority tick s = Inr (err, s') \<Longrightarrow> sched_reach s'"
| startup: "sched_reach s \<Longrightarrow> rt_thread_startup t s = Inr (err, s') \<Longrightarrow> sched_reach s'"
| schedule: "sched_reach s \<Longrightarrow> rt_schedule s = Inr s' \<Longrightarrow> sched_reach s'"
| resume: "sched_reach s \<Longrightarrow> rt_thread_resume t s = (err, s') \<Longrightarrow> sched_reach s'"
| suspend: "sched_reach s \<Longrightarrow> rt_thread_suspend t s = Inr (err, s') \<Longrightarrow> sched_reach s'"
| yield_turn: "sched_reach s \<Longrightarrow> rt_thread_yield s = Inr s' \<Longrightarrow> sched_reach s'"
| tick: "sched_reach s \<Longrightarrow> time_slice s = Inr s' \<Longrightarrow> sched_reach s'"
| sleep: "sched_reach s \<Longrightarrow> rt_thread_sleep tick s = Inr s' \<Longrightarrow> sched_reach s'"
| delay: "sched_reach s \<Longrightarrow> rt_thread_delay_until cur tick inc s = Inr (tick', s') \<Longrightarrow> sched_reach s'"
| wake: "sched_reach s \<Longrightarrow> slept t s = (err, s') \<Longrightarrow> sched_reach s'"
| timeout: "sched_reach s \<Longrightarrow> thread_timeout t s = Inr s' \<Longrightarrow> sched_reach s'"
| control: "sched_reach s \<Longrightarrow> rt_thread_control t system cmd s = Inr (err, s') \<Longrightarrow> sched_reach s'"
| detach: "sched_reach s \<Longrightarrow> rt_thread_detach t s = (err, s') \<Longrightarrow> sched_reach s'"
| remove: "sched_reach s \<Longrightarrow> rt_thread_delete t s = (err, s') \<Longrightarrow> sched_reach s'"
| leave: "sched_reach s \<Longrightarrow> thread_exit s = Inr s' \<Longrightarrow> sched_reach s'"
| lock: "sched_reach s \<Longrightarrow> sched_reach (rt_enter_critical s)"
| unlock: "sched_reach s \<Longrightarrow> rt_exit_critical s = Inr s' \<Longrightarrow> sched_reach s'"

lemma sched_ok_lock [simp]: "sched_ok (s\<lparr>lock_nest := n\<rparr>) = sched_ok s"
  by (simp add: sched_ok_def current_ok_def)

lemma yielding_ok:
  "sched_ok s \<Longrightarrow> sched_ok (on_thread c (\<lambda>x. x\<lparr>th_remaining_tick := th_init_tick x,
     th_stat := th_stat x OR RT_THREAD_STAT_YIELD\<rparr>) s)"
  by (intro change_same) (simp_all add: stat_of_def)

lemma sched_reach_ok: "sched_reach s \<Longrightarrow> sched_ok s"
proof (induction rule: sched_reach.induct)
  case (boot s)
  then show ?case
    by (simp add: sched_ok_def ready_ok_def current_ok_def mask_ok_def rt_system_scheduler_init_def stat_of_def)
next
  case (yield_turn s s')
  then show ?case using schedule_keeps yielding_ok by (auto simp: rt_thread_yield_def split: option.splits)
next
  case (tick s s')
  have 1: "sched_ok (on_thread c (\<lambda>x. x\<lparr>th_remaining_tick := th_remaining_tick x - 1\<rparr>) s)" for c
    using tick.IH by (intro change_same) (simp_all add: stat_of_def)
  show ?case using tick.hyps(2) schedule_keeps [OF yielding_ok [OF 1]] 1
    by (auto simp: time_slice_def Let_def split: option.splits if_splits)
next
  case (wake s t err s')
  have "sched_ok (on_thread t (\<lambda>x. x\<lparr>th_error := RT_EOK\<rparr>) s)"
    using wake.IH by (intro change_same) (simp_all add: stat_of_def)
  then show ?case using wake by (auto simp: slept_def Let_def split: if_splits)
next
  case (resume s t err s')
  then show ?case using thread_resume_ok [of s t] by simp
next
  case (detach s t err s')
  then show ?case using detach_ok [of s t] by simp
next
  case (remove s t err s')
  then show ?case using detach_ok [of s t] by (simp add: delete_detach)
next
  case (unlock s s')
  then show ?case using schedule_keeps [of "s\<lparr>lock_nest := 0\<rparr>"]
    by (auto simp: rt_exit_critical_def Let_def split: if_splits)
qed (auto simp: rt_enter_critical_def intro: start_ok init_ok startup_ok schedule_keeps thread_suspend_ok sleep_ok delay_until_ok
    timeout_ok control_ok exit_ok)

text \<open>C6: Once the system runs, \<open>rt_schedule\<close> never faults, and unless the scheduler is locked it leaves the processor to a thread such that no
  ready thread has a higher priority.  At any time the list of a priority holds its ready threads, the group has a bit
  for every list that is not empty, and no thread but the current one is running.
\<close>

theorem scheduler_most_urgent:
  assumes "sched_reach s" and "current_thread s = Some c"
  shows "(\<exists>s'. rt_schedule s = Inr s' \<and> (lock_nest s = 0 \<longrightarrow> most_urgent s')) \<and>
    (\<forall>p t. t \<in> set (priority_table s p) \<longleftrightarrow>
       stat_of t s = RT_THREAD_READY \<and> current_priority (threads s t) = p) \<and>
    (\<forall>p. bit (ready_group s) p \<longleftrightarrow> priority_table s p \<noteq> []) \<and>
    (\<forall>t. stat_of t s = RT_THREAD_RUNNING \<longrightarrow> t = c)"
proof -
  note ok = sched_reach_ok [OF assms(1)]
  have "\<exists>s'. rt_schedule s = Inr s' \<and> (lock_nest s = 0 \<longrightarrow> most_urgent s')"
    using schedule_ok [OF ok assms(2)] by blast
  moreover have "t = c" if "stat_of t s = RT_THREAD_RUNNING" for t
    using current_okD(2) [OF sched_okD(2) [OF ok] that] assms(2) by simp
  ultimately show ?thesis using lists_okD(2,5) [OF sched_okD(1) [OF ok]] by simp
qed

text \<open>\<open>rt_thread_control\<close> does to the priorities what the model of the mutex says.\<close>

lemma control_changes_priority:
  assumes "rt_thread_control t system (Ctrl_change_priority p) s = Inr (err, s')"
  shows "(\<lambda>u. current_priority (threads s' u)) = change_priority t p (\<lambda>u. current_priority (threads s u))"
  using assms
  by (auto simp: rt_thread_control_def ctrl_change_priority_def set_priority_def bindR_def change_priority_def rt_schedule_insert_thread_def
      Let_def fun_eq_iff split: if_splits)

subsection \<open>Taking turns\<close>

fun yields :: "nat \<Rightarrow> scheduler \<Rightarrow> scheduler result" where
  "yields 0 s = Inr s"
| "yields (Suc k) s = bindR (rt_thread_yield s) (yields k)"

text \<open>Thread \<open>c\<close> runs, \<open>us\<close> are the others of its priority, nobody more urgent is ready.\<close>

definition has_turn :: "nat \<Rightarrow> nat \<Rightarrow> nat list \<Rightarrow> scheduler \<Rightarrow> bool" where
  "has_turn p c us s \<longleftrightarrow> sched_ok s \<and> lock_nest s = 0 \<and> current_thread s = Some c \<and> stat_of c s = RT_THREAD_RUNNING \<and>
     current_priority (threads s c) = p \<and> priority_table s p = us \<and> (\<forall>q<p. priority_table s q = [])"

lemma yield_turn_ok:
  assumes "has_turn p c us s"
  shows "\<exists>s'. rt_thread_yield s = Inr s' \<and> has_turn p (hd (us @ [c])) (tl (us @ [c])) s'"
proof -
  define s1 where "s1 = on_thread c (\<lambda>x. x\<lparr>th_remaining_tick := th_init_tick x,
    th_stat := th_stat x OR RT_THREAD_STAT_YIELD\<rparr>) s"
  have k: "sched_ok s" "lock_nest s = 0" "current_thread s = Some c" "stat_of c s = RT_THREAD_RUNNING"
    "current_priority (threads s c) = p" "priority_table s p = us" "\<And>q. q < p \<Longrightarrow> priority_table s q = []"
    using assms by (simp_all add: has_turn_def)
  have ok: "sched_ok s1" unfolding s1_def by (rule yielding_ok [OF k(1)])
  have sel: "priority_table s1 = priority_table s" "lock_nest s1 = 0" "current_thread s1 = Some c"
    "stat_of u s1 = stat_of u s" "current_priority (threads s1 u) = current_priority (threads s u)" for u
    by (simp_all add: s1_def k stat_of_def)
  have "(x OR RT_THREAD_STAT_YIELD) AND RT_THREAD_STAT_YIELD \<noteq> 0" for x
    by (simp add: RT_THREAD_STAT_YIELD_def bit.conj_disj_distrib2)
  then have y: "th_stat (threads s1 c) AND RT_THREAD_STAT_YIELD \<noteq> 0" by (simp add: s1_def)
  have y1: "rt_thread_yield s = rt_schedule s1" using k(3) by (simp add: rt_thread_yield_def s1_def)
  have low: "p \<le> q" if "highest_thread s1 = Inr (q, t)" "priority_table s1 q \<noteq> []" for q t
    using k(7) that(2) sel(1) by (metis not_less)
  have distinct: "distinct us" using lists_okD(1) [OF sched_okD(1) [OF k(1)], of p] k(6) by simp
  have c: "c \<notin> set us" using lists_okD(2) [OF sched_okD(1) [OF k(1)], of c p] k(4,6) by simp
  have group: "ready_group s1 \<noteq> 0" if "us \<noteq> []"
    using lists_okD(5) [OF sched_okD(1) [OF ok], of p] that k(6) sel(1) by auto
  show ?thesis
  proof (cases us)
    case Nil
    from ok sel(3) show ?thesis
    proof (cases rule: schedule_cases)
      case off
      then show ?thesis using y1 ok k Nil by (auto simp: has_turn_def sel)
    next
      case (stay q t)
      have u: "sched_ok (unyield c s1)" using ok unyield_ok by (simp add: sched_ok_def)
      show ?thesis using stay(5) y1 keep_current [OF u] k Nil sel
        by (simp add: has_turn_def)
    next
      case (swap q t ts)
      have "p \<le> q" by (rule low [OF swap(2)]) (simp add: swap(4))
      then have "q = p" using swap(6) k(5) sel(5) by auto
      with swap(4) Nil k(6) sel(1) show ?thesis by simp
    next
      case (leave q t ts)
      then show ?thesis using k(4) sel(4) by simp
    qed
  next
    case (Cons u us')
    from ok sel(3) show ?thesis
    proof (cases rule: schedule_cases)
      case off
      then show ?thesis using group Cons sel(2) by simp
    next
      case (stay q t)
      have "stat_of u s1 = RT_THREAD_READY \<and> current_priority (threads s1 u) = p"
        using lists_okD(2) [OF sched_okD(1) [OF ok], of u p] k(6) Cons sel(1) by simp
      moreover have "ready_group s1 \<noteq> 0" using group Cons by simp
      ultimately have "q \<le> p" using stay(2) by (auto elim: highest_ok [OF sched_okD(1) [OF ok]])
      with stay(4) y k(5) sel(5) show ?thesis by auto
    next
      case (swap q t ts)
      have "p \<le> q" by (rule low [OF swap(2)]) (simp add: swap(4))
      then have q: "q = p" using swap(6) k(5) sel(5) by auto
      then have us: "us = t # ts" using swap(4) k(6) sel(1) by simp
      let ?s2 = "unyield c s1\<lparr>current_thread := Some t\<rparr>"
      let ?s' = "switch_to t (rt_schedule_insert_thread c ?s2)"
      have 2: "current_thread ?s2 \<noteq> Some c" using swap(3) by simp
      have tab: "priority_table (rt_schedule_insert_thread c ?s2) = (priority_table s)(p := us @ [c])"
        using k(5,6) sel(1,5) by (simp add: insert_sel(5) [OF 2])
      have "sched_ok ?s'" by (rule schedule_keeps [OF ok swap(7)])
      moreover have "priority_table ?s' p = ts @ [c]" using distinct us swap(3) by (simp add: tab)
      moreover have "priority_table ?s' r = []" if "r < p" for r using k(7) [OF that] that by (simp add: tab)
      moreover have "current_priority (threads s t) = p"
        using lists_okD(2) [OF sched_okD(1) [OF k(1)], of t p] k(6) us by simp
      moreover have "hd (us @ [c]) = t" "tl (us @ [c]) = ts @ [c]" using us by simp_all
      ultimately have "has_turn p (hd (us @ [c])) (tl (us @ [c])) ?s'"
        using sel(2,5) by (simp add: has_turn_def insert_sel(2,3,4) [OF 2])
      then show ?thesis using swap(7) y1 by simp
    next
      case (leave q t ts)
      then show ?thesis using k(4) sel(4) by simp
    qed
  qed
qed

lemma yields_turn:
  "has_turn p c us s \<Longrightarrow> \<exists>s'. yields k s = Inr s' \<and> has_turn p (hd (rotate k (c # us))) (tl (rotate k (c # us))) s'"
proof (induction k arbitrary: c us s)
  case (Suc k)
  obtain s1 where 1: "rt_thread_yield s = Inr s1" "has_turn p (hd (us @ [c])) (tl (us @ [c])) s1"
    using yield_turn_ok [OF Suc.prems] by blast
  have "hd (us @ [c]) # tl (us @ [c]) = rotate1 (c # us)" by simp
  then have "rotate k (hd (us @ [c]) # tl (us @ [c])) = rotate (Suc k) (c # us)" by (simp add: rotate1_rotate_swap)
  with Suc.IH [OF 1(2)] 1(1) show ?case by simp
qed simp

text \<open>C7: Threads of equal priority take turns: with \<open>us\<close> ready beside the running thread \<open>c\<close> and nobody more urgent, the \<open>k\<close>-th yield leaves
  the processor to the next one in the circle of \<open>c\<close> and \<open>us\<close>, and the others wait in their order.
\<close>

theorem yield_round_robin:
  assumes "sched_reach s" and "lock_nest s = 0" and "current_thread s = Some c" and "stat_of c s = RT_THREAD_RUNNING"
    and "priority_table s (current_priority (threads s c)) = us" and "most_urgent s"
  shows "\<exists>s'. yields k s = Inr s' \<and> current_thread s' = Some (hd (rotate k (c # us))) \<and>
    priority_table s' (current_priority (threads s c)) = tl (rotate k (c # us))"
proof -
  note ok = sched_reach_ok [OF assms(1)]
  have "priority_table s q = []" if "q < current_priority (threads s c)" for q
  proof (rule ccontr)
    assume "priority_table s q \<noteq> []"
    then obtain t where "t \<in> set (priority_table s q)" by (cases "priority_table s q") auto
    then have "stat_of t s = RT_THREAD_READY" "current_priority (threads s t) = q"
      using lists_okD(2) [OF sched_okD(1) [OF ok], of t q] by simp_all
    with assms(3,6) that show False by (auto simp: most_urgent_def)
  qed
  then have "has_turn (current_priority (threads s c)) c us s" using ok assms(2-5) by (simp add: has_turn_def)
  from yields_turn [OF this, of k] show ?thesis by (auto simp: has_turn_def)
qed

subsection \<open>Instances\<close>

text \<open>Two threads of priority 10 are made and started, and the scheduler starts.\<close>

definition new_thread :: rt_thread where
  "new_thread = \<lparr>th_stat = RT_THREAD_INIT, current_priority = 10, number_mask = 0, th_init_tick = 5,
     th_remaining_tick = 5, th_error = RT_EOK, th_timer = None\<rparr>"

definition ready_thread :: rt_thread where
  "ready_thread = new_thread\<lparr>number_mask := push_bit 10 1, th_stat := RT_THREAD_READY\<rparr>"

definition demo_sched :: "nat list \<Rightarrow> nat option \<Rightarrow> (nat \<Rightarrow> rt_thread) \<Rightarrow> scheduler" where
  "demo_sched ts c thr = \<lparr>priority_table = (\<lambda>p. if p = 10 then ts else []), ready_group = (if ts = [] then 0 else push_bit 10 1),
     lock_nest = 0, current_thread = c, threads = thr\<rparr>"

lemmas sched_eval = demo_sched_def new_thread_def ready_thread_def stat_of_def on_thread_def set_stat_def unlink_def
  stat_codes RT_THREAD_STAT_MASK_def rt_thread_resume_def rt_schedule_insert_thread_def rt_schedule_remove_thread_def
  highest_thread_def Let_def fun_eq_iff

lemma ready_word: "(0x02 :: 8 word) AND 0x07 = 0x02" "(0x01 :: 8 word) OR (0x02 AND NOT 0x07) = 0x01"
  by simp_all

lemma demo_startup:
  assumes "thr t = new_thread" and "t \<notin> set ts"
  shows "rt_thread_startup t (demo_sched ts None thr) = Inr (RT_EOK, demo_sched (ts @ [t]) None (thr(t := ready_thread)))"
  using assms by (simp add: rt_thread_startup_def sched_eval)

lemma sched_demo_reach:
  "\<exists>s. sched_reach s \<and> lock_nest s = 0 \<and> current_thread s = Some 1 \<and> stat_of 1 s = RT_THREAD_RUNNING \<and>
     current_priority (threads s 1) = 10 \<and> priority_table s 10 = [2] \<and> most_urgent s"
proof -
  let ?thr = "\<lambda>t. new_thread" and ?thr2 = "(\<lambda>t. new_thread)(1 := ready_thread, 2 := ready_thread)"
  have "rt_system_scheduler_init (demo_sched [] None ?thr) = demo_sched [] None ?thr"
    by (simp add: rt_system_scheduler_init_def demo_sched_def)
  moreover have "sched_reach (rt_system_scheduler_init (demo_sched [] None ?thr))"
    by (rule sched_reach.boot) (simp_all add: demo_sched_def new_thread_def stat_of_def RT_THREAD_INIT_def)
  ultimately have "sched_reach (demo_sched [] None ?thr)" by simp
  from sched_reach.startup [OF this demo_startup [of ?thr 1 "[]"]]
  have "sched_reach (demo_sched [1] None (?thr(1 := ready_thread)))" by simp
  from sched_reach.startup [OF this demo_startup [of _ 2 "[1]"]]
  have 2: "sched_reach (demo_sched [1, 2] None ?thr2)" by simp
  let ?s = "rt_schedule_remove_thread 1 (demo_sched [1, 2] (Some 1) ?thr2)"
  let ?s' = "on_thread 1 (\<lambda>x. x\<lparr>th_stat := RT_THREAD_RUNNING\<rparr>) ?s"
  have "rt_ffs (push_bit 10 1) = 11"
    by (simp add: rt_ffs_def lowest_bit_bitmap_def)
  then have "rt_system_scheduler_start (demo_sched [1, 2] None ?thr2) = Inr ?s'"
    by (simp add: rt_system_scheduler_start_def highest_thread_def demo_sched_def)
  then have r: "sched_reach ?s'" using sched_reach.start [OF 2] by (simp add: demo_sched_def)
  have "most_urgent ?s'"
    by (auto simp: most_urgent_def stat_of_def demo_sched_def new_thread_def ready_thread_def)
  with r show ?thesis
    by (intro exI [of _ ?s'] conjI) (simp_all add: demo_sched_def new_thread_def ready_thread_def)
qed

theorem scheduler_most_urgent_witness:
  "\<exists>s s'. sched_reach s \<and> current_thread s = Some 1 \<and> rt_schedule s = Inr s' \<and> most_urgent s'"
  using sched_demo_reach scheduler_most_urgent by blast

theorem yield_round_robin_witness:
  "\<exists>s s'. sched_reach s \<and> current_thread s = Some 1 \<and> yields 3 s = Inr s' \<and> current_thread s' = Some 2 \<and>
     priority_table s' 10 = [1]"
proof -
  obtain s where s: "sched_reach s" "lock_nest s = 0" "current_thread s = Some 1" "stat_of 1 s = RT_THREAD_RUNNING"
    "current_priority (threads s 1) = 10" "priority_table s 10 = [2]" "most_urgent s" using sched_demo_reach by blast
  have "priority_table s (current_priority (threads s 1)) = [2]" using s(5,6) by simp
  from yield_round_robin [OF s(1-4) this s(7), of 3] s(1,3,5) show ?thesis by (auto simp: numeral_3_eq_3)
qed

end
