(* ===== verification/Rt_Event.thy ===== *)
theory Rt_Event
  imports Rt_Ipc "HOL-Library.Word"
begin

unbundle bit_operations_syntax

text \<open>
  Event sets of the kernel (\<open>ipc.c\<close>): 32 flags on which threads wait, for all or for one of those they name.  What a
  thread waits for and what it got are fields of the thread, \<open>event_set\<close> and \<open>event_info\<close>: a map here.  \<open>rt_event_send\<close> goes
  through the list once and resumes every thread whose condition holds; one that asked for it takes its flags away from
  those behind it.
\<close>

subsection \<open>The operations\<close>

record rt_event =
  ev_flag :: nat
  ev_set :: "32 word"
  ev_wait :: "nat list"

definition RT_EVENT_FLAG_AND :: "8 word" where "RT_EVENT_FLAG_AND = 0x01"
definition RT_EVENT_FLAG_OR :: "8 word" where "RT_EVENT_FLAG_OR = 0x02"
definition RT_EVENT_FLAG_CLEAR :: "8 word" where "RT_EVENT_FLAG_CLEAR = 0x04"

text \<open>The fields \<open>event_set\<close> and \<open>event_info\<close> of every thread, and the arguments of a call of \<open>rt_event_recv\<close>.\<close>

type_synonym event_info = "nat \<Rightarrow> 32 word \<times> 8 word"

record event_call =
  ec_set :: "32 word"
  ec_option :: "8 word"
  ec_timeout :: int

definition has :: "8 word \<Rightarrow> 8 word \<Rightarrow> bool" where
  "has opt flag \<longleftrightarrow> opt AND flag \<noteq> 0"

definition fresh_event :: "nat \<Rightarrow> rt_event" where
  "fresh_event flag = \<lparr>ev_flag = flag, ev_set = 0, ev_wait = []\<rparr>"

definition rt_event_init :: "nat \<Rightarrow> (int \<times> rt_event) result" where
  "rt_event_init flag =
     (if \<not> valid_flag flag then Inl Assert_failed else Inr (RT_EOK, fresh_event flag))"

definition rt_event_create :: "bool \<Rightarrow> nat \<Rightarrow> rt_event option result" where
  "rt_event_create obj flag =
     (if \<not> valid_flag flag then Inl Assert_failed
      else if \<not> obj then Inr None
      else Inr (Some (fresh_event flag)))"

definition rt_event_detach :: "rt_event \<Rightarrow> event_call threads \<Rightarrow> (int \<times> event_call threads)" where
  "rt_event_detach e th = (RT_EOK, ipc_list_resume_all (ev_wait e) th)"

definition rt_event_delete :: "rt_event \<Rightarrow> event_call threads \<Rightarrow> (int \<times> event_call threads)" where
  "rt_event_delete e th = (RT_EOK, ipc_list_resume_all (ev_wait e) th)"

text \<open>The loop of \<open>rt_event_send\<close>: its code, the threads that stay on the list, those it resumes, the flags and the
  fields of the threads.\<close>

fun event_scan ::
    "nat list \<Rightarrow> 32 word \<Rightarrow> event_info \<Rightarrow> int \<times> nat list \<times> nat list \<times> 32 word \<times> event_info" where
  "event_scan [] evs ei = (RT_EOK, [], [], evs, ei)"
| "event_scan (u # us) evs ei =
     (let (want, opt) = ei u;
          pass = (\<lambda>ei. let (code, stay, woken, evs', ei') = event_scan us evs ei
                        in (code, u # stay, woken, evs', ei'));
          resume = (\<lambda>ei. let left = (if has opt RT_EVENT_FLAG_CLEAR then evs AND NOT (fst (ei u)) else evs);
                              (code, stay, woken, evs', ei') = event_scan us left ei
                          in (code, stay, u # woken, evs', ei'))
      in if has opt RT_EVENT_FLAG_AND then
           (if want AND evs = want then resume ei else pass ei)
         else if has opt RT_EVENT_FLAG_OR then
           (if want AND evs \<noteq> 0 then resume (ei(u := (want AND evs, opt))) else pass ei)
         else (- RT_EINVAL, u # us, [], evs, ei))"

definition rt_event_send ::
    "32 word \<Rightarrow> rt_event \<Rightarrow> event_info \<Rightarrow> int \<times> nat list \<times> rt_event \<times> event_info" where
  "rt_event_send new e ei =
     (if new = 0 then (- RT_ERROR, [], e, ei)
      else (case event_scan (ev_wait e) (ev_set e OR new) ei of
          (code, stay, woken, evs, ei') \<Rightarrow> (code, woken, e\<lparr>ev_set := evs, ev_wait := stay\<rparr>, ei')))"

definition rt_event_recv ::
    "int option \<Rightarrow> (nat \<Rightarrow> nat) \<Rightarrow> nat \<Rightarrow> event_call \<Rightarrow> rt_event \<Rightarrow> event_info \<Rightarrow>
     ((event_call, 32 word) outcome \<times> rt_event \<times> event_info) result" where
  "rt_event_recv woken prio t c e ei =
     (case woken of
        None \<Rightarrow>
          if ec_set c = 0 then Inr (Finish (- RT_ERROR) None None, e, ei)
          else bindR (if has (ec_option c) RT_EVENT_FLAG_AND then Inr (ev_set e AND ec_set c = ec_set c)
                      else if has (ec_option c) RT_EVENT_FLAG_OR then Inr (ev_set e AND ec_set c \<noteq> 0)
                      else Inl Assert_failed)
            (\<lambda>ok. if ok then
                Inr (Finish RT_EOK None (Some (ev_set e AND ec_set c)),
                     (if has (ec_option c) RT_EVENT_FLAG_CLEAR then e\<lparr>ev_set := ev_set e AND NOT (ec_set c)\<rparr> else e),
                     ei(t := (ev_set e AND ec_set c, ec_option c)))
              else if ec_timeout c = 0 then Inr (Finish (- RT_ETIMEOUT) None None, e, ei)
              else bindR (ipc_list_suspend (ev_wait e) t (ev_flag e) prio)
                (\<lambda>ts. Inr (Suspend c, e\<lparr>ev_wait := ts\<rparr>, ei(t := (ec_set c, ec_option c)))))
      | Some err \<Rightarrow>
          if err \<noteq> RT_EOK then Inr (Finish err None None, e, ei)
          else Inr (Finish RT_EOK None (Some (fst (ei t))), e, ei))"

definition rt_event_control ::
    "rt_event \<Rightarrow> nat \<Rightarrow> event_call threads \<Rightarrow> int \<times> rt_event \<times> event_call threads" where
  "rt_event_control e cmd th =
     (if cmd = RT_IPC_CMD_RESET then
        (RT_EOK, e\<lparr>ev_wait := [], ev_set := 0\<rparr>, ipc_list_resume_all (ev_wait e) th)
      else (- RT_ERROR, e, th))"

subsection \<open>One pass through the list\<close>

text \<open>The condition of a thread, and what one that gets through was to get.\<close>

fun met :: "32 word \<times> 8 word \<Rightarrow> 32 word \<Rightarrow> bool" where
  "met (want, opt) evs =
     (if has opt RT_EVENT_FLAG_AND then want AND evs = want
      else has opt RT_EVENT_FLAG_OR \<and> want AND evs \<noteq> 0)"

definition granted :: "32 word \<Rightarrow> 8 word \<Rightarrow> 32 word \<Rightarrow> bool" where
  "granted want opt got \<longleftrightarrow> (if has opt RT_EVENT_FLAG_AND then got = want else got \<noteq> 0 \<and> got AND want = got)"

definition asks :: "8 word \<Rightarrow> bool" where
  "asks opt \<longleftrightarrow> has opt RT_EVENT_FLAG_AND \<or> has opt RT_EVENT_FLAG_OR"

definition included :: "32 word \<Rightarrow> 32 word \<Rightarrow> bool" where
  "included a b \<longleftrightarrow> a AND b = a"

lemma bit_flag: "bit (a :: 32 word) n \<Longrightarrow> n < 32"
  by (drule bit_imp_le_length) simp

lemma included_iff: "included a b \<longleftrightarrow> (\<forall>n. bit a n \<longrightarrow> bit b n)"
  by (auto simp: included_def bit_eq_iff bit_and_iff dest: bit_flag)

lemma included_refl [simp]: "included a a"
  by (simp add: included_def)

lemma included_trans: "included a b \<Longrightarrow> included b c \<Longrightarrow> included a c"
  by (simp add: included_iff)

lemma included_clear [simp]: "included (a AND NOT b) a"
  by (simp add: included_iff bit_and_iff)

lemma nonzero_bit: "(a :: 32 word) \<noteq> 0 \<longleftrightarrow> (\<exists>n. bit a n)"
  by (auto simp: bit_eq_iff dest: bit_flag)

lemma met_mono: "included a b \<Longrightarrow> met w a \<Longrightarrow> met w b"
proof (cases w)
  case (Pair want opt)
  assume "included a b" and "met w a"
  have "want AND b = want" if "want AND a = want"
    using that \<open>included a b\<close> included_trans [of want a b] by (simp add: included_def)
  moreover have "want AND b \<noteq> 0" if "want AND a \<noteq> 0"
    using that \<open>included a b\<close> by (auto simp: nonzero_bit included_iff bit_and_iff)
  ultimately show ?thesis using Pair \<open>met w a\<close> by (simp split: if_splits)
qed

text \<open>One thread at a time: a thread that does not get through stays, one that does has its flags taken.\<close>

lemma scan_pass:
  assumes "asks (snd (ei u))" and "\<not> met (ei u) evs"
  shows "event_scan (u # us) evs ei =
    (case event_scan us evs ei of (code, stay, woken, evs', ei') \<Rightarrow> (code, u # stay, woken, evs', ei'))"
  using assms by (cases "ei u") (auto simp: asks_def split: if_splits prod.split)

definition grant :: "32 word \<times> 8 word \<Rightarrow> 32 word \<Rightarrow> 32 word" where
  "grant w evs = (if has (snd w) RT_EVENT_FLAG_AND then fst w else fst w AND evs)"

lemma scan_resume:
  assumes "met (ei u) evs"
  shows "event_scan (u # us) evs ei =
    (case event_scan us (if has (snd (ei u)) RT_EVENT_FLAG_CLEAR then evs AND NOT (grant (ei u) evs) else evs)
        (ei(u := (grant (ei u) evs, snd (ei u)))) of
       (code, stay, woken, evs', ei') \<Rightarrow> (code, stay, u # woken, evs', ei'))"
proof (cases "ei u")
  case (Pair want opt)
  then have "ei(u := (want, opt)) = ei" by (simp add: fun_upd_idem)
  with Pair assms show ?thesis by (auto simp: grant_def Let_def split: if_splits prod.split)
qed

lemma grant_included: "met w evs \<Longrightarrow> included (grant w evs) evs"
  by (cases w) (auto simp: grant_def included_def ac_simps split: if_splits)

lemma grant_granted: "met w evs \<Longrightarrow> granted (fst w) (snd w) (grant w evs)"
  by (cases w) (auto simp: grant_def granted_def ac_simps split: if_splits)

declare event_scan.simps(2) [simp del] met.simps [simp del]

lemma event_scan_ok:
  assumes "event_scan us evs ei = (code, stay, woken, evs', ei')"
    and "distinct us" and "\<And>u. u \<in> set us \<Longrightarrow> asks (snd (ei u))"
  shows "code = RT_EOK \<and> mset us = mset stay + mset woken \<and> included evs' evs \<and>
    (\<forall>u. u \<notin> set woken \<longrightarrow> ei' u = ei u) \<and> (\<forall>u\<in>set stay. \<not> met (ei u) evs') \<and>
    (\<forall>u\<in>set woken. snd (ei' u) = snd (ei u) \<and> granted (fst (ei u)) (snd (ei u)) (fst (ei' u)))"
  using assms
proof (induction us arbitrary: evs ei code stay woken evs' ei')
  case (Cons u us)
  have asks: "asks (snd (ei u))" "\<And>v. v \<in> set us \<Longrightarrow> asks (snd (ei v))" and u: "u \<notin> set us"
    using Cons.prems(2,3) by auto
  show ?case
  proof (cases "met (ei u) evs")
    case False
    obtain stay' where s: "event_scan us evs ei = (code, stay', woken, evs', ei')" "stay = u # stay'"
      using Cons.prems(1) scan_pass [where u = u and ei = ei, OF asks(1) False] by (auto split: prod.splits)
    have IH: "code = RT_EOK \<and> mset us = mset stay' + mset woken \<and> included evs' evs \<and>
      (\<forall>u. u \<notin> set woken \<longrightarrow> ei' u = ei u) \<and> (\<forall>u\<in>set stay'. \<not> met (ei u) evs') \<and>
      (\<forall>u\<in>set woken. snd (ei' u) = snd (ei u) \<and> granted (fst (ei u)) (snd (ei u)) (fst (ei' u)))"
      using Cons.IH [OF s(1)] Cons.prems(2) asks(2) by simp
    then show ?thesis using False s(2) met_mono [of evs' evs "ei u"] by auto
  next
    case True
    let ?g = "grant (ei u) evs"
    let ?evs = "if has (snd (ei u)) RT_EVENT_FLAG_CLEAR then evs AND NOT ?g else evs"
    let ?ei = "ei(u := (?g, snd (ei u)))"
    obtain woken' where s: "event_scan us ?evs ?ei = (code, stay, woken', evs', ei')" "woken = u # woken'"
      using Cons.prems(1) scan_resume [where u = u and ei = ei, OF True] by (auto split: prod.splits)
    have "asks (snd (?ei v))" if "v \<in> set us" for v using asks(2) [OF that] asks(1) by simp
    then have IH: "code = RT_EOK \<and> mset us = mset stay + mset woken' \<and> included evs' ?evs \<and>
      (\<forall>v. v \<notin> set woken' \<longrightarrow> ei' v = ?ei v) \<and> (\<forall>v\<in>set stay. \<not> met (?ei v) evs') \<and>
      (\<forall>v\<in>set woken'. snd (ei' v) = snd (?ei v) \<and> granted (fst (?ei v)) (snd (?ei v)) (fst (ei' v)))"
      using Cons.IH [OF s(1)] Cons.prems(2) by simp
    then have "set us = set stay \<union> set woken'" by (metis set_mset_mset set_mset_union)
    then have u': "u \<notin> set stay" "u \<notin> set woken'" using u by auto
    have "included ?evs evs" by simp
    then have w: "included evs' evs" using IH included_trans by blast
    have iu: "ei' u = (?g, snd (ei u))" using IH u'(2) by simp
    have st: "\<forall>v\<in>set stay. \<not> met (ei v) evs'" using IH u'(1) by (metis fun_upd_other)
    have wk: "\<forall>v\<in>set woken'. snd (ei' v) = snd (ei v) \<and> granted (fst (ei v)) (snd (ei v)) (fst (ei' v))"
      using IH u'(2) by (metis fun_upd_other)
    show ?thesis using IH w iu st wk s(2) grant_granted [OF True] by auto
  qed
qed simp

text \<open>Every flag that is taken was there, and goes to one thread.\<close>

definition takes :: "event_info \<Rightarrow> nat \<Rightarrow> nat \<Rightarrow> bool" where
  "takes ei n u \<longleftrightarrow> has (snd (ei u)) RT_EVENT_FLAG_CLEAR \<and> bit (fst (ei u)) n"

lemma event_scan_takes:
  assumes "event_scan us evs ei = (code, stay, woken, evs', ei')"
    and "distinct us" and "\<And>u. u \<in> set us \<Longrightarrow> asks (snd (ei u))"
  shows "length (filter (takes ei' n) woken) + of_bool (bit evs' n) = (of_bool (bit evs n) :: nat)"
  using assms
proof (induction us arbitrary: evs ei code stay woken evs' ei')
  case (Cons u us)
  have asks: "asks (snd (ei u))" "\<And>v. v \<in> set us \<Longrightarrow> asks (snd (ei v))" and u: "u \<notin> set us"
    using Cons.prems(2,3) by auto
  show ?case
  proof (cases "met (ei u) evs")
    case False
    obtain stay' where s: "event_scan us evs ei = (code, stay', woken, evs', ei')" "stay = u # stay'"
      using Cons.prems(1) scan_pass [where u = u and ei = ei, OF asks(1) False] by (auto split: prod.splits)
    then show ?thesis using Cons.IH [OF s(1)] Cons.prems(2) asks(2) by simp
  next
    case True
    let ?g = "grant (ei u) evs"
    let ?evs = "if has (snd (ei u)) RT_EVENT_FLAG_CLEAR then evs AND NOT ?g else evs"
    let ?ei = "ei(u := (?g, snd (ei u)))"
    obtain woken' where s: "event_scan us ?evs ?ei = (code, stay, woken', evs', ei')" "woken = u # woken'"
      using Cons.prems(1) scan_resume [where u = u and ei = ei, OF True] by (auto split: prod.splits)
    have "asks (snd (?ei v))" if "v \<in> set us" for v using asks(2) [OF that] asks(1) by simp
    then have IH: "length (filter (takes ei' n) woken') + of_bool (bit evs' n) = (of_bool (bit ?evs n) :: nat)"
      using Cons.IH [OF s(1)] Cons.prems(2) by simp
    have "asks (snd (?ei v))" if "v \<in> set us" for v using asks(2) [OF that] asks(1) by simp
    then have "mset us = mset stay + mset woken'" "\<forall>v. v \<notin> set woken' \<longrightarrow> ei' v = ?ei v"
      using event_scan_ok [OF s(1)] Cons.prems(2) by auto
    then have "ei' u = (?g, snd (ei u))" using u by (metis Un_iff fun_upd_same set_mset_mset set_mset_union)
    then have "takes ei' n u \<longleftrightarrow> has (snd (ei u)) RT_EVENT_FLAG_CLEAR \<and> bit ?g n" by (simp add: takes_def)
    moreover have "bit ?g n \<longrightarrow> bit evs n" using grant_included [OF True] by (simp add: included_iff)
    moreover have "bit (evs AND NOT ?g) n \<longleftrightarrow> bit evs n \<and> \<not> bit ?g n"
      by (auto simp: bit_and_iff bit_not_iff dest: bit_flag)
    ultimately show ?thesis using IH s(2) by (auto split: if_splits)
  qed
qed simp

subsection \<open>Threads on an event\<close>

text \<open>
  Threads receive, somebody sends or resets, timers expire.  The last two arguments count for every flag how often it was
  sent, and how often a thread took it away.
\<close>

inductive ev_reach ::
    "(nat \<Rightarrow> nat) \<Rightarrow> rt_event \<Rightarrow> event_info \<Rightarrow> event_call threads \<Rightarrow> (nat \<Rightarrow> nat) \<Rightarrow> (nat \<Rightarrow> nat) \<Rightarrow> bool" for prio where
  init: "rt_event_init flag = Inr (RT_EOK, e) \<Longrightarrow> ev_reach prio e ei (\<lambda>t. Idle) (\<lambda>n. 0) (\<lambda>n. 0)"
| recv: "ev_reach prio e ei th sent took \<Longrightarrow> th t = Idle \<Longrightarrow>
    rt_event_recv None prio t c e ei = Inr (out, e', ei') \<Longrightarrow>
    ev_reach prio e' ei' (after t out th) sent (\<lambda>n. took n + of_bool (succeeds out \<and> takes ei' n t))"
| resume: "ev_reach prio e ei th sent took \<Longrightarrow> th t = Ready c err \<Longrightarrow>
    rt_event_recv (Some err) prio t c e ei = Inr (out, e', ei') \<Longrightarrow>
    ev_reach prio e' ei' (after t out th) sent took"
| send: "ev_reach prio e ei th sent took \<Longrightarrow> rt_event_send new e ei = (err, woken, e', ei') \<Longrightarrow>
    ev_reach prio e' ei' (wake_all RT_EOK woken th) (\<lambda>n. sent n + of_bool (bit new n))
      (\<lambda>n. took n + length (filter (takes ei' n) woken))"
| timeout: "ev_reach prio e ei th sent took \<Longrightarrow> th t = Waiting c \<Longrightarrow> 0 < ec_timeout c \<Longrightarrow>
    ev_reach prio (e\<lparr>ev_wait := remove1 t (ev_wait e)\<rparr>) ei (th(t := Ready c (- RT_ETIMEOUT))) sent took"
| reset: "ev_reach prio e ei th sent took \<Longrightarrow> rt_event_control e RT_IPC_CMD_RESET th = (RT_EOK, e', th') \<Longrightarrow>
    ev_reach prio e' ei th' sent took"

definition waits_for :: "event_call \<Rightarrow> 32 word \<times> 8 word \<Rightarrow> 32 word \<Rightarrow> bool" where
  "waits_for c w evs \<longleftrightarrow> w = (ec_set c, ec_option c) \<and> asks (ec_option c) \<and> \<not> met w evs"

definition ev_ok :: "rt_event \<Rightarrow> event_info \<Rightarrow> event_call threads \<Rightarrow> (nat \<Rightarrow> nat) \<Rightarrow> (nat \<Rightarrow> nat) \<Rightarrow> bool" where
  "ev_ok e ei th sent took \<longleftrightarrow> waiters (\<lambda>_. True) th (ev_wait e) \<and> valid_flag (ev_flag e) \<and>
     (\<forall>t c. th t = Waiting c \<longrightarrow> waits_for c (ei t) (ev_set e)) \<and>
     (\<forall>t c. th t = Ready c RT_EOK \<longrightarrow> granted (ec_set c) (ec_option c) (fst (ei t))) \<and>
     (\<forall>n. took n + of_bool (bit (ev_set e) n) \<le> sent n)"

lemma ev_okD:
  assumes "ev_ok e ei th sent took"
  shows "waiters (\<lambda>_. True) th (ev_wait e)" "valid_flag (ev_flag e)"
    "\<And>t c. th t = Waiting c \<Longrightarrow> waits_for c (ei t) (ev_set e)"
    "\<And>t c. th t = Ready c RT_EOK \<Longrightarrow> granted (ec_set c) (ec_option c) (fst (ei t))"
    "\<And>n. took n + of_bool (bit (ev_set e) n) \<le> sent n"
  using assms by (auto simp: ev_ok_def)

lemma waits_for_mono: "waits_for c w b \<Longrightarrow> included a b \<Longrightarrow> waits_for c w a"
  using met_mono by (auto simp: waits_for_def)

text \<open>A call either fails, gets its flags, or has to wait with its condition false.\<close>

lemma event_recv_called:
  assumes "rt_event_recv None prio t c e ei = Inr (out, e', ei')"
  obtains (fail) err where "err \<noteq> RT_EOK" "out = Finish err None None" "e' = e" "ei' = ei"
  | (got) "met (ec_set c, ec_option c) (ev_set e)" "out = Finish RT_EOK None (Some (ev_set e AND ec_set c))"
      "e' = (if has (ec_option c) RT_EVENT_FLAG_CLEAR then e\<lparr>ev_set := ev_set e AND NOT (ec_set c)\<rparr> else e)"
      "ei' = ei(t := (ev_set e AND ec_set c, ec_option c))"
  | (wait) us where "asks (ec_option c)" "\<not> met (ec_set c, ec_option c) (ev_set e)" "out = Suspend c"
      "ipc_list_suspend (ev_wait e) t (ev_flag e) prio = Inr us" "e' = e\<lparr>ev_wait := us\<rparr>"
      "ei' = ei(t := (ec_set c, ec_option c))"
proof -
  let ?w = "(ec_set c, ec_option c)"
  have met: "met ?w (ev_set e) \<longleftrightarrow>
      (if has (ec_option c) RT_EVENT_FLAG_AND then ev_set e AND ec_set c = ec_set c
       else has (ec_option c) RT_EVENT_FLAG_OR \<and> ev_set e AND ec_set c \<noteq> 0)"
    by (simp add: met.simps and.commute)
  show thesis
  proof (cases "ec_set c = 0")
    case True
    then show thesis using assms by (intro fail) (auto simp: rt_event_recv_def)
  next
    case set: False
    show thesis
    proof (cases "met ?w (ev_set e)")
      case True
      then show thesis using assms set met by (intro got) (auto simp: rt_event_recv_def split: if_splits)
    next
      case False
      then have asks: "asks (ec_option c)"
        using assms set by (auto simp: rt_event_recv_def asks_def split: if_splits)
      have "(if ec_timeout c = 0 then Inr (Finish (- RT_ETIMEOUT) None None, e, ei)
          else bindR (ipc_list_suspend (ev_wait e) t (ev_flag e) prio)
            (\<lambda>ts. Inr (Suspend c, e\<lparr>ev_wait := ts\<rparr>, ei(t := ?w)))) = Inr (out, e', ei')"
        using assms set False asks met by (auto simp: rt_event_recv_def asks_def split: if_splits)
      then show thesis using fail [of "- RT_ETIMEOUT"] wait [OF asks False]
        by (cases "ipc_list_suspend (ev_wait e) t (ev_flag e) prio") (auto simp: RT_ETIMEOUT_def split: if_splits)
    qed
  qed
qed

lemma event_recv_resumed:
  assumes "rt_event_recv (Some err) prio t c e ei = Inr (out, e', ei')"
  shows "e' = e \<and> ei' = ei \<and> after t out th = th(t := Idle)"
  using assms by (auto simp: rt_event_recv_def split: if_splits)

lemma ev_ok_recv:
  assumes ok: "ev_ok e ei th sent took" and "th t = Idle" and "rt_event_recv None prio t c e ei = Inr (out, e', ei')"
  shows "ev_ok e' ei' (after t out th) sent (\<lambda>n. took n + of_bool (succeeds out \<and> takes ei' n t))"
proof -
  note k = ev_okD [OF ok]
  have r: "runs th t c None" using assms(2) by (simp add: runs_def)
  have idle: "th(t := Idle) = th" using assms(2) by (simp add: fun_upd_idem)
  from assms(3) show ?thesis
  proof (cases rule: event_recv_called)
    case fail
    then show ?thesis using ok by (simp add: idle)
  next
    case got
    have inc: "included (ev_set e') (ev_set e)" by (simp add: got(3))
    have "took n + of_bool (takes ei' n t) + of_bool (bit (ev_set e') n) \<le> sent n" for n
      using k(5) [of n] by (auto simp: got(3,4) takes_def bit_and_iff bit_not_iff dest: bit_flag split: if_splits)
    then show ?thesis using k assms(2) waits_for_mono [OF k(3) inc] got idle
      by (auto simp: ev_ok_def ev_okD [OF ok])
  next
    case (wait us)
    have "mset us = add_mset t (mset (ev_wait e))"
      using suspend_ok [OF k(2), of "ev_wait e" t prio] wait(4) by auto
    then have "waiters (\<lambda>_. True) (th(t := Waiting c)) us" using waiters_insert [OF k(1) r TrueI] by simp
    moreover have "waits_for c (ec_set c, ec_option c) (ev_set e)" using wait(1,2) by (simp add: waits_for_def)
    ultimately show ?thesis using k wait by (auto simp: ev_ok_def)
  qed
qed

lemma ev_ok_send:
  assumes ok: "ev_ok e ei th sent took" and "rt_event_send new e ei = (err, woken, e', ei')"
  shows "ev_ok e' ei' (wake_all RT_EOK woken th) (\<lambda>n. sent n + of_bool (bit new n))
    (\<lambda>n. took n + length (filter (takes ei' n) woken))"
proof (cases "new = 0")
  case True
  then show ?thesis using assms by (auto simp: rt_event_send_def wake_all_def)
next
  case False
  note k = ev_okD [OF ok]
  obtain stay evs where s: "event_scan (ev_wait e) (ev_set e OR new) ei = (err, stay, woken, evs, ei')"
    and e': "e' = e\<lparr>ev_set := evs, ev_wait := stay\<rparr>"
    using assms(2) False by (auto simp: rt_event_send_def split: prod.splits)
  have w: "distinct (ev_wait e)" "\<And>u. u \<in> set (ev_wait e) \<longleftrightarrow> (\<exists>c. th u = Waiting c)"
    using k(1) by (auto simp: waiters_def)
  have asks: "asks (snd (ei u))" if "u \<in> set (ev_wait e)" for u
    using w(2) that k(3) by (auto simp: waits_for_def)
  note scan = event_scan_ok [OF s w(1) asks] and taken = event_scan_takes [OF s w(1) asks]
  have "mset (ev_wait e) = mset (stay @ woken)" using scan by simp
  then have parts: "set (ev_wait e) = set (stay @ woken)" "distinct (stay @ woken)"
    using w(1) by (metis mset_eq_setD, metis mset_eq_imp_distinct_iff)
  have at: "wake_all 0 woken th u =
      (case th u of Waiting c \<Rightarrow> if u \<in> set woken then Ready c 0 else th u | _ \<Rightarrow> th u)" for u
    by (rule wake_all_at)
  have stay: "\<exists>c. th u = Waiting c" if "u \<in> set stay" for u using that parts(1) w(2) by auto
  have "waiters (\<lambda>_. True) (wake_all RT_EOK woken th) stay"
    using parts w(2) stay by (fastforce simp: waiters_def at split: thread_state.splits)
  moreover have "waits_for c (ei' u) evs" if "wake_all RT_EOK woken th u = Waiting c" for u c
  proof -
    have u: "th u = Waiting c" "u \<notin> set woken" using that by (auto simp: at split: thread_state.splits if_splits)
    then have "u \<in> set stay" using w(2) parts(1) by auto
    then show ?thesis using scan u k(3) [OF u(1)] by (auto simp: waits_for_def)
  qed
  moreover have "granted (ec_set c) (ec_option c) (fst (ei' u))" if "wake_all RT_EOK woken th u = Ready c RT_EOK" for u c
  proof (cases "th u")
    case (Waiting c')
    then have "u \<in> set woken" "c' = c" using that by (auto simp: at split: if_splits)
    then show ?thesis using scan k(3) [OF Waiting] by (auto simp: waits_for_def)
  next
    case (Ready c' err')
    then have "\<nexists>c. th u = Waiting c" by simp
    then have "u \<notin> set woken" using w(2) [of u] parts(1) by auto
    then show ?thesis using scan Ready that k(4) by (simp add: at)
  qed (use that in \<open>simp add: at\<close>)
  moreover have "took n + length (filter (takes ei' n) woken) + of_bool (bit evs n) \<le> sent n + of_bool (bit new n)" for n
    using taken [of n] k(5) [of n] by (auto simp: bit_or_iff split: if_splits)
  ultimately show ?thesis using k(2) by (simp add: ev_ok_def e')
qed

lemma ev_reach_ok: "ev_reach prio e ei th sent took \<Longrightarrow> ev_ok e ei th sent took"
proof (induction rule: ev_reach.induct)
  case (init flag e ei)
  then show ?case by (auto simp: rt_event_init_def fresh_event_def ev_ok_def split: if_splits)
next
  case (recv e ei th sent took t c out e' ei')
  then show ?case by (intro ev_ok_recv)
next
  case (resume e ei th sent took t c err out e' ei')
  note k = ev_okD [OF resume.IH]
  have r: "runs th t c (Some err)" using resume.hyps by (simp add: runs_def)
  have "waiters (\<lambda>_. True) (th(t := Idle)) (ev_wait e)" by (rule waiters_other [OF k(1) r]) simp
  moreover have "e' = e" "ei' = ei" "after t out th = th(t := Idle)"
    using event_recv_resumed [OF resume.hyps(3)] by auto
  ultimately show ?case using k by (simp add: ev_ok_def del: fun_upd_apply) (simp add: fun_upd_apply)
next
  case (send e ei th sent took new err woken e' ei')
  then show ?case by (intro ev_ok_send)
next
  case (timeout e ei th sent took t c)
  note k = ev_okD [OF timeout.IH]
  have "waiters (\<lambda>_. True) (th(t := Ready c (- RT_ETIMEOUT))) (remove1 t (ev_wait e))"
    by (rule waiters_timeout [OF k(1) timeout.hyps(2)])
  then show ?case using k by (simp add: ev_ok_def del: fun_upd_apply) (simp add: fun_upd_apply)
next
  case (reset e ei th sent took e' th')
  note k = ev_okD [OF reset.IH]
  have th': "th' = wake_all (- RT_ERROR) (ev_wait e) th" "e' = e\<lparr>ev_wait := [], ev_set := 0\<rparr>"
    using reset.hyps by (auto simp: rt_event_control_def resume_all_wake_all)
  have w: "u \<in> set (ev_wait e)" if "th u = Waiting c" for u c using k(1) that by (auto simp: waiters_def)
  have "th' u \<noteq> Waiting c \<and> (th' u = Ready c RT_EOK \<longrightarrow> th u = Ready c RT_EOK)" for u c
    using w by (auto simp: th' wake_all_at RT_ERROR_def split: thread_state.splits)
  moreover have "took n \<le> sent n" for n using k(5) [of n] by simp
  ultimately show ?case using k waiters_wake_all [OF k(1)] by (simp add: ev_ok_def th')
qed

text \<open>C30: Under any interleaving of receivers, senders, timers and resets, no thread stays suspended while the flags fulfil its
  condition; a thread that was resumed comes back with the flags it asked for, all of them or some according
  to its option; and no flag is taken away more often than it was sent.
\<close>

theorem event_conditions:
  assumes "ev_reach prio e ei th sent took"
  shows "(\<forall>t c. th t = Waiting c \<longrightarrow> \<not> met (ec_set c, ec_option c) (ev_set e)) \<and>
    (\<forall>t c. th t = Ready c RT_EOK \<longrightarrow> (\<exists>got. granted (ec_set c) (ec_option c) got \<and>
       rt_event_recv (Some RT_EOK) prio t c e ei = Inr (Finish RT_EOK None (Some got), e, ei))) \<and>
    (\<forall>n. took n \<le> sent n)"
proof -
  note k = ev_okD [OF ev_reach_ok [OF assms]]
  have "took n \<le> sent n" for n using k(5) [of n] by simp
  moreover have "\<not> met (ec_set c, ec_option c) (ev_set e)" if "th t = Waiting c" for t c
    using k(3) [OF that] by (auto simp: waits_for_def)
  ultimately show ?thesis using k(4) by (auto simp: rt_event_recv_def)
qed

text \<open>Two threads wait for flag 1, the first takes it away: the second stays.\<close>

definition event_demo_call :: event_call where
  "event_demo_call = \<lparr>ec_set = 2, ec_option = 5, ec_timeout = - 1\<rparr>"

lemma event_demo_reach:
  "\<exists>e ei th. ev_reach id e ei th (\<lambda>n. of_bool (n = 1)) (\<lambda>n. of_bool (n = 1)) \<and>
     th 1 = Ready event_demo_call RT_EOK \<and> th 2 = Waiting event_demo_call"
proof -
  let ?c = event_demo_call
  let ?e = "\<lambda>ts. \<lparr>ev_flag = RT_IPC_FLAG_FIFO, ev_set = 0, ev_wait = ts\<rparr>"
  let ?th1 = "(\<lambda>t. Idle)(1 := Waiting ?c)" and ?th2 = "(\<lambda>t. Idle)(1 := Waiting ?c, 2 := Waiting ?c)"
  let ?ei = "\<lambda>t. (0, 0) :: 32 word \<times> 8 word"
  have 0: "ev_reach id (?e []) ?ei (\<lambda>t. Idle) (\<lambda>n. 0) (\<lambda>n. 0)"
    by (rule ev_reach.init [where flag = RT_IPC_FLAG_FIFO]) (simp add: rt_event_init_def fresh_event_def valid_flag_def)
  have 1: "ev_reach id (?e [1]) (?ei(1 := (2, 5))) ?th1 (\<lambda>n. 0) (\<lambda>n. 0)"
    using ev_reach.recv [OF 0, of 1 ?c "Suspend ?c" "?e [1]" "?ei(1 := (2, 5))"]
    by (simp add: rt_event_recv_def event_demo_call_def has_def RT_EVENT_FLAG_AND_def ipc_list_suspend_def)
  have 2: "ev_reach id (?e [1, 2]) (?ei(1 := (2, 5), 2 := (2, 5))) ?th2 (\<lambda>n. 0) (\<lambda>n. 0)"
    using ev_reach.recv [OF 1, of 2 ?c "Suspend ?c" "?e [1, 2]" "?ei(1 := (2, 5), 2 := (2, 5))"]
    by (simp add: rt_event_recv_def event_demo_call_def has_def RT_EVENT_FLAG_AND_def ipc_list_suspend_def)
  have s: "rt_event_send 2 (?e [1, 2]) (?ei(1 := (2, 5), 2 := (2, 5))) =
      (RT_EOK, [1], ?e [2], ?ei(1 := (2, 5), 2 := (2, 5)))"
    by (simp add: rt_event_send_def event_scan.simps(2) has_def RT_EVENT_FLAG_AND_def RT_EVENT_FLAG_CLEAR_def)
  have n: "bit (2 :: 32 word) n \<longleftrightarrow> n = 1" for n
    unfolding bit_2_iff by simp
  have two: "takes (?ei(1 := (2, 5), 2 := (2, 5))) m 1 \<longleftrightarrow> m = 1" for m
    using n by (simp add: takes_def has_def RT_EVENT_FLAG_CLEAR_def del: bit_numeral_iff)
  have "(\<lambda>m. 0 + length (filter (takes (?ei(1 := (2, 5), 2 := (2, 5))) m) [1])) = (\<lambda>m. of_bool (m = (1 :: nat)))"
    using two by (simp add: fun_eq_iff)
  then have "ev_reach id (?e [2]) (?ei(1 := (2, 5), 2 := (2, 5))) (wake_all RT_EOK [1] ?th2)
      (\<lambda>m. of_bool (m = 1)) (\<lambda>m. of_bool (m = 1))"
    using ev_reach.send [OF 2 s] by (simp only: n add_0)
  then show ?thesis by (intro exI conjI, assumption) (simp_all add: wake_all_at)
qed

theorem event_conditions_witness:
  "\<exists>e ei th. ev_reach id e ei th (\<lambda>n. of_bool (n = 1)) (\<lambda>n. of_bool (n = 1)) \<and>
     th 2 = Waiting event_demo_call \<and> \<not> met (2, 5) (ev_set e)"
proof -
  obtain e ei th where r: "ev_reach id e ei th (\<lambda>n. of_bool (n = 1)) (\<lambda>n. of_bool (n = 1))"
    and 2: "th 2 = Waiting event_demo_call" using event_demo_reach by blast
  then have "\<not> met (2, 5) (ev_set e)"
    using event_conditions [OF r] by (metis event_demo_call_def event_call.select_convs(1,2))
  with r 2 show ?thesis by blast
qed

end
