(* ===== verification/Rt_Mailbox.thy ===== *)
theory Rt_Mailbox
  imports Rt_Ipc
begin

text \<open>
  The mailbox of the kernel (\<open>ipc.c\<close>): a ring of words with threads waiting on both sides, receivers while it is
  empty and senders while it is full.  \<open>rt_mb_urgent\<close> puts a word in front.

  A thread comes back from \<open>rt_schedule\<close> with its error number and the ticks that have passed.  The abstract
  state is the list of the words in the box; \<open>mb_reach\<close> moves it along with the control block.
\<close>

subsection \<open>The operations\<close>

record rt_mailbox =
  mb_flag :: nat
  msg_pool :: "nat list"
  mb_size :: nat
  mb_entry :: nat
  in_offset :: nat
  out_offset :: nat
  mb_wait :: "nat list"
  suspend_sender_thread :: "nat list"

definition RT_MB_ENTRY_MAX :: nat where "RT_MB_ENTRY_MAX = 65535"

text \<open>\<open>pool\<close> is the memory for the words.\<close>

definition fresh_mailbox :: "nat list \<Rightarrow> nat \<Rightarrow> nat \<Rightarrow> rt_mailbox" where
  "fresh_mailbox pool sz flag = \<lparr>mb_flag = flag, msg_pool = pool, mb_size = u16 sz, mb_entry = 0, in_offset = 0,
     out_offset = 0, mb_wait = [], suspend_sender_thread = []\<rparr>"

definition rt_mb_init :: "nat list \<Rightarrow> nat \<Rightarrow> nat \<Rightarrow> (int \<times> rt_mailbox) result" where
  "rt_mb_init msgpool sz flag =
     (if \<not> valid_flag flag then Inl Assert_failed else Inr (RT_EOK, fresh_mailbox msgpool sz flag))"

text \<open>\<open>malloc\<close> gives the memory for a number of bytes; a word has 4.\<close>

definition rt_mb_create ::
    "bool \<Rightarrow> (nat \<Rightarrow> nat list option) \<Rightarrow> nat \<Rightarrow> nat \<Rightarrow> rt_mailbox option result" where
  "rt_mb_create obj malloc sz flag =
     (if \<not> valid_flag flag then Inl Assert_failed
      else if \<not> obj then Inr None
      else (case malloc (u16 sz * 4) of
              None \<Rightarrow> Inr None
            | Some pool \<Rightarrow> Inr (Some (fresh_mailbox pool sz flag))))"

datatype mb_call = Mb_send nat int | Mb_recv int

type_synonym mb_outcome = "(mb_call, nat) outcome"

definition resume_both :: "rt_mailbox \<Rightarrow> mb_call threads \<Rightarrow> mb_call threads" where
  "resume_both m th = ipc_list_resume_all (suspend_sender_thread m) (ipc_list_resume_all (mb_wait m) th)"

definition rt_mb_detach :: "rt_mailbox \<Rightarrow> mb_call threads \<Rightarrow> int \<times> mb_call threads" where
  "rt_mb_detach m th = (RT_EOK, resume_both m th)"

definition rt_mb_delete :: "rt_mailbox \<Rightarrow> mb_call threads \<Rightarrow> int \<times> mb_call threads" where
  "rt_mb_delete m th = (RT_EOK, resume_both m th)"

definition mb_store :: "nat \<Rightarrow> nat \<Rightarrow> rt_mailbox \<Rightarrow> rt_mailbox result" where
  "mb_store i x m =
     (if i < length (msg_pool m) then Inr (m\<lparr>msg_pool := (msg_pool m)[i := x]\<rparr>) else Inl Buffer_overflow)"

definition mb_load :: "nat \<Rightarrow> rt_mailbox \<Rightarrow> nat result" where
  "mb_load i m = (if i < length (msg_pool m) then Inr (msg_pool m ! i) else Inl Out_of_bounds)"

text \<open>\<open>++ offset; if (offset >= size) offset = 0\<close>\<close>

definition next_offset :: "nat \<Rightarrow> rt_mailbox \<Rightarrow> nat" where
  "next_offset i m = (if u16 (i + 1) \<ge> mb_size m then 0 else u16 (i + 1))"

definition mb_resume_receiver :: "rt_mailbox \<Rightarrow> mb_outcome \<times> rt_mailbox" where
  "mb_resume_receiver m =
     (case ipc_list_resume (mb_wait m) of (u, us) \<Rightarrow> (Finish RT_EOK u None, m\<lparr>mb_wait := us\<rparr>))"

definition mb_send_section ::
    "(nat \<Rightarrow> nat) \<Rightarrow> nat \<Rightarrow> nat \<Rightarrow> int \<Rightarrow> rt_mailbox \<Rightarrow> (mb_outcome \<times> rt_mailbox) result" where
  "mb_send_section prio t val timeout m =
     (if mb_entry m = mb_size m then
        (if timeout = 0 then Inr (Finish (- RT_EFULL) None None, m)
         else bindR (ipc_list_suspend (suspend_sender_thread m) t (mb_flag m) prio)
                (\<lambda>ts. Inr (Suspend (Mb_send val timeout), m\<lparr>suspend_sender_thread := ts\<rparr>)))
      else
        bindR (mb_store (in_offset m) val m)
          (\<lambda>m1. let m2 = m1\<lparr>in_offset := next_offset (in_offset m1) m1\<rparr>
                in if mb_entry m2 < RT_MB_ENTRY_MAX
                   then Inr (mb_resume_receiver (m2\<lparr>mb_entry := mb_entry m2 + 1\<rparr>))
                   else Inr (Finish (- RT_EFULL) None None, m2)))"

definition rt_mb_send_wait ::
    "(int \<times> int) option \<Rightarrow> (nat \<Rightarrow> nat) \<Rightarrow> nat \<Rightarrow> nat \<Rightarrow> int \<Rightarrow> rt_mailbox \<Rightarrow> (mb_outcome \<times> rt_mailbox) result" where
  "rt_mb_send_wait woken prio t val timeout m =
     (case woken of
        None \<Rightarrow> mb_send_section prio t val timeout m
      | Some (err, elapsed) \<Rightarrow>
          if err \<noteq> RT_EOK then Inr (Finish err None None, m)
          else mb_send_section prio t val (time_left timeout elapsed) m)"

definition rt_mb_send :: "(nat \<Rightarrow> nat) \<Rightarrow> nat \<Rightarrow> nat \<Rightarrow> rt_mailbox \<Rightarrow> (mb_outcome \<times> rt_mailbox) result" where
  "rt_mb_send prio t val m = rt_mb_send_wait None prio t val 0 m"

definition rt_mb_urgent :: "nat \<Rightarrow> rt_mailbox \<Rightarrow> (mb_outcome \<times> rt_mailbox) result" where
  "rt_mb_urgent val m =
     (if mb_entry m = mb_size m then Inr (Finish (- RT_EFULL) None None, m)
      else
        (let m1 = m\<lparr>out_offset := (if out_offset m > 0 then out_offset m - 1
                                  else nat ((int (mb_size m) - 1) mod 2 ^ 16))\<rparr>
         in bindR (mb_store (out_offset m1) val m1)
              (\<lambda>m2. Inr (mb_resume_receiver (m2\<lparr>mb_entry := u16 (mb_entry m2 + 1)\<rparr>)))))"

definition mb_recv_section ::
    "(nat \<Rightarrow> nat) \<Rightarrow> nat \<Rightarrow> int \<Rightarrow> rt_mailbox \<Rightarrow> (mb_outcome \<times> rt_mailbox) result" where
  "mb_recv_section prio t timeout m =
     (if mb_entry m = 0 then
        (if timeout = 0 then Inr (Finish (- RT_ETIMEOUT) None None, m)
         else bindR (ipc_list_suspend (mb_wait m) t (mb_flag m) prio)
                (\<lambda>ts. Inr (Suspend (Mb_recv timeout), m\<lparr>mb_wait := ts\<rparr>)))
      else
        bindR (mb_load (out_offset m) m)
          (\<lambda>x. let m1 = m\<lparr>out_offset := next_offset (out_offset m) m\<rparr>;
                   m2 = (if mb_entry m1 > 0 then m1\<lparr>mb_entry := mb_entry m1 - 1\<rparr> else m1)
               in case ipc_list_resume (suspend_sender_thread m2) of
                    (u, us) \<Rightarrow> Inr (Finish RT_EOK u (Some x), m2\<lparr>suspend_sender_thread := us\<rparr>)))"

definition rt_mb_recv ::
    "(int \<times> int) option \<Rightarrow> (nat \<Rightarrow> nat) \<Rightarrow> nat \<Rightarrow> int \<Rightarrow> rt_mailbox \<Rightarrow> (mb_outcome \<times> rt_mailbox) result" where
  "rt_mb_recv woken prio t timeout m =
     (case woken of
        None \<Rightarrow> mb_recv_section prio t timeout m
      | Some (err, elapsed) \<Rightarrow>
          if err \<noteq> RT_EOK then Inr (Finish err None None, m)
          else mb_recv_section prio t (time_left timeout elapsed) m)"

definition rt_mb_control ::
    "rt_mailbox \<Rightarrow> nat \<Rightarrow> mb_call threads \<Rightarrow> int \<times> rt_mailbox \<times> mb_call threads" where
  "rt_mb_control m cmd th =
     (if cmd = RT_IPC_CMD_RESET then
        (RT_EOK, m\<lparr>mb_wait := [], suspend_sender_thread := [], mb_entry := 0, in_offset := 0, out_offset := 0\<rparr>,
         resume_both m th)
      else (- RT_ERROR, m, th))"

subsection \<open>The abstraction\<close>

definition mb_wf :: "rt_mailbox \<Rightarrow> nat list \<Rightarrow> bool" where
  "mb_wf m xs \<longleftrightarrow> mb_size m < 2 ^ 16 \<and> mb_size m \<le> length (msg_pool m) \<and> length xs \<le> mb_size m \<and>
     mb_entry m = length xs \<and> out_offset m < max 1 (mb_size m) \<and>
     in_offset m = (out_offset m + length xs) mod mb_size m \<and>
     (\<forall>k<length xs. msg_pool m ! ((out_offset m + k) mod mb_size m) = xs ! k)"

lemma mb_wfD:
  assumes "mb_wf m xs"
  shows "mb_size m < 2 ^ 16" "mb_size m \<le> length (msg_pool m)" "length xs \<le> mb_size m" "mb_entry m = length xs"
    "out_offset m < max 1 (mb_size m)" "in_offset m = (out_offset m + length xs) mod mb_size m"
    "\<And>k. k < length xs \<Longrightarrow> msg_pool m ! ((out_offset m + k) mod mb_size m) = xs ! k"
  using assms by (simp_all add: mb_wf_def)

lemma next_offset_mod: "i < mb_size m \<Longrightarrow> mb_size m < 2 ^ 16 \<Longrightarrow> next_offset i m = (i + 1) mod mb_size m"
  by (auto simp: next_offset_def u16_def mod_Suc)

lemma fresh_mailbox_wf: "sz \<le> length pool \<Longrightarrow> mb_wf (fresh_mailbox pool sz flag) []"
  using mod_less_eq_dividend [of sz "2 ^ 16"] by (auto simp: fresh_mailbox_def mb_wf_def u16_def intro: order_trans)

lemma mb_append_wf:
  assumes wf: "mb_wf m xs" and room: "length xs < mb_size m"
  shows "in_offset m < length (msg_pool m)"
    and "mb_wf (m\<lparr>msg_pool := (msg_pool m)[in_offset m := x], in_offset := next_offset (in_offset m) m,
      mb_entry := mb_entry m + 1\<rparr>) (xs @ [x])"
proof -
  note w = mb_wfD [OF wf]
  have size: "0 < mb_size m" and out: "out_offset m < mb_size m" using room w(5) by simp_all
  have inn: "in_offset m < mb_size m" using w(6) size by simp
  with w(2) show bound: "in_offset m < length (msg_pool m)" by simp
  have nx: "next_offset (in_offset m) m = (out_offset m + length (xs @ [x])) mod mb_size m"
    using next_offset_mod [OF inn w(1)] by (simp add: w(6) mod_simps add.assoc)
  have ne: "in_offset m \<noteq> (out_offset m + k) mod mb_size m" if "k < length xs" for k
    using ring_slots [OF out that room] w(6) by simp
  have "(msg_pool m)[in_offset m := x] ! ((out_offset m + k) mod mb_size m) = (xs @ [x]) ! k"
    if "k < length xs + 1" for k
  proof (cases "k = length xs")
    case True
    with bound w(6) show ?thesis by simp
  next
    case False
    with that ne w(7) show ?thesis by (simp add: nth_append)
  qed
  with w nx room show "mb_wf (m\<lparr>msg_pool := (msg_pool m)[in_offset m := x],
      in_offset := next_offset (in_offset m) m, mb_entry := mb_entry m + 1\<rparr>) (xs @ [x])"
    by (simp add: mb_wf_def)
qed

lemma mb_prepend_wf:
  fixes m :: rt_mailbox
  assumes wf: "mb_wf m xs" and room: "length xs < mb_size m"
  defines "i \<equiv> (if out_offset m > 0 then out_offset m - 1 else nat ((int (mb_size m) - 1) mod 2 ^ 16))"
  shows "i < length (msg_pool m)"
    and "mb_wf (m\<lparr>out_offset := i, msg_pool := (msg_pool m)[i := x], mb_entry := u16 (mb_entry m + 1)\<rparr>) (x # xs)"
proof -
  note w = mb_wfD [OF wf]
  have size: "0 < mb_size m" and out: "out_offset m < mb_size m" using room w(5) by simp_all
  have i: "i = (if out_offset m > 0 then out_offset m - 1 else mb_size m - 1)"
    using size w(1) by (simp add: i_def nat_diff_distrib')
  have ib: "i < mb_size m" and nx: "(i + 1) mod mb_size m = out_offset m" using size out by (auto simp: i)
  with w(2) show bound: "i < length (msg_pool m)" by simp
  have shift: "(i + Suc k) mod mb_size m = (out_offset m + k) mod mb_size m" for k
    using nx by (metis add_Suc_right add_Suc_shift mod_add_left_eq Suc_eq_plus1)
  have ne: "i \<noteq> (out_offset m + k) mod mb_size m" if "k < length xs" for k
    using ring_slots [OF ib, of 0 "Suc k"] that room shift ib by simp
  have "(msg_pool m)[i := x] ! ((i + k) mod mb_size m) = (x # xs) ! k" if "k < length xs + 1" for k
    using that ne w(7) bound ib shift by (cases k) auto
  with w room ib shift [of "length xs"] show "mb_wf (m\<lparr>out_offset := i, msg_pool := (msg_pool m)[i := x],
      mb_entry := u16 (mb_entry m + 1)\<rparr>) (x # xs)"
    by (auto simp: mb_wf_def u16_def)
qed

lemma mb_tail_wf:
  assumes wf: "mb_wf m (x # xs)"
  shows "mb_load (out_offset m) m = Inr x"
    and "mb_wf (m\<lparr>out_offset := next_offset (out_offset m) m, mb_entry := mb_entry m - 1\<rparr>) xs"
proof -
  note w = mb_wfD [OF wf]
  have size: "0 < mb_size m" and out: "out_offset m < mb_size m" using w(3,5) by auto
  show "mb_load (out_offset m) m = Inr x" using w(2) w(7) [of 0] out by (simp add: mb_load_def)
  have nx: "next_offset (out_offset m) m = (out_offset m + 1) mod mb_size m" by (rule next_offset_mod [OF out w(1)])
  have "msg_pool m ! (((out_offset m + 1) mod mb_size m + k) mod mb_size m) = xs ! k" if "k < length xs" for k
    using w(7) [of "Suc k"] that by (simp add: mod_simps)
  then show "mb_wf (m\<lparr>out_offset := next_offset (out_offset m) m, mb_entry := mb_entry m - 1\<rparr>) xs"
    using w size by (simp add: mb_wf_def nx mod_simps)
qed

subsection \<open>Threads on a mailbox\<close>

fun is_recv :: "mb_call \<Rightarrow> bool" where
  "is_recv (Mb_recv timeout) = True"
| "is_recv (Mb_send val timeout) = False"

definition is_send :: "mb_call \<Rightarrow> bool" where
  "is_send c \<longleftrightarrow> \<not> is_recv c"

lemma is_send_simps [simp]: "is_send (Mb_send val timeout)" "\<not> is_send (Mb_recv timeout)"
  by (simp_all add: is_send_def)

lemma mb_kinds: "is_recv c \<Longrightarrow> \<not> is_send c" "is_send c \<Longrightarrow> \<not> is_recv c"
  by (simp_all add: is_send_def)

fun mb_exec ::
    "(int \<times> int) option \<Rightarrow> (nat \<Rightarrow> nat) \<Rightarrow> nat \<Rightarrow> mb_call \<Rightarrow> rt_mailbox \<Rightarrow> (mb_outcome \<times> rt_mailbox) result" where
  "mb_exec woken prio t (Mb_send val timeout) m = rt_mb_send_wait woken prio t val timeout m"
| "mb_exec woken prio t (Mb_recv timeout) m = rt_mb_recv woken prio t timeout m"

fun mb_timeout :: "mb_call \<Rightarrow> int" where
  "mb_timeout (Mb_send val timeout) = timeout"
| "mb_timeout (Mb_recv timeout) = timeout"

text \<open>What a section does to the list of words.\<close>

fun mb_words :: "mb_call \<Rightarrow> mb_outcome \<Rightarrow> nat list \<Rightarrow> nat list" where
  "mb_words (Mb_send val timeout) (Finish err u x) xs = (if err = RT_EOK then xs @ [val] else xs)"
| "mb_words (Mb_recv timeout) (Finish err u x) xs = (if err = RT_EOK then tl xs else xs)"
| "mb_words c out xs = xs"

inductive mb_reach :: "(nat \<Rightarrow> nat) \<Rightarrow> rt_mailbox \<Rightarrow> mb_call threads \<Rightarrow> nat list \<Rightarrow> bool" for prio where
  init: "rt_mb_init pool sz flag = Inr (RT_EOK, m) \<Longrightarrow> sz \<le> length pool \<Longrightarrow> mb_reach prio m (\<lambda>t. Idle) []"
| call: "mb_reach prio m th xs \<Longrightarrow> th t = Idle \<Longrightarrow> mb_exec None prio t c m = Inr (out, m') \<Longrightarrow>
    mb_reach prio m' (after t out th) (mb_words c out xs)"
| resume: "mb_reach prio m th xs \<Longrightarrow> th t = Ready c err \<Longrightarrow>
    mb_exec (Some (err, elapsed)) prio t c m = Inr (out, m') \<Longrightarrow>
    mb_reach prio m' (after t out th) (mb_words c out xs)"
| urgent: "mb_reach prio m th xs \<Longrightarrow> rt_mb_urgent val m = Inr (Finish err u None, m') \<Longrightarrow>
    mb_reach prio m' (wake_opt u th) (if err = RT_EOK then val # xs else xs)"
| timeout: "mb_reach prio m th xs \<Longrightarrow> th t = Waiting c \<Longrightarrow> 0 < mb_timeout c \<Longrightarrow>
    mb_reach prio
      (m\<lparr>mb_wait := remove1 t (mb_wait m), suspend_sender_thread := remove1 t (suspend_sender_thread m)\<rparr>)
      (th(t := Ready c (- RT_ETIMEOUT))) xs"
| reset: "mb_reach prio m th xs \<Longrightarrow> rt_mb_control m RT_IPC_CMD_RESET th = (RT_EOK, m', th') \<Longrightarrow>
    mb_reach prio m' th' []"

definition mb_ok :: "rt_mailbox \<Rightarrow> mb_call threads \<Rightarrow> nat list \<Rightarrow> bool" where
  "mb_ok m th xs \<longleftrightarrow> mb_wf m xs \<and> valid_flag (mb_flag m) \<and> side is_recv th (mb_wait m) (length xs) \<and>
     side is_send th (suspend_sender_thread m) (mb_size m - length xs)"

lemma mb_okD:
  assumes "mb_ok m th xs"
  shows "mb_wf m xs" "valid_flag (mb_flag m)" "side is_recv th (mb_wait m) (length xs)"
    "side is_send th (suspend_sender_thread m) (mb_size m - length xs)"
  using assms by (simp_all add: mb_ok_def)

text \<open>The lists are not part of the ring.\<close>

lemma mb_wf_lists [simp]:
  "mb_wf (m\<lparr>mb_wait := ts\<rparr>) xs = mb_wf m xs" "mb_wf (m\<lparr>suspend_sender_thread := ts\<rparr>) xs = mb_wf m xs"
  by (simp_all add: mb_wf_def)

text \<open>A word came in, and a receiver is resumed.\<close>

lemma mb_resume_receiver_ok:
  assumes "mb_wf m ys" and "valid_flag (mb_flag m)" and "side is_recv th (mb_wait m) n"
    and "side is_send th (suspend_sender_thread m) (mb_size m - length ys)" and "length ys \<le> n + 1"
  shows "\<exists>u m'. mb_resume_receiver m = (Finish RT_EOK u None, m') \<and> mb_ok m' (wake_opt u th) ys"
proof -
  obtain u us where r: "ipc_list_resume (mb_wait m) = (u, us)" by (cases "ipc_list_resume (mb_wait m)")
  note s = channel_resume [OF assms(3,4) mb_kinds(1) r]
  from s(1) assms(5) have "side is_recv (wake_opt u th) us (length ys)" by (rule side_less)
  with s(2) assms(1,2) r show ?thesis by (auto simp: mb_resume_receiver_def mb_ok_def)
qed

lemma mb_send_section_ok:
  assumes ok: "mb_ok m th xs" and r: "runs th t c woken" "is_send c"
  shows "\<exists>out m'. mb_send_section prio t val timeout m = Inr (out, m') \<and>
    mb_ok m' (after t out th) (mb_words (Mb_send val tm) out xs) \<and>
    (succeeds out \<longleftrightarrow> length xs < mb_size m)"
proof -
  note k = mb_okD [OF ok]
  note w = mb_wfD [OF k(1)]
  have own: "\<not> is_recv c" using r(2) by (simp add: mb_kinds)
  have recv: "side is_recv (th(t := v)) (mb_wait m) (length xs)" if "\<And>c'. v \<noteq> Ready c' RT_EOK" "v = Idle \<or> v = Waiting (Mb_send val timeout)" for v
    using that by (intro side_other [OF k(3) r(1) own]) auto
  show ?thesis
  proof (cases "length xs = mb_size m")
    case full: True
    show ?thesis
    proof (cases "timeout = 0")
      case True
      have "side is_send (th(t := Idle)) (suspend_sender_thread m) (mb_size m - length xs)"
        by (rule side_use [OF k(4) r(1)]) (use full in auto)
      with True full k recv [of Idle] w(4) show ?thesis by (simp add: mb_send_section_def mb_ok_def)
    next
      case False
      obtain ts where ts: "ipc_list_suspend (suspend_sender_thread m) t (mb_flag m) prio = Inr ts"
        "mset ts = add_mset t (mset (suspend_sender_thread m))"
        using suspend_ok [OF k(2)] by blast
      have "side is_send (th(t := Waiting (Mb_send val timeout))) ts 0"
        by (rule side_block [OF k(4) r(1) _ ts(2)]) simp
      with False full k recv [of "Waiting (Mb_send val timeout)"] w(4) ts(1) show ?thesis
        by (simp add: mb_send_section_def mb_ok_def)
    qed
  next
    case False
    then have room: "length xs < mb_size m" using w(3) by simp
    note bound = mb_append_wf(1) [OF k(1) room] and wf = mb_append_wf(2) [OF k(1) room, of val]
    let ?m = "m\<lparr>msg_pool := (msg_pool m)[in_offset m := val], in_offset := next_offset (in_offset m) m,
      mb_entry := mb_entry m + 1\<rparr>"
    have nx: "next_offset (in_offset m) (m\<lparr>msg_pool := ps\<rparr>) = next_offset (in_offset m) m" for ps
      by (simp add: next_offset_def)
    have "side is_send (th(t := Idle)) (suspend_sender_thread m) (mb_size m - length (xs @ [val]))"
      by (rule side_use [OF k(4) r(1)]) auto
    then obtain u m' where u: "mb_resume_receiver ?m = (Finish RT_EOK u None, m')"
        "mb_ok m' (wake_opt u (th(t := Idle))) (xs @ [val])"
      using mb_resume_receiver_ok [of ?m "xs @ [val]" "th(t := Idle)" "length xs"] wf k(2) recv [of Idle] by auto
    have "mb_send_section prio t val timeout m = Inr (mb_resume_receiver ?m)"
      using False room w(1,4) bound nx by (simp add: mb_send_section_def mb_store_def RT_MB_ENTRY_MAX_def Let_def)
    with u room show ?thesis by (simp add: after_finish)
  qed
qed

lemma mb_recv_section_ok:
  assumes ok: "mb_ok m th xs" and r: "runs th t c woken" "is_recv c"
  shows "\<exists>out m'. mb_recv_section prio t timeout m = Inr (out, m') \<and>
    mb_ok m' (after t out th) (mb_words (Mb_recv tm) out xs) \<and>
    (succeeds out \<longleftrightarrow> xs \<noteq> []) \<and> (succeeds out \<longrightarrow> value_of out = Some (hd xs))"
proof -
  note k = mb_okD [OF ok]
  note w = mb_wfD [OF k(1)]
  have own: "\<not> is_send c" using r(2) by (simp add: mb_kinds)
  have send: "side is_send (th(t := v)) (suspend_sender_thread m) (mb_size m - length xs)"
    if "v = Idle \<or> v = Waiting (Mb_recv timeout)" for v
    using that by (intro side_other [OF k(4) r(1) own]) auto
  show ?thesis
  proof (cases xs)
    case Nil
    show ?thesis
    proof (cases "timeout = 0")
      case True
      have "side is_recv (th(t := Idle)) (mb_wait m) (length xs)"
        by (rule side_use [OF k(3) r(1)]) (use Nil in auto)
      with True Nil k send [of Idle] w(4) show ?thesis by (simp add: mb_recv_section_def mb_ok_def)
    next
      case False
      obtain ts where ts: "ipc_list_suspend (mb_wait m) t (mb_flag m) prio = Inr ts"
        "mset ts = add_mset t (mset (mb_wait m))"
        using suspend_ok [OF k(2)] by blast
      have "side is_recv (th(t := Waiting (Mb_recv timeout))) ts 0"
        by (rule side_block [OF k(3) r(1) _ ts(2)]) simp
      with False Nil k send [of "Waiting (Mb_recv timeout)"] w(4) ts(1) show ?thesis
        by (simp add: mb_recv_section_def mb_ok_def)
    qed
  next
    case (Cons y ys)
    note a = mb_tail_wf [OF k(1) [unfolded Cons]]
    let ?m = "m\<lparr>out_offset := next_offset (out_offset m) m, mb_entry := mb_entry m - 1\<rparr>"
    obtain u us where res: "ipc_list_resume (suspend_sender_thread m) = (u, us)"
      by (cases "ipc_list_resume (suspend_sender_thread m)")
    have rec: "side is_recv (th(t := Idle)) (mb_wait m) (length ys)"
      by (rule side_use [OF k(3) r(1)]) (use Cons in auto)
    note s = channel_resume [OF send [of Idle, OF disjI1 [OF refl]] rec mb_kinds(2) res]
    have "side is_send (wake_opt u (th(t := Idle))) us (mb_size m - length ys)"
    proof (rule side_less [OF s(1)])
      have "Suc (length ys) \<le> mb_size m" using Cons w(3) by simp
      then show "mb_size m - length ys \<le> mb_size m - length xs + 1" unfolding Cons by simp
    qed
    with s(2) a(2) k(2) have "mb_ok (?m\<lparr>suspend_sender_thread := us\<rparr>) (wake_opt u (th(t := Idle))) ys"
      by (simp add: mb_ok_def)
    moreover have "mb_recv_section prio t timeout m = Inr (Finish RT_EOK u (Some y), ?m\<lparr>suspend_sender_thread := us\<rparr>)"
      using Cons w(4) a(1) res by (simp add: mb_recv_section_def Let_def)
    ultimately show ?thesis using Cons by (simp add: after_finish)
  qed
qed

text \<open>A thread that was not resumed without error leaves with its error.\<close>

lemma mb_error_ok:
  assumes ok: "mb_ok m th xs" and "th t = Ready c err" and "err \<noteq> RT_EOK"
  shows "mb_ok m (th(t := Idle)) xs"
proof -
  have r: "runs th t c (Some err)" using assms(2) by (simp add: runs_def)
  show ?thesis
    using mb_okD [OF ok] side_idle [OF _ r, of _ _ _ Idle] assms(3) by (simp add: mb_ok_def)
qed

fun mb_can :: "mb_call \<Rightarrow> nat list \<Rightarrow> nat \<Rightarrow> bool" where
  "mb_can (Mb_send val timeout) xs n \<longleftrightarrow> length xs < n"
| "mb_can (Mb_recv timeout) xs n \<longleftrightarrow> xs \<noteq> []"

lemma mb_exec_ok:
  assumes ok: "mb_ok m th xs" and r: "runs th t c (map_option fst woken)"
  shows "\<exists>out m'. mb_exec woken prio t c m = Inr (out, m') \<and> mb_ok m' (after t out th) (mb_words c out xs) \<and>
    (succeeds out \<longleftrightarrow> goes_on woken \<and> mb_can c xs (mb_size m)) \<and>
    (is_recv c \<and> succeeds out \<longrightarrow> value_of out = Some (hd xs))"
proof (cases "goes_on woken")
  case True
  show ?thesis
  proof (cases c)
    case (Mb_send val tm)
    obtain timeout where e: "mb_exec woken prio t c m = mb_send_section prio t val timeout m"
      by (rule goes_on_cases [of woken]) (use True Mb_send in \<open>auto simp: rt_mb_send_wait_def\<close>)
    obtain out m' where "mb_send_section prio t val timeout m = Inr (out, m')"
      "mb_ok m' (after t out th) (mb_words (Mb_send val tm) out xs)" "succeeds out \<longleftrightarrow> length xs < mb_size m"
      using mb_send_section_ok [OF ok r, of prio val timeout tm] Mb_send by auto
    with e Mb_send True show ?thesis by simp
  next
    case (Mb_recv tm)
    obtain timeout where e: "mb_exec woken prio t c m = mb_recv_section prio t timeout m"
      by (rule goes_on_cases [of woken]) (use True Mb_recv in \<open>auto simp: rt_mb_recv_def\<close>)
    obtain out m' where "mb_recv_section prio t timeout m = Inr (out, m')"
      "mb_ok m' (after t out th) (mb_words (Mb_recv tm) out xs)" "succeeds out \<longleftrightarrow> xs \<noteq> []"
      "succeeds out \<longrightarrow> value_of out = Some (hd xs)"
      using mb_recv_section_ok [OF ok r, of prio timeout tm] Mb_recv by auto
    with e Mb_recv True show ?thesis by simp
  qed
next
  case False
  then obtain err el where e: "woken = Some (err, el)" "err \<noteq> RT_EOK" by (rule_tac goes_on_cases [of woken]) auto
  then have "th t = Ready c err" using r by (simp add: runs_def)
  then have "mb_ok m (th(t := Idle)) xs" using e(2) mb_error_ok [OF ok] by blast
  with e False show ?thesis by (cases c) (simp_all add: rt_mb_send_wait_def rt_mb_recv_def)
qed

lemma mb_urgent_ok:
  assumes ok: "mb_ok m th xs"
  shows "\<exists>err u m'. rt_mb_urgent val m = Inr (Finish err u None, m') \<and>
    err = (if length xs < mb_size m then RT_EOK else - RT_EFULL) \<and>
    mb_ok m' (wake_opt u th) (if err = RT_EOK then val # xs else xs)"
proof -
  note k = mb_okD [OF ok]
  note w = mb_wfD [OF k(1)]
  show ?thesis
  proof (cases "length xs < mb_size m")
    case False
    with w(3,4) ok show ?thesis by (simp add: rt_mb_urgent_def)
  next
    case True
    define i where "i = (if out_offset m > 0 then out_offset m - 1 else nat ((int (mb_size m) - 1) mod 2 ^ 16))"
    note bound = mb_prepend_wf(1) [OF k(1) True, folded i_def]
      and wf = mb_prepend_wf(2) [OF k(1) True, folded i_def, of val]
    let ?m = "m\<lparr>out_offset := i, msg_pool := (msg_pool m)[i := val], mb_entry := u16 (mb_entry m + 1)\<rparr>"
    have "side is_send th (suspend_sender_thread m) (mb_size m - length (val # xs))"
      by (rule side_less [OF k(4)]) simp
    then obtain u m' where u: "mb_resume_receiver ?m = (Finish RT_EOK u None, m')" "mb_ok m' (wake_opt u th) (val # xs)"
      using mb_resume_receiver_ok [of ?m "val # xs" th "length xs"] wf k(2,3) by auto
    have "rt_mb_urgent val m = Inr (mb_resume_receiver ?m)"
      unfolding rt_mb_urgent_def i_def [symmetric] using True w(4) bound by (simp add: mb_store_def Let_def)
    with u True show ?thesis by simp
  qed
qed

lemma mb_timeout_ok:
  assumes ok: "mb_ok m th xs" and t: "th t = Waiting c"
  shows "mb_ok (m\<lparr>mb_wait := remove1 t (mb_wait m), suspend_sender_thread := remove1 t (suspend_sender_thread m)\<rparr>)
    (th(t := Ready c (- RT_ETIMEOUT))) xs"
proof -
  note k = mb_okD [OF ok]
  have "side P (th(t := Ready c (- RT_ETIMEOUT))) (remove1 t ts) n" if "side P th ts n" for P ts n
    by (rule side_timeout [OF that t]) simp
  with k show ?thesis by (simp add: mb_ok_def)
qed

lemma mb_reset_ok:
  assumes ok: "mb_ok m th xs" and "rt_mb_control m RT_IPC_CMD_RESET th = (RT_EOK, m', th')"
  shows "mb_ok m' th' []"
proof -
  note k = mb_okD [OF ok]
  let ?us = "mb_wait m @ suspend_sender_thread m"
  have "th' = wake_all (- RT_ERROR) ?us th"
    using assms(2) by (auto simp: rt_mb_control_def resume_both_def resume_all_wake_all wake_all_def)
  with k side_reset [OF k(3), of ?us "- RT_ERROR" 0] side_reset [OF k(4), of ?us "- RT_ERROR" "mb_size m"] assms(2)
  show ?thesis by (auto simp: rt_mb_control_def mb_ok_def mb_wf_def)
qed

lemma mb_reach_ok: "mb_reach prio m th xs \<Longrightarrow> mb_ok m th xs"
proof (induction rule: mb_reach.induct)
  case (init pool sz flag m)
  then have "m = fresh_mailbox pool sz flag" "valid_flag flag" by (auto simp: rt_mb_init_def split: if_splits)
  with init(2) fresh_mailbox_wf [of sz pool flag] show ?case by (simp add: mb_ok_def fresh_mailbox_def side_initial)
next
  case (call m th xs t c out m')
  then show ?case using mb_exec_ok [of m th xs t c None prio] by (auto simp: runs_def)
next
  case (resume m th xs t c err elapsed out m')
  then show ?case using mb_exec_ok [of m th xs t c "Some (err, elapsed)" prio] by (auto simp: runs_def)
next
  case (urgent m th xs val err u m')
  then show ?case using mb_urgent_ok [of m th xs val] by auto
next
  case (timeout m th xs t c)
  then show ?case using mb_timeout_ok by blast
next
  case (reset m th xs m' th')
  then show ?case using mb_reset_ok by blast
qed

subsection \<open>What the mailbox promises\<close>

text \<open>C27: A mailbox is a bounded double-ended queue: \<open>rt_mb_send_wait\<close> appends, \<open>rt_mb_urgent\<close> puts in front, \<open>rt_mb_recv\<close>
  takes the first word; a call that goes on succeeds exactly when there is room, or a word.  No call of a
  running thread faults.
\<close>

theorem mb_queue:
  assumes "mb_reach prio m th xs"
  shows "mb_entry m = length xs \<and> length xs \<le> mb_size m \<and>
    (\<forall>t c woken. runs th t c (map_option fst woken) \<longrightarrow>
       (\<exists>out m'. mb_exec woken prio t c m = Inr (out, m') \<and>
          (succeeds out \<longleftrightarrow> goes_on woken \<and> mb_can c xs (mb_size m)) \<and>
          (is_recv c \<and> succeeds out \<longrightarrow> value_of out = Some (hd xs)))) \<and>
    (\<forall>val. \<exists>u m'. rt_mb_urgent val m =
       Inr (Finish (if length xs < mb_size m then RT_EOK else - RT_EFULL) u None, m'))"
proof -
  note ok = mb_reach_ok [OF assms]
  note w = mb_wfD [OF mb_okD(1) [OF ok]]
  have "\<exists>u m'. rt_mb_urgent val m = Inr (Finish (if length xs < mb_size m then RT_EOK else - RT_EFULL) u None, m')"
    for val using mb_urgent_ok [OF ok, of val] by blast
  moreover have "\<exists>out m'. mb_exec woken prio t c m = Inr (out, m') \<and>
      (succeeds out \<longleftrightarrow> goes_on woken \<and> mb_can c xs (mb_size m)) \<and>
      (is_recv c \<and> succeeds out \<longrightarrow> value_of out = Some (hd xs))"
    if "runs th t c (map_option fst woken)" for t c woken
    using mb_exec_ok [OF ok that, of prio] by blast
  ultimately show ?thesis using w(3,4) by simp
qed

text \<open>C28: No wake-up is lost: while a receiver waits and there is a word, or a sender waits and there is room, a resumed thread
  of the same kind is about to run; and if threads wait on both sides, somebody is about to run.
\<close>

theorem mb_no_lost_wakeup:
  assumes "mb_reach prio m th xs"
  shows "(mb_wait m \<noteq> [] \<and> 0 < mb_entry m \<longrightarrow> (\<exists>t tm. th t = Ready (Mb_recv tm) RT_EOK)) \<and>
    (suspend_sender_thread m \<noteq> [] \<and> mb_entry m < mb_size m \<longrightarrow> (\<exists>t v tm. th t = Ready (Mb_send v tm) RT_EOK)) \<and>
    (mb_wait m \<noteq> [] \<and> suspend_sender_thread m \<noteq> [] \<and> 0 < mb_size m \<longrightarrow> (\<exists>t c. th t = Ready c RT_EOK))"
proof -
  note ok = mb_okD [OF mb_reach_ok [OF assms]]
  note w = mb_wfD [OF ok(1)]
  have 1: "\<exists>t tm. th t = Ready (Mb_recv tm) RT_EOK" if "mb_wait m \<noteq> []" "0 < mb_entry m"
    using side_resumed [OF ok(3) that(1)] that(2) w(4) by (fastforce elim: is_recv.elims)
  have 2: "\<exists>t v tm. th t = Ready (Mb_send v tm) RT_EOK" if "suspend_sender_thread m \<noteq> []" "mb_entry m < mb_size m"
  proof -
    have "0 < mb_size m - length xs" using that(2) w(4) by simp
    from side_resumed [OF ok(4) that(1) this] obtain t c where "th t = Ready c RT_EOK" "is_send c" by blast
    then show ?thesis by (cases c) auto
  qed
  have 3: "\<exists>t c. th t = Ready c RT_EOK" if "mb_wait m \<noteq> []" "suspend_sender_thread m \<noteq> []" "0 < mb_size m"
    using 1 2 that by (cases "0 < mb_entry m") (blast, fastforce)
  show ?thesis using 1 2 3 by blast
qed

subsection \<open>A size that does not fit\<close>

text \<open>\<open>rt_mb_init\<close> does not check that the size fits into its 16 bits: a mailbox for 65536 words is full and empty
  for ever.\<close>

theorem mb_size_truncated:
  "\<exists>m. rt_mb_init pool 65536 RT_IPC_FLAG_FIFO = Inr (RT_EOK, m) \<and>
     rt_mb_send prio t val m = Inr (Finish (- RT_EFULL) None None, m) \<and>
     rt_mb_urgent val m = Inr (Finish (- RT_EFULL) None None, m) \<and>
     rt_mb_recv None prio t 0 m = Inr (Finish (- RT_ETIMEOUT) None None, m)"
  by (simp add: rt_mb_init_def valid_flag_def fresh_mailbox_def u16_def rt_mb_send_def rt_mb_send_wait_def
      mb_send_section_def rt_mb_urgent_def rt_mb_recv_def mb_recv_section_def)

subsection \<open>Instances\<close>

lemmas mb_eval = rt_mb_send_wait_def mb_send_section_def rt_mb_recv_def mb_recv_section_def rt_mb_urgent_def mb_store_def
  mb_load_def mb_resume_receiver_def ipc_list_resume_def ipc_list_suspend_def next_offset_def u16_def fresh_mailbox_def
  RT_MB_ENTRY_MAX_def RT_IPC_FLAG_FIFO_def

lemma mb_fresh_reach: "mb_reach prio (fresh_mailbox [0, 0] 2 RT_IPC_FLAG_FIFO) (\<lambda>t. Idle) []"
  by (rule mb_reach.init [of "[0, 0]" 2 RT_IPC_FLAG_FIFO]) (simp_all add: rt_mb_init_def valid_flag_def)

text \<open>A word is sent and an urgent one put in front.\<close>

lemma mb_demo_full: "\<exists>m. mb_reach prio m (\<lambda>t. Idle) [9, 7]"
proof -
  let ?m = "fresh_mailbox [0, 0] 2 RT_IPC_FLAG_FIFO"
  have "mb_exec None prio 1 (Mb_send 7 0) ?m =
      Inr (Finish RT_EOK None None, ?m\<lparr>msg_pool := [7, 0], in_offset := 1, mb_entry := 1\<rparr>)"
    by (simp add: mb_eval)
  from mb_reach.call [OF mb_fresh_reach _ this]
  have 1: "mb_reach prio (?m\<lparr>msg_pool := [7, 0], in_offset := 1, mb_entry := 1\<rparr>) (\<lambda>t. Idle) [7]"
    by (simp add: fun_upd_idem)
  have "rt_mb_urgent 9 (?m\<lparr>msg_pool := [7, 0], in_offset := 1, mb_entry := 1\<rparr>) =
      Inr (Finish RT_EOK None None, ?m\<lparr>msg_pool := [7, 9], in_offset := 1, out_offset := 1, mb_entry := 2\<rparr>)"
    by (simp add: mb_eval)
  from mb_reach.urgent [OF 1 this] show ?thesis by auto
qed

theorem mb_queue_witness:
  "\<exists>m. mb_reach (\<lambda>t. 0) m (\<lambda>t. Idle) [9, 7] \<and> mb_entry m = 2 \<and>
     (\<exists>out m'. mb_exec None (\<lambda>t. 0) 3 (Mb_recv 0) m = Inr (out, m') \<and> succeeds out \<and> value_of out = Some 9)"
proof -
  obtain m where m: "mb_reach (\<lambda>t. 0) m (\<lambda>t. Idle) [9, 7]" using mb_demo_full by blast
  have "runs (\<lambda>t. Idle) 3 (Mb_recv 0) (map_option fst None)" by (simp add: runs_def)
  with mb_queue [OF m] have "\<exists>out m'. mb_exec None (\<lambda>t. 0) 3 (Mb_recv 0) m = Inr (out, m') \<and>
      (succeeds out \<longleftrightarrow> goes_on None \<and> mb_can (Mb_recv 0) [9, 7] (mb_size m)) \<and>
      (is_recv (Mb_recv 0) \<and> succeeds out \<longrightarrow> value_of out = Some (hd [9, 7]))" by blast
  then show ?thesis using m mb_queue [OF m] by (auto simp: goes_on_def)
qed

text \<open>Two receivers wait; a word arrives and the first of them is resumed.\<close>

lemma mb_demo_waiting: "\<exists>m th. mb_reach prio m th [7] \<and> mb_wait m = [2]"
proof -
  let ?m = "fresh_mailbox [0, 0] 2 RT_IPC_FLAG_FIFO"
  have "mb_exec None prio 1 (Mb_recv (- 1)) ?m = Inr (Suspend (Mb_recv (- 1)), ?m\<lparr>mb_wait := [1]\<rparr>)"
    by (simp add: mb_eval)
  from mb_reach.call [OF mb_fresh_reach _ this]
  have 1: "mb_reach prio (?m\<lparr>mb_wait := [1]\<rparr>) ((\<lambda>t. Idle)(1 := Waiting (Mb_recv (- 1)))) []" by simp
  have "mb_exec None prio 2 (Mb_recv (- 1)) (?m\<lparr>mb_wait := [1]\<rparr>) =
      Inr (Suspend (Mb_recv (- 1)), ?m\<lparr>mb_wait := [1, 2]\<rparr>)"
    by (simp add: mb_eval)
  from mb_reach.call [OF 1 _ this]
  have 2: "mb_reach prio (?m\<lparr>mb_wait := [1, 2]\<rparr>)
      ((\<lambda>t. Idle)(1 := Waiting (Mb_recv (- 1)), 2 := Waiting (Mb_recv (- 1)))) []" by simp
  have "mb_exec None prio 3 (Mb_send 7 0) (?m\<lparr>mb_wait := [1, 2]\<rparr>) = Inr (Finish RT_EOK (Some 1) None,
      ?m\<lparr>msg_pool := [7, 0], in_offset := 1, mb_entry := 1, mb_wait := [2]\<rparr>)"
    by (simp add: mb_eval)
  from mb_reach.call [OF 2 _ this] show ?thesis by (intro exI conjI) (simp, simp)
qed

theorem mb_no_lost_wakeup_witness:
  "\<exists>m th. mb_reach (\<lambda>t. 0) m th [7] \<and> mb_wait m = [2] \<and> (\<exists>t tm. th t = Ready (Mb_recv tm) RT_EOK)"
proof -
  obtain m th where m: "mb_reach (\<lambda>t. 0) m th [7]" "mb_wait m = [2]" using mb_demo_waiting by blast
  then have "0 < mb_entry m" using mb_wfD(4) [OF mb_okD(1) [OF mb_reach_ok [OF m(1)]]] by simp
  with mb_no_lost_wakeup [OF m(1)] m show ?thesis by auto
qed

end
