(* ===== verification/Rt_Printf.thy ===== *)
theory Rt_Printf
  imports C_Format
begin

text \<open>
  The formatted output of the kernel (\<open>kservice.c\<close>: \<open>divide\<close>, \<open>skip_atoi\<close>, \<open>print_number\<close>,
  \<open>rt_vsnprintf\<close> and its wrappers), in the configuration of the boards: \<open>RT_PRINTF_LONGLONG\<close> and
  \<open>RT_PRINTF_PRECISION\<close> defined, \<open>long\<close> and pointers of 32 bits.  \<open>RT_PRINTF_SPECIAL\<close> is the argument
  \<open>special\<close>.

  The buffer is the memory from \<open>buf\<close> on, a function of the offset, so that a write behind the end of the
  buffer is visible; a pointer into it is its offset.  A number is the 64-bit word it is held in.  The
  variable arguments are a list; one that is missing or has another type is a fault, as is the overflow
  of a width or precision.  A format is the text up to its terminator.
\<close>

subsection \<open>Output\<close>

type_synonym sink = "(nat \<Rightarrow> char) \<times> nat"

text \<open>\<open>if (str < end) *str = c; ++str\<close>\<close>

definition emit :: "nat \<Rightarrow> char \<Rightarrow> sink \<Rightarrow> sink" where
  "emit e c st = (if snd st < e then (fst st)(snd st := c) else fst st, snd st + 1)"

definition emits :: "nat \<Rightarrow> string \<Rightarrow> sink \<Rightarrow> sink" where
  "emits e txt st = fold (emit e) txt st"

text \<open>\<open>while (size-- > 0) { ... }\<close>, with the value \<open>size\<close> is left with\<close>

definition pad_loop :: "nat \<Rightarrow> char \<Rightarrow> int \<Rightarrow> sink \<Rightarrow> sink \<times> int" where
  "pad_loop e c sz st = (emits e (replicate (nat sz) c) st, if sz > 0 then - 1 else sz - 1)"

subsection \<open>Numbers\<close>

definition ZEROPAD :: "8 word" where "ZEROPAD = push_bit 0 1"
definition SIGN :: "8 word" where "SIGN = push_bit 1 1"
definition PLUS :: "8 word" where "PLUS = push_bit 2 1"
definition SPACE :: "8 word" where "SPACE = push_bit 3 1"
definition LEFT :: "8 word" where "LEFT = push_bit 4 1"
definition SPECIAL :: "8 word" where "SPECIAL = push_bit 5 1"
definition LARGE :: "8 word" where "LARGE = push_bit 6 1"

abbreviation has_flag :: "8 word \<Rightarrow> 8 word \<Rightarrow> bool" where
  "has_flag flags f \<equiv> flags AND f \<noteq> 0"

text \<open>The remainder and the quotient; every base but ten divides by sixteen.\<close>

definition divide :: "64 word \<Rightarrow> int \<Rightarrow> nat \<times> 64 word" where
  "divide n base = (if base = 10 then (unat (n mod 10), n div 10) else (unat (n mod 16), n div 16))"

lemma divide_less: "n \<noteq> 0 \<Longrightarrow> unat (snd (divide n base)) < unat n"
  by (auto simp: divide_def unat_div unat_gt_0)

text \<open>The loop that fills \<open>tmp\<close>, the least significant digit first.\<close>

function digits_loop :: "bool \<Rightarrow> int \<Rightarrow> 64 word \<Rightarrow> string" where
  "digits_loop large base num =
     (if num = 0 then []
      else (if large then ''0123456789ABCDEF'' else ''0123456789abcdef'') ! fst (divide num base)
           # digits_loop large base (snd (divide num base)))"
  by pat_completeness auto
termination
  by (relation "measure (\<lambda>(large, base, num). unat num)") (auto intro: divide_less)

declare digits_loop.simps [simp del]

definition skip_digit :: "int \<Rightarrow> char \<Rightarrow> int result" where
  "skip_digit i c = (let v = i * 10 + of_char c in if v \<le> INT_MAX then Inr (v - 48) else Inl Int_overflow)"

fun skip_atoi :: "int \<Rightarrow> string \<Rightarrow> (int \<times> string) result" where
  "skip_atoi i [] = Inr (i, [])"
| "skip_atoi i (c # f) =
     (if isdigit c then bindR (skip_digit i c) (\<lambda>v. skip_atoi v f) else Inr (i, c # f))"

text \<open>The sign to print and the number without it; \<open>- num\<close> of the smallest number wraps to itself.\<close>

definition get_sign :: "8 word \<Rightarrow> 64 word \<Rightarrow> char option \<times> 64 word" where
  "get_sign flags num =
     (if has_flag flags SIGN then
        if num <s 0 then (Some (CHR ''-''), - num)
        else if has_flag flags PLUS then (Some (CHR ''+''), num)
        else if has_flag flags SPACE then (Some (CHR '' ''), num)
        else (None, num)
      else (None, num))"

definition special_prefix :: "int \<Rightarrow> bool \<Rightarrow> string" where
  "special_prefix base large =
     (if base = 8 then ''0'' else if base = 16 then (if large then ''0X'' else ''0x'') else [])"

text \<open>The second half of \<open>print_number\<close>, from the padding on: \<open>sz\<close> is what is left of the field.\<close>

definition put_number :: "nat \<Rightarrow> sink \<Rightarrow> 8 word \<Rightarrow> char option \<Rightarrow> string \<Rightarrow> string \<Rightarrow> int \<Rightarrow> int \<Rightarrow> int \<Rightarrow> sink" where
  "put_number e st flags sign pre tmp sz prec precision =
     (let c = (if has_flag flags ZEROPAD then CHR ''0'' else CHR '' '');
          (st1, sz1) =
            (if \<not> has_flag flags (ZEROPAD OR LEFT)
             then pad_loop e (CHR '' '') (if sign \<noteq> None \<and> sz > 0 then sz - 1 else sz) st
             else (st, sz));
          (st2, sz2) = (case sign of None \<Rightarrow> (st1, sz1) | Some sg \<Rightarrow> (emit e sg st1, sz1 - 1));
          st3 = emits e pre st2;
          (st4, sz4) = (if \<not> has_flag flags LEFT then pad_loop e c sz2 st3 else (st3, sz2));
          st5 = emits e (replicate (nat (prec - int (length tmp))) (CHR ''0'')) st4;
          st6 = (if precision \<noteq> 0 then emits e (rev tmp) st5 else st5)
      in fst (pad_loop e (CHR '' '') sz4 st6))"

definition print_number :: "bool \<Rightarrow> nat \<Rightarrow> sink \<Rightarrow> 64 word \<Rightarrow> int \<Rightarrow> int \<Rightarrow> int \<Rightarrow> 8 word \<Rightarrow> sink" where
  "print_number special e st num0 base s precision type0 =
     (let type1 = (if has_flag type0 LEFT then type0 AND NOT ZEROPAD else type0);
          (sign, num) = get_sign type1 num0;
          pre = (if special \<and> has_flag type1 SPECIAL then special_prefix base (has_flag type0 LARGE) else []);
          tmp = (if num = 0 then ''0'' else digits_loop (has_flag type0 LARGE) base num);
          i = int (length tmp);
          prec = (if i > precision then i else precision)
      in put_number e st type1 sign pre tmp (s - int (length pre) - prec) prec precision)"

subsection \<open>The variable arguments\<close>

datatype varg = VInt int | VLong_long int | VString "string option" | VPointer "32 word"

definition va_int :: "varg list \<Rightarrow> (int \<times> varg list) result" where
  "va_int args = (case args of VInt n # as \<Rightarrow> Inr (n, as) | _ \<Rightarrow> Inl Bad_argument)"

definition va_long_long :: "varg list \<Rightarrow> (int \<times> varg list) result" where
  "va_long_long args = (case args of VLong_long n # as \<Rightarrow> Inr (n, as) | _ \<Rightarrow> Inl Bad_argument)"

definition va_string :: "varg list \<Rightarrow> (string option \<times> varg list) result" where
  "va_string args = (case args of VString s # as \<Rightarrow> Inr (s, as) | _ \<Rightarrow> Inl Bad_argument)"

definition va_pointer :: "varg list \<Rightarrow> (32 word \<times> varg list) result" where
  "va_pointer args = (case args of VPointer p # as \<Rightarrow> Inr (p, as) | _ \<Rightarrow> Inl Bad_argument)"

subsection \<open>The parts of a conversion\<close>

fun flag_loop :: "8 word \<Rightarrow> string \<Rightarrow> 8 word \<times> string" where
  "flag_loop flags [] = (flags, [])"
| "flag_loop flags (c # f) =
     (if c = CHR ''-'' then flag_loop (flags OR LEFT) f
      else if c = CHR ''+'' then flag_loop (flags OR PLUS) f
      else if c = CHR '' '' then flag_loop (flags OR SPACE) f
      else if c = CHR ''#'' then flag_loop (flags OR SPECIAL) f
      else if c = CHR ''0'' then flag_loop (flags OR ZEROPAD) f
      else (flags, c # f))"

definition get_width :: "8 word \<Rightarrow> string \<Rightarrow> varg list \<Rightarrow> (int \<times> 8 word \<times> string \<times> varg list) result" where
  "get_width flags fmt args =
     (case fmt of
        [] \<Rightarrow> Inr (- 1, flags, fmt, args)
      | c # f \<Rightarrow>
          if isdigit c then bindR (skip_atoi 0 fmt) (\<lambda>(w, f'). Inr (w, flags, f', args))
          else if c = CHR ''*'' then
            bindR (va_int args)
              (\<lambda>(w, as).
                 if w = INT_MIN then Inl Int_overflow
                 else if w < 0 then Inr (- w, flags OR LEFT, f, as)
                 else Inr (w, flags, f, as))
          else Inr (- 1, flags, fmt, args))"

definition get_precision :: "string \<Rightarrow> varg list \<Rightarrow> (int \<times> string \<times> varg list) result" where
  "get_precision fmt args =
     (case fmt of
        [] \<Rightarrow> Inr (- 1, fmt, args)
      | c # f \<Rightarrow>
          if c = CHR ''.'' then
            (case f of
               [] \<Rightarrow> Inr (0, f, args)
             | d # f' \<Rightarrow>
                 if isdigit d then bindR (skip_atoi 0 f) (\<lambda>(p, f2). Inr (if p < 0 then 0 else p, f2, args))
                 else if d = CHR ''*'' then bindR (va_int args) (\<lambda>(p, as). Inr (if p < 0 then 0 else p, f', as))
                 else Inr (0, f, args))
          else Inr (- 1, fmt, args))"

definition get_qualifier :: "string \<Rightarrow> char \<times> string" where
  "get_qualifier fmt =
     (case fmt of
        [] \<Rightarrow> (NUL, fmt)
      | c # f \<Rightarrow>
          if c = CHR ''h'' \<or> c = CHR ''l'' \<or> c = CHR ''L'' then
            (case f of
               [] \<Rightarrow> (c, f)
             | d # f' \<Rightarrow> if c = CHR ''l'' \<and> d = CHR ''l'' then (CHR ''L'', f') else (c, f))
          else (NUL, fmt))"

definition get_num :: "char \<Rightarrow> 8 word \<Rightarrow> varg list \<Rightarrow> (64 word \<times> varg list) result" where
  "get_num qualifier flags args =
     (if qualifier = CHR ''L'' then bindR (va_long_long args) (\<lambda>(n, as). Inr (word_of_int n, as))
      else if qualifier = CHR ''h'' then
        bindR (va_int args)
          (\<lambda>(n, as).
             let v = word_of_int n :: 16 word
             in Inr (if has_flag flags SIGN then scast v else ucast v, as))
      else
        bindR (va_int args)
          (\<lambda>(n, as).
             let v = word_of_int n :: 32 word
             in Inr (if has_flag flags SIGN then scast v else ucast v, as)))"

text \<open>\<open>while (--field_width > 0)\<close> and \<open>while (len < field_width--)\<close>, each writing a space\<close>

definition pad_char :: "nat \<Rightarrow> int \<Rightarrow> sink \<Rightarrow> sink \<times> int" where
  "pad_char e fw st = (emits e (replicate (nat (fw - 1)) (CHR '' '')) st, if fw > 1 then 0 else fw - 1)"

definition pad_string :: "nat \<Rightarrow> int \<Rightarrow> int \<Rightarrow> sink \<Rightarrow> sink \<times> int" where
  "pad_string e len fw st =
     (emits e (replicate (nat (fw - len)) (CHR '' '')) st, if len < fw then len - 1 else fw - 1)"

definition print_char :: "nat \<Rightarrow> sink \<Rightarrow> char \<Rightarrow> int \<Rightarrow> 8 word \<Rightarrow> sink" where
  "print_char e st c field_width flags =
     (let (st1, fw) = (if \<not> has_flag flags LEFT then pad_char e field_width st else (st, field_width))
      in fst (pad_char e fw (emit e c st1)))"

text \<open>\<open>for (len = 0; (len != field_width) && (s[len] != 0); len++)\<close>\<close>

fun len_loop :: "int \<Rightarrow> int \<Rightarrow> string \<Rightarrow> int" where
  "len_loop field_width len [] = len"
| "len_loop field_width len (c # s) = (if len = field_width then len else len_loop field_width (len + 1) s)"

definition print_string :: "nat \<Rightarrow> sink \<Rightarrow> string option \<Rightarrow> int \<Rightarrow> int \<Rightarrow> 8 word \<Rightarrow> sink" where
  "print_string e st arg field_width precision flags =
     (let s = (case arg of None \<Rightarrow> ''(NULL)'' | Some s \<Rightarrow> s);
          len0 = len_loop field_width 0 s;
          len = (if precision > 0 \<and> len0 > precision then precision else len0);
          (st1, fw) = (if \<not> has_flag flags LEFT then pad_string e len field_width st else (st, field_width))
      in fst (pad_string e len fw (emits e (take (nat len) s) st1)))"

subsection \<open>A conversion and the format\<close>

text \<open>
  The conversion whose letter is the first of \<open>fmt\<close>, the terminator when \<open>fmt\<close> is empty.  The result has the
  rest of the format behind it.
\<close>

definition conversion ::
    "bool \<Rightarrow> nat \<Rightarrow> sink \<Rightarrow> int \<Rightarrow> int \<Rightarrow> char \<Rightarrow> 8 word \<Rightarrow> string \<Rightarrow> varg list \<Rightarrow> (sink \<times> string \<times> varg list) result" where
  "conversion special e st field_width precision qualifier flags fmt args =
     (let number = (\<lambda>base fl.
            bindR (get_num qualifier fl args)
              (\<lambda>(num, as). Inr (print_number special e st num base field_width precision fl, tl fmt, as)))
      in case fmt of
           [] \<Rightarrow> Inr (emit e (CHR ''%'') st, [], args)
         | c # f \<Rightarrow>
             if c = CHR ''c'' then
               bindR (va_int args)
                 (\<lambda>(n, as). Inr (print_char e st (char_of (nat (n mod 256))) field_width flags, f, as))
             else if c = CHR ''s'' then
               bindR (va_string args) (\<lambda>(s, as). Inr (print_string e st s field_width precision flags, f, as))
             else if c = CHR ''p'' then
               bindR (va_pointer args)
                 (\<lambda>(ptr, as).
                    let (fw, fl) = (if field_width = - 1 then (8, flags OR ZEROPAD) else (field_width, flags))
                    in Inr (print_number special e st (scast ptr) 16 fw precision fl, f, as))
             else if c = CHR ''%'' then Inr (emit e (CHR ''%'') st, f, args)
             else if c = CHR ''o'' then number 8 flags
             else if c = CHR ''X'' then number 16 (flags OR LARGE)
             else if c = CHR ''x'' then number 16 flags
             else if c = CHR ''d'' \<or> c = CHR ''i'' then number 10 (flags OR SIGN)
             else if c = CHR ''u'' then number 10 flags
             else Inr (emit e c (emit e (CHR ''%'') st), f, args))"

text \<open>Everything behind a \<open>%\<close>.\<close>

definition directive ::
    "bool \<Rightarrow> nat \<Rightarrow> sink \<Rightarrow> string \<Rightarrow> varg list \<Rightarrow> (sink \<times> string \<times> varg list) result" where
  "directive special e st fmt0 args0 =
     (let (flags0, fmt1) = flag_loop 0 fmt0
      in bindR (get_width flags0 fmt1 args0)
           (\<lambda>(field_width, flags, fmt2, args2).
              bindR (get_precision fmt2 args2)
                (\<lambda>(precision, fmt3, args3).
                   let (qualifier, fmt4) = get_qualifier fmt3
                   in conversion special e st field_width precision qualifier flags fmt4 args3)))"

lemma skip_atoi_length: "skip_atoi i f = Inr (n, f') \<Longrightarrow> length f' \<le> length f"
  by (induction i f rule: skip_atoi.induct) (auto simp: bindR_eq_Inr split: if_splits)

lemma flag_loop_length: "flag_loop fl f = (fl', f') \<Longrightarrow> length f' \<le> length f"
  by (induction fl f rule: flag_loop.induct) (auto split: if_splits)

lemma conversion_rest:
  assumes "conversion special e st w p q fl f as = Inr (st', f', as')"
  shows "f' = tl f"
proof (cases f)
  case Nil
  then show ?thesis using assms by (simp add: conversion_def)
next
  case (Cons c cs)
  show ?thesis
    using assms unfolding Cons conversion_def Let_def list.case list.sel
    by (simp only: bindR_eq_Inr case_prod_unfold split: if_split_asm) auto
qed

lemma directive_length:
  assumes "directive special e st f args = Inr (st', f', args')"
  shows "length f' \<le> length f"
proof -
  obtain fl f1 where 1: "flag_loop 0 f = (fl, f1)" by fastforce
  from assms obtain w fl2 f2 as2 p f3 as3
    where 2: "get_width fl f1 args = Inr (w, fl2, f2, as2)" and 3: "get_precision f2 as2 = Inr (p, f3, as3)"
      and 4: "conversion special e st w p (fst (get_qualifier f3)) fl2 (snd (get_qualifier f3)) as3 = Inr (st', f', args')"
    by (auto simp: directive_def 1 bindR_eq_Inr case_prod_unfold Let_def)
  have "length f2 \<le> length f1" using 2
    by (auto simp: get_width_def bindR_eq_Inr split: list.splits if_splits dest!: skip_atoi_length)
  moreover have "length f3 \<le> length f2" using 3
    by (auto simp: get_precision_def bindR_eq_Inr split: list.splits if_splits dest!: skip_atoi_length)
  moreover have "length (snd (get_qualifier f3)) \<le> length f3" by (auto simp: get_qualifier_def split: list.splits)
  moreover have "length f' \<le> length (snd (get_qualifier f3))" using 4
    by (auto dest!: conversion_rest)
  ultimately show ?thesis using flag_loop_length [OF 1] by simp
qed

function vsn_loop :: "bool \<Rightarrow> nat \<Rightarrow> sink \<Rightarrow> string \<Rightarrow> varg list \<Rightarrow> sink result" where
  "vsn_loop special e st [] args = Inr st"
| "vsn_loop special e st (c # f) args =
     (if c \<noteq> CHR ''%'' then vsn_loop special e (emit e c st) f args
      else bindR (directive special e st f args) (\<lambda>r. vsn_loop special e (fst r) (fst (snd r)) (snd (snd r))))"
  by pat_completeness auto
termination
  by (relation "measure (\<lambda>(special, e, st, f, args). length f)")
     (auto simp: le_imp_less_Suc dest!: directive_length)

text \<open>\<open>end = buf + size\<close>, cut off at the end of the address space\<close>

definition buffer_end :: "nat \<Rightarrow> nat \<Rightarrow> nat" where
  "buffer_end buf sz = (if buf + sz \<ge> 2 ^ 32 then 2 ^ 32 - 1 - buf else sz)"

definition rt_vsnprintf ::
    "bool \<Rightarrow> nat \<Rightarrow> (nat \<Rightarrow> char) \<Rightarrow> nat \<Rightarrow> string \<Rightarrow> varg list \<Rightarrow> ((nat \<Rightarrow> char) \<times> int) result" where
  "rt_vsnprintf special buf mem sz fmt args =
     (let e = buffer_end buf sz
      in bindR (vsn_loop special e (mem, 0) fmt args)
           (\<lambda>(m, str).
              Inr (if e > 0 then if str < e then m(str := NUL) else m(e - 1 := NUL) else m,
                   wrap32 (int str))))"

definition rt_snprintf ::
    "bool \<Rightarrow> nat \<Rightarrow> (nat \<Rightarrow> char) \<Rightarrow> nat \<Rightarrow> string \<Rightarrow> varg list \<Rightarrow> ((nat \<Rightarrow> char) \<times> int) result" where
  "rt_snprintf special buf mem sz fmt args = rt_vsnprintf special buf mem sz fmt args"

definition rt_vsprintf ::
    "bool \<Rightarrow> nat \<Rightarrow> (nat \<Rightarrow> char) \<Rightarrow> string \<Rightarrow> varg list \<Rightarrow> ((nat \<Rightarrow> char) \<times> int) result" where
  "rt_vsprintf special buf mem fmt args = rt_vsnprintf special buf mem (2 ^ 32 - 1) fmt args"

definition rt_sprintf ::
    "bool \<Rightarrow> nat \<Rightarrow> (nat \<Rightarrow> char) \<Rightarrow> string \<Rightarrow> varg list \<Rightarrow> ((nat \<Rightarrow> char) \<times> int) result" where
  "rt_sprintf special buf mem fmt args = rt_vsprintf special buf mem fmt args"

subsection \<open>What is written does not depend on the size of the buffer\<close>

lemma emits_simps [simp]:
  "emits e [] st = st"
  "emits e b (emits e a st) = emits e (a @ b) st"
  "emit e c (emits e a st) = emits e (a @ [c]) st"
  "emits e a (emit e c st) = emits e (c # a) st"
  by (simp_all add: emits_def)

lemma emit_emits: "emit e c st = emits e [c] st"
  by (simp add: emits_def)

lemma emits_result:
  "emits e ts (m, p) = ((\<lambda>k. if p \<le> k \<and> k < p + length ts \<and> k < e then ts ! (k - p) else m k), p + length ts)"
proof (induction ts arbitrary: m p)
  case (Cons c ts)
  have "emits e (c # ts) (m, p) = emits e ts (if p < e then m(p := c) else m, p + 1)"
    by (simp add: emits_def emit_def)
  then show ?case by (auto simp: Cons fun_eq_iff nth_Cons')
qed (auto simp: fun_eq_iff)

text \<open>A writer whose text depends on its arguments only, not on the buffer it writes to.\<close>

definition writes_text :: "(nat \<Rightarrow> sink \<Rightarrow> sink) \<Rightarrow> bool" where
  "writes_text f \<longleftrightarrow> (\<exists>txt. \<forall>e st. f e st = emits e txt st)"

definition uniform :: "(nat \<Rightarrow> sink \<Rightarrow> (sink \<times> 'a) result) \<Rightarrow> bool" where
  "uniform f \<longleftrightarrow> (\<exists>x. \<forall>e st. f e st = Inl x) \<or> (\<exists>txt r. \<forall>e st. f e st = Inr (emits e txt st, r))"

lemma writes_text_emits: "writes_text (\<lambda>e st. emits e txt st)"
  unfolding writes_text_def by blast

lemma uniform_Inr: "writes_text f \<Longrightarrow> uniform (\<lambda>e st. Inr (f e st, r))"
  by (force simp: writes_text_def uniform_def)

lemma uniform_bind: "(\<And>x. uniform (f x)) \<Longrightarrow> uniform (\<lambda>e st. bindR r (\<lambda>x. f x e st))"
  by (cases r) (auto simp: uniform_def)

lemma uniform_if: "(P \<Longrightarrow> uniform f) \<Longrightarrow> (\<not> P \<Longrightarrow> uniform g) \<Longrightarrow> uniform (\<lambda>e st. if P then f e st else g e st)"
  by (cases P) auto

text \<open>The text of a number: padding, sign, prefix, leading zeros and digits in the order of the flags.\<close>

definition put_text :: "8 word \<Rightarrow> char option \<Rightarrow> string \<Rightarrow> string \<Rightarrow> int \<Rightarrow> int \<Rightarrow> int \<Rightarrow> string" where
  "put_text flags sign pre tmp sz prec precision =
     (let sg = (case sign of None \<Rightarrow> [] | Some c \<Rightarrow> [c]);
          room = nat (sz - int (length sg));
          body = replicate (nat (prec - int (length tmp))) (CHR ''0'') @ (if precision \<noteq> 0 then rev tmp else [])
      in if has_flag flags LEFT then sg @ pre @ body @ replicate room (CHR '' '')
         else if has_flag flags ZEROPAD then sg @ pre @ replicate room (CHR ''0'') @ body
         else replicate room (CHR '' '') @ sg @ pre @ body)"

lemma no_pad_flags: "flags AND (ZEROPAD OR LEFT) = 0 \<longleftrightarrow> \<not> has_flag flags ZEROPAD \<and> \<not> has_flag flags LEFT"
  by (simp add: bit.conj_disj_distrib or_eq_0_iff)

lemma put_number_text: "put_number e st flags sign pre tmp sz prec precision =
    emits e (put_text flags sign pre tmp sz prec precision) st"
  by (cases sign; cases "has_flag flags LEFT"; cases "has_flag flags ZEROPAD"; cases "0 < sz")
     (simp_all add: put_number_def put_text_def pad_loop_def no_pad_flags)

lemma put_number_writes: "writes_text (\<lambda>e st. put_number e st flags sign pre tmp sz prec precision)"
  unfolding put_number_text by (rule writes_text_emits)

lemma print_number_writes: "writes_text (\<lambda>e st. print_number special e st num base s precision flags)"
  unfolding print_number_def Let_def case_prod_unfold by (rule put_number_writes)

lemma print_char_writes: "writes_text (\<lambda>e st. print_char e st c fw flags)"
  by (cases "has_flag flags LEFT") (simp_all add: print_char_def pad_char_def Let_def emit_emits writes_text_emits)

lemma print_string_writes: "writes_text (\<lambda>e st. print_string e st arg fw precision flags)"
  by (cases "has_flag flags LEFT") (simp_all add: print_string_def pad_string_def Let_def writes_text_emits)

lemma conversion_uniform: "uniform (\<lambda>e st. conversion special e st w p q fl f as)"
proof (cases f)
  case Nil
  then show ?thesis by (simp add: conversion_def emit_emits uniform_Inr writes_text_emits)
next
  case (Cons c cs)
  have t: "writes_text (\<lambda>e st. emit e (CHR ''%'') st)" "writes_text (\<lambda>e st. emit e c (emit e (CHR ''%'') st))" for c
    by (simp_all add: emit_emits writes_text_emits)
  show ?thesis
    unfolding Cons conversion_def Let_def list.case list.sel case_prod_unfold
    by (intro uniform_if uniform_bind uniform_Inr t print_char_writes print_string_writes print_number_writes)
qed

lemma directive_uniform: "uniform (\<lambda>e st. directive special e st f as)"
  unfolding directive_def Let_def case_prod_unfold by (intro uniform_bind conversion_uniform)

lemma vsn_loop_uniform:
  "(\<exists>x. \<forall>e st. vsn_loop special e st f as = Inl x) \<or>
   (\<exists>ts. \<forall>e st. vsn_loop special e st f as = Inr (emits e ts st))"
proof (induction "length f" arbitrary: f as rule: less_induct)
  case less
  show ?case
  proof (cases f)
    case Nil
    then have "\<forall>e st. vsn_loop special e st f as = Inr (emits e [] st)" by simp
    then show ?thesis by blast
  next
    case (Cons c cs)
    show ?thesis
    proof (cases "c = CHR ''%''")
      case False
      have "length cs < length f" using Cons by simp
      from less [OF this, of as] consider
          x where "\<forall>e st. vsn_loop special e st cs as = Inl x"
        | ts where "\<forall>e st. vsn_loop special e st cs as = Inr (emits e ts st)"
        by blast
      then show ?thesis
      proof cases
        case (2 ts)
        then have "\<forall>e st. vsn_loop special e st f as = Inr (emits e (c # ts) st)"
          using Cons False by (simp del: split_paired_All)
        then show ?thesis by blast
      qed (use Cons False in \<open>auto simp del: split_paired_All\<close>)
    next
      case True
      from directive_uniform [of special cs as] consider
          x where "\<forall>e st. directive special e st cs as = Inl x"
        | ts f' as' where "\<forall>e st. directive special e st cs as = Inr (emits e ts st, f', as')"
        by (auto simp: uniform_def)
      then show ?thesis
      proof cases
        case 1
        then show ?thesis using Cons True by (auto simp del: split_paired_All)
      next
        case (2 ts f' as')
        have "length f' < length f"
          using directive_length [of special _ _ cs as] 2 Cons by (metis length_Cons less_Suc_eq_le)
        from less [OF this, of as'] consider
            x where "\<forall>e st. vsn_loop special e st f' as' = Inl x"
          | us where "\<forall>e st. vsn_loop special e st f' as' = Inr (emits e us st)"
          by blast
        then show ?thesis
        proof cases
          case (2 us)
          then have "\<forall>e st. vsn_loop special e st f as = Inr (emits e (ts @ us) st)"
            using Cons True \<open>\<forall>e st. directive special e st cs as = Inr (emits e ts st, f', as')\<close>
            by (simp del: split_paired_All)
          then show ?thesis by blast
        qed (use Cons True 2 in \<open>auto simp del: split_paired_All\<close>)
      qed
    qed
  qed
qed

text \<open>C39: The call either faults for every buffer, because of its arguments, or there is one text that depends on
  the format and the arguments only: the call returns its length and leaves in a buffer of \<open>sz\<close> bytes as
  much of it as fits with the terminator, and it writes no byte at or behind the end of the buffer.  The length
  is that of the whole text even when the buffer holds less of it, as C99 has it and against the comment of
  the function, which promises the number of characters actually written.
\<close>

theorem vsnprintf_truncates:
  "(\<exists>x. \<forall>buf mem sz. rt_vsnprintf special buf mem sz fmt args = Inl x) \<or>
   (\<exists>ts. \<forall>buf mem sz. buf + sz < 2 ^ 32 \<longrightarrow>
      rt_vsnprintf special buf mem sz fmt args =
        Inr (\<lambda>k. if k < sz \<and> k < length ts \<and> k < sz - 1 then ts ! k
                 else if k < sz \<and> k = min (length ts) (sz - 1) then NUL
                 else mem k,
             wrap32 (int (length ts))))"
  using vsn_loop_uniform [of special fmt args]
proof
  assume "\<exists>x. \<forall>e st. vsn_loop special e st fmt args = Inl x"
  then show ?thesis by (auto simp: rt_vsnprintf_def)
next
  assume "\<exists>ts. \<forall>e st. vsn_loop special e st fmt args = Inr (emits e ts st)"
  then obtain ts where ts: "vsn_loop special e st fmt args = Inr (emits e ts st)" for e st by blast
  have "rt_vsnprintf special buf mem sz fmt args =
      Inr (\<lambda>k. if k < sz \<and> k < length ts \<and> k < sz - 1 then ts ! k
               else if k < sz \<and> k = min (length ts) (sz - 1) then NUL
               else mem k,
           wrap32 (int (length ts)))" if "buf + sz < 2 ^ 32" for buf mem sz
    using that by (auto simp: rt_vsnprintf_def buffer_end_def ts emits_result fun_eq_iff min_def)
  then show ?thesis by blast
qed

subsection \<open>The digits of a number\<close>

lemma hex_digit_char:
  assumes "k < 16"
  shows "''0123456789abcdef'' ! k = dig k"
proof -
  have "\<forall>k \<in> set [0..<16]. ''0123456789abcdef'' ! k = dig k" by code_simp
  then show ?thesis using assms by simp
qed

definition radix :: "int \<Rightarrow> nat" where
  "radix base = (if base = 10 then 10 else 16)"

lemma divide_radix:
  "fst (divide n base) = unat n mod radix base" "unat (snd (divide n base)) = unat n div radix base"
  by (simp_all add: divide_def radix_def unat_mod unat_div)

text \<open>\<open>tmp\<close> holds the digits backwards.\<close>

lemma digits_loop_digits:
  "num \<noteq> 0 \<Longrightarrow> rev (digits_loop False base num) = digits (radix base) (unat num)"
proof (induction "unat num" arbitrary: num rule: less_induct)
  case less
  define q where "q = snd (divide num base)"
  have r: "2 \<le> radix base" "radix base \<le> 16" by (simp_all add: radix_def)
  have d: "''0123456789abcdef'' ! fst (divide num base) = dig (unat num mod radix base)"
    using r by (subst hex_digit_char) (auto simp: divide_radix intro: less_le_trans [OF mod_less_divisor])
  have loop: "digits_loop False base num = dig (unat num mod radix base) # digits_loop False base q"
    using less.prems d by (subst digits_loop.simps) (simp add: q_def)
  show ?case
  proof (cases "q = 0")
    case True
    then have "unat num div radix base = 0" using divide_radix(2) [of num base] by (simp add: q_def)
    then have "unat num < radix base" using r by (simp add: div_eq_0_iff)
    then show ?thesis unfolding loop True by (simp add: digits_loop.simps [of _ _ 0] digits.simps [of "radix base"])
  next
    case False
    have "unat q < unat num" unfolding q_def by (rule divide_less [OF less.prems])
    from less.hyps [OF this False]
    have IH: "rev (digits_loop False base q) = digits (radix base) (unat num div radix base)"
      by (simp add: q_def divide_radix)
    have "unat num div radix base \<noteq> 0"
      using False divide_radix(2) [of num base] by (metis q_def unsigned_eq_0_iff)
    then have "\<not> unat num < radix base" by (intro notI) simp
    then show ?thesis
      unfolding loop using IH r by (simp add: digits.simps [of "radix base" "unat num"])
  qed
qed

lemma digits_0: "digits b 0 = ''0''"
proof -
  have "dig 0 = CHR ''0''" by code_simp
  then show ?thesis by (auto simp: digits.simps [of b 0])
qed

text \<open>\<open>tmp\<close> of the number as \<open>print_number\<close> fills it, zero included; its 32 bytes are enough.\<close>

lemma tmp_digits:
  "rev (if num = 0 then ''0'' else digits_loop False base num) = digits (radix base) (unat num)"
  by (simp add: digits_loop_digits digits_0)

lemma digits_loop_length: "unat num < 10 ^ k \<Longrightarrow> length (digits_loop large base num) \<le> k"
proof (induction k arbitrary: num)
  case 0
  then have "num = 0" by (simp add: unat_eq_0)
  then show ?case by (simp add: digits_loop.simps)
next
  case (Suc k)
  have "unat (snd (divide num base)) \<le> unat num div 10"
    unfolding divide_radix by (rule div_le_mono2) (auto simp: radix_def)
  also have "\<dots> < 10 ^ k" using Suc.prems by (simp add: less_mult_imp_div_less mult.commute)
  finally have "length (digits_loop large base (snd (divide num base))) \<le> k" by (rule Suc.IH)
  then show ?case by (subst digits_loop.simps) simp
qed

text \<open>No number, in either base, has more digits than fit in \<open>tmp\<close>.\<close>

theorem tmp_never_overflows: "length (digits_loop large base num) \<le> 20"
proof (rule digits_loop_length)
  have "unat num < 2 ^ 64" using unsigned_less [of num] by simp
  then show "unat num < 10 ^ 20" by simp
qed

subsection \<open>The conversions\<close>

lemma print_number_plain:
  assumes "get_sign flags num0 = (sign, num)" and "\<not> has_flag flags LEFT" "\<not> has_flag flags LARGE"
  shows "print_number special e st num0 10 s (- 1) flags =
    (let tmp = rev (digits 10 (unat num)) in
     emits e (put_text flags sign [] tmp (s - int (length tmp)) (int (length tmp)) (- 1)) st)"
proof -
  have "(if num = 0 then ''0'' else digits_loop False 10 num) = rev (digits 10 (unat num))"
    using arg_cong [OF tmp_digits [of num 10], of rev] by (simp add: radix_def)
  with assms show ?thesis
    by (cases "num = 0") (simp_all add: print_number_def put_number_text special_prefix_def Let_def digits_0)
qed

lemma int_flags:
  fixes zero :: bool
  defines "fl \<equiv> if zero then SIGN OR ZEROPAD else SIGN"
  shows "has_flag fl SIGN" "\<not> has_flag fl LEFT" "\<not> has_flag fl LARGE" "\<not> has_flag fl PLUS" "\<not> has_flag fl SPACE"
    "has_flag fl ZEROPAD \<longleftrightarrow> zero"
  by (simp_all add: fl_def SIGN_def ZEROPAD_def LEFT_def LARGE_def PLUS_def SPACE_def)

lemma get_sign_int:
  assumes "- (2 ^ 63) \<le> n" "n < 2 ^ 63" and "has_flag flags SIGN" "\<not> has_flag flags PLUS" "\<not> has_flag flags SPACE"
  shows "get_sign flags (word_of_int n) = (if n < 0 then Some (CHR ''-'') else None, word_of_int \<bar>n\<bar>)"
proof -
  have "sint (word_of_int n :: 64 word) = n"
    using assms(1,2) by (simp add: signed_of_int signed_take_bit_int_eq_self)
  then show ?thesis using assms by (auto simp: get_sign_def word_sless_alt)
qed

text \<open>A conversion \<open>%d\<close> with the flag \<open>0\<close> or without is what the C library's \<open>vsnprintf\<close> writes.\<close>

theorem print_number_decimal:
  assumes "- (2 ^ 63) \<le> n" "n < 2 ^ 63"
  shows "print_number special e st (word_of_int n) 10 w (- 1) (if zero then SIGN OR ZEROPAD else SIGN) =
         emits e (fmt_int zero (nat w) n) st"
proof -
  let ?fl = "if zero then SIGN OR ZEROPAD else SIGN"
  have u: "unat (word_of_int \<bar>n\<bar> :: 64 word) = nat \<bar>n\<bar>"
    using assms by (simp add: unsigned_of_int take_bit_int_eq_self)
  have room: "nat (w - int k) = nat w - k" "nat (w - int k - 1) = nat w - k - 1" "nat w - Suc (0 + k) = nat w - k - 1" for k
    by auto
  note f = int_flags [of zero]
  from print_number_plain [OF get_sign_int [OF assms f(1,4,5)] f(2,3), of special e st w] f(2,6)
  show ?thesis
    unfolding u Let_def
    by (cases zero; cases "n < 0")
       (simp_all only: put_text_def fmt_int_def with_sign_def zpad_def spad_def Let_def if_True if_False
          option.case list.size length_rev, simp_all add: room)
qed

subsection \<open>Where the conversions differ from the standard\<close>

lemma digits_loop_octal: "digits_loop large 8 num = digits_loop large 16 num"
proof (induction large "16 :: int" num rule: digits_loop.induct)
  case (1 large num)
  have "divide num 8 = divide num 16" by (simp add: divide_def)
  with 1 show ?case by (subst (1 2) digits_loop.simps) simp
qed

lemma print_number_octal: "print_number False e st num 8 s p flags = print_number False e st num 16 s p flags"
  unfolding print_number_def digits_loop_octal by simp

text \<open>\<open>%o\<close> prints the same text as \<open>%x\<close>: \<open>divide\<close> knows only the bases ten and sixteen.\<close>

theorem octal_is_hexadecimal:
  "conversion False e st w p q flags (CHR ''o'' # f) args = conversion False e st w p q flags (CHR ''x'' # f) args"
  by (simp add: conversion_def print_number_octal)

text \<open>A precision of zero suppresses the digits of every number, not only of zero.\<close>

theorem zero_precision_no_digits:
  "print_number False e st num base 0 0 SIGN = emits e (case fst (get_sign SIGN num) of None \<Rightarrow> [] | Some c \<Rightarrow> [c]) st"
proof -
  have f: "SIGN AND LEFT = 0" "SIGN AND ZEROPAD = 0" by (simp_all add: SIGN_def LEFT_def ZEROPAD_def)
  have room: "nat (0 - i - int k) = 0" if "0 \<le> i" for i k using that by simp
  show ?thesis
    by (cases "get_sign SIGN num"; cases "fst (get_sign SIGN num)")
       (simp_all add: print_number_def put_number_text put_text_def f Let_def)
qed

text \<open>
  A pointer goes through \<open>long\<close> and is sign-extended to 64 bits: from \<open>0x80000000\<close> on, \<open>%p\<close> prints sixteen
  digits in place of eight.
\<close>

theorem pointer_sign_extended:
  "rt_snprintf False 0 (\<lambda>k. NUL) 64 ''%p'' [VPointer 0x80000010] =
   rt_snprintf False 0 (\<lambda>k. NUL) 64 ''ffffffff80000010'' []"
proof -
  have "scast (0x80000010 :: 32 word) = (0xffffffff80000010 :: 64 word)" by simp
  moreover have "char_of (102 :: nat) = CHR ''f'' \<and> char_of (56 :: nat) = CHR ''8'' \<and> char_of (49 :: nat) = CHR ''1'' \<and>
      char_of (48 :: nat) = CHR ''0''" by code_simp
  then have "digits 16 0xffffffff80000010 = ''ffffffff80000010''" by (simp add: digits.simps dig_def)
  moreover have "rev (digits_loop False 16 0xffffffff80000010) = digits 16 0xffffffff80000010"
    using digits_loop_digits [of "0xffffffff80000010" 16] by (simp add: radix_def)
  ultimately have "digits_loop False 16 0xffffffff80000010 = rev ''ffffffff80000010''"
    by (metis rev_rev_ident)
  then have n: "print_number False e st 0xffffffff80000010 16 8 (- 1) ZEROPAD = emits e ''ffffffff80000010'' st" for e st
    by (simp add: print_number_def put_number_text put_text_def get_sign_def ZEROPAD_def SIGN_def LEFT_def LARGE_def)
  have m: "(- 2147483632 :: 64 word) = 0xffffffff80000010" by simp
  have "print_number False e st (- 2147483632) 16 8 (- 1) ZEROPAD = emits e ''ffffffff80000010'' st" for e st
    unfolding m by (rule n)
  then have "directive False e st ''p'' [VPointer 0x80000010] = Inr (emits e ''ffffffff80000010'' st, [], [])" for e st
    by (simp add: directive_def get_width_def get_precision_def get_qualifier_def isdigit_def
      conversion_def va_pointer_def)
  then show ?thesis by (simp add: rt_snprintf_def rt_vsnprintf_def emit_emits)
qed

text \<open>A field width cuts a longer string off.\<close>

theorem string_cut_to_width:
  "rt_snprintf False 0 (\<lambda>k. NUL) 64 ''%3s'' [VString (Some ''abcdef'')] = rt_snprintf False 0 (\<lambda>k. NUL) 64 ''abc'' []"
  by (simp add: rt_snprintf_def rt_vsnprintf_def directive_def get_width_def get_precision_def get_qualifier_def
    conversion_def print_string_def pad_string_def va_string_def isdigit_def skip_digit_def num_of_def emit_emits Let_def)

subsection \<open>Instances\<close>

theorem vsnprintf_truncates_witness:
  "\<exists>ts. rt_vsnprintf False 100 (\<lambda>k. CHR ''x'') 4 ''abcdef'' [] =
     Inr (\<lambda>k. if k < 4 \<and> k < length ts \<and> k < 3 then ts ! k
              else if k < 4 \<and> k = min (length ts) 3 then NUL else CHR ''x'',
          wrap32 (int (length ts)))"
  using vsnprintf_truncates [of False "''abcdef''" "[]"]
proof (elim disjE exE)
  fix x
  assume "\<forall>buf mem sz. rt_vsnprintf False buf mem sz ''abcdef'' [] = Inl x"
  then have "rt_vsnprintf False 100 (\<lambda>k. CHR ''x'') 4 ''abcdef'' [] = Inl x" by blast
  then show ?thesis by (simp add: rt_vsnprintf_def emit_emits case_prod_unfold Let_def)
next
  fix ts
  assume a: "\<forall>buf mem sz. buf + sz < 2 ^ 32 \<longrightarrow> rt_vsnprintf False buf mem sz ''abcdef'' [] =
      Inr (\<lambda>k. if k < sz \<and> k < length ts \<and> k < sz - 1 then ts ! k
               else if k < sz \<and> k = min (length ts) (sz - 1) then NUL else mem k, wrap32 (int (length ts)))"
  have e: "(4 :: nat) - 1 = 3" and l: "(100 :: nat) + 4 < 2 ^ 32" by simp_all
  show ?thesis by (rule exI [of _ ts]) (rule a [rule_format, OF l, unfolded e])
qed

theorem print_number_decimal_witness:
  "print_number False 10 (\<lambda>k. NUL, 0) (word_of_int (- 42)) 10 6 (- 1) (SIGN OR ZEROPAD) =
   emits 10 (fmt_int True (nat 6) (- 42)) (\<lambda>k. NUL, 0)"
  using print_number_decimal [of "- 42" False 10 "(\<lambda>k. NUL, 0)" 6 True] by simp

end
