(* ===== verification/Rt_String.thy ===== *)
theory Rt_String
  imports Nmea_Prelude "HOL-Library.Sublist"
begin

text \<open>
  The memory and string functions of the kernel library (\<open>kservice.c\<close>, without the option
  \<open>RT_KSERVICE_USING_TINY_SIZE\<close>, \<open>long\<close> of 32 bits).

  The functions on memory work on all of it, a map from addresses to bytes, so that source and
  destination may overlap; a word is moved as four bytes at once.  A string argument is the bytes from
  the pointer to the end of the object it points into, its terminator included: reading behind them is
  a fault, so a string without a terminator is one.  Plain \<open>char\<close> is signed.
\<close>

subsection \<open>Filling memory\<close>

type_synonym memory = "nat \<Rightarrow> 8 word"

definition LBLOCKSIZE :: nat where "LBLOCKSIZE = 4"

text \<open>The store of a word, the least significant byte first.\<close>

definition store_word :: "memory \<Rightarrow> nat \<Rightarrow> 32 word \<Rightarrow> memory" where
  "store_word m a w =
     m(a := ucast w, a + 1 := ucast (drop_bit 8 w), a + 2 := ucast (drop_bit 16 w), a + 3 := ucast (drop_bit 24 w))"

definition memset_buffer :: "32 word \<Rightarrow> 32 word" where
  "memset_buffer d = (let b = push_bit 8 d OR d in b OR push_bit 16 b)"

function memset_big :: "memory \<Rightarrow> nat \<Rightarrow> 32 word \<Rightarrow> nat \<Rightarrow> memory \<times> nat \<times> nat" where
  "memset_big m p buffer count =
     (if count \<ge> LBLOCKSIZE * 4
      then memset_big
             (store_word (store_word (store_word (store_word m p buffer) (p + 4) buffer) (p + 8) buffer) (p + 12) buffer)
             (p + 16) buffer (count - 4 * LBLOCKSIZE)
      else (m, p, count))"
  by pat_completeness auto
termination
  by (relation "measure (\<lambda>(m, p, buffer, count). count)") (auto simp: LBLOCKSIZE_def)

function memset_words :: "memory \<Rightarrow> nat \<Rightarrow> 32 word \<Rightarrow> nat \<Rightarrow> memory \<times> nat \<times> nat" where
  "memset_words m p buffer count =
     (if count \<ge> LBLOCKSIZE then memset_words (store_word m p buffer) (p + 4) buffer (count - LBLOCKSIZE)
      else (m, p, count))"
  by pat_completeness auto
termination
  by (relation "measure (\<lambda>(m, p, buffer, count). count)") (auto simp: LBLOCKSIZE_def)

fun memset_bytes :: "memory \<Rightarrow> nat \<Rightarrow> 32 word \<Rightarrow> nat \<Rightarrow> memory" where
  "memset_bytes m p d 0 = m"
| "memset_bytes m p d (Suc count) = memset_bytes (m(p := ucast d)) (p + 1) d count"

declare memset_big.simps [simp del] memset_words.simps [simp del]

definition rt_memset :: "memory \<Rightarrow> nat \<Rightarrow> int \<Rightarrow> nat \<Rightarrow> memory" where
  "rt_memset m s c count =
     (let d = word_of_int c AND 0xff :: 32 word
      in if \<not> count < LBLOCKSIZE \<and> s mod LBLOCKSIZE = 0
         then (let buffer = memset_buffer d;
                   (m1, p1, n1) = memset_big m s buffer count;
                   (m2, p2, n2) = memset_words m1 p1 buffer n1
               in memset_bytes m2 p2 d n2)
         else memset_bytes m s d count)"

subsection \<open>Copying memory\<close>

definition copy_word :: "memory \<Rightarrow> nat \<Rightarrow> nat \<Rightarrow> memory" where
  "copy_word m dst src = m(dst := m src, dst + 1 := m (src + 1), dst + 2 := m (src + 2), dst + 3 := m (src + 3))"

function memcpy_big :: "memory \<Rightarrow> nat \<Rightarrow> nat \<Rightarrow> nat \<Rightarrow> memory \<times> nat \<times> nat \<times> nat" where
  "memcpy_big m dst src len =
     (if len \<ge> 16
      then memcpy_big
             (copy_word (copy_word (copy_word (copy_word m dst src) (dst + 4) (src + 4)) (dst + 8) (src + 8))
               (dst + 12) (src + 12))
             (dst + 16) (src + 16) (len - 16)
      else (m, dst, src, len))"
  by pat_completeness auto
termination
  by (relation "measure (\<lambda>(m, dst, src, len). len)") auto

function memcpy_words :: "memory \<Rightarrow> nat \<Rightarrow> nat \<Rightarrow> nat \<Rightarrow> memory \<times> nat \<times> nat \<times> nat" where
  "memcpy_words m dst src len =
     (if len \<ge> LBLOCKSIZE then memcpy_words (copy_word m dst src) (dst + 4) (src + 4) (len - LBLOCKSIZE)
      else (m, dst, src, len))"
  by pat_completeness auto
termination
  by (relation "measure (\<lambda>(m, dst, src, len). len)") (auto simp: LBLOCKSIZE_def)

declare memcpy_big.simps [simp del] memcpy_words.simps [simp del]

text \<open>\<open>while (n--) *dst++ = *src++\<close> and \<open>while (n--) *(--tmp) = *(--s)\<close>\<close>

fun copy_up :: "memory \<Rightarrow> nat \<Rightarrow> nat \<Rightarrow> nat \<Rightarrow> memory" where
  "copy_up m dst src 0 = m"
| "copy_up m dst src (Suc n) = copy_up (m(dst := m src)) (dst + 1) (src + 1) n"

fun copy_down :: "memory \<Rightarrow> nat \<Rightarrow> nat \<Rightarrow> nat \<Rightarrow> memory" where
  "copy_down m tmp s 0 = m"
| "copy_down m tmp s (Suc n) = copy_down (m(tmp - 1 := m (s - 1))) (tmp - 1) (s - 1) n"

text \<open>The code keeps the count in a signed \<open>int\<close> but compares it with and takes from it \<open>sizeof\<close> values, which are
  unsigned, so for counts up to \<open>2^32\<close> the comparisons are those of the unsigned count and a natural number
  stands for it.\<close>

definition rt_memcpy :: "memory \<Rightarrow> nat \<Rightarrow> nat \<Rightarrow> nat \<Rightarrow> memory" where
  "rt_memcpy m dst src count =
     (if \<not> count < 4 * LBLOCKSIZE \<and> src mod LBLOCKSIZE = 0 \<and> dst mod LBLOCKSIZE = 0
      then (let (m1, d1, s1, n1) = memcpy_big m dst src count;
                (m2, d2, s2, n2) = memcpy_words m1 d1 s1 n1
            in copy_up m2 d2 s2 n2)
      else copy_up m dst src count)"

definition rt_memmove :: "memory \<Rightarrow> nat \<Rightarrow> nat \<Rightarrow> nat \<Rightarrow> memory" where
  "rt_memmove m dest src n =
     (if src < dest \<and> dest < src + n then copy_down m (dest + n) (src + n) n else copy_up m dest src n)"

subsection \<open>Strings\<close>

fun rt_memcmp :: "string \<Rightarrow> string \<Rightarrow> nat \<Rightarrow> int result" where
  "rt_memcmp cs ct 0 = Inr 0"
| "rt_memcmp (a # cs) (b # ct) (Suc count) =
     (if of_char a - of_char b \<noteq> (0 :: int) then Inr (of_char a - of_char b) else rt_memcmp cs ct count)"
| "rt_memcmp cs ct (Suc count) = Inl Out_of_bounds"

fun rt_strlen :: "string \<Rightarrow> nat result" where
  "rt_strlen [] = Inl Out_of_bounds"
| "rt_strlen (c # s) = (if c = NUL then Inr 0 else bindR (rt_strlen s) (\<lambda>n. Inr (n + 1)))"

fun strnlen_loop :: "string \<Rightarrow> nat \<Rightarrow> nat \<Rightarrow> nat result" where
  "strnlen_loop [] n maxlen = Inl Out_of_bounds"
| "strnlen_loop (c # s) n maxlen = (if c \<noteq> NUL \<and> n < maxlen then strnlen_loop s (n + 1) maxlen else Inr n)"

definition rt_strnlen :: "string \<Rightarrow> nat \<Rightarrow> nat result" where
  "rt_strnlen s maxlen = strnlen_loop s 0 maxlen"

text \<open>The loop of \<open>rt_strstr\<close>: \<open>l1\<close> bytes are left from offset \<open>k\<close> on.\<close>

fun strstr_loop :: "string \<Rightarrow> string \<Rightarrow> nat \<Rightarrow> nat \<Rightarrow> nat \<Rightarrow> nat option result" where
  "strstr_loop s1 s2 k 0 l2 =
     (if 0 \<ge> l2 then bindR (rt_memcmp s1 s2 l2) (\<lambda>r. Inr (if r = 0 then Some k else None)) else Inr None)"
| "strstr_loop s1 s2 k (Suc l1) l2 =
     (if Suc l1 \<ge> l2
      then bindR (rt_memcmp s1 s2 l2) (\<lambda>r. if r = 0 then Inr (Some k) else strstr_loop (tl s1) s2 (k + 1) l1 l2)
      else Inr None)"

definition rt_strstr :: "string \<Rightarrow> string \<Rightarrow> nat option result" where
  "rt_strstr s1 s2 =
     bindR (rt_strlen s2)
       (\<lambda>l2. if l2 = 0 then Inr (Some 0)
             else bindR (rt_strlen s1) (\<lambda>l1. strstr_loop s1 s2 0 l1 l2))"

definition to_lower :: "int \<Rightarrow> int" where
  "to_lower c = (if of_char (CHR ''A'') \<le> c \<and> c \<le> of_char (CHR ''Z'') then c + (of_char (CHR ''a'') - of_char (CHR ''A'')) else c)"

fun rt_strcasecmp :: "string \<Rightarrow> string \<Rightarrow> int result" where
  "rt_strcasecmp (x # a) (y # b) =
     (let ca = to_lower (of_char x); cb = to_lower (of_char y)
      in if ca = cb \<and> ca \<noteq> 0 then rt_strcasecmp a b else Inr (ca - cb))"
| "rt_strcasecmp a b = Inl Out_of_bounds"

fun rt_strcmp :: "string \<Rightarrow> string \<Rightarrow> int result" where
  "rt_strcmp (x # cs) (y # ct) = (if x \<noteq> NUL \<and> x = y then rt_strcmp cs ct else Inr (c_int x - c_int y))"
| "rt_strcmp cs ct = Inl Out_of_bounds"

text \<open>The difference is stored in a \<open>signed char\<close>.\<close>

fun strncmp_loop :: "int \<Rightarrow> string \<Rightarrow> string \<Rightarrow> nat \<Rightarrow> int result" where
  "strncmp_loop res cs ct 0 = Inr res"
| "strncmp_loop res (x # cs) (y # ct) (Suc count) =
     (let r = signed_take_bit 7 (c_int x - c_int y)
      in if r \<noteq> 0 \<or> x = NUL then Inr r else strncmp_loop r cs ct count)"
| "strncmp_loop res cs ct (Suc count) = Inl Out_of_bounds"

definition rt_strncmp :: "string \<Rightarrow> string \<Rightarrow> nat \<Rightarrow> int result" where
  "rt_strncmp cs ct count = strncmp_loop 0 cs ct count"

text \<open>Writing into the destination \<open>dst\<close>, the bytes of the object from the pointer on.\<close>

fun zero_fill :: "string \<Rightarrow> nat \<Rightarrow> string result" where
  "zero_fill d 0 = Inr d"
| "zero_fill [] (Suc n) = Inl Buffer_overflow"
| "zero_fill (x # d) (Suc n) = bindR (zero_fill d n) (\<lambda>d'. Inr (NUL # d'))"

fun rt_strncpy :: "string \<Rightarrow> string \<Rightarrow> nat \<Rightarrow> string result" where
  "rt_strncpy dst src 0 = Inr dst"
| "rt_strncpy [] src (Suc n) = Inl Buffer_overflow"
| "rt_strncpy dst [] (Suc n) = Inl Out_of_bounds"
| "rt_strncpy (x # d) (c # s) (Suc n) =
     (if c = NUL then bindR (zero_fill d n) (\<lambda>d'. Inr (NUL # d'))
      else bindR (rt_strncpy d s n) (\<lambda>d'. Inr (c # d')))"

fun rt_strcpy :: "string \<Rightarrow> string \<Rightarrow> string result" where
  "rt_strcpy dst [] = Inl Out_of_bounds"
| "rt_strcpy [] (c # s) = Inl Buffer_overflow"
| "rt_strcpy (x # d) (c # s) = (if c \<noteq> NUL then bindR (rt_strcpy d s) (\<lambda>d'. Inr (c # d')) else Inr (NUL # d))"

text \<open>The new block is of the size asked for, so the copy fills it.\<close>

definition rt_strdup :: "bool \<Rightarrow> string \<Rightarrow> string option result" where
  "rt_strdup got s = bindR (rt_strlen s) (\<lambda>n. Inr (if got then Some (take (n + 1) s) else None))"

subsection \<open>Memory after a fill and after a move\<close>

definition filled :: "memory \<Rightarrow> nat \<Rightarrow> nat \<Rightarrow> 8 word \<Rightarrow> memory" where
  "filled m s n v = (\<lambda>a. if s \<le> a \<and> a < s + n then v else m a)"

definition moved :: "memory \<Rightarrow> nat \<Rightarrow> nat \<Rightarrow> nat \<Rightarrow> memory" where
  "moved m dst src n = (\<lambda>a. if dst \<le> a \<and> a < dst + n then m (src + (a - dst)) else m a)"

lemma filled_simps [simp]:
  "filled m s 0 v = m" "filled (filled m s k v) (s + k) n v = filled m s (k + n) v"
  by (auto simp: filled_def fun_eq_iff)

lemma fill_one: "m(p := v) = filled m p 1 v"
  by (auto simp: filled_def fun_eq_iff)

lemma memset_bytes_filled: "memset_bytes m p d n = filled m p n (ucast d)"
proof (induction n arbitrary: m p)
  case (Suc n)
  then show ?case using filled_simps(2) [of m p 1 "ucast d" n] by (simp add: fill_one)
qed simp

lemma four: "store_word m p w = m(p := ucast w, p + 1 := ucast (drop_bit 8 w), p + 2 := ucast (drop_bit 16 w),
    p + 3 := ucast (drop_bit 24 w))"
  by (simp add: store_word_def)

text \<open>The word that holds the byte four times.\<close>

lemma store_filled:
  assumes "\<And>i. 8 \<le> i \<Longrightarrow> \<not> bit d i"
  shows "store_word m p (memset_buffer d) = filled m p 4 (ucast d)"
proof -
  have b: "ucast (drop_bit k (memset_buffer d)) = (ucast d :: 8 word)" if "k \<in> {0, 8, 16, 24}" for k
    using that assms by (intro bit_word_eqI) (auto simp: memset_buffer_def Let_def bit_simps)
  show ?thesis using b [of 0] b [of 8] b [of 16] b [of 24]
    by (auto simp: store_word_def filled_def fun_eq_iff)
qed

lemma memset_big_filled:
  assumes "\<And>i. 8 \<le> i \<Longrightarrow> \<not> bit d i"
  shows "\<exists>n'. memset_big m p (memset_buffer d) n = (filled m p (n - n') (ucast d), p + (n - n'), n') \<and> n' \<le> n"
proof (induction n arbitrary: m p rule: less_induct)
  case (less n)
  let ?b = "memset_buffer d" and ?v = "ucast d :: 8 word"
  show ?case
  proof (cases "16 \<le> n")
    case True
    have w: "store_word (store_word (store_word (store_word m p ?b) (p + 4) ?b) (p + 8) ?b) (p + 12) ?b = filled m p 16 ?v"
      using filled_simps(2) [of m p 4 ?v 4] filled_simps(2) [of m p 8 ?v 4] filled_simps(2) [of m p 12 ?v 4]
      by (simp add: store_filled [OF assms])
    obtain n' where n': "memset_big (filled m p 16 ?v) (p + 16) ?b (n - 16) =
        (filled (filled m p 16 ?v) (p + 16) (n - 16 - n') ?v, p + 16 + (n - 16 - n'), n')" "n' \<le> n - 16"
      using less [of "n - 16"] True by fastforce
    have "16 + (n - 16 - n') = n - n'" using n'(2) True by simp
    with n' True show ?thesis
      by (subst memset_big.simps) (auto simp: w LBLOCKSIZE_def intro!: exI [of _ n'])
  next
    case False
    then show ?thesis by (subst memset_big.simps) (auto simp: LBLOCKSIZE_def intro!: exI [of _ n])
  qed
qed

lemma memset_words_filled:
  assumes "\<And>i. 8 \<le> i \<Longrightarrow> \<not> bit d i"
  shows "\<exists>n'. memset_words m p (memset_buffer d) n = (filled m p (n - n') (ucast d), p + (n - n'), n') \<and> n' \<le> n"
proof (induction n arbitrary: m p rule: less_induct)
  case (less n)
  let ?b = "memset_buffer d" and ?v = "ucast d :: 8 word"
  show ?case
  proof (cases "4 \<le> n")
    case True
    obtain n' where n': "memset_words (filled m p 4 ?v) (p + 4) ?b (n - 4) =
        (filled (filled m p 4 ?v) (p + 4) (n - 4 - n') ?v, p + 4 + (n - 4 - n'), n')" "n' \<le> n - 4"
      using less [of "n - 4"] True by fastforce
    have "4 + (n - 4 - n') = n - n'" using n'(2) True by simp
    with n' True show ?thesis
      by (subst memset_words.simps) (auto simp: store_filled [OF assms] LBLOCKSIZE_def intro!: exI [of _ n'])
  next
    case False
    then show ?thesis by (subst memset_words.simps) (auto simp: LBLOCKSIZE_def intro!: exI [of _ n])
  qed
qed

text \<open>
  \<open>rt_memset\<close> by blocks, words and bytes stores the low byte of its argument in exactly the bytes asked for,
  for every length and alignment.
\<close>

theorem memset_fills: "rt_memset m s c count = filled m s count (word_of_int c)"
proof -
  let ?d = "word_of_int c AND 0xff :: 32 word"
  have m: "(0xff :: 32 word) = mask 8" by (simp add: mask_eq_exp_minus_1)
  have d: "\<not> bit ?d i" if "8 \<le> i" for i using that by (simp add: m bit_simps)
  have v: "(ucast ?d :: 8 word) = word_of_int c" by (rule bit_word_eqI) (auto simp: m bit_simps)
  obtain n1 where n1: "memset_big m s (memset_buffer ?d) count =
      (filled m s (count - n1) (ucast ?d), s + (count - n1), n1)" "n1 \<le> count"
    using memset_big_filled [OF d] by blast
  obtain n2 where n2: "memset_words (filled m s (count - n1) (ucast ?d)) (s + (count - n1)) (memset_buffer ?d) n1 =
      (filled (filled m s (count - n1) (ucast ?d)) (s + (count - n1)) (n1 - n2) (ucast ?d), s + (count - n1) + (n1 - n2), n2)"
      "n2 \<le> n1"
    using memset_words_filled [OF d] by blast
  have s: "count - n1 + (n1 - n2) = count - n2" "count - n2 + n2 = count"
    "s + (count - n1) + (n1 - n2) = s + (count - n2)"
    using n1(2) n2(2) by simp_all
  show ?thesis
    unfolding rt_memset_def Let_def n1(1) prod.case n2(1) memset_bytes_filled
    by (simp only: filled_simps s v if_cancel)
qed

subsection \<open>Moving\<close>

lemma moved_0 [simp]: "moved m dst src 0 = m"
  by (auto simp: moved_def fun_eq_iff)

lemma moved_append:
  assumes "dst \<le> src \<or> src + (k + n) \<le> dst"
  shows "moved (moved m dst src k) (dst + k) (src + k) n = moved m dst src (k + n)"
  using assms by (auto simp: moved_def fun_eq_iff)

lemma moved_within:
  assumes "dst \<le> src \<or> src + len \<le> dst" and "k + n = t" "t \<le> len" and "d = dst + k" "s = src + k"
  shows "moved (moved m dst src k) d s n = moved m dst src t"
  using moved_append [of dst src k n m] assms by auto

lemma move_one: "m(dst := m src) = moved m dst src 1"
  by (auto simp: moved_def fun_eq_iff)

lemma copy_word_moved: "copy_word m dst src = moved m dst src 4"
proof
  fix a
  consider "a = dst" | "a = dst + 1" | "a = dst + 2" | "a = dst + 3" | "a < dst \<or> dst + 4 \<le> a" by linarith
  then show "copy_word m dst src a = moved m dst src 4 a" by cases (auto simp: copy_word_def moved_def)
qed

lemma copy_up_moved: "dst \<le> src \<or> src + n \<le> dst \<Longrightarrow> copy_up m dst src n = moved m dst src n"
proof (induction n arbitrary: m dst src)
  case (Suc n)
  then have "copy_up (moved m dst src 1) (dst + 1) (src + 1) n = moved (moved m dst src 1) (dst + 1) (src + 1) n"
    by (intro Suc.IH) auto
  then show ?case using moved_append [of dst src 1 n m] Suc.prems by (simp add: move_one)
qed simp

lemma copy_down_moved: "src < dst \<Longrightarrow> copy_down m (dst + n) (src + n) n = moved m dst src n"
proof (induction n arbitrary: m)
  case (Suc n)
  have "copy_down m (dst + Suc n) (src + Suc n) (Suc n) = moved (m(dst + n := m (src + n))) dst src n"
    using Suc by simp
  also have "\<dots> = moved m dst src (Suc n)" using Suc.prems by (auto simp: moved_def fun_eq_iff)
  finally show ?case .
qed simp

text \<open>\<open>rt_memmove\<close> moves the bytes as they were before the call, however the two areas overlap.\<close>

theorem memmove_parallel: "rt_memmove m dest src n = moved m dest src n"
  using copy_up_moved [of dest src n m] copy_down_moved [of src dest m n] by (auto simp: rt_memmove_def)

lemma memcpy_big_moved:
  "dst \<le> src \<or> src + n \<le> dst \<Longrightarrow>
   \<exists>n'. memcpy_big m dst src n = (moved m dst src (n - n'), dst + (n - n'), src + (n - n'), n') \<and> n' \<le> n"
proof (induction n arbitrary: m dst src rule: less_induct)
  case (less n)
  show ?case
  proof (cases "16 \<le> n")
    case True
    have w: "copy_word (copy_word (copy_word (copy_word m dst src) (dst + 4) (src + 4)) (dst + 8) (src + 8)) (dst + 12) (src + 12)
        = moved m dst src 16"
      using True moved_within [OF less.prems, of 4 4 8] moved_within [OF less.prems, of 8 4 12]
        moved_within [OF less.prems, of 12 4 16] by (simp add: copy_word_moved)
    have "dst + 16 \<le> src + 16 \<or> src + 16 + (n - 16) \<le> dst + 16" "n - 16 < n" using less.prems True by auto
    from less.IH [OF this(2,1), of "moved m dst src 16"] obtain n' where
      n': "memcpy_big (moved m dst src 16) (dst + 16) (src + 16) (n - 16) =
        (moved (moved m dst src 16) (dst + 16) (src + 16) (n - 16 - n'), dst + 16 + (n - 16 - n'),
         src + 16 + (n - 16 - n'), n')" "n' \<le> n - 16"
      by blast
    have s: "16 + (n - 16 - n') = n - n'" using n'(2) True by simp
    have "moved (moved m dst src 16) (dst + 16) (src + 16) (n - 16 - n') = moved m dst src (n - n')"
      using moved_within [OF less.prems s] by simp
    with n' True s show ?thesis
      by (subst memcpy_big.simps) (auto simp: w add.assoc intro!: exI [of _ n'])
  next
    case False
    then show ?thesis by (subst memcpy_big.simps) (auto intro!: exI [of _ n])
  qed
qed

lemma memcpy_words_moved:
  "dst \<le> src \<or> src + n \<le> dst \<Longrightarrow>
   \<exists>n'. memcpy_words m dst src n = (moved m dst src (n - n'), dst + (n - n'), src + (n - n'), n') \<and> n' \<le> n"
proof (induction n arbitrary: m dst src rule: less_induct)
  case (less n)
  show ?case
  proof (cases "4 \<le> n")
    case True
    have "dst + 4 \<le> src + 4 \<or> src + 4 + (n - 4) \<le> dst + 4" "n - 4 < n" using less.prems True by auto
    from less.IH [OF this(2,1), of "moved m dst src 4"] obtain n' where
      n': "memcpy_words (moved m dst src 4) (dst + 4) (src + 4) (n - 4) =
        (moved (moved m dst src 4) (dst + 4) (src + 4) (n - 4 - n'), dst + 4 + (n - 4 - n'),
         src + 4 + (n - 4 - n'), n')" "n' \<le> n - 4"
      by blast
    have s: "4 + (n - 4 - n') = n - n'" using n'(2) True by simp
    have "moved (moved m dst src 4) (dst + 4) (src + 4) (n - 4 - n') = moved m dst src (n - n')"
      using moved_within [OF less.prems s] by simp
    with n' True s show ?thesis
      by (subst memcpy_words.simps) (auto simp: copy_word_moved LBLOCKSIZE_def add.assoc intro!: exI [of _ n'])
  next
    case False
    then show ?thesis by (subst memcpy_words.simps) (auto simp: LBLOCKSIZE_def intro!: exI [of _ n])
  qed
qed

text \<open>C40: \<open>rt_memcpy\<close> by blocks, words and bytes agrees with \<open>rt_memmove\<close> as long as the destination does not start
  inside the source.
\<close>

theorem memcpy_is_memmove:
  assumes "dst \<le> src \<or> src + count \<le> dst"
  shows "rt_memcpy m dst src count = rt_memmove m dst src count"
proof -
  obtain n1 where n1: "memcpy_big m dst src count =
      (moved m dst src (count - n1), dst + (count - n1), src + (count - n1), n1)" "n1 \<le> count"
    using memcpy_big_moved [OF assms] by blast
  define m1 d1 s1 where "m1 = moved m dst src (count - n1)" and "d1 = dst + (count - n1)" and "s1 = src + (count - n1)"
  have o1: "d1 \<le> s1 \<or> s1 + n1 \<le> d1" using assms n1(2) by (auto simp: d1_def s1_def)
  obtain n2 where n2: "memcpy_words m1 d1 s1 n1 = (moved m1 d1 s1 (n1 - n2), d1 + (n1 - n2), s1 + (n1 - n2), n2)" "n2 \<le> n1"
    using memcpy_words_moved [OF o1] by blast
  have "copy_up (moved m1 d1 s1 (n1 - n2)) (d1 + (n1 - n2)) (s1 + (n1 - n2)) n2 =
      moved (moved m1 d1 s1 (n1 - n2)) (d1 + (n1 - n2)) (s1 + (n1 - n2)) n2"
    using o1 n2(2) by (intro copy_up_moved) auto
  also have "\<dots> = moved m1 d1 s1 n1" using moved_append [of d1 s1 "n1 - n2" n2 m1] o1 n2(2) by auto
  also have "\<dots> = moved m dst src count"
    using moved_append [of dst src "count - n1" n1 m] assms n1(2) by (auto simp: m1_def d1_def s1_def)
  finally show ?thesis
    using copy_up_moved [OF assms, of m] n2(1)
    by (simp add: memmove_parallel rt_memcpy_def Let_def n1(1) m1_def [symmetric] d1_def [symmetric] s1_def [symmetric])
qed

subsection \<open>Terminated strings\<close>

definition c_string :: "string \<Rightarrow> string \<Rightarrow> bool" where
  "c_string s t \<longleftrightarrow> NUL \<notin> set t \<and> prefix (t @ [NUL]) s"

lemma c_string_Nil [simp]: "\<not> c_string [] t" "c_string (c # s) [] \<longleftrightarrow> c = NUL"
  by (auto simp: c_string_def)

lemma c_string_Cons [simp]: "c_string (c # s) (d # t) \<longleftrightarrow> c = d \<and> c \<noteq> NUL \<and> c_string s t"
  by (auto simp: c_string_def)

lemma c_string_cases:
  assumes "c_string (c # s) t"
  obtains "c = NUL" "t = []" | u where "c \<noteq> NUL" "t = c # u" "c_string s u"
proof (cases t)
  case Nil
  then show thesis using assms that(1) by simp
next
  case (Cons d u)
  then have "d = c" "c \<noteq> NUL" "c_string s u" using assms unfolding Cons c_string_Cons by blast+
  then show thesis using that(2) [of u] Cons by simp
qed

lemma strlen_cstr: "c_string s t \<Longrightarrow> rt_strlen s = Inr (length t)"
  by (induction s arbitrary: t) (auto elim!: c_string_cases)

lemma c_string_length: "c_string s t \<Longrightarrow> length t < length s"
  by (induction s arbitrary: t) (auto elim!: c_string_cases)

lemma c_string_take: "c_string s t \<Longrightarrow> n \<le> length t \<Longrightarrow> take n s = take n t"
  by (auto simp: c_string_def prefix_def)

lemma c_string_tl: "c_string s (c # t) \<Longrightarrow> c_string (tl s) t"
  by (cases s) auto

subsection \<open>Comparing\<close>

lemma memcmp_zero:
  "n \<le> length cs \<Longrightarrow> n \<le> length ct \<Longrightarrow> \<exists>r. rt_memcmp cs ct n = Inr r \<and> (r = 0 \<longleftrightarrow> take n cs = take n ct)"
proof (induction cs ct n rule: rt_memcmp.induct)
  case (2 a cs b ct count)
  have "of_char a - of_char b \<noteq> (0 :: int) \<longleftrightarrow> a \<noteq> b" by (simp add: of_char_eq_iff)
  with 2 show ?case by auto
qed auto

lemma c_int_byte: "take_bit 8 (c_int c) = of_char c"
proof -
  have "take_bit 8 (c_int c) = take_bit 8 (of_char c)" by (simp add: c_int_def take_bit_signed_take_bit)
  then show ?thesis by (simp add: take_bit_eq_mod)
qed

lemma c_int_eq [simp]: "c_int x = c_int y \<longleftrightarrow> x = y"
  by (metis c_int_byte of_char_eq_iff)

lemma c_int_NUL [simp]: "c_int NUL = 0"
  by (simp add: c_int_def)

lemma c_int_zero [simp]: "c_int x = 0 \<longleftrightarrow> x = NUL"
  using c_int_eq [of x NUL] by simp

text \<open>\<open>rt_strcmp\<close> of two terminated strings returns, and the sign of its result is that of the lexicographic
  order, the terminators included, of the bytes as plain \<open>char\<close>.
\<close>

theorem strcmp_order:
  assumes "c_string s a" and "c_string t b"
  shows "\<exists>r. rt_strcmp s t = Inr r \<and> (r = 0 \<longleftrightarrow> a = b) \<and>
    (r < 0 \<longleftrightarrow> ord_class.lexordp (map c_int (a @ [NUL])) (map c_int (b @ [NUL])))"
  using assms
proof (induction s t arbitrary: a b rule: rt_strcmp.induct)
  case (1 x cs y ct)
  show ?case
  proof (cases "x \<noteq> NUL \<and> x = y")
    case True
    then obtain a' b' where "a = x # a'" "b = y # b'" "c_string cs a'" "c_string ct b'"
      using "1.prems" by (auto elim!: c_string_cases)
    with 1 True show ?thesis by auto
  next
    case False
    have "c_int x - c_int y = 0 \<longleftrightarrow> a = b" using False "1.prems" by (auto elim!: c_string_cases)
    moreover have "c_int x < c_int y \<longleftrightarrow> ord_class.lexordp (map c_int (a @ [NUL])) (map c_int (b @ [NUL]))"
      using False "1.prems" by (auto elim!: c_string_cases simp: not_less order_le_less)
    ultimately show ?thesis using False by auto
  qed
qed auto

text \<open>The same up to the first \<open>n\<close> bytes; with bytes below 128 the narrow result keeps the sign.\<close>

definition ascii_text :: "string \<Rightarrow> bool" where
  "ascii_text s \<longleftrightarrow> (\<forall>c\<in>set s. 0 \<le> c_int c)"

lemma strncmp_loop_eq:
  "c_string s a \<Longrightarrow> c_string t b \<Longrightarrow> ascii_text a \<Longrightarrow> ascii_text b \<Longrightarrow>
   \<exists>r. strncmp_loop 0 s t n = Inr r \<and> (r = 0 \<longleftrightarrow> take n a = take n b)"
proof (induction "0 :: int" s t n arbitrary: a b rule: strncmp_loop.induct)
  case (2 x cs y ct n)
  have d: "signed_take_bit 7 (c_int x - c_int y) = c_int x - c_int y"
    using "2.prems" c_int_range [of x] c_int_range [of y]
    by (intro signed_take_bit_int_eq_self) (auto simp: ascii_text_def elim!: c_string_cases)
  show ?case
  proof (cases "x = y \<and> x \<noteq> NUL")
    case True
    then obtain a' b' where "a = x # a'" "b = y # b'" "c_string cs a'" "c_string ct b'"
      using "2.prems" by (auto elim!: c_string_cases)
    with 2 True d show ?thesis by (auto simp: ascii_text_def)
  next
    case False
    with "2.prems" d show ?thesis by (auto elim!: c_string_cases)
  qed
qed auto

theorem strncmp_equal:
  assumes "c_string s a" "c_string t b" and "ascii_text a" "ascii_text b"
  shows "\<exists>r. rt_strncmp s t n = Inr r \<and> (r = 0 \<longleftrightarrow> take n a = take n b)"
  unfolding rt_strncmp_def by (rule strncmp_loop_eq [OF assms])

text \<open>Beyond ASCII it does not: the difference does not fit, and the order comes out reversed.\<close>

theorem strncmp_narrow: "rt_strncmp [CHR 0x80, NUL] [CHR 0x7F, NUL] 1 = Inr 1" "rt_strcmp [CHR 0x80, NUL] [CHR 0x7F, NUL] = Inr (- 255)"
  by (simp_all add: rt_strncmp_def c_int_def)

subsection \<open>Searching\<close>

lemma find_shift: "find P [0..<Suc n] = (if P 0 then Some 0 else map_option Suc (find (\<lambda>i. P (Suc i)) [0..<n]))"
proof -
  have m: "find P (map f xs) = map_option f (find (\<lambda>i. P (f i)) xs)" for f :: "nat \<Rightarrow> nat" and xs
    by (induction xs) auto
  have "[0..<Suc n] = 0 # map Suc [0..<n]" by (simp add: upt_conv_Cons map_Suc_upt del: upt_Suc)
  then show ?thesis by (simp add: m del: upt_Suc)
qed

lemma strstr_loop_find:
  assumes "c_string s2 b" and "b \<noteq> []"
  shows "c_string s1 a \<Longrightarrow> strstr_loop s1 s2 k (length a) (length b) =
     Inr (map_option (\<lambda>i. k + i) (find (\<lambda>i. prefix b (drop i a)) [0..<Suc (length a)]))"
proof (induction a arbitrary: s1 k)
  case Nil
  then show ?case using assms(2) by (simp add: prefix_def)
next
  case (Cons c a)
  have tl: "c_string (tl s1) a" using c_string_tl [OF Cons.prems] .
  show ?case
  proof (cases "length b \<le> Suc (length a)")
    case True
    have "take (length b) s1 = take (length b) (c # a)" using True by (intro c_string_take [OF Cons.prems]) simp
    moreover have "take (length b) s2 = b" using c_string_take [OF assms(1), of "length b"] by simp
    moreover have "length b \<le> length s1" "length b \<le> length s2"
      using c_string_length [OF Cons.prems] c_string_length [OF assms(1)] True by simp_all
    ultimately obtain r where r: "rt_memcmp s1 s2 (length b) = Inr r" "r = 0 \<longleftrightarrow> take (length b) (c # a) = b"
      using memcmp_zero [of "length b" s1 s2] by auto
    have p: "prefix b (c # a) \<longleftrightarrow> take (length b) (c # a) = b"
      using True by (auto simp: prefix_def) (metis append_take_drop_id)
    have f: "find (\<lambda>i. prefix b (drop i (c # a))) [0..<Suc (length (c # a))] =
        (if prefix b (c # a) then Some 0 else map_option Suc (find (\<lambda>i. prefix b (drop i a)) [0..<Suc (length a)]))"
      by (subst find_shift) simp
    show ?thesis unfolding f using r p Cons.IH [OF tl, of "Suc k"] True
      by (auto simp: option.map_comp comp_def)
  next
    case False
    then have "\<not> prefix b (drop i (c # a))" for i by (auto dest!: prefix_length_le)
    then show ?thesis using False by (simp add: find_None_iff del: upt_Suc)
  qed
qed

text \<open>\<open>rt_strstr\<close> on two terminated strings returns the first position at which the second occurs in the
  first, and null when there is none.
\<close>

theorem strstr_first:
  assumes "c_string s1 a" and "c_string s2 b"
  shows "rt_strstr s1 s2 = Inr (find (\<lambda>i. prefix b (drop i a)) [0..<Suc (length a)])"
proof (cases "b = []")
  case True
  have "find (\<lambda>i. prefix b (drop i a)) [0..<Suc (length a)] = Some 0" unfolding True find_shift by simp
  then show ?thesis using strlen_cstr [OF assms(2)] True by (simp add: rt_strstr_def del: upt_Suc)
next
  case False
  then show ?thesis
    using strlen_cstr [OF assms(1)] strlen_cstr [OF assms(2)] strstr_loop_find [OF assms(2) False assms(1), of 0]
    by (simp add: rt_strstr_def option.map_ident del: upt_Suc)
qed

subsection \<open>Copying strings\<close>

lemma zero_fill_result: "n \<le> length d \<Longrightarrow> zero_fill d n = Inr (replicate n NUL @ drop n d)"
  by (induction d n rule: zero_fill.induct) auto

text \<open>
  \<open>rt_strncpy\<close> writes exactly \<open>n\<close> bytes: the string and then zeros.  A string of \<open>n\<close> bytes or more leaves the
  destination without a terminator.
\<close>

theorem strncpy_result:
  assumes "c_string src t" and "n \<le> length dst"
  shows "rt_strncpy dst src n = Inr (take n t @ replicate (n - length t) NUL @ drop n dst)"
  using assms
proof (induction dst src n arbitrary: t rule: rt_strncpy.induct)
  case (4 x d c s n)
  show ?case
  proof (cases "c = NUL")
    case True
    then have "t = []" using "4.prems"(1) by (auto elim!: c_string_cases)
    then show ?thesis using True "4.prems"(2) by (simp add: zero_fill_result)
  next
    case False
    then obtain u where "t = c # u" "c_string s u" using "4.prems"(1) by (auto elim!: c_string_cases)
    then show ?thesis using 4 False by simp
  qed
qed auto

text \<open>\<open>rt_strcpy\<close> copies string and terminator when they fit, and overflows the destination exactly when they do not.\<close>

theorem strcpy_result:
  assumes "c_string src t"
  shows "rt_strcpy dst src =
    (if length t < length dst then Inr (t @ NUL # drop (length t + 1) dst) else Inl Buffer_overflow)"
  using assms
proof (induction dst src arbitrary: t rule: rt_strcpy.induct)
  case (3 x d c s)
  show ?case
  proof (cases "c = NUL")
    case True
    then show ?thesis using "3.prems" by (auto elim!: c_string_cases)
  next
    case False
    then obtain u where "t = c # u" "c_string s u" using "3.prems" by (auto elim!: c_string_cases)
    then show ?thesis using 3 False by simp
  qed
qed auto

subsection \<open>Bounded length\<close>

lemma strnlen_loop_cstr: "c_string s t \<Longrightarrow> n \<le> maxlen \<Longrightarrow> strnlen_loop s n maxlen = Inr (min (n + length t) maxlen)"
  by (induction s n maxlen arbitrary: t rule: strnlen_loop.induct) (auto elim!: c_string_cases)

lemma strnlen_cstr: "c_string s t \<Longrightarrow> rt_strnlen s maxlen = Inr (min (length t) maxlen)"
  using strnlen_loop_cstr [of s t 0 maxlen] by (simp add: rt_strnlen_def)

text \<open>
  On \<open>maxlen\<close> bytes without a terminator the loop tests the byte behind them before it compares the count:
  it reads past the limit it is documented to keep.
\<close>

lemma strnlen_loop_over: "NUL \<notin> set s \<Longrightarrow> n + length s \<le> maxlen \<Longrightarrow> strnlen_loop s n maxlen = Inl Out_of_bounds"
  by (induction s arbitrary: n) auto

theorem strnlen_overread: "NUL \<notin> set s \<Longrightarrow> rt_strnlen s (length s) = Inl Out_of_bounds"
  by (simp add: rt_strnlen_def strnlen_loop_over)

subsection \<open>Comparing without case\<close>

lemma to_lower_zero [simp]: "to_lower (of_char c) = 0 \<longleftrightarrow> c = NUL"
proof -
  have "(of_char c :: int) = 0 \<longleftrightarrow> c = NUL" using of_char_eq_iff [of c NUL, where 'a = int] by simp
  then show ?thesis by (auto simp: to_lower_def)
qed

lemma to_lower_0 [simp]: "to_lower 0 = 0"
  by (simp add: to_lower_def)

text \<open>The result is zero exactly for strings that are equal after folding the letters to lower case.\<close>

theorem strcasecmp_equal:
  assumes "c_string s a" and "c_string t b"
  shows "\<exists>r. rt_strcasecmp s t = Inr r \<and>
    (r = 0 \<longleftrightarrow> map (\<lambda>c. to_lower (of_char c)) a = map (\<lambda>c. to_lower (of_char c)) b)"
  using assms
proof (induction s t arbitrary: a b rule: rt_strcasecmp.induct)
  case (1 x s y t)
  let ?lx = "to_lower (of_char x)" and ?ly = "to_lower (of_char y)"
  show ?case
  proof (cases "?lx = ?ly \<and> x \<noteq> NUL")
    case True
    then have "y \<noteq> NUL" using to_lower_zero [of x] to_lower_zero [of y] by metis
    with True obtain a' b' where "a = x # a'" "b = y # b'" "c_string s a'" "c_string t b'"
      using "1.prems" by (auto elim!: c_string_cases)
    with 1 True show ?thesis by auto
  next
    case False
    then have r: "rt_strcasecmp (x # s) (y # t) = Inr (?lx - ?ly)" by auto
    have "?lx - ?ly = 0 \<longleftrightarrow> map (\<lambda>c. to_lower (of_char c)) a = map (\<lambda>c. to_lower (of_char c)) b"
    proof (cases "x = NUL")
      case True
      then have "a = []" "?lx = 0" using "1.prems"(1) by (auto elim!: c_string_cases)
      then show ?thesis using "1.prems"(2) by (cases "y = NUL") (auto elim!: c_string_cases)
    next
      case x: False
      with False have "?lx \<noteq> ?ly" by simp
      then show ?thesis using "1.prems" x by (auto elim!: c_string_cases)
    qed
    with r show ?thesis by blast
  qed
qed auto

subsection \<open>Instances\<close>

theorem memcpy_is_memmove_witness:
  "rt_memcpy (\<lambda>a. word_of_nat a) 4 100 37 = rt_memmove (\<lambda>a. word_of_nat a) 4 100 37"
  by (rule memcpy_is_memmove) simp

theorem strcmp_order_witness:
  "c_string (''ab'' @ [NUL]) ''ab'' \<and> c_string (''b'' @ [NUL]) ''b'' \<and>
   (\<exists>r. rt_strcmp (''ab'' @ [NUL]) (''b'' @ [NUL]) = Inr r \<and> r < 0)"
proof -
  have s: "c_string (''ab'' @ [NUL]) ''ab''" "c_string (''b'' @ [NUL]) ''b''" by simp_all
  have "ord_class.lexordp (map c_int (''ab'' @ [NUL])) (map c_int (''b'' @ [NUL]))" by (simp add: c_int_def)
  with s strcmp_order [OF s] show ?thesis by auto
qed

theorem strstr_first_witness:
  "c_string (''$GPGGA'' @ [NUL]) ''$GPGGA'' \<and> rt_strstr (''$GPGGA'' @ [NUL]) (''GG'' @ [NUL]) = Inr (Some 3)"
proof -
  have s: "c_string (''$GPGGA'' @ [NUL]) ''$GPGGA''" "c_string (''GG'' @ [NUL]) ''GG''" by simp_all
  from strstr_first [OF s] s show ?thesis by (simp add: upt_rec)
qed

theorem strncpy_result_witness:
  "rt_strncpy (replicate 6 (CHR ''x'')) (''ab'' @ [NUL]) 4 = Inr (''ab'' @ [NUL, NUL] @ ''xx'')"
  using strncpy_result [of "''ab'' @ [NUL]" "''ab''" 4 "replicate 6 (CHR ''x'')"] by (simp add: numeral_eq_Suc)

theorem strcpy_result_witness: "rt_strcpy ''xxxxx'' (''ab'' @ [NUL]) = Inr (''ab'' @ [NUL] @ ''xx'')"
  using strcpy_result [of "''ab'' @ [NUL]" "''ab''" "''xxxxx''"] by simp

theorem strncmp_equal_witness: "\<exists>r. rt_strncmp (''abc'' @ [NUL]) (''abd'' @ [NUL]) 2 = Inr r \<and> r = 0"
  using strncmp_equal [of "''abc'' @ [NUL]" "''abc''" "''abd'' @ [NUL]" "''abd''" 2] by (simp add: ascii_text_def c_int_def)

theorem strcasecmp_equal_witness: "\<exists>r. rt_strcasecmp (''gPs'' @ [NUL]) (''GpS'' @ [NUL]) = Inr r \<and> r = 0"
  using strcasecmp_equal [of "''gPs'' @ [NUL]" "''gPs''" "''GpS'' @ [NUL]" "''GpS''"] by (simp add: to_lower_def)

theorem strnlen_overread_witness: "rt_strnlen ''abc'' 3 = Inl Out_of_bounds"
  using strnlen_overread [of "''abc''"] by (simp add: numeral_3_eq_3)

end
