(* ===== verification/Rt_Smem.thy ===== *)
theory Rt_Smem
  imports Rt_Def
begin

text \<open>
  The small memory allocator of the kernel (\<open>mem.c\<close>), the heap behind \<open>rt_malloc\<close> on the boards:
  \<open>RT_ALIGN_SIZE\<close> is 4, \<open>rt_size_t\<close> has 32 bits and \<open>RT_USING_MEMTRACE\<close> is off.

  A pointer into the heap is its offset from \<open>heap_ptr\<close>, the null pointer \<open>None\<close>.  The headers that the
  allocator keeps inside the heap are a map from offsets to headers; an offset at which no header was ever
  written is not in the map, and reading one there is a fault.  \<open>pool_ptr\<close> is the pair of the address it
  holds (whether it is this heap) and its last bit.  The bytes between the headers are the memory
  \<open>heap_data\<close>; the clients are taken to write into their own blocks only.  A walk carries fuel, one more than
  there are multiples of the alignment in the heap; running out of it is an endless loop of the code.
\<close>

subsection \<open>The data\<close>

record rt_small_mem_item =
  pool_ok :: bool
  pool_used :: bool
  item_next :: nat
  item_prev :: nat

record rt_small_mem =
  heap_end :: nat
  lfree :: nat
  mem_size_aligned :: nat
  mem_used :: nat
  mem_max :: nat
  items :: "nat \<Rightarrow> rt_small_mem_item option"
  heap_data :: "nat \<Rightarrow> 8 word"

definition MIN_SIZE :: nat where "MIN_SIZE = 12"
definition MIN_SIZE_ALIGNED :: nat where "MIN_SIZE_ALIGNED = size_up MIN_SIZE"
definition SIZEOF_STRUCT_MEM :: nat where "SIZEOF_STRUCT_MEM = size_up 12"

definition wsub :: "nat \<Rightarrow> nat \<Rightarrow> nat" where
  "wsub a b = nat ((int a - int b) mod 2 ^ 32)"

definition wadd :: "nat \<Rightarrow> nat \<Rightarrow> nat" where
  "wadd a b = (a + b) mod 2 ^ 32"

definition get_item :: "rt_small_mem \<Rightarrow> nat \<Rightarrow> rt_small_mem_item result" where
  "get_item m p = (case items m p of None \<Rightarrow> Inl Out_of_bounds | Some i \<Rightarrow> Inr i)"

definition set_item :: "nat \<Rightarrow> rt_small_mem_item \<Rightarrow> rt_small_mem \<Rightarrow> rt_small_mem" where
  "set_item p i m = m\<lparr>items := (items m)(p \<mapsto> i)\<rparr>"

text \<open>\<open>heap_ptr[p].prev = v\<close>\<close>

definition set_prev :: "nat \<Rightarrow> nat \<Rightarrow> rt_small_mem \<Rightarrow> rt_small_mem result" where
  "set_prev p v m = bindR (get_item m p) (\<lambda>i. Inr (set_item p (i\<lparr>item_prev := v\<rparr>) m))"

subsection \<open>The operations\<close>

definition plug_forward :: "rt_small_mem \<Rightarrow> nat \<Rightarrow> rt_small_mem result" where
  "plug_forward m mem =
     bindR (get_item m mem)
       (\<lambda>im.
          let n = item_next im
          in bindR (get_item m n)
               (\<lambda>inm.
                  if mem \<noteq> n \<and> \<not> pool_used inm \<and> n \<noteq> heap_end m then
                    (let m1 = (if lfree m = n then m\<lparr>lfree := mem\<rparr> else m);
                         m2 = set_item n (inm\<lparr>pool_ok := False, pool_used := False\<rparr>) m1;
                         m3 = set_item mem (im\<lparr>item_next := item_next inm\<rparr>) m2
                     in set_prev (item_next inm) mem m3)
                  else Inr m))"

definition plug_backward :: "rt_small_mem \<Rightarrow> nat \<Rightarrow> rt_small_mem result" where
  "plug_backward m mem =
     bindR (get_item m mem)
       (\<lambda>im.
          let p = item_prev im
          in bindR (get_item m p)
               (\<lambda>ip.
                  if p \<noteq> mem \<and> \<not> pool_used ip then
                    (let m1 = (if lfree m = mem then m\<lparr>lfree := p\<rparr> else m);
                         m2 = set_item mem (im\<lparr>pool_ok := False, pool_used := False\<rparr>) m1;
                         m3 = set_item p (ip\<lparr>item_next := item_next im\<rparr>) m2
                     in set_prev (item_next im) p m3)
                  else Inr m))"

definition plug_holes :: "rt_small_mem \<Rightarrow> nat \<Rightarrow> rt_small_mem result" where
  "plug_holes m mem =
     (if mem < heap_end m then bindR (plug_forward m mem) (\<lambda>m1. plug_backward m1 mem)
      else Inl Assert_failed)"

text \<open>
  \<open>sizeof_mem\<close> is the size of the management object in front of the heap.  Every offset holds either no
  header or one of the two that are written here.
\<close>

definition rt_smem_init :: "nat \<Rightarrow> (nat \<Rightarrow> 8 word) \<Rightarrow> nat \<Rightarrow> nat \<Rightarrow> rt_small_mem option" where
  "rt_smem_init sizeof_mem dat begin_addr sz =
     (let small_mem = size_up begin_addr;
          start_addr = wadd small_mem sizeof_mem;
          begin_align = size_up start_addr;
          end_align = size_down (wadd begin_addr sz)
      in if end_align > 2 * SIZEOF_STRUCT_MEM \<and> end_align - 2 * SIZEOF_STRUCT_MEM \<ge> start_addr
         then (let mem_size = wsub (wsub end_align begin_align) (2 * SIZEOF_STRUCT_MEM);
                   e = mem_size + SIZEOF_STRUCT_MEM
               in Some \<lparr>heap_end = e, lfree = 0, mem_size_aligned = mem_size, mem_used = 0, mem_max = 0,
                        items =
                          [0 \<mapsto> \<lparr>pool_ok = True, pool_used = False, item_next = e, item_prev = 0\<rparr>,
                           e \<mapsto> \<lparr>pool_ok = True, pool_used = True, item_next = e, item_prev = e\<rparr>],
                        heap_data = dat\<rparr>)
         else None)"

definition walk_fuel :: "rt_small_mem \<Rightarrow> nat" where
  "walk_fuel m = heap_end m div nat RT_ALIGN_SIZE + 2"

text \<open>\<open>while (MEM_ISUSED (lfree) && lfree != heap_end) lfree = lfree->next\<close>\<close>

fun lfree_loop :: "nat \<Rightarrow> rt_small_mem \<Rightarrow> rt_small_mem result" where
  "lfree_loop 0 m = Inl Endless_loop"
| "lfree_loop (Suc fuel) m =
     bindR (get_item m (lfree m))
       (\<lambda>i. if pool_used i \<and> lfree m \<noteq> heap_end m then lfree_loop fuel (m\<lparr>lfree := item_next i\<rparr>) else Inr m)"

definition raise_max :: "rt_small_mem \<Rightarrow> rt_small_mem" where
  "raise_max m = (if mem_max m < mem_used m then m\<lparr>mem_max := mem_used m\<rparr> else m)"

text \<open>The new header at \<open>ptr2\<close> between \<open>mem\<close> and its successor; both \<open>alloc\<close> and \<open>realloc\<close> split this way.\<close>

definition split_item :: "rt_small_mem \<Rightarrow> nat \<Rightarrow> rt_small_mem_item \<Rightarrow> nat \<Rightarrow> rt_small_mem result" where
  "split_item m ptr mem ptr2 =
     (let m1 = set_item ptr2 \<lparr>pool_ok = True, pool_used = False, item_next = item_next mem, item_prev = ptr\<rparr> m;
          m2 = set_item ptr (mem\<lparr>item_next := ptr2\<rparr>) m1
      in if item_next mem \<noteq> mem_size_aligned m + SIZEOF_STRUCT_MEM then set_prev (item_next mem) ptr2 m2
         else Inr m2)"

text \<open>The block is used from here on; \<open>lfree\<close> moves on when it was this block.\<close>

definition finish_take :: "nat \<Rightarrow> nat \<Rightarrow> rt_small_mem \<Rightarrow> (nat option \<times> rt_small_mem) result" where
  "finish_take ptr sz m1 =
     bindR (get_item m1 ptr)
       (\<lambda>i.
          let m2 = set_item ptr (i\<lparr>pool_ok := True, pool_used := True\<rparr>) m1
          in bindR
               (if ptr = lfree m2 then
                  bindR (lfree_loop (walk_fuel m2) m2)
                    (\<lambda>m3.
                       bindR (get_item m3 (lfree m3))
                         (\<lambda>j. if lfree m3 = heap_end m3 \<or> \<not> pool_used j then Inr m3 else Inl Assert_failed))
                else Inr m2)
               (\<lambda>m3.
                  if ptr + SIZEOF_STRUCT_MEM + sz \<le> heap_end m3 \<and> (ptr + SIZEOF_STRUCT_MEM) mod nat RT_ALIGN_SIZE = 0 \<and>
                     ptr mod nat RT_ALIGN_SIZE = 0
                  then Inr (Some (ptr + SIZEOF_STRUCT_MEM), m3)
                  else Inl Assert_failed))"

definition take_item :: "rt_small_mem \<Rightarrow> nat \<Rightarrow> rt_small_mem_item \<Rightarrow> nat \<Rightarrow> (nat option \<times> rt_small_mem) result" where
  "take_item m ptr mem sz =
     bindR
       (if wsub (item_next mem) (ptr + SIZEOF_STRUCT_MEM) \<ge> sz + SIZEOF_STRUCT_MEM + MIN_SIZE_ALIGNED
        then bindR (split_item m ptr mem (ptr + SIZEOF_STRUCT_MEM + sz))
               (\<lambda>m1. Inr (raise_max (m1\<lparr>mem_used := wadd (mem_used m1) (sz + SIZEOF_STRUCT_MEM)\<rparr>)))
        else Inr (raise_max (m\<lparr>mem_used := wadd (mem_used m) (wsub (item_next mem) ptr)\<rparr>)))
       (finish_take ptr sz)"

fun alloc_loop :: "nat \<Rightarrow> rt_small_mem \<Rightarrow> nat \<Rightarrow> nat \<Rightarrow> (nat option \<times> rt_small_mem) result" where
  "alloc_loop 0 m ptr sz = Inl Endless_loop"
| "alloc_loop (Suc fuel) m ptr sz =
     (if ptr \<le> wsub (mem_size_aligned m) sz then
        bindR (get_item m ptr)
          (\<lambda>mem.
             if \<not> pool_used mem \<and> wsub (item_next mem) (ptr + SIZEOF_STRUCT_MEM) \<ge> sz then take_item m ptr mem sz
             else alloc_loop fuel m (item_next mem) sz)
      else Inr (None, m))"

definition rt_smem_alloc :: "rt_small_mem \<Rightarrow> nat \<Rightarrow> (nat option \<times> rt_small_mem) result" where
  "rt_smem_alloc m size0 =
     (if size0 = 0 then Inr (None, m)
      else
        (let size1 = size_up size0
         in if size1 > mem_size_aligned m then Inr (None, m)
            else alloc_loop (walk_fuel m) m (lfree m) (if size1 < MIN_SIZE_ALIGNED then MIN_SIZE_ALIGNED else size1)))"

definition rt_smem_free :: "rt_small_mem \<Rightarrow> nat option \<Rightarrow> rt_small_mem result" where
  "rt_smem_free m rmem0 =
     (case rmem0 of
        None \<Rightarrow> Inr m
      | Some rmem \<Rightarrow>
          if \<not> rmem mod nat RT_ALIGN_SIZE = 0 then Inl Assert_failed
          else if rmem < SIZEOF_STRUCT_MEM then Inl Out_of_bounds
          else
            (let mem = rmem - SIZEOF_STRUCT_MEM
             in bindR (get_item m mem)
                  (\<lambda>i.
                     if \<not> (pool_ok i \<and> pool_used i) then Inl Assert_failed
                     else if \<not> rmem < heap_end m then Inl Assert_failed
                     else
                       bindR (get_item m (item_next i))
                         (\<lambda>j.
                            if \<not> pool_ok j then Inl Assert_failed
                            else
                              (let m1 = set_item mem (i\<lparr>pool_ok := True, pool_used := False\<rparr>) m;
                                   m2 = (if mem < lfree m1 then m1\<lparr>lfree := mem\<rparr> else m1);
                                   m3 = m2\<lparr>mem_used := wsub (mem_used m2) (wsub (item_next i) mem)\<rparr>
                               in plug_holes m3 mem)))))"

definition copy_data :: "nat \<Rightarrow> nat \<Rightarrow> nat \<Rightarrow> rt_small_mem \<Rightarrow> rt_small_mem" where
  "copy_data dst src n m =
     m\<lparr>heap_data := (\<lambda>a. if dst \<le> a \<and> a < dst + n then heap_data m (src + (a - dst)) else heap_data m a)\<rparr>"

definition rt_smem_realloc :: "rt_small_mem \<Rightarrow> nat option \<Rightarrow> nat \<Rightarrow> (nat option \<times> rt_small_mem) result" where
  "rt_smem_realloc m rmem0 newsize0 =
     (let newsize = size_up newsize0
      in if newsize > mem_size_aligned m then Inr (None, m)
         else if newsize = 0 then bindR (rt_smem_free m rmem0) (\<lambda>m1. Inr (None, m1))
         else
           (case rmem0 of
              None \<Rightarrow> rt_smem_alloc m newsize
            | Some rmem \<Rightarrow>
                if \<not> (rmem mod nat RT_ALIGN_SIZE = 0 \<and> rmem < heap_end m) then Inl Assert_failed
                else if rmem < SIZEOF_STRUCT_MEM then Inl Out_of_bounds
                else
                  (let ptr = rmem - SIZEOF_STRUCT_MEM
                   in bindR (get_item m ptr)
                        (\<lambda>mem.
                           let sz = wsub (wsub (item_next mem) ptr) SIZEOF_STRUCT_MEM
                           in if sz = newsize then Inr (Some rmem, m)
                              else if newsize + SIZEOF_STRUCT_MEM + MIN_SIZE < sz then
                                (let ptr2 = ptr + SIZEOF_STRUCT_MEM + newsize
                                 in bindR (split_item (m\<lparr>mem_used := wsub (mem_used m) (sz - newsize)\<rparr>) ptr mem ptr2)
                                      (\<lambda>m1.
                                         let m2 = (if ptr2 < lfree m1 then m1\<lparr>lfree := ptr2\<rparr> else m1)
                                         in bindR (plug_holes m2 ptr2) (\<lambda>m3. Inr (Some rmem, m3))))
                              else
                                bindR (rt_smem_alloc m newsize)
                                  (\<lambda>(nmem, m1).
                                     case nmem of
                                       None \<Rightarrow> Inr (None, m1)
                                     | Some np \<Rightarrow>
                                         bindR (rt_smem_free (copy_data np rmem (if sz < newsize then sz else newsize) m1) rmem0)
                                           (\<lambda>m2. Inr (Some np, m2)))))))"

subsection \<open>The headers of a heap\<close>

lemma sizes [simp]: "RT_ALIGN_SIZE = 4" "SIZEOF_STRUCT_MEM = 12" "MIN_SIZE_ALIGNED = 12" "MIN_SIZE = 12"
  by (simp_all add: SIZEOF_STRUCT_MEM_def MIN_SIZE_ALIGNED_def MIN_SIZE_def size_up_eq RT_ALIGN_SIZE_def)

text \<open>A block of the heap: the offset of its header and whether it is in use.  It ends where the next begins.\<close>

type_synonym blocks = "(nat \<times> bool) list"

definition block_end :: "blocks \<Rightarrow> nat \<Rightarrow> nat" where
  "block_end bs e = (case bs of [] \<Rightarrow> e | b # _ \<Rightarrow> fst b)"

definition last_off :: "nat \<Rightarrow> blocks \<Rightarrow> nat" where
  "last_off pv bs = last (pv # map fst bs)"

lemma block_end_simps [simp]:
  "block_end [] e = e" "block_end (b # bs) e = fst b" "block_end (xs @ ys) e = block_end xs (block_end ys e)"
  by (simp_all add: block_end_def split: list.split)

lemma last_off_simps [simp]:
  "last_off pv [] = pv" "last_off pv (xs @ [b]) = fst b" "last_off pv (b # bs) = last_off (fst b) bs"
  by (simp_all add: last_off_def)

text \<open>The headers of the blocks are in the heap and link them in both directions.\<close>

fun linked :: "(nat \<Rightarrow> rt_small_mem_item option) \<Rightarrow> nat \<Rightarrow> blocks \<Rightarrow> nat \<Rightarrow> bool" where
  "linked it pv [] e \<longleftrightarrow> True"
| "linked it pv ((p, u) # bs) e \<longleftrightarrow>
     it p = Some \<lparr>pool_ok = True, pool_used = u, item_next = block_end bs e, item_prev = pv\<rparr> \<and>
     4 dvd p \<and> p + 12 \<le> block_end bs e \<and> (u \<longrightarrow> p + 16 \<le> block_end bs e) \<and> linked it p bs e"

lemma linked_append:
  "linked it pv (xs @ ys) e \<longleftrightarrow> linked it pv xs (block_end ys e) \<and> linked it (last_off pv xs) ys e"
  by (induction it pv xs e rule: linked.induct) auto

lemma linked_cong: "(\<And>p. p \<in> fst ` set bs \<Longrightarrow> it' p = it p) \<Longrightarrow> linked it' pv bs e = linked it pv bs e"
  by (induction it pv bs e rule: linked.induct) auto

lemma linked_end: "linked it pv bs e \<Longrightarrow> block_end bs e \<le> e"
  by (induction it pv bs e rule: linked.induct) auto

lemma linked_range: "linked it pv bs e \<Longrightarrow> (p, u) \<in> set bs \<Longrightarrow> block_end bs e \<le> p \<and> p + 12 \<le> e"
proof (induction it pv bs e rule: linked.induct)
  case (2 it pv q v bs e)
  then show ?case using linked_end [of it q bs e] by fastforce
qed simp

lemma linked_upd [simp]: "p \<notin> fst ` set bs \<Longrightarrow> linked (it(p \<mapsto> x)) pv bs e = linked it pv bs e"
  by (rule linked_cong) auto

definition end_ok :: "(nat \<Rightarrow> rt_small_mem_item option) \<Rightarrow> nat \<Rightarrow> bool" where
  "end_ok it e \<longleftrightarrow> (\<exists>i. it e = Some i \<and> pool_ok i \<and> pool_used i \<and> item_next i = e)"

text \<open>The blocks fill the heap from offset 0 to the header at its end.\<close>

definition laid_out :: "rt_small_mem \<Rightarrow> blocks \<Rightarrow> bool" where
  "laid_out m bs \<longleftrightarrow>
     heap_end m = mem_size_aligned m + 12 \<and> heap_end m < 2 ^ 32 \<and> 4 dvd mem_size_aligned m \<and>
     block_end bs (heap_end m) = 0 \<and> linked (items m) 0 bs (heap_end m) \<and> end_ok (items m) (heap_end m)"

definition same_misc :: "rt_small_mem \<Rightarrow> rt_small_mem \<Rightarrow> bool" where
  "same_misc m m' \<longleftrightarrow> heap_end m' = heap_end m \<and> mem_size_aligned m' = mem_size_aligned m \<and>
     mem_used m' = mem_used m \<and> mem_max m' = mem_max m \<and> heap_data m' = heap_data m"

lemma laid_out_simps [simp]:
  "laid_out (m\<lparr>lfree := x\<rparr>) bs = laid_out m bs" "laid_out (m\<lparr>mem_used := x\<rparr>) bs = laid_out m bs"
  "laid_out (m\<lparr>mem_max := x\<rparr>) bs = laid_out m bs" "laid_out (m\<lparr>heap_data := d\<rparr>) bs = laid_out m bs"
  by (simp_all add: laid_out_def)

text \<open>The blocks around one of them.\<close>

lemma laid_out_at:
  assumes "laid_out m (xs @ (p, u) # ys)"
  shows "items m p = Some \<lparr>pool_ok = True, pool_used = u, item_next = block_end ys (heap_end m), item_prev = last_off 0 xs\<rparr>"
    and "4 dvd p" and "p + 12 \<le> block_end ys (heap_end m)" and "block_end ys (heap_end m) \<le> heap_end m"
    and "\<And>q v. (q, v) \<in> set xs \<Longrightarrow> q + 12 \<le> p" and "\<And>q v. (q, v) \<in> set ys \<Longrightarrow> p + 12 \<le> q \<and> q + 12 \<le> heap_end m"
proof -
  let ?e = "heap_end m"
  have l: "linked (items m) 0 xs p" "linked (items m) (last_off 0 xs) ((p, u) # ys) ?e"
    using assms unfolding laid_out_def by (auto simp: linked_append)
  then show "items m p = Some \<lparr>pool_ok = True, pool_used = u, item_next = block_end ys ?e, item_prev = last_off 0 xs\<rparr>"
    "4 dvd p" and b: "p + 12 \<le> block_end ys ?e" by simp_all
  have t: "linked (items m) p ys ?e" using l by simp
  show "block_end ys ?e \<le> ?e"
    using linked_range [OF t] by (cases ys) force+
  show "q + 12 \<le> p" if "(q, v) \<in> set xs" for q v using linked_range [OF l(1) that] by simp
  show "p + 12 \<le> q \<and> q + 12 \<le> ?e" if "(q, v) \<in> set ys" for q v using linked_range [OF t that] b by simp
qed

lemma laid_out_data: "laid_out m (xs @ (p, True) # ys) \<Longrightarrow> p + 16 \<le> block_end ys (heap_end m)"
  unfolding laid_out_def by (auto simp: linked_append)

lemma get_item_Some [simp]: "items m p = Some i \<Longrightarrow> get_item m p = Inr i"
  by (simp add: get_item_def)

text \<open>The header behind a list of blocks exists; writing its \<open>prev\<close> link gives it a new predecessor.\<close>

lemma set_prev_linked:
  assumes "linked (items m) pv ys (heap_end m)" and "end_ok (items m) (heap_end m)"
    and "items m (block_end ys (heap_end m)) = Some i"
  shows "set_prev (block_end ys (heap_end m)) v m = Inr (set_item (block_end ys (heap_end m)) (i\<lparr>item_prev := v\<rparr>) m)"
    and "linked ((items m)(block_end ys (heap_end m) \<mapsto> i\<lparr>item_prev := v\<rparr>)) v ys (heap_end m)"
    and "end_ok ((items m)(block_end ys (heap_end m) \<mapsto> i\<lparr>item_prev := v\<rparr>)) (heap_end m)"
proof -
  let ?n = "block_end ys (heap_end m)"
  show "set_prev ?n v m = Inr (set_item ?n (i\<lparr>item_prev := v\<rparr>) m)"
    using assms(3) by (simp add: set_prev_def)
  show "linked ((items m)(?n \<mapsto> i\<lparr>item_prev := v\<rparr>)) v ys (heap_end m)"
  proof (cases ys)
    case (Cons b zs)
    obtain q u where b: "b = (q, u)" by (cases b)
    have "q \<notin> fst ` set zs"
      using assms(1) linked_range [of "items m" q zs "heap_end m"] by (force simp: Cons b)
    then show ?thesis using assms(1,3) by (auto simp: Cons b)
  qed simp
  show "end_ok ((items m)(?n \<mapsto> i\<lparr>item_prev := v\<rparr>)) (heap_end m)"
    using assms(2,3) by (auto simp: end_ok_def)
qed

lemma header_behind:
  "linked (items m) pv ys (heap_end m) \<Longrightarrow> end_ok (items m) (heap_end m) \<Longrightarrow>
   \<exists>i. items m (block_end ys (heap_end m)) = Some i \<and> pool_ok i \<and> (pool_used i \<longleftrightarrow> ys = [] \<or> snd (hd ys))"
  by (cases ys; cases "hd ys") (auto simp: end_ok_def)

lemma laid_out_parts:
  assumes "laid_out m (xs @ (p, u) # ys)"
  shows "linked (items m) 0 xs p" and "linked (items m) p ys (heap_end m)" and "end_ok (items m) (heap_end m)"
    and "p \<notin> fst ` set xs" and "p \<notin> fst ` set ys" and "p \<noteq> heap_end m"
    and "q \<in> fst ` set ys \<union> {heap_end m} \<Longrightarrow> p + 12 \<le> q \<and> q \<notin> fst ` set xs"
  using assms laid_out_at [OF assms] unfolding laid_out_def by (fastforce simp: linked_append)+

lemma behind_in: "block_end ys e \<in> fst ` set ys \<union> {e}"
  by (cases ys) auto

text \<open>Two neighbours become one.\<close>

lemma laid_out_join:
  assumes l: "laid_out m (xs @ (p, u) # (q, v) # ys)"
    and ip: "items m p = Some ip" and iq: "items m q = Some iq"
    and i: "items m (block_end ys (heap_end m)) = Some i"
    and it: "items m' = (items m)(q \<mapsto> iq\<lparr>pool_ok := False, pool_used := False\<rparr>,
      p \<mapsto> ip\<lparr>item_next := block_end ys (heap_end m)\<rparr>, block_end ys (heap_end m) \<mapsto> i\<lparr>item_prev := p\<rparr>)"
    and "heap_end m' = heap_end m" "mem_size_aligned m' = mem_size_aligned m"
  shows "laid_out m' (xs @ (p, u) # ys)"
proof -
  let ?e = "heap_end m" and ?n = "block_end ys (heap_end m)"
  note P = laid_out_parts [OF l]
  have l2: "laid_out m ((xs @ [(p, u)]) @ (q, v) # ys)" using l by simp
  note Q = laid_out_parts [OF l2]
  have ord: "p + 12 \<le> q" "q + 12 \<le> ?n" "?n \<notin> fst ` set xs" "q \<notin> fst ` set xs" "p \<notin> fst ` set ys"
    using P(7) [of q] Q(7) [OF behind_in] P(5) Q(4) by auto
  have ys: "linked ((items m)(?n \<mapsto> i\<lparr>item_prev := p\<rparr>)) p ys ?e" "end_ok ((items m)(?n \<mapsto> i\<lparr>item_prev := p\<rparr>)) ?e"
    using set_prev_linked(2,3) [OF Q(2,3) i] by auto
  have e: "?e \<noteq> p" "?e \<noteq> q" using P(6) Q(6) by auto
  have it': "items m' = (items m)(?n \<mapsto> i\<lparr>item_prev := p\<rparr>, q \<mapsto> iq\<lparr>pool_ok := False, pool_used := False\<rparr>,
      p \<mapsto> ip\<lparr>item_next := ?n\<rparr>)"
    unfolding it using ord by (auto simp: fun_eq_iff)
  have "linked (items m') 0 xs p" using P(1) ord P(4) by (simp add: it')
  moreover have "linked (items m') p ys ?e" using ys(1) ord Q(5) by (simp add: it')
  moreover have "end_ok (items m') ?e" using ys(2) e by (simp add: it' end_ok_def)
  moreover have "items m' p = Some \<lparr>pool_ok = True, pool_used = u, item_next = ?n, item_prev = last_off 0 xs\<rparr>"
    using laid_out_at(1) [OF l] ip by (auto simp: it')
  moreover have "4 dvd p" "p + 12 \<le> ?n" "u \<longrightarrow> p + 16 \<le> ?n" using laid_out_at(2) [OF l] ord by auto
  ultimately show ?thesis
    using l assms(6,7) by (simp add: laid_out_def linked_append)
qed

text \<open>One block becomes two, the second of them free.\<close>

lemma laid_out_split:
  assumes l: "laid_out m (xs @ (p, u) # ys)"
    and q: "p + 12 \<le> q" "u \<Longrightarrow> p + 16 \<le> q" "q + 12 \<le> block_end ys (heap_end m)" "4 dvd q"
    and ip: "items m p = Some ip"
    and i: "items m (block_end ys (heap_end m)) = Some i"
    and it: "items m' = (items m)(q \<mapsto> \<lparr>pool_ok = True, pool_used = False, item_next = block_end ys (heap_end m), item_prev = p\<rparr>,
      p \<mapsto> ip\<lparr>item_next := q\<rparr>, block_end ys (heap_end m) \<mapsto> i\<lparr>item_prev := w\<rparr>)"
    and w: "ys \<noteq> [] \<Longrightarrow> w = q"
    and "heap_end m' = heap_end m" "mem_size_aligned m' = mem_size_aligned m"
  shows "laid_out m' (xs @ (p, u) # (q, False) # ys)"
proof -
  let ?e = "heap_end m" and ?n = "block_end ys (heap_end m)"
  note P = laid_out_parts [OF l]
  have n: "?n \<le> ?e" using laid_out_at(4) [OF l] .
  have ord: "?n \<notin> fst ` set xs" "q \<notin> fst ` set xs" "q \<notin> fst ` set ys" "q \<noteq> ?e"
    using P(7) [OF behind_in] laid_out_at(5) [OF l] linked_range [OF P(2)] q n by force+
  have ys: "linked ((items m)(?n \<mapsto> i\<lparr>item_prev := w\<rparr>)) q ys ?e" "end_ok ((items m)(?n \<mapsto> i\<lparr>item_prev := w\<rparr>)) ?e"
    using set_prev_linked(2,3) [OF P(2,3) i, of w] w by (cases ys; auto)+
  have it': "items m' = (items m)(?n \<mapsto> i\<lparr>item_prev := w\<rparr>,
      q \<mapsto> \<lparr>pool_ok = True, pool_used = False, item_next = ?n, item_prev = p\<rparr>, p \<mapsto> ip\<lparr>item_next := q\<rparr>)"
    unfolding it using q by (auto simp: fun_eq_iff)
  have "linked (items m') 0 xs p" using P(1) ord P(4) by (simp add: it')
  moreover have "linked (items m') q ys ?e" using ys(1) ord P(5) by (simp add: it')
  moreover have "end_ok (items m') ?e" using ys(2) ord P(6) by (simp add: it' end_ok_def)
  moreover have "items m' p = Some \<lparr>pool_ok = True, pool_used = u, item_next = q, item_prev = last_off 0 xs\<rparr>"
    using laid_out_at(1) [OF l] ip by (auto simp: it')
  moreover have "items m' q = Some \<lparr>pool_ok = True, pool_used = False, item_next = ?n, item_prev = p\<rparr>"
    using q by (auto simp: it')
  ultimately show ?thesis
    using l q laid_out_at(2) [OF l] assms(10,11) by (simp add: laid_out_def linked_append)
qed

text \<open>A block changes hands.\<close>

lemma laid_out_mark:
  assumes l: "laid_out m (xs @ (p, u) # ys)"
    and ip: "items m p = Some ip"
    and it: "items m' = (items m)(p \<mapsto> ip\<lparr>pool_ok := True, pool_used := v\<rparr>)"
    and v: "v \<Longrightarrow> p + 16 \<le> block_end ys (heap_end m)"
    and "heap_end m' = heap_end m" "mem_size_aligned m' = mem_size_aligned m"
  shows "laid_out m' (xs @ (p, v) # ys)"
proof -
  note P = laid_out_parts [OF l]
  have "linked (items m') 0 xs p" "linked (items m') p ys (heap_end m)" "end_ok (items m') (heap_end m)"
    using P by (simp_all add: it end_ok_def)
  moreover have "items m' p = Some \<lparr>pool_ok = True, pool_used = v, item_next = block_end ys (heap_end m), item_prev = last_off 0 xs\<rparr>"
    using laid_out_at(1) [OF l] ip by (auto simp: it)
  ultimately show ?thesis using l laid_out_at(2,3) [OF l] v assms(5,6) by (simp add: laid_out_def linked_append)
qed

subsection \<open>Plugging holes\<close>

lemma forward_join:
  assumes l: "laid_out m (xs @ (p, u) # (q, False) # ys)"
  shows "\<exists>m'. plug_forward m p = Inr m' \<and> laid_out m' (xs @ (p, u) # ys) \<and> same_misc m m' \<and>
    lfree m' = (if lfree m = q then p else lfree m)"
proof -
  let ?n = "block_end ys (heap_end m)"
  have l2: "laid_out m ((xs @ [(p, u)]) @ (q, False) # ys)" using l by simp
  note P = laid_out_at [OF l] and Q = laid_out_at [OF l2]
  obtain i where i: "items m ?n = Some i" using header_behind laid_out_parts(2,3) [OF l2] by blast
  have ord: "p \<noteq> q" "q \<noteq> heap_end m" "?n \<noteq> p" "?n \<noteq> q" using P(3) Q(3,4) by auto
  define m1 where "m1 = (if lfree m = q then m\<lparr>lfree := p\<rparr> else m)"
  define m2 where "m2 = set_item q \<lparr>pool_ok = False, pool_used = False, item_next = ?n, item_prev = p\<rparr> m1"
  define m3 where "m3 = set_item p \<lparr>pool_ok = True, pool_used = u, item_next = ?n, item_prev = last_off 0 xs\<rparr> m2"
  have m3: "items m3 ?n = Some i" "heap_end m3 = heap_end m"
    using i ord by (simp_all add: m3_def m2_def m1_def set_item_def)
  have "plug_forward m p = Inr (set_item ?n (i\<lparr>item_prev := p\<rparr>) m3)"
    using P(1) Q(1) ord m3 by (simp add: plug_forward_def set_prev_def m1_def m2_def m3_def)
  moreover have "laid_out (set_item ?n (i\<lparr>item_prev := p\<rparr>) m3) (xs @ (p, u) # ys)"
    by (rule laid_out_join [OF l P(1) Q(1) i]) (simp_all add: m3_def m2_def m1_def set_item_def)
  ultimately show ?thesis by (auto simp: m3_def m2_def m1_def set_item_def same_misc_def)
qed

lemma forward_none:
  assumes l: "laid_out m (xs @ (p, u) # ys)" and "ys = [] \<or> snd (hd ys)"
  shows "plug_forward m p = Inr m"
proof -
  obtain i where "items m (block_end ys (heap_end m)) = Some i" "pool_used i"
    using header_behind laid_out_parts(2,3) [OF l] assms(2) by blast
  then show ?thesis using laid_out_at(1) [OF l] by (simp add: plug_forward_def)
qed

lemma backward_join:
  assumes l: "laid_out m (xs @ (r, False) # (p, False) # ys)"
  shows "\<exists>m'. plug_backward m p = Inr m' \<and> laid_out m' (xs @ (r, False) # ys) \<and> same_misc m m' \<and>
    lfree m' = (if lfree m = p then r else lfree m)"
proof -
  let ?n = "block_end ys (heap_end m)"
  have l2: "laid_out m ((xs @ [(r, False)]) @ (p, False) # ys)" using l by simp
  note R = laid_out_at [OF l] and P = laid_out_at [OF l2]
  obtain i where i: "items m ?n = Some i" using header_behind laid_out_parts(2,3) [OF l2] by blast
  have ord: "r \<noteq> p" "?n \<noteq> r" "?n \<noteq> p" using R(3) P(3) by auto
  define m1 where "m1 = (if lfree m = p then m\<lparr>lfree := r\<rparr> else m)"
  define m2 where "m2 = set_item p \<lparr>pool_ok = False, pool_used = False, item_next = ?n, item_prev = r\<rparr> m1"
  define m3 where "m3 = set_item r \<lparr>pool_ok = True, pool_used = False, item_next = ?n, item_prev = last_off 0 xs\<rparr> m2"
  have m3: "items m3 ?n = Some i" "heap_end m3 = heap_end m"
    using i ord by (simp_all add: m3_def m2_def m1_def set_item_def)
  have "plug_backward m p = Inr (set_item ?n (i\<lparr>item_prev := r\<rparr>) m3)"
    using P(1) R(1) ord m3 by (simp add: plug_backward_def set_prev_def m1_def m2_def m3_def)
  moreover have "laid_out (set_item ?n (i\<lparr>item_prev := r\<rparr>) m3) (xs @ (r, False) # ys)"
    by (rule laid_out_join [OF l R(1) P(1) i]) (simp_all add: m3_def m2_def m1_def set_item_def)
  ultimately show ?thesis by (auto simp: m3_def m2_def m1_def set_item_def same_misc_def)
qed

lemma backward_none:
  assumes l: "laid_out m (xs @ (p, u) # ys)" and x: "xs = [] \<or> snd (last xs)"
  shows "plug_backward m p = Inr m"
proof (cases xs rule: rev_cases)
  case Nil
  then have "p = 0" using l by (simp add: laid_out_def)
  then show ?thesis using laid_out_at(1) [OF l] Nil by (simp add: plug_backward_def)
next
  case (snoc zs b)
  then obtain r where b: "b = (r, True)" using x by (cases b) auto
  have "laid_out m (zs @ (r, True) # (p, u) # ys)" using l by (simp add: snoc b)
  from laid_out_at(1) [OF this] show ?thesis
    using laid_out_at(1) [OF l] by (simp add: plug_backward_def snoc b)
qed

subsection \<open>The invariant\<close>

definition first_free :: "blocks \<Rightarrow> nat \<Rightarrow> nat" where
  "first_free bs e = (case find (\<lambda>b. \<not> snd b) bs of None \<Rightarrow> e | Some b \<Rightarrow> fst b)"

lemma first_free_simps [simp]:
  "first_free [] e = e" "first_free ((p, u) # bs) e = (if u then first_free bs e else p)"
  by (simp_all add: first_free_def)

lemma first_free_append: "first_free (xs @ ys) e = first_free xs (first_free ys e)"
  by (induction xs) auto

lemma first_free_cases: "first_free xs q = (if \<forall>b\<in>set xs. snd b then q else first_free xs p)"
proof (induction xs)
  case (Cons b xs)
  then show ?case by (cases b; cases "snd b") simp_all
qed simp

fun bytes_used :: "blocks \<Rightarrow> nat \<Rightarrow> nat" where
  "bytes_used [] e = 0"
| "bytes_used ((p, u) # bs) e = (if u then block_end bs e - p else 0) + bytes_used bs e"

lemma bytes_used_append: "bytes_used (xs @ ys) e = bytes_used xs (block_end ys e) + bytes_used ys e"
  by (induction xs) auto

definition no_adjacent :: "blocks \<Rightarrow> bool" where
  "no_adjacent bs \<longleftrightarrow> successively (\<lambda>a b. snd a \<or> snd b) bs"

definition smem_inv :: "rt_small_mem \<Rightarrow> blocks \<Rightarrow> bool" where
  "smem_inv m bs \<longleftrightarrow>
     laid_out m bs \<and> no_adjacent bs \<and> lfree m = first_free bs (heap_end m) \<and>
     mem_used m = bytes_used bs (heap_end m) \<and> mem_used m \<le> mem_max m"

lemma linked_bytes: "linked it pv bs e \<Longrightarrow> bytes_used bs e \<le> e - block_end bs e"
proof (induction it pv bs e rule: linked.induct)
  case (2 it pv p u bs e)
  then show ?case using linked_end [of it p bs e] by auto
qed simp

lemma used_bound:
  assumes "laid_out m bs"
  shows "bytes_used bs (heap_end m) \<le> heap_end m" and "heap_end m < 2 ^ 32"
proof -
  have "linked (items m) 0 bs (heap_end m)" "heap_end m < 2 ^ 32" using assms unfolding laid_out_def by blast+
  then show "bytes_used bs (heap_end m) \<le> heap_end m" "heap_end m < 2 ^ 32"
    using linked_bytes [of "items m" 0 bs "heap_end m"] by simp_all
qed

lemma wsub_le: "b \<le> a \<Longrightarrow> a < 2 ^ 32 \<Longrightarrow> wsub a b = a - b"
proof -
  assume "b \<le> a" "a < 2 ^ 32"
  then have "(int a - int b) mod 2 ^ 32 = int a - int b" by (intro mod_pos_pos_trivial) auto
  with \<open>b \<le> a\<close> show ?thesis by (simp add: wsub_def)
qed

lemma wadd_less: "a + b < 2 ^ 32 \<Longrightarrow> wadd a b = a + b"
  by (simp add: wadd_def)

subsection \<open>Releasing a block\<close>

text \<open>What releasing the block at \<open>p\<close> makes of the blocks before and behind it.\<close>

definition give_back :: "blocks \<Rightarrow> nat \<Rightarrow> blocks \<Rightarrow> blocks" where
  "give_back xs p ys =
     (let ys' = (if ys \<noteq> [] \<and> \<not> snd (hd ys) then tl ys else ys)
      in if xs \<noteq> [] \<and> \<not> snd (last xs) then xs @ ys' else xs @ (p, False) # ys')"

lemma first_free_range:
  assumes "linked it pv bs e"
  shows "first_free bs e = e \<and> (\<forall>b\<in>set bs. snd b) \<or> (first_free bs e, False) \<in> set bs"
  using assms by (induction it pv bs e rule: linked.induct) auto

text \<open>The blocks behind \<open>p\<close> are free from the right place on, whatever was done to \<open>p\<close>.\<close>

lemma plug_holes_result:
  assumes l: "laid_out m (xs @ (p, False) # ys)"
    and na: "no_adjacent xs" "no_adjacent ys"
    and lf: "lfree m = first_free xs p"
    and us: "mem_used m = bytes_used xs p + bytes_used ys (heap_end m)" and mx: "mem_used m \<le> mem_max m"
  shows "\<exists>m'. plug_holes m p = Inr m' \<and> smem_inv m' (give_back xs p ys) \<and> same_misc m m'"
proof -
  let ?ys = "if ys \<noteq> [] \<and> \<not> snd (hd ys) then tl ys else ys"
  have p: "p < heap_end m" using laid_out_at(3,4) [OF l] by simp
  obtain m1 where f: "plug_forward m p = Inr m1" "laid_out m1 (xs @ (p, False) # ?ys)" "same_misc m m1" "lfree m1 = lfree m"
  proof (cases "ys \<noteq> [] \<and> \<not> snd (hd ys)")
    case True
    then obtain q zs where ys: "ys = (q, False) # zs" by (cases ys) auto
    have "lfree m \<noteq> q"
    proof -
      have "linked (items m) 0 xs p" using laid_out_parts(1) [OF l] .
      from first_free_range [OF this] have "lfree m \<le> p" using lf laid_out_at(5) [OF l] by fastforce
      then show ?thesis using laid_out_at(6) [OF l, of q False] by (simp add: ys)
    qed
    with forward_join [of m xs p False q zs] l ys that show thesis by auto
  next
    case False
    then have "plug_forward m p = Inr m" by (intro forward_none [OF l]) auto
    then show thesis using that [of m] l False by (simp add: same_misc_def)
  qed
  have y: "no_adjacent ?ys" "?ys = [] \<or> snd (hd ?ys)" "bytes_used ?ys (heap_end m) = bytes_used ys (heap_end m)"
    using na(2) by (cases ys; cases "hd ys"; cases "tl ys"; auto simp: no_adjacent_def successively_Cons)+
  have e: "heap_end m1 = heap_end m" using f(3) by (simp add: same_misc_def)
  have plug: "plug_holes m p = plug_backward m1 p" using p f(1) by (simp add: plug_holes_def)
  show ?thesis
  proof (cases "xs \<noteq> [] \<and> \<not> snd (last xs)")
    case True
    then obtain zs r where xs: "xs = zs @ [(r, False)]" by (cases xs rule: rev_cases) auto
    have "laid_out m1 (zs @ (r, False) # (p, False) # ?ys)" using f(2) by (simp add: xs)
    from backward_join [OF this] obtain m' where m': "plug_backward m1 p = Inr m'" "laid_out m' (xs @ ?ys)"
      "same_misc m1 m'" "lfree m' = (if lfree m1 = p then r else lfree m1)"
      by (auto simp: xs)
    have "linked (items m) 0 zs r" "r < p" using laid_out_parts(1) [OF l] by (auto simp: xs linked_append)
    then have "first_free zs r < p" using first_free_range [of "items m" 0 zs r] linked_range [of "items m" 0 zs r] by fastforce
    then have "lfree m' = first_free (xs @ ?ys) (heap_end m')"
      using m'(4) f(4) lf by (simp add: xs first_free_append)
    moreover have "no_adjacent (xs @ ?ys)"
      using na(1) y(1,2) by (auto simp: no_adjacent_def successively_append_iff)
    moreover have "mem_used m' = bytes_used (xs @ ?ys) (heap_end m')"
      using m'(3) f(3) us y(3) by (simp add: same_misc_def bytes_used_append xs)
    moreover have "mem_used m' \<le> mem_max m'" using m'(3) f(3) mx by (simp add: same_misc_def)
    ultimately have "smem_inv m' (xs @ ?ys)" using m'(2) by (simp add: smem_inv_def)
    then show ?thesis using plug m'(1,3) f(3) True by (simp add: give_back_def same_misc_def Let_def)
  next
    case False
    have b: "plug_backward m1 p = Inr m1" using False by (intro backward_none [OF f(2)]) auto
    have "no_adjacent (xs @ (p, False) # ?ys)"
      using na(1) y(1,2) False by (auto simp: no_adjacent_def successively_append_iff successively_Cons)
    then have "smem_inv m1 (xs @ (p, False) # ?ys)"
      using f lf us mx y(3) e by (simp add: smem_inv_def first_free_append bytes_used_append same_misc_def)
    moreover have "give_back xs p ys = xs @ (p, False) # ?ys" using False by (auto simp: give_back_def Let_def)
    ultimately show ?thesis using plug b f(3) by simp
  qed
qed

text \<open>
  Releasing a block in use never faults: it becomes free and merges with free neighbours on both sides, and
  every other block keeps its place, its size and its state.
\<close>

theorem smem_free_result:
  assumes "smem_inv m (xs @ (p, True) # ys)"
  shows "\<exists>m'. rt_smem_free m (Some (p + 12)) = Inr m' \<and> smem_inv m' (give_back xs p ys) \<and>
    heap_end m' = heap_end m \<and> heap_data m' = heap_data m"
proof -
  let ?e = "heap_end m" and ?n = "block_end ys (heap_end m)"
  have l: "laid_out m (xs @ (p, True) # ys)" and inv: "no_adjacent (xs @ (p, True) # ys)"
    "lfree m = first_free (xs @ (p, True) # ys) ?e" "mem_used m = bytes_used (xs @ (p, True) # ys) ?e"
    using assms by (simp_all add: smem_inv_def)
  note P = laid_out_at [OF l]
  obtain j where j: "items m ?n = Some j" "pool_ok j" using header_behind laid_out_parts(2,3) [OF l] by blast
  define ip where "ip = \<lparr>pool_ok = True, pool_used = True, item_next = ?n, item_prev = last_off 0 xs\<rparr>"
  define m1 where "m1 = set_item p (ip\<lparr>pool_used := False\<rparr>) m"
  define m2 where "m2 = (if p < lfree m then m1\<lparr>lfree := p\<rparr> else m1)"
  define m3 where "m3 = m2\<lparr>mem_used := wsub (mem_used m) (wsub ?n p)\<rparr>"
  have less: "?e < 2 ^ 32" using l by (simp add: laid_out_def)
  have "p + 12 < ?e" using laid_out_data [OF l] P(4) by simp
  moreover have "(p + 12) mod 4 = 0" using P(2) by presburger
  moreover have "?n \<noteq> p" using P(3) by simp
  ultimately have step: "rt_smem_free m (Some (p + 12)) = plug_holes m3 p"
    using P(1) j by (simp add: rt_smem_free_def ip_def m1_def m2_def m3_def set_item_def Let_def)
  have m3: "laid_out m3 (xs @ (p, False) # ys)"
    by (rule laid_out_mark [OF l P(1)]) (simp_all add: m1_def m2_def m3_def set_item_def ip_def)
  have na: "no_adjacent xs" "no_adjacent ys"
    using inv(1) by (auto simp: no_adjacent_def successively_append_iff successively_Cons)
  have x: "linked (items m) 0 xs p" "linked (items m) p ys ?e" using laid_out_parts(1,2) [OF l] .
  have lf: "lfree m3 = first_free xs p"
  proof -
    have "p < first_free ys ?e"
      using first_free_range [OF x(2)] linked_range [OF x(2)] P(3,4) by fastforce
    moreover have "first_free xs (first_free ys ?e) = (if \<forall>b\<in>set xs. snd b then first_free ys ?e else first_free xs p)"
      by (rule first_free_cases)
    moreover have "first_free xs p = p" if "\<forall>b\<in>set xs. snd b" using that first_free_cases [of xs p p] by simp
    moreover have "first_free xs p < p" if "\<not> (\<forall>b\<in>set xs. snd b)"
      using first_free_range [OF x(1)] P(5) [of "first_free xs p" False] that by auto
    ultimately show ?thesis
      using inv(2) by (cases "\<forall>b\<in>set xs. snd b") (simp_all add: m1_def m2_def m3_def set_item_def first_free_append)
  qed
  have us: "mem_used m3 = bytes_used xs p + bytes_used ys (heap_end m3)"
  proof -
    have "mem_used m = bytes_used xs p + (?n - p) + bytes_used ys ?e" using inv(3) by (simp add: bytes_used_append)
    moreover have "mem_used m < 2 ^ 32"
      using used_bound [OF l] inv(3) by simp
    moreover have "wsub ?n p = ?n - p" using P(3,4) less by (intro wsub_le) auto
    ultimately show ?thesis by (simp add: m1_def m2_def m3_def set_item_def wsub_le)
  qed
  have mx: "mem_used m3 \<le> mem_max m3"
  proof -
    have "mem_used m3 \<le> mem_used m"
      unfolding us using inv(3) by (simp add: bytes_used_append m1_def m2_def m3_def set_item_def)
    also have "\<dots> \<le> mem_max m" using assms by (simp add: smem_inv_def)
    also have "\<dots> = mem_max m3" by (simp add: m1_def m2_def m3_def set_item_def)
    finally show ?thesis .
  qed
  from plug_holes_result [OF m3 na lf us mx] obtain m' where
    "plug_holes m3 p = Inr m'" "smem_inv m' (give_back xs p ys)" "same_misc m3 m'" by blast
  with step show ?thesis
    by (intro exI [of _ m']) (simp add: same_misc_def m1_def m2_def m3_def set_item_def)
qed

subsection \<open>Allocating a block\<close>

text \<open>Whether a free block has room for \<open>sz\<close> bytes.\<close>

fun roomy :: "blocks \<Rightarrow> nat \<Rightarrow> nat \<Rightarrow> bool" where
  "roomy [] e sz \<longleftrightarrow> False"
| "roomy ((p, u) # bs) e sz \<longleftrightarrow> \<not> u \<and> p + 12 + sz \<le> block_end bs e \<or> roomy bs e sz"

lemma roomy_append: "roomy (xs @ ys) e sz \<longleftrightarrow> roomy xs (block_end ys e) sz \<or> roomy ys e sz"
  by (induction xs) auto

lemma roomy_bound: "linked it pv bs e \<Longrightarrow> roomy bs e sz \<Longrightarrow> block_end bs e + 12 + sz \<le> e"
proof (induction it pv bs e rule: linked.induct)
  case (2 it pv p u bs e)
  then show ?case using linked_end [of it p bs e] by auto
qed simp

lemma linked_length: "linked it pv bs e \<Longrightarrow> block_end bs e + 12 * length bs \<le> e"
  by (induction it pv bs e rule: linked.induct) auto

lemma enough_fuel:
  assumes "laid_out m (xs @ ys)"
  shows "length ys + 1 < walk_fuel m"
proof -
  have "linked (items m) 0 (xs @ ys) (heap_end m)" using assms unfolding laid_out_def by blast
  from linked_length [OF this] have "12 * length ys \<le> heap_end m" by simp
  then have "length ys \<le> heap_end m div 4" by (simp add: less_eq_div_iff_mult_less_eq)
  then show ?thesis by (simp add: walk_fuel_def)
qed

text \<open>The search for the lowest free block ends at it.\<close>

lemma lfree_loop_result:
  "laid_out m (xs @ ys) \<Longrightarrow> lfree m = block_end ys (heap_end m) \<Longrightarrow> length ys < fuel \<Longrightarrow>
   lfree_loop fuel m = Inr (m\<lparr>lfree := first_free ys (heap_end m)\<rparr>)"
proof (induction ys arbitrary: m xs fuel)
  case Nil
  then obtain f where "fuel = Suc f" by (cases fuel) auto
  moreover obtain i where "items m (heap_end m) = Some i"
    using Nil(1) unfolding laid_out_def end_ok_def by blast
  ultimately show ?case using Nil(2) by simp
next
  case (Cons b ys)
  obtain p u where b: "b = (p, u)" by (cases b)
  from Cons.prems(3) obtain f where f: "fuel = Suc f" "length ys < f" by (cases fuel) auto
  have l: "laid_out m (xs @ (p, u) # ys)" using Cons.prems(1) b by simp
  note P = laid_out_at [OF l]
  have p: "p \<noteq> heap_end m" using P(3,4) by simp
  show ?case
  proof (cases u)
    case True
    let ?m = "m\<lparr>lfree := block_end ys (heap_end m)\<rparr>"
    have "laid_out ?m ((xs @ [b]) @ ys)" using l b by simp
    from Cons.IH [OF this _ f(2)] have "lfree_loop f ?m = Inr (m\<lparr>lfree := first_free ys (heap_end m)\<rparr>)" by simp
    then show ?thesis using Cons.prems(2) P(1) f(1) b True p by simp
  next
    case False
    then show ?thesis using Cons.prems(2) P(1) f(1) b by simp
  qed
qed

text \<open>The blocks after taking the one at \<open>p\<close>: the rest is split off when it can hold a block of its own.\<close>

definition cut :: "nat \<Rightarrow> nat \<Rightarrow> blocks \<Rightarrow> nat \<Rightarrow> blocks" where
  "cut p sz ys e =
     (if p + 12 + sz + 24 \<le> block_end ys e then (p, True) # (p + 12 + sz, False) # ys else (p, True) # ys)"

lemma split_item_result:
  assumes l: "laid_out m (xs @ (p, u) # ys)" and q: "p + 16 \<le> q" "q + 12 \<le> block_end ys (heap_end m)" "4 dvd q"
    and ip: "items m p = Some ip"
  shows "\<exists>m'. split_item m p ip q = Inr m' \<and> laid_out m' (xs @ (p, u) # (q, False) # ys) \<and> same_misc m m' \<and>
    lfree m' = lfree m"
proof -
  let ?n = "block_end ys (heap_end m)"
  note P = laid_out_at [OF l]
  obtain i where i: "items m ?n = Some i" using header_behind laid_out_parts(2,3) [OF l] by blast
  have n: "item_next ip = ?n" using P(1) ip by auto
  have e: "heap_end m = mem_size_aligned m + 12" using l unfolding laid_out_def by blast
  define m1 where "m1 = set_item q \<lparr>pool_ok = True, pool_used = False, item_next = ?n, item_prev = p\<rparr> m"
  define m2 where "m2 = set_item p (ip\<lparr>item_next := q\<rparr>) m1"
  have ord: "?n \<noteq> p" "?n \<noteq> q" using q by auto
  show ?thesis
  proof (cases "?n = heap_end m")
    case False
    have m2: "items m2 ?n = Some i" using i ord by (simp add: m2_def m1_def set_item_def)
    let ?m = "set_item ?n (i\<lparr>item_prev := q\<rparr>) m2"
    have "split_item m p ip q = Inr ?m"
      using False m2 by (simp add: split_item_def n e set_prev_def m1_def m2_def Let_def)
    moreover have "laid_out ?m (xs @ (p, u) # (q, False) # ys)"
      by (rule laid_out_split [OF l _ _ q(2,3) ip i, of ?m q]) (use q in \<open>simp_all add: m2_def m1_def set_item_def\<close>)
    ultimately show ?thesis by (auto simp: m2_def m1_def set_item_def same_misc_def)
  next
    case True
    then have ys: "ys = []" using linked_range [OF laid_out_parts(2) [OF l]] by (cases ys) force+
    have "split_item m p ip q = Inr m2"
      using True by (simp add: split_item_def n e m1_def m2_def Let_def)
    moreover have "laid_out m2 (xs @ (p, u) # (q, False) # ys)"
    proof (rule laid_out_split [OF l _ _ q(2,3) ip i, of m2 "item_prev i"])
      show "items m2 = (items m)(q \<mapsto> \<lparr>pool_ok = True, pool_used = False, item_next = ?n, item_prev = p\<rparr>,
        p \<mapsto> ip\<lparr>item_next := q\<rparr>, ?n \<mapsto> i\<lparr>item_prev := item_prev i\<rparr>)"
        using i ord by (auto simp: m2_def m1_def set_item_def fun_eq_iff)
    qed (use q ys in \<open>simp_all add: m2_def m1_def set_item_def\<close>)
    ultimately show ?thesis by (auto simp: m2_def m1_def set_item_def same_misc_def)
  qed
qed

lemma raise_max_simps [simp]:
  "heap_end (raise_max m) = heap_end m" "lfree (raise_max m) = lfree m" "items (raise_max m) = items m"
  "mem_size_aligned (raise_max m) = mem_size_aligned m" "mem_used (raise_max m) = mem_used m"
  "heap_data (raise_max m) = heap_data m" "laid_out (raise_max m) bs = laid_out m bs"
  "mem_used m \<le> mem_max (raise_max m)"
  by (simp_all add: raise_max_def)

lemma take_item_result:
  assumes inv: "smem_inv m (xs @ (p, False) # ys)" and sz: "4 dvd sz" "12 \<le> sz" "p + 12 + sz \<le> block_end ys (heap_end m)"
    and ip: "items m p = Some ip"
  shows "\<exists>m'. take_item m p ip sz = Inr (Some (p + 12), m') \<and> smem_inv m' (xs @ cut p sz ys (heap_end m)) \<and>
    heap_end m' = heap_end m \<and> heap_data m' = heap_data m"
proof -
  let ?e = "heap_end m" and ?n = "block_end ys (heap_end m)" and ?bs = "xs @ cut p sz ys (heap_end m)"
  have l: "laid_out m (xs @ (p, False) # ys)" using inv by (simp add: smem_inv_def)
  note P = laid_out_at [OF l]
  have less: "?e < 2 ^ 32" by (rule used_bound(2) [OF l])
  have n: "item_next ip = ?n" using P(1) ip by auto
  have room: "wsub ?n (p + 12) = ?n - (p + 12)" "wsub ?n p = ?n - p" using P(3,4) less by (auto intro!: wsub_le)
  define taken where "taken = (if p + 12 + sz + 24 \<le> ?n then sz + 12 else ?n - p)"
  define rest where "rest = (if p + 12 + sz + 24 \<le> ?n then (p + 12 + sz, False) # ys else ys)"
  have used: "bytes_used ?bs ?e = mem_used m + taken"
    using inv P(3) sz by (auto simp: smem_inv_def bytes_used_append cut_def taken_def)
  obtain m1 where m1: "laid_out m1 (xs @ (p, False) # rest)" "heap_end m1 = ?e" "heap_data m1 = heap_data m"
    "lfree m1 = lfree m" "mem_used m1 = wadd (mem_used m) taken" "mem_used m1 \<le> mem_max m1"
    and step: "take_item m p ip sz = finish_take p sz m1"
  proof (cases "p + 12 + sz + 24 \<le> ?n")
    case True
    have "4 dvd p + 12 + sz" using P(2) sz(1) by presburger
    with True sz obtain m0 where m0: "split_item m p ip (p + 12 + sz) = Inr m0"
      "laid_out m0 (xs @ (p, False) # (p + 12 + sz, False) # ys)" "same_misc m m0" "lfree m0 = lfree m"
      using split_item_result [OF l, of "p + 12 + sz" ip] ip by auto
    let ?m = "raise_max (m0\<lparr>mem_used := wadd (mem_used m) (sz + 12)\<rparr>)"
    show thesis
    proof (rule that [of ?m])
      show "take_item m p ip sz = finish_take p sz ?m"
      proof -
        have "24 + sz \<le> ?n - (p + 12)" using True by simp
        then show ?thesis using m0(1,3) by (simp add: take_item_def n room same_misc_def)
      qed
    qed (use m0 True raise_max_simps(8) [of "m0\<lparr>mem_used := wadd (mem_used m) (sz + 12)\<rparr>"] in
      \<open>simp_all add: rest_def taken_def same_misc_def\<close>)
  next
    case False
    let ?m = "raise_max (m\<lparr>mem_used := wadd (mem_used m) (?n - p)\<rparr>)"
    show thesis
    proof (rule that [of ?m])
      show "take_item m p ip sz = finish_take p sz ?m"
      proof -
        have "\<not> 24 + sz \<le> ?n - (p + 12)" using False P(3) by simp
        then show ?thesis by (simp add: take_item_def n room)
      qed
    qed (use l False raise_max_simps(8) [of "m\<lparr>mem_used := wadd (mem_used m) (?n - p)\<rparr>"] in
      \<open>simp_all add: rest_def taken_def\<close>)
  qed
  have bs: "?bs = xs @ (p, True) # rest" by (simp add: cut_def rest_def)
  obtain i1 where i1: "items m1 p = Some i1" using laid_out_at(1) [OF m1(1)] by blast
  define m2 where "m2 = set_item p (i1\<lparr>pool_ok := True, pool_used := True\<rparr>) m1"
  have l2: "laid_out m2 ?bs"
    unfolding bs by (rule laid_out_mark [OF m1(1) i1]) (use sz m1(2) in \<open>auto simp: m2_def set_item_def rest_def\<close>)
  have f2: "heap_end m2 = ?e" "lfree m2 = lfree m" "heap_data m2 = heap_data m" "mem_used m2 = bytes_used ?bs ?e"
    "mem_used m2 \<le> mem_max m2"
  proof -
    have "bytes_used ?bs ?e < 2 ^ 32" using used_bound(1) [OF l2] less m1(2) by (simp add: m2_def set_item_def)
    then show "mem_used m2 = bytes_used ?bs ?e" using m1(5) used by (simp add: m2_def set_item_def wadd_less)
  qed (use m1 in \<open>simp_all add: m2_def set_item_def\<close>)
  have na: "no_adjacent ?bs"
    using inv by (auto simp: smem_inv_def bs rest_def no_adjacent_def successively_append_iff successively_Cons)
  have lin: "linked (items m2) 0 xs p" "linked (items m2) p rest ?e" using laid_out_parts(1,2) [OF l2 [unfolded bs]] f2(1) by simp_all
  obtain m3 where m3: "m3 = m2\<lparr>lfree := first_free ?bs ?e\<rparr>" and
    walk: "(if p = lfree m2 then
         bindR (lfree_loop (walk_fuel m2) m2)
           (\<lambda>m3. bindR (get_item m3 (lfree m3)) (\<lambda>j. if lfree m3 = heap_end m3 \<or> \<not> pool_used j then Inr m3 else Inl Assert_failed))
       else Inr m2) = Inr m3"
  proof (cases "p = lfree m")
    case True
    have xs: "first_free xs q = q" for q
    proof -
      have "first_free xs p = p"
        using inv True first_free_cases [of xs "first_free ((p, False) # ys) ?e" p] by (simp add: smem_inv_def first_free_append)
      then have "\<forall>b\<in>set xs. snd b"
        using first_free_range [OF lin(1)] laid_out_at(5) [OF l2 [unfolded bs], of p False] by auto
      then show ?thesis using first_free_cases [of xs q q] by simp
    qed
    have "lfree_loop (walk_fuel m2) m2 = Inr (m2\<lparr>lfree := first_free ((p, True) # rest) (heap_end m2)\<rparr>)"
      using f2(1,2) True enough_fuel [OF l2 [unfolded bs]]
      by (intro lfree_loop_result [OF l2 [unfolded bs]]) auto
    moreover have "\<exists>j. items m2 (first_free rest ?e) = Some j \<and> (first_free rest ?e = ?e \<or> \<not> pool_used j)"
    proof (cases "first_free rest ?e = ?e")
      case True
      then show ?thesis using laid_out_parts(3) [OF l2 [unfolded bs]] f2(1) by (auto simp: end_ok_def)
    next
      case False
      then obtain as cs where "rest = as @ (first_free rest ?e, False) # cs"
        using first_free_range [OF lin(2)] by (auto dest: split_list)
      then have "laid_out m2 ((xs @ (p, True) # as) @ (first_free rest ?e, False) # cs)" using l2 bs by simp
      from laid_out_at(1) [OF this] show ?thesis by simp
    qed
    ultimately have "(if p = lfree m2 then
         bindR (lfree_loop (walk_fuel m2) m2)
           (\<lambda>m3. bindR (get_item m3 (lfree m3)) (\<lambda>j. if lfree m3 = heap_end m3 \<or> \<not> pool_used j then Inr m3 else Inl Assert_failed))
       else Inr m2) = Inr (m2\<lparr>lfree := first_free rest ?e\<rparr>)"
      using f2(1,2) True by auto
    moreover have "first_free ?bs ?e = first_free rest ?e" unfolding bs by (simp add: first_free_append xs)
    ultimately show thesis by (intro that) simp_all
  next
    case False
    have lf: "lfree m = first_free xs p" using inv by (simp add: smem_inv_def first_free_append)
    have "\<not> (\<forall>b\<in>set xs. snd b)" using False lf first_free_cases [of xs p p] by metis
    from if_not_P [OF this] have "first_free ?bs ?e = lfree m"
      unfolding bs first_free_append lf using first_free_cases [of xs _ p] by metis
    then show thesis using that [of m2] f2 False by simp
  qed
  have "p + 12 + sz \<le> ?e" using sz(3) P(4) by simp
  moreover have "(p + 12) mod 4 = 0" "p mod 4 = 0" using P(2) by presburger+
  ultimately have "take_item m p ip sz = Inr (Some (p + 12), m3)"
    unfolding step finish_take_def get_item_Some [OF i1] bindR_simps Let_def m2_def [symmetric] walk
    using m3 f2(1) by simp
  moreover have "smem_inv m3 ?bs" using l2 na f2 m3 by (simp add: smem_inv_def)
  ultimately show ?thesis using m3 f2 by auto
qed

text \<open>The outcome of a search: the first block with room is taken, or there is none and nothing changes.\<close>

definition alloc_outcome :: "rt_small_mem \<Rightarrow> blocks \<Rightarrow> nat \<Rightarrow> (nat option \<times> rt_small_mem) result \<Rightarrow> bool" where
  "alloc_outcome m bs sz r \<longleftrightarrow>
     \<not> roomy bs (heap_end m) sz \<and> r = Inr (None, m) \<or>
     (\<exists>xs p ys m'. bs = xs @ (p, False) # ys \<and> \<not> roomy xs p sz \<and> p + 12 + sz \<le> block_end ys (heap_end m) \<and>
        r = Inr (Some (p + 12), m') \<and> smem_inv m' (xs @ cut p sz ys (heap_end m)) \<and>
        heap_end m' = heap_end m \<and> heap_data m' = heap_data m)"

lemma alloc_outcomeI:
  "\<not> roomy xs p sz \<Longrightarrow> p + 12 + sz \<le> block_end ys (heap_end m) \<Longrightarrow> r = Inr (Some (p + 12), m') \<Longrightarrow>
   smem_inv m' (xs @ cut p sz ys (heap_end m)) \<Longrightarrow> heap_end m' = heap_end m \<Longrightarrow> heap_data m' = heap_data m \<Longrightarrow>
   alloc_outcome m (xs @ (p, False) # ys) sz r"
  unfolding alloc_outcome_def by blast

lemma alloc_loop_result:
  assumes "4 dvd sz" "12 \<le> sz" "sz \<le> mem_size_aligned m"
  shows "smem_inv m (xs @ ys) \<Longrightarrow> \<not> roomy xs (block_end ys (heap_end m)) sz \<Longrightarrow> length ys < fuel \<Longrightarrow>
    alloc_outcome m (xs @ ys) sz (alloc_loop fuel m (block_end ys (heap_end m)) sz)"
proof (induction ys arbitrary: xs fuel)
  let ?e = "heap_end m"
  case Nil
  then have l: "laid_out m xs" by (simp add: smem_inv_def)
  have "wsub (mem_size_aligned m) sz = mem_size_aligned m - sz" "?e = mem_size_aligned m + 12"
    using assms(3) l by (auto simp: laid_out_def intro!: wsub_le)
  then have "\<not> ?e \<le> wsub (mem_size_aligned m) sz" by simp
  moreover obtain f where "fuel = Suc f" using Nil(3) by (cases fuel) auto
  ultimately have "alloc_loop fuel m ?e sz = Inr (None, m)" by simp
  then show ?case using Nil(2) by (simp add: alloc_outcome_def)
next
  let ?e = "heap_end m"
  case (Cons b ys)
  obtain p u where b: "b = (p, u)" by (cases b)
  obtain f where f: "fuel = Suc f" "length ys < f" using Cons.prems(3) by (cases fuel) auto
  have inv: "smem_inv m (xs @ (p, u) # ys)" using Cons.prems(1) b by simp
  then have l: "laid_out m (xs @ (p, u) # ys)" by (simp add: smem_inv_def)
  note P = laid_out_at [OF l]
  have e: "?e = mem_size_aligned m + 12" "?e < 2 ^ 32" using l unfolding laid_out_def by blast+
  have w: "wsub (mem_size_aligned m) sz = mem_size_aligned m - sz" "wsub (block_end ys ?e) (p + 12) = block_end ys ?e - (p + 12)"
    using assms(3) e P(3,4) by (auto intro!: wsub_le)
  define ip where "ip = \<lparr>pool_ok = True, pool_used = u, item_next = block_end ys ?e, item_prev = last_off 0 xs\<rparr>"
  have ip: "items m p = Some ip" using P(1) by (simp add: ip_def)
  show ?case
  proof (cases "p \<le> mem_size_aligned m - sz")
    case False
    have "\<not> roomy ((p, u) # ys) ?e sz"
    proof
      assume "roomy ((p, u) # ys) ?e sz"
      moreover have "linked (items m) (last_off 0 xs) ((p, u) # ys) ?e"
        using l unfolding laid_out_def linked_append by blast
      ultimately have "p + 12 + sz \<le> ?e" using roomy_bound [of _ _ "(p, u) # ys"] by fastforce
      with False e(1) show False by simp
    qed
    moreover have "alloc_loop fuel m p sz = Inr (None, m)" using False w f(1) by simp
    ultimately show ?thesis using Cons.prems(2) b by (simp add: alloc_outcome_def roomy_append)
  next
    case le: True
    show ?thesis
    proof (cases "\<not> u \<and> p + 12 + sz \<le> block_end ys ?e")
      case True
      then have "sz \<le> block_end ys ?e - (p + 12)" by arith
      then have "alloc_loop fuel m p sz = take_item m p ip sz"
        using True le w ip f(1) by (simp add: ip_def)
      moreover obtain m' where "take_item m p ip sz = Inr (Some (p + 12), m')" "smem_inv m' (xs @ cut p sz ys ?e)"
        "heap_end m' = ?e" "heap_data m' = heap_data m"
        using take_item_result [of m xs p ys sz ip] inv True assms(1,2) ip by auto
      ultimately show ?thesis using True Cons.prems(2) b
        by (auto intro: alloc_outcomeI)
    next
      case False
      then have step: "alloc_loop fuel m p sz = alloc_loop f m (block_end ys ?e) sz"
      proof -
        have "u \<or> \<not> sz \<le> block_end ys ?e - (p + 12)" using False P(3) by arith
        then show ?thesis using le w ip f(1) by (auto simp: ip_def)
      qed
      have "\<not> roomy (xs @ [b]) (block_end ys ?e) sz" using Cons.prems(2) False b by (auto simp: roomy_append)
      with Cons.IH [of "xs @ [b]" f] f(2) Cons.prems(1) step b show ?thesis by simp
    qed
  qed
qed

lemma split_first_free: "\<exists>xs ys. bs = xs @ ys \<and> block_end ys e = first_free bs e \<and> (\<forall>b\<in>set xs. snd b)"
proof (induction bs)
  case (Cons b bs)
  obtain p u where b: "b = (p, u)" by (cases b)
  show ?case
  proof (cases u)
    case True
    from Cons obtain xs ys where "bs = xs @ ys" "block_end ys e = first_free bs e" "\<forall>b\<in>set xs. snd b" by blast
    then show ?thesis using b True by (intro exI [of _ "b # xs"] exI [of _ ys]) auto
  next
    case False
    then show ?thesis using b by (intro exI [of _ "[]"] exI [of _ "b # bs"]) auto
  qed
qed (auto intro: exI [of _ "[]"])

lemma used_not_roomy: "\<forall>b\<in>set xs. snd b \<Longrightarrow> \<not> roomy xs e sz"
  by (induction xs e sz rule: roomy.induct) auto

lemma size_up_small:
  assumes "n + 3 < 2 ^ 32"
  shows "size_up n = (n + 3) div 4 * 4" and "n \<le> size_up n" and "4 dvd size_up n"
proof -
  show a: "size_up n = (n + 3) div 4 * 4" using assms by (simp add: size_up_eq)
  show "n \<le> size_up n" unfolding a by presburger
  show "4 dvd size_up n" unfolding a by simp
qed

text \<open>The size that a request is rounded up to.\<close>

definition block_size :: "nat \<Rightarrow> nat" where
  "block_size n = max 12 (size_up n)"

text \<open>
  An allocation never faults and never loops: the lowest free block with room for the request is taken, its
  rest split off when a block of its own fits in, and every other block stays as it is; or no free block has
  room, and then the heap is unchanged.
\<close>

theorem smem_alloc_result:
  assumes "smem_inv m bs" and "0 < n" "n + 3 < 2 ^ 32" and "12 \<le> mem_size_aligned m"
  shows "alloc_outcome m bs (block_size n) (rt_smem_alloc m n)"
proof -
  let ?e = "heap_end m"
  have l: "laid_out m bs" and lf: "lfree m = first_free bs ?e" using assms(1) by (simp_all add: smem_inv_def)
  have e: "?e = mem_size_aligned m + 12" using l unfolding laid_out_def by blast
  have lin: "linked (items m) 0 bs ?e" "block_end bs ?e = 0" using l unfolding laid_out_def by blast+
  note A = size_up_small [OF assms(3)]
  have sz: "4 dvd block_size n" "12 \<le> block_size n" using A(3) by (auto simp: block_size_def max_def)
  show ?thesis
  proof (cases "size_up n > mem_size_aligned m")
    case True
    then have "\<not> roomy bs ?e (block_size n)" using roomy_bound [OF lin(1)] lin(2) e by (fastforce simp: block_size_def)
    then show ?thesis using True assms(2) by (simp add: alloc_outcome_def rt_smem_alloc_def)
  next
    case False
    obtain xs ys where xy: "bs = xs @ ys" "block_end ys ?e = first_free bs ?e" "\<forall>b\<in>set xs. snd b"
      using split_first_free by blast
    have "length ys < walk_fuel m" using enough_fuel [of m xs ys] l xy(1) by simp
    moreover have "block_size n \<le> mem_size_aligned m" using False assms(4) by (simp add: block_size_def)
    ultimately have "alloc_outcome m bs (block_size n) (alloc_loop (walk_fuel m) m (block_end ys ?e) (block_size n))"
      using alloc_loop_result [OF sz, of m xs ys] assms(1) used_not_roomy [OF xy(3)] xy(1) by simp
    moreover have "rt_smem_alloc m n = alloc_loop (walk_fuel m) m (block_end ys ?e) (block_size n)"
      using False assms(2) xy(2) lf by (auto simp: rt_smem_alloc_def block_size_def max_def Let_def)
    ultimately show ?thesis by simp
  qed
qed

text \<open>Releasing the block that an allocation returned restores the blocks, the bytes in use and the lowest free block.\<close>

theorem smem_alloc_free:
  assumes "smem_inv m bs" and "0 < n" "n + 3 < 2 ^ 32" and "12 \<le> mem_size_aligned m"
    and "rt_smem_alloc m n = Inr (Some q, m1)"
  shows "\<exists>m2. rt_smem_free m1 (Some q) = Inr m2 \<and> smem_inv m2 bs \<and> mem_used m2 = mem_used m \<and> lfree m2 = lfree m"
proof -
  let ?e = "heap_end m"
  obtain xs p ys where bs: "bs = xs @ (p, False) # ys" and q: "q = p + 12"
    and inv: "smem_inv m1 (xs @ cut p (block_size n) ys ?e)" and e: "heap_end m1 = ?e"
    using smem_alloc_result [OF assms(1-4)] assms(5) by (auto simp: alloc_outcome_def)
  define rest where "rest = (if p + 12 + block_size n + 24 \<le> block_end ys ?e then (p + 12 + block_size n, False) # ys else ys)"
  have "smem_inv m1 (xs @ (p, True) # rest)" using inv by (simp add: cut_def rest_def split: if_splits)
  from smem_free_result [OF this] obtain m2 where m2: "rt_smem_free m1 (Some q) = Inr m2"
    "smem_inv m2 (give_back xs p rest)" "heap_end m2 = ?e"
    using q e by auto
  have "no_adjacent bs" using assms(1) by (simp add: smem_inv_def)
  then have "(xs = [] \<or> snd (last xs)) \<and> (ys = [] \<or> snd (hd ys))"
    by (auto simp: bs no_adjacent_def successively_append_iff successively_Cons)
  then have "give_back xs p rest = bs" by (auto simp: give_back_def rest_def bs Let_def)
  with m2 assms(1) show ?thesis by (auto simp: smem_inv_def)
qed

text \<open>The bytes that the clients own: from behind the header of a used block to its end.\<close>

fun in_use :: "blocks \<Rightarrow> nat \<Rightarrow> (nat \<times> nat) set" where
  "in_use [] e = {}"
| "in_use ((p, u) # bs) e = (if u then {(p + 12, block_end bs e)} else {}) \<union> in_use bs e"

lemma in_use_append: "in_use (xs @ ys) e = in_use xs (block_end ys e) \<union> in_use ys e"
  by (induction xs) auto

lemma in_use_range: "linked it pv bs e \<Longrightarrow> (a, b) \<in> in_use bs e \<Longrightarrow> block_end bs e + 12 \<le> a \<and> a \<le> b \<and> b \<le> e"
proof (induction it pv bs e rule: linked.induct)
  case (2 it pv p u bs e)
  then show ?case using linked_end [of it p bs e] by (auto split: if_splits)
qed simp

text \<open>The headers that an allocation writes: those inside the free block that it takes, and the one behind that block.\<close>

lemma lfree_loop_items: "lfree_loop fuel m = Inr m' \<Longrightarrow> items m' = items m"
  by (induction fuel m rule: lfree_loop.induct) (auto simp: bindR_eq_Inr split: if_splits)

lemma finish_take_frame:
  assumes "finish_take p sz m1 = Inr (r, m')"
  shows "r = Some (p + 12) \<and> (k \<noteq> p \<longrightarrow> items m' k = items m1 k)"
proof -
  obtain i where "get_item m1 p = Inr i" using assms by (auto simp: finish_take_def bindR_eq_Inr)
  define m2 where "m2 = set_item p (i\<lparr>pool_ok := True, pool_used := True\<rparr>) m1"
  define walk where "walk = (if p = lfree m2 then bindR (lfree_loop (walk_fuel m2) m2)
        (\<lambda>m3. bindR (get_item m3 (lfree m3)) (\<lambda>j. if lfree m3 = heap_end m3 \<or> \<not> pool_used j then Inr m3 else Inl Assert_failed))
      else Inr m2)"
  obtain m3 where m3: "walk = Inr m3" and r: "r = Some (p + 12)" "m' = m3"
    using assms unfolding finish_take_def \<open>get_item m1 p = Inr i\<close> bindR_simps Let_def m2_def [symmetric] walk_def [symmetric]
    by (auto simp: bindR_eq_Inr split: if_split_asm)
  have "items m3 = items m2"
    using m3 lfree_loop_items [of "walk_fuel m2" m2] by (auto simp: walk_def bindR_eq_Inr split: if_split_asm)
  with r show ?thesis by (simp add: m2_def set_item_def)
qed

lemma split_item_frame:
  "split_item m p i p2 = Inr m1 \<Longrightarrow> k \<notin> {p, p2, item_next i} \<Longrightarrow> items m1 k = items m k"
  by (auto simp: split_item_def set_prev_def set_item_def get_item_def Let_def split: if_splits option.splits)

lemma take_item_frame:
  assumes "take_item m p i sz = Inr (r, m')" and "items m' k \<noteq> items m k"
    and "item_next i < 2 ^ 32" "p + 12 \<le> item_next i"
  shows "r = Some (p + 12) \<and> (p \<le> k \<and> k + 12 \<le> item_next i \<or> k = item_next i)"
proof -
  have w: "wsub (item_next i) (p + 12) = item_next i - (p + 12)" using assms(3,4) by (intro wsub_le) auto
  show ?thesis
  proof (cases "item_next i - (p + 12) \<ge> sz + 24")
    case True
    then obtain m1 where "split_item m p i (p + 12 + sz) = Inr m1"
      "finish_take p sz (raise_max (m1\<lparr>mem_used := wadd (mem_used m1) (sz + 12)\<rparr>)) = Inr (r, m')"
      using assms(1) by (auto simp: take_item_def w bindR_eq_Inr add.commute)
    note f = finish_take_frame [OF this(2), of k] split_item_frame [OF this(1), of k]
    have "k \<in> {p, p + 12 + sz, item_next i}"
    proof (rule ccontr)
      assume k: "k \<notin> {p, p + 12 + sz, item_next i}"
      with f(1) f(2) [OF k] assms(2) show False by simp
    qed
    with f(1) True assms(4) show ?thesis by auto
  next
    case False
    then have "finish_take p sz (raise_max (m\<lparr>mem_used := wadd (mem_used m) (wsub (item_next i) p)\<rparr>)) = Inr (r, m')"
      using assms(1) by (simp add: take_item_def w add.commute)
    from finish_take_frame [OF this, of k] assms(2,4) show ?thesis by auto
  qed
qed

lemma alloc_loop_takes:
  "alloc_loop fuel m ptr sz = Inr (Some q, m') \<Longrightarrow>
    \<exists>p i. items m p = Some i \<and> take_item m p i sz = Inr (Some q, m')"
  by (induction fuel m ptr sz rule: alloc_loop.induct) (auto simp: bindR_eq_Inr get_item_def split: if_splits option.splits)

text \<open>C38: A block handed out has at least the size asked for, lies inside the heap, and neither it nor its header
  overlaps a block that is in use; the blocks in use before are in use unchanged: no byte of the heap that clients see
  is written, and no header is written over a byte of theirs.
\<close>

theorem smem_alloc_disjoint:
  assumes "smem_inv m bs" and "0 < n" "n + 3 < 2 ^ 32" and "12 \<le> mem_size_aligned m"
    and "rt_smem_alloc m n = Inr (Some q, m1)"
  shows "\<exists>bs1 r. smem_inv m1 bs1 \<and> q + n \<le> r \<and> r \<le> heap_end m \<and> 4 dvd q \<and>
    in_use bs1 (heap_end m) = insert (q, r) (in_use bs (heap_end m)) \<and>
    (\<forall>(a, b) \<in> in_use bs (heap_end m). b + 12 \<le> q \<or> r + 12 \<le> a) \<and> heap_data m1 = heap_data m \<and>
    (\<forall>k. items m1 k \<noteq> items m k \<longrightarrow> (\<forall>(a, b) \<in> in_use bs (heap_end m). k + 12 \<le> a \<or> b \<le> k))"
proof -
  let ?e = "heap_end m"
  obtain xs p ys where bs: "bs = xs @ (p, False) # ys" and q: "q = p + 12"
    and inv: "smem_inv m1 (xs @ cut p (block_size n) ys ?e)" and room: "p + 12 + block_size n \<le> block_end ys ?e"
    and data: "heap_data m1 = heap_data m"
    using smem_alloc_result [OF assms(1-4)] assms(5) by (auto simp: alloc_outcome_def)
  have l: "laid_out m (xs @ (p, False) # ys)" using assms(1) by (simp add: smem_inv_def bs)
  note P = laid_out_at [OF l]
  define r where "r = (if p + 12 + block_size n + 24 \<le> block_end ys ?e then p + 12 + block_size n else block_end ys ?e)"
  have n: "n \<le> block_size n" using size_up_small(2) [OF assms(3)] by (simp add: block_size_def)
  have r: "q + n \<le> r" "r \<le> block_end ys ?e" using room n by (auto simp: r_def q)
  have u: "in_use (xs @ cut p (block_size n) ys ?e) ?e = insert (q, r) (in_use bs ?e)"
    by (auto simp: cut_def bs in_use_append r_def q)
  have d: "b + 12 \<le> q \<or> r + 12 \<le> a" if "(a, b) \<in> in_use bs ?e" for a b
    using that in_use_range [OF laid_out_parts(1) [OF l], of a b] in_use_range [OF laid_out_parts(2) [OF l], of a b] r(2) q
    by (auto simp: bs in_use_append)
  have h: "k + 12 \<le> a \<or> b \<le> k" if k: "items m1 k \<noteq> items m k" and ab: "(a, b) \<in> in_use bs ?e" for k a b
  proof -
    obtain sz p' i where t: "items m p' = Some i" "take_item m p' i sz = Inr (Some q, m1)"
      using alloc_loop_takes assms(5) by (fastforce simp: rt_smem_alloc_def Let_def split: if_splits)
    have "p' = p"
    proof -
      obtain m0 where "finish_take p' sz m0 = Inr (Some q, m1)"
        using t(2) by (auto simp: take_item_def bindR_eq_Inr)
      from finish_take_frame [OF this] q show ?thesis by simp
    qed
    with t(1) P(1) have n: "item_next i = block_end ys ?e" by auto
    have "?e < 2 ^ 32" by (rule used_bound(2) [OF l])
    with take_item_frame [OF t(2) k] n P(3,4) \<open>p' = p\<close> have "p \<le> k \<and> k + 12 \<le> block_end ys ?e \<or> k = block_end ys ?e" by simp
    then show ?thesis
      using ab in_use_range [OF laid_out_parts(1) [OF l], of a b] in_use_range [OF laid_out_parts(2) [OF l], of a b] P(3)
      by (auto simp: bs in_use_append)
  qed
  then have heads: "\<forall>k. items m1 k \<noteq> items m k \<longrightarrow> (\<forall>(a, b) \<in> in_use bs ?e. k + 12 \<le> a \<or> b \<le> k)" by blast
  show ?thesis using inv u r d P(2,4) q data heads
    by (intro exI [of _ "xs @ cut p (block_size n) ys ?e"] exI [of _ r]) auto
qed

lemma lfree_lowered:
  assumes "\<And>q v. (q, v) \<in> set xs \<Longrightarrow> q < p" and "p < f"
  shows "(if p < first_free xs f then p else first_free xs f) = first_free xs p"
  using assms(1)
proof (induction xs)
  case (Cons b xs)
  obtain q u where b: "b = (q, u)" by (cases b)
  have "q < p" using Cons.prems [of q u] b by simp
  moreover have "(if p < first_free xs f then p else first_free xs f) = first_free xs p"
    by (rule Cons.IH) (use Cons.prems in auto)
  ultimately show ?case using b by auto
qed (simp add: assms(2))

subsection \<open>The pointers that clients hold\<close>

definition live :: "blocks \<Rightarrow> nat set" where
  "live bs = {p + 12 | p. (p, True) \<in> set bs}"

lemma live_append: "live [] = {}" "live (xs @ ys) = live xs \<union> live ys" "live ((p, u) # ys) = (if u then {p + 12} else {}) \<union> live ys"
  by (auto simp: live_def)

lemma live_give_back: "live (give_back xs p ys) = live xs \<union> live ys"
proof -
  have "live (if ys \<noteq> [] \<and> \<not> snd (hd ys) then tl ys else ys) = live ys"
    by (cases ys; cases "hd ys") (auto simp: live_append)
  then show ?thesis by (auto simp: give_back_def live_append Let_def)
qed

lemma live_without:
  assumes "laid_out m (xs @ (p, u) # ys)"
  shows "live xs \<union> live ys = live (xs @ (p, u) # ys) - {p + 12}"
proof -
  have "p + 12 \<notin> live xs" "p + 12 \<notin> live ys" using laid_out_at(5,6) [OF assms] by (fastforce simp: live_def)+
  then show ?thesis by (auto simp: live_append)
qed

subsection \<open>Resizing a block\<close>

lemma first_free_behind:
  "linked it p ys e \<Longrightarrow> q \<le> block_end ys e \<Longrightarrow> q \<le> first_free ys e"
  using first_free_range [of it p ys e] linked_range [of it p ys e] linked_end [of it p ys e] by fastforce

text \<open>Shrinking a block in place.\<close>

lemma realloc_shrink:
  assumes inv: "smem_inv m (xs @ (p, True) # ys)" and ns: "4 dvd ns" "0 < ns"
    and room: "p + 12 + ns + 24 < block_end ys (heap_end m)" and ip: "items m p = Some ip"
  shows "\<exists>m1 m2. split_item (m\<lparr>mem_used := wsub (mem_used m) (block_end ys (heap_end m) - p - 12 - ns)\<rparr>) p ip (p + 12 + ns) = Inr m1 \<and>
    plug_holes (if p + 12 + ns < lfree m1 then m1\<lparr>lfree := p + 12 + ns\<rparr> else m1) (p + 12 + ns) = Inr m2 \<and>
    smem_inv m2 (give_back (xs @ [(p, True)]) (p + 12 + ns) ys) \<and> heap_end m2 = heap_end m \<and> heap_data m2 = heap_data m"
proof -
  let ?e = "heap_end m" and ?n = "block_end ys (heap_end m)" and ?q = "p + 12 + ns"
  let ?xs = "xs @ [(p, True)]"
  have l: "laid_out m (xs @ (p, True) # ys)" and na: "no_adjacent (xs @ (p, True) # ys)"
    and lf: "lfree m = first_free (xs @ (p, True) # ys) ?e" and us: "mem_used m = bytes_used (xs @ (p, True) # ys) ?e"
    and mx: "mem_used m \<le> mem_max m"
    using inv by (simp_all add: smem_inv_def)
  note P = laid_out_at [OF l]
  let ?w = "wsub (mem_used m) (?n - p - 12 - ns)"
  have used: "mem_used m = bytes_used xs p + (?n - p) + bytes_used ys ?e" using us by (simp add: bytes_used_append)
  then have "?n - p - 12 - ns \<le> mem_used m" by simp
  then have w: "?w = mem_used m - (?n - p - 12 - ns)"
    using used_bound [OF l] us by (intro wsub_le) auto
  have ns4: "4 \<le> ns" using ns by (auto elim: dvdE)
  have "4 dvd ?q" using P(2) ns(1) by presburger
  then obtain m1 where m1: "split_item (m\<lparr>mem_used := ?w\<rparr>) p ip ?q = Inr m1"
    "laid_out m1 (xs @ (p, True) # (?q, False) # ys)" "same_misc (m\<lparr>mem_used := ?w\<rparr>) m1" "lfree m1 = lfree m"
    using split_item_result [of "m\<lparr>mem_used := ?w\<rparr>" xs p True ys ?q ip] l room ns4 ip by auto
  define m2 where "m2 = (if ?q < lfree m1 then m1\<lparr>lfree := ?q\<rparr> else m1)"
  have m2: "laid_out m2 (?xs @ (?q, False) # ys)" "heap_end m2 = ?e" "heap_data m2 = heap_data m"
    "mem_used m2 = ?w" "mem_max m2 = mem_max m" "lfree m2 = (if ?q < lfree m then ?q else lfree m)"
    using m1(2,3,4) by (simp_all add: m2_def same_misc_def)
  have na': "no_adjacent ?xs" "no_adjacent ys"
    using na by (auto simp: no_adjacent_def successively_append_iff successively_Cons)
  have "?q < first_free ys ?e"
    using first_free_behind [OF laid_out_parts(2) [OF l], of "Suc ?q"] room by simp
  then have lf': "lfree m2 = first_free ?xs ?q"
    using lfree_lowered [of ?xs ?q "first_free ys ?e"] P(5) lf m2(6) by (fastforce simp: first_free_append)
  have us': "mem_used m2 = bytes_used ?xs ?q + bytes_used ys (heap_end m2)"
  proof -
    have "bytes_used ?xs ?q = bytes_used xs p + (12 + ns)" by (simp add: bytes_used_append)
    then show ?thesis unfolding m2(2,4) w using used room by arith
  qed
  have mx': "mem_used m2 \<le> mem_max m2" unfolding m2(4,5) w using mx by arith
  from plug_holes_result [OF m2(1) na' lf' us' mx'] obtain m3 where
    "plug_holes m2 ?q = Inr m3" "smem_inv m3 (give_back ?xs ?q ys)" "same_misc m2 m3" by blast
  with m1(1) m2 show ?thesis
    by (intro exI [of _ m1] exI [of _ m3]) (simp add: m2_def same_misc_def)
qed

lemma inv_used_block:
  assumes "smem_inv m bs" and "(p, True) \<in> set bs"
  obtains xs ys where "bs = xs @ (p, True) # ys"
  using assms(2) by (meson split_list)

lemma copy_data_inv: "smem_inv (copy_data d s n m) bs = smem_inv m bs"
  by (simp add: smem_inv_def copy_data_def)

text \<open>Resizing a block in use never faults, keeps the heap well-formed, and when it returns a block, its bytes
  are those of the old one up to the smaller of the two sizes.
\<close>

theorem smem_realloc_result:
  assumes inv: "smem_inv m (xs @ (p, True) # ys)" and n: "n + 3 < 2 ^ 32" and big: "12 \<le> mem_size_aligned m"
  shows "\<exists>r m' bs'. rt_smem_realloc m (Some (p + 12)) n = Inr (r, m') \<and> smem_inv m' bs' \<and> heap_end m' = heap_end m \<and>
    live bs' = (case r of
        Some q \<Rightarrow> insert q (live (xs @ (p, True) # ys) - {p + 12})
      | None \<Rightarrow> live (xs @ (p, True) # ys) - (if n = 0 then {p + 12} else {})) \<and>
    (\<forall>q k. r = Some q \<longrightarrow> k < min n (block_end ys (heap_end m) - (p + 12)) \<longrightarrow> heap_data m' (q + k) = heap_data m (p + 12 + k))"
proof -
  let ?e = "heap_end m" and ?n = "block_end ys (heap_end m)" and ?ns = "size_up n"
  have l: "laid_out m (xs @ (p, True) # ys)" using inv by (simp add: smem_inv_def)
  note P = laid_out_at [OF l]
  have less: "?e < 2 ^ 32" by (rule used_bound(2) [OF l])
  define ip where "ip = \<lparr>pool_ok = True, pool_used = True, item_next = ?n, item_prev = last_off 0 xs\<rparr>"
  have ip: "items m p = Some ip" and nx: "item_next ip = ?n" using P(1) by (simp_all add: ip_def)
  have sz: "wsub (wsub ?n p) 12 = ?n - p - 12" using P(3,4) less by (simp add: wsub_le)
  have ok: "(p + 12) mod 4 = 0" "p + 12 < ?e" using P(2,4) laid_out_data [OF l] by presburger+
  note A = size_up_small [OF n]
  have zero_iff: "?ns = 0 \<longleftrightarrow> n = 0" using A(1,2) by (cases "n = 0") auto
  let ?bs = "xs @ (p, True) # ys"
  have mem: "p + 12 \<in> live ?bs" by (simp add: live_append)
  consider (large) "?ns > mem_size_aligned m" | (zero) "?ns = 0" "\<not> ?ns > mem_size_aligned m"
    | (same) "?n - p - 12 = ?ns" "?ns \<noteq> 0" "\<not> ?ns > mem_size_aligned m"
    | (shrink) "?ns + 24 < ?n - p - 12" "?n - p - 12 \<noteq> ?ns" "?ns \<noteq> 0" "\<not> ?ns > mem_size_aligned m"
    | (move) "\<not> ?ns + 24 < ?n - p - 12" "?n - p - 12 \<noteq> ?ns" "?ns \<noteq> 0" "\<not> ?ns > mem_size_aligned m"
    by blast
  then show ?thesis
  proof cases
    case large
    then show ?thesis using inv zero_iff
      by (intro exI [of _ None] exI [of _ m] exI [of _ ?bs]) (auto simp: rt_smem_realloc_def)
  next
    case zero
    obtain m' where "rt_smem_free m (Some (p + 12)) = Inr m'" "smem_inv m' (give_back xs p ys)" "heap_end m' = ?e"
      using smem_free_result [OF inv] by blast
    then show ?thesis using live_without [OF l] zero zero_iff
      by (intro exI [of _ None] exI [of _ m'] exI [of _ "give_back xs p ys"]) (simp add: rt_smem_realloc_def live_give_back)
  next
    case same
    then have "rt_smem_realloc m (Some (p + 12)) n = Inr (Some (p + 12), m)"
      using ip ok by (simp add: rt_smem_realloc_def nx sz Let_def cong: if_cong option.case_cong)
    then show ?thesis using inv mem by (intro exI [of _ "Some (p + 12)"] exI [of _ m] exI [of _ ?bs]) auto
  next
    case shrink
    have room: "p + 12 + ?ns + 24 < ?n" using shrink(1) by arith
    from realloc_shrink [OF inv A(3) _ room ip] shrink(3) obtain m1 m2 where s:
      "split_item (m\<lparr>mem_used := wsub (mem_used m) (?n - p - 12 - ?ns)\<rparr>) p ip (p + 12 + ?ns) = Inr m1"
      "plug_holes (if p + 12 + ?ns < lfree m1 then m1\<lparr>lfree := p + 12 + ?ns\<rparr> else m1) (p + 12 + ?ns) = Inr m2"
      "smem_inv m2 (give_back (xs @ [(p, True)]) (p + 12 + ?ns) ys)" "heap_data m2 = heap_data m" "heap_end m2 = ?e"
      by auto
    then have "rt_smem_realloc m (Some (p + 12)) n = Inr (Some (p + 12), m2)"
      using shrink ip ok by (simp add: rt_smem_realloc_def nx sz Let_def cong: if_cong option.case_cong)
    moreover have "live (give_back (xs @ [(p, True)]) (p + 12 + ?ns) ys) = insert (p + 12) (live ?bs - {p + 12})"
      using mem by (auto simp: live_give_back live_append)
    ultimately show ?thesis using s(3-5)
      by (intro exI [of _ "Some (p + 12)"] exI [of _ m2] exI [of _ "give_back (xs @ [(p, True)]) (p + 12 + ?ns) ys"]) simp
  next
    case move
    let ?k = "if ?n - p - 12 < ?ns then ?n - p - 12 else ?ns"
    have step: "rt_smem_realloc m (Some (p + 12)) n =
        bindR (rt_smem_alloc m ?ns)
          (\<lambda>(nmem, m1). case nmem of None \<Rightarrow> Inr (None, m1)
             | Some np \<Rightarrow> bindR (rt_smem_free (copy_data np (p + 12) ?k m1) (Some (p + 12))) (\<lambda>m2. Inr (Some np, m2)))"
      using move ip ok by (simp add: rt_smem_realloc_def nx sz Let_def cong: if_cong option.case_cong)
    have ns3: "?ns + 3 < 2 ^ 32" using move(4) less l by (simp add: laid_out_def)
    from smem_alloc_result [OF inv _ ns3 big] move(3)
    have out: "alloc_outcome m (xs @ (p, True) # ys) (block_size ?ns) (rt_smem_alloc m ?ns)" by simp
    show ?thesis
    proof (cases "rt_smem_alloc m ?ns = Inr (None, m)")
      case True
      then have "rt_smem_realloc m (Some (p + 12)) n = Inr (None, m)" using step by simp
      then show ?thesis using inv move(3) zero_iff
        by (intro exI [of _ None] exI [of _ m] exI [of _ ?bs]) simp
    next
      case False
      with out obtain as q cs m1 where o: "xs @ (p, True) # ys = as @ (q, False) # cs"
        "rt_smem_alloc m ?ns = Inr (Some (q + 12), m1)" "smem_inv m1 (as @ cut q (block_size ?ns) cs ?e)"
        "heap_end m1 = ?e" "heap_data m1 = heap_data m" "q + 12 + block_size ?ns \<le> block_end cs ?e"
        by (auto simp: alloc_outcome_def)
      have "(p, True) \<in> set (as @ (q, False) # cs)" unfolding o(1) [symmetric] by simp
      then have "(p, True) \<in> set (as @ cut q (block_size ?ns) cs ?e)" by (auto simp: cut_def)
      then obtain us vs where uv: "as @ cut q (block_size ?ns) cs ?e = us @ (p, True) # vs" by (meson split_list)
      let ?c = "copy_data (q + 12) (p + 12) ?k m1"
      have "smem_inv ?c (us @ (p, True) # vs)" using o(3) by (simp add: copy_data_inv uv)
      from smem_free_result [OF this] obtain m2 where m2: "rt_smem_free ?c (Some (p + 12)) = Inr m2"
        "smem_inv m2 (give_back us p vs)" "heap_data m2 = heap_data ?c" "heap_end m2 = heap_end ?c" by blast
      have "heap_data m2 (q + 12 + k) = heap_data m (p + 12 + k)" if "k < min n (?n - (p + 12))" for k
        using that A(2) by (simp add: m2(3) copy_data_def o(5))
      moreover have "live (give_back us p vs) = insert (q + 12) (live ?bs - {p + 12})"
      proof -
        have "laid_out ?c (us @ (p, True) # vs)" using \<open>smem_inv ?c _\<close> by (simp add: smem_inv_def)
        then have "live (give_back us p vs) = live (as @ cut q (block_size ?ns) cs ?e) - {p + 12}"
          unfolding live_give_back live_without uv by (rule live_without)
        moreover have "live (as @ cut q (block_size ?ns) cs ?e) = insert (q + 12) (live ?bs)"
          unfolding o(1) by (auto simp: live_append cut_def)
        moreover have "laid_out m (as @ (q, False) # cs)" using l o(1) by simp
        then have "q \<noteq> p"
          using laid_out_at(1) [OF \<open>laid_out m (as @ (q, False) # cs)\<close>] P(1) by auto
        ultimately show ?thesis by auto
      qed
      moreover have "heap_end m2 = ?e" using m2(4) o(4) by (simp add: copy_data_def)
      ultimately show ?thesis using step o(2) m2(1,2)
        by (intro exI [of _ "Some (q + 12)"] exI [of _ m2] exI [of _ "give_back us p vs"]) simp
    qed
  qed
qed

subsection \<open>Every client that keeps to its pointers\<close>

lemma smem_init_result:
  assumes "rt_smem_init sizeof_mem dat a sz = Some m"
  shows "smem_inv m [(0, False)]" and "heap_data m = dat"
proof -
  define sa where "sa = wadd (size_up a) sizeof_mem"
  define ba where "ba = size_up sa"
  define ea where "ea = size_down (wadd a sz)"
  define ms where "ms = wsub (wsub ea ba) 24"
  have c: "ea > 24" "ea - 24 \<ge> sa"
    and m: "m = \<lparr>heap_end = ms + 12, lfree = 0, mem_size_aligned = ms, mem_used = 0, mem_max = 0,
      items = [0 \<mapsto> \<lparr>pool_ok = True, pool_used = False, item_next = ms + 12, item_prev = 0\<rparr>,
               ms + 12 \<mapsto> \<lparr>pool_ok = True, pool_used = True, item_next = ms + 12, item_prev = ms + 12\<rparr>],
      heap_data = dat\<rparr>"
    using assms by (auto simp: rt_smem_init_def Let_def sa_def ba_def ea_def ms_def split: if_splits)
  have e: "ea < 2 ^ 32" "4 dvd ea"
    by (auto simp: ea_def size_down_eq wadd_def intro: le_less_trans [OF div_times_less_eq_dividend])
  have "sa + 3 < 2 ^ 32" using c e(1) by simp
  from size_up_small [OF this] have b: "ba = (sa + 3) div 4 * 4" "4 dvd ba" by (simp_all add: ba_def)
  have "ba \<le> ea - 24"
  proof -
    obtain k where k: "ea = 4 * k" using e(2) by (auto elim: dvdE)
    then have "(sa + 3) div 4 \<le> k - 6" using c by linarith
    then show ?thesis using b(1) k by simp
  qed
  then have ms: "ms = ea - ba - 24" "ms + 12 < 2 ^ 32"
    using c e(1) by (auto simp: ms_def wsub_le)
  have "4 dvd ms" unfolding ms(1) using e(2) b(2) by (intro dvd_diff_nat) auto
  then show "smem_inv m [(0, False)]"
    using ms(2) by (simp add: m smem_inv_def laid_out_def end_ok_def no_adjacent_def)
  show "heap_data m = dat" by (simp add: m)
qed

text \<open>The states that a client reaches with the pointers it holds; a request for no bytes is among the calls.\<close>

inductive smem_reach :: "rt_small_mem \<Rightarrow> nat set \<Rightarrow> bool" where
  init: "rt_smem_init sizeof_mem dat a sz = Some m \<Longrightarrow> 12 \<le> mem_size_aligned m \<Longrightarrow> smem_reach m {}"
| alloc: "smem_reach m L \<Longrightarrow> n + 3 < 2 ^ 32 \<Longrightarrow> rt_smem_alloc m n = Inr (r, m') \<Longrightarrow>
    smem_reach m' (case r of None \<Rightarrow> L | Some q \<Rightarrow> insert q L)"
| free: "smem_reach m L \<Longrightarrow> q \<in> L \<Longrightarrow> rt_smem_free m (Some q) = Inr m' \<Longrightarrow> smem_reach m' (L - {q})"
| realloc: "smem_reach m L \<Longrightarrow> q \<in> L \<Longrightarrow> n + 3 < 2 ^ 32 \<Longrightarrow> rt_smem_realloc m (Some q) n = Inr (r, m') \<Longrightarrow>
    smem_reach m' (case r of None \<Rightarrow> L - (if n = 0 then {q} else {}) | Some q' \<Rightarrow> insert q' (L - {q}))"
| client_write: "smem_reach m L \<Longrightarrow> smem_reach (m\<lparr>heap_data := dat\<rparr>) L"

definition smem_ok :: "rt_small_mem \<Rightarrow> nat set \<Rightarrow> bool" where
  "smem_ok m L \<longleftrightarrow> 12 \<le> mem_size_aligned m \<and> (\<exists>bs. smem_inv m bs \<and> L = live bs)"

lemma smem_okI:
  assumes "smem_inv m' bs'" and "smem_inv m bs" and "heap_end m' = heap_end m" and "12 \<le> mem_size_aligned m"
  shows "smem_ok m' (live bs')"
proof -
  have "heap_end m = mem_size_aligned m + 12" "heap_end m' = mem_size_aligned m' + 12"
    using assms(1,2) unfolding smem_inv_def laid_out_def by blast+
  then show ?thesis using assms by (auto simp: smem_ok_def)
qed

lemma smem_zero [simp]: "rt_smem_alloc m 0 = Inr (None, m)"
  by (simp add: rt_smem_alloc_def)

lemma smem_alloc_ok:
  assumes "smem_ok m L" and "n + 3 < 2 ^ 32"
  shows "\<exists>r m'. rt_smem_alloc m n = Inr (r, m') \<and> smem_ok m' (case r of None \<Rightarrow> L | Some q \<Rightarrow> insert q L)"
proof (cases "n = 0")
  case True
  then show ?thesis using assms(1) by auto
next
  case False
  obtain bs where bs: "smem_inv m bs" "L = live bs" "12 \<le> mem_size_aligned m" using assms(1) by (auto simp: smem_ok_def)
  from smem_alloc_result [OF bs(1) _ assms(2) bs(3)] False
  have "alloc_outcome m bs (block_size n) (rt_smem_alloc m n)" by simp
  then consider "rt_smem_alloc m n = Inr (None, m)"
    | xs p ys m' where "bs = xs @ (p, False) # ys" "rt_smem_alloc m n = Inr (Some (p + 12), m')"
        "smem_inv m' (xs @ cut p (block_size n) ys (heap_end m))" "heap_end m' = heap_end m"
    unfolding alloc_outcome_def by blast
  then show ?thesis
  proof cases
    case 1
    then show ?thesis using assms(1) by auto
  next
    case (2 xs p ys m')
    have "live (xs @ cut p (block_size n) ys (heap_end m)) = insert (p + 12) L"
      by (auto simp: live_append cut_def bs(2) 2(1))
    with smem_okI [OF 2(3) bs(1) 2(4) bs(3)] 2(2) show ?thesis by auto
  qed
qed

lemma smem_free_ok:
  assumes "smem_ok m L" and "q \<in> L"
  shows "\<exists>m'. rt_smem_free m (Some q) = Inr m' \<and> smem_ok m' (L - {q})"
proof -
  obtain bs where bs: "smem_inv m bs" "L = live bs" "12 \<le> mem_size_aligned m" using assms(1) by (auto simp: smem_ok_def)
  obtain xs p ys where p: "q = p + 12" "bs = xs @ (p, True) # ys"
    using assms(2) bs(2) by (auto simp: live_def dest: split_list)
  from smem_free_result [of m xs p ys] bs(1) p obtain m' where
    m': "rt_smem_free m (Some q) = Inr m'" "smem_inv m' (give_back xs p ys)" "heap_end m' = heap_end m" by blast
  have "laid_out m (xs @ (p, True) # ys)" using bs(1) p(2) by (simp add: smem_inv_def)
  from live_without [OF this] have "live (give_back xs p ys) = L - {q}" by (simp add: live_give_back bs(2) p)
  with smem_okI [OF m'(2) bs(1) m'(3) bs(3)] m'(1) show ?thesis by auto
qed

lemma smem_realloc_ok:
  assumes "smem_ok m L" and "q \<in> L" and "n + 3 < 2 ^ 32"
  shows "\<exists>r m'. rt_smem_realloc m (Some q) n = Inr (r, m') \<and>
    smem_ok m' (case r of None \<Rightarrow> L - (if n = 0 then {q} else {}) | Some q' \<Rightarrow> insert q' (L - {q}))"
proof -
  obtain bs where bs: "smem_inv m bs" "L = live bs" "12 \<le> mem_size_aligned m" using assms(1) by (auto simp: smem_ok_def)
  obtain xs p ys where p: "q = p + 12" "bs = xs @ (p, True) # ys"
    using assms(2) bs(2) by (auto simp: live_def dest: split_list)
  from smem_realloc_result [of m xs p ys n] bs(1,3) p assms(3) obtain r m' bs' where
    r: "rt_smem_realloc m (Some q) n = Inr (r, m')" "smem_inv m' bs'" "heap_end m' = heap_end m"
    "live bs' = (case r of Some q' \<Rightarrow> insert q' (L - {q}) | None \<Rightarrow> L - (if n = 0 then {q} else {}))"
    unfolding bs(2) p by blast
  from smem_okI [OF r(2) bs(1) r(3) bs(3)] r(1,4) show ?thesis by (auto split: option.split)
qed

lemma smem_reach_ok: "smem_reach m L \<Longrightarrow> smem_ok m L"
proof (induction rule: smem_reach.induct)
  case (init sizeof_mem dat a sz m)
  then show ?case using smem_init_result [OF init(1)] by (auto simp: smem_ok_def live_def intro!: exI [of _ "[(0, False)]"])
next
  case (alloc m L n r m')
  then show ?case using smem_alloc_ok [of m L n] by auto
next
  case (free m L q m')
  then show ?case using smem_free_ok [of m L q] by auto
next
  case (realloc m L q n r m')
  then show ?case using smem_realloc_ok [of m L q n] by auto
next
  case (client_write m L dat)
  then show ?case by (auto simp: smem_ok_def smem_inv_def)
qed

lemma client_calls:
  assumes "smem_reach m L"
  shows "n + 3 < 2 ^ 32 \<Longrightarrow> \<exists>r. rt_smem_alloc m n = Inr r"
    and "q \<in> L \<Longrightarrow> \<exists>m'. rt_smem_free m (Some q) = Inr m'"
    and "q \<in> L \<Longrightarrow> n + 3 < 2 ^ 32 \<Longrightarrow> \<exists>r. rt_smem_realloc m (Some q) n = Inr r"
    and "L = {} \<Longrightarrow> smem_inv m [(0, False)] \<and> mem_used m = 0"
proof -
  note ok = smem_reach_ok [OF assms]
  show "n + 3 < 2 ^ 32 \<Longrightarrow> \<exists>r. rt_smem_alloc m n = Inr r" using smem_alloc_ok [OF ok, of n] by auto
  show "q \<in> L \<Longrightarrow> \<exists>m'. rt_smem_free m (Some q) = Inr m'" using smem_free_ok [OF ok, of q] by auto
  show "q \<in> L \<Longrightarrow> n + 3 < 2 ^ 32 \<Longrightarrow> \<exists>r. rt_smem_realloc m (Some q) n = Inr r"
    using smem_realloc_ok [OF ok, of q n] by auto
  assume "L = {}"
  then obtain bs where bs: "smem_inv m bs" "live bs = {}" using ok by (auto simp: smem_ok_def)
  have free: "\<not> snd b" if "b \<in> set bs" for b
  proof
    assume "snd b"
    then have "(fst b, True) \<in> set bs" using that by (metis prod.collapse)
    then show False using bs(2) by (auto simp: live_def)
  qed
  have "block_end bs (heap_end m) = 0" "heap_end m \<noteq> 0" and na: "no_adjacent bs"
    using bs(1) unfolding smem_inv_def laid_out_def by auto
  then obtain u cs where cs: "bs = (0, u) # cs" by (cases bs) auto
  have "\<not> u" using free [of "(0, u)"] by (simp add: cs)
  moreover have "\<not> snd (hd cs)" if "cs \<noteq> []" using that free [of "hd cs"] by (simp add: cs)
  ultimately have "cs = []" using na by (auto simp: cs no_adjacent_def successively_Cons)
  then show "smem_inv m [(0, False)] \<and> mem_used m = 0" using bs(1) \<open>\<not> u\<close> by (auto simp: smem_inv_def cs)
qed

text \<open>C37: As long as a client releases and resizes only blocks it holds, no call faults, fails an assertion or loops,
  whatever it writes into its blocks; and once it holds nothing the heap is one free block again.
\<close>

theorem smem_client_safe:
  assumes "smem_reach m L"
  shows "(\<forall>n. n + 3 < 2 ^ 32 \<longrightarrow> (\<exists>r. rt_smem_alloc m n = Inr r)) \<and>
    (\<forall>q. q \<in> L \<longrightarrow> (\<exists>m'. rt_smem_free m (Some q) = Inr m')) \<and>
    (\<forall>q n. q \<in> L \<longrightarrow> n + 3 < 2 ^ 32 \<longrightarrow> (\<exists>r. rt_smem_realloc m (Some q) n = Inr r)) \<and>
    (L = {} \<longrightarrow> smem_inv m [(0, False)] \<and> mem_used m = 0)"
  using client_calls [OF assms] by blast

subsection \<open>Requests the code does not expect\<close>

text \<open>
  Rounding a request of more than \<open>2 ^ 32 - 4\<close> bytes up wraps to zero: the allocator takes it for the smallest
  request and returns a block of twelve bytes.
\<close>

theorem smem_alloc_wraps:
  assumes "2 ^ 32 - 4 < n" "n < 2 ^ 32" and "4 \<le> mem_size_aligned m"
  shows "rt_smem_alloc m n = rt_smem_alloc m 1"
proof -
  have "(n + 3) mod 2 ^ 32 = n + 3 - 2 ^ 32" using assms(1,2) by (subst le_mod_geq) simp_all
  then have "(n + 3) mod 2 ^ 32 div 4 = 0" using assms(2) by simp
  then have "size_up n = 0" by (simp add: size_up_eq add.commute)
  then show ?thesis using assms by (simp add: rt_smem_alloc_def size_up_eq)
qed

text \<open>
  A heap with less than twelve bytes of data: the smallest block does not fit, the subtraction in the loop
  condition wraps, and the walk never leaves the header at the end of the heap.
\<close>

lemma wsub_wraps: "a < b \<Longrightarrow> b \<le> 2 ^ 32 \<Longrightarrow> wsub a b = 2 ^ 32 + a - b"
proof -
  assume ab: "a < b" "b \<le> 2 ^ 32"
  have "(int a - int b) mod 2 ^ 32 = (int a - int b + 2 ^ 32) mod 2 ^ 32" by simp
  also have "\<dots> = int a - int b + 2 ^ 32" using ab by (intro mod_pos_pos_trivial) simp_all
  finally show ?thesis using ab by (simp add: wsub_def)
qed

lemma tiny_loop:
  assumes "smem_inv m [(0, False)]" and "mem_size_aligned m < 12"
  shows "alloc_loop fuel m (heap_end m) 12 = Inl Endless_loop"
proof (induction fuel)
  case (Suc fuel)
  obtain i where i: "items m (heap_end m) = Some i" "pool_used i" "item_next i = heap_end m"
    using assms(1) unfolding smem_inv_def laid_out_def end_ok_def by blast
  have "heap_end m = mem_size_aligned m + 12" using assms(1) unfolding smem_inv_def laid_out_def by blast
  then have "heap_end m \<le> wsub (mem_size_aligned m) 12" using assms(2) by (simp add: wsub_wraps)
  then show ?case using Suc i by simp
qed simp

theorem smem_tiny_heap_loops:
  assumes "smem_inv m [(0, False)]" and "mem_size_aligned m < 12" and "0 < n" "size_up n \<le> mem_size_aligned m"
  shows "rt_smem_alloc m n = Inl Endless_loop"
proof -
  have l: "laid_out m ([] @ (0, False) # [])" and lf: "lfree m = 0" using assms(1) by (simp_all add: smem_inv_def)
  have e: "heap_end m = mem_size_aligned m + 12" "heap_end m < 2 ^ 32" using l unfolding laid_out_def by blast+
  have "wsub (heap_end m) 12 = mem_size_aligned m" using e by (simp add: wsub_le)
  then have "alloc_loop (Suc f) m 0 12 = alloc_loop f m (heap_end m) 12" for f
    using laid_out_at(1) [OF l] assms(2) by simp
  then have "alloc_loop (Suc f) m 0 12 = Inl Endless_loop" for f using tiny_loop [OF assms(1,2)] by simp
  moreover obtain f where "walk_fuel m = Suc f" by (cases "walk_fuel m") (auto simp: walk_fuel_def)
  ultimately show ?thesis using assms(2-4) lf by (simp add: rt_smem_alloc_def)
qed

subsection \<open>Instances\<close>

definition demo_heap :: rt_small_mem where
  "demo_heap =
     \<lparr>heap_end = 112, lfree = 0, mem_size_aligned = 100, mem_used = 0, mem_max = 0,
      items =
        [0 \<mapsto> \<lparr>pool_ok = True, pool_used = False, item_next = 112, item_prev = 0\<rparr>,
         112 \<mapsto> \<lparr>pool_ok = True, pool_used = True, item_next = 112, item_prev = 112\<rparr>],
      heap_data = (\<lambda>a. 0)\<rparr>"

lemma demo_heap_init: "rt_smem_init 40 (\<lambda>a. 0) 1000 164 = Some demo_heap"
  by (simp add: rt_smem_init_def demo_heap_def size_up_eq size_down_eq wadd_def wsub_def Let_def)

lemma demo_heap_inv: "smem_inv demo_heap [(0, False)]" "12 \<le> mem_size_aligned demo_heap"
  using smem_init_result(1) [OF demo_heap_init] by (simp_all add: demo_heap_def)

lemma demo_heap_reach: "smem_reach demo_heap {}"
  by (rule smem_reach.init [OF demo_heap_init demo_heap_inv(2)])

lemma demo_heap_alloc:
  obtains m1 where "rt_smem_alloc demo_heap 20 = Inr (Some 12, m1)" "smem_inv m1 ([] @ (0, True) # [(32, False)])"
    "heap_end m1 = 112"
proof -
  have a: "size_up 20 = 20" by (simp add: size_up_eq)
  have "alloc_outcome demo_heap [(0, False)] 20 (alloc_loop (walk_fuel demo_heap) demo_heap 0 20)"
    using alloc_loop_result [of 20 demo_heap "[]" "[(0, False)]" "walk_fuel demo_heap"] demo_heap_inv(1)
    by (simp add: demo_heap_def walk_fuel_def)
  moreover have "rt_smem_alloc demo_heap 20 = alloc_loop (walk_fuel demo_heap) demo_heap 0 20"
    by (simp add: rt_smem_alloc_def a) (simp add: demo_heap_def)
  ultimately show thesis
    using that by (auto simp: alloc_outcome_def cut_def demo_heap_def Cons_eq_append_conv)
qed

lemma block_size_20: "block_size 20 = 20"
  by (simp add: block_size_def size_up_eq)

theorem smem_client_safe_witness:
  "\<exists>m1. rt_smem_alloc demo_heap 20 = Inr (Some 12, m1) \<and> (\<exists>r. rt_smem_alloc m1 1000 = Inr r) \<and>
     (\<exists>m2. rt_smem_free m1 (Some 12) = Inr m2) \<and> (\<exists>r. rt_smem_realloc m1 (Some 12) 60 = Inr r)"
proof -
  obtain m1 where m1: "rt_smem_alloc demo_heap 20 = Inr (Some 12, m1)" by (rule demo_heap_alloc)
  from smem_reach.alloc [OF demo_heap_reach _ this] have r: "smem_reach m1 {12}" by simp
  note safe = smem_client_safe [OF r]
  have "\<exists>r. rt_smem_alloc m1 1000 = Inr r"
    by (rule safe [THEN conjunct1, THEN spec, THEN mp]) simp
  moreover have "\<exists>m2. rt_smem_free m1 (Some 12) = Inr m2"
    by (rule safe [THEN conjunct2, THEN conjunct1, THEN spec, THEN mp]) simp
  moreover have "\<exists>r. rt_smem_realloc m1 (Some 12) 60 = Inr r"
    by (rule safe [THEN conjunct2, THEN conjunct2, THEN conjunct1, THEN spec, THEN spec, THEN mp, THEN mp]) simp_all
  ultimately show ?thesis using m1 by blast
qed

theorem smem_alloc_result_witness: "alloc_outcome demo_heap [(0, False)] 20 (rt_smem_alloc demo_heap 20)"
  using smem_alloc_result [OF demo_heap_inv(1) _ _ demo_heap_inv(2), of 20] by (simp add: block_size_20)

theorem smem_free_result_witness:
  "\<exists>m1 m2. rt_smem_alloc demo_heap 20 = Inr (Some 12, m1) \<and> rt_smem_free m1 (Some 12) = Inr m2 \<and> smem_inv m2 [(0, False)]"
proof -
  obtain m1 where "rt_smem_alloc demo_heap 20 = Inr (Some 12, m1)" "smem_inv m1 ([] @ (0, True) # [(32, False)])"
    by (rule demo_heap_alloc)
  with smem_free_result [of m1 "[]" 0 "[(32, False)]"] show ?thesis by (auto simp: give_back_def)
qed

theorem smem_alloc_free_witness:
  "\<exists>m1 m2. rt_smem_alloc demo_heap 20 = Inr (Some 12, m1) \<and> rt_smem_free m1 (Some 12) = Inr m2 \<and>
     smem_inv m2 [(0, False)] \<and> mem_used m2 = 0"
proof -
  obtain m1 where m1: "rt_smem_alloc demo_heap 20 = Inr (Some 12, m1)" by (rule demo_heap_alloc)
  from smem_alloc_free [OF demo_heap_inv(1) _ _ demo_heap_inv(2) m1] m1 show ?thesis by (auto simp: demo_heap_def)
qed

theorem smem_alloc_disjoint_witness:
  "\<exists>m1 bs1 r. rt_smem_alloc demo_heap 20 = Inr (Some 12, m1) \<and> smem_inv m1 bs1 \<and> 12 + 20 \<le> r \<and> r \<le> 112 \<and>
     in_use bs1 112 = {(12, r)}"
proof -
  obtain m1 where m1: "rt_smem_alloc demo_heap 20 = Inr (Some 12, m1)" by (rule demo_heap_alloc)
  have "heap_end demo_heap = 112" by (simp add: demo_heap_def)
  with smem_alloc_disjoint [OF demo_heap_inv(1) _ _ demo_heap_inv(2) m1] m1 show ?thesis by auto
qed

theorem smem_realloc_result_witness:
  "\<exists>m1 r m2. rt_smem_alloc demo_heap 20 = Inr (Some 12, m1) \<and> rt_smem_realloc m1 (Some 12) 40 = Inr (r, m2) \<and>
     (\<forall>q k. r = Some q \<longrightarrow> k < 20 \<longrightarrow> heap_data m2 (q + k) = heap_data m1 (12 + k))"
proof -
  obtain m1 where m1: "rt_smem_alloc demo_heap 20 = Inr (Some 12, m1)" "smem_inv m1 ([] @ (0, True) # [(32, False)])"
    "heap_end m1 = 112" by (rule demo_heap_alloc)
  have "heap_end m1 = mem_size_aligned m1 + 12" using m1(2) unfolding smem_inv_def laid_out_def by blast
  with m1(3) have "12 \<le> mem_size_aligned m1" by simp
  with smem_realloc_result [OF m1(2), of 40] m1(1) show ?thesis by fastforce
qed

theorem smem_alloc_wraps_witness: "rt_smem_alloc demo_heap 0xFFFFFFFE = rt_smem_alloc demo_heap 1"
  by (rule smem_alloc_wraps) (simp_all add: demo_heap_def)

theorem smem_tiny_heap_loops_witness:
  "\<exists>m. rt_smem_init 40 (\<lambda>a. 0) 1000 72 = Some m \<and> rt_smem_alloc m 4 = Inl Endless_loop"
proof -
  obtain m where m: "rt_smem_init 40 (\<lambda>a. 0) 1000 72 = Some m" "mem_size_aligned m = 8"
    by (simp add: rt_smem_init_def size_up_eq size_down_eq wadd_def wsub_def Let_def)
  have "rt_smem_alloc m 4 = Inl Endless_loop"
    by (rule smem_tiny_heap_loops [OF smem_init_result(1) [OF m(1)]]) (simp_all add: m(2) size_up_eq)
  with m(1) show ?thesis by blast
qed

end
