(* ===== verification/Spec2Isabelle.thy ===== *)
theory Spec2Isabelle
  imports Nmea_Stream Nmea_Typed Nmea_Total Nmea_Library Nmea_Sample Nmea_Robust Nmea_Roundtrip Nmea_Generator Gps_Parse Nmea_Board
    Rt_Ringbuffer Rt_Ringblk Rt_Dataqueue Rt_Mempool Rt_Mutex Rt_Scheduler Rt_Event Rt_Mailbox Rt_Mqueue Rt_Timer Rt_Printf Rt_String Rt_Smem
begin

text \<open>
  Verification of the NMEA parsers and generators of this repository and of the RT-Thread services below
  them.  Bytes of a receiver come in through a ring buffer of the device framework, are cut into sentences,
  checked, decoded into packets and merged into one summary of position, time and satellites; the
  simulator goes the other way and prints sentences from a summary that its generators move.  Text and
  memory functions, formatted output and the heap are the kernel's.

  \<^bold>\<open>The stream parser\<close> (\<open>bsp/simulator_nmea/applications/nmea/nmea_parse.c\<close> and \<open>.h\<close>).

    \<^item> \<open>Nmea_Types\<close>: the structs of \<open>nmea_parse.h\<close> as records, the packet mask as a datatype.
    \<^item> \<open>Nmea_Tok\<close>: \<open>nmea_atoi\<close>, \<open>nmea_atof\<close> and the token machine of \<open>nmea_scanf\<close>.
    \<^item> \<open>Nmea_Sentence\<close>, \<open>Nmea_Satellites\<close>: framing and checksum (\<open>nmea_find_tail\<close>), \<open>nmea_pack_type\<close>, the time
      field and one parser per sentence.  The lemmas decode a whole sentence field by field and show that an
      accepted sentence has the right frame.
    \<^item> \<open>Nmea_Info\<close>: the functions that merge a packet into \<open>nmea_info_t\<close>, with the bounds of the satellite table.
    \<^item> \<open>Nmea_Queue\<close>: the packet queue in an explicit heap whose \<open>rt_malloc\<close> may fail; interface \<open>packet_queue\<close>.
    \<^item> \<open>Nmea_Parser\<close>, \<open>Nmea_Stream\<close>: buffer, \<open>nmea_parser_push\<close>, \<open>nmea_parse\<close>.  A push refines the pair of
      pending text and queued packets, the cut of the input into chunks does not matter, \<open>nmea_parse\<close> merges in
      order.  \<open>packet_drain\<close> extends \<open>packet_queue\<close> by the consumer's loop.
    \<^item> \<open>Nmea_Typed\<close>: the C types as an invariant: integers stay in range and arrays keep their length, on any input.
    \<^item> \<open>Nmea_Library\<close>: the ancestor in \<open>nmealib\<close> (\<open>parse.c\<close>, \<open>parser.c\<close>, \<open>context.c\<close> of the package below), with
      its trace and error callbacks; up to its reports it is the same parser.
    \<^item> \<open>Nmea_Robust\<close>: what the scanner stores of any text, and with it that only the time field can make a sentence
      parser fault.
    \<^item> \<open>Nmea_Total\<close>: \<open>nmea_parser_push\<close> and \<open>nmea_parse\<close> on any input, state and allocator: they return, with the
      invariants and the C types kept, or fault for one of a few named causes.  \<open>packet_drain\<close> is interpreted again, on
      the queue alone.

  \<^bold>\<open>The generators\<close> (\<open>bsp/simulator/packages/nmealib-latest/src\<close>).

    \<^item> \<open>C_Format\<close>: the conversions of \<open>vsnprintf\<close> that the printers use.
    \<^item> \<open>Nmea_Generate\<close>: \<open>tok.c\<close> (\<open>nmea_printf\<close>, checksum), \<open>sentence.c\<close> and \<open>generate.c\<close>.
    \<^item> \<open>Nmea_Roundtrip\<close>: what is printed is framed, and parses back to the packet rounded to the printed digits.
    \<^item> \<open>Nmea_Gmath\<close>: \<open>gmath.c\<close> over the reals: conversions, distance and movement on the sphere and the ellipsoid.
    \<^item> \<open>Nmea_Generator\<close>: \<open>generator.c\<close>, chains of callbacks; ranges that every turn of the loop keeps.

  \<^bold>\<open>The board parser\<close> (\<open>bsp/stm32l475_nmealib/applications/gps_parse\<close>): \<open>Gps_Parse\<close> models the section
  pointers, the field decoders and the narrow stores of \<open>gps_parse.c\<close>, and \<open>convert_time.c\<close>.  \<open>Nmea_Board\<close> models the
  rearranged sentence parsers of the board (\<open>applications/nmea/nmea_parse.c\<close>, also in \<open>bsp/nmea_parse_lib\<close>) and shows
  that they decode as the simulator's do on a zeroed stack.

  \<^bold>\<open>The RT-Thread services\<close> (\<open>rt-thread/components/drivers/ipc\<close>, \<open>rt-thread/src\<close>).

    \<^item> \<open>Rt_Def\<close>: error codes and alignment macros.
    \<^item> \<open>Rt_Threads\<close>: threads that wait on the list of a kernel object, for any type of calls; how lists of waiters and the
      number of resumed threads change when a thread blocks, leaves, is woken or times out.
    \<^item> \<open>Rt_Ringbuffer\<close>: \<open>ringbuffer.c\<close>, with mirror bits and 15-bit indices, refines a bounded queue of bytes;
      interface \<open>byte_fifo\<close>.
    \<^item> \<open>Rt_Ringblk\<close>: \<open>ringblk_buf.c\<close>.  The descriptors are a table, the two lists are threaded through it; in
      every reachable state the blocks in use are disjoint and are handed out in order.
    \<^item> \<open>Rt_Dataqueue\<close>: \<open>dataqueue.c\<close>.  Any number of threads, timers and resets interleave; the queue is first in first
      out, no call faults and no wake-up of a reader or a writer is lost.
    \<^item> \<open>Rt_Mempool\<close>: \<open>mempool.c\<close>.  The free list runs through the words in front of the blocks; under any interleaving the
      blocks held are apart and no wake-up is lost.
    \<^item> \<open>Rt_Ipc\<close>: what the objects of \<open>ipc.c\<close> share, lists of suspended threads by arrival or priority and calls that suspend
      and go on; the semaphore, which gives out what it was given.
    \<^item> \<open>Rt_Mutex\<close>: ownership, recursive holds and the priorities that waiting threads lend.  Mutual exclusion; inheritance
      works with one mutex, and two runs with two mutexes on which it does not.
    \<^item> \<open>Rt_Scheduler\<close>: \<open>scheduler.c\<close> for one processor and \<open>thread.c\<close>.  The processor goes to the most urgent ready thread,
      the lists, the bits of the priority group and the states of threads agree, equal priorities take turns.  A switch of
      context is the next thread's call; the objects on which threads wait are in the other theories.
    \<^item> \<open>Rt_Event\<close>: event sets; no thread waits while its condition holds, flags that are cleared go to one thread.
    \<^item> \<open>Rt_Mailbox\<close>, \<open>Rt_Mqueue\<close>: mailboxes and message queues refine lists of words and of texts, and no wake-up is lost on
      either side.  A message is copied between two sections, so a thread can hold one that is in no list.
    \<^item> \<open>Rt_Timer\<close>: \<open>timer.c\<close> and \<open>clock.c\<close>, hard timers over a tick of 32 bits that wraps.  The list stays in the order of
      the time that is left, a timer fires at its tick and at no other; a periodic timer of 0 ticks stops the system.
    \<^item> \<open>Rt_String\<close>: the memory and string functions of \<open>kservice.c\<close>: the word loops do what a byte loop does.
    \<^item> \<open>Rt_Printf\<close>: \<open>rt_vsnprintf\<close> of \<open>kservice.c\<close>: it stays inside its buffer, decimal numbers come out as
      from the C library; four conversions that differ from the standard.
    \<^item> \<open>Rt_Smem\<close>: the allocator of \<open>mem.c\<close>, headers at offsets of the heap it manages: blocks tile the heap,
      allocation is first fit, release merges the neighbours, a client that keeps to its blocks is safe.

  \<^bold>\<open>The application\<close> (\<open>examples/nmea_sample.c\<close> of the package): \<open>Nmea_Sample\<close> composes the message queue with the
  parser.  The callback of the serial device sends one message per block, and the thread reads the block, parses
  it and prints the position: the summary follows the stream however the driver cuts it.

  \<^bold>\<open>Conventions.\<close>  The prelude \<open>Nmea_Prelude\<close> holds the type of faults, the result monad \<open>bindR\<close>, C characters and
  integers, and the collection \<open>cdefs\<close>.  A null dereference, a write outside an object, a failed assertion, a
  double free or a loop that does not end is a value \<open>Inl\<close> of the result, so a theorem that states \<open>Inr\<close> excludes
  them.  Integers wrap at the width of the source (\<open>int\<close>, \<open>long\<close> and pointers 32 bits) or are words of that width.
  \<open>float\<close> and \<open>double\<close> are real numbers: rounding is not modelled, domain errors are.  A conversion of a \<open>double\<close> to
  \<open>int\<close> that is out of range, undefined in C, saturates as it does on the targets (\<open>to_int\<close>).  What the C library or
  the world decides (uninitialised memory, \<open>rand\<close>, \<open>gmtime\<close>, \<open>mktime\<close>, the outcome of an allocation) is an argument.

  \<^bold>\<open>Fuel.\<close>  Loops over lists and numbers end by a measure.  Walks through linked lists carry fuel: the length of the
  descriptor table in \<open>Rt_Ringblk\<close>, where a list has no more nodes, and the number of aligned offsets in \<open>Rt_Smem\<close>, where
  headers are at distinct ones, and \<open>max_msgs\<close> in the reset of \<open>Rt_Mqueue\<close>, which is all messages there are; running out is the fault \<open>Endless_loop\<close>, and the safety theorems show that no call on
  a reachable state runs out.  The parser's loops consume at least a byte of a finite input per turn.  The loop of
  \<open>rt_timer_check\<close> is a partial function, \<open>None\<close> for a loop that does not end; both cases are proved to happen.  The iterations of
  the ellipsoid are bounded by the source itself.

  \<^bold>\<open>Not modelled.\<close>  The other modules of the device framework (\<open>pipe.c\<close>, \<open>workqueue.c\<close>),
  software timers, objects, hooks, signals and multiprocessor scheduling of the kernel, the vendor HAL and board start-up code, the shell
  commands and the other threads of the applications (device input and output).  The destructors \<open>rt_rbb_destroy\<close> and
  \<open>rt_ringbuffer_destroy\<close> only give memory back.  In \<open>mem.c\<close>, \<open>rt_smem_detach\<close> and the trace commands are left out; clients of
  the heap write into their own blocks only.  Concurrency is modelled where threads wait, in \<open>Rt_Dataqueue\<close>, \<open>Rt_Mempool\<close>
  and the theories of \<open>ipc.c\<close>: a section with interrupts disabled is one step, and so is a reset as a whole.  Objects are
  not detached while their threads go on.  The callers of the other modules lock.
\<close>

end
